(* ===== verification/Kern_Prelude.thy ===== *)
theory Kern_Prelude
  imports Main "HOL-Library.Word" "HOL-Library.Multiset"
begin

text \<open>
  Shared vocabulary of the kernel development: the error numbers of
  \<^verbatim>\<open>sys/errno.h\<close> that the modelled code returns, the outcome of a kernel routine that
  may panic or run off an array, the 32-bit arithmetic of the ILP32 kernel
  (\<^verbatim>\<open>ulong_t\<close>, \<^verbatim>\<open>size_t\<close> and \<^verbatim>\<open>long\<close> are 32 bits wide), and list lemmas
  used by several components.
\<close>

named_theorems state_simps
  "what an update of a kernel state leaves of the parts that a component's invariant speaks of"

section \<open>Error numbers and outcomes\<close>

datatype errno =
    EPERM | ENOENT | EINTR | E2BIG | EAGAIN | ENOMEM | EACCES | EFAULT | EEXIST
  | EBADF | EINVAL | EFBIG | ENOSPC | ERANGE | EIDRM | EOVERFLOW | ENOMSG

text \<open>
  \<open>Done\<close> carries the result of a routine that returned, \<open>Panic\<close> is a call of
  \<^verbatim>\<open>panic()\<close>, and \<open>Overrun\<close> is an access outside the array the routine was given or through
  a pointer to nothing, which C leaves undefined.
\<close>

datatype 'a outcome = Done 'a | Panic | Overrun

fun bind_outcome :: "'a outcome \<Rightarrow> ('a \<Rightarrow> 'b outcome) \<Rightarrow> 'b outcome" where
  "bind_outcome (Done x) f = f x"
| "bind_outcome Panic f = Panic"
| "bind_outcome Overrun f = Overrun"

lemma bind_outcome_Done [simp]:
  "bind_outcome r f = Done y \<longleftrightarrow> (\<exists>x. r = Done x \<and> f x = Done y)"
  by (cases r) auto

lemma Done_bind_outcome [simp]:
  "Done y = bind_outcome r f \<longleftrightarrow> (\<exists>x. r = Done x \<and> f x = Done y)"
  by (cases r) auto

lemma bind_outcome_assoc:
  "bind_outcome (bind_outcome r f) g = bind_outcome r (\<lambda>x. bind_outcome (f x) g)"
  by (cases r) simp_all

section \<open>32-bit arithmetic\<close>

text \<open>Unsigned 32-bit values are natural numbers with the wrap-around written out.\<close>

type_synonym ulong = nat

type_synonym byte = "8 word"

definition uadd :: "ulong \<Rightarrow> ulong \<Rightarrow> ulong" where
  "uadd a b = (a + b) mod 2 ^ 32"

definition usub :: "ulong \<Rightarrow> ulong \<Rightarrow> ulong" where
  "usub a b = (a + (2 ^ 32 - b mod 2 ^ 32)) mod 2 ^ 32"

lemma uadd_exact [simp]: "a + b < 4294967296 \<Longrightarrow> uadd a b = a + b"
  by (simp add: uadd_def)

lemma uadd_less [simp]: "uadd a b < 4294967296"
  by (simp add: uadd_def)

lemma usub_exact [simp]:
  assumes "b \<le> a" and "a < 4294967296"
  shows "usub a b = a - b"
proof -
  have "usub a b = (a - b + 4294967296) mod 4294967296"
    using assms by (simp add: usub_def)
  also have "\<dots> = a - b"
    using assms by (subst mod_add_self2) simp
  finally show ?thesis .
qed

text \<open>The value of a 32-bit two's complement variable after an assignment of \<open>x\<close>.\<close>

definition s32 :: "int \<Rightarrow> int" where
  "s32 x = (x + 2 ^ 31) mod 2 ^ 32 - 2 ^ 31"

lemma s32_exact [simp]: "- 2147483648 \<le> x \<Longrightarrow> x < 2147483648 \<Longrightarrow> s32 x = x"
  by (simp add: s32_def)

lemma s32_range: "- 2147483648 \<le> s32 x \<and> s32 x < 2147483648"
  by (simp add: s32_def)

lemma s32_high:
  assumes "2147483648 \<le> x" and "x < 6442450944"
  shows "s32 x = x - 4294967296"
  using assms mod_pos_geq [of 4294967296 "x + 2147483648"] by (simp add: s32_def)

text \<open>The value of a \<^verbatim>\<open>short\<close> after an assignment of \<open>x\<close>.\<close>

definition s16 :: "int \<Rightarrow> int" where
  "s16 x = (x + 2 ^ 15) mod 2 ^ 16 - 2 ^ 15"

lemma s16_exact [simp]: "- 32768 \<le> x \<Longrightarrow> x < 32768 \<Longrightarrow> s16 x = x"
  by (simp add: s16_def)

text \<open>The sign test \<^verbatim>\<open>(ssize_t)size <= 0\<close> on an unsigned 32-bit value.\<close>

definition ssize_nonpos :: "ulong \<Rightarrow> bool" where
  "ssize_nonpos n \<longleftrightarrow> n = 0 \<or> n \<ge> 2 ^ 31"

lemma int_div_bounds:
  fixes x h :: int
  assumes "0 < h"
  shows "x div h * h \<le> x" and "x < x div h * h + h"
  using pos_mod_bound [OF assms, of x] pos_mod_sign [OF assms, of x] div_mult_mod_eq [of x h]
  by linarith+

lemma int_div_less_iff:
  fixes x h s :: int
  assumes "0 < h"
  shows "x div h < s \<longleftrightarrow> x < s * h"
proof
  assume "x div h < s"
  then have "(x div h + 1) * h \<le> s * h"
    using assms by (intro mult_right_mono) auto
  moreover have "x < (x div h + 1) * h"
    using int_div_bounds [OF assms, of x] by (simp add: distrib_right)
  ultimately show "x < s * h"
    by simp
next
  assume "x < s * h"
  moreover have "x div h * h \<le> x"
    by (rule int_div_bounds [OF assms])
  ultimately have "x div h * h < s * h"
    by simp
  then show "x div h < s"
    using assms by simp
qed

section \<open>Lists\<close>

lemma takeWhile_app_stop [simp]:
  assumes "\<forall>x\<in>set xs. P x" and "\<not> P y"
  shows "takeWhile P (xs @ y # ys) = xs"
  using assms by (induction xs) auto

lemma takeWhile_split:
  assumes "length (takeWhile P xs) < length xs"
  obtains y ys where "xs = takeWhile P xs @ y # ys" and "\<not> P y"
proof -
  have "dropWhile P xs \<noteq> []"
    using assms by (metis append_Nil2 less_irrefl takeWhile_dropWhile_id)
  then obtain y ys where d: "dropWhile P xs = y # ys"
    by (cases "dropWhile P xs") auto
  then have "\<not> P y"
    by (metis hd_dropWhile list.distinct(1) list.sel(1))
  moreover have "xs = takeWhile P xs @ y # ys"
    using d by (metis takeWhile_dropWhile_id)
  ultimately show ?thesis
    using that by blast
qed

lemma last_two:
  assumes "2 \<le> length xs"
  obtains ys u v where "xs = ys @ [u, v]"
proof (cases xs rule: rev_cases)
  case Nil
  with assms show ?thesis by simp
next
  case (snoc zs v)
  with assms that show ?thesis
    by (cases zs rule: rev_cases) auto
qed

end
