(* ===== verification/Rmap.thy ===== *)
theory Rmap
  imports Kern_Prelude
begin

text \<open>
  Resource maps, \<^verbatim>\<open>uts/common/os/rmap.c\<close>. A map is an array of free segments in
  increasing address order, ended by an entry of size 0, behind a header that counts the
  unused slots. The model keeps the array (delimiter and unused slots included) as a list;
  pointers into it are positions, and a routine that would step past its end yields
  \<open>Overrun\<close>. A routine runs under the map's lock and is one function from state to state, but
  for \<open>rmfree\<close>: on overflow it drops the lock to log a message and starts again, so it is modelled
  as a sequence of sections with other users of the map in between.
\<close>

section \<open>State\<close>

record mapent =
  m_size :: ulong
  m_addr :: ulong

text \<open>
  The header: \<open>m_slots\<close> is the header's own \<^verbatim>\<open>m_size\<close> field (the name is taken by the
  segment's field), \<open>m_bcasts\<close> counts the broadcasts on \<^verbatim>\<open>m_cv\<close>.
\<close>

record rmap =
  m_free :: nat
  m_want :: nat
  m_nam :: string
  m_slots :: nat
  m_bcasts :: nat
  m_map :: "mapent list"

section \<open>Creation\<close>

text \<open>
  \<open>ovh\<close> is \<^verbatim>\<open>MAP_OVERHEAD\<close>, a function of the sizes of the two structures. \<open>mapinit\<close> works on
  memory it is given: it does not write \<^verbatim>\<open>m_want\<close> nor any slot but the first.
\<close>

definition mapinit :: "nat \<Rightarrow> rmap \<Rightarrow> ulong \<Rightarrow> ulong \<Rightarrow> string \<Rightarrow> nat \<Rightarrow> rmap outcome" where
  "mapinit ovh mp sz addr name mapsize =
     (if mapsize < ovh + 1 then Panic
      else if m_map mp = [] then Overrun
      else
        let n = mapsize - ovh;
            mp1 = mp\<lparr>m_free := n, m_slots := n, m_nam := name\<rparr>;
            mp2 = mp1\<lparr>m_map := (m_map mp1)[0 := \<lparr>m_size = sz, m_addr = addr\<rparr>]\<rparr>
        in Done (if sz \<noteq> 0 then mp2\<lparr>m_free := m_free mp2 - 1\<rparr> else mp2))"

text \<open>
  \<^verbatim>\<open>kmem_zalloc\<close> of \<^verbatim>\<open>mapsize\<close> units: the header and a zeroed array, whose usable part is the
  slots and the delimiter after them.
\<close>

definition zeroed_map :: "nat \<Rightarrow> nat \<Rightarrow> rmap" where
  "zeroed_map ovh mapsize =
     \<lparr>m_free = 0, m_want = 0, m_nam = [], m_slots = 0, m_bcasts = 0,
      m_map = replicate (mapsize - ovh + 1) \<lparr>m_size = 0, m_addr = 0\<rparr>\<rparr>"

text \<open>
  \<open>kmem_ok\<close> says whether the \<^verbatim>\<open>KM_NOSLEEP\<close> allocation succeeds. The result carries the number
  of \<^verbatim>\<open>struct map\<close> units asked of the allocator.
\<close>

definition rmallocmap :: "nat \<Rightarrow> bool \<Rightarrow> nat \<Rightarrow> (rmap \<times> nat) option outcome" where
  "rmallocmap ovh kmem_ok mapsize =
     (let mapsize' = uadd mapsize ovh in
      if kmem_ok
      then bind_outcome (mapinit ovh (zeroed_map ovh mapsize') 0 0 ''rmallocmap'' mapsize')
             (\<lambda>mp. Done (Some (mp, mapsize')))
      else Done None)"

definition rmallocmap_wait :: "nat \<Rightarrow> nat \<Rightarrow> (rmap \<times> nat) outcome" where
  "rmallocmap_wait ovh mapsize =
     (let mapsize' = uadd mapsize ovh in
      bind_outcome (mapinit ovh (zeroed_map ovh mapsize') 0 0 ''rmallocmap'' mapsize')
        (\<lambda>mp. Done (mp, mapsize')))"

text \<open>The number of \<^verbatim>\<open>struct map\<close> units handed back to \<^verbatim>\<open>kmem_free\<close>.\<close>

definition rmfreemap :: "nat \<Rightarrow> rmap \<Rightarrow> nat" where
  "rmfreemap ovh mp = ovh + m_slots mp"

section \<open>Allocation\<close>

text \<open>
  The loops that close a gap: every entry up to and including the delimiter moves one slot
  down, onto the entry the list starts with.
\<close>

fun rm_close :: "mapent list \<Rightarrow> mapent list option" where
  "rm_close (b # c # cs) =
     (if m_size c = 0 then Some (c # c # cs) else map_option ((#) c) (rm_close (c # cs)))"
| "rm_close _ = None"

text \<open>The search loop of \<open>rmalloc_locked\<close>, from \<open>bp\<close> on: address, array and freed slots.\<close>

fun rm_first_fit :: "ulong \<Rightarrow> mapent list \<Rightarrow> (ulong \<times> mapent list \<times> nat) outcome" where
  "rm_first_fit sz [] = Overrun"
| "rm_first_fit sz (b # bs) =
     (if m_size b = 0 then Done (0, b # bs, 0)
      else if m_size b \<ge> sz then
        (let addr = m_addr b;
             b' = b\<lparr>m_addr := uadd (m_addr b) sz, m_size := usub (m_size b) sz\<rparr>
         in if m_size b' = 0
            then (case rm_close (b' # bs) of None \<Rightarrow> Overrun | Some bs' \<Rightarrow> Done (addr, bs', 1))
            else Done (addr, b' # bs, 0))
      else bind_outcome (rm_first_fit sz bs) (\<lambda>(addr, bs', k). Done (addr, b # bs', k)))"

definition rmalloc_locked :: "rmap \<Rightarrow> ulong \<Rightarrow> (ulong \<times> rmap) outcome" where
  "rmalloc_locked mp sz =
     bind_outcome (rm_first_fit sz (m_map mp))
       (\<lambda>(addr, a, k). Done (addr, mp\<lparr>m_map := a, m_free := m_free mp + k\<rparr>))"

definition rmalloc :: "rmap \<Rightarrow> ulong \<Rightarrow> (ulong \<times> rmap) outcome" where
  "rmalloc mp sz = rmalloc_locked mp sz"

text \<open>
  One trip round the loop of \<open>rmalloc_wait\<close>: \<open>Some addr\<close> is its return, \<open>None\<close> means the
  caller sets \<^verbatim>\<open>mapwant\<close> and sleeps on the map's condition variable; it makes the next
  trip when it is woken.
\<close>

definition rmalloc_wait :: "rmap \<Rightarrow> ulong \<Rightarrow> (ulong option \<times> rmap) outcome" where
  "rmalloc_wait mp sz =
     bind_outcome (rmalloc_locked mp sz)
       (\<lambda>(addr, mp'). if addr = 0 then Done (None, mp'\<lparr>m_want := 1\<rparr>) else Done (Some addr, mp'))"

section \<open>Release\<close>

text \<open>The first entry that starts after \<open>addr\<close>, or the delimiter.\<close>

fun rm_locate :: "ulong \<Rightarrow> mapent list \<Rightarrow> nat option" where
  "rm_locate addr [] = None"
| "rm_locate addr (b # bs) =
     (if m_addr b \<le> addr \<and> m_size b \<noteq> 0 then map_option Suc (rm_locate addr bs) else Some 0)"

text \<open>The delimiter's position.\<close>

fun rm_final :: "mapent list \<Rightarrow> nat option" where
  "rm_final [] = None"
| "rm_final (b # bs) = (if m_size b \<noteq> 0 then map_option Suc (rm_final bs) else Some 0)"

text \<open>
  The \<^verbatim>\<open>do\<close>-loop that makes a new entry: each entry is replaced by the one carried along,
  until the carried size is 0.
\<close>

fun rm_push :: "mapent \<Rightarrow> mapent list \<Rightarrow> mapent list option" where
  "rm_push e [] = None"
| "rm_push e (b # bs) =
     (if m_size b = 0 then Some (e # bs) else map_option ((#) e) (rm_push b bs))"

text \<open>
  The discard of the smaller of the last two segments when the array is full: \<open>i\<close> is where
  the search stopped, and the final entry is looked for from there.
\<close>

definition rm_discard :: "mapent list \<Rightarrow> nat \<Rightarrow> mapent list option" where
  "rm_discard a i =
     (case rm_final (drop i a) of
        None \<Rightarrow> None
      | Some k \<Rightarrow>
          let f = i + k in
          if f < 2 then None
          else
            let j = (if m_size (a ! (f - 1)) > m_size (a ! (f - 2)) then f - 2 else f - 1);
                a1 = a[j := a ! (j + 1)]
            in Some (a1[j + 1 := (a1 ! (j + 1))\<lparr>m_size := 0\<rparr>]))"

text \<open>The wake-up at \<^verbatim>\<open>done\<close>.\<close>

definition rm_done :: "rmap \<Rightarrow> rmap" where
  "rm_done mp = (if m_want mp \<noteq> 0 then mp\<lparr>m_want := 0, m_bcasts := m_bcasts mp + 1\<rparr> else mp)"

text \<open>
  What one pass from \<^verbatim>\<open>retry\<close> does: it finishes, or it makes room, drops the lock to log the loss
  and asks for another pass.
\<close>

datatype rm_pass = Finished rmap | Again rmap

definition rmfree_pass :: "rmap \<Rightarrow> ulong \<Rightarrow> ulong \<Rightarrow> rm_pass outcome" where
  "rmfree_pass mp sz addr =
     (let a = m_map mp in
      case rm_locate addr a of
        None \<Rightarrow> Overrun
      | Some i \<Rightarrow>
          let bp = a ! i; pv = a ! (i - 1) in
          if i > 0 \<and> uadd (m_addr pv) (m_size pv) \<ge> addr then
            (if uadd (m_addr pv) (m_size pv) > addr then Panic
             else
               let pv1 = pv\<lparr>m_size := uadd (m_size pv) sz\<rparr>;
                   a1 = a[i - 1 := pv1]
               in if m_size bp \<noteq> 0 \<and> uadd addr sz \<ge> m_addr bp then
                    (if uadd addr sz > m_addr bp then Panic
                     else
                       let a2 = a1[i - 1 := pv1\<lparr>m_size := uadd (m_size pv1) (m_size bp)\<rparr>]
                       in case rm_close (drop i a2) of
                            None \<Rightarrow> Overrun
                          | Some r \<Rightarrow> Done (Finished (mp\<lparr>m_map := take i a2 @ r,
                                                         m_free := m_free mp + 1\<rparr>)))
                  else Done (Finished (mp\<lparr>m_map := a1\<rparr>)))
          else if uadd addr sz \<ge> m_addr bp \<and> m_size bp \<noteq> 0 then
            (if uadd addr sz > m_addr bp then Panic
             else Done (Finished (mp\<lparr>m_map :=
                    a[i := bp\<lparr>m_addr := usub (m_addr bp) sz, m_size := uadd (m_size bp) sz\<rparr>]\<rparr>)))
          else if m_free mp = 0 then
            (case rm_discard a i of
               None \<Rightarrow> Overrun
             | Some a' \<Rightarrow> Done (Again (mp\<lparr>m_map := a', m_free := m_free mp + 1\<rparr>)))
          else
            (case rm_push \<lparr>m_size = sz, m_addr = addr\<rparr> (drop i a) of
               None \<Rightarrow> Overrun
             | Some r \<Rightarrow> Done (Finished (mp\<lparr>m_map := take i a @ r, m_free := m_free mp - 1\<rparr>))))"

text \<open>From \<^verbatim>\<open>retry\<close>, with the lock just taken, to where it is given up.\<close>

definition rmfree_section :: "rmap \<Rightarrow> ulong \<Rightarrow> ulong \<Rightarrow> rm_pass outcome" where
  "rmfree_section mp sz addr =
     bind_outcome (rmfree_pass mp sz addr)
       (\<lambda>r. Done (case r of Finished mp' \<Rightarrow> Finished (rm_done mp') | Again mp1 \<Rightarrow> Again mp1))"

text \<open>From the entry to where the lock is given up first.\<close>

definition rmfree_enter :: "rmap \<Rightarrow> ulong \<Rightarrow> ulong \<Rightarrow> rm_pass outcome" where
  "rmfree_enter mp sz addr =
     (if addr = 0 \<or> ssize_nonpos sz then Panic else rmfree_section mp sz addr)"

text \<open>
  The loop back to \<^verbatim>\<open>retry\<close>. \<open>others\<close> is what other users do to the map, one entry for each time the
  lock is dropped; after its end they leave the map alone. The loop goes on while they use up the
  slot that was made free.
\<close>

fun rmfree_retry :: "(rmap \<Rightarrow> rmap) list \<Rightarrow> ulong \<Rightarrow> ulong \<Rightarrow> rm_pass outcome \<Rightarrow> rmap outcome" where
  "rmfree_retry others sz addr Panic = Panic"
| "rmfree_retry others sz addr Overrun = Overrun"
| "rmfree_retry others sz addr (Done (Finished mp')) = Done mp'"
| "rmfree_retry (f # fs) sz addr (Done (Again mp1)) =
     rmfree_retry fs sz addr (rmfree_section (f mp1) sz addr)"
| "rmfree_retry [] sz addr (Done (Again mp1)) =
     (case rmfree_section mp1 sz addr of
        Done (Finished mp') \<Rightarrow> Done mp' | Done (Again mp2) \<Rightarrow> Overrun | Panic \<Rightarrow> Panic | Overrun \<Rightarrow> Overrun)"

definition rmfree_among :: "(rmap \<Rightarrow> rmap) list \<Rightarrow> rmap \<Rightarrow> ulong \<Rightarrow> ulong \<Rightarrow> rmap outcome" where
  "rmfree_among others mp sz addr = rmfree_retry others sz addr (rmfree_enter mp sz addr)"

text \<open>
  The call when nobody else uses the map while the lock is dropped: the second pass starts
  with a free slot, so it never asks for a third.
\<close>

definition rmfree :: "rmap \<Rightarrow> ulong \<Rightarrow> ulong \<Rightarrow> rmap outcome" where
  "rmfree mp sz addr = rmfree_among [] mp sz addr"

lemma rmfree_alone:
  "rmfree mp sz addr =
     (if addr = 0 \<or> ssize_nonpos sz then Panic
      else bind_outcome (rmfree_pass mp sz addr)
        (\<lambda>r. case r of
               Finished mp' \<Rightarrow> Done (rm_done mp')
             | Again mp1 \<Rightarrow>
                 bind_outcome (rmfree_pass mp1 sz addr)
                   (\<lambda>r'. case r' of Finished mp' \<Rightarrow> Done (rm_done mp') | Again _ \<Rightarrow> Overrun)))"
proof (cases "rmfree_pass mp sz addr")
  case (Done r)
  then show ?thesis
  proof (cases r)
    case (Again mp1)
    with Done show ?thesis
      by (cases "rmfree_pass mp1 sz addr")
        (auto simp: rmfree_def rmfree_among_def rmfree_enter_def rmfree_section_def split: rm_pass.split)
  qed (simp add: rmfree_def rmfree_among_def rmfree_enter_def rmfree_section_def)
qed (simp_all add: rmfree_def rmfree_among_def rmfree_enter_def rmfree_section_def)

section \<open>Allocation at a given address\<close>

fun rm_holding :: "ulong \<Rightarrow> mapent list \<Rightarrow> nat option" where
  "rm_holding addr [] = None"
| "rm_holding addr (b # bs) =
     (if m_size b = 0 then Some 0
      else if m_addr b \<le> addr \<and> uadd (m_addr b) (m_size b) > addr then Some 0
      else map_option Suc (rm_holding addr bs))"

text \<open>
  Opening a gap behind entry 0 of the list: the entries up to the delimiter move one slot
  up; the delimiter's new place only has its size written.
\<close>

definition rm_open :: "mapent list \<Rightarrow> mapent list option" where
  "rm_open bs =
     (case rm_final bs of
        None \<Rightarrow> None
      | Some k \<Rightarrow>
          if k + 1 < length bs
          then Some (take 2 bs @ drop 1 (take k bs) @ (bs ! (k + 1))\<lparr>m_size := 0\<rparr> # drop (k + 2) bs)
          else None)"

definition rmget :: "rmap \<Rightarrow> ulong \<Rightarrow> ulong \<Rightarrow> (ulong \<times> rmap) outcome" where
  "rmget mp sz addr =
     (if ssize_nonpos sz then Panic
      else
        let a = m_map mp in
        case rm_holding addr a of
          None \<Rightarrow> Overrun
        | Some i \<Rightarrow>
            let bp = a ! i in
            if m_size bp = 0 then Done (0, mp)
            else if uadd (m_addr bp) (m_size bp) < uadd addr sz then Done (0, mp)
            else if m_addr bp = addr then
              (if m_size bp = sz
               then (case rm_close (drop i a) of
                       None \<Rightarrow> Overrun
                     | Some r \<Rightarrow> Done (addr, mp\<lparr>m_map := take i a @ r, m_free := m_free mp + 1\<rparr>))
               else Done (addr, mp\<lparr>m_map :=
                      a[i := bp\<lparr>m_addr := uadd (m_addr bp) sz, m_size := usub (m_size bp) sz\<rparr>]\<rparr>))
            else if uadd (m_addr bp) (m_size bp) = uadd addr sz
              then Done (addr, mp\<lparr>m_map := a[i := bp\<lparr>m_size := usub (m_size bp) sz\<rparr>]\<rparr>)
            else if m_free mp = 0 then Done (0, mp)
            else
              (case rm_open (drop i a) of
                 None \<Rightarrow> Overrun
               | Some r \<Rightarrow>
                   let hi = \<lparr>m_size = usub (uadd (m_addr bp) (m_size bp)) (uadd addr sz),
                             m_addr = uadd addr sz\<rparr>;
                       lo = bp\<lparr>m_size := usub addr (m_addr bp)\<rparr>
                   in Done (addr, mp\<lparr>m_map := take i a @ r[0 := lo, 1 := hi],
                                      m_free := m_free mp - 1\<rparr>)))"

section \<open>Well-formed maps and the units they hold free\<close>

definition map_segs :: "rmap \<Rightarrow> mapent list" where
  "map_segs mp = takeWhile (\<lambda>b. m_size b \<noteq> 0) (m_map mp)"

text \<open>
  Free segments are non-empty, lie above address 0, end below \<open>2 ^ 32\<close>, and are in
  increasing order with a gap between any two: neighbours have been combined.
\<close>

fun segs_ok :: "mapent list \<Rightarrow> bool" where
  "segs_ok [] = True"
| "segs_ok (b # bs) =
     (0 < m_size b \<and> 0 < m_addr b \<and> m_addr b + m_size b < 4294967296 \<and>
      (\<forall>c\<in>set bs. m_addr b + m_size b < m_addr c) \<and> segs_ok bs)"

definition block :: "ulong \<Rightarrow> ulong \<Rightarrow> ulong set" where
  "block sz addr = {addr ..< addr + sz}"

definition units_of :: "mapent \<Rightarrow> ulong set" where
  "units_of b = block (m_size b) (m_addr b)"

definition free_units :: "mapent list \<Rightarrow> ulong set" where
  "free_units bs = (\<Union>b\<in>set bs. units_of b)"

text \<open>A free segment touches the block on its left or on its right.\<close>

definition abuts :: "mapent list \<Rightarrow> ulong \<Rightarrow> ulong \<Rightarrow> bool" where
  "abuts bs sz addr \<longleftrightarrow>
     (\<exists>b\<in>set bs. m_addr b + m_size b = addr \<or> addr + sz = m_addr b)"

definition map_units :: "rmap \<Rightarrow> ulong set" where
  "map_units mp = free_units (map_segs mp)"

text \<open>
  Every slot behind the segments has size 0, not only the delimiter: the insertion loop of
  \<open>rmfree\<close> writes over the delimiter and leaves the slot after it to end the list.
\<close>

definition wf_map :: "rmap \<Rightarrow> bool" where
  "wf_map mp \<longleftrightarrow>
     length (m_map mp) = m_slots mp + 1 \<and>
     length (map_segs mp) \<le> m_slots mp \<and>
     m_free mp = m_slots mp - length (map_segs mp) \<and>
     segs_ok (map_segs mp) \<and>
     (\<forall>b\<in>set (drop (length (map_segs mp)) (m_map mp)). m_size b = 0)"

lemma block_empty [simp]: "block 0 a = {}"
  by (simp add: block_def)

lemma units_of_iff: "x \<in> units_of b \<longleftrightarrow> m_addr b \<le> x \<and> x < m_addr b + m_size b"
  by (auto simp: units_of_def block_def)

lemma free_units_simps [simp]:
  "free_units [] = {}"
  "free_units (b # bs) = units_of b \<union> free_units bs"
  "free_units (bs @ cs) = free_units bs \<union> free_units cs"
  by (auto simp: free_units_def)

lemma segs_ok_append [simp]:
  "segs_ok (bs @ cs) \<longleftrightarrow>
     segs_ok bs \<and> segs_ok cs \<and> (\<forall>b\<in>set bs. \<forall>c\<in>set cs. m_addr b + m_size b < m_addr c)"
  by (induction bs) auto

lemma segs_okD:
  assumes "segs_ok bs" and "b \<in> set bs"
  shows "0 < m_size b" and "0 < m_addr b" and "m_addr b + m_size b < 4294967296"
  using assms by (induction bs) auto

lemma segs_ok_apart:
  assumes "segs_ok bs" and "b \<in> set bs" and "c \<in> set bs" and "b \<noteq> c"
  shows "m_addr b + m_size b < m_addr c \<or> m_addr c + m_size c < m_addr b"
  using assms by (induction bs) auto

lemma segs_disjoint: "segs_ok (bs @ cs) \<Longrightarrow> free_units bs \<inter> free_units cs = {}"
  by (fastforce simp: free_units_def units_of_iff)

text \<open>Because neighbours are combined, a free run of units lies inside a single segment.\<close>

lemma run_in_segment:
  assumes ok: "segs_ok bs" and "0 < sz"
  shows "block sz a \<subseteq> free_units bs \<longleftrightarrow>
    (\<exists>b\<in>set bs. m_addr b \<le> a \<and> a + sz \<le> m_addr b + m_size b)"
proof
  assume sub: "block sz a \<subseteq> free_units bs"
  with \<open>0 < sz\<close> have "a \<in> free_units bs"
    by (auto simp: block_def)
  then obtain b where b: "b \<in> set bs" "a \<in> units_of b"
    by (auto simp: free_units_def)
  have "a + sz \<le> m_addr b + m_size b"
  proof (rule ccontr)
    assume "\<not> a + sz \<le> m_addr b + m_size b"
    with b have "m_addr b + m_size b \<in> block sz a"
      by (auto simp: units_of_iff block_def)
    with sub obtain c where c: "c \<in> set bs" "m_addr b + m_size b \<in> units_of c"
      by (auto simp: free_units_def)
    then have "c \<noteq> b"
      by (auto simp: units_of_iff)
    with segs_ok_apart [OF ok c(1) b(1)] segs_okD [OF ok b(1)] c(2) show False
      by (auto simp: units_of_iff)
  qed
  with b show "\<exists>b\<in>set bs. m_addr b \<le> a \<and> a + sz \<le> m_addr b + m_size b"
    by (auto simp: units_of_iff)
next
  assume "\<exists>b\<in>set bs. m_addr b \<le> a \<and> a + sz \<le> m_addr b + m_size b"
  then obtain b where "b \<in> set bs" "m_addr b \<le> a" "a + sz \<le> m_addr b + m_size b"
    by blast
  then show "block sz a \<subseteq> free_units bs"
    by (auto simp: free_units_def units_of_iff block_def)
qed

text \<open>The free segments are determined by the free units.\<close>

lemma segs_set_le:
  assumes b: "segs_ok bs" and c: "segs_ok cs" and u: "free_units bs = free_units cs"
  shows "set bs \<subseteq> set cs"
proof
  fix x assume x: "x \<in> set bs"
  have "block (m_size x) (m_addr x) \<subseteq> free_units cs"
    using x u by (auto simp: free_units_def units_of_def)
  then obtain y where y: "y \<in> set cs" "m_addr y \<le> m_addr x" "m_addr x + m_size x \<le> m_addr y + m_size y"
    using run_in_segment [OF c segs_okD(1) [OF b x]] by blast
  have "block (m_size y) (m_addr y) \<subseteq> free_units bs"
    using y(1) u by (auto simp: free_units_def units_of_def)
  then obtain z where z: "z \<in> set bs" "m_addr z \<le> m_addr y" "m_addr y + m_size y \<le> m_addr z + m_size z"
    using run_in_segment [OF b segs_okD(1) [OF c y(1)]] by blast
  have "z = x"
    using segs_ok_apart [OF b x z(1)] segs_okD(1) [OF b x] y z by fastforce
  with y z have "m_addr x = m_addr y" "m_size x = m_size y" by auto
  with y(1) show "x \<in> set cs"
    by (metis (full_types) mapent.equality unit.exhaust)
qed

lemma segs_canonical:
  assumes "segs_ok bs" and "segs_ok cs" and "free_units bs = free_units cs"
  shows "bs = cs"
proof -
  have "set bs = set cs"
    using segs_set_le [of bs cs] segs_set_le [of cs bs] assms by auto
  with assms(1,2) show ?thesis
  proof (induction bs arbitrary: cs)
    case (Cons b bs)
    then obtain c cs' where c: "cs = c # cs'" by (cases cs) auto
    have "b = c"
      using Cons.prems c by (metis less_asym' list.set_intros(1) segs_ok.simps(2) set_ConsD trans_less_add1)
    moreover have "b \<notin> set bs" "c \<notin> set cs'"
      using Cons.prems c by auto
    ultimately have "set bs = set cs'"
      using Cons.prems(3) c by (metis insert_ident list.simps(15))
    with Cons c \<open>b = c\<close> show ?case by simp
  qed simp
qed

text \<open>A well-formed map's array is its segments, the delimiter, and slots not in use.\<close>

definition laid_out :: "rmap \<Rightarrow> mapent list \<Rightarrow> mapent \<Rightarrow> mapent list \<Rightarrow> bool" where
  "laid_out mp bs d junk \<longleftrightarrow>
     m_map mp = bs @ d # junk \<and> m_size d = 0 \<and> segs_ok bs \<and>
     (\<forall>b\<in>set junk. m_size b = 0) \<and>
     m_slots mp = length bs + length junk \<and> m_free mp = length junk"

lemma segs_ok_live: "segs_ok bs \<Longrightarrow> \<forall>b\<in>set bs. m_size b \<noteq> 0"
  by (induction bs) auto

lemma laid_out_segs: "laid_out mp bs d junk \<Longrightarrow> map_segs mp = bs"
  using segs_ok_live [of bs] by (simp add: laid_out_def map_segs_def)

lemma laid_out_wf: "laid_out mp bs d junk \<Longrightarrow> wf_map mp \<and> map_segs mp = bs"
  using laid_out_segs [of mp bs d junk] by (auto simp: laid_out_def wf_map_def)

lemma wf_laid_out:
  assumes "wf_map mp"
  obtains d junk where "laid_out mp (map_segs mp) d junk"
proof -
  have "length (map_segs mp) < length (m_map mp)"
    using assms by (simp add: wf_map_def)
  then obtain d junk where l: "m_map mp = map_segs mp @ d # junk" "m_size d = 0"
    unfolding map_segs_def by (rule takeWhile_split) blast
  have "length (m_map mp) = length (map_segs mp) + Suc (length junk)"
    by (subst l(1)) simp
  moreover have "drop (length (map_segs mp)) (m_map mp) = d # junk"
    by (subst l(1)) simp
  ultimately have "laid_out mp (map_segs mp) d junk"
    using assms l by (auto simp: laid_out_def wf_map_def)
  then show ?thesis
    using that by blast
qed

section \<open>First fit\<close>

lemma rm_close_segs:
  assumes "\<forall>b\<in>set bs. m_size b \<noteq> 0" and "m_size d = 0"
  shows "rm_close (b # bs @ d # junk) = Some (bs @ d # d # junk)"
  using assms by (induction bs arbitrary: b) auto

lemma rm_first_fit_none:
  assumes "\<forall>b\<in>set bs. m_size b \<noteq> 0 \<and> m_size b < sz" and "m_size d = 0"
  shows "rm_first_fit sz (bs @ d # junk) = Done (0, bs @ d # junk, 0)"
  using assms by (induction bs) auto

lemma rm_first_fit_some:
  assumes "segs_ok (l @ b # r)" and "\<forall>x\<in>set l. m_size x < sz"
    and "sz \<le> m_size b" and "m_size d = 0"
  shows "rm_first_fit sz (l @ b # r @ d # junk) =
    Done (m_addr b,
      l @ (if m_size b = sz then r @ d # d # junk
           else b\<lparr>m_addr := m_addr b + sz, m_size := m_size b - sz\<rparr> # r @ d # junk),
      if m_size b = sz then 1 else 0)"
  using assms
proof (induction l)
  case Nil
  then show ?case
    by (auto simp: Let_def rm_close_segs segs_ok_live)
next
  case (Cons x l)
  then show ?case by auto
qed

text \<open>The list of free segments after \<open>sz\<close> units have been cut from the front of \<open>b\<close>.\<close>

definition cut_front :: "ulong \<Rightarrow> mapent \<Rightarrow> mapent list" where
  "cut_front sz b =
     (if m_size b = sz then [] else [b\<lparr>m_addr := m_addr b + sz, m_size := m_size b - sz\<rparr>])"

lemma cut_front_ok:
  assumes "segs_ok (l @ b # r)" and "0 < sz" and "sz \<le> m_size b"
  shows "segs_ok (l @ cut_front sz b @ r)"
    and "free_units (l @ cut_front sz b @ r) = free_units (l @ b # r) - block sz (m_addr b)"
proof -
  show "segs_ok (l @ cut_front sz b @ r)"
    using assms by (fastforce simp: cut_front_def)
  have out: "block sz (m_addr b) \<inter> free_units l = {}" "block sz (m_addr b) \<inter> free_units r = {}"
    using assms by (fastforce simp: free_units_def units_of_iff block_def)+
  have "free_units (cut_front sz b) = units_of b - block sz (m_addr b)"
    using assms by (auto simp: cut_front_def units_of_iff block_def)
  then show "free_units (l @ cut_front sz b @ r) = free_units (l @ b # r) - block sz (m_addr b)"
    using out by auto
qed

lemma segs_bracket:
  assumes "segs_ok (l @ b # r)" and "\<forall>x\<in>set l. m_size x < sz" and "0 < sz"
    and "c \<in> set (l @ b # r)" and "m_addr c \<le> a" and "a + sz \<le> m_addr c + m_size c"
  shows "m_addr b \<le> a"
  using assms by fastforce

text \<open>
  What \<open>rmalloc\<close> does to the set of free units: it takes the lowest run of \<open>sz\<close> units
  that is free, and fails when there is none.
\<close>

lemma rmalloc_cases:
  assumes wf: "wf_map mp" and pos: "0 < sz"
  obtains (none) "rmalloc mp sz = Done (0, mp)" and "\<forall>a. \<not> block sz a \<subseteq> map_units mp"
  | (fit) addr mp' where "rmalloc mp sz = Done (addr, mp')" and "0 < addr" and "wf_map mp'"
      and "block sz addr \<subseteq> map_units mp" and "map_units mp' = map_units mp - block sz addr"
      and "\<forall>a. block sz a \<subseteq> map_units mp \<longrightarrow> addr \<le> a"
      and "m_slots mp' = m_slots mp" and "0 < m_free mp' \<or> abuts (map_segs mp') sz addr"
proof -
  from wf obtain d junk where lay: "laid_out mp (map_segs mp) d junk"
    by (rule wf_laid_out)
  let ?bs = "map_segs mp"
  have ok: "segs_ok ?bs" and d: "m_size d = 0" and arr: "m_map mp = ?bs @ d # junk"
    using lay by (auto simp: laid_out_def)
  show ?thesis
  proof (cases "\<exists>b\<in>set ?bs. sz \<le> m_size b")
    case False
    then have small: "\<forall>b\<in>set ?bs. m_size b \<noteq> 0 \<and> m_size b < sz"
      using segs_ok_live [OF ok] by auto
    have "rmalloc mp sz = Done (0, mp)"
      using rm_first_fit_none [OF small d, of junk] arr
      by (simp add: rmalloc_def rmalloc_locked_def)
    moreover have "\<not> block sz a \<subseteq> map_units mp" for a
      using small run_in_segment [OF ok pos] by (fastforce simp: map_units_def)
    ultimately show ?thesis
      using none by blast
  next
    case True
    then obtain l b r where seg: "?bs = l @ b # r" and b: "sz \<le> m_size b"
      and l: "\<forall>x\<in>set l. m_size x < sz"
      using split_list_first_prop [of ?bs "\<lambda>b. sz \<le> m_size b"] by (auto simp: not_le)
    note ok' = ok [unfolded seg]
    define a' where "a' = l @ (if m_size b = sz then r @ d # d # junk
       else b\<lparr>m_addr := m_addr b + sz, m_size := m_size b - sz\<rparr> # r @ d # junk)"
    define mp' where "mp' = mp\<lparr>m_map := a', m_free := m_free mp + (if m_size b = sz then 1 else 0)\<rparr>"
    have run: "rmalloc mp sz = Done (m_addr b, mp')"
      using rm_first_fit_some [OF ok' l b d, of junk] arr seg
      by (simp add: rmalloc_def rmalloc_locked_def a'_def mp'_def)
    have "laid_out mp' (l @ cut_front sz b @ r) d (if m_size b = sz then d # junk else junk)"
      using cut_front_ok(1) [OF ok' pos b] lay seg
      by (auto simp: laid_out_def mp'_def a'_def cut_front_def)
    then have wf': "wf_map mp'" and seg': "map_segs mp' = l @ cut_front sz b @ r"
      using laid_out_wf by blast+
    have units: "map_units mp' = map_units mp - block sz (m_addr b)"
      using cut_front_ok(2) [OF ok' pos b] by (simp add: map_units_def seg seg')
    have sub: "block sz (m_addr b) \<subseteq> map_units mp"
      using b by (auto simp: map_units_def seg units_of_iff block_def)
    have low: "m_addr b \<le> a" if "block sz a \<subseteq> map_units mp" for a
      using that segs_bracket [OF ok' l pos] run_in_segment [OF ok' pos, of a]
      by (auto simp only: map_units_def seg)
    show ?thesis
      using ok' low by (intro fit [OF run _ wf' sub units])
        (auto simp: mp'_def seg' [unfolded mp'_def] cut_front_def abuts_def)
  qed
qed

section \<open>Release\<close>

lemma rm_locate_split:
  assumes "segs_ok (l @ r)" and "\<forall>b\<in>set l. m_addr b \<le> addr"
    and "\<forall>b\<in>set r. addr < m_addr b" and "m_size d = 0"
  shows "rm_locate addr (l @ r @ d # junk) = Some (length l)"
  using assms
proof (induction l)
  case Nil
  then show ?case by (cases r) auto
qed auto

lemma rm_final_segs:
  assumes "\<forall>b\<in>set bs. m_size b \<noteq> 0" and "m_size d = 0"
  shows "rm_final (bs @ d # junk) = Some (length bs)"
  using assms by (induction bs) auto

lemma rm_push_segs:
  assumes "\<forall>b\<in>set bs. m_size b \<noteq> 0" and "m_size d = 0"
  shows "rm_push e (bs @ d # junk) = Some (e # bs @ junk)"
  using assms by (induction bs arbitrary: e) auto

text \<open>The segments below and above \<open>addr\<close>.\<close>

lemma segs_around:
  assumes "segs_ok bs"
  obtains l r where "bs = l @ r" and "\<forall>b\<in>set l. m_addr b \<le> addr"
    and "\<forall>b\<in>set r. addr < m_addr b"
proof
  let ?l = "takeWhile (\<lambda>b. m_addr b \<le> addr) bs" and ?r = "dropWhile (\<lambda>b. m_addr b \<le> addr) bs"
  show "bs = ?l @ ?r" by simp
  show "\<forall>b\<in>set ?l. m_addr b \<le> addr"
    by (auto dest: set_takeWhileD)
  show "\<forall>b\<in>set ?r. addr < m_addr b"
    using assms
  proof (induction bs)
    case (Cons b bs)
    then show ?case by auto
  qed simp
qed

text \<open>Arguments \<open>rmfree\<close> accepts: a non-empty block above 0 that does not wrap around.\<close>

definition good_block :: "ulong \<Rightarrow> ulong \<Rightarrow> bool" where
  "good_block sz addr \<longleftrightarrow> 0 < addr \<and> \<not> ssize_nonpos sz \<and> addr + sz < 4294967296"

lemma good_blockD:
  assumes "good_block sz addr"
  shows "0 < addr" and "0 < sz" and "addr + sz < 4294967296" and "\<not> ssize_nonpos sz"
  using assms by (auto simp: good_block_def ssize_nonpos_def)

text \<open>
  The effect of one pass on the free segments, branch by branch: \<open>l\<close> and \<open>r\<close> are the
  segments on the two sides of \<open>addr\<close>.
\<close>

lemma pass_join_left:
  assumes lay: "laid_out mp (l @ p # r) d junk" and good: "good_block sz addr"
    and l: "\<forall>b\<in>set (l @ [p]). m_addr b \<le> addr" and r: "\<forall>b\<in>set r. addr + sz < m_addr b"
    and p: "m_addr p + m_size p = addr"
  shows "rmfree_pass mp sz addr =
    Done (Finished (mp\<lparr>m_map := l @ p\<lparr>m_size := m_size p + sz\<rparr> # r @ d # junk\<rparr>))"
proof -
  have ok: "segs_ok ((l @ [p]) @ r)" and d: "m_size d = 0" and arr: "m_map mp = (l @ [p]) @ r @ d # junk"
    using lay by (auto simp: laid_out_def)
  have loc: "rm_locate addr (m_map mp) = Some (length (l @ [p]))"
    unfolding arr by (rule rm_locate_split [OF ok l _ d]) (use r in fastforce)
  have bp: "(r @ d # junk) ! 0 = d \<or> addr + sz < m_addr ((r @ d # junk) ! 0)"
    using r by (cases r) auto
  show ?thesis
    using loc bp p good_blockD [OF good] d
    by (auto simp: rmfree_pass_def Let_def arr nth_append list_update_append)
qed

lemma pass_join_both:
  assumes lay: "laid_out mp (l @ p # q # r) d junk" and good: "good_block sz addr"
    and l: "\<forall>b\<in>set (l @ [p]). m_addr b \<le> addr"
    and p: "m_addr p + m_size p = addr" and q: "addr + sz = m_addr q"
  shows "rmfree_pass mp sz addr =
    Done (Finished (mp\<lparr>m_map := l @ p\<lparr>m_size := m_size p + sz + m_size q\<rparr> # r @ d # d # junk,
                       m_free := m_free mp + 1\<rparr>))"
proof -
  have ok: "segs_ok ((l @ [p]) @ q # r)" and d: "m_size d = 0"
    and arr: "m_map mp = (l @ [p]) @ q # r @ d # junk"
    using lay by (auto simp: laid_out_def)
  have q0: "m_size q \<noteq> 0" "m_addr q + m_size q < 4294967296"
    using segs_okD [OF ok, of q] by auto
  have loc: "rm_locate addr (m_map mp) = Some (length (l @ [p]))"
    using rm_locate_split [OF ok l _ d, of junk] ok q good_blockD(2) [OF good] q0
    by (fastforce simp: arr)
  have close: "rm_close (q # r @ d # junk) = Some (r @ d # d # junk)"
    using segs_ok_live [OF ok] d by (intro rm_close_segs) auto
  show ?thesis
    using loc p q q0 good_blockD [OF good] d close
    by (auto simp: rmfree_pass_def Let_def arr nth_append list_update_append)
qed

lemma clear_of_left:
  assumes "\<forall>b\<in>set l. m_addr b + m_size b < addr" and "addr < 4294967296"
  shows "\<not> (0 < length l \<and>
    addr \<le> uadd (m_addr ((l @ xs) ! (length l - 1))) (m_size ((l @ xs) ! (length l - 1))))"
proof (cases l rule: rev_cases)
  case (snoc ys y)
  with assms show ?thesis by (simp add: nth_append)
qed simp

lemma pass_join_right:
  assumes lay: "laid_out mp (l @ q # r) d junk" and good: "good_block sz addr"
    and l: "\<forall>b\<in>set l. m_addr b + m_size b < addr" and q: "addr + sz = m_addr q"
  shows "rmfree_pass mp sz addr =
    Done (Finished (mp\<lparr>m_map := l @ q\<lparr>m_addr := addr, m_size := m_size q + sz\<rparr> # r @ d # junk\<rparr>))"
proof -
  have ok: "segs_ok (l @ q # r)" and d: "m_size d = 0" and arr: "m_map mp = l @ (q # r) @ d # junk"
    using lay by (auto simp: laid_out_def)
  have q0: "m_size q \<noteq> 0" "m_addr q + m_size q < 4294967296"
    using segs_okD [OF ok, of q] by auto
  have loc: "rm_locate addr (m_map mp) = Some (length l)"
    unfolding arr using ok q good_blockD(2) [OF good] q0 l
    by (intro rm_locate_split [OF ok _ _ d]) fastforce+
  have pv: "\<not> (0 < length l \<and>
      addr \<le> uadd (m_addr (m_map mp ! (length l - 1))) (m_size (m_map mp ! (length l - 1))))"
    unfolding arr using l good_blockD [OF good] by (intro clear_of_left) auto
  have "m_map mp ! length l = q"
    by (simp add: arr)
  then show ?thesis
    using q q0 good_blockD [OF good]
    unfolding rmfree_pass_def Let_def loc option.case if_not_P [OF pv]
    by (simp add: arr)
qed

lemma pass_new_entry:
  assumes lay: "laid_out mp (l @ r) d (j # junk)" and good: "good_block sz addr"
    and l: "\<forall>b\<in>set l. m_addr b + m_size b < addr" and r: "\<forall>b\<in>set r. addr + sz < m_addr b"
  shows "rmfree_pass mp sz addr =
    Done (Finished (mp\<lparr>m_map := l @ \<lparr>m_size = sz, m_addr = addr\<rparr> # r @ j # junk,
                       m_free := m_free mp - 1\<rparr>))"
proof -
  have ok: "segs_ok (l @ r)" and d: "m_size d = 0" and arr: "m_map mp = l @ r @ d # j # junk"
    and fr: "m_free mp \<noteq> 0"
    using lay by (auto simp: laid_out_def)
  have loc: "rm_locate addr (m_map mp) = Some (length l)"
    unfolding arr using l r good_blockD(2) [OF good]
    by (intro rm_locate_split [OF ok _ _ d]) fastforce+
  have pv: "\<not> (0 < length l \<and>
      addr \<le> uadd (m_addr (m_map mp ! (length l - 1))) (m_size (m_map mp ! (length l - 1))))"
    unfolding arr using l good_blockD [OF good] by (intro clear_of_left) auto
  have bp: "\<not> (m_addr (m_map mp ! length l) \<le> uadd addr sz \<and> m_size (m_map mp ! length l) \<noteq> 0)"
    using r d good_blockD [OF good] by (cases r) (auto simp: arr nth_append)
  have push: "rm_push e (r @ d # j # junk) = Some (e # r @ j # junk)" for e
    using segs_ok_live [OF ok] d by (intro rm_push_segs) auto
  show ?thesis
    unfolding rmfree_pass_def Let_def loc option.case if_not_P [OF pv] if_not_P [OF bp]
      if_not_P [OF fr]
    by (simp add: arr push)
qed

lemma pass_discard:
  assumes lay: "laid_out mp (l @ r) d []" and good: "good_block sz addr"
    and l: "\<forall>b\<in>set l. m_addr b + m_size b < addr" and r: "\<forall>b\<in>set r. addr + sz < m_addr b"
    and lr: "l @ r = ys @ [u, v]"
  shows "\<exists>d'. m_size d' = 0 \<and> rmfree_pass mp sz addr =
    Done (Again (mp\<lparr>m_map := (if m_size v > m_size u then ys @ [v, d', d] else ys @ [u, d, d']),
                    m_free := 1\<rparr>))"
proof -
  have ok: "segs_ok (l @ r)" and d: "m_size d = 0" and arr: "m_map mp = l @ r @ [d]"
    and fr: "m_free mp = 0"
    using lay by (auto simp: laid_out_def)
  have arr': "m_map mp = ys @ [u, v, d]"
    using arr lr by (metis append.assoc append_Cons append_Nil)
  have loc: "rm_locate addr (m_map mp) = Some (length l)"
    unfolding arr using l r good_blockD(2) [OF good]
    by (intro rm_locate_split [OF ok _ _ d]) fastforce+
  have pv: "\<not> (0 < length l \<and>
      addr \<le> uadd (m_addr (m_map mp ! (length l - 1))) (m_size (m_map mp ! (length l - 1))))"
    unfolding arr using l good_blockD [OF good] by (intro clear_of_left) auto
  have bp: "\<not> (m_addr (m_map mp ! length l) \<le> uadd addr sz \<and> m_size (m_map mp ! length l) \<noteq> 0)"
    using r d good_blockD [OF good] by (cases r) (auto simp: arr nth_append)
  have fin: "rm_final (drop (length l) (m_map mp)) = Some (length r)"
    using rm_final_segs [of r d "[]"] segs_ok_live [OF ok] d by (auto simp: arr)
  have f: "length l + length r = length ys + 2"
    using arg_cong [OF lr, of length] by simp
  have disc: "rm_discard (m_map mp) (length l) =
    Some (if m_size v > m_size u then ys @ [v, v\<lparr>m_size := 0\<rparr>, d] else ys @ [u, d, d\<lparr>m_size := 0\<rparr>])"
    unfolding rm_discard_def fin option.case f
    by (simp add: arr' Let_def nth_append list_update_append numeral_2_eq_2)
  show ?thesis
    unfolding rmfree_pass_def Let_def loc option.case if_not_P [OF pv] if_not_P [OF bp]
      if_P [OF fr] disc
    by (intro exI [of _ "if m_size v > m_size u then v\<lparr>m_size := 0\<rparr> else d\<lparr>m_size := 0\<rparr>"])
      (simp add: fr)
qed

lemma sides_clear:
  assumes "segs_ok (l @ r)" and "\<forall>b\<in>set l. m_addr b \<le> addr" and "\<forall>b\<in>set r. addr < m_addr b"
    and "0 < sz" and "block sz addr \<inter> free_units (l @ r) = {}"
  shows "\<forall>b\<in>set l. m_addr b + m_size b \<le> addr" and "\<forall>b\<in>set r. addr + sz \<le> m_addr b"
proof -
  have apart: "x \<notin> units_of b" if "b \<in> set (l @ r)" and "x \<in> block sz addr" for b x
    using that assms(5) by (auto simp: free_units_def)
  show "\<forall>b\<in>set l. m_addr b + m_size b \<le> addr"
    using apart [of _ addr] assms(2,4) by (force simp: units_of_iff block_def)
  show "\<forall>b\<in>set r. addr + sz \<le> m_addr b"
  proof
    fix b assume b: "b \<in> set r"
    have "m_addr b \<in> units_of b"
      using segs_okD(1) [OF assms(1), of b] b by (simp add: units_of_iff)
    then have "m_addr b \<notin> block sz addr"
      using apart [of b] b by auto
    then show "addr + sz \<le> m_addr b"
      using assms(3) b by (fastforce simp: block_def)
  qed
qed

lemma last_abuts:
  assumes "segs_ok l" and "\<forall>b\<in>set l. m_addr b + m_size b \<le> addr"
    and "\<exists>b\<in>set l. m_addr b + m_size b = addr"
  obtains l' p where "l = l' @ [p]" and "m_addr p + m_size p = addr"
proof (cases l rule: rev_cases)
  case Nil
  with assms(3) show ?thesis by simp
next
  case (snoc l' p)
  with assms have "m_addr p + m_size p = addr"
    by fastforce
  with snoc that show ?thesis by blast
qed

lemma first_abuts:
  assumes "segs_ok r" and "\<forall>b\<in>set r. addr + sz \<le> m_addr b" and "\<exists>b\<in>set r. addr + sz = m_addr b"
  obtains q r' where "r = q # r'" and "addr + sz = m_addr q"
proof (cases r)
  case Nil
  with assms(3) show ?thesis by simp
next
  case (Cons q r')
  with assms have "addr + sz = m_addr q"
    by fastforce
  with Cons that show ?thesis by blast
qed

text \<open>What a finished pass leaves: only the array and the slot count have changed.\<close>

definition released :: "rmap \<Rightarrow> ulong \<Rightarrow> ulong \<Rightarrow> rmap \<Rightarrow> bool" where
  "released mp sz addr mp' \<longleftrightarrow>
     (\<exists>a f. mp' = mp\<lparr>m_map := a, m_free := f\<rparr>) \<and> wf_map mp' \<and>
     map_units mp' = map_units mp \<union> block sz addr"

lemma releasedI:
  assumes "laid_out mp bs d junk" and "laid_out (mp\<lparr>m_map := a, m_free := f\<rparr>) bs' d' junk'"
    and "free_units bs' = free_units bs \<union> block sz addr"
  shows "released mp sz addr (mp\<lparr>m_map := a, m_free := f\<rparr>)"
  using laid_out_wf [OF assms(1)] laid_out_wf [OF assms(2)] assms(3)
  by (auto simp: released_def map_units_def)

lemma released_join_left:
  assumes "laid_out mp (l @ p # r) d junk" and "good_block sz addr"
    and "\<forall>b\<in>set r. addr + sz < m_addr b" and "m_addr p + m_size p = addr"
  shows "released mp sz addr (mp\<lparr>m_map := l @ p\<lparr>m_size := m_size p + sz\<rparr> # r @ d # junk\<rparr>)"
proof -
  let ?a = "l @ p\<lparr>m_size := m_size p + sz\<rparr> # r @ d # junk"
  have "released mp sz addr (mp\<lparr>m_map := ?a, m_free := m_free mp\<rparr>)"
  proof (rule releasedI [OF assms(1)])
    show "laid_out (mp\<lparr>m_map := ?a, m_free := m_free mp\<rparr>) (l @ p\<lparr>m_size := m_size p + sz\<rparr> # r) d junk"
      using assms good_blockD [OF assms(2)] by (auto simp: laid_out_def)
  qed (use assms in \<open>auto simp: units_of_iff block_def\<close>)
  then show ?thesis by simp
qed

lemma released_join_both:
  assumes "laid_out mp (l @ p # q # r) d junk" and "good_block sz addr"
    and "m_addr p + m_size p = addr" and "addr + sz = m_addr q"
  shows "released mp sz addr
    (mp\<lparr>m_map := l @ p\<lparr>m_size := m_size p + sz + m_size q\<rparr> # r @ d # d # junk, m_free := m_free mp + 1\<rparr>)"
proof (rule releasedI [OF assms(1)])
  show "laid_out
      (mp\<lparr>m_map := l @ p\<lparr>m_size := m_size p + sz + m_size q\<rparr> # r @ d # d # junk, m_free := m_free mp + 1\<rparr>)
      (l @ p\<lparr>m_size := m_size p + sz + m_size q\<rparr> # r) d (d # junk)"
    using assms good_blockD [OF assms(2)] by (auto simp: laid_out_def)
qed (use assms in \<open>auto simp: units_of_iff block_def\<close>)

lemma released_join_right:
  assumes "laid_out mp (l @ q # r) d junk" and "good_block sz addr"
    and "\<forall>b\<in>set l. m_addr b + m_size b < addr" and "addr + sz = m_addr q"
  shows "released mp sz addr (mp\<lparr>m_map := l @ q\<lparr>m_addr := addr, m_size := m_size q + sz\<rparr> # r @ d # junk\<rparr>)"
proof -
  let ?q = "q\<lparr>m_addr := addr, m_size := m_size q + sz\<rparr>"
  have "released mp sz addr (mp\<lparr>m_map := l @ ?q # r @ d # junk, m_free := m_free mp\<rparr>)"
  proof (rule releasedI [OF assms(1)])
    show "laid_out (mp\<lparr>m_map := l @ ?q # r @ d # junk, m_free := m_free mp\<rparr>) (l @ ?q # r) d junk"
      using assms good_blockD [OF assms(2)] by (fastforce simp: laid_out_def)
  qed (use assms in \<open>auto simp: units_of_iff block_def\<close>)
  then show ?thesis by simp
qed

lemma released_new_entry:
  assumes "laid_out mp (l @ r) d (j # junk)" and "good_block sz addr"
    and "\<forall>b\<in>set l. m_addr b + m_size b < addr" and "\<forall>b\<in>set r. addr + sz < m_addr b"
  shows "released mp sz addr
    (mp\<lparr>m_map := l @ \<lparr>m_size = sz, m_addr = addr\<rparr> # r @ j # junk, m_free := m_free mp - 1\<rparr>)"
proof (rule releasedI [OF assms(1)])
  show "laid_out
      (mp\<lparr>m_map := l @ \<lparr>m_size = sz, m_addr = addr\<rparr> # r @ j # junk, m_free := m_free mp - 1\<rparr>)
      (l @ \<lparr>m_size = sz, m_addr = addr\<rparr> # r) j junk"
    using assms good_blockD [OF assms(2)] by (auto simp: laid_out_def)
qed (auto simp: units_of_iff block_def)

lemma pass_room:
  assumes wf: "wf_map mp" and good: "good_block sz addr"
    and free: "block sz addr \<inter> map_units mp = {}"
    and room: "0 < m_free mp \<or> abuts (map_segs mp) sz addr"
  shows "\<exists>mp'. rmfree_pass mp sz addr = Done (Finished mp') \<and> released mp sz addr mp'"
proof -
  from wf obtain d junk where lay0: "laid_out mp (map_segs mp) d junk"
    by (rule wf_laid_out)
  then obtain l r where lr: "map_segs mp = l @ r" and l: "\<forall>b\<in>set l. m_addr b \<le> addr"
    and r: "\<forall>b\<in>set r. addr < m_addr b"
    using segs_around [of "map_segs mp" addr] by (auto simp: laid_out_def)
  note lay = lay0 [unfolded lr]
  have ok: "segs_ok (l @ r)" and okl: "segs_ok l" and okr: "segs_ok r"
    using lay by (auto simp: laid_out_def)
  note cl = sides_clear [OF ok l r good_blockD(2) [OF good] free [unfolded map_units_def lr]]
  consider (left) l' p where "l = l' @ [p]" "m_addr p + m_size p = addr"
    | (clear) "\<forall>b\<in>set l. m_addr b + m_size b < addr"
    using last_abuts [OF okl cl(1)] cl(1) by (metis le_neq_implies_less)
  then show ?thesis
  proof cases
    case left
    consider (both) q r' where "r = q # r'" "addr + sz = m_addr q" | (only) "\<forall>b\<in>set r. addr + sz < m_addr b"
      using first_abuts [OF okr cl(2)] cl(2) by (metis le_neq_implies_less)
    then show ?thesis
    proof cases
      case both
      then have L: "laid_out mp (l' @ p # q # r') d junk"
        using lay left by simp
      then show ?thesis
        using pass_join_both [OF L good] released_join_both [OF L good] l left both by auto
    next
      case only
      then have L: "laid_out mp (l' @ p # r) d junk"
        using lay left by simp
      then show ?thesis
        using pass_join_left [OF L good] released_join_left [OF L good] l left only by auto
    qed
  next
    case clear
    consider (right) q r' where "r = q # r'" "addr + sz = m_addr q" | (none) "\<forall>b\<in>set r. addr + sz < m_addr b"
      using first_abuts [OF okr cl(2)] cl(2) by (metis le_neq_implies_less)
    then show ?thesis
    proof cases
      case right
      then show ?thesis
        using clear lay good pass_join_right released_join_right by blast
    next
      case none
      have "junk \<noteq> []"
        using room clear none lay by (auto simp: abuts_def lr laid_out_def)
      then show ?thesis
        using clear none lay good pass_new_entry released_new_entry by (metis neq_Nil_conv)
    qed
  qed
qed

lemma rm_done_simps [simp]:
  "m_map (rm_done mp) = m_map mp" "m_free (rm_done mp) = m_free mp"
  "m_slots (rm_done mp) = m_slots mp" "map_segs (rm_done mp) = map_segs mp"
  "map_units (rm_done mp) = map_units mp" "wf_map (rm_done mp) = wf_map mp"
  "m_want (rm_done mp) = 0"
  "m_bcasts (rm_done mp) = m_bcasts mp + (if m_want mp = 0 then 0 else 1)"
  by (simp_all add: rm_done_def map_segs_def map_units_def wf_map_def)

lemma releasedD:
  assumes "released mp sz addr mp'"
  shows "wf_map mp'" and "map_units mp' = map_units mp \<union> block sz addr"
    and "m_slots mp' = m_slots mp" and "m_want mp' = m_want mp" and "m_bcasts mp' = m_bcasts mp"
  using assms by (auto simp: released_def)

lemma rmfree_room:
  assumes "wf_map mp" and "good_block sz addr" and "block sz addr \<inter> map_units mp = {}"
    and "0 < m_free mp \<or> abuts (map_segs mp) sz addr"
  obtains mp' where "rmfree mp sz addr = Done (rm_done mp')" and "released mp sz addr mp'"
proof -
  from pass_room [OF assms] obtain mp' where
    "rmfree_pass mp sz addr = Done (Finished mp')" and "released mp sz addr mp'"
    by blast
  with that good_blockD [OF assms(2)] show ?thesis
    by (simp add: rmfree_alone)
qed

text \<open>The segment a full map gives up: the smaller of the last two, the last on a tie.\<close>

definition lost_seg :: "mapent list \<Rightarrow> mapent" where
  "lost_seg bs =
     (let u = bs ! (length bs - 2); v = bs ! (length bs - 1) in if m_size v > m_size u then u else v)"

lemma pass_full:
  assumes wf: "wf_map mp" and good: "good_block sz addr"
    and free: "block sz addr \<inter> map_units mp = {}"
    and full: "m_free mp = 0" "\<not> abuts (map_segs mp) sz addr" "2 \<le> m_slots mp"
  obtains mp1 where "rmfree_pass mp sz addr = Done (Again mp1)" and "wf_map mp1" and "m_free mp1 = 1"
    and "map_units mp1 = map_units mp - units_of (lost_seg (map_segs mp))"
    and "\<exists>a f. mp1 = mp\<lparr>m_map := a, m_free := f\<rparr>"
proof -
  from wf obtain d junk where lay0: "laid_out mp (map_segs mp) d junk"
    by (rule wf_laid_out)
  then obtain l r where lr: "map_segs mp = l @ r" and l: "\<forall>b\<in>set l. m_addr b \<le> addr"
    and r: "\<forall>b\<in>set r. addr < m_addr b"
    using segs_around [of "map_segs mp" addr] by (auto simp: laid_out_def)
  have lay: "laid_out mp (l @ r) d []" and ok: "segs_ok (l @ r)"
    and len: "2 \<le> length (l @ r)"
    using lay0 full lr by (auto simp: laid_out_def)
  have cl: "\<forall>b\<in>set l. m_addr b + m_size b < addr" "\<forall>b\<in>set r. addr + sz < m_addr b"
    using sides_clear [OF ok l r good_blockD(2) [OF good] free [unfolded map_units_def lr]] full(2)
    by (force simp: abuts_def lr)+
  obtain ys u v where ys: "l @ r = ys @ [u, v]"
    using len by (rule last_two)
  obtain d' where d': "m_size d' = 0" and run: "rmfree_pass mp sz addr =
      Done (Again (mp\<lparr>m_map := (if m_size v > m_size u then ys @ [v, d', d] else ys @ [u, d, d']),
                      m_free := 1\<rparr>))"
    using pass_discard [OF lay good cl ys] by blast
  let ?mp1 = "mp\<lparr>m_map := (if m_size v > m_size u then ys @ [v, d', d] else ys @ [u, d, d']), m_free := 1\<rparr>"
  let ?bs = "ys @ [if m_size v > m_size u then v else u]"
  have "laid_out ?mp1 ?bs (if m_size v > m_size u then d' else d) [if m_size v > m_size u then d else d']"
    using lay d' ok len unfolding ys by (auto simp: laid_out_def)
  then have wf1: "wf_map ?mp1" and segs1: "map_segs ?mp1 = ?bs"
    using laid_out_wf by blast+
  have "free_units ?bs = free_units (l @ r) - units_of (if m_size v > m_size u then u else v)"
    using ok segs_disjoint [of ys "[u, v]"] segs_disjoint [of "[u]" "[v]"] unfolding ys by auto
  then have units1: "map_units ?mp1 = map_units mp - units_of (lost_seg (map_segs mp))"
    unfolding map_units_def segs1 lr ys by (simp add: lost_seg_def Let_def nth_append)
  show ?thesis
    by (rule that [OF run wf1 _ units1]) auto
qed

lemma rmfree_full:
  assumes wf: "wf_map mp" and good: "good_block sz addr"
    and free: "block sz addr \<inter> map_units mp = {}"
    and full: "m_free mp = 0" "\<not> abuts (map_segs mp) sz addr" "2 \<le> m_slots mp"
  obtains mp' where "rmfree mp sz addr = Done (rm_done mp')" and "wf_map mp'"
    and "map_units mp' = map_units mp - units_of (lost_seg (map_segs mp)) \<union> block sz addr"
    and "m_slots mp' = m_slots mp" and "m_want mp' = m_want mp" and "m_bcasts mp' = m_bcasts mp"
proof -
  obtain mp1 where p1: "rmfree_pass mp sz addr = Done (Again mp1)" "wf_map mp1" "m_free mp1 = 1"
    and u1: "map_units mp1 = map_units mp - units_of (lost_seg (map_segs mp))"
    and s1: "\<exists>a f. mp1 = mp\<lparr>m_map := a, m_free := f\<rparr>"
    by (rule pass_full [OF wf good free full])
  then obtain mp' where p2: "rmfree_pass mp1 sz addr = Done (Finished mp')" "released mp1 sz addr mp'"
    using pass_room [OF p1(2) good] free by auto
  show ?thesis
    using p1(1) p2 s1 u1 releasedD [OF p2(2)] good_blockD [OF good]
    by (intro that [of mp']) (auto simp: rmfree_alone)
qed

lemma pass_overlap:
  assumes wf: "wf_map mp" and good: "good_block sz addr"
    and hit: "block sz addr \<inter> map_units mp \<noteq> {}"
  shows "rmfree_pass mp sz addr = Panic"
proof -
  from wf obtain d junk where lay: "laid_out mp (map_segs mp) d junk"
    by (rule wf_laid_out)
  then obtain l r where lr: "map_segs mp = l @ r" and l: "\<forall>b\<in>set l. m_addr b \<le> addr"
    and r: "\<forall>b\<in>set r. addr < m_addr b"
    using segs_around [of "map_segs mp" addr] by (auto simp: laid_out_def)
  have ok: "segs_ok (l @ r)" and d: "m_size d = 0" and arr: "m_map mp = l @ r @ d # junk"
    using lay lr by (auto simp: laid_out_def)
  note sz = good_blockD [OF good]
  have loc: "rm_locate addr (m_map mp) = Some (length l)"
    unfolding arr by (rule rm_locate_split [OF ok l r d])
  from hit obtain x b where x: "x \<in> block sz addr" "b \<in> set (l @ r)" "x \<in> units_of b"
    by (auto simp: map_units_def free_units_def lr)
  consider (left) l' p where "l = l' @ [p]" "addr < m_addr p + m_size p"
    | (right) q r' where "r = q # r'" "m_addr q < addr + sz" "\<forall>b\<in>set l. m_addr b + m_size b \<le> addr"
  proof (cases "\<forall>b\<in>set l. m_addr b + m_size b \<le> addr")
    case True
    with x have "b \<in> set r" "m_addr b < addr + sz"
      by (fastforce simp: units_of_iff block_def)+
    moreover from this obtain q r' where "r = q # r'"
      by (cases r) auto
    ultimately show ?thesis
      using that(2) True ok by fastforce
  next
    case False
    then obtain l' p where "l = l' @ [p]"
      by (cases l rule: rev_cases) auto
    with False ok l show ?thesis
      using that(1) by fastforce
  qed
  then show ?thesis
  proof cases
    case left
    then show ?thesis
      using loc segs_okD [OF ok, of p] by (simp add: rmfree_pass_def Let_def arr nth_append)
  next
    case right
    then have q: "m_size q \<noteq> 0" "(l @ r @ d # junk) ! length l = q"
      using ok by (auto simp: nth_append)
    show ?thesis
    proof (cases l rule: rev_cases)
      case Nil
      then show ?thesis
        using loc q right sz by (auto simp: rmfree_pass_def Let_def arr)
    next
      case (snoc l' p)
      then have "uadd (m_addr p) (m_size p) \<le> addr"
        using right(3) segs_okD [OF ok, of p] by simp
      then show ?thesis
        using loc q right sz snoc by (auto simp: rmfree_pass_def Let_def arr nth_append)
    qed
  qed
qed

section \<open>Allocation at an address\<close>

lemma rm_holding_found:
  assumes "segs_ok (l @ b # r)" and "addr \<in> units_of b"
  shows "rm_holding addr (l @ b # r @ xs) = Some (length l)"
  using assms by (induction l) (fastforce simp: units_of_iff)+

lemma rm_holding_none:
  assumes "segs_ok bs" and "addr \<notin> free_units bs" and "m_size d = 0"
  shows "rm_holding addr (bs @ d # junk) = Some (length bs)"
  using assms by (induction bs) (auto simp: units_of_iff)

text \<open>The free segments that remain of \<open>b\<close> when a block inside it is taken.\<close>

definition cut_out :: "ulong \<Rightarrow> ulong \<Rightarrow> mapent \<Rightarrow> mapent list" where
  "cut_out sz addr b =
     (if m_addr b = addr then [] else [b\<lparr>m_size := addr - m_addr b\<rparr>]) @
     (if m_addr b + m_size b = addr + sz then []
      else [\<lparr>m_size = m_addr b + m_size b - (addr + sz), m_addr = addr + sz\<rparr>])"

lemma cut_out_ok:
  assumes "segs_ok (l @ b # r)" and "0 < sz" and "m_addr b \<le> addr" and "addr + sz \<le> m_addr b + m_size b"
  shows "segs_ok (l @ cut_out sz addr b @ r)"
    and "free_units (l @ cut_out sz addr b @ r) = free_units (l @ b # r) - block sz addr"
proof -
  show "segs_ok (l @ cut_out sz addr b @ r)"
    using assms by (fastforce simp: cut_out_def)
  have sub: "block sz addr \<subseteq> free_units [b]"
    using assms by (auto simp: units_of_iff block_def)
  have "free_units (cut_out sz addr b) = free_units [b] - block sz addr"
    using assms by (auto simp: cut_out_def units_of_iff block_def)
  then show "free_units (l @ cut_out sz addr b @ r) = free_units (l @ b # r) - block sz addr"
    using sub segs_disjoint [of l "b # r"] segs_disjoint [of "[b]" r] assms(1) by auto
qed

lemma rm_open_segs:
  assumes "\<forall>x\<in>set r. m_size x \<noteq> 0" and "m_size b \<noteq> 0" and "m_size d = 0"
  shows "rm_open (b # r @ d # j # junk) = Some (b # hd (r @ [d]) # r @ j\<lparr>m_size := 0\<rparr> # junk)"
proof -
  have fin: "rm_final (b # r @ d # j # junk) = Some (Suc (length r))"
    using rm_final_segs [of "b # r" d "j # junk"] assms by auto
  show ?thesis
    unfolding rm_open_def fin by (cases r) (auto simp: nth_append numeral_2_eq_2)
qed

lemma rmget_at:
  assumes lay: "laid_out mp (l @ b # r) d junk" and sz: "\<not> ssize_nonpos sz" "addr + sz < 4294967296"
    and b: "m_addr b \<le> addr" "addr + sz \<le> m_addr b + m_size b"
  shows "rmget mp sz addr =
    (if m_addr b = addr \<and> m_size b = sz
     then Done (addr, mp\<lparr>m_map := l @ cut_out sz addr b @ r @ d # d # junk, m_free := m_free mp + 1\<rparr>)
     else if m_addr b = addr \<or> m_addr b + m_size b = addr + sz
     then Done (addr, mp\<lparr>m_map := l @ cut_out sz addr b @ r @ d # junk\<rparr>)
     else case junk of [] \<Rightarrow> Done (0, mp)
       | j # js \<Rightarrow> Done (addr, mp\<lparr>m_map := l @ cut_out sz addr b @ r @ j\<lparr>m_size := 0\<rparr> # js,
                                   m_free := m_free mp - 1\<rparr>))"
proof -
  have ok: "segs_ok (l @ b # r)" and d: "m_size d = 0" and arr: "m_map mp = l @ b # r @ d # junk"
    and fr: "m_free mp = length junk"
    using lay by (auto simp: laid_out_def)
  have pos: "0 < sz" using sz by (simp add: ssize_nonpos_def)
  have bb: "0 < m_size b" "m_addr b + m_size b < 4294967296"
    using segs_okD [OF ok, of b] by auto
  have hold: "rm_holding addr (m_map mp) = Some (length l)"
    unfolding arr using b pos by (intro rm_holding_found [OF ok]) (simp add: units_of_iff)
  have live: "\<forall>x\<in>set r. m_size x \<noteq> 0"
    using segs_ok_live [OF ok] by auto
  have e: "m_size b - sz = addr - m_addr b" if "m_addr b + m_size b = addr + sz"
    using that by simp
  have op: "rm_open (b # r @ d # j # js) = Some (b # hd (r @ [d]) # r @ j\<lparr>m_size := 0\<rparr> # js)" for j js
    using rm_open_segs [OF live _ d, of b j js] bb by auto
  show ?thesis
    unfolding rmget_def Let_def hold option.case if_not_P [OF sz(1)]
    using b bb sz pos rm_close_segs [OF live d] e fr op
    by (auto simp: arr cut_out_def split: list.split)
qed

lemma rmget_taken:
  assumes lay: "laid_out mp (l @ b # r) d junk" and sz: "\<not> ssize_nonpos sz" "addr + sz < 4294967296"
    and b: "m_addr b \<le> addr" "addr + sz \<le> m_addr b + m_size b"
    and room: "m_addr b = addr \<or> m_addr b + m_size b = addr + sz \<or> 0 < m_free mp"
  obtains mp' d' junk' where "rmget mp sz addr = Done (addr, mp')"
    and "laid_out mp' (l @ cut_out sz addr b @ r) d' junk'"
proof -
  have pos: "0 < sz" using sz by (simp add: ssize_nonpos_def)
  have new: "segs_ok (l @ cut_out sz addr b @ r)"
    using lay by (intro cut_out_ok(1) [OF _ pos b]) (simp add: laid_out_def)
  note run = rmget_at [OF lay sz b]
  consider (whole) "m_addr b = addr" "m_size b = sz"
    | (part) "m_addr b = addr \<or> m_addr b + m_size b = addr + sz" "\<not> (m_addr b = addr \<and> m_size b = sz)"
    | (inside) j js where "m_addr b \<noteq> addr" "m_addr b + m_size b \<noteq> addr + sz" "junk = j # js"
    using room lay by (cases junk) (auto simp: laid_out_def)
  then show ?thesis
  proof cases
    case whole
    let ?mp = "mp\<lparr>m_map := l @ cut_out sz addr b @ r @ d # d # junk, m_free := m_free mp + 1\<rparr>"
    have "rmget mp sz addr = Done (addr, ?mp)"
      unfolding run using whole by simp
    moreover have "laid_out ?mp (l @ cut_out sz addr b @ r) d (d # junk)"
      using new lay whole by (auto simp: laid_out_def cut_out_def)
    ultimately show ?thesis by (rule that)
  next
    case part
    let ?mp = "mp\<lparr>m_map := l @ cut_out sz addr b @ r @ d # junk\<rparr>"
    have "rmget mp sz addr = Done (addr, ?mp)"
      unfolding run using part by auto
    moreover have "laid_out ?mp (l @ cut_out sz addr b @ r) d junk"
      using new lay part by (auto simp: laid_out_def cut_out_def)
    ultimately show ?thesis by (rule that)
  next
    case inside
    let ?mp = "mp\<lparr>m_map := l @ cut_out sz addr b @ r @ j\<lparr>m_size := 0\<rparr> # js, m_free := m_free mp - 1\<rparr>"
    have "rmget mp sz addr = Done (addr, ?mp)"
      unfolding run using inside by simp
    moreover have "laid_out ?mp (l @ cut_out sz addr b @ r) (j\<lparr>m_size := 0\<rparr>) js"
      using new lay inside by (auto simp: laid_out_def cut_out_def)
    ultimately show ?thesis by (rule that)
  qed
qed

lemma run_segment:
  assumes wf: "wf_map mp" and sz: "\<not> ssize_nonpos sz" and sub: "block sz addr \<subseteq> map_units mp"
  obtains l b r d junk where "laid_out mp (l @ b # r) d junk" and "map_segs mp = l @ b # r"
    and "m_addr b \<le> addr" and "addr + sz \<le> m_addr b + m_size b" and "0 < m_addr b"
proof -
  from wf obtain d junk where lay: "laid_out mp (map_segs mp) d junk"
    by (rule wf_laid_out)
  then have ok: "segs_ok (map_segs mp)" by (simp add: laid_out_def)
  have pos: "0 < sz" using sz by (simp add: ssize_nonpos_def)
  from sub obtain b where b: "b \<in> set (map_segs mp)" "m_addr b \<le> addr" "addr + sz \<le> m_addr b + m_size b"
    unfolding map_units_def run_in_segment [OF ok pos] by blast
  obtain l r where seg: "map_segs mp = l @ b # r"
    using split_list [OF b(1)] by blast
  show ?thesis
    using that [OF lay [unfolded seg] seg b(2,3)] segs_okD(2) [OF ok b(1)] by blast
qed

lemma rmget_refused:
  assumes wf: "wf_map mp" and sz: "\<not> ssize_nonpos sz" "addr + sz < 4294967296"
    and no: "\<not> block sz addr \<subseteq> map_units mp"
  shows "rmget mp sz addr = Done (0, mp)"
proof -
  from wf obtain d junk where lay: "laid_out mp (map_segs mp) d junk"
    by (rule wf_laid_out)
  then have ok: "segs_ok (map_segs mp)" and d: "m_size d = 0" and arr: "m_map mp = map_segs mp @ d # junk"
    by (auto simp: laid_out_def)
  have pos: "0 < sz" using sz by (simp add: ssize_nonpos_def)
  show ?thesis
  proof (cases "addr \<in> map_units mp")
    case False
    then show ?thesis
      using rm_holding_none [OF ok _ d, of addr junk] sz d
      by (simp add: rmget_def Let_def arr map_units_def)
  next
    case True
    then obtain l b r where seg: "map_segs mp = l @ b # r" and b: "addr \<in> units_of b"
      unfolding map_units_def free_units_def by (metis UN_E split_list)
    note ok' = ok [unfolded seg]
    have "m_addr b + m_size b < addr + sz"
      using no b run_in_segment [OF ok' pos, of addr] by (force simp: map_units_def seg units_of_iff)
    then show ?thesis
      using rm_holding_found [OF ok' b, of "d # junk"] sz segs_okD [OF ok', of b]
      by (simp add: rmget_def Let_def arr seg)
  qed
qed

section \<open>The interface a client of a resource map relies on\<close>

text \<open>
  A client holds blocks. It needs that what it is given was free and no longer is, and that
  a block it hands back is accepted; it must not assume that all free units survive a
  release, since a map that is too fragmented drops some.
\<close>

definition held_ok :: "ulong set \<Rightarrow> (ulong \<times> ulong) list \<Rightarrow> bool" where
  "held_ok U hs \<longleftrightarrow>
     (\<forall>(n, a)\<in>set hs. good_block n a \<and> block n a \<inter> U = {}) \<and>
     sorted_wrt (\<lambda>(n, a) (n', a'). block n a \<inter> block n' a' = {}) hs"

locale unit_alloc =
  fixes alloc :: "'m \<Rightarrow> ulong \<Rightarrow> (ulong \<times> 'm) outcome"
    and release :: "'m \<Rightarrow> ulong \<Rightarrow> ulong \<Rightarrow> 'm outcome"
    and invar :: "'m \<Rightarrow> bool"
    and units :: "'m \<Rightarrow> ulong set"
  assumes alloc_total: "invar m \<Longrightarrow> \<not> ssize_nonpos n \<Longrightarrow> \<exists>a m'. alloc m n = Done (a, m') \<and> invar m'"
    and alloc_null: "invar m \<Longrightarrow> \<not> ssize_nonpos n \<Longrightarrow> alloc m n = Done (0, m') \<Longrightarrow> m' = m"
    and alloc_units: "invar m \<Longrightarrow> \<not> ssize_nonpos n \<Longrightarrow> alloc m n = Done (a, m') \<Longrightarrow> a \<noteq> 0 \<Longrightarrow>
      good_block n a \<and> block n a \<subseteq> units m \<and> units m' = units m - block n a"
    and release_total: "invar m \<Longrightarrow> good_block n a \<Longrightarrow> block n a \<inter> units m = {} \<Longrightarrow>
      \<exists>m'. release m n a = Done m' \<and> invar m' \<and> units m' \<subseteq> units m \<union> block n a"
begin

lemma alloc_invar:
  assumes "invar m" and "\<not> ssize_nonpos n" and "alloc m n = Done (a, m')"
  shows "invar m'"
  using alloc_total [OF assms(1,2)] assms(3) by auto

lemma alloc_held:
  assumes inv: "invar m" and n: "\<not> ssize_nonpos n" and run: "alloc m n = Done (a, m')" and a: "a \<noteq> 0"
    and held: "held_ok (units m) hs"
  shows "held_ok (units m') ((n, a) # hs)"
  using alloc_units [OF inv n run a] held by (fastforce simp: held_ok_def)

lemma release_held:
  assumes inv: "invar m" and held: "held_ok (units m) (xs @ (n, a) # ys)"
  shows "\<exists>m'. release m n a = Done m' \<and> invar m' \<and> held_ok (units m') (xs @ ys)"
proof -
  have "good_block n a" and "block n a \<inter> units m = {}"
    using held by (auto simp: held_ok_def)
  then obtain m' where m': "release m n a = Done m'" "invar m'" "units m' \<subseteq> units m \<union> block n a"
    using release_total [OF inv] by blast
  have "held_ok (units m') (xs @ ys)"
    using held m'(3) by (fastforce simp: held_ok_def sorted_wrt_append)
  with m' show ?thesis by blast
qed

end

text \<open>The laws hold of \<open>rmalloc\<close> and \<open>rmfree\<close> on a map of two slots or more.\<close>

definition rmap_ok :: "rmap \<Rightarrow> bool" where
  "rmap_ok mp \<longleftrightarrow> wf_map mp \<and> 2 \<le> m_slots mp"

lemma rmfree_accepts:
  assumes "rmap_ok mp" and good: "good_block sz addr" and free: "block sz addr \<inter> map_units mp = {}"
  shows "\<exists>mp'. rmfree mp sz addr = Done mp' \<and> rmap_ok mp' \<and>
    map_units mp' \<subseteq> map_units mp \<union> block sz addr"
proof -
  have wf: "wf_map mp" and two: "2 \<le> m_slots mp"
    using assms(1) by (auto simp: rmap_ok_def)
  show ?thesis
  proof (cases "0 < m_free mp \<or> abuts (map_segs mp) sz addr")
    case True
    obtain mp' where "rmfree mp sz addr = Done (rm_done mp')" "released mp sz addr mp'"
      by (rule rmfree_room [OF wf good free True])
    then show ?thesis
      using two releasedD [of mp sz addr mp'] by (auto simp: rmap_ok_def)
  next
    case False
    then have full: "m_free mp = 0" "\<not> abuts (map_segs mp) sz addr" by auto
    obtain mp' where "rmfree mp sz addr = Done (rm_done mp')" "wf_map mp'"
      "map_units mp' = map_units mp - units_of (lost_seg (map_segs mp)) \<union> block sz addr"
      "m_slots mp' = m_slots mp"
      by (rule rmfree_full [OF wf good free full two])
    then show ?thesis
      using two by (auto simp: rmap_ok_def)
  qed
qed

lemma map_units_bound: "wf_map mp \<Longrightarrow> x \<in> map_units mp \<Longrightarrow> 0 < x \<and> Suc x < 4294967296"
  unfolding wf_map_def map_units_def free_units_def
  using segs_okD [of "map_segs mp"] by (force simp: units_of_iff)

lemma rmalloc_block_good:
  assumes "wf_map mp" and "\<not> ssize_nonpos sz" and "block sz addr \<subseteq> map_units mp"
  shows "good_block sz addr"
proof -
  have "0 < sz" using assms(2) by (simp add: ssize_nonpos_def)
  then have "addr \<in> block sz addr" "addr + sz - 1 \<in> block sz addr"
    by (auto simp: block_def)
  with assms map_units_bound [of mp addr] map_units_bound [of mp "addr + sz - 1"] \<open>0 < sz\<close>
  show ?thesis by (auto simp: good_block_def)
qed

interpretation rm: unit_alloc rmalloc rmfree rmap_ok map_units
proof
  fix m :: rmap and n :: ulong
  assume m: "rmap_ok m" and n: "\<not> ssize_nonpos n"
  then have wf: "wf_map m" and pos: "0 < n"
    by (auto simp: rmap_ok_def ssize_nonpos_def)
  show "\<exists>a m'. rmalloc m n = Done (a, m') \<and> rmap_ok m'"
    by (rule rmalloc_cases [OF wf pos]) (use m in \<open>auto simp: rmap_ok_def\<close>)
  show "rmalloc m n = Done (0, m') \<Longrightarrow> m' = m" for m'
    by (rule rmalloc_cases [OF wf pos]) auto
  show "good_block n a \<and> block n a \<subseteq> map_units m \<and> map_units m' = map_units m - block n a"
    if "rmalloc m n = Done (a, m')" and "a \<noteq> 0" for a m'
    by (rule rmalloc_cases [OF wf pos]) (use that rmalloc_block_good [OF wf n] in auto)
qed (rule rmfree_accepts)

section \<open>Clients of one map, in any order\<close>

text \<open>
  One section of a release, run for a block that is not free, returns: it either frees units of
  the block only, or gives up a segment and is to be repeated.
\<close>

lemma rmfree_section_room:
  assumes "rmap_ok mp" and good: "good_block sz addr" and free: "block sz addr \<inter> map_units mp = {}"
    and room: "0 < m_free mp \<or> abuts (map_segs mp) sz addr"
  obtains mp' where "rmfree_section mp sz addr = Done (Finished mp')" and "rmap_ok mp'"
    and "map_units mp' = map_units mp \<union> block sz addr"
proof -
  obtain mp' where "rmfree_pass mp sz addr = Done (Finished mp')" "released mp sz addr mp'"
    using pass_room [OF _ good free room] assms(1) by (auto simp: rmap_ok_def)
  then show ?thesis
    using assms(1) releasedD [of mp sz addr mp']
    by (intro that [of "rm_done mp'"]) (auto simp: rmfree_section_def rmap_ok_def)
qed

lemma rmfree_section_step:
  assumes "rmap_ok mp" and good: "good_block sz addr" and free: "block sz addr \<inter> map_units mp = {}"
  obtains (fin) mp' where "rmfree_section mp sz addr = Done (Finished mp')" and "rmap_ok mp'"
      and "map_units mp' = map_units mp \<union> block sz addr"
    | (again) mp1 where "rmfree_section mp sz addr = Done (Again mp1)" and "rmap_ok mp1"
      and "map_units mp1 \<subseteq> map_units mp" and "0 < m_free mp1"
proof -
  have wf: "wf_map mp" and two: "2 \<le> m_slots mp"
    using assms(1) by (auto simp: rmap_ok_def)
  show ?thesis
  proof (cases "0 < m_free mp \<or> abuts (map_segs mp) sz addr")
    case True
    then show ?thesis
      by (rule rmfree_section_room [OF assms]) (rule fin)
  next
    case False
    obtain mp1 where "rmfree_pass mp sz addr = Done (Again mp1)" "wf_map mp1" "m_free mp1 = 1"
      "map_units mp1 = map_units mp - units_of (lost_seg (map_segs mp))"
      "\<exists>a f. mp1 = mp\<lparr>m_map := a, m_free := f\<rparr>"
      by (rule pass_full [OF wf good free _ _ two]) (use False in auto)
    then show ?thesis
      using two by (intro again [of mp1]) (auto simp: rmfree_section_def rmap_ok_def)
  qed
qed

lemma rmap_ok_want [simp]:
  "rmap_ok (mp\<lparr>m_want := w\<rparr>) = rmap_ok mp" "map_units (mp\<lparr>m_want := w\<rparr>) = map_units mp"
  by (simp_all add: rmap_ok_def wf_map_def map_units_def map_segs_def)

lemma rmfree_enter_good: "good_block sz addr \<Longrightarrow> rmfree_enter mp sz addr = rmfree_section mp sz addr"
  using good_blockD [of sz addr] by (simp add: rmfree_enter_def)

text \<open>
  The map, the blocks its clients hold, and the blocks whose release has dropped the lock and is to
  be continued, as clients allocate and release in any interleaving. A release hands back a
  held block; every step is a section of the code under the map's lock.
\<close>

inductive rm_clients :: "rmap \<Rightarrow> rmap \<Rightarrow> (ulong \<times> ulong) list \<Rightarrow> (ulong \<times> ulong) list \<Rightarrow> bool" for mp0 where
  start: "rm_clients mp0 mp0 [] []"
| take: "rm_clients mp0 mp hs ps \<Longrightarrow> \<not> ssize_nonpos n \<Longrightarrow> rmalloc mp n = Done (a, mp') \<Longrightarrow> a \<noteq> 0 \<Longrightarrow>
    rm_clients mp0 mp' ((n, a) # hs) ps"
| refuse: "rm_clients mp0 mp hs ps \<Longrightarrow> \<not> ssize_nonpos n \<Longrightarrow> rmalloc mp n = Done (0, mp') \<Longrightarrow>
    rm_clients mp0 mp' hs ps"
| sleep: "rm_clients mp0 mp hs ps \<Longrightarrow> \<not> ssize_nonpos n \<Longrightarrow> rmalloc_wait mp n = Done (None, mp') \<Longrightarrow>
    rm_clients mp0 mp' hs ps"
| give: "rm_clients mp0 mp (xs @ (n, a) # ys) ps \<Longrightarrow> rmfree_enter mp n a = Done (Finished mp') \<Longrightarrow>
    rm_clients mp0 mp' (xs @ ys) ps"
| give_up_lock: "rm_clients mp0 mp (xs @ (n, a) # ys) ps \<Longrightarrow> rmfree_enter mp n a = Done (Again mp') \<Longrightarrow>
    rm_clients mp0 mp' (xs @ ys) ((n, a) # ps)"
| retry: "rm_clients mp0 mp hs (xs @ (n, a) # ys) \<Longrightarrow> rmfree_section mp n a = Done (Finished mp') \<Longrightarrow>
    rm_clients mp0 mp' hs (xs @ ys)"
| retry_again: "rm_clients mp0 mp hs (xs @ (n, a) # ys) \<Longrightarrow> rmfree_section mp n a = Done (Again mp') \<Longrightarrow>
    rm_clients mp0 mp' hs (xs @ (n, a) # ys)"

text \<open>The blocks that are out count in any order, and a smaller set of free units does no harm.\<close>

lemma held_ok_perm:
  assumes "held_ok U hs" and "mset hs' = mset hs"
  shows "held_ok U hs'"
proof -
  let ?P = "\<lambda>(n, a) (n', a'). block n a \<inter> block n' a' = {}"
  have "sorted_wrt ?P zs \<Longrightarrow> mset zs' = mset zs \<Longrightarrow> sorted_wrt ?P zs'" for zs zs'
  proof (induction zs' arbitrary: zs)
    case (Cons z zs')
    then have "z \<in> set zs" by (metis list.set_intros(1) mset_eq_setD)
    then obtain us vs where zs: "zs = us @ z # vs" by (meson split_list)
    with Cons.prems have eq: "mset zs' = mset (us @ vs)" by simp
    have "sorted_wrt ?P (us @ vs)" using Cons.prems(1) by (auto simp: zs sorted_wrt_append)
    from Cons.IH [OF this eq] mset_eq_setD [OF eq] Cons.prems(1) show ?case
      by (fastforce simp: zs sorted_wrt_append)
  qed simp
  with assms show ?thesis
    using mset_eq_setD [OF assms(2)] by (auto simp: held_ok_def)
qed

lemma held_ok_sub: "held_ok U hs \<Longrightarrow> V \<subseteq> U \<Longrightarrow> held_ok V hs"
  by (fastforce simp: held_ok_def)

lemma held_ok_member:
  assumes "held_ok U (xs @ (n, a) # ys)"
  shows "good_block n a" and "block n a \<inter> U = {}" and "V = U \<union> block n a \<Longrightarrow> held_ok V (xs @ ys)"
  using assms by (fastforce simp: held_ok_def sorted_wrt_append)+

text \<open>A section run for a block that is out: nothing goes wrong, and what the others hold stays theirs.\<close>

lemma section_held:
  assumes "rmap_ok mp" and held: "held_ok (map_units mp) (xs @ (n, a) # ys)"
  shows "\<exists>r. rmfree_section mp n a = Done r"
    and "rmfree_section mp n a = Done (Finished mp') \<Longrightarrow> rmap_ok mp' \<and> held_ok (map_units mp') (xs @ ys)"
    and "rmfree_section mp n a = Done (Again mp') \<Longrightarrow> rmap_ok mp' \<and> held_ok (map_units mp') (xs @ (n, a) # ys)"
  by (rule rmfree_section_step [OF assms(1) held_ok_member(1,2) [OF held]];
      use held_ok_member(3) [OF held] held_ok_sub [OF held] in auto)+

lemma rm_clients_held:
  assumes "rm_clients mp0 mp hs ps" and "rmap_ok mp0"
  shows "rmap_ok mp \<and> held_ok (map_units mp) (hs @ ps)"
  using assms
proof induction
  case start
  then show ?case by (simp add: held_ok_def)
next
  case (take mp hs ps n a mp')
  then show ?case
    using rm.alloc_invar rm.alloc_held [of mp n a mp' "hs @ ps"] by auto
next
  case (refuse mp hs ps n mp')
  then show ?case
    using rm.alloc_null by blast
next
  case (sleep mp hs ps n mp')
  then obtain mp1 where "rmalloc mp n = Done (0, mp1)" "mp' = mp1\<lparr>m_want := 1\<rparr>"
    by (auto simp: rmalloc_wait_def rmalloc_def split: if_splits)
  with sleep show ?case
    using rm.alloc_null [of mp n mp1] by simp
next
  case (give mp xs n a ys ps mp')
  then have "held_ok (map_units mp) (xs @ (n, a) # ys @ ps)" by simp
  then show ?case
    using give section_held(2) [of mp xs n a "ys @ ps" mp'] rmfree_enter_good held_ok_member(1) by fastforce
next
  case (give_up_lock mp xs n a ys ps mp')
  then have held: "held_ok (map_units mp) (xs @ (n, a) # ys @ ps)" by simp
  then have "rmap_ok mp' \<and> held_ok (map_units mp') (xs @ (n, a) # ys @ ps)"
    using give_up_lock section_held(3) [of mp xs n a "ys @ ps" mp'] rmfree_enter_good held_ok_member(1) by fastforce
  then show ?case
    by (auto elim: held_ok_perm)
next
  case (retry mp hs xs n a ys mp')
  then show ?case
    using section_held(2) [of mp "hs @ xs" n a ys mp'] by simp
next
  case (retry_again mp hs xs n a ys mp')
  then show ?case
    using section_held(3) [of mp "hs @ xs" n a ys mp'] by simp
qed

lemma rm_clients_go_on:
  assumes "rm_clients mp0 mp hs ps" and "rmap_ok mp0"
  shows "(n, a) \<in> set hs \<Longrightarrow> \<exists>r. rmfree_enter mp n a = Done r"
    and "(n, a) \<in> set ps \<Longrightarrow> \<exists>r. rmfree_section mp n a = Done r"
proof -
  have ok: "rmap_ok mp" and held: "held_ok (map_units mp) (hs @ ps)"
    using rm_clients_held [OF assms] by auto
  have "\<exists>r. rmfree_section mp n a = Done r" and "good_block n a" if x: "(n, a) \<in> set (hs @ ps)"
    using held section_held(1) [OF ok] held_ok_member(1) split_list [OF x] by metis+
  then show "(n, a) \<in> set hs \<Longrightarrow> \<exists>r. rmfree_enter mp n a = Done r"
    and "(n, a) \<in> set ps \<Longrightarrow> \<exists>r. rmfree_section mp n a = Done r"
    by (auto simp: rmfree_enter_good)
qed

section \<open>Properties\<close>

text \<open>
  C2. First fit: on a well-formed map \<open>rmalloc\<close> returns, and it returns 0 exactly when no
  run of \<open>sz\<close> units is free, leaving the map alone; otherwise it returns the lowest address
  of such a run, exactly those units stop being free, and the map stays well formed.
\<close>

theorem rmalloc_first_fit:
  assumes "wf_map mp" and "0 < sz"
  shows "\<exists>addr mp'. rmalloc mp sz = Done (addr, mp') \<and> wf_map mp' \<and>
    (if addr = 0 then mp' = mp \<and> (\<forall>a. \<not> block sz a \<subseteq> map_units mp)
     else block sz addr \<subseteq> map_units mp \<and> map_units mp' = map_units mp - block sz addr \<and>
       (\<forall>a. block sz a \<subseteq> map_units mp \<longrightarrow> addr \<le> a))"
  by (rule rmalloc_cases [OF assms]) (use assms in auto)

text \<open>A map of three slots with the free segments \<open>[10, 14)\<close> and \<open>[20, 28)\<close>.\<close>

definition sample_map :: rmap where
  "sample_map =
     \<lparr>m_free = 1, m_want = 1, m_nam = ''sample'', m_slots = 3, m_bcasts = 0,
      m_map = [\<lparr>m_size = 4, m_addr = 10\<rparr>, \<lparr>m_size = 8, m_addr = 20\<rparr>,
               \<lparr>m_size = 0, m_addr = 0\<rparr>, \<lparr>m_size = 0, m_addr = 0\<rparr>]\<rparr>"

lemma sample_map_ok: "wf_map sample_map" "map_segs sample_map =
    [\<lparr>m_size = 4, m_addr = 10\<rparr>, \<lparr>m_size = 8, m_addr = 20\<rparr>]"
    "m_free sample_map = 1" "m_slots sample_map = 3"
  by (simp_all add: wf_map_def map_segs_def sample_map_def)

theorem rmalloc_first_fit_witness:
  "\<exists>addr mp'. rmalloc sample_map 6 = Done (addr, mp') \<and> wf_map mp' \<and>
    (if addr = 0 then mp' = sample_map \<and> (\<forall>a. \<not> block 6 a \<subseteq> map_units sample_map)
     else block 6 addr \<subseteq> map_units sample_map \<and> map_units mp' = map_units sample_map - block 6 addr \<and>
       (\<forall>a. block 6 a \<subseteq> map_units sample_map \<longrightarrow> addr \<le> a))"
  by (rule rmalloc_first_fit [OF sample_map_ok(1)]) simp

text \<open>
  C17. Release with room: handing back a block none of whose units is free, to a map with an
  unused slot or with a free segment next to the block, makes exactly those units free,
  keeps the map well formed, and wakes the waiters if there are any.
\<close>

theorem rmfree_releases:
  assumes "wf_map mp" and "good_block sz addr" and "block sz addr \<inter> map_units mp = {}"
    and "0 < m_free mp \<or> abuts (map_segs mp) sz addr"
  shows "\<exists>mp'. rmfree mp sz addr = Done mp' \<and> wf_map mp' \<and>
    map_units mp' = map_units mp \<union> block sz addr \<and>
    m_want mp' = 0 \<and> m_bcasts mp' = m_bcasts mp + (if m_want mp = 0 then 0 else 1)"
proof -
  obtain mp' where "rmfree mp sz addr = Done (rm_done mp')" and rel: "released mp sz addr mp'"
    by (rule rmfree_room [OF assms])
  then show ?thesis
    using releasedD [OF rel] by simp
qed

theorem rmfree_releases_witness:
  "\<exists>mp'. rmfree sample_map 6 14 = Done mp' \<and> wf_map mp' \<and>
    map_units mp' = map_units sample_map \<union> block 6 14 \<and>
    m_want mp' = 0 \<and> m_bcasts mp' = m_bcasts sample_map + (if m_want sample_map = 0 then 0 else 1)"
  by (rule rmfree_releases [OF sample_map_ok(1)])
    (auto simp: good_block_def ssize_nonpos_def map_units_def sample_map_ok units_of_iff block_def)

text \<open>
  Overflow: releasing a block to a full map, next to no free segment, drops the smaller
  of the last two free segments and nothing else, and the block itself becomes free.
\<close>

lemma rmfree_overflow:
  assumes "wf_map mp" and "good_block sz addr" and "block sz addr \<inter> map_units mp = {}"
    and "m_free mp = 0" and "\<not> abuts (map_segs mp) sz addr" and "2 \<le> m_slots mp"
  shows "\<exists>mp'. rmfree mp sz addr = Done mp' \<and> wf_map mp' \<and>
    map_units mp' = map_units mp - units_of (lost_seg (map_segs mp)) \<union> block sz addr"
  by (rule rmfree_full [OF assms]) auto

definition full_map :: rmap where
  "full_map =
     \<lparr>m_free = 0, m_want = 0, m_nam = ''full'', m_slots = 2, m_bcasts = 0,
      m_map = [\<lparr>m_size = 4, m_addr = 10\<rparr>, \<lparr>m_size = 8, m_addr = 20\<rparr>, \<lparr>m_size = 0, m_addr = 0\<rparr>]\<rparr>"

lemma full_map_ok: "wf_map full_map" "map_segs full_map =
    [\<lparr>m_size = 4, m_addr = 10\<rparr>, \<lparr>m_size = 8, m_addr = 20\<rparr>]"
    "m_free full_map = 0" "m_slots full_map = 2"
  by (simp_all add: wf_map_def map_segs_def full_map_def)

lemma rmfree_overflow_witness:
  "\<exists>mp'. rmfree full_map 3 40 = Done mp' \<and> wf_map mp' \<and>
    map_units mp' = map_units full_map - units_of (lost_seg (map_segs full_map)) \<union> block 3 40"
  by (rule rmfree_overflow [OF full_map_ok(1)])
    (auto simp: good_block_def ssize_nonpos_def map_units_def full_map_ok units_of_iff block_def
      abuts_def)

text \<open>
  What others may do to the map while a release has dropped the lock: they keep it well formed, and the
  units of the block being released do not become free.
\<close>

definition keeps_clear :: "ulong \<Rightarrow> ulong \<Rightarrow> (rmap \<Rightarrow> rmap) \<Rightarrow> bool" where
  "keeps_clear sz addr f \<longleftrightarrow>
     (\<forall>m. rmap_ok m \<and> block sz addr \<inter> map_units m = {} \<longrightarrow>
        rmap_ok (f m) \<and> block sz addr \<inter> map_units (f m) = {})"

lemma rmfree_retry_returns:
  assumes "\<forall>f\<in>set others. keeps_clear sz addr f" and good: "good_block sz addr"
    and "rmap_ok mp" and "block sz addr \<inter> map_units mp = {}"
  shows "\<exists>mp'. rmfree_retry others sz addr (rmfree_section mp sz addr) = Done mp' \<and> rmap_ok mp'"
  using assms(1,3,4)
proof (induction others arbitrary: mp)
  case Nil
  show ?case
  proof (rule rmfree_section_step [OF Nil.prems(2) good Nil.prems(3)])
    fix mp1
    assume s: "rmfree_section mp sz addr = Done (Again mp1)" and "rmap_ok mp1"
      "map_units mp1 \<subseteq> map_units mp" "0 < m_free mp1"
    then obtain mp' where "rmfree_section mp1 sz addr = Done (Finished mp')" "rmap_ok mp'"
      by (elim rmfree_section_room [OF _ good, of mp1]) (use Nil.prems(3) in auto)
    with s show ?case by simp
  qed auto
next
  case (Cons f fs)
  show ?case
  proof (rule rmfree_section_step [OF Cons.prems(2) good Cons.prems(3)])
    fix mp1
    assume s: "rmfree_section mp sz addr = Done (Again mp1)" and mp1: "rmap_ok mp1" "map_units mp1 \<subseteq> map_units mp"
    then have "block sz addr \<inter> map_units mp1 = {}"
      using Cons.prems by auto
    with mp1 have "rmap_ok (f mp1) \<and> block sz addr \<inter> map_units (f mp1) = {}"
      using Cons.prems(1) unfolding keeps_clear_def by simp
    with s Cons show ?case by simp
  qed auto
qed

text \<open>
  C36. Misuse is caught: on a well-formed map of two slots or more, for a block that does not
  wrap around the address space, \<open>rmfree\<close> panics exactly when the address is 0, the size is
  not positive, or a unit of the block is already free, and never leaves the array. This holds
  whatever others do to the map each time the lock is dropped, as long as they keep it well formed
  and do not free units of the block themselves.
\<close>

theorem rmfree_panics_iff:
  assumes "wf_map mp" and "2 \<le> m_slots mp" and "addr + sz < 2 ^ 32"
    and "\<forall>f\<in>set others. keeps_clear sz addr f"
  shows "rmfree_among others mp sz addr \<noteq> Overrun \<and> (rmfree_among others mp sz addr = Panic \<longleftrightarrow>
      addr = 0 \<or> ssize_nonpos sz \<or> block sz addr \<inter> map_units mp \<noteq> {})"
proof (cases "addr = 0 \<or> ssize_nonpos sz")
  case True
  then show ?thesis by (auto simp: rmfree_among_def rmfree_enter_def)
next
  case False
  then have good: "good_block sz addr"
    using assms(3) by (simp add: good_block_def)
  show ?thesis
  proof (cases "block sz addr \<inter> map_units mp = {}")
    case True
    then obtain mp' where "rmfree_among others mp sz addr = Done mp'"
      using rmfree_retry_returns [OF assms(4) good _ True] assms False
      by (auto simp: rmap_ok_def rmfree_among_def rmfree_enter_def)
    with True False show ?thesis by simp
  next
    case hit: False
    then show ?thesis
      using pass_overlap [OF assms(1) good hit] False
      by (simp add: rmfree_among_def rmfree_enter_def rmfree_section_def)
  qed
qed

theorem rmfree_panics_iff_witness:
  "rmfree_among [\<lambda>m. m\<lparr>m_want := 1\<rparr>] sample_map 6 12 \<noteq> Overrun \<and>
   (rmfree_among [\<lambda>m. m\<lparr>m_want := 1\<rparr>] sample_map 6 12 = Panic \<longleftrightarrow>
     (12::nat) = 0 \<or> ssize_nonpos 6 \<or> block 6 12 \<inter> map_units sample_map \<noteq> {})"
  by (rule rmfree_panics_iff [OF sample_map_ok(1)])
    (simp_all add: sample_map_ok keeps_clear_def)

text \<open>
  A map of a single slot, which \<open>rmallocmap\<close> creates when asked to, is not safe: once
  the slot is taken, releasing a block elsewhere makes \<open>rmfree\<close> compare with the entry
  before the array.
\<close>

lemma rmfree_single_slot_overrun:
  "\<exists>mp0 mp1. rmallocmap 6 True 1 = Done (Some (mp0, 7)) \<and> wf_map mp0 \<and>
     rmfree mp0 5 10 = Done mp1 \<and> wf_map mp1 \<and> block 3 40 \<inter> map_units mp1 = {} \<and>
     rmfree mp1 3 40 = Overrun"
  by (simp add: rmallocmap_def mapinit_def zeroed_map_def rmfree_alone rmfree_pass_def rm_done_def
      rm_discard_def ssize_nonpos_def wf_map_def map_units_def map_segs_def block_def units_of_def)

text \<open>
  Allocation at an address: \<open>rmget\<close> takes exactly the block asked for when all its
  units are free and a slot is unused, keeps the map well formed, and returns 0 with the map
  unchanged in every other case it does not serve.
\<close>

lemma rmget_exact:
  assumes wf: "wf_map mp" and sz: "\<not> ssize_nonpos sz" "addr + sz < 4294967296"
  shows "\<exists>a mp'. rmget mp sz addr = Done (a, mp') \<and> wf_map mp' \<and>
    (if a = 0 then mp' = mp \<and> \<not> (block sz addr \<subseteq> map_units mp \<and> 0 < m_free mp)
     else a = addr \<and> block sz addr \<subseteq> map_units mp \<and> map_units mp' = map_units mp - block sz addr)"
proof (cases "block sz addr \<subseteq> map_units mp")
  case False
  then show ?thesis
    using rmget_refused [OF wf sz False] wf by simp
next
  case True
  obtain l b r d junk where lay: "laid_out mp (l @ b # r) d junk" and seg: "map_segs mp = l @ b # r"
    and b: "m_addr b \<le> addr" "addr + sz \<le> m_addr b + m_size b" "0 < m_addr b"
    by (rule run_segment [OF wf sz(1) True])
  have ok: "segs_ok (l @ b # r)" and pos: "0 < sz"
    using lay sz by (auto simp: laid_out_def ssize_nonpos_def)
  show ?thesis
  proof (cases "m_addr b = addr \<or> m_addr b + m_size b = addr + sz \<or> 0 < m_free mp")
    case room: True
    obtain mp' d' junk' where "rmget mp sz addr = Done (addr, mp')"
      "laid_out mp' (l @ cut_out sz addr b @ r) d' junk'"
      by (rule rmget_taken [OF lay sz b(1,2) room])
    moreover from this have "wf_map mp'" "map_segs mp' = l @ cut_out sz addr b @ r"
      using laid_out_wf by blast+
    ultimately show ?thesis
      using True b cut_out_ok(2) [OF ok pos b(1,2)] by (simp add: map_units_def seg)
  next
    case full: False
    then show ?thesis
      using rmget_at [OF lay sz b(1,2)] lay wf by (auto simp: laid_out_def)
  qed
qed

lemma rmget_exact_witness:
  "\<exists>a mp'. rmget sample_map 2 22 = Done (a, mp') \<and> wf_map mp' \<and>
    (if a = 0 then mp' = sample_map \<and> \<not> (block 2 22 \<subseteq> map_units sample_map \<and> 0 < m_free sample_map)
     else a = 22 \<and> block 2 22 \<subseteq> map_units sample_map \<and>
       map_units mp' = map_units sample_map - block 2 22)"
  by (rule rmget_exact [OF sample_map_ok(1)]) (simp_all add: ssize_nonpos_def)

text \<open>
  Round trip: a block taken with \<open>rmalloc\<close> and handed straight back leaves the list of
  free segments exactly as it was, so an allocation never costs units to fragmentation.
\<close>

lemma rmalloc_rmfree_roundtrip:
  assumes wf: "wf_map mp" and sz: "\<not> ssize_nonpos sz"
    and run: "rmalloc mp sz = Done (addr, mp1)" and addr: "addr \<noteq> 0"
  shows "\<exists>mp2. rmfree mp1 sz addr = Done mp2 \<and> map_segs mp2 = map_segs mp"
proof -
  have pos: "0 < sz" using sz by (simp add: ssize_nonpos_def)
  have wf1: "wf_map mp1" and sub: "block sz addr \<subseteq> map_units mp"
    and units: "map_units mp1 = map_units mp - block sz addr"
    and room: "0 < m_free mp1 \<or> abuts (map_segs mp1) sz addr"
    by (rule rmalloc_cases [OF wf pos]; use run addr in auto)+
  obtain mp2 where mp2: "rmfree mp1 sz addr = Done (rm_done mp2)" "released mp1 sz addr mp2"
    by (rule rmfree_room [OF wf1 rmalloc_block_good [OF wf sz sub] _ room]) (use units in auto)
  then have "wf_map mp2" "map_units mp2 = map_units mp"
    using releasedD [OF mp2(2)] units sub by auto
  then have "map_segs mp2 = map_segs mp"
    using wf by (intro segs_canonical) (auto simp: wf_map_def map_units_def)
  with mp2 show ?thesis by auto
qed

lemma rmalloc_rmfree_roundtrip_witness:
  "\<exists>mp1 mp2. rmalloc sample_map 6 = Done (20, mp1) \<and> rmfree mp1 6 20 = Done mp2 \<and>
     map_segs mp2 = map_segs sample_map"
proof -
  obtain mp1 where "rmalloc sample_map 6 = Done (20, mp1)"
    by (simp add: rmalloc_def rmalloc_locked_def sample_map_def)
  with rmalloc_rmfree_roundtrip [OF sample_map_ok(1) _ this] show ?thesis
    by (auto simp: ssize_nonpos_def)
qed

lemma rmfree_pass_flags:
  "rmfree_pass mp sz addr = Done (Finished mp') \<Longrightarrow> m_want mp' = m_want mp \<and> m_bcasts mp' = m_bcasts mp"
  "rmfree_pass mp sz addr = Done (Again mp') \<Longrightarrow> m_want mp' = m_want mp \<and> m_bcasts mp' = m_bcasts mp"
  by (auto simp: rmfree_pass_def Let_def split: option.splits if_splits)

lemma rmfree_done:
  assumes "rmfree mp sz addr = Done mp2"
  shows "\<exists>mp'. mp2 = rm_done mp' \<and> m_want mp' = m_want mp \<and> m_bcasts mp' = m_bcasts mp"
proof -
  obtain r where r: "rmfree_pass mp sz addr = Done r"
    using assms by (auto simp: rmfree_alone split: if_splits)
  show ?thesis
  proof (cases r)
    case (Finished mp')
    then show ?thesis
      using assms r rmfree_pass_flags(1) by (auto simp: rmfree_alone split: if_splits)
  next
    case (Again mp1)
    then obtain r' where r': "rmfree_pass mp1 sz addr = Done r'"
      using assms r by (auto simp: rmfree_alone split: if_splits)
    then show ?thesis
      using assms r Again rmfree_pass_flags(1) rmfree_pass_flags(2)
      by (cases r') (fastforce simp: rmfree_alone split: if_splits)+
  qed
qed

lemma rmalloc_flags:
  "rmalloc mp sz = Done (a, mp') \<Longrightarrow> m_want mp' = m_want mp \<and> m_bcasts mp' = m_bcasts mp"
  by (auto simp: rmalloc_def rmalloc_locked_def)

text \<open>
  No lost wake-up: a caller of \<open>rmalloc_wait\<close> that goes to sleep leaves \<^verbatim>\<open>m_want\<close> set;
  allocations by others keep it set, and the next release that returns clears it and
  broadcasts on the map's condition variable.
\<close>

lemma rmalloc_wait_woken:
  assumes "rmalloc_wait mp sz = Done (None, mp1)"
  shows "m_want mp1 = 1 \<and>
    (\<forall>n a mp2. rmalloc mp1 n = Done (a, mp2) \<longrightarrow> m_want mp2 = 1) \<and>
    (\<forall>n a mp2. rmfree mp1 n a = Done mp2 \<longrightarrow> m_want mp2 = 0 \<and> m_bcasts mp2 = m_bcasts mp1 + 1)"
proof -
  have w: "m_want mp1 = 1"
    using assms by (auto simp: rmalloc_wait_def split: if_splits)
  have "m_want mp2 = 0 \<and> m_bcasts mp2 = m_bcasts mp1 + 1" if r: "rmfree mp1 n a = Done mp2" for n a mp2
  proof -
    obtain mp' where "mp2 = rm_done mp'" "m_want mp' = m_want mp1" "m_bcasts mp' = m_bcasts mp1"
      using rmfree_done [OF r] by blast
    with w show ?thesis by simp
  qed
  with w show ?thesis
    using rmalloc_flags by auto
qed

lemma rmalloc_wait_woken_witness:
  "\<exists>mp1. rmalloc_wait sample_map 9 = Done (None, mp1) \<and> m_want mp1 = 1 \<and>
    (\<forall>n a mp2. rmalloc mp1 n = Done (a, mp2) \<longrightarrow> m_want mp2 = 1) \<and>
    (\<forall>n a mp2. rmfree mp1 n a = Done mp2 \<longrightarrow> m_want mp2 = 0 \<and> m_bcasts mp2 = m_bcasts mp1 + 1)"
proof -
  have "\<exists>mp1. rmalloc_wait sample_map 9 = Done (None, mp1)"
    by (simp add: rmalloc_wait_def rmalloc_locked_def sample_map_def)
  then show ?thesis
    using rmalloc_wait_woken by blast
qed

lemma rmallocmap_new:
  assumes "0 < n" and "n + ovh < 2 ^ 32"
  shows "\<exists>mp k. rmallocmap ovh True n = Done (Some (mp, k)) \<and> wf_map mp \<and> m_slots mp = n \<and>
    m_free mp = n \<and> map_units mp = {} \<and> m_want mp = 0 \<and> rmfreemap ovh mp = k"
proof -
  have "map_segs (mp\<lparr>m_map := replicate k \<lparr>m_size = 0, m_addr = 0\<rparr>\<rparr>) = []" for mp :: rmap and k
    by (cases k) (auto simp: map_segs_def)
  then show ?thesis
    using assms by (simp add: rmallocmap_def mapinit_def zeroed_map_def Let_def rmfreemap_def
        wf_map_def map_units_def map_segs_def add.commute)
qed

text \<open>
  Creation and disposal: a map asked for with \<open>n\<close> slots starts well formed with \<open>n\<close>
  unused slots and nothing free, and disposing of it returns to the allocator as many units
  as were taken from it.
\<close>

lemma rmallocmap_fresh:
  assumes "0 < n" and "n + ovh < 2 ^ 32"
  shows "\<exists>mp k. rmallocmap ovh True n = Done (Some (mp, k)) \<and> wf_map mp \<and> m_slots mp = n \<and>
    m_free mp = n \<and> map_units mp = {} \<and> m_want mp = 0 \<and> rmfreemap ovh mp = k"
  using assms by (rule rmallocmap_new)

lemma rmallocmap_fresh_witness:
  "\<exists>mp k. rmallocmap 6 True 10 = Done (Some (mp, k)) \<and> wf_map mp \<and> m_slots mp = 10 \<and>
    m_free mp = 10 \<and> map_units mp = {} \<and> m_want mp = 0 \<and> rmfreemap 6 mp = k"
  by (rule rmallocmap_fresh) simp_all

text \<open>
  C4. Exclusive use: whatever the order in which clients allocate and release, also while a
  release has dropped the lock and is to be continued, no unit of a block one of them holds
  or is still releasing is free in the map, two such blocks have no unit in common, and the release of any
  of them goes on without a panic and without leaving the array. The map has two slots or more.
\<close>

theorem rm_clients_disjoint:
  assumes "rmap_ok mp0" and "rm_clients mp0 mp hs ps"
  shows "(\<forall>(n, a)\<in>set (hs @ ps). block n a \<inter> map_units mp = {}) \<and>
    (\<forall>i j. i < j \<and> j < length (hs @ ps) \<longrightarrow>
       block (fst ((hs @ ps) ! i)) (snd ((hs @ ps) ! i)) \<inter> block (fst ((hs @ ps) ! j)) (snd ((hs @ ps) ! j)) = {}) \<and>
    (\<forall>(n, a)\<in>set hs. \<exists>r. rmfree_enter mp n a = Done r) \<and>
    (\<forall>(n, a)\<in>set ps. \<exists>r. rmfree_section mp n a = Done r)"
proof (intro conjI)
  have held: "held_ok (map_units mp) (hs @ ps)"
    using rm_clients_held [OF assms(2,1)] by simp
  then show "\<forall>(n, a)\<in>set (hs @ ps). block n a \<inter> map_units mp = {}"
    by (fastforce simp: held_ok_def)
  from held show "\<forall>i j. i < j \<and> j < length (hs @ ps) \<longrightarrow>
      block (fst ((hs @ ps) ! i)) (snd ((hs @ ps) ! i)) \<inter> block (fst ((hs @ ps) ! j)) (snd ((hs @ ps) ! j)) = {}"
    unfolding held_ok_def sorted_wrt_iff_nth_less case_prod_beta by blast
qed (use rm_clients_go_on [OF assms(2,1)] in auto)

text \<open>Two blocks are taken from the full map, the release of the first drops the lock, a third is taken.\<close>

theorem rm_clients_disjoint_witness:
  "\<exists>mp. rm_clients full_map mp [(8, 20), (1, 12)] [(2, 10)] \<and>
    block 2 10 \<inter> map_units mp = {} \<and>
    (\<exists>r. rmfree_enter mp 1 12 = Done r) \<and> (\<exists>r. rmfree_section mp 2 10 = Done r)"
proof -
  have ok: "rmap_ok full_map"
    by (simp add: rmap_ok_def full_map_ok)
  obtain mp1 mp2 mp3 mp4 where run: "rmalloc full_map 2 = Done (10, mp1)" "rmalloc mp1 1 = Done (12, mp2)"
    "rmfree_enter mp2 2 10 = Done (Again mp3)" "rmalloc mp3 8 = Done (20, mp4)"
    by (simp add: rmalloc_def rmalloc_locked_def full_map_def rmfree_enter_def rmfree_section_def
        rmfree_pass_def rm_discard_def ssize_nonpos_def)
  have "rm_clients full_map mp2 ([(1, 12)] @ (2, 10) # []) []"
    using rm_clients.take [OF rm_clients.take [OF rm_clients.start _ run(1)] _ run(2)]
    by (simp add: ssize_nonpos_def)
  from rm_clients.take [OF rm_clients.give_up_lock [OF this run(3)] _ run(4)]
  have reach: "rm_clients full_map mp4 [(8, 20), (1, 12)] [(2, 10)]"
    by (simp add: ssize_nonpos_def)
  with rm_clients_disjoint [OF ok reach] show ?thesis by auto
qed

end
