(* ===== verification/Timeval.thy ===== *)
theory Timeval
  imports Kern_Prelude
begin

text \<open>
  Time arithmetic of \<^verbatim>\<open>uts/common/os/timers.c\<close>: normalisation, addition and subtraction of
  \<^verbatim>\<open>timeval\<close> and \<^verbatim>\<open>timespec\<close> values, the virtual interval timer, conversion of an absolute
  time to clock ticks, the division-free conversions between \<^verbatim>\<open>hrtime_t\<close> and
  \<^verbatim>\<open>timestruc_t\<close>, the unique time stamps of \<^verbatim>\<open>gettimeofday\<close> and the calendar
  conversions with their cache. Signed 32-bit variables are integers, wrapped by \<open>s32\<close> at
  each assignment; the unsigned arithmetic of \<^verbatim>\<open>hrt2ts\<close> is done on words.
\<close>

section \<open>Data\<close>

abbreviation MICROSEC :: int where "MICROSEC \<equiv> 1000000"
abbreviation NANOSEC :: int where "NANOSEC \<equiv> 1000000000"
abbreviation LONG_MAX :: int where "LONG_MAX \<equiv> 2147483647"

text \<open>
  \<^verbatim>\<open>tv_sec\<close> and \<^verbatim>\<open>tv_nsec\<close> of a \<^verbatim>\<open>timespec\<close> are \<open>ts_sec\<close> and \<open>ts_nsec\<close> here, since
  the fields of all records share one name space.
\<close>

record timeval =
  tv_sec :: int
  tv_usec :: int

record timespec =
  ts_sec :: int
  ts_nsec :: int

record itimerval =
  it_interval :: timeval
  it_value :: timeval

definition timerisset :: "timeval \<Rightarrow> bool" where
  "timerisset t \<longleftrightarrow> tv_sec t \<noteq> 0 \<or> tv_usec t \<noteq> 0"

section \<open>Checking a timer value\<close>

text \<open>The second component is the value left in \<^verbatim>\<open>*tv\<close>.\<close>

definition itimerfix :: "int \<Rightarrow> timeval \<Rightarrow> errno option \<times> timeval" where
  "itimerfix usec_per_tick tv =
     (if tv_sec tv < 0 \<or> tv_sec tv > 100000000 \<or> tv_usec tv < 0 \<or> tv_usec tv \<ge> MICROSEC
      then (Some EINVAL, tv)
      else if tv_sec tv = 0 \<and> tv_usec tv \<noteq> 0 \<and> tv_usec tv < usec_per_tick
      then (None, tv\<lparr>tv_usec := usec_per_tick\<rparr>)
      else (None, tv))"

definition itimerspecfix :: "int \<Rightarrow> timespec \<Rightarrow> errno option \<times> timespec" where
  "itimerspecfix nsec_per_tick tv =
     (if ts_sec tv < 0 \<or> ts_nsec tv < 0 \<or> ts_nsec tv \<ge> NANOSEC
      then (Some EINVAL, tv)
      else if ts_sec tv = 0 \<and> ts_nsec tv \<noteq> 0 \<and> ts_nsec tv < nsec_per_tick
      then (None, tv\<lparr>ts_nsec := nsec_per_tick\<rparr>)
      else (None, tv))"

section \<open>Decrementing an interval timer\<close>

text \<open>The code after the label \<^verbatim>\<open>expire\<close>.\<close>

definition itimer_expire :: "itimerval \<Rightarrow> int \<Rightarrow> int \<times> itimerval" where
  "itimer_expire itp usec =
     (if timerisset (it_interval itp) then
        let v = it_interval itp;
            v = v\<lparr>tv_usec := s32 (tv_usec v - usec)\<rparr>;
            v = (if tv_usec v < 0
                 then v\<lparr>tv_usec := s32 (tv_usec v + MICROSEC), tv_sec := s32 (tv_sec v - 1)\<rparr>
                 else v)
        in (0, itp\<lparr>it_value := v\<rparr>)
      else (0, itp\<lparr>it_value := (it_value itp)\<lparr>tv_usec := 0\<rparr>\<rparr>))"

definition itimerdecr :: "itimerval \<Rightarrow> int \<Rightarrow> int \<times> itimerval" where
  "itimerdecr itp usec =
     (let v = it_value itp in
      if tv_usec v < usec \<and> tv_sec v = 0
      then itimer_expire itp (s32 (usec - tv_usec v))
      else
        let v = (if tv_usec v < usec
                 then v\<lparr>tv_usec := s32 (tv_usec v + MICROSEC), tv_sec := s32 (tv_sec v - 1)\<rparr>
                 else v);
            v = v\<lparr>tv_usec := s32 (tv_usec v - usec)\<rparr>;
            itp = itp\<lparr>it_value := v\<rparr>
        in if timerisset v then (1, itp) else itimer_expire itp 0)"

section \<open>Addition and subtraction\<close>

definition timevalfix :: "timeval \<Rightarrow> timeval" where
  "timevalfix t =
     (let t = (if tv_usec t < 0
               then t\<lparr>tv_sec := s32 (tv_sec t - 1), tv_usec := s32 (tv_usec t + MICROSEC)\<rparr>
               else t)
      in if tv_usec t \<ge> MICROSEC
         then t\<lparr>tv_sec := s32 (tv_sec t + 1), tv_usec := s32 (tv_usec t - MICROSEC)\<rparr>
         else t)"

definition timevaladd :: "timeval \<Rightarrow> timeval \<Rightarrow> timeval" where
  "timevaladd t1 t2 =
     timevalfix (t1\<lparr>tv_sec := s32 (tv_sec t1 + tv_sec t2),
                    tv_usec := s32 (tv_usec t1 + tv_usec t2)\<rparr>)"

definition timevalsub :: "timeval \<Rightarrow> timeval \<Rightarrow> timeval" where
  "timevalsub t1 t2 =
     timevalfix (t1\<lparr>tv_sec := s32 (tv_sec t1 - tv_sec t2),
                    tv_usec := s32 (tv_usec t1 - tv_usec t2)\<rparr>)"

definition timespecfix :: "timespec \<Rightarrow> timespec" where
  "timespecfix t =
     (if ts_nsec t < 0
      then t\<lparr>ts_sec := s32 (ts_sec t - 1), ts_nsec := s32 (ts_nsec t + NANOSEC)\<rparr>
      else if ts_nsec t \<ge> NANOSEC
      then t\<lparr>ts_sec := s32 (ts_sec t + 1), ts_nsec := s32 (ts_nsec t - NANOSEC)\<rparr>
      else t)"

definition timespecadd :: "timespec \<Rightarrow> timespec \<Rightarrow> timespec" where
  "timespecadd t1 t2 =
     timespecfix (t1\<lparr>ts_sec := s32 (ts_sec t1 + ts_sec t2),
                     ts_nsec := s32 (ts_nsec t1 + ts_nsec t2)\<rparr>)"

definition timespecsub :: "timespec \<Rightarrow> timespec \<Rightarrow> timespec" where
  "timespecsub t1 t2 =
     timespecfix (t1\<lparr>ts_sec := s32 (ts_sec t1 - ts_sec t2),
                     ts_nsec := s32 (ts_nsec t1 - ts_nsec t2)\<rparr>)"

section \<open>Ticks until a time\<close>

text \<open>
  Division is by the positive constants \<^verbatim>\<open>nsec_per_tick\<close> and \<^verbatim>\<open>hz\<close>. C truncates the
  quotient toward zero.
\<close>

definition cdiv :: "int \<Rightarrow> int \<Rightarrow> int" where
  "cdiv a b = (if a < 0 then - ((- a) div b) else a div b)"

definition timespectohz :: "int \<Rightarrow> int \<Rightarrow> timespec \<Rightarrow> timespec \<Rightarrow> int" where
  "timespectohz hz nsec_per_tick tv now =
     (let sec = s32 (ts_sec tv - ts_sec now);
          nsec = s32 (ts_nsec tv - ts_nsec now + nsec_per_tick - 1);
          (sec, nsec) =
            (if nsec < 0 then (s32 (sec - 1), s32 (nsec + NANOSEC))
             else if nsec > NANOSEC then (s32 (sec + 1), s32 (nsec - NANOSEC))
             else (sec, nsec));
          ticks = cdiv nsec nsec_per_tick
      in if sec < 0 \<or> (sec = 0 \<and> ticks < 1) then 1
         else if sec > cdiv (LONG_MAX - ticks) hz then LONG_MAX
         else s32 (ticks + sec * hz))"

text \<open>\<open>hrestime\<close> is the clock that \<^verbatim>\<open>hzto\<close> reads under the clock lock.\<close>

definition hzto :: "int \<Rightarrow> int \<Rightarrow> timespec \<Rightarrow> timeval \<Rightarrow> int" where
  "hzto hz nsec_per_tick hrestime tv =
     timespectohz hz nsec_per_tick
       \<lparr>ts_sec = tv_sec tv, ts_nsec = s32 (tv_usec tv * 1000)\<rparr> hrestime"

section \<open>High-resolution time\<close>

definition times125 :: "'a::len word \<Rightarrow> 'a word" where
  "times125 x = push_bit 7 x - x - x - x"

text \<open>The quotient estimate of \<^verbatim>\<open>hrt2ts\<close>, from bits 30 to 61 of the time.\<close>

definition hrt_sec :: "32 word \<Rightarrow> 32 word" where
  "hrt_sec tmp =
     (let sec = tmp - drop_bit 2 tmp;
          sec = tmp - drop_bit 5 sec;
          sec = tmp + drop_bit 1 sec;
          sec = tmp - drop_bit 6 sec + 7;
          sec = tmp - drop_bit 3 sec;
          sec = tmp + drop_bit 1 sec;
          sec = tmp + drop_bit 3 sec
      in tmp + drop_bit 4 sec)"

function hrt_cleanup :: "32 word \<Rightarrow> 32 word \<Rightarrow> 32 word \<times> 32 word" where
  "hrt_cleanup sec nsec =
     (if nsec \<ge> 1000000000 then hrt_cleanup (sec + 1) (nsec - 1000000000) else (sec, nsec))"
  by auto
termination
  by (relation "measure (\<lambda>(sec, nsec). unat nsec)")
    (auto simp: unat_sub word_le_nat_alt)

definition hrt2ts :: "64 word \<Rightarrow> timespec" where
  "hrt2ts hrt =
     (let sec = hrt_sec (ucast (signed_drop_bit 30 hrt));
          tmp = times125 (times125 (times125 sec));
          nsec = ucast hrt - push_bit 9 tmp;
          (sec, nsec) = hrt_cleanup sec nsec
      in \<lparr>ts_sec = sint sec, ts_nsec = sint nsec\<rparr>)"

definition ts2hrt :: "timespec \<Rightarrow> 64 word" where
  "ts2hrt tsp =
     (let hrt = times125 (times125 (times125 (word_of_int (ts_sec tsp))))
      in push_bit 9 hrt + word_of_int (ts_nsec tsp))"

section \<open>Unique time stamps\<close>

text \<open>
  The conversion of nanoseconds by shifts; below a second no step leaves 31 bits.
\<close>

definition nsec_to_usec :: "int \<Rightarrow> int" where
  "nsec_to_usec nsec =
     (let usec = nsec + nsec div 4;
          usec = nsec + usec div 2;
          usec = nsec + usec div 4;
          usec = nsec + usec div 16;
          usec = nsec - usec div 8;
          usec = nsec + usec div 4;
          usec = nsec + usec div 8;
          usec = nsec + usec div 16;
          usec = nsec + usec div 2;
          usec = nsec + usec div 64
      in usec div 1024)"

text \<open>
  \<open>ts\<close> is what \<^verbatim>\<open>gethrestime\<close> reads, \<open>prev\<close> the routine's static variable \<^verbatim>\<open>last\<close>. The value
  returned is also its new value.
\<close>

definition uniqtime :: "timeval \<Rightarrow> timespec \<Rightarrow> timeval" where
  "uniqtime prev ts =
     (let usec = nsec_to_usec (ts_nsec ts);
          sec = ts_sec ts;
          (sec, usec) =
            (if sec \<le> tv_sec prev \<and> (sec \<noteq> tv_sec prev \<or> usec \<le> tv_usec prev)
                \<and> s32 (tv_sec prev - sec) \<le> 5
             then
               let sec = tv_sec prev;
                   usec = s32 (tv_usec prev + 1)
               in if usec \<ge> MICROSEC then (s32 (sec + 1), s32 (usec - MICROSEC)) else (sec, usec)
             else (sec, usec))
      in \<lparr>tv_sec = sec, tv_usec = usec\<rparr>)"

text \<open>
  \<open>ok\<close> says whether \<^verbatim>\<open>copyout\<close> succeeds; the first component is the value it stores, the
  second the error, the third the new \<open>prev\<close>.
\<close>

definition gettimeofday ::
  "bool \<Rightarrow> bool \<Rightarrow> timeval \<Rightarrow> timespec \<Rightarrow> timeval option \<times> errno option \<times> timeval" where
  "gettimeofday tp ok prev ts =
     (if tp then
        let atv = uniqtime prev ts
        in if ok then (Some atv, None, atv) else (None, Some EFAULT, atv)
      else (None, None, prev))"

section \<open>Calendar time\<close>

record todinfo =
  tod_sec :: int
  tod_min :: int
  tod_hour :: int
  tod_dow :: int
  tod_day :: int
  tod_month :: int
  tod_year :: int

definition days_thru_month :: "int list" where
  "days_thru_month =
    [0, 0, 31, 60, 91, 121, 152, 182, 213, 244, 274, 305, 335, 366, 0, 0,
     0, 0, 31, 59, 90, 120, 151, 181, 212, 243, 273, 304, 334, 365, 0, 0,
     0, 0, 31, 59, 90, 120, 151, 181, 212, 243, 273, 304, 334, 365, 0, 0,
     0, 0, 31, 59, 90, 120, 151, 181, 212, 243, 273, 304, 334, 365, 0, 0]"

text \<open>The static variables of the conversion; the initial values of the file are \<open>tod_init\<close>.\<close>

record tod_cache =
  saved_tod :: todinfo
  saved_utc :: int

definition tod_init :: tod_cache where
  "tod_init =
     \<lparr>saved_tod = \<lparr>tod_sec = 0, tod_min = 0, tod_hour = 0, tod_dow = 0, tod_day = 0,
                   tod_month = 0, tod_year = 0\<rparr>,
      saved_utc = - 60\<rparr>"

function tod_year_loop :: "int \<Rightarrow> int \<Rightarrow> int \<times> int" where
  "tod_year_loop dse year =
     (let year = year - 1;
          day = dse - 365 * (year - 70) - (year - 69) div 4
      in if day < 0 then tod_year_loop dse year else (year, day))"
  by auto
termination
  by (relation "measure (\<lambda>(dse, year). nat (365 * (year - 70) + (year - 69) div 4 - dse))") auto

text \<open>\<open>Overrun\<close> is a look-up past the table's 64 entries.\<close>

function tod_month_loop :: "int \<Rightarrow> nat \<Rightarrow> nat outcome" where
  "tod_month_loop day month =
     (if month + 1 \<ge> length days_thru_month then Overrun
      else if day \<ge> days_thru_month ! (month + 1) then tod_month_loop day (month + 1)
      else Done month)"
  by auto
termination
  by (relation "measure (\<lambda>(day, month). length days_thru_month - month)") auto

text \<open>A miss of the cache: the computation from the days since the epoch.\<close>

definition tod_compute :: "int \<Rightarrow> todinfo outcome" where
  "tod_compute utc =
     (let dse = utc div 86400;
          (year, day) = tod_year_loop dse (dse div 365 + 72)
      in bind_outcome (tod_month_loop day (nat (year mod 4 * 16 + 1)))
           (\<lambda>month. Done
              \<lparr>tod_sec = utc mod 60,
               tod_min = (utc mod 3600) div 60,
               tod_hour = (utc mod 86400) div 3600,
               tod_dow = (dse + 4) mod 7 + 1,
               tod_day = day - days_thru_month ! month + 1,
               tod_month = int (month mod 16),
               tod_year = year\<rparr>))"

definition utc_to_tod :: "tod_cache \<Rightarrow> int \<Rightarrow> (todinfo \<times> tod_cache) outcome" where
  "utc_to_tod c utc0 =
     (let utc = (if utc0 < 0 then 0 else utc0);
          st = (saved_tod c)\<lparr>tod_sec := s32 (tod_sec (saved_tod c) + (utc - saved_utc c))\<rparr>
      in if tod_sec st \<ge> 0 \<and> tod_sec st < 60
         then Done (st, \<lparr>saved_tod = st, saved_utc = utc\<rparr>)
         else bind_outcome (tod_compute utc)
                (\<lambda>tod. Done (tod, \<lparr>saved_tod = tod, saved_utc = utc\<rparr>)))"

definition tod_to_utc :: "todinfo \<Rightarrow> int" where
  "tod_to_utc tod =
     (let year = tod_year tod;
          month = tod_month tod + year mod 4 * 16;
          utc = year - 70;
          utc = s32 (utc + (push_bit 3 utc + push_bit 6 utc));
          utc = s32 (utc + (push_bit 2 utc + (year - 69) div 4));
          utc = s32 (utc + (days_thru_month ! nat month + tod_day tod - 1));
          utc = s32 (push_bit 3 utc + push_bit 4 utc + tod_hour tod);
          utc = s32 (push_bit 6 utc - push_bit 2 utc + tod_min tod)
      in s32 (push_bit 6 utc - push_bit 2 utc + tod_sec tod))"

section \<open>Values as counts\<close>

text \<open>A normalised value, and the number of microseconds or nanoseconds it stands for.\<close>

definition tv_total :: "timeval \<Rightarrow> int" where
  "tv_total t = tv_sec t * MICROSEC + tv_usec t"

definition ts_total :: "timespec \<Rightarrow> int" where
  "ts_total t = ts_sec t * NANOSEC + ts_nsec t"

definition tv_ok :: "timeval \<Rightarrow> bool" where
  "tv_ok t \<longleftrightarrow> 0 \<le> tv_sec t \<and> tv_sec t \<le> LONG_MAX \<and> 0 \<le> tv_usec t \<and> tv_usec t < MICROSEC"

definition ts_ok :: "timespec \<Rightarrow> bool" where
  "ts_ok t \<longleftrightarrow> 0 \<le> ts_sec t \<and> ts_sec t \<le> LONG_MAX \<and> 0 \<le> ts_nsec t \<and> ts_nsec t < NANOSEC"

lemma digits_unique:
  fixes a b :: int
  assumes "a * N + u = b * N + v" and "0 \<le> u" and "u < N" and "0 \<le> v" and "v < N"
  shows "a = b" and "u = v"
proof -
  have "(a * N + u) div N = a" "(b * N + v) div N = b"
    using assms(2-5) by (simp_all add: div_mult_self3 div_pos_pos_trivial)
  then show "a = b"
    using assms(1) by simp
  then show "u = v"
    using assms(1) by simp
qed

lemmas time_defs = tv_total_def ts_total_def tv_ok_def ts_ok_def

lemma timerisset_total:
  assumes "tv_ok t"
  shows "timerisset t \<longleftrightarrow> tv_total t \<noteq> 0"
  using assms unfolding timerisset_def time_defs by linarith

lemma tv_total_inj:
  assumes "tv_ok s" and "tv_ok t" and "tv_total s = tv_total t"
  shows "s = t"
  using assms digits_unique [of "tv_sec s" MICROSEC "tv_usec s" "tv_sec t" "tv_usec t"]
  by (auto simp: time_defs intro!: timeval.equality)

lemma ts_total_inj:
  assumes "ts_ok s" and "ts_ok t" and "ts_total s = ts_total t"
  shows "s = t"
  using assms digits_unique [of "ts_sec s" NANOSEC "ts_nsec s" "ts_sec t" "ts_nsec t"]
  by (auto simp: time_defs intro!: timespec.equality)

lemma timevaladd_total:
  assumes "tv_ok s" and "tv_ok t" and "tv_sec s + tv_sec t < LONG_MAX"
  shows "tv_ok (timevaladd s t)" and "tv_total (timevaladd s t) = tv_total s + tv_total t"
  using assms by (auto simp: timevaladd_def timevalfix_def time_defs Let_def)

lemma timevalsub_total:
  assumes "tv_ok s" and "tv_ok t" and "tv_total t \<le> tv_total s"
  shows "tv_ok (timevalsub s t)" and "tv_total (timevalsub s t) = tv_total s - tv_total t"
  using assms by (auto simp: timevalsub_def timevalfix_def time_defs Let_def)

lemma timespecadd_total:
  assumes "ts_ok s" and "ts_ok t" and "ts_sec s + ts_sec t < LONG_MAX"
  shows "ts_ok (timespecadd s t)" and "ts_total (timespecadd s t) = ts_total s + ts_total t"
  using assms by (auto simp: timespecadd_def timespecfix_def time_defs)

lemma timespecsub_total:
  assumes "ts_ok s" and "ts_ok t" and "ts_total t \<le> ts_total s"
  shows "ts_ok (timespecsub s t)" and "ts_total (timespecsub s t) = ts_total s - ts_total t"
  using assms by (auto simp: timespecsub_def timespecfix_def time_defs)

text \<open>
  Subtracting what was added gives back the original value, for timevals and for
  timespecs, whenever the sum of the seconds fits its variable.
\<close>

lemma time_add_sub_roundtrip:
  assumes "tv_ok s" and "tv_ok t" and "tv_sec s + tv_sec t < LONG_MAX"
    and "ts_ok u" and "ts_ok v" and "ts_sec u + ts_sec v < LONG_MAX"
  shows "timevalsub (timevaladd s t) t = s \<and> timespecsub (timespecadd u v) v = u"
proof
  have "0 \<le> tv_total s" "0 \<le> ts_total u"
    using assms by (auto simp: time_defs)
  then show "timevalsub (timevaladd s t) t = s"
    using timevaladd_total [OF assms(1-3)] assms
    by (intro tv_total_inj) (auto simp: timevalsub_total)
  show "timespecsub (timespecadd u v) v = u"
    using timespecadd_total [OF assms(4-6)] assms \<open>0 \<le> ts_total u\<close>
    by (intro ts_total_inj) (auto simp: timespecsub_total)
qed

lemma time_add_sub_roundtrip_witness:
  "timevalsub (timevaladd \<lparr>tv_sec = 3, tv_usec = 700000\<rparr> \<lparr>tv_sec = 1, tv_usec = 500000\<rparr>)
     \<lparr>tv_sec = 1, tv_usec = 500000\<rparr> = \<lparr>tv_sec = 3, tv_usec = 700000\<rparr>
   \<and> timespecsub (timespecadd \<lparr>ts_sec = 3, ts_nsec = 7\<rparr> \<lparr>ts_sec = 1, ts_nsec = 999999999\<rparr>)
     \<lparr>ts_sec = 1, ts_nsec = 999999999\<rparr> = \<lparr>ts_sec = 3, ts_nsec = 7\<rparr>"
  using time_add_sub_roundtrip [of "\<lparr>tv_sec = 3, tv_usec = 700000\<rparr>" "\<lparr>tv_sec = 1, tv_usec = 500000\<rparr>"
      "\<lparr>ts_sec = 3, ts_nsec = 7\<rparr>" "\<lparr>ts_sec = 1, ts_nsec = 999999999\<rparr>"]
  by (simp add: tv_ok_def ts_ok_def)

section \<open>The virtual timer\<close>

lemma itimer_expire_total:
  assumes "tv_ok (it_interval itp)" and "0 \<le> usec" and "usec \<le> MICROSEC"
    and "tv_sec (it_value itp) = 0"
  shows "fst (itimer_expire itp usec) = 0"
    and "tv_total (it_value (snd (itimer_expire itp usec))) =
           (if tv_total (it_interval itp) = 0 then 0 else tv_total (it_interval itp) - usec)"
    and "it_interval (snd (itimer_expire itp usec)) = it_interval itp"
  using assms timerisset_total [OF assms(1)]
  by (auto simp: itimer_expire_def time_defs Let_def)

text \<open>
  \<open>itimerdecr\<close> on a valid timer, by less than a second, keeps counting down with
  return value 1 exactly while time remains; when the timer expires it returns 0, and a
  periodic timer is reloaded with its interval less the overshoot, so that the periods do
  not drift, while a one-shot timer is cleared. The interval itself never changes.
\<close>

lemma itimerdecr_no_drift:
  assumes "tv_ok (it_value itp)" and "tv_ok (it_interval itp)" and "0 \<le> usec"
    and "usec < MICROSEC" and "itimerdecr itp usec = (r, itp')"
  shows "it_interval itp' = it_interval itp \<and>
    (if usec < tv_total (it_value itp)
     then r = 1 \<and> tv_ok (it_value itp') \<and> tv_total (it_value itp') = tv_total (it_value itp) - usec
     else r = 0 \<and> tv_total (it_value itp') =
       (if tv_total (it_interval itp) = 0 then 0
        else tv_total (it_interval itp) - (usec - tv_total (it_value itp))))"
proof -
  define v where "v = it_value itp"
  consider (under) "tv_usec v < usec" "tv_sec v = 0"
    | (exact) "tv_usec v = usec" "tv_sec v = 0"
    | (left) "usec < tv_total v"
  proof (cases "tv_sec v = 0")
    case True
    then show thesis using that by (force simp: time_defs)
  next
    case False
    then show thesis using that assms(1,4) by (simp add: v_def time_defs)
  qed
  then show ?thesis
  proof cases
    case under
    then have "s32 (usec - tv_usec v) = usec - tv_total v"
      using assms(1,3,4) unfolding v_def by (simp add: time_defs)
    moreover have "itimerdecr itp usec = itimer_expire itp (s32 (usec - tv_usec v))"
      using under by (simp add: itimerdecr_def v_def)
    ultimately have e: "itimer_expire itp (usec - tv_total v) = (r, itp')"
      using assms(5) by simp
    have "0 \<le> usec - tv_total v" "usec - tv_total v \<le> MICROSEC" "\<not> usec < tv_total v"
      using under assms(1,3,4) by (simp_all add: v_def time_defs)
    then show ?thesis
      using itimer_expire_total [of itp "usec - tv_total v"] assms(2) under
      by (simp add: e flip: v_def)
  next
    case exact
    let ?itp = "itp\<lparr>it_value := v\<lparr>tv_usec := 0\<rparr>\<rparr>"
    have e: "itimer_expire ?itp 0 = (r, itp')"
      using exact assms(5) by (simp add: itimerdecr_def v_def timerisset_def Let_def)
    have "tv_total v = usec"
      using exact by (simp add: time_defs)
    then show ?thesis
      using itimer_expire_total [of ?itp 0] assms(2) exact by (simp add: e flip: v_def)
  next
    case left
    then show ?thesis
      using assms by (auto simp: itimerdecr_def v_def time_defs timerisset_def Let_def split: if_splits)
  qed
qed

lemma itimerdecr_no_drift_witness:
  "itimerdecr \<lparr>it_interval = \<lparr>tv_sec = 1, tv_usec = 0\<rparr>, it_value = \<lparr>tv_sec = 0, tv_usec = 4000\<rparr>\<rparr> 10000
     = (0, \<lparr>it_interval = \<lparr>tv_sec = 1, tv_usec = 0\<rparr>, it_value = \<lparr>tv_sec = 0, tv_usec = 994000\<rparr>\<rparr>)
   \<and> (994000 :: int) = 1000000 - (10000 - 4000)"
  using itimerdecr_no_drift
    [of "\<lparr>it_interval = \<lparr>tv_sec = 1, tv_usec = 0\<rparr>, it_value = \<lparr>tv_sec = 0, tv_usec = 4000\<rparr>\<rparr>" 10000]
  by (simp add: itimerdecr_def itimer_expire_def timerisset_def Let_def time_defs)

section \<open>Ticks\<close>

lemma timespectohz_normal:
  assumes "ts_ok tv" and "ts_ok now" and "ts_sec tv < LONG_MAX" and "0 < npt" and "0 < hz"
    and "hz * npt = NANOSEC"
  obtains sec nsec where "0 \<le> nsec" and "nsec \<le> NANOSEC"
    and "sec * NANOSEC + nsec = ts_total tv - ts_total now + npt - 1"
    and "sec \<le> LONG_MAX"
    and "timespectohz hz npt tv now =
      (let ticks = cdiv nsec npt
       in if sec < 0 \<or> (sec = 0 \<and> ticks < 1) then 1
          else if sec > cdiv (LONG_MAX - ticks) hz then LONG_MAX
          else s32 (ticks + sec * hz))"
proof -
  have npt: "npt \<le> NANOSEC"
    using assms(4-6) by (smt (verit) mult_le_cancel_right1)
  define n0 where "n0 = ts_nsec tv - ts_nsec now + npt - 1"
  define d where "d = ts_sec tv - ts_sec now"
  have r: "- NANOSEC \<le> n0" "n0 < 2 * NANOSEC" "- LONG_MAX \<le> d" "d < LONG_MAX"
    using assms(1-4) npt by (auto simp: n0_def d_def time_defs)
  have t: "d * NANOSEC + n0 = ts_total tv - ts_total now + npt - 1"
    by (simp add: n0_def d_def time_defs algebra_simps)
  have e: "s32 (ts_sec tv - ts_sec now) = d" "s32 (ts_nsec tv - ts_nsec now + npt - 1) = n0"
    using r by (simp_all flip: n0_def d_def)
  consider "n0 < 0" | "0 \<le> n0 \<and> n0 \<le> NANOSEC" | "n0 > NANOSEC"
    by linarith
  then show thesis
  proof cases
    case 1
    then show thesis
      using that [of "n0 + NANOSEC" "d - 1"] r t
      by (simp add: timespectohz_def e Let_def)
  next
    case 2
    then show thesis
      using that [of n0 d] r t by (simp add: timespectohz_def e Let_def)
  next
    case 3
    then show thesis
      using that [of "n0 - NANOSEC" "d + 1"] r t
      by (simp add: timespectohz_def e Let_def)
  qed
qed

text \<open>
  \<open>timespectohz\<close> for two normalised times and a tick that divides the second is the
  number of whole ticks that covers the difference, rounded up, at least 1 and at most
  \<^verbatim>\<open>LONG_MAX\<close>: nothing of the 32-bit computation overflows on the way.
\<close>

lemma timespectohz_spec:
  assumes "ts_ok tv" and "ts_ok now" and "ts_sec tv < LONG_MAX" and "0 < npt" and "0 < hz"
    and "hz * npt = NANOSEC"
  shows "timespectohz hz npt tv now =
    min LONG_MAX (max 1 ((ts_total tv - ts_total now + npt - 1) div npt))"
proof -
  obtain sec nsec where n: "0 \<le> nsec" "nsec \<le> NANOSEC" "sec \<le> LONG_MAX"
    and t: "sec * NANOSEC + nsec = ts_total tv - ts_total now + npt - 1"
    and c: "timespectohz hz npt tv now =
      (let ticks = cdiv nsec npt
       in if sec < 0 \<or> (sec = 0 \<and> ticks < 1) then 1
          else if sec > cdiv (LONG_MAX - ticks) hz then LONG_MAX
          else s32 (ticks + sec * hz))"
    using timespectohz_normal [OF assms] by metis
  define k where "k = nsec div npt"
  have "NANOSEC div npt = hz"
    using assms(4) by (simp flip: assms(6))
  then have k: "0 \<le> k" "k \<le> hz"
    using n assms(4) zdiv_mono1 [of nsec NANOSEC npt]
    by (simp_all add: k_def pos_imp_zdiv_nonneg_iff)
  have hz: "hz \<le> NANOSEC"
    using assms(4-6) by (smt (verit) mult_le_cancel_left1)
  have N: "(ts_total tv - ts_total now + npt - 1) div npt = sec * hz + k"
  proof -
    have "sec * NANOSEC + nsec = nsec + (sec * hz) * npt"
      by (simp only: mult.assoc assms(6) add.commute)
    then show ?thesis
      using assms(4) by (simp only: t [symmetric] k_def) simp
  qed
  have dk: "cdiv nsec npt = k"
    using n by (simp add: cdiv_def k_def)
  have dh: "sec > cdiv (LONG_MAX - k) hz \<longleftrightarrow> sec * hz + k > LONG_MAX"
    using assms(5) k hz by (auto simp: cdiv_def int_div_less_iff)
  show ?thesis
  proof (cases "sec < 0 \<or> (sec = 0 \<and> k < 1)")
    case True
    moreover have "sec * hz + k \<le> 0"
    proof (cases "sec < 0")
      case True
      then have "sec * hz \<le> (- 1) * hz"
        using assms(5) by (intro mult_right_mono) auto
      then show ?thesis using k by simp
    qed (use \<open>sec < 0 \<or> (sec = 0 \<and> k < 1)\<close> in simp)
    ultimately show ?thesis
      by (simp add: c dk N Let_def)
  next
    case False
    have "1 \<le> sec * hz + k"
    proof (cases "sec = 0")
      case False
      then have "1 * 1 \<le> sec * hz"
        using assms(5) \<open>\<not> (sec < 0 \<or> (sec = 0 \<and> k < 1))\<close> by (intro mult_mono) auto
      then show ?thesis using k by simp
    qed (use False in simp)
    then show ?thesis
      using False k by (auto simp: c dk dh N Let_def add.commute [of k "sec * hz"])
  qed
qed

lemma timespectohz_spec_witness:
  "timespectohz 100 10000000 \<lparr>ts_sec = 12, ts_nsec = 5\<rparr> \<lparr>ts_sec = 10, ts_nsec = 999999999\<rparr> = 101"
  using timespectohz_spec [of "\<lparr>ts_sec = 12, ts_nsec = 5\<rparr>" "\<lparr>ts_sec = 10, ts_nsec = 999999999\<rparr>"
      10000000 100]
  by (simp add: time_defs)


section \<open>High-resolution time\<close>

declare hrt_cleanup.simps [simp del]

lemma uint_sub_small: "uint y \<le> uint x \<Longrightarrow> uint (x - y) = uint x - uint y"
  by (simp flip: uint_sub_lem)

lemma uint_add_small:
  "uint x + uint y < 2 ^ LENGTH('a) \<Longrightarrow> uint (x + y) = uint x + uint y"
  for x y :: "'a::len word"
  by (simp flip: uint_add_lem)

lemma uint_shift: "uint (drop_bit n w) = uint w div 2 ^ n"
  by (subst unsigned_drop_bit_eq) (simp add: drop_bit_eq_div take_bit_int_eq_self)

lemma shift_bounds:
  fixes w :: "'a::len word"
  obtains q where "uint (drop_bit n w) = q" and "0 \<le> q" and "2 ^ n * q \<le> uint w"
    and "uint w < 2 ^ n * q + 2 ^ n"
proof
  show "uint (drop_bit n w) = uint w div 2 ^ n"
    by (rule uint_shift)
  show "0 \<le> uint w div 2 ^ n"
    by (simp add: pos_imp_zdiv_nonneg_iff)
  show "2 ^ n * (uint w div 2 ^ n) \<le> uint w"
    by (metis mult_div_mod_eq pos_mod_sign zero_less_numeral zero_less_power le_add_same_cancel1)
  show "uint w < 2 ^ n * (uint w div 2 ^ n) + 2 ^ n"
    by (metis mult_div_mod_eq pos_mod_bound zero_less_numeral zero_less_power add_strict_left_mono)
qed

text \<open>
  The roundings of the estimate leave room for an excess of a few thousand nanoseconds
  when the time is short; no multiple of a second lies that close above one of \<open>2 ^ 30\<close>.
\<close>

lemma no_near_multiple:
  fixes x q :: int
  assumes "0 \<le> x" and "x < 6600" and "q * 1953125 \<le> 144027 * x + 7"
  shows "q * 1953125 \<le> 144027 * x"
proof (rule ccontr)
  assume "\<not> ?thesis"
  then obtain k where k: "q * 1953125 = 144027 * x + k" "1 \<le> k" "k \<le> 7"
    using assms(3) that [of "q * 1953125 - 144027 * x"] by simp
  define z where "z = q * 1061338 - 78265 * x"
  have "x + k * 1061338 = 1953125 * z"
    using k(1) by (simp add: z_def algebra_simps)
  moreover have "k = 1 \<or> k = 2 \<or> k = 3 \<or> k = 4 \<or> k = 5 \<or> k = 6 \<or> k = 7"
    using k(2,3) by linarith
  moreover have "z \<le> 0 \<or> z = 1 \<or> z = 2 \<or> z = 3 \<or> 4 \<le> z"
    by linarith
  ultimately show False
    using assms(1,2) by (elim disjE) simp_all
qed

text \<open>The estimate is never above the quotient, and at most 3 below it.\<close>

lemma hrt_sec_bounds:
  assumes "uint t < 2147483648"
  shows "uint (hrt_sec t) * NANOSEC \<le> uint t * 1073741824"
    and "uint t * 1073741824 + 1073741824 \<le> uint (hrt_sec t) * NANOSEC + 4294967296"
proof -
  define x where "x = uint t"
  have x: "0 \<le> x" "x < 2147483648"
    using assms by (simp_all add: x_def)
  define s1 where "s1 = t - drop_bit 2 t"
  define s2 where "s2 = t - drop_bit 5 s1"
  define s3 where "s3 = t + drop_bit 1 s2"
  define s4 where "s4 = t - drop_bit 6 s3 + 7"
  define s5 where "s5 = t - drop_bit 3 s4"
  define s6 where "s6 = t + drop_bit 1 s5"
  define s7 where "s7 = t + drop_bit 3 s6"
  define s8 where "s8 = t + drop_bit 4 s7"
  obtain q1 where q1: "uint (drop_bit 2 t) = q1" "0 \<le> q1" "4 * q1 \<le> x" "x < 4 * q1 + 4"
    using shift_bounds [of 2 t] by (auto simp: x_def)
  have s1: "uint s1 = x - q1"
    using x q1 by (simp add: s1_def uint_sub_small flip: x_def)
  obtain q2 where q2: "uint (drop_bit 5 s1) = q2" "0 \<le> q2" "32 * q2 \<le> x - q1" "x - q1 < 32 * q2 + 32"
    using shift_bounds [of 5 s1] by (auto simp: s1)
  have s2: "uint s2 = x - q2"
    using x q1 q2 by (simp add: s2_def uint_sub_small flip: x_def)
  obtain q3 where q3: "uint (drop_bit 1 s2) = q3" "0 \<le> q3" "2 * q3 \<le> x - q2" "x - q2 < 2 * q3 + 2"
    using shift_bounds [of 1 s2] by (auto simp: s2)
  have s3: "uint s3 = x + q3"
    using x q2 q3 by (simp add: s3_def uint_add_small flip: x_def)
  obtain q4 where q4: "uint (drop_bit 6 s3) = q4" "0 \<le> q4" "64 * q4 \<le> x + q3" "x + q3 < 64 * q4 + 64"
    using shift_bounds [of 6 s3] by (auto simp: s3)
  have "uint (t - drop_bit 6 s3) = x - q4"
    using x q2 q3 q4 by (simp add: uint_sub_small flip: x_def)
  then have s4: "uint s4 = x - q4 + 7"
    using x q4 by (simp add: s4_def uint_add_small)
  obtain q5 where q5: "uint (drop_bit 3 s4) = q5" "0 \<le> q5" "8 * q5 \<le> x - q4 + 7" "x - q4 + 7 < 8 * q5 + 8"
    using shift_bounds [of 3 s4] by (auto simp: s4)
  have s5: "uint s5 = x - q5"
    using x q4 q5 by (simp add: s5_def uint_sub_small flip: x_def)
  obtain q6 where q6: "uint (drop_bit 1 s5) = q6" "0 \<le> q6" "2 * q6 \<le> x - q5" "x - q5 < 2 * q6 + 2"
    using shift_bounds [of 1 s5] by (auto simp: s5)
  have s6: "uint s6 = x + q6"
    using x q5 q6 by (simp add: s6_def uint_add_small flip: x_def)
  obtain q7 where q7: "uint (drop_bit 3 s6) = q7" "0 \<le> q7" "8 * q7 \<le> x + q6" "x + q6 < 8 * q7 + 8"
    using shift_bounds [of 3 s6] by (auto simp: s6)
  have s7: "uint s7 = x + q7"
    using x q5 q6 q7 by (simp add: s7_def uint_add_small flip: x_def)
  obtain q8 where q8: "uint (drop_bit 4 s7) = q8" "0 \<le> q8" "16 * q8 \<le> x + q7" "x + q7 < 16 * q8 + 16"
    using shift_bounds [of 4 s7] by (auto simp: s7)
  have "uint s8 = x + q8"
    using x q5 q6 q7 q8 by (simp add: s8_def uint_add_small flip: x_def)
  moreover have "hrt_sec t = s8"
    by (simp add: hrt_sec_def s1_def s2_def s3_def s4_def s5_def s6_def s7_def s8_def Let_def)
  ultimately have h: "uint (hrt_sec t) = x + q8"
    by simp
  have "128 * q2 \<ge> 3 * x - 124" using q1 q2 by linarith
  then have "256 * q3 \<le> 125 * x + 124" using q3 by linarith
  then have "16384 * q4 \<le> 381 * x + 124" using q4 by linarith
  then have "131072 * q5 \<ge> 16003 * x - 124" using q5 by linarith
  then have "262144 * q6 \<le> 115069 * x + 124" using q6 by linarith
  then have "2097152 * q7 \<le> 377213 * x + 124" using q7 by linarith
  then have u: "33554432 * q8 \<le> 2474365 * x + 124" using q8 by linarith
  show "uint (hrt_sec t) * NANOSEC \<le> uint t * 1073741824"
    unfolding h x_def [symmetric]
  proof (cases "x < 6600")
    case True
    have "q8 * 1953125 \<le> 144027 * x + 7"
      using u x by linarith
    from no_near_multiple [OF x(1) True this] show "(x + q8) * NANOSEC \<le> x * 1073741824"
      by simp
  next
    case False
    then have "33554432 * q8 * 1953125 \<le> 33554432 * (144027 * x)"
      using u by linarith
    then show "(x + q8) * NANOSEC \<le> x * 1073741824"
      by simp
  qed
  have "128 * q2 \<le> 3 * x + 3" using q1 q2 by linarith
  then have "256 * q3 \<ge> 125 * x - 131" using q3 by linarith
  then have "16384 * q4 \<ge> 381 * x - 16259" using q4 by linarith
  then have "131072 * q5 \<le> 16003 * x + 130947" using q5 by linarith
  then have "262144 * q6 \<ge> 115069 * x - 262019" using q6 by linarith
  then have "2097152 * q7 \<ge> 377213 * x - 2097027" using q7 by linarith
  then have "33554432 * q8 \<ge> 2474365 * x - 33554307" using q8 by linarith
  then have "1953125 * (2474365 * x - 33554307) \<le> 1953125 * (33554432 * q8)"
    by simp
  moreover have "37039 * x \<le> 37039 * 2147483648"
    using x by simp
  ultimately show "uint t * 1073741824 + 1073741824 \<le> uint (hrt_sec t) * NANOSEC + 4294967296"
    unfolding h x_def [symmetric] by simp
qed


lemma times125_mult: "times125 x = 125 * x"
  by (simp add: times125_def push_bit_eq_mult algebra_simps)

lemma times1e9: "push_bit 9 (times125 (times125 (times125 x))) = 1000000000 * x"
  for x :: "'a::len word"
  by (simp add: times125_mult push_bit_eq_mult algebra_simps)

text \<open>The clean-up loop turns any estimate from below into the quotient.\<close>

lemma hrt_cleanup_exact:
  assumes "uint sec + uint nsec div NANOSEC < 4294967296"
    and "hrt_cleanup sec nsec = (sec', nsec')"
  shows "uint sec' = uint sec + uint nsec div NANOSEC \<and> uint nsec' = uint nsec mod NANOSEC"
  using assms
proof (induction sec nsec rule: hrt_cleanup.induct)
  case (1 sec nsec)
  show ?case
  proof (cases "1000000000 \<le> nsec")
    case True
    then have n: "NANOSEC \<le> uint nsec" "uint (nsec - 1000000000) = uint nsec - NANOSEC"
      by (simp_all add: word_le_def uint_sub_small)
    define a b where "a = (uint nsec - NANOSEC) div NANOSEC" and "b = (uint nsec - NANOSEC) mod NANOSEC"
    have d: "uint nsec div NANOSEC = a + 1" "uint nsec mod NANOSEC = b"
      using n(1) div_pos_geq [of NANOSEC "uint nsec"] mod_pos_geq [of NANOSEC "uint nsec"]
      unfolding a_def b_def by simp_all
    have "0 \<le> a"
      using n(1) unfolding a_def by (simp add: pos_imp_zdiv_nonneg_iff)
    then have u: "uint (sec + 1) = uint sec + 1"
      using "1.prems"(1) d by (simp add: uint_add_small)
    have "hrt_cleanup (sec + 1) (nsec - 1000000000) = (sec', nsec')"
      using "1.prems"(2) True by (simp add: hrt_cleanup.simps [of sec nsec])
    from "1.IH" [OF True _ this] show ?thesis
      using "1.prems"(1) unfolding d n(2) u a_def [symmetric] b_def [symmetric] by simp
  next
    case False
    then have "uint nsec < NANOSEC"
      by (simp add: word_le_def)
    then show ?thesis
      using False "1.prems" by (auto simp: hrt_cleanup.simps [of sec nsec])
  qed
qed

lemma hrt_high_bits:
  assumes "0 \<le> h" and "h < 4611686018427387904"
  shows "uint (ucast (signed_drop_bit 30 (word_of_int h :: 64 word)) :: 32 word) = h div 1073741824"
proof -
  have "sint (word_of_int h :: 64 word) = h"
    using assms by (simp add: int_word_sint)
  then have "sint (signed_drop_bit 30 (word_of_int h :: 64 word)) = h div 1073741824"
    by (simp add: sint_signed_drop_bit_eq drop_bit_eq_div)
  from arg_cong [OF this, of "word_of_int :: _ \<Rightarrow> 64 word"]
  have "signed_drop_bit 30 (word_of_int h :: 64 word) = word_of_int (h div 1073741824)"
    by (simp only: of_int_sint scast_id)
  moreover have "0 \<le> h div 1073741824" "h div 1073741824 < 4294967296"
    using assms by (simp_all add: pos_imp_zdiv_nonneg_iff int_div_less_iff)
  ultimately show ?thesis
    by (simp add: unsigned_ucast_eq uint_word_of_int take_bit_int_eq_self)
qed

lemma hrt2ts_divmod:
  assumes "0 \<le> h" and "h < 2147483648 * NANOSEC"
  shows "hrt2ts (word_of_int h) = \<lparr>ts_sec = h div NANOSEC, ts_nsec = h mod NANOSEC\<rparr>"
proof -
  define t :: "32 word" where "t = ucast (signed_drop_bit 30 (word_of_int h :: 64 word))"
  have t: "uint t = h div 1073741824"
    using assms unfolding t_def by (intro hrt_high_bits) auto
  define s where "s = uint (hrt_sec t)"
  define n where "n = h - s * NANOSEC"
  define d where "d = h div 1073741824"
  have "uint t < 2147483648"
    using assms by (simp add: t int_div_less_iff)
  from hrt_sec_bounds [OF this] have "s * NANOSEC \<le> d * 1073741824"
    "d * 1073741824 + 1073741824 \<le> s * NANOSEC + 4294967296"
    by (simp_all only: s_def t d_def)
  moreover have "d * 1073741824 \<le> h" "h < d * 1073741824 + 1073741824"
    unfolding d_def by (rule int_div_bounds, simp)+
  ultimately have n: "0 \<le> n" "n < 4294967296"
    unfolding n_def by linarith+
  define w :: "32 word" where "w = ucast (word_of_int h :: 64 word) - 1000000000 * hrt_sec t"
  have "uint (word_of_int h :: 64 word) = h"
    using assms by (simp add: uint_word_of_int)
  then have "ucast (word_of_int h :: 64 word) = (word_of_int h :: 32 word)"
    by (simp only: ucast_eq)
  then have "w = word_of_int n"
    by (simp add: w_def n_def s_def)
  then have w: "uint w = n"
    using n by (simp add: uint_word_of_int)
  have q: "s + n div NANOSEC = h div NANOSEC" "n mod NANOSEC = h mod NANOSEC"
  proof -
    have h: "h = n + s * NANOSEC"
      by (simp add: n_def)
    show "s + n div NANOSEC = h div NANOSEC" "n mod NANOSEC = h mod NANOSEC"
      by (simp_all add: h)
  qed
  have hd: "0 \<le> h div NANOSEC" "h div NANOSEC < 2147483648"
    using assms by (simp_all add: pos_imp_zdiv_nonneg_iff int_div_less_iff)
  obtain sec nsec where c: "hrt_cleanup (hrt_sec t) w = (sec, nsec)"
    by fastforce
  have "uint sec = h div NANOSEC" "uint nsec = h mod NANOSEC"
    using hrt_cleanup_exact [OF _ c] hd unfolding w s_def [symmetric] q by simp_all
  then have "sint sec = h div NANOSEC" "sint nsec = h mod NANOSEC"
    using hd by (simp_all add: sint_uint signed_take_bit_int_eq_self)
  then show ?thesis
    by (simp add: hrt2ts_def times1e9 Let_def c flip: t_def w_def)
qed

lemma ts2hrt_total: "ts2hrt ts = word_of_int (ts_total ts)"
  by (simp add: ts2hrt_def times1e9 ts_total_def Let_def mult.commute)

text \<open>
  C33. \<open>hrt2ts\<close>, which divides by shifting and subtracting in 32-bit words, computes the
  quotient and remainder by \<open>10 ^ 9\<close> for every time whose seconds fit a \<^verbatim>\<open>time_t\<close>, and
  \<open>ts2hrt\<close>, which multiplies without a multiplication, is its inverse.
\<close>

theorem hrt2ts_exact:
  assumes "0 \<le> h" and "h < 2147483648 * NANOSEC"
  shows "hrt2ts (word_of_int h) = \<lparr>ts_sec = h div NANOSEC, ts_nsec = h mod NANOSEC\<rparr>
    \<and> ts2hrt (hrt2ts (word_of_int h)) = word_of_int h"
  by (simp add: hrt2ts_divmod [OF assms] ts2hrt_total ts_total_def)

theorem hrt2ts_exact_witness:
  "hrt2ts (word_of_int 123456789987654321) = \<lparr>ts_sec = 123456789, ts_nsec = 987654321\<rparr>"
  using hrt2ts_exact [of 123456789987654321] by simp

section \<open>Unique time stamps\<close>

text \<open>The conversion by shifts divides by 1000.\<close>

lemma shift_floor:
  fixes s q :: int
  assumes "q = s div h" and "0 < h"
  shows "h * q \<le> s" and "s < h * q + h"
  using int_div_bounds [OF assms(2), of s] by (simp_all add: assms(1) mult.commute)

lemma nsec_to_usec_div:
  assumes "0 \<le> n" and "n < NANOSEC"
  shows "nsec_to_usec n = n div 1000"
proof -
  define q1 where "q1 = n div 4"
  define q2 where "q2 = (n + q1) div 2"
  define q3 where "q3 = (n + q2) div 4"
  define q4 where "q4 = (n + q3) div 16"
  define q5 where "q5 = (n + q4) div 8"
  define q6 where "q6 = (n - q5) div 4"
  define q7 where "q7 = (n + q6) div 8"
  define q8 where "q8 = (n + q7) div 16"
  define q9 where "q9 = (n + q8) div 2"
  define q10 where "q10 = (n + q9) div 64"
  note f = shift_floor [OF q1_def, simplified] shift_floor [OF q2_def, simplified]
    shift_floor [OF q3_def, simplified] shift_floor [OF q4_def, simplified]
    shift_floor [OF q5_def, simplified] shift_floor [OF q6_def, simplified]
    shift_floor [OF q7_def, simplified] shift_floor [OF q8_def, simplified]
    shift_floor [OF q9_def, simplified] shift_floor [OF q10_def, simplified]
  define q r where "q = n div 1000" and "r = n mod 1000"
  have n: "n = 1000 * q + r" "0 \<le> r" "r < 1000" "0 \<le> q"
    using assms by (simp_all add: q_def r_def pos_imp_zdiv_nonneg_iff)
  have "q2 \<le> 625 * q + r" using f(1,3) n by linarith
  then have "q3 \<le> 407 * q + r" using f(5) n by linarith
  then have "q4 \<le> 88 * q + r" using f(7) n by linarith
  then have "q5 \<le> 136 * q + r" using f(9) n by linarith
  then have "216 * q \<le> q6" using f(12) n by linarith
  then have "152 * q \<le> q7" using f(14) n by linarith
  then have "72 * q \<le> q8" using f(16) n by linarith
  then have "536 * q \<le> q9" using f(18) n by linarith
  then have lo: "24 * q \<le> q10" using f(20) n by linarith
  have "8 * q2 \<ge> 5 * n - 7" using f(2,4) by linarith
  then have "32 * q3 \<ge> 13 * n - 31" using f(6) by linarith
  then have "512 * q4 \<ge> 45 * n - 511" using f(8) by linarith
  then have "4096 * q5 \<ge> 557 * n - 4095" using f(10) by linarith
  then have "16384 * q6 \<le> 3539 * n + 4095" using f(11) by linarith
  then have "131072 * q7 \<le> 19923 * n + 4095" using f(13) by linarith
  then have "2097152 * q8 \<le> 150995 * n + 4095" using f(15) by linarith
  then have "4194304 * q9 \<le> 2248147 * n + 4095" using f(17) by linarith
  then have "268435456 * q10 \<le> 6442451 * n + 4095" using f(19) by linarith
  then have "268435456 * (n + q10) \<le> 274877907 * n + 4095"
    unfolding distrib_left by linarith
  moreover have "274877907 * r \<le> 274877907 * 999" "56 * q \<le> 56 * 999999"
    using n assms by simp_all
  ultimately have "268435456 * (n + q10) < 268435456 * (1024 * q + 1024)"
    unfolding n(1) distrib_left by linarith
  then have hi: "n + q10 < 1024 * q + 1024" by simp
  have "(n + q10) div 1024 = q"
  proof (rule antisym)
    show "(n + q10) div 1024 \<le> q"
      using hi int_div_less_iff [of 1024 "n + q10" "q + 1"] by simp
    have "\<not> n + q10 < q * 1024"
      using lo n by linarith
    then show "q \<le> (n + q10) div 1024"
      using int_div_less_iff [of 1024 "n + q10" q, OF zero_less_numeral] by (simp only: not_less)
  qed
  moreover have "nsec_to_usec n = (n + q10) div 1024"
    by (simp only: nsec_to_usec_def Let_def q1_def q2_def q3_def q4_def q5_def q6_def q7_def
        q8_def q9_def q10_def)
  ultimately show ?thesis
    by (simp only: q_def)
qed

text \<open>
  \<open>uniqtime\<close> returns normalised times. As long as the clock has not stepped back more
  than five seconds, each is strictly later than the one before; it is the clock's own time,
  in microseconds, whenever that is later than the last one or more than five seconds
  before it, and otherwise one microsecond after the last.
\<close>

lemma uniqtime_monotone:
  assumes "tv_ok prev" and "tv_sec prev < LONG_MAX" and "ts_ok ts"
  shows "tv_ok (uniqtime prev ts)
    \<and> (ts_sec ts \<ge> tv_sec prev - 5 \<longrightarrow> tv_total prev < tv_total (uniqtime prev ts))
    \<and> tv_total (uniqtime prev ts) =
        (if ts_total ts div 1000 > tv_total prev \<or> ts_sec ts < tv_sec prev - 5
         then ts_total ts div 1000 else tv_total prev + 1)"
proof -
  define u where "u = ts_nsec ts div 1000"
  have u: "0 \<le> u" "u < MICROSEC" "nsec_to_usec (ts_nsec ts) = u"
    using assms(3) nsec_to_usec_div [of "ts_nsec ts"]
    by (auto simp: u_def ts_ok_def pos_imp_zdiv_nonneg_iff int_div_less_iff)
  have t: "ts_total ts div 1000 = ts_sec ts * MICROSEC + u"
    using div_mult_self3 [of 1000 "ts_sec ts * MICROSEC" "ts_nsec ts"]
    by (simp add: ts_total_def u_def)
  show ?thesis
    using assms u(1,2)
    by (auto simp: uniqtime_def u(3) t tv_total_def tv_ok_def ts_ok_def Let_def)
qed

lemma uniqtime_monotone_witness:
  "tv_total (uniqtime \<lparr>tv_sec = 7, tv_usec = 999999\<rparr> \<lparr>ts_sec = 7, ts_nsec = 999999500\<rparr>) = 8000000
   \<and> tv_ok (uniqtime \<lparr>tv_sec = 7, tv_usec = 999999\<rparr> \<lparr>ts_sec = 7, ts_nsec = 999999500\<rparr>)"
  using uniqtime_monotone [of "\<lparr>tv_sec = 7, tv_usec = 999999\<rparr>" "\<lparr>ts_sec = 7, ts_nsec = 999999500\<rparr>"]
  by (simp add: tv_total_def ts_total_def) (simp add: tv_ok_def ts_ok_def)

section \<open>The calendar\<close>

declare tod_year_loop.simps [simp del] tod_month_loop.simps [simp del]

text \<open>
  The Gregorian calendar, years counted from 1900 as in \<open>todinfo\<close>: the reference against
  which the table and the shifts of the code are measured.
\<close>

definition leap_year :: "int \<Rightarrow> bool" where
  "leap_year y \<longleftrightarrow> (1900 + y) mod 4 = 0 \<and> ((1900 + y) mod 100 \<noteq> 0 \<or> (1900 + y) mod 400 = 0)"

definition month_len :: "int \<Rightarrow> int \<Rightarrow> int" where
  "month_len y m = (if m = 2 then (if leap_year y then 29 else 28)
                    else if m = 4 \<or> m = 6 \<or> m = 9 \<or> m = 11 then 30 else 31)"

definition days_before_month :: "int \<Rightarrow> int \<Rightarrow> int" where
  "days_before_month y m = (\<Sum>k\<leftarrow>[1..m - 1]. month_len y k)"

definition days_before_year :: "int \<Rightarrow> int" where
  "days_before_year y = (\<Sum>k\<leftarrow>[70..y - 1]. days_before_month k 13)"

definition tod_days :: "todinfo \<Rightarrow> int" where
  "tod_days t = days_before_year (tod_year t) + days_before_month (tod_year t) (tod_month t)
     + tod_day t - 1"

definition tod_seconds :: "todinfo \<Rightarrow> int" where
  "tod_seconds t = ((tod_days t * 24 + tod_hour t) * 60 + tod_min t) * 60 + tod_sec t"

definition tod_valid :: "todinfo \<Rightarrow> bool" where
  "tod_valid t \<longleftrightarrow> 70 \<le> tod_year t \<and> tod_year t \<le> 138 \<and> 1 \<le> tod_month t \<and> tod_month t \<le> 12
     \<and> 1 \<le> tod_day t \<and> tod_day t \<le> month_len (tod_year t) (tod_month t)
     \<and> 0 \<le> tod_hour t \<and> tod_hour t \<le> 23 \<and> 0 \<le> tod_min t \<and> tod_min t \<le> 59
     \<and> 0 \<le> tod_sec t \<and> tod_sec t \<le> 59"

text \<open>Day 0 was a Thursday, and the week starts with 1 for Sunday.\<close>

definition tod_denotes :: "todinfo \<Rightarrow> int \<Rightarrow> bool" where
  "tod_denotes t utc \<longleftrightarrow> tod_valid t \<and> tod_seconds t = utc \<and> tod_dow t = (tod_days t + 4) mod 7 + 1"

lemma leap_year_table:
  assumes "70 \<le> y" and "y \<le> 138"
  shows "leap_year y \<longleftrightarrow> y mod 4 = 0"
proof -
  have "\<forall>y\<in>set [70..138]. leap_year y \<longleftrightarrow> y mod 4 = 0"
    by code_simp
  moreover have "y \<in> set [70..138]"
    using assms by (simp only: set_upto atLeastAtMost_iff)
  ultimately show ?thesis by (rule bspec)
qed

lemma year_start:
  assumes "70 \<le> y" and "y \<le> 139"
  shows "days_before_year y = 365 * (y - 70) + (y - 69) div 4"
proof -
  have "\<forall>y\<in>set [70..139]. days_before_year y = 365 * (y - 70) + (y - 69) div 4"
    by code_simp
  moreover have "y \<in> set [70..139]"
    using assms by (simp only: set_upto atLeastAtMost_iff)
  ultimately show ?thesis by (rule bspec)
qed

lemma month_table:
  assumes "70 \<le> y" and "y \<le> 138" and "1 \<le> m" and "m \<le> 13"
  shows "days_thru_month ! nat (y mod 4 * 16 + m) = days_before_month y m"
proof -
  have "\<forall>y\<in>set [70..138]. \<forall>m\<in>set [1..13].
      days_thru_month ! nat (y mod 4 * 16 + m) = days_before_month y m"
    by code_simp
  moreover have "y \<in> set [70..138]"
    using assms by (simp only: set_upto atLeastAtMost_iff)
  ultimately have "\<forall>m\<in>set [1..13].
      days_thru_month ! nat (y mod 4 * 16 + m) = days_before_month y m"
    by (rule bspec)
  moreover have "m \<in> set [1..13]"
    using assms by (simp only: set_upto atLeastAtMost_iff)
  ultimately show ?thesis by (rule bspec)
qed

lemma days_before_month_next:
  assumes "1 \<le> m"
  shows "days_before_month y (m + 1) = days_before_month y m + month_len y m"
  using assms upto_rec2 [of 1 m] by (simp add: days_before_month_def)

lemma days_before_year_next:
  assumes "70 \<le> y"
  shows "days_before_year (y + 1) = days_before_year y + days_before_month y 13"
  using assms upto_rec2 [of 70 y] by (simp add: days_before_year_def)

lemma tod_year_loop_post:
  assumes "dse < 365 * (y0 - 70) + (y0 - 69) div 4" and "tod_year_loop dse y0 = (y, d)"
  shows "d = dse - (365 * (y - 70) + (y - 69) div 4) \<and> 0 \<le> d
    \<and> dse < 365 * (y + 1 - 70) + (y + 1 - 69) div 4"
  using assms
proof (induction dse y0 rule: tod_year_loop.induct)
  case (1 dse y0)
  define d0 where "d0 = dse - 365 * (y0 - 1 - 70) - (y0 - 1 - 69) div 4"
  have e: "tod_year_loop dse y0 = (if d0 < 0 then tod_year_loop dse (y0 - 1) else (y0 - 1, d0))"
    by (subst tod_year_loop.simps) (simp only: Let_def d0_def)
  show ?case
  proof (cases "d0 < 0")
    case True
    have "dse < 365 * (y0 - 1 - 70) + (y0 - 1 - 69) div 4"
      using True by (simp add: d0_def)
    moreover have "tod_year_loop dse (y0 - 1) = (y, d)"
      using "1.prems"(2) True by (simp only: e if_True)
    ultimately show ?thesis
      using "1.IH" [OF refl refl] True by (simp only: d0_def)
  next
    case False
    then have "y = y0 - 1" "d = d0"
      using "1.prems"(2) by (simp_all add: e)
    then show ?thesis
      using False "1.prems"(1) by (simp add: d0_def)
  qed
qed

lemma year_range:
  fixes y a b dse :: int
  assumes "365 * (y - 70) + a \<le> dse" and "dse < 365 * (y + 1 - 70) + b" and "0 \<le> dse"
    and "dse \<le> 24855" and "b * 4 \<le> y + 1 - 69" and "y - 69 < a * 4 + 4"
  shows "70 \<le> y" and "y \<le> 138"
  using assms unfolding right_diff_distrib distrib_left by linarith+

lemma tod_year_loop_result:
  assumes "0 \<le> dse" and "dse \<le> 24855"
  obtains y d where "tod_year_loop dse (dse div 365 + 72) = (y, d)" and "70 \<le> y" and "y \<le> 138"
    and "days_before_year y + d = dse" and "0 \<le> d" and "d < days_before_month y 13"
proof -
  define y0 where "y0 = dse div 365 + 72"
  obtain y d where l: "tod_year_loop dse y0 = (y, d)"
    by fastforce
  have "dse < 365 * (y0 - 70) + (y0 - 69) div 4"
    using int_div_bounds [of 365 dse] assms by (simp add: y0_def)
  from tod_year_loop_post [OF this l]
  have d: "d = dse - (365 * (y - 70) + (y - 69) div 4)" "0 \<le> d"
    "dse < 365 * (y + 1 - 70) + (y + 1 - 69) div 4"
    by simp_all
  have y: "70 \<le> y" "y \<le> 138"
    by (rule year_range [OF _ d(3) assms int_div_bounds(1) int_div_bounds(2)]; use d in simp)+
  have "days_before_year y + d = dse"
    using d(1) y by (simp add: year_start)
  moreover have "d < days_before_month y 13"
    using d(1,3) y days_before_year_next [of y] by (simp add: year_start)
  ultimately show thesis
    using that l y d(2) unfolding y0_def by blast
qed

lemma tod_month_loop_step:
  assumes "70 \<le> y" and "y \<le> 138" and "1 \<le> m" and "m \<le> 12"
  shows "tod_month_loop d (nat (y mod 4 * 16 + m)) =
    (if days_before_month y (m + 1) \<le> d then tod_month_loop d (nat (y mod 4 * 16 + (m + 1)))
     else Done (nat (y mod 4 * 16 + m)))"
proof -
  have "y mod 4 \<le> 3" "0 \<le> y mod 4"
    using pos_mod_bound [of 4 y] by simp_all
  then have i: "Suc (nat (y mod 4 * 16 + m)) = nat (y mod 4 * 16 + (m + 1))"
    and l: "nat (y mod 4 * 16 + (m + 1)) < length days_thru_month"
    using assms(3,4) by (simp_all add: days_thru_month_def nat_add_distrib)
  show ?thesis
    by (subst tod_month_loop.simps) (use l month_table [of y "m + 1"] assms in \<open>simp add: i not_le\<close>)
qed

lemma tod_month_loop_result:
  assumes "70 \<le> y" and "y \<le> 138" and "d < days_before_month y 13"
    and "1 \<le> m" and "m \<le> 12" and "days_before_month y m \<le> d"
  shows "\<exists>m'. tod_month_loop d (nat (y mod 4 * 16 + m)) = Done (nat (y mod 4 * 16 + m'))
    \<and> 1 \<le> m' \<and> m' \<le> 12 \<and> days_before_month y m' \<le> d \<and> d < days_before_month y (m' + 1)"
  using assms(4-6)
proof (induction "nat (12 - m)" arbitrary: m)
  case (0 m)
  then have "m = 12" by simp
  then show ?case
    using tod_month_loop_step [of y 12 d] assms(1-3) 0 by (auto intro!: exI [of _ 12])
next
  case (Suc k m)
  show ?case
  proof (cases "days_before_month y (m + 1) \<le> d")
    case True
    have "k = nat (12 - (m + 1))" "1 \<le> m + 1" "m + 1 \<le> 12"
      using Suc.hyps(2) Suc.prems by linarith+
    from Suc.hyps(1) [OF this True] True show ?thesis
      using tod_month_loop_step [of y m d] assms(1,2) Suc.prems by simp
  next
    case False
    then show ?thesis
      using tod_month_loop_step [of y m d] assms(1,2) Suc.prems by (auto intro!: exI [of _ m])
  qed
qed

text \<open>A valid date is converted to its seconds; every second has a valid date.\<close>

lemma tod_days_bounds:
  assumes "tod_valid t" and "tod_seconds t \<le> LONG_MAX"
  shows "0 \<le> tod_days t" and "tod_days t * 86400 \<le> LONG_MAX"
proof -
  have "0 \<le> days_before_month y m" for y m
    by (auto simp: days_before_month_def month_len_def intro!: sum_list_nonneg)
  moreover from this have "0 \<le> days_before_year y" for y
    by (auto simp: days_before_year_def intro!: sum_list_nonneg)
  ultimately have "0 \<le> days_before_month (tod_year t) (tod_month t)" "0 \<le> days_before_year (tod_year t)"
    by blast+
  then show "0 \<le> tod_days t"
    using assms(1) by (simp add: tod_days_def tod_valid_def)
  show "tod_days t * 86400 \<le> LONG_MAX"
    using assms by (simp add: tod_seconds_def tod_valid_def)
qed

lemma tod_to_utc_seconds:
  assumes "tod_valid t" and "tod_seconds t \<le> LONG_MAX"
  shows "tod_to_utc t = tod_seconds t"
proof -
  define y where "y = tod_year t"
  define D where "D = tod_days t"
  have y: "70 \<le> y" "y \<le> 138" and m: "1 \<le> tod_month t" "tod_month t \<le> 12"
    using assms(1) by (simp_all add: tod_valid_def y_def)
  have i: "tod_month t + y mod 4 * 16 = y mod 4 * 16 + tod_month t"
    by simp
  have "days_thru_month ! nat (tod_month t + y mod 4 * 16) = days_before_month y (tod_month t)"
    unfolding i using y m by (intro month_table) simp_all
  moreover have "365 * (y - 70) + (y - 69) div 4 = days_before_year y"
    using y by (simp add: year_start)
  ultimately have D: "365 * (y - 70) + (y - 69) div 4 +
      (days_thru_month ! nat (tod_month t + y mod 4 * 16) + tod_day t - 1) = D"
    by (simp add: D_def tod_days_def y_def)
  have q: "0 \<le> (y - 69) div 4" "(y - 69) div 4 \<le> 17"
    using y zdiv_mono1 [of "y - 69" 69 4] by (simp_all add: pos_imp_zdiv_nonneg_iff)
  have b: "0 \<le> D" "D * 86400 \<le> LONG_MAX"
    using tod_days_bounds [OF assms] by (simp_all add: D_def)
  have h: "0 \<le> tod_hour t" "tod_hour t \<le> 23" "0 \<le> tod_min t" "tod_min t \<le> 59" "0 \<le> tod_sec t"
    using assms(1) by (simp_all add: tod_valid_def)
  define u4 where "u4 = D * 24 + tod_hour t"
  define u5 where "u5 = u4 * 60 + tod_min t"
  have T: "tod_seconds t = u5 * 60 + tod_sec t"
    by (simp add: tod_seconds_def u5_def u4_def D_def)
  have e1: "s32 (y - 70 + (push_bit 3 (y - 70) + push_bit 6 (y - 70))) = 73 * (y - 70)"
    using y by (simp add: push_bit_eq_mult)
  have e2: "s32 (73 * (y - 70) + (push_bit 2 (73 * (y - 70)) + (y - 69) div 4)) =
      365 * (y - 70) + (y - 69) div 4"
    using y q by (simp add: push_bit_eq_mult)
  have e4: "s32 (push_bit 3 D + push_bit 4 D + tod_hour t) = u4"
    using b h by (simp add: push_bit_eq_mult u4_def)
  have e5: "s32 (push_bit 6 u4 - push_bit 2 u4 + tod_min t) = u5"
    using b h by (simp add: push_bit_eq_mult u4_def u5_def)
  have e6: "s32 (push_bit 6 u5 - push_bit 2 u5 + tod_sec t) = tod_seconds t"
    using b h assms(2) by (simp add: push_bit_eq_mult T) (simp add: u4_def u5_def)
  have "s32 D = D"
    using b by simp
  then show ?thesis
    unfolding tod_to_utc_def Let_def y_def [symmetric] e1 e2 D
    by (simp only: e4 e5 e6)
qed

lemma clock_digits:
  "((u div 86400 * 24 + u mod 86400 div 3600) * 60 + u mod 3600 div 60) * 60 + u mod 60 = (u :: int)"
proof -
  have digits: "((a * 24 + b) * 60 + c) * 60 + r3 = u"
    if "a * 86400 + r1 = u" "b * 3600 + r2 = r1" "c * 60 + r3 = r2" for a b c r1 r2 r3 :: int
    using that by simp
  have m: "u mod 86400 mod 3600 = u mod 3600" "u mod 3600 mod 60 = u mod 60"
    by (simp_all add: mod_mod_cancel)
  show ?thesis
    by (rule digits [OF div_mult_mod_eq [of u 86400]
        div_mult_mod_eq [of "u mod 86400" 3600, unfolded m]
        div_mult_mod_eq [of "u mod 3600" 60, unfolded m]])
qed

lemma clock_ranges:
  fixes u :: int
  shows "0 \<le> u mod 86400 div 3600" "u mod 86400 div 3600 \<le> 23" "0 \<le> u mod 3600 div 60"
    "u mod 3600 div 60 \<le> 59" "0 \<le> u mod 60" "u mod 60 \<le> 59"
  using int_div_less_iff [of 3600 "u mod 86400" 24] int_div_less_iff [of 60 "u mod 3600" 60]
    pos_mod_bound [of 60 u]
  by (simp_all add: pos_imp_zdiv_nonneg_iff)

lemma tod_compute_denotes:
  assumes "0 \<le> utc" and "utc \<le> LONG_MAX"
  obtains t where "tod_compute utc = Done t" and "tod_denotes t utc"
proof -
  define dse where "dse = utc div 86400"
  have "0 \<le> dse" "dse \<le> 24855"
    using assms zdiv_mono1 [of utc LONG_MAX 86400] by (simp_all add: dse_def pos_imp_zdiv_nonneg_iff)
  then obtain y d where l: "tod_year_loop dse (dse div 365 + 72) = (y, d)" and y: "70 \<le> y" "y \<le> 138"
    and d: "days_before_year y + d = dse" "0 \<le> d" "d < days_before_month y 13"
    by (rule tod_year_loop_result)
  have "days_before_month y 1 = 0"
    by (simp add: days_before_month_def)
  then obtain m where ml: "tod_month_loop d (nat (y mod 4 * 16 + 1)) = Done (nat (y mod 4 * 16 + m))"
    and m: "1 \<le> m" "m \<le> 12" "days_before_month y m \<le> d" "d < days_before_month y (m + 1)"
    using tod_month_loop_result [of y d 1] y d by auto
  define t where "t = \<lparr>tod_sec = utc mod 60, tod_min = (utc mod 3600) div 60,
    tod_hour = (utc mod 86400) div 3600, tod_dow = (dse + 4) mod 7 + 1,
    tod_day = d - days_before_month y m + 1, tod_month = m, tod_year = y\<rparr>"
  have mm: "int (nat (y mod 4 * 16 + m) mod 16) = m"
    using m by (simp add: zmod_int)
  have c: "tod_compute utc = Done t"
    using month_table [of y m] y m
    by (simp only: tod_compute_def Let_def dse_def [symmetric] l ml mm prod.case bind_outcome.simps t_def)
  have days: "tod_days t = dse"
    using d by (simp add: tod_days_def t_def)
  have v: "tod_valid t"
    using y m clock_ranges [of utc] days_before_month_next [OF m(1), of y]
    unfolding tod_valid_def t_def todinfo.select_convs by (intro conjI) (assumption | linarith)+
  have s: "tod_seconds t = utc"
    using clock_digits [of utc] unfolding tod_seconds_def days dse_def
    by (simp only: t_def todinfo.select_convs)
  have w: "tod_dow t = (tod_days t + 4) mod 7 + 1"
    unfolding days by (simp only: t_def todinfo.select_convs)
  show thesis
    by (rule that [OF c]) (simp only: tod_denotes_def v s w)
qed

text \<open>The cache holds the date of the last time converted, or its initial contents.\<close>

definition tod_cache_ok :: "tod_cache \<Rightarrow> bool" where
  "tod_cache_ok c \<longleftrightarrow> c = tod_init
     \<or> (0 \<le> saved_utc c \<and> saved_utc c \<le> LONG_MAX \<and> tod_denotes (saved_tod c) (saved_utc c))"

lemma tod_denotes_seconds:
  assumes "tod_denotes t u" and "0 \<le> s" and "s < 60"
  shows "tod_denotes (t\<lparr>tod_sec := s\<rparr>) (u + s - tod_sec t)"
  using assms by (auto simp: tod_denotes_def tod_valid_def tod_seconds_def tod_days_def)

text \<open>
  C32. Whatever was converted before, \<open>utc_to_tod\<close> returns the Gregorian date, time and day
  of the week of any non-negative \<^verbatim>\<open>time_t\<close> (a negative one is taken as 0) without leaving
  its table, keeps its cache right for the next call, and \<open>tod_to_utc\<close> turns the result
  back into the same time.
\<close>

theorem utc_tod_roundtrip:
  assumes "tod_cache_ok c" and "utc \<le> LONG_MAX"
  shows "\<exists>t c'. utc_to_tod c utc = Done (t, c') \<and> tod_denotes t (max 0 utc) \<and> tod_cache_ok c'
    \<and> tod_to_utc t = max 0 utc"
proof -
  define u where "u = max 0 utc"
  have u: "0 \<le> u" "u \<le> LONG_MAX" "(if utc < 0 then 0 else utc) = u"
    using assms(2) by (auto simp: u_def)
  define s where "s = tod_sec (saved_tod c) + (u - saved_utc c)"
  let ?st = "(saved_tod c)\<lparr>tod_sec := s32 s\<rparr>"
  have step: "utc_to_tod c utc =
      (if 0 \<le> s32 s \<and> s32 s < 60 then Done (?st, \<lparr>saved_tod = ?st, saved_utc = u\<rparr>)
       else bind_outcome (tod_compute u) (\<lambda>tod. Done (tod, \<lparr>saved_tod = tod, saved_utc = u\<rparr>)))"
    by (simp add: utc_to_tod_def u(3) s_def Let_def)
  have "\<exists>t. utc_to_tod c utc = Done (t, \<lparr>saved_tod = t, saved_utc = u\<rparr>) \<and> tod_denotes t u"
  proof (cases "0 \<le> s32 s \<and> s32 s < 60")
    case False
    then show ?thesis
      using tod_compute_denotes [OF u(1,2)] by (auto simp: step)
  next
    case True
    have "c \<noteq> tod_init"
    proof
      assume "c = tod_init"
      then have "s = u + 60"
        by (simp add: s_def tod_init_def)
      then show False
        using True u s32_high [of s] by (cases "s < 2147483648") auto
    qed
    then have c: "0 \<le> saved_utc c" "saved_utc c \<le> LONG_MAX" "tod_denotes (saved_tod c) (saved_utc c)"
      using assms(1) by (auto simp: tod_cache_ok_def)
    then have "0 \<le> tod_sec (saved_tod c)" "tod_sec (saved_tod c) \<le> 59"
      by (simp_all add: tod_denotes_def tod_valid_def)
    then have "s32 s = s"
      using True u c s32_high [of s] by (cases "s < 2147483648") (auto simp: s_def)
    then show ?thesis
      using True tod_denotes_seconds [OF c(3), of s] by (simp add: step s_def)
  qed
  moreover have "tod_to_utc t = u" if "tod_denotes t u" for t
    using that u tod_to_utc_seconds [of t] by (simp add: tod_denotes_def)
  ultimately show ?thesis
    using u by (fastforce simp: tod_cache_ok_def simp flip: u_def)
qed

theorem utc_tod_roundtrip_witness:
  "\<exists>c'. utc_to_tod tod_init 951782400 =
     Done (\<lparr>tod_sec = 0, tod_min = 0, tod_hour = 0, tod_dow = 3, tod_day = 29, tod_month = 2,
            tod_year = 100\<rparr>, c') \<and> tod_cache_ok c'"
proof -
  have "\<exists>c'. utc_to_tod tod_init 951782400 =
     Done (\<lparr>tod_sec = 0, tod_min = 0, tod_hour = 0, tod_dow = 3, tod_day = 29, tod_month = 2,
            tod_year = 100\<rparr>, c')"
    by (rule exI, code_simp)
  moreover have "tod_cache_ok tod_init"
    by (simp add: tod_cache_ok_def)
  ultimately show ?thesis
    using utc_tod_roundtrip [of tod_init 951782400] by fastforce
qed

end
