(* ===== verification/Bitmap.thy ===== *)
theory Bitmap
  imports Kern_Prelude
begin

unbundle bit_operations_syntax

text \<open>
  Bit maps, \<^verbatim>\<open>uts/common/os/bitmap.c\<close> and the macros of \<^verbatim>\<open>sys/bitmap.h\<close>: a map is an array of
  32-bit words. A read or write outside the array yields \<open>Overrun\<close>. The highest and lowest bit of
  a word are found by halving the part of the word still in question.
\<close>

section \<open>Single bits of a map\<close>

definition BT_WIM :: "nat \<Rightarrow> nat" where "BT_WIM i = i div 32"

definition BT_BIW :: "nat \<Rightarrow> 32 word" where "BT_BIW i = push_bit (i mod 32) 1"

definition BT_BITOUL :: "nat \<Rightarrow> nat" where "BT_BITOUL nbits = (nbits + 31) div 32"

definition BT_TEST :: "32 word list \<Rightarrow> nat \<Rightarrow> bool outcome" where
  "BT_TEST bitmap i =
     (if BT_WIM i < length bitmap then Done (bitmap ! BT_WIM i AND BT_BIW i \<noteq> 0) else Overrun)"

definition BT_SET :: "32 word list \<Rightarrow> nat \<Rightarrow> 32 word list outcome" where
  "BT_SET bitmap i =
     (if BT_WIM i < length bitmap
      then Done (bitmap[BT_WIM i := bitmap ! BT_WIM i OR BT_BIW i]) else Overrun)"

definition BT_CLEAR :: "32 word list \<Rightarrow> nat \<Rightarrow> 32 word list outcome" where
  "BT_CLEAR bitmap i =
     (if BT_WIM i < length bitmap
      then Done (bitmap[BT_WIM i := bitmap ! BT_WIM i AND NOT (BT_BIW i)]) else Overrun)"

section \<open>The highest and the lowest bit of a word\<close>

text \<open>The conditional of each halving step, with its mask and its shift.\<close>

definition highbit_step :: "32 word \<Rightarrow> nat \<Rightarrow> nat \<times> 32 word \<Rightarrow> nat \<times> 32 word" where
  "highbit_step m k hi =
     (let (h, i) = hi in if i AND m \<noteq> 0 then (h + k, drop_bit k i) else (h, i))"

definition highbit :: "32 word \<Rightarrow> nat" where
  "highbit i =
     (if i = 0 then 0
      else
        let (h, i) = (1, i);
            (h, i) = highbit_step 0xffff0000 16 (h, i);
            (h, i) = highbit_step 0xff00 8 (h, i);
            (h, i) = highbit_step 0xf0 4 (h, i);
            (h, i) = highbit_step 0xc 2 (h, i)
        in if i AND 0x2 \<noteq> 0 then h + 1 else h)"

definition lowbit_step :: "32 word \<Rightarrow> nat \<Rightarrow> nat \<times> 32 word \<Rightarrow> nat \<times> 32 word" where
  "lowbit_step m k hi =
     (let (h, i) = hi in if i AND m = 0 then (h + k, drop_bit k i) else (h, i))"

definition lowbit :: "32 word \<Rightarrow> nat" where
  "lowbit i =
     (if i = 0 then 0
      else
        let (h, i) = (1, i);
            (h, i) = lowbit_step 0xffff 16 (h, i);
            (h, i) = lowbit_step 0xff 8 (h, i);
            (h, i) = lowbit_step 0xf 4 (h, i);
            (h, i) = lowbit_step 0x3 2 (h, i)
        in if i AND 0x1 = 0 then h + 1 else h)"

section \<open>Searching a map\<close>

text \<open>
  Indices are of type \<^verbatim>\<open>index_t\<close>, a \<^verbatim>\<open>short\<close>.
  The first loop: the index of the first word, from \<open>wx\<close> on, that is not all ones. The index
  cannot wrap as long as \<^verbatim>\<open>maxword\<close> is below the largest \<^verbatim>\<open>short\<close>.
\<close>

function bt_avail_word :: "32 word list \<Rightarrow> int \<Rightarrow> int \<Rightarrow> int outcome" where
  "bt_avail_word bitmap maxword wx =
     (if wx \<le> maxword then
        if wx < 0 \<or> wx \<ge> int (length bitmap) then Overrun
        else if bitmap ! nat wx \<noteq> NOT 0 then Done wx
        else bt_avail_word bitmap maxword (wx + 1)
      else Done wx)"
  by auto
termination
  by (relation "measure (\<lambda>(bitmap, maxword, wx). nat (maxword - wx + 1))") auto

text \<open>The second loop: the first clear bit of the word, up to \<open>maxbit\<close>.\<close>

function bt_avail_bit :: "32 word \<Rightarrow> int \<Rightarrow> int \<Rightarrow> 32 word \<Rightarrow> int option" where
  "bt_avail_bit w maxbit bx b =
     (if bx \<le> maxbit then
        if w AND b = 0 then Some bx
        else bt_avail_bit w maxbit (bx + 1) (push_bit 1 b)
      else None)"
  by auto
termination
  by (relation "measure (\<lambda>(w, maxbit, bx, b). nat (maxbit - bx + 1))") auto

definition bt_availbit :: "32 word list \<Rightarrow> nat \<Rightarrow> int outcome" where
  "bt_availbit bitmap nbits =
     (let nbits = usub nbits 1;
          maxword = s16 (int (nbits div 32))
      in case bt_avail_word bitmap maxword 0 of
           Done wx \<Rightarrow>
             if wx \<le> maxword then
               let maxbit = (if wx = maxword then int (nbits mod 32) else 31)
               in case bt_avail_bit (bitmap ! nat wx) maxbit 0 1 of
                    Some bx \<Rightarrow> Done (s16 (wx * 32 + bx))
                  | None \<Rightarrow> Done (- 1)
             else Done (- 1)
         | Panic \<Rightarrow> Panic
         | Overrun \<Rightarrow> Overrun)"

text \<open>The position stored in \<^verbatim>\<open>*bitposp\<close>.\<close>

fun bt_gethighbit :: "32 word list \<Rightarrow> nat \<Rightarrow> int outcome" where
  "bt_gethighbit mapp wx =
     (if wx \<ge> length mapp then Overrun
      else if mapp ! wx = 0
      then (case wx of 0 \<Rightarrow> Done (- 1) | Suc w \<Rightarrow> bt_gethighbit mapp w)
      else Done (int (wx * 32 + (highbit (mapp ! wx) - 1))))"

text \<open>Both loops of \<open>bt_range\<close>: up to the first bit that is set (\<open>v\<close>) or clear.\<close>

function bt_scan :: "32 word list \<Rightarrow> bool \<Rightarrow> nat \<Rightarrow> nat \<Rightarrow> nat outcome" where
  "bt_scan bitmap v nbits inx =
     (if inx < nbits then
        (case BT_TEST bitmap inx of
           Done b \<Rightarrow> if b = v then Done inx else bt_scan bitmap v nbits (Suc inx)
         | Panic \<Rightarrow> Panic
         | Overrun \<Rightarrow> Overrun)
      else Done inx)"
  by auto
termination
  by (relation "measure (\<lambda>(bitmap, v, nbits, inx). nbits - inx)") auto

text \<open>\<open>None\<close> is the return of 0, \<open>Some (pos1, pos2)\<close> the return of 1 with the new positions.\<close>

definition bt_range :: "32 word list \<Rightarrow> nat \<Rightarrow> nat \<Rightarrow> (nat \<times> nat) option outcome" where
  "bt_range bitmap pos1 nbits =
     (case bt_scan bitmap True nbits pos1 of
        Done inx \<Rightarrow>
          if inx = nbits then Done None
          else bind_outcome (bt_scan bitmap False nbits inx)
                 (\<lambda>inx'. Done (Some (inx, usub inx' 1)))
      | Panic \<Rightarrow> Panic
      | Overrun \<Rightarrow> Overrun)"

declare bt_avail_word.simps [simp del] bt_avail_bit.simps [simp del]
  bt_gethighbit.simps [simp del] bt_scan.simps [simp del]

section \<open>Bits as a predicate\<close>

definition bit_of :: "32 word list \<Rightarrow> nat \<Rightarrow> bool" where
  "bit_of bitmap i \<longleftrightarrow> bit (bitmap ! (i div 32)) (i mod 32)"

lemma and_exp_bit: "w AND 2 ^ k = 0 \<longleftrightarrow> \<not> bit w k" for w :: "32 word"
  using bit_iff_and_push_bit_not_eq_0 [of w k] by simp

lemma BT_TEST_bit:
  assumes "i < 32 * length bitmap"
  shows "BT_TEST bitmap i = Done (bit_of bitmap i)"
  using assms by (auto simp: BT_TEST_def BT_WIM_def BT_BIW_def bit_of_def and_exp_bit)

text \<open>
  Setting and clearing a bit of a map change that bit and no other, and keep the
  length of the map.
\<close>

lemma BT_update:
  assumes "i < 32 * length bitmap" and "j < 32 * length bitmap"
    and "BT_SET bitmap i = Done b1" and "BT_CLEAR bitmap i = Done b2"
  shows "BT_TEST b1 j = Done (j = i \<or> bit_of bitmap j)
    \<and> BT_TEST b2 j = Done (j \<noteq> i \<and> bit_of bitmap j)
    \<and> length b1 = length bitmap \<and> length b2 = length bitmap"
proof -
  have b: "b1 = bitmap[i div 32 := bitmap ! (i div 32) OR 2 ^ (i mod 32)]"
    "b2 = bitmap[i div 32 := bitmap ! (i div 32) AND NOT (2 ^ (i mod 32))]"
    using assms by (auto simp: BT_SET_def BT_CLEAR_def BT_WIM_def BT_BIW_def split: if_splits)
  have "j = i \<longleftrightarrow> j div 32 = i div 32 \<and> j mod 32 = i mod 32"
    by (metis div_mult_mod_eq)
  moreover have "i div 32 < length bitmap" "j div 32 < length bitmap"
    using assms by auto
  ultimately have "bit_of b1 j \<longleftrightarrow> j = i \<or> bit_of bitmap j" "bit_of b2 j \<longleftrightarrow> j \<noteq> i \<and> bit_of bitmap j"
    by (auto simp: b bit_of_def nth_list_update bit_simps)
  then show ?thesis
    using assms(2) by (simp add: b BT_TEST_bit)
qed

lemma BT_update_witness:
  "BT_SET [0, 0] 33 = Done [0, 2] \<and> BT_TEST [0, 2] 33 = Done True \<and> BT_TEST [0, 2] 34 = Done False"
proof -
  have "BT_SET [0, 0] 33 = Done [0, 2]" "BT_CLEAR [0, 0] 33 = Done [0, 0]"
    by code_simp+
  with BT_update [of 33 "[0, 0]" 33 "[0, 2]" "[0, 0]"] BT_update [of 33 "[0, 0]" 34 "[0, 2]" "[0, 0]"]
  show ?thesis
    by (simp add: bit_of_def)
qed

section \<open>The highest and the lowest bit\<close>

text \<open>What a halving step keeps: the shifted word is not 0 and its upper part is.\<close>

definition high_inv :: "32 word \<Rightarrow> nat \<Rightarrow> nat \<times> 32 word \<Rightarrow> bool" where
  "high_inv w k hi \<longleftrightarrow> (case hi of (h, i) \<Rightarrow>
     0 < h \<and> i = drop_bit (h - 1) w \<and> i \<noteq> 0 \<and> drop_bit k i = 0)"

lemma high_mask:
  fixes i :: "32 word"
  assumes "drop_bit (2 * k) i = 0"
  shows "i AND push_bit k (mask k) = 0 \<longleftrightarrow> drop_bit k i = 0"
proof
  assume z: "i AND push_bit k (mask k) = 0"
  show "drop_bit k i = 0"
  proof (rule bit_word_eqI)
    fix n :: nat
    assume "n < LENGTH(32)"
    have "\<not> bit (i AND push_bit k (mask k)) (k + n)" "\<not> bit (drop_bit (2 * k) i) (n - k)"
      using z assms by simp_all
    then show "bit (drop_bit k i) n = bit (0 :: 32 word) n"
      by (cases "n < k") (auto simp: bit_simps dest: bit_imp_le_length)
  qed
next
  assume z: "drop_bit k i = 0"
  show "i AND push_bit k (mask k) = 0"
  proof (rule bit_word_eqI)
    fix n :: nat
    have "\<not> bit (drop_bit k i) (n - k)"
      using z by simp
    then show "bit (i AND push_bit k (mask k)) n = bit (0 :: 32 word) n"
      by (auto simp: bit_simps)
  qed
qed

lemma highbit_step_inv:
  assumes "high_inv w (2 * k) hi" and "m = push_bit k (mask k)"
  shows "high_inv w k (highbit_step m k hi)"
  using assms high_mask [of k "snd hi"]
  by (auto simp: high_inv_def highbit_step_def Let_def mult_2 add.commute split: prod.splits)

lemma bit_one_and: "w AND 2 = 0 \<longleftrightarrow> \<not> bit w 1" "w AND 1 = 0 \<longleftrightarrow> \<not> bit w 0" for w :: "32 word"
  using and_exp_bit [of w 1] and_exp_bit [of w 0] by simp_all

lemma highbit_bits:
  assumes "w \<noteq> 0"
  shows "0 < highbit w \<and> bit w (highbit w - 1) \<and> (\<forall>n. bit w n \<longrightarrow> n < highbit w)"
proof -
  have "high_inv w (2 * 16) (1, w)"
    using assms by (simp add: high_inv_def)
  then have "high_inv w (2 * 8) (highbit_step 0xffff0000 16 (1, w))"
    using highbit_step_inv [of w 16] by (simp add: push_bit_eq_mult mask_eq_exp_minus_1)
  then have "high_inv w (2 * 4) (highbit_step 0xff00 8 (highbit_step 0xffff0000 16 (1, w)))"
    using highbit_step_inv [of w 8] by (simp add: push_bit_eq_mult mask_eq_exp_minus_1)
  then have "high_inv w (2 * 2) (highbit_step 0xf0 4 (highbit_step 0xff00 8
      (highbit_step 0xffff0000 16 (1, w))))"
    using highbit_step_inv [of w 4] by (simp add: push_bit_eq_mult mask_eq_exp_minus_1)
  then have "high_inv w 2 (highbit_step 0xc 2 (highbit_step 0xf0 4 (highbit_step 0xff00 8
      (highbit_step 0xffff0000 16 (1, w)))))"
    using highbit_step_inv [of w 2] by (simp add: push_bit_eq_mult mask_eq_exp_minus_1)
  moreover obtain h i where hi: "highbit_step 0xc 2 (highbit_step 0xf0 4 (highbit_step 0xff00 8
      (highbit_step 0xffff0000 16 (1, w)))) = (h, i)"
    by fastforce
  ultimately have i: "0 < h" "i = drop_bit (h - 1) w" "i \<noteq> 0" "drop_bit 2 i = 0"
    unfolding high_inv_def hi by auto
  have e: "highbit w = (if bit i 1 then h + 1 else h)"
    using assms hi by (simp add: highbit_def Let_def bit_one_and split: prod.splits)
  have up: "n < 2" if "bit i n" for n
  proof (rule ccontr)
    assume "\<not> n < 2"
    then obtain m where "n = 2 + m"
      by (metis le_Suc_ex not_less)
    with that have "bit (drop_bit 2 i) m" by (simp add: bit_simps)
    with i(4) show False by simp
  qed
  have shift: "bit w (h - 1 + n) = bit i n" for n
    by (simp add: i(2) bit_simps)
  obtain n where "bit i n"
    using i(3) by (auto simp: bit_eq_iff)
  with up [of n] have "bit i 1 \<or> bit i 0"
    by (cases n) (auto simp: less_Suc_eq numeral_2_eq_2)
  then have "bit w (highbit w - 1)"
    using shift [of 0] shift [of 1] i(1) by (auto simp: e)
  moreover have "n < highbit w" if "bit w n" for n
  proof (cases "n < h")
    case False
    then have "bit i (n - (h - 1))"
      using that shift [of "n - (h - 1)"] by simp
    with up [OF this] False i(1) have "n = h" "bit i 1"
      by (simp_all add: le_antisym numeral_2_eq_2 less_Suc_eq)
    then show ?thesis by (simp add: e)
  qed (simp add: e)
  moreover have "0 < highbit w"
    using i(1) by (simp add: e)
  ultimately show ?thesis
    by blast
qed

text \<open>The lowest bit: nothing below the shift is set, something in the lower part is.\<close>

definition low_inv :: "32 word \<Rightarrow> nat \<Rightarrow> nat \<times> 32 word \<Rightarrow> bool" where
  "low_inv w k hi \<longleftrightarrow> (case hi of (h, i) \<Rightarrow>
     0 < h \<and> i = drop_bit (h - 1) w \<and> (\<forall>n<h - 1. \<not> bit w n) \<and> (\<exists>n<k. bit i n))"

lemma low_mask: "i AND mask k = 0 \<longleftrightarrow> (\<forall>n<k. \<not> bit i n)" for i :: "32 word"
proof -
  have "n < 32" if "bit i n" for n
    using bit_imp_le_length [OF that] by simp
  then show ?thesis
    by (auto simp: bit_eq_iff [of "i AND mask k"] bit_simps)
qed

lemma lowbit_step_inv:
  assumes "low_inv w (2 * k) hi" and "m = mask k"
  shows "low_inv w k (lowbit_step m k hi)"
proof -
  obtain h i where hi: "hi = (h, i)" by fastforce
  obtain n where i: "0 < h" "i = drop_bit (h - 1) w" "\<forall>n<h - 1. \<not> bit w n" "n < 2 * k" "bit i n"
    using assms(1) by (auto simp: low_inv_def hi)
  show ?thesis
  proof (cases "i AND mask k = 0")
    case True
    then have lo: "\<forall>n<k. \<not> bit i n" by (simp add: low_mask)
    with i have "k \<le> n" by (meson not_le)
    then have "bit (drop_bit k i) (n - k)" "n - k < k"
      using i by (auto simp: bit_simps)
    moreover have "\<not> bit w j" if "j < h + k - 1" for j
      using i(1,2,3) lo that by (cases "j < h - 1") (auto simp: bit_simps dest: spec [of _ "j - (h - 1)"])
    ultimately show ?thesis
      using True i(1,2) assms(2) by (auto simp: low_inv_def lowbit_step_def hi add.commute)
  next
    case False
    then have "\<exists>n<k. bit i n" by (auto simp: low_mask)
    then show ?thesis
      using False i assms(2) by (auto simp: low_inv_def lowbit_step_def hi)
  qed
qed

lemma lowbit_bits:
  assumes "w \<noteq> 0"
  shows "0 < lowbit w \<and> bit w (lowbit w - 1) \<and> (\<forall>n. bit w n \<longrightarrow> lowbit w \<le> n + 1)"
proof -
  obtain n where "bit w n"
    using assms by (auto simp: bit_eq_iff)
  moreover from this have "n < 32"
    using bit_imp_le_length [of w n] by simp
  ultimately have "low_inv w (2 * 16) (1, w)"
    by (auto simp: low_inv_def)
  then have "low_inv w (2 * 8) (lowbit_step 0xffff 16 (1, w))"
    using lowbit_step_inv [of w 16] by (simp add: mask_eq_exp_minus_1)
  then have "low_inv w (2 * 4) (lowbit_step 0xff 8 (lowbit_step 0xffff 16 (1, w)))"
    using lowbit_step_inv [of w 8] by (simp add: mask_eq_exp_minus_1)
  then have "low_inv w (2 * 2) (lowbit_step 0xf 4 (lowbit_step 0xff 8 (lowbit_step 0xffff 16 (1, w))))"
    using lowbit_step_inv [of w 4] by (simp add: mask_eq_exp_minus_1)
  then have "low_inv w 2 (lowbit_step 0x3 2 (lowbit_step 0xf 4 (lowbit_step 0xff 8
      (lowbit_step 0xffff 16 (1, w)))))"
    using lowbit_step_inv [of w 2] by (simp add: mask_eq_exp_minus_1)
  moreover obtain h i where hi: "lowbit_step 0x3 2 (lowbit_step 0xf 4 (lowbit_step 0xff 8
      (lowbit_step 0xffff 16 (1, w)))) = (h, i)"
    by fastforce
  ultimately obtain k where i: "0 < h" "i = drop_bit (h - 1) w" "\<forall>n<h - 1. \<not> bit w n" "k < 2" "bit i k"
    unfolding low_inv_def hi by auto
  have e: "lowbit w = (if bit i 0 then h else h + 1)"
    using assms hi by (simp add: lowbit_def Let_def bit_one_and split: prod.splits)
  have shift: "bit w (h - 1 + n) = bit i n" for n
    by (simp add: i(2) bit_simps)
  have "bit i 0 \<or> bit i 1"
    using i(4,5) by (cases k) (auto simp: less_Suc_eq numeral_2_eq_2)
  then have "bit w (lowbit w - 1)"
    using shift [of 0] shift [of 1] i(1) by (auto simp: e)
  moreover have "lowbit w \<le> n + 1" if "bit w n" for n
  proof -
    have "h - 1 \<le> n" using i(3) that by (meson not_le)
    moreover have "n \<noteq> h - 1" if "\<not> bit i 0"
      using that \<open>bit w n\<close> shift [of 0] by auto
    ultimately show ?thesis by (auto simp: e)
  qed
  moreover have "0 < lowbit w"
    using i(1) by (simp add: e)
  ultimately show ?thesis
    by blast
qed

text \<open>
  \<open>highbit\<close> and \<open>lowbit\<close> of a word that is not 0 are one more than the position of its
  highest and of its lowest bit; both are 0 for the word 0.
\<close>

lemma highbit_lowbit_correct:
  "(w \<noteq> 0 \<longrightarrow> bit w (highbit w - 1) \<and> (\<forall>n. bit w n \<longrightarrow> n < highbit w)
            \<and> bit w (lowbit w - 1) \<and> (\<forall>n. bit w n \<longrightarrow> lowbit w \<le> n + 1))
   \<and> highbit 0 = 0 \<and> lowbit 0 = 0"
  using highbit_bits [of w] lowbit_bits [of w] by (simp add: highbit_def lowbit_def)

lemma highbit_lowbit_correct_witness:
  "highbit 0x00a0 = 8 \<and> lowbit 0x00a0 = 6 \<and> bit (0x00a0 :: 32 word) 7 \<and> bit (0x00a0 :: 32 word) 5"
proof -
  have "highbit 0x00a0 = 8" "lowbit 0x00a0 = 6"
    by code_simp+
  with highbit_lowbit_correct [of "0x00a0"] show ?thesis
    by simp
qed

section \<open>Searching a map\<close>

lemma word_full: "w = - 1 \<longleftrightarrow> (\<forall>n<32. bit w n)" for w :: "32 word"
  by (auto simp: bit_eq_iff [of w] bit_simps)

lemma bt_avail_word_spec:
  assumes "0 \<le> wx" and "wx \<le> maxword + 1" and "maxword < int (length bitmap)"
  shows "\<exists>r. bt_avail_word bitmap maxword wx = Done r \<and> wx \<le> r \<and> r \<le> maxword + 1
    \<and> (\<forall>k. wx \<le> k \<and> k < r \<longrightarrow> bitmap ! nat k = NOT 0) \<and> (r \<le> maxword \<longrightarrow> bitmap ! nat r \<noteq> NOT 0)"
  using assms
proof (induction bitmap maxword wx rule: bt_avail_word.induct)
  case (1 bitmap maxword wx)
  show ?case
  proof (cases "wx \<le> maxword \<and> bitmap ! nat wx = NOT 0")
    case True
    then obtain r where r: "bt_avail_word bitmap maxword (wx + 1) = Done r" "wx + 1 \<le> r"
      "r \<le> maxword + 1" "\<forall>k. wx + 1 \<le> k \<and> k < r \<longrightarrow> bitmap ! nat k = NOT 0"
      "r \<le> maxword \<longrightarrow> bitmap ! nat r \<noteq> NOT 0"
      using "1.IH" "1.prems" by auto
    have "bitmap ! nat k = NOT 0" if "wx \<le> k" "k < r" for k
      using that True r(4) by (cases "k = wx") auto
    then show ?thesis
      using r True "1.prems" by (subst bt_avail_word.simps) auto
  next
    case False
    then show ?thesis
      using "1.prems" by (subst bt_avail_word.simps) auto
  qed
qed

lemma bt_avail_bit_spec:
  assumes "0 \<le> bx" and "b = 2 ^ nat bx"
  shows "case bt_avail_bit w maxbit bx b of
      None \<Rightarrow> \<forall>k. bx \<le> k \<and> k \<le> maxbit \<longrightarrow> bit w (nat k)
    | Some r \<Rightarrow> bx \<le> r \<and> r \<le> maxbit \<and> \<not> bit w (nat r) \<and> (\<forall>k. bx \<le> k \<and> k < r \<longrightarrow> bit w (nat k))"
  using assms
proof (induction w maxbit bx b rule: bt_avail_bit.induct)
  case (1 w maxbit bx b)
  have b: "w AND b = 0 \<longleftrightarrow> \<not> bit w (nat bx)"
    by (simp add: "1.prems" and_exp_bit)
  show ?case
  proof (cases "bx \<le> maxbit \<and> bit w (nat bx)")
    case True
    have "push_bit 1 b = 2 ^ nat (bx + 1)"
      using "1.prems" by (simp add: push_bit_eq_mult nat_add_distrib)
    then have IH: "case bt_avail_bit w maxbit (bx + 1) (push_bit 1 b) of
        None \<Rightarrow> \<forall>k. bx + 1 \<le> k \<and> k \<le> maxbit \<longrightarrow> bit w (nat k)
      | Some r \<Rightarrow> bx + 1 \<le> r \<and> r \<le> maxbit \<and> \<not> bit w (nat r)
          \<and> (\<forall>k. bx + 1 \<le> k \<and> k < r \<longrightarrow> bit w (nat k))"
      using "1.IH" True b "1.prems"(1) by simp
    have split: "k = bx \<or> bx + 1 \<le> k" if "bx \<le> k" for k :: int
      using that by linarith
    show ?thesis
      using IH True b split by (subst bt_avail_bit.simps) (auto split: option.splits)
  next
    case False
    then show ?thesis
      using b by (subst bt_avail_bit.simps) auto
  qed
qed

text \<open>
  For a map of 1 to 32768 bits, \<open>bt_availbit\<close> returns the lowest clear bit below
  \<^verbatim>\<open>nbits\<close>, and -1 exactly when all of them are set; it reads no word past the map.
\<close>

lemma bt_availbit_lowest:
  assumes "0 < nbits" and "nbits \<le> 32768" and "nbits \<le> 32 * length bitmap"
  shows "\<exists>r. bt_availbit bitmap nbits = Done r
    \<and> (if \<exists>i<nbits. \<not> bit_of bitmap i
       then 0 \<le> r \<and> nat r < nbits \<and> \<not> bit_of bitmap (nat r) \<and> (\<forall>i<nat r. bit_of bitmap i)
       else r = - 1)"
proof -
  define N where "N = nbits - 1"
  define M where "M = N div 32"
  have N: "usub nbits (Suc 0) = N" "N < 32768" "nbits = N + 1"
    using assms(1,2) by (simp_all add: N_def)
  have M: "M < length bitmap" "M < 1024"
    using N assms(3) by (auto simp: M_def)
  obtain wx where wx: "bt_avail_word bitmap (int M) 0 = Done wx" "0 \<le> wx" "wx \<le> int M + 1"
    "\<forall>k. 0 \<le> k \<and> k < wx \<longrightarrow> bitmap ! nat k = NOT 0" "wx \<le> int M \<longrightarrow> bitmap ! nat wx \<noteq> NOT 0"
    using bt_avail_word_spec [of 0 "int M" bitmap] M by auto
  define W where "W = nat wx"
  have low: "bit_of bitmap i" if "i div 32 < W" for i
    using wx(4) [rule_format, of "int (i div 32)"] that by (simp add: W_def bit_of_def word_full)
  have e: "bt_availbit bitmap nbits =
      (if W \<le> M then
         case bt_avail_bit (bitmap ! W) (if W = M then int (N mod 32) else 31) 0 1 of
           Some bx \<Rightarrow> Done (s16 (int W * 32 + bx)) | None \<Rightarrow> Done (- 1)
       else Done (- 1))"
  proof -
    have "wx = int W" "s16 (int M) = int M"
      using wx(2) M(2) by (simp_all add: W_def)
    then show ?thesis
      using wx(1) by (simp add: bt_availbit_def N(1) Let_def flip: M_def)
  qed
  show ?thesis
  proof (cases "W \<le> M")
    case False
    then have "bit_of bitmap i" if "i < nbits" for i
      using that low [of i] N(3) div_le_mono [of i N 32] by (simp add: M_def)
    then show ?thesis
      using False by (auto simp: e)
  next
    case True
    define mb where "mb = (if W = M then int (N mod 32) else 31)"
    have nf: "\<exists>n<32. \<not> bit (bitmap ! W) n"
      using True wx(2,5) by (auto simp: word_full W_def)
    show ?thesis
    proof (cases "bt_avail_bit (bitmap ! W) mb 0 1")
      case None
      then have all: "bit (bitmap ! W) n" if "int n \<le> mb" for n
        using bt_avail_bit_spec [of 0 1 mb "bitmap ! W"] that
        by (auto dest: spec [of _ "int n"])
      have "W = M"
      proof (rule ccontr)
        assume "W \<noteq> M"
        then have "bit (bitmap ! W) n" if "n < 32" for n
          using all [of n] that by (simp add: mb_def)
        with nf show False by blast
      qed
      have "bit_of bitmap i" if "i < nbits" for i
      proof (cases "i div 32 < W")
        case False
        then have d: "i div 32 = N div 32"
          using that N(3) \<open>W = M\<close> div_le_mono [of i N 32] by (simp add: M_def)
        moreover have "i mod 32 \<le> N mod 32"
          using that N(3) d div_mult_mod_eq [of i 32] div_mult_mod_eq [of N 32] by linarith
        ultimately show ?thesis
          using all [of "i mod 32"] \<open>W = M\<close> by (simp add: bit_of_def mb_def M_def)
      qed (rule low)
      then show ?thesis
        using None True by (auto simp: e simp flip: mb_def)
    next
      case (Some bx)
      define B where "B = nat bx"
      have bs: "0 \<le> bx" "bx \<le> mb" "\<not> bit (bitmap ! W) (nat bx)"
        "\<And>k. 0 \<le> k \<Longrightarrow> k < bx \<Longrightarrow> bit (bitmap ! W) (nat k)"
        using bt_avail_bit_spec [of 0 1 mb "bitmap ! W"] Some by auto
      have b: "bx = int B" "int B \<le> mb" "\<not> bit (bitmap ! W) B" "\<forall>k<B. bit (bitmap ! W) k"
        using bs(1,2,3) bs(4) [of "int _"] by (auto simp: B_def)
      have "B < 32"
        using b(2) by (auto simp: mb_def split: if_splits)
      then have d: "(W * 32 + B) div 32 = W" "(W * 32 + B) mod 32 = B"
        by simp_all
      have "W * 32 + B \<le> N"
      proof (cases "W = M")
        case True
        then have "W = N div 32" "B \<le> N mod 32" using b(2) by (simp_all add: mb_def M_def)
        then show ?thesis using div_mult_mod_eq [of N 32] by linarith
      next
        case False
        with True have "W + 1 \<le> N div 32" by (simp add: M_def)
        then have "(W + 1) * 32 \<le> N"
          using div_mult_mod_eq [of N 32] by simp
        then show ?thesis using \<open>B < 32\<close> by simp
      qed
      moreover have "\<not> bit_of bitmap (W * 32 + B)"
        using b(3) \<open>B < 32\<close> by (simp add: bit_of_def d)
      moreover have "bit_of bitmap i" if "i < W * 32 + B" for i
      proof (cases "i div 32 < W")
        case False
        then have "i div 32 = W" "i mod 32 < B"
          using that \<open>B < 32\<close> div_mult_mod_eq [of i 32] by linarith+
        then show ?thesis using b(4) by (simp add: bit_of_def)
      qed (rule low)
      moreover have "s16 (int W * 32 + bx) = int (W * 32 + B)"
        using N(2) \<open>W * 32 + B \<le> N\<close> b(1) by simp
      then have "bt_availbit bitmap nbits = Done (int (W * 32 + B))"
        using Some True by (simp only: e if_True mb_def [symmetric] option.case)
      moreover have "\<exists>i<nbits. \<not> bit_of bitmap i"
        using calculation(1,2) N(3) by (auto intro!: exI [of _ "W * 32 + B"])
      ultimately show ?thesis
        using N(3) by (intro exI [of _ "int (W * 32 + B)"]) (simp only: if_True nat_int, simp)
    qed
  qed
qed

lemma bt_availbit_lowest_witness:
  "bt_availbit [0xffffffff, 0x0000000b] 40 = Done 34 \<and> \<not> bit_of [0xffffffff, 0x0000000b] 34"
proof -
  have "bt_avail_word [0xffffffff, 0x0000000b] 1 0 = Done 1" "bt_avail_bit 0x0000000b 7 0 1 = Some 2"
    by code_simp+
  then have "bt_availbit [0xffffffff, 0x0000000b] 40 = Done 34"
    by (simp add: bt_availbit_def)
  moreover have ex: "\<exists>i<40. \<not> bit_of [0xffffffff, 0x0000000b] i"
    by (rule exI [of _ 34]) (simp add: bit_of_def)
  moreover obtain r where "bt_availbit [0xffffffff, 0x0000000b] 40 = Done r"
    "\<not> bit_of [0xffffffff, 0x0000000b] (nat r)"
    using bt_availbit_lowest [of 40 "[0xffffffff, 0x0000000b]"] unfolding if_P [OF ex] by auto
  ultimately show ?thesis
    by simp
qed

lemma bt_scan_spec:
  assumes "inx \<le> nbits" and "nbits \<le> 32 * length bitmap"
  shows "\<exists>r. bt_scan bitmap v nbits inx = Done r \<and> inx \<le> r \<and> r \<le> nbits
    \<and> (\<forall>i. inx \<le> i \<and> i < r \<longrightarrow> bit_of bitmap i \<noteq> v) \<and> (r < nbits \<longrightarrow> bit_of bitmap r = v)"
  using assms
proof (induction bitmap v nbits inx rule: bt_scan.induct)
  case (1 bitmap v nbits inx)
  show ?case
  proof (cases "inx < nbits \<and> bit_of bitmap inx \<noteq> v")
    case True
    then have t: "BT_TEST bitmap inx = Done (bit_of bitmap inx)"
      using "1.prems" by (intro BT_TEST_bit) simp
    with True obtain r where r: "bt_scan bitmap v nbits (Suc inx) = Done r" "Suc inx \<le> r" "r \<le> nbits"
      "\<forall>i. Suc inx \<le> i \<and> i < r \<longrightarrow> bit_of bitmap i \<noteq> v" "r < nbits \<longrightarrow> bit_of bitmap r = v"
      using "1.IH" [of "bit_of bitmap inx"] "1.prems" by auto
    have "bit_of bitmap i \<noteq> v" if "inx \<le> i" "i < r" for i
      using that True r(4) by (cases "i = inx") auto
    then show ?thesis
      using r True t by (subst bt_scan.simps) auto
  next
    case False
    then show ?thesis
      using "1.prems" BT_TEST_bit [of inx bitmap] by (subst bt_scan.simps) auto
  qed
qed

text \<open>
  C38. \<open>bt_range\<close> on a map and a start within it finds the first run of set bits: it
  returns 0 when no bit from the start on is set, and otherwise the first set bit and the
  last one of the run that starts there.
\<close>

theorem bt_range_first_run:
  assumes "pos1 \<le> nbits" and "nbits \<le> 32 * length bitmap" and "nbits < 2 ^ 32"
  shows "\<exists>r. bt_range bitmap pos1 nbits = Done r
    \<and> (case r of
         None \<Rightarrow> \<forall>i. pos1 \<le> i \<and> i < nbits \<longrightarrow> \<not> bit_of bitmap i
       | Some (p, q) \<Rightarrow> pos1 \<le> p \<and> p \<le> q \<and> q < nbits
           \<and> (\<forall>i. pos1 \<le> i \<and> i < p \<longrightarrow> \<not> bit_of bitmap i)
           \<and> (\<forall>i. p \<le> i \<and> i \<le> q \<longrightarrow> bit_of bitmap i)
           \<and> (q + 1 < nbits \<longrightarrow> \<not> bit_of bitmap (q + 1)))"
proof -
  obtain p where p: "bt_scan bitmap True nbits pos1 = Done p" "pos1 \<le> p" "p \<le> nbits"
    "\<forall>i. pos1 \<le> i \<and> i < p \<longrightarrow> \<not> bit_of bitmap i" "p < nbits \<longrightarrow> bit_of bitmap p"
    using bt_scan_spec [of pos1 nbits bitmap True] assms by auto
  show ?thesis
  proof (cases "p = nbits")
    case True
    then show ?thesis
      using p by (auto simp: bt_range_def)
  next
    case False
    obtain q where q: "bt_scan bitmap False nbits p = Done q" "p \<le> q" "q \<le> nbits"
      "\<forall>i. p \<le> i \<and> i < q \<longrightarrow> bit_of bitmap i" "q < nbits \<longrightarrow> \<not> bit_of bitmap q"
      using bt_scan_spec [of p nbits bitmap False] assms p(3) by auto
    have "p \<noteq> q"
      using False p(3,5) q(5) by auto
    then have "usub q 1 = q - 1" "p \<le> q - 1" "q - 1 < nbits" "q - 1 + 1 = q"
      using q assms(3) by auto
    then show ?thesis
      using False p q \<open>p \<noteq> q\<close> by (auto simp: bt_range_def)
  qed
qed

theorem bt_range_first_run_witness:
  "bt_range [0x000000f0, 0] 1 64 = Done (Some (4, 7)) \<and> bit_of [0x000000f0, 0] 7"
proof -
  have "bt_scan [0x000000f0, 0] True 64 1 = Done 4" "bt_scan [0x000000f0, 0] False 64 4 = Done 8"
    by code_simp+
  then have "bt_range [0x000000f0, 0] 1 64 = Done (Some (4, 7))"
    by (simp add: bt_range_def)
  moreover obtain r where "bt_range [0x000000f0, 0] 1 64 = Done r"
    "\<forall>p q. r = Some (p, q) \<longrightarrow> p \<le> q \<and> (\<forall>i. p \<le> i \<and> i \<le> q \<longrightarrow> bit_of [0x000000f0, 0] i)"
    using bt_range_first_run [of 1 64 "[0x000000f0, 0]"] by (fastforce split: option.splits)
  ultimately show ?thesis
    by auto
qed

end
