(* ===== verification/Pid.thy ===== *)
theory Pid
  imports Bitmap
begin

unbundle bit_operations_syntax

text \<open>
  Process ids, \<^verbatim>\<open>uts/common/os/pid.c\<close>: the hash table of \<^verbatim>\<open>pid\<close> structures, the slots of the
  \<^verbatim>\<open>/proc\<close> directory with their free list, the choice of a new id and the release of an old
  one. Processes are numbers, a \<^verbatim>\<open>struct pid\<close> is identified by its id (the table holds no
  two with the same id), and the two locks make each routine atomic.
\<close>

section \<open>State\<close>

record pid =
  pid_prinactive :: bool
  pid_prslot :: nat
  pid_id :: int
  pid_pglink :: "nat option"
  pid_ref :: nat

text \<open>\<^verbatim>\<open>union procent\<close>: a slot holds a process or the link of the free list.\<close>

datatype procent = Pe_proc nat | Pe_next "nat option"

record pidstate =
  pidhash :: "pid list list"
  minpid :: int
  mpid :: int
  procdir :: "procent list"
  procentfree :: "nat option"

abbreviation MAXPID :: int where "MAXPID \<equiv> 30000"

text \<open>\<open>pid_hashsz\<close> is the number of buckets, a power of 2; a process id is never negative.\<close>

definition HASHPID :: "pidstate \<Rightarrow> int \<Rightarrow> nat" where
  "HASHPID st p = nat (p AND (int (length (pidhash st)) - 1))"

definition pid0 :: pid where
  "pid0 = \<lparr>pid_prinactive = False, pid_prslot = 0, pid_id = 0, pid_pglink = None, pid_ref = 3\<rparr>"

text \<open>
  \<open>v_proc\<close> is the size of the process table and \<open>pid_hashlen\<close> the wanted length of a chain;
  process 0 is \<^verbatim>\<open>proc_sched\<close>. The free list runs through the slots in order.
\<close>

definition pid_init :: "nat \<Rightarrow> nat \<Rightarrow> bool \<Rightarrow> pidstate outcome" where
  "pid_init pid_hashlen v_proc kmem_ok =
     (if kmem_ok then
        let pid_hashsz = 2 ^ highbit (of_nat (v_proc div pid_hashlen))
        in Done
          \<lparr>pidhash = (replicate pid_hashsz [])[0 := [pid0]],
           minpid = 0, mpid = 0,
           procdir = Pe_proc 0
             # map (\<lambda>i. Pe_next (if i < v_proc - 1 then Some (i + 1) else None)) [1..<v_proc],
           procentfree = Some 1\<rparr>
      else Panic)"

definition pid_setmin :: "pidstate \<Rightarrow> pidstate" where
  "pid_setmin st = st\<lparr>minpid := mpid st + 1\<rparr>"

section \<open>Looking up\<close>

definition pid_bucket :: "pidstate \<Rightarrow> int \<Rightarrow> pid list" where
  "pid_bucket st p =
     (if HASHPID st p < length (pidhash st) then pidhash st ! HASHPID st p else [])"

definition pid_lookup :: "pidstate \<Rightarrow> int \<Rightarrow> pid option" where
  "pid_lookup st p = find (\<lambda>q. pid_id q = p) (pid_bucket st p)"

text \<open>The process in the slot of the id, unless it is inactive.\<close>

definition prfind :: "pidstate \<Rightarrow> int \<Rightarrow> nat option" where
  "prfind st p =
     (case pid_lookup st p of
        Some pidp \<Rightarrow>
          if \<not> pid_prinactive pidp \<and> pid_prslot pidp < length (procdir st) then
            (case procdir st ! pid_prslot pidp of Pe_proc prp \<Rightarrow> Some prp | Pe_next _ \<Rightarrow> None)
          else None
      | None \<Rightarrow> None)"

definition pgfind :: "pidstate \<Rightarrow> int \<Rightarrow> nat option" where
  "pgfind st pgid = (case pid_lookup st pgid of Some pidp \<Rightarrow> pid_pglink pidp | None \<Rightarrow> None)"

text \<open>\<open>idle\<close> tells the processes still being created (\<^verbatim>\<open>SIDL\<close>).\<close>

definition pid_entry :: "pidstate \<Rightarrow> (nat \<Rightarrow> bool) \<Rightarrow> nat \<Rightarrow> nat option outcome" where
  "pid_entry st idle slot =
     (if slot < length (procdir st) then
        (case procdir st ! slot of
           Pe_next _ \<Rightarrow> Done None
         | Pe_proc prp \<Rightarrow> Done (if idle prp then None else Some prp))
      else Overrun)"

section \<open>Assigning and releasing\<close>

text \<open>
  One round of the search: \<^verbatim>\<open>++mpid == MAXPID ? mpid = minpid : mpid\<close>. The search goes on
  until it meets an unused id; it does not return when every id is in use.
\<close>

definition pid_step :: "int \<Rightarrow> int \<Rightarrow> int" where
  "pid_step mn m = (if m + 1 = MAXPID then mn else m + 1)"

partial_function (option) pid_search :: "(int \<Rightarrow> bool) \<Rightarrow> int \<Rightarrow> int \<Rightarrow> int option" where
  "pid_search used mn m =
     (let newpid = pid_step mn m
      in if used newpid then pid_search used mn newpid else Some newpid)"

text \<open>
  \<open>Done (-1)\<close> is the failure for want of a slot; \<open>None\<close> is a search that never ends.
\<close>

definition pid_assign :: "pidstate \<Rightarrow> nat \<Rightarrow> (int \<times> pidstate) outcome option" where
  "pid_assign st prp =
     (case procentfree st of
        None \<Rightarrow> Some (Done (- 1, st))
      | Some pep \<Rightarrow>
          if pep < length (procdir st) then
            (case procdir st ! pep of
               Pe_proc _ \<Rightarrow> Some Overrun
             | Pe_next nxt \<Rightarrow>
                 let st1 = st\<lparr>procentfree := nxt, procdir := (procdir st)[pep := Pe_proc prp]\<rparr>
                 in map_option
                      (\<lambda>newpid.
                         let st2 = st1\<lparr>mpid := newpid\<rparr>;
                             pidp = \<lparr>pid_prinactive = False, pid_prslot = pep, pid_id = newpid,
                                     pid_pglink = None, pid_ref = 1\<rparr>
                         in if HASHPID st2 newpid < length (pidhash st2)
                            then Done (newpid,
                              st2\<lparr>pidhash := (pidhash st2)[HASHPID st2 newpid :=
                                     pidp # pidhash st2 ! HASHPID st2 newpid]\<rparr>)
                            else Overrun)
                      (pid_search (\<lambda>p. pid_lookup st1 p \<noteq> None) (minpid st1) (mpid st1)))
          else Some Overrun)"

text \<open>Unlinking of a \<^verbatim>\<open>pid\<close> from its chain; running off the chain is a null dereference.\<close>

fun pid_unlink :: "int \<Rightarrow> pid list \<Rightarrow> pid list option" where
  "pid_unlink p [] = None"
| "pid_unlink p (q # qs) =
     (if pid_id q = p then Some qs else map_option ((#) q) (pid_unlink p qs))"

definition pid_rele :: "pidstate \<Rightarrow> int \<Rightarrow> pidstate outcome" where
  "pid_rele st p =
     (case pid_unlink p (pid_bucket st p) of
        None \<Rightarrow> Overrun
      | Some c \<Rightarrow> Done (st\<lparr>pidhash := (pidhash st)[HASHPID st p := c]\<rparr>))"

definition pid_update :: "pidstate \<Rightarrow> int \<Rightarrow> (pid \<Rightarrow> pid) \<Rightarrow> pidstate" where
  "pid_update st p f =
     st\<lparr>pidhash := map (map (\<lambda>q. if pid_id q = p then f q else q)) (pidhash st)\<rparr>"

definition PID_HOLD :: "pidstate \<Rightarrow> int \<Rightarrow> pidstate" where
  "PID_HOLD st p = pid_update st p (\<lambda>q. q\<lparr>pid_ref := uadd (pid_ref q) 1\<rparr>)"

definition PID_RELE :: "pidstate \<Rightarrow> int \<Rightarrow> pidstate outcome" where
  "PID_RELE st p =
     (case pid_lookup st p of
        None \<Rightarrow> Overrun
      | Some pidp \<Rightarrow>
          if pid_ref pidp > 1
          then Done (pid_update st p (\<lambda>q. q\<lparr>pid_ref := usub (pid_ref q) 1\<rparr>))
          else pid_rele st p)"

definition proc_entry_free :: "pidstate \<Rightarrow> pid \<Rightarrow> pidstate outcome" where
  "proc_entry_free st pidp =
     (if pid_prslot pidp < length (procdir st) then
        Done ((pid_update st (pid_id pidp) (\<lambda>q. q\<lparr>pid_prinactive := True\<rparr>))
          \<lparr>procdir := (procdir st)[pid_prslot pidp := Pe_next (procentfree st)],
           procentfree := Some (pid_prslot pidp)\<rparr>)
      else Overrun)"

text \<open>\<open>proc_ref\<close> and \<open>proc_unref\<close> for the process with id \<open>p\<close>.\<close>

definition proc_ref :: "pidstate \<Rightarrow> int \<Rightarrow> int \<times> pidstate" where
  "proc_ref st p = (p, PID_HOLD st p)"

definition proc_unref :: "pidstate \<Rightarrow> int \<Rightarrow> pidstate outcome" where
  "proc_unref st p = PID_RELE st p"

section \<open>Well-formed tables\<close>

text \<open>The slots of the free list, from the one \<open>h\<close> points to.\<close>

fun free_slots :: "procent list \<Rightarrow> nat option \<Rightarrow> nat list \<Rightarrow> bool" where
  "free_slots d h [] \<longleftrightarrow> h = None"
| "free_slots d h (s # ss) \<longleftrightarrow>
     h = Some s \<and> s < length d \<and> (\<exists>n. d ! s = Pe_next n \<and> free_slots d n ss)"

definition pid_ok :: "pidstate \<Rightarrow> bool" where
  "pid_ok st \<longleftrightarrow>
     (\<exists>k. length (pidhash st) = 2 ^ k)
     \<and> (\<forall>i<length (pidhash st). distinct (map pid_id (pidhash st ! i))
          \<and> (\<forall>q\<in>set (pidhash st ! i). HASHPID st (pid_id q) = i \<and> 0 \<le> pid_id q \<and> pid_id q < MAXPID
               \<and> (\<not> pid_prinactive q \<longrightarrow> pid_prslot q < length (procdir st)
                    \<and> (\<exists>p. procdir st ! pid_prslot q = Pe_proc p))))
     \<and> (\<exists>ss. distinct ss \<and> free_slots (procdir st) (procentfree st) ss)
     \<and> 0 \<le> minpid st \<and> - 1 \<le> mpid st \<and> mpid st < MAXPID"

lemma HASHPID_mod:
  assumes "length (pidhash st) = 2 ^ k"
  shows "HASHPID st p = nat (p mod 2 ^ k)"
proof -
  have "p AND (2 ^ k - 1) = p mod 2 ^ k"
    using take_bit_eq_mask [of k p] by (simp add: take_bit_eq_mod mask_eq_exp_minus_1)
  then show ?thesis
    by (simp add: HASHPID_def assms)
qed

lemma HASHPID_bound:
  assumes "pid_ok st"
  shows "HASHPID st p < length (pidhash st)"
proof -
  obtain k where k: "length (pidhash st) = 2 ^ k"
    using assms by (auto simp: pid_ok_def)
  have "0 \<le> p mod 2 ^ k" "p mod 2 ^ k < 2 ^ k"
    by simp_all
  then have "nat (p mod 2 ^ k) < nat (2 ^ k)"
    by (simp add: nat_less_eq_zless)
  then show ?thesis
    by (simp add: HASHPID_mod [OF k] k nat_power_eq)
qed

section \<open>The search for an id\<close>

lemma pid_search_finds:
  assumes "0 \<le> mn" and "mn \<le> f" and "f < MAXPID" and "\<not> used f" and "- 1 \<le> m" and "m < MAXPID"
  shows "\<exists>p. pid_search used mn m = Some p \<and> \<not> used p \<and> 0 \<le> p \<and> p < MAXPID"
  using assms(5,6)
proof (induction "if f > m then nat (f - m) else nat (MAXPID - m + f - mn + 1)" arbitrary: m
    rule: less_induct)
  case less
  define n where "n = pid_step mn m"
  have n: "0 \<le> n" "n < MAXPID"
    using less.prems assms(1-3) by (auto simp: n_def pid_step_def)
  have u: "pid_search used mn m = (if used n then pid_search used mn n else Some n)"
    by (subst pid_search.simps) (simp add: n_def Let_def)
  show ?case
  proof (cases "used n")
    case False
    then show ?thesis using u n by simp
  next
    case True
    then have "n \<noteq> f" using assms(4) by auto
    have "(if f > n then nat (f - n) else nat (MAXPID - n + f - mn + 1))
      < (if f > m then nat (f - m) else nat (MAXPID - m + f - mn + 1))"
      using \<open>n \<noteq> f\<close> less.prems assms(1-3) by (auto simp: n_def pid_step_def split: if_splits)
    from less.hyps [OF this] show ?thesis
      using u True n by simp
  qed
qed

section \<open>Assigning an id\<close>

lemma free_slots_update:
  assumes "free_slots d h ss" and "s \<notin> set ss"
  shows "free_slots (d[s := v]) h ss"
  using assms by (induction ss arbitrary: h) auto

lemma HASHPID_frame [simp]:
  "HASHPID (st\<lparr>procentfree := a\<rparr>) = HASHPID st" "HASHPID (st\<lparr>procdir := b\<rparr>) = HASHPID st"
  "HASHPID (st\<lparr>mpid := c\<rparr>) = HASHPID st" "HASHPID (st\<lparr>minpid := c\<rparr>) = HASHPID st"
  "HASHPID (st\<lparr>pidhash := (pidhash st)[i := x]\<rparr>) = HASHPID st"
  by (simp_all add: fun_eq_iff HASHPID_def)

lemma pid_lookup_frame [simp]:
  "pid_lookup (st\<lparr>procentfree := a\<rparr>) = pid_lookup st"
  "pid_lookup (st\<lparr>procdir := b\<rparr>) = pid_lookup st"
  "pid_lookup (st\<lparr>mpid := c\<rparr>) = pid_lookup st"
  by (simp_all add: fun_eq_iff pid_lookup_def pid_bucket_def)

lemma find_id_None: "find (\<lambda>q. pid_id q = p) c = None \<longleftrightarrow> p \<notin> pid_id ` set c"
  by (auto simp: find_None_iff)

lemma pid_lookup_insert:
  assumes "pid_ok st" and "pid_id x = p"
  shows "pid_lookup (st\<lparr>pidhash := (pidhash st)[HASHPID st p := x # pidhash st ! HASHPID st p]\<rparr>) q =
    (if q = p then Some x else pid_lookup st q)"
  using HASHPID_bound [OF assms(1)] assms(2)
  by (auto simp: pid_lookup_def pid_bucket_def nth_list_update)

text \<open>An active id has a slot that holds a process.\<close>

lemma pid_lookup_active:
  assumes "pid_ok st" and "pid_lookup st q = Some x" and "\<not> pid_prinactive x"
  shows "pid_prslot x < length (procdir st) \<and> (\<exists>p. procdir st ! pid_prslot x = Pe_proc p)"
proof -
  have "x \<in> set (pidhash st ! HASHPID st q)"
    using assms(2) HASHPID_bound [OF assms(1)] by (auto simp: pid_lookup_def pid_bucket_def find_Some_iff)
  then show ?thesis
    using assms(1,3) HASHPID_bound [OF assms(1)] by (auto simp: pid_ok_def)
qed

definition pid_installed :: "pidstate \<Rightarrow> nat \<Rightarrow> nat \<Rightarrow> nat option \<Rightarrow> int \<Rightarrow> pidstate" where
  "pid_installed st prp pep nxt p =
     st\<lparr>procentfree := nxt, procdir := (procdir st)[pep := Pe_proc prp], mpid := p,
        pidhash := (pidhash st)[HASHPID st p :=
          \<lparr>pid_prinactive = False, pid_prslot = pep, pid_id = p, pid_pglink = None, pid_ref = 1\<rparr>
          # pidhash st ! HASHPID st p]\<rparr>"

lemma pid_assign_steps:
  assumes "pid_ok st" and "procentfree st = Some pep"
    and "minpid st \<le> f" and "f < MAXPID" and "pid_lookup st f = None"
  obtains p nxt where "pid_assign st prp = Some (Done (p, pid_installed st prp pep nxt p))"
    and "pid_lookup st p = None" and "0 \<le> p" and "p < MAXPID"
    and "pep < length (procdir st)" and "procdir st ! pep = Pe_next nxt"
proof -
  obtain ss nxt where pep: "pep < length (procdir st)" "procdir st ! pep = Pe_next nxt"
  proof -
    obtain ss where ss: "free_slots (procdir st) (procentfree st) ss"
      using assms(1) by (auto simp: pid_ok_def)
    then show thesis
      using that assms(2) by (cases ss) auto
  qed
  obtain p where p: "pid_search (\<lambda>p. pid_lookup st p \<noteq> None) (minpid st) (mpid st) = Some p"
    "pid_lookup st p = None" "0 \<le> p" "p < MAXPID"
    using pid_search_finds [of "minpid st" f "\<lambda>p. pid_lookup st p \<noteq> None" "mpid st"] assms
    by (auto simp: pid_ok_def)
  have "pid_assign st prp = Some (Done (p, pid_installed st prp pep nxt p))"
    using assms(2) pep p(1) HASHPID_bound [OF assms(1), of p]
    by (simp add: pid_assign_def pid_installed_def Let_def)
  then show thesis
    using that p pep by blast
qed

lemma pid_installed_lookup:
  assumes "pid_ok st"
  shows "pid_lookup (pid_installed st prp pep nxt p) q =
    (if q = p then Some \<lparr>pid_prinactive = False, pid_prslot = pep, pid_id = p, pid_pglink = None, pid_ref = 1\<rparr>
     else pid_lookup st q)"
proof -
  have "pid_lookup (pid_installed st prp pep nxt p) q = pid_lookup (st\<lparr>pidhash := (pidhash st)[HASHPID st p :=
      \<lparr>pid_prinactive = False, pid_prslot = pep, pid_id = p, pid_pglink = None, pid_ref = 1\<rparr>
      # pidhash st ! HASHPID st p]\<rparr>) q"
    by (simp add: pid_installed_def pid_lookup_def pid_bucket_def HASHPID_def)
  also have "\<dots> = (if q = p then Some \<lparr>pid_prinactive = False, pid_prslot = pep, pid_id = p,
      pid_pglink = None, pid_ref = 1\<rparr> else pid_lookup st q)"
    by (rule pid_lookup_insert [OF assms]) simp
  finally show ?thesis .
qed

lemma pid_installed_ok:
  assumes "pid_ok st" and "procentfree st = Some pep" and "procdir st ! pep = Pe_next nxt"
    and "pep < length (procdir st)" and "pid_lookup st p = None" and "0 \<le> p" and "p < MAXPID"
  shows "pid_ok (pid_installed st prp pep nxt p)"
proof -
  let ?st = "pid_installed st prp pep nxt p"
  have h: "HASHPID ?st = HASHPID st" "length (pidhash ?st) = length (pidhash st)"
    by (simp_all add: pid_installed_def fun_eq_iff HASHPID_def)
  obtain ss where "distinct ss" "free_slots (procdir st) (procentfree st) ss"
    using assms(1) by (auto simp: pid_ok_def)
  then obtain ss' where "ss = pep # ss'" "free_slots (procdir st) nxt ss'" "pep \<notin> set ss'" "distinct ss'"
    using assms(2,3) by (cases ss) auto
  then have f: "\<exists>ss. distinct ss \<and> free_slots (procdir ?st) (procentfree ?st) ss"
    by (auto simp: pid_installed_def intro!: exI [of _ ss'] free_slots_update)
  have new: "p \<notin> pid_id ` set (pidhash st ! HASHPID st p)"
    using assms(5) HASHPID_bound [OF assms(1), of p] by (simp add: pid_lookup_def pid_bucket_def find_id_None)
  have old: "distinct (map pid_id (pidhash st ! i))
      \<and> (\<forall>q\<in>set (pidhash st ! i). HASHPID st (pid_id q) = i \<and> 0 \<le> pid_id q \<and> pid_id q < MAXPID
           \<and> (\<not> pid_prinactive q \<longrightarrow> pid_prslot q < length (procdir ?st)
                \<and> (\<exists>p. procdir ?st ! pid_prslot q = Pe_proc p)))" if "i < length (pidhash st)" for i
    using assms(1,4) that by (auto simp: pid_ok_def pid_installed_def nth_list_update)
  have b: "distinct (map pid_id (pidhash ?st ! i))
      \<and> (\<forall>q\<in>set (pidhash ?st ! i). HASHPID st (pid_id q) = i \<and> 0 \<le> pid_id q \<and> pid_id q < MAXPID
           \<and> (\<not> pid_prinactive q \<longrightarrow> pid_prslot q < length (procdir ?st)
                \<and> (\<exists>p. procdir ?st ! pid_prslot q = Pe_proc p)))" if "i < length (pidhash st)" for i
  proof (cases "i = HASHPID st p")
    case True
    then have "pidhash ?st ! i = \<lparr>pid_prinactive = False, pid_prslot = pep, pid_id = p, pid_pglink = None,
        pid_ref = 1\<rparr> # pidhash st ! i"
      using that by (simp add: pid_installed_def)
    moreover have "procdir ?st ! pep = Pe_proc prp" "pep < length (procdir ?st)"
      using assms(4) by (simp_all add: pid_installed_def)
    ultimately show ?thesis
      using old [OF that] new True assms(6,7) by simp
  next
    case False
    then have "pidhash ?st ! i = pidhash st ! i"
      by (simp add: pid_installed_def)
    then show ?thesis
      using old [OF that] by simp
  qed
  have "0 \<le> minpid ?st \<and> - 1 \<le> mpid ?st \<and> mpid ?st < MAXPID"
    using assms(1,6,7) by (simp add: pid_ok_def pid_installed_def)
  then show ?thesis
    using assms(1) f b unfolding pid_ok_def h by blast
qed

text \<open>
  C34. In a well-formed table with a free slot and an unused id in the range from
  \<^verbatim>\<open>minpid\<close> up, \<open>pid_assign\<close> returns: with an id in range that nothing used, under which
  \<open>prfind\<close> now finds the new process, while every other id still finds what it did; the
  table stays well formed. Without a free slot it returns -1 and changes nothing.
\<close>

theorem pid_assign_fresh:
  assumes "pid_ok st" and "procentfree st \<noteq> None"
    and "minpid st \<le> f" and "f < MAXPID" and "pid_lookup st f = None"
  shows "\<exists>p st'. pid_assign st prp = Some (Done (p, st')) \<and> 0 \<le> p \<and> p < MAXPID
    \<and> pid_lookup st p = None \<and> prfind st' p = Some prp \<and> (\<forall>q. q \<noteq> p \<longrightarrow> prfind st' q = prfind st q)
    \<and> pid_ok st' \<and> pid_assign (st\<lparr>procentfree := None\<rparr>) prp = Some (Done (- 1, st\<lparr>procentfree := None\<rparr>))"
proof -
  obtain pep where pep: "procentfree st = Some pep"
    using assms(2) by blast
  obtain p nxt where p: "pid_assign st prp = Some (Done (p, pid_installed st prp pep nxt p))"
    "pid_lookup st p = None" "0 \<le> p" "p < MAXPID" "pep < length (procdir st)" "procdir st ! pep = Pe_next nxt"
    using pid_assign_steps [OF assms(1) pep assms(3-5)] by metis
  let ?st = "pid_installed st prp pep nxt p"
  have d: "procdir ?st = (procdir st)[pep := Pe_proc prp]"
    by (simp add: pid_installed_def)
  have "prfind ?st p = Some prp"
    using p(5) by (simp add: prfind_def pid_installed_lookup [OF assms(1)] d)
  moreover have "prfind ?st q = prfind st q" if "q \<noteq> p" for q
  proof (cases "pid_lookup st q")
    case None
    then show ?thesis
      using that by (simp add: prfind_def pid_installed_lookup [OF assms(1)])
  next
    case (Some x)
    have "pid_prslot x \<noteq> pep" if "\<not> pid_prinactive x"
      using pid_lookup_active [OF assms(1) Some that] p(6) by auto
    then show ?thesis
      using that Some by (auto simp: prfind_def pid_installed_lookup [OF assms(1)] d nth_list_update)
  qed
  moreover have "pid_ok ?st"
    using pid_installed_ok [OF assms(1) pep p(6,5,2,3,4)] .
  ultimately show ?thesis
    using p by (auto simp: pid_assign_def)
qed

definition pid_demo :: pidstate where
  "pid_demo = \<lparr>pidhash = [[pid0], []], minpid = 1, mpid = 29999,
     procdir = [Pe_proc 0, Pe_next None], procentfree = Some 1\<rparr>"

lemma pid_demo_ok: "pid_ok pid_demo"
proof -
  have "\<exists>k. Suc (Suc 0) = 2 ^ k"
    by (rule exI [of _ 1]) simp
  moreover have "\<exists>ss. distinct ss \<and> free_slots [Pe_proc 0, Pe_next None] (Some 1) ss"
    by (rule exI [of _ "[1]"]) simp
  ultimately show ?thesis
    by (auto simp: pid_ok_def pid_demo_def less_Suc_eq pid0_def HASHPID_def)
qed

theorem pid_assign_fresh_witness:
  "\<exists>p st'. pid_assign pid_demo 5 = Some (Done (p, st')) \<and> prfind st' p = Some 5 \<and> prfind st' 0 = prfind pid_demo 0"
proof -
  have "pid_lookup pid_demo 0 \<noteq> None" "pid_lookup pid_demo 7 = None"
    by (simp_all add: pid_lookup_def pid_bucket_def pid_demo_def HASHPID_def pid0_def)
  then show ?thesis
    using pid_assign_fresh [OF pid_demo_ok, of 7 5] by (force simp: pid_demo_def)
qed

section \<open>Releasing an id\<close>

lemma pid_ok_bucket:
  assumes "pid_ok st" and "i < length (pidhash st)" and "q \<in> set (pidhash st ! i)"
  shows "HASHPID st (pid_id q) = i"
  using assms unfolding pid_ok_def by blast

lemma pid_update_absent:
  assumes "pid_ok st" and "pid_lookup st p = None"
  shows "map (map (\<lambda>q. if pid_id q = p then f q else q)) (pidhash st) = pidhash st"
proof -
  have "pid_id q \<noteq> p" if c: "c \<in> set (pidhash st)" and q: "q \<in> set c" for c q
  proof
    assume "pid_id q = p"
    moreover obtain i where i: "i < length (pidhash st)" "c = pidhash st ! i"
      using c by (auto simp: in_set_conv_nth)
    ultimately have "HASHPID st p = i"
      using pid_ok_bucket [OF assms(1) i(1), of q] q by simp
    then show False
      using assms(2) i q \<open>pid_id q = p\<close>
      by (auto simp: pid_lookup_def pid_bucket_def find_None_iff)
  qed
  then show ?thesis
    by (intro map_idI) (auto intro!: map_idI)
qed

text \<open>
  Freeing the slot of an id that was just assigned and dropping its one reference
  gives back the table, the slots and the free list as they were; only the point from which
  the next search starts has moved on.
\<close>

lemma pid_assign_release:
  assumes "pid_ok st" and "procentfree st \<noteq> None"
    and "minpid st \<le> f" and "f < MAXPID" and "pid_lookup st f = None"
    and "pid_assign st prp = Some (Done (p, st1))"
  shows "\<exists>x st2. pid_lookup st1 p = Some x \<and> proc_entry_free st1 x = Done st2 \<and> prfind st2 p = None
    \<and> PID_RELE st2 p = Done (st\<lparr>mpid := p\<rparr>)"
proof -
  obtain pep where pep: "procentfree st = Some pep"
    using assms(2) by blast
  obtain p' nxt where p': "pid_assign st prp = Some (Done (p', pid_installed st prp pep nxt p'))"
    "pid_lookup st p' = None" "pep < length (procdir st)" "procdir st ! pep = Pe_next nxt"
    using pid_assign_steps [OF assms(1) pep assms(3-5)] by metis
  then have st1: "st1 = pid_installed st prp pep nxt p" "pid_lookup st p = None"
    using assms(6) by auto
  define x where "x = \<lparr>pid_prinactive = False, pid_prslot = pep, pid_id = p, pid_pglink = None, pid_ref = 1\<rparr>"
  define st2 where "st2 = st\<lparr>mpid := p, pidhash := (pidhash st)[HASHPID st p :=
    x\<lparr>pid_prinactive := True\<rparr> # pidhash st ! HASHPID st p]\<rparr>"
  have l1: "pid_lookup st1 p = Some x"
    by (simp add: st1 pid_installed_lookup [OF assms(1)] x_def)
  have dir: "(procdir st)[pep := Pe_proc prp, pep := Pe_next nxt] = procdir st"
    using p'(4) by (simp add: list_update_same_conv p'(3))
  have upd: "map (map (\<lambda>q. if pid_id q = p then q\<lparr>pid_prinactive := True\<rparr> else q))
      ((pidhash st)[HASHPID st p := x # pidhash st ! HASHPID st p]) =
      (pidhash st)[HASHPID st p := x\<lparr>pid_prinactive := True\<rparr> # pidhash st ! HASHPID st p]"
    (is "map (map ?g) _ = _")
  proof -
    have "map ?g (pidhash st ! HASHPID st p) = pidhash st ! HASHPID st p"
      using pid_update_absent [OF assms(1) st1(2), of "\<lambda>q. q\<lparr>pid_prinactive := True\<rparr>"]
        HASHPID_bound [OF assms(1), of p]
        nth_map [of "HASHPID st p" "pidhash st" "map ?g"] by simp
    then show ?thesis
      using pid_update_absent [OF assms(1) st1(2), of "\<lambda>q. q\<lparr>pid_prinactive := True\<rparr>"]
      by (simp add: map_update x_def)
  qed
  have e: "proc_entry_free st1 x = Done st2"
  proof -
    have f: "procdir st1 = (procdir st)[pep := Pe_proc prp]" "procentfree st1 = nxt"
      "pidhash st1 = (pidhash st)[HASHPID st p := x # pidhash st ! HASHPID st p]"
      by (simp_all add: st1 pid_installed_def x_def)
    have "pid_prslot x = pep" "pid_id x = p"
      by (simp_all add: x_def)
    then have "proc_entry_free st1 x = Done (st1
        \<lparr>pidhash := (pidhash st)[HASHPID st p := x\<lparr>pid_prinactive := True\<rparr> # pidhash st ! HASHPID st p],
         procdir := procdir st, procentfree := Some pep\<rparr>)"
      using p'(3) by (simp only: proc_entry_free_def pid_update_def f upd dir length_list_update if_True)
    then show ?thesis
      using pep by (simp add: st2_def st1(1) pid_installed_def)
  qed
  have b2: "pid_bucket st2 p = x\<lparr>pid_prinactive := True\<rparr> # pidhash st ! HASHPID st p" "HASHPID st2 = HASHPID st"
    using HASHPID_bound [OF assms(1), of p] by (simp_all add: st2_def pid_bucket_def HASHPID_def fun_eq_iff)
  then have l2: "pid_lookup st2 p = Some (x\<lparr>pid_prinactive := True\<rparr>)"
    by (simp add: pid_lookup_def x_def)
  from b2 have "PID_RELE st2 p = Done (st\<lparr>mpid := p\<rparr>)"
    using l2 by (simp add: PID_RELE_def pid_rele_def x_def) (simp add: st2_def)
  moreover have "prfind st2 p = None"
    using l2 by (simp add: prfind_def)
  ultimately show ?thesis
    using l1 e by blast
qed

lemma pid_assign_release_witness:
  "\<exists>p st1 x st2. pid_assign pid_demo 5 = Some (Done (p, st1)) \<and> proc_entry_free st1 x = Done st2
     \<and> PID_RELE st2 p = Done (pid_demo\<lparr>mpid := p\<rparr>)"
proof -
  have f: "pid_lookup pid_demo 7 = None" "procentfree pid_demo \<noteq> None" "minpid pid_demo \<le> 7" "7 < MAXPID"
    by (simp_all add: pid_lookup_def pid_bucket_def pid_demo_def HASHPID_def pid0_def)
  obtain p nxt where "pid_assign pid_demo 5 = Some (Done (p, pid_installed pid_demo 5 1 nxt p))"
    using pid_assign_steps [OF pid_demo_ok _ f(3,4,1)] by (metis pid_demo_def pidstate.select_convs(5))
  then show ?thesis
    using pid_assign_release [OF pid_demo_ok f(2,3,4,1)] by blast
qed

end
