(* ===== verification/Upcount.thy ===== *)
theory Upcount
  imports Bitmap
begin

unbundle bit_operations_syntax

text \<open>
  The number of processes each user has, the \<^verbatim>\<open>upcount\<close> part of \<^verbatim>\<open>uts/common/os/pid.c\<close>: a
  hash table of chains, one entry per user with at least one process. The interface its
  callers rely on is the locale \<open>user_counts\<close>; the table is an interpretation of it.
\<close>

section \<open>State and operations\<close>

record upcount =
  up_uid :: int
  up_count :: ulong

text \<open>\<^verbatim>\<open>upc_hash\<close> is the list of the chains, in the order of the links.\<close>

record upc_table =
  upc_hash :: "upcount list list"
  upc_hashmask :: "32 word"

definition UPC_HASH :: "upc_table \<Rightarrow> int \<Rightarrow> nat" where
  "UPC_HASH t uid = unat ((word_of_int uid :: 32 word) AND upc_hashmask t)"

text \<open>\<open>physmem\<close> is in pages; the allocation of the table may fail.\<close>

definition upcount_init :: "32 word \<Rightarrow> bool \<Rightarrow> upc_table outcome" where
  "upcount_init physmem kmem_ok =
     (let upc_hashsize = push_bit (highbit (drop_bit 8 physmem)) (1 :: 32 word)
      in if kmem_ok
         then Done \<lparr>upc_hash = replicate (unat upc_hashsize) [], upc_hashmask = upc_hashsize - 1\<rparr>
         else Panic)"

text \<open>The search of a chain, up to the entry of the user: the chain with its count raised.\<close>

fun upc_bump :: "int \<Rightarrow> upcount list \<Rightarrow> upcount list option" where
  "upc_bump uid [] = None"
| "upc_bump uid (u # us) =
     (if up_uid u = uid then Some (u\<lparr>up_count := uadd (up_count u) 1\<rparr> # us)
      else map_option ((#) u) (upc_bump uid us))"

definition upc_chain :: "upc_table \<Rightarrow> int \<Rightarrow> upcount list outcome" where
  "upc_chain t uid =
     (if UPC_HASH t uid < length (upc_hash t) then Done (upc_hash t ! UPC_HASH t uid) else Overrun)"

definition upc_store :: "upc_table \<Rightarrow> int \<Rightarrow> upcount list \<Rightarrow> upc_table" where
  "upc_store t uid c = t\<lparr>upc_hash := (upc_hash t)[UPC_HASH t uid := c]\<rparr>"

text \<open>
  \<open>kmem_ok\<close>: whether the allocation under the lock succeeds. When it does not, the lock is
  dropped and other threads may run: \<open>others\<close> is what they do to the table before the
  search is repeated.
\<close>

definition upcount_inc :: "bool \<Rightarrow> (upc_table \<Rightarrow> upc_table) \<Rightarrow> int \<Rightarrow> upc_table \<Rightarrow> upc_table outcome" where
  "upcount_inc kmem_ok others uid t =
     bind_outcome (upc_chain t uid) (\<lambda>c.
       case upc_bump uid c of
         Some c' \<Rightarrow> Done (upc_store t uid c')
       | None \<Rightarrow>
           if kmem_ok then Done (upc_store t uid (\<lparr>up_uid = uid, up_count = 1\<rparr> # c))
           else
             let t' = others t
             in bind_outcome (upc_chain t' uid) (\<lambda>c.
                  case upc_bump uid c of
                    Some c' \<Rightarrow> Done (upc_store t' uid c')
                  | None \<Rightarrow> Done (upc_store t' uid (\<lparr>up_uid = uid, up_count = 1\<rparr> # c))))"

fun upc_drop :: "int \<Rightarrow> upcount list \<Rightarrow> upcount list option" where
  "upc_drop uid [] = None"
| "upc_drop uid (u # us) =
     (if up_uid u = uid then
        let u' = u\<lparr>up_count := usub (up_count u) 1\<rparr>
        in Some (if up_count u' = 0 then us else u' # us)
      else map_option ((#) u) (upc_drop uid us))"

definition upcount_dec :: "int \<Rightarrow> upc_table \<Rightarrow> upc_table outcome" where
  "upcount_dec uid t =
     bind_outcome (upc_chain t uid) (\<lambda>c.
       case upc_drop uid c of Some c' \<Rightarrow> Done (upc_store t uid c') | None \<Rightarrow> Panic)"

fun upc_find :: "int \<Rightarrow> upcount list \<Rightarrow> ulong" where
  "upc_find uid [] = 0"
| "upc_find uid (u # us) = (if up_uid u = uid then up_count u else upc_find uid us)"

definition upcount_get :: "int \<Rightarrow> upc_table \<Rightarrow> ulong outcome" where
  "upcount_get uid t = bind_outcome (upc_chain t uid) (\<lambda>c. Done (upc_find uid c))"

section \<open>The interface\<close>

text \<open>
  What a caller may rely on: \<open>count\<close> is the number of processes of a user. \<open>room\<close> says
  that a count can still be raised.
\<close>

locale user_counts =
  fixes inc dec :: "int \<Rightarrow> 't \<Rightarrow> 't outcome"
    and get :: "int \<Rightarrow> 't \<Rightarrow> nat outcome"
    and invar :: "'t \<Rightarrow> bool"
    and count :: "'t \<Rightarrow> int \<Rightarrow> nat"
    and room :: "nat \<Rightarrow> bool"
  assumes get_count: "invar t \<Longrightarrow> get u t = Done (count t u)"
    and inc_count: "invar t \<Longrightarrow> room (count t u) \<Longrightarrow>
      \<exists>t'. inc u t = Done t' \<and> invar t' \<and> count t' = (count t)(u := count t u + 1)"
    and dec_count: "invar t \<Longrightarrow> 0 < count t u \<Longrightarrow>
      \<exists>t'. dec u t = Done t' \<and> invar t' \<and> count t' = (count t)(u := count t u - 1)"
    and dec_panic: "invar t \<Longrightarrow> count t u = 0 \<Longrightarrow> dec u t = Panic"
begin

text \<open>A process changes its owner: the two counts change, and no other.\<close>

lemma move_count:
  assumes "invar t" and "0 < count t u" and "room (count t v)" and "u \<noteq> v"
  shows "\<exists>t' t''. dec u t = Done t' \<and> inc v t' = Done t'' \<and> invar t''
    \<and> count t'' = (count t)(u := count t u - 1, v := count t v + 1)"
proof -
  obtain t' where t': "dec u t = Done t'" "invar t'" "count t' = (count t)(u := count t u - 1)"
    using dec_count [OF assms(1,2)] by blast
  moreover have "room (count t' v)"
    using t'(3) assms(3,4) by simp
  ultimately show ?thesis
    using inc_count [OF t'(2), of v] assms(4) by auto
qed

lemma inc_dec_inverse:
  assumes "invar t" and "room (count t u)"
  shows "\<exists>t' t''. inc u t = Done t' \<and> dec u t' = Done t'' \<and> invar t'' \<and> count t'' = count t"
proof -
  obtain t' where t': "inc u t = Done t'" "invar t'" "count t' = (count t)(u := count t u + 1)"
    using inc_count [OF assms] by blast
  then show ?thesis
    using dec_count [OF t'(2), of u] by fastforce
qed

end

section \<open>The table implements it\<close>

definition chain_ok :: "upcount list \<Rightarrow> bool" where
  "chain_ok c \<longleftrightarrow> distinct (map up_uid c) \<and> (\<forall>u\<in>set c. 0 < up_count u \<and> up_count u < 2 ^ 32)"

definition upc_ok :: "upc_table \<Rightarrow> bool" where
  "upc_ok t \<longleftrightarrow> length (upc_hash t) = unat (upc_hashmask t) + 1 \<and> (\<forall>c\<in>set (upc_hash t). chain_ok c)"

definition upc_count :: "upc_table \<Rightarrow> int \<Rightarrow> nat" where
  "upc_count t uid = upc_find uid (upc_hash t ! UPC_HASH t uid)"

lemma UPC_HASH_bound:
  assumes "upc_ok t"
  shows "UPC_HASH t uid < length (upc_hash t)"
proof -
  have "(word_of_int uid :: 32 word) AND upc_hashmask t \<le> upc_hashmask t"
    by (simp add: word_and_le1)
  then show ?thesis
    using assms by (simp add: upc_ok_def UPC_HASH_def word_le_nat_alt)
qed

lemma upc_chain_Done:
  assumes "upc_ok t"
  shows "upc_chain t uid = Done (upc_hash t ! UPC_HASH t uid)"
  by (simp add: upc_chain_def UPC_HASH_bound [OF assms])

lemma upc_find_zero:
  assumes "chain_ok c"
  shows "upc_find uid c = 0 \<longleftrightarrow> uid \<notin> up_uid ` set c"
  using assms by (induction c) (auto simp: chain_ok_def)

lemma upc_find_bound:
  assumes "chain_ok c"
  shows "upc_find uid c < 2 ^ 32"
  using assms by (induction c) (auto simp: chain_ok_def)

lemma upc_bump_None: "upc_bump uid c = None \<longleftrightarrow> uid \<notin> up_uid ` set c"
  by (induction c) auto

lemma upc_drop_None: "upc_drop uid c = None \<longleftrightarrow> uid \<notin> up_uid ` set c"
  by (induction c) (auto simp: Let_def)

lemma upc_bump_uids: "upc_bump uid c = Some c' \<Longrightarrow> map up_uid c' = map up_uid c"
  by (induction c arbitrary: c') (auto split: if_splits)

lemma upc_bump_chain:
  assumes "chain_ok c" and "upc_bump uid c = Some c'" and "upc_find uid c + 1 < 2 ^ 32"
  shows "chain_ok c' \<and> upc_find v c' = (if v = uid then upc_find uid c + 1 else upc_find v c)"
proof -
  have "(\<forall>u\<in>set c'. 0 < up_count u \<and> up_count u < 2 ^ 32)
    \<and> upc_find v c' = (if v = uid then upc_find uid c + 1 else upc_find v c)"
    using assms
  proof (induction c arbitrary: c')
    case (Cons u us)
    have us: "chain_ok us" "0 < up_count u" "up_count u < 2 ^ 32" "\<forall>x\<in>set us. 0 < up_count x \<and> up_count x < 2 ^ 32"
      using Cons.prems(1) by (simp_all add: chain_ok_def)
    show ?case
    proof (cases "up_uid u = uid")
      case True
      then show ?thesis
        using us Cons.prems(2,3) by auto
    next
      case False
      then obtain us' where us': "upc_bump uid us = Some us'" "c' = u # us'"
        using Cons.prems(2) by auto
      then show ?thesis
        using Cons.IH [OF us(1) us'(1)] False us Cons.prems(3) by auto
    qed
  qed simp
  moreover have "distinct (map up_uid c')"
    using assms(1) upc_bump_uids [OF assms(2)] by (simp add: chain_ok_def)
  ultimately show ?thesis
    by (simp add: chain_ok_def)
qed

lemma upc_drop_chain:
  assumes "chain_ok c" and "upc_drop uid c = Some c'"
  shows "chain_ok c' \<and> upc_find v c' = (if v = uid then upc_find uid c - 1 else upc_find v c)
    \<and> up_uid ` set c' \<subseteq> up_uid ` set c"
  using assms
proof (induction c arbitrary: c')
  case (Cons u us)
  have us: "chain_ok us" "up_uid u \<notin> up_uid ` set us" "0 < up_count u" "up_count u < 2 ^ 32"
    using Cons.prems(1) by (auto simp: chain_ok_def)
  show ?case
  proof (cases "up_uid u = uid")
    case True
    then have "upc_find uid us = 0"
      using us by (simp add: upc_find_zero)
    then show ?thesis
      using True us Cons.prems(2) by (auto simp: chain_ok_def Let_def split: if_splits)
  next
    case False
    then obtain us' where us': "upc_drop uid us = Some us'" "c' = u # us'"
      using Cons.prems(2) by auto
    then show ?thesis
      using Cons.IH [OF us(1) us'(1)] False us by (auto simp: chain_ok_def)
  qed
qed simp

lemma upc_store_ok:
  assumes "upc_ok t" and "chain_ok c"
  shows "upc_ok (upc_store t uid c)"
  using assms by (auto simp: upc_ok_def upc_store_def dest!: set_update_subset_insert [THEN subsetD])

lemma upc_store_count:
  assumes "upc_ok t"
    and "\<And>v. upc_find v c = (if v = uid then n else upc_find v (upc_hash t ! UPC_HASH t uid))"
  shows "upc_count (upc_store t uid c) = (upc_count t)(uid := n)"
proof
  fix v
  show "upc_count (upc_store t uid c) v = ((upc_count t)(uid := n)) v"
    using assms(2) UPC_HASH_bound [OF assms(1)]
    by (auto simp: upc_count_def upc_store_def UPC_HASH_def nth_list_update)
qed

lemma upc_chain_ok:
  assumes "upc_ok t"
  shows "chain_ok (upc_hash t ! UPC_HASH t uid)"
  using assms UPC_HASH_bound [OF assms] by (simp add: upc_ok_def)

text \<open>
  The second half of \<open>upcount_inc\<close>: a search that finds the user, or puts a new entry in front. The
  first half is the same when memory can be had under the lock.
\<close>

lemma upc_raise:
  assumes "upc_ok t" and "upc_count t uid + 1 < 2 ^ 32"
  shows "\<exists>t'. bind_outcome (upc_chain t uid) (\<lambda>c.
      case upc_bump uid c of
        Some c' \<Rightarrow> Done (upc_store t uid c')
      | None \<Rightarrow> Done (upc_store t uid (\<lparr>up_uid = uid, up_count = 1\<rparr> # c))) = Done t' \<and> upc_ok t'
    \<and> upc_count t' = (upc_count t)(uid := upc_count t uid + 1)"
proof -
  let ?c = "upc_hash t ! UPC_HASH t uid"
  note c = upc_chain_ok [OF assms(1), of uid]
  show ?thesis
  proof (cases "upc_bump uid ?c")
    case None
    then have z: "upc_find uid ?c = 0" "uid \<notin> up_uid ` set ?c"
      using c by (simp_all add: upc_find_zero upc_bump_None)
    let ?c' = "\<lparr>up_uid = uid, up_count = 1\<rparr> # ?c"
    have "chain_ok ?c'"
      using c z(2) by (auto simp: chain_ok_def)
    moreover have "upc_count (upc_store t uid ?c') = (upc_count t)(uid := upc_count t uid + 1)"
      using z(1) by (intro upc_store_count [OF assms(1)]) (simp add: upc_count_def)
    ultimately show ?thesis
      using None assms(1) by (simp add: upc_chain_Done upc_store_ok)
  next
    case (Some c')
    then have "chain_ok c'" "\<And>v. upc_find v c' = (if v = uid then upc_find uid ?c + 1 else upc_find v ?c)"
      using upc_bump_chain [OF c Some] assms(2) by (simp_all add: upc_count_def)
    then show ?thesis
      using Some assms(1) upc_store_count [OF assms(1), of c' uid "upc_count t uid + 1"]
      by (simp add: upc_chain_Done upc_store_ok upc_count_def)
  qed
qed

text \<open>
  The table whose count is raised: the one found, unless the user has no entry and the allocation has to
  sleep; then the one the others leave.
\<close>

definition raised_table :: "bool \<Rightarrow> (upc_table \<Rightarrow> upc_table) \<Rightarrow> int \<Rightarrow> upc_table \<Rightarrow> upc_table" where
  "raised_table kmem_ok others uid t = (if kmem_ok \<or> 0 < upc_count t uid then t else others t)"

lemma upcount_inc_raises:
  assumes ok: "upc_ok t" and "upc_ok (raised_table kmem_ok others uid t)"
    and "upc_count (raised_table kmem_ok others uid t) uid + 1 < 2 ^ 32"
  shows "\<exists>t'. upcount_inc kmem_ok others uid t = Done t' \<and> upc_ok t'
    \<and> upc_count t' = (upc_count (raised_table kmem_ok others uid t))
        (uid := upc_count (raised_table kmem_ok others uid t) uid + 1)"
proof (cases "upc_bump uid (upc_hash t ! UPC_HASH t uid)")
  case None
  then have "upc_count t uid = 0"
    using upc_chain_ok [OF ok, of uid] by (simp add: upc_count_def upc_find_zero upc_bump_None)
  then have which: "raised_table kmem_ok others uid t = (if kmem_ok then t else others t)"
    by (simp add: raised_table_def)
  show ?thesis
  proof (cases kmem_ok)
    case True
    then have w: "raised_table kmem_ok others uid t = t" using which by simp
    from upc_raise [OF assms(2,3)] None ok True show ?thesis
      unfolding w by (simp add: upcount_inc_def upc_chain_Done)
  next
    case False
    then have w: "raised_table kmem_ok others uid t = others t" using which by simp
    from upc_raise [OF assms(2,3)] None ok False show ?thesis
      unfolding w by (simp add: upcount_inc_def upc_chain_Done Let_def)
  qed
next
  case (Some c')
  then have "uid \<in> up_uid ` set (upc_hash t ! UPC_HASH t uid)"
    using upc_bump_None [of uid "upc_hash t ! UPC_HASH t uid"] by simp
  then have "upc_count t uid \<noteq> 0"
    using upc_find_zero [OF upc_chain_ok [OF ok, of uid]] by (simp add: upc_count_def)
  then have which: "raised_table kmem_ok others uid t = t"
    by (simp add: raised_table_def)
  from upc_raise [OF assms(2,3)] show ?thesis
    unfolding which using Some ok by (simp add: upcount_inc_def upc_chain_Done)
qed

lemma upcount_inc_count:
  assumes "upc_ok t" and "upc_count t uid + 1 < 2 ^ 32"
  shows "\<exists>t'. upcount_inc kmem_ok (\<lambda>t. t) uid t = Done t' \<and> upc_ok t'
    \<and> upc_count t' = (upc_count t)(uid := upc_count t uid + 1)"
  using upcount_inc_raises [of t kmem_ok "\<lambda>t. t" uid] assms by (simp add: raised_table_def)

lemma upcount_dec_count:
  assumes "upc_ok t"
  shows "if upc_count t uid = 0 then upcount_dec uid t = Panic
    else \<exists>t'. upcount_dec uid t = Done t' \<and> upc_ok t' \<and> upc_count t' = (upc_count t)(uid := upc_count t uid - 1)"
proof -
  let ?c = "upc_hash t ! UPC_HASH t uid"
  note c = upc_chain_ok [OF assms, of uid]
  show ?thesis
  proof (cases "upc_drop uid ?c")
    case None
    then have "upc_count t uid = 0"
      using c by (simp add: upc_count_def upc_find_zero upc_drop_None)
    then show ?thesis
      using None assms by (simp add: upcount_dec_def upc_chain_Done)
  next
    case (Some c')
    then have "upc_count t uid \<noteq> 0"
      using c upc_drop_None [of uid ?c] by (simp add: upc_count_def upc_find_zero)
    moreover have "chain_ok c'" "\<And>v. upc_find v c' = (if v = uid then upc_find uid ?c - 1 else upc_find v ?c)"
      using upc_drop_chain [OF c Some] by simp_all
    ultimately show ?thesis
      using Some assms upc_store_count [OF assms, of c' uid "upc_count t uid - 1"]
      by (simp add: upcount_dec_def upc_chain_Done upc_store_ok upc_count_def)
  qed
qed

interpretation upc: user_counts "upcount_inc kmem_ok (\<lambda>t. t)" upcount_dec upcount_get upc_ok upc_count
  "\<lambda>n. n + 1 < 2 ^ 32" for kmem_ok
proof
  show "upcount_get u t = Done (upc_count t u)" if "upc_ok t" for t u
    using that by (simp add: upcount_get_def upc_chain_Done upc_count_def)
  show "\<exists>t'. upcount_inc kmem_ok (\<lambda>t. t) u t = Done t' \<and> upc_ok t'
      \<and> upc_count t' = (upc_count t)(u := upc_count t u + 1)"
    if "upc_ok t" "upc_count t u + 1 < 2 ^ 32" for t u
    using that by (rule upcount_inc_count)
  show "\<exists>t'. upcount_dec u t = Done t' \<and> upc_ok t' \<and> upc_count t' = (upc_count t)(u := upc_count t u - 1)"
    if "upc_ok t" "0 < upc_count t u" for t u
    using upcount_dec_count [OF that(1), of u] that(2) by simp
  show "upcount_dec u t = Panic" if "upc_ok t" "upc_count t u = 0" for t u
    using upcount_dec_count [OF that(1), of u] that(2) by simp
qed

lemma upcount_init_empty:
  assumes "upcount_init physmem True = Done t"
  shows "upc_ok t" and "upc_count t uid = 0"
proof -
  define k where "k = highbit (drop_bit 8 physmem)"
  have "k < 32"
  proof (cases "drop_bit 8 physmem = 0")
    case True
    then show ?thesis by (simp add: k_def highbit_def)
  next
    case False
    then have "bit (drop_bit 8 physmem) (k - 1)"
      using highbit_bits [of "drop_bit 8 physmem"] by (simp add: k_def)
    then have "bit physmem (8 + (k - 1))"
      by (simp add: bit_simps)
    from bit_imp_le_length [OF this] show ?thesis by simp
  qed
  have t: "t = \<lparr>upc_hash = replicate (unat (2 ^ k :: 32 word)) [], upc_hashmask = 2 ^ k - 1\<rparr>"
    using assms by (simp add: upcount_init_def Let_def k_def)
  have "unat (of_nat (2 ^ k) :: 32 word) = 2 ^ k"
    unfolding unat_of_nat using \<open>k < 32\<close> power_strict_increasing [of k 32 "2 :: nat"] by simp
  then have u1: "unat (2 ^ k :: 32 word) = 2 ^ k"
    by simp
  then have "(2 :: 32 word) ^ k \<noteq> 0"
    by (metis power_not_zero unat_0 zero_neq_numeral)
  with u1 have u: "unat (2 ^ k :: 32 word) = 2 ^ k" "unat (2 ^ k - 1 :: 32 word) = 2 ^ k - 1"
    by (simp_all add: unat_minus_one)
  show "upc_ok t"
    by (simp add: t upc_ok_def u chain_ok_def)
  from UPC_HASH_bound [OF this, of uid] show "upc_count t uid = 0"
    by (simp add: upc_count_def) (simp add: t)
qed

text \<open>
  C37. The table that \<open>upcount_init\<close> makes from any amount of memory counts nobody. On any well-formed
  table lowering a count that is 0 panics, and otherwise lowers that count by 1 and no other;
  raising a count raises it by 1 and no other. If the user has no entry and the allocation has to sleep with the
  lock dropped, the count is raised in the table as the others leave it, by a second search: the
  entry that others may have made is used.
\<close>

theorem upcount_move:
  assumes "upcount_init physmem True = Done t0"
    and "upc_ok t" and "upc_ok (others t)"
    and "upc_count t v + 1 < 2 ^ 32" and "upc_count (others t) v + 1 < 2 ^ 32"
  shows "upc_ok t0 \<and> upcount_get w t0 = Done 0 \<and> upcount_get w t = Done (upc_count t w)
    \<and> (if upc_count t u = 0 then upcount_dec u t = Panic
       else \<exists>t'. upcount_dec u t = Done t' \<and> upc_ok t' \<and> upc_count t' = (upc_count t)(u := upc_count t u - 1))
    \<and> (\<exists>t'. upcount_inc kmem_ok others v t = Done t' \<and> upc_ok t'
         \<and> upc_count t' = (if kmem_ok \<or> 0 < upc_count t v then (upc_count t)(v := upc_count t v + 1)
             else (upc_count (others t))(v := upc_count (others t) v + 1)))"
proof -
  have "\<exists>t'. upcount_inc kmem_ok others v t = Done t' \<and> upc_ok t'
      \<and> upc_count t' = (if kmem_ok \<or> 0 < upc_count t v then (upc_count t)(v := upc_count t v + 1)
          else (upc_count (others t))(v := upc_count (others t) v + 1))"
    using upcount_inc_raises [of t kmem_ok others v] assms(2-5) by (auto simp: raised_table_def)
  moreover have "upcount_get w t0 = Done 0" "upcount_get w t = Done (upc_count t w)"
    using upcount_init_empty [OF assms(1)] upc.get_count assms(2) by auto
  ultimately show ?thesis
    using upcount_init_empty(1) [OF assms(1)] upcount_dec_count [OF assms(2), of u] by blast
qed

definition upc_demo :: upc_table where
  "upc_demo = \<lparr>upc_hash = [[\<lparr>up_uid = 4, up_count = 2\<rparr>], []], upc_hashmask = 1\<rparr>"

text \<open>While the allocation for user 7 sleeps, user 7 gets a first process.\<close>

definition upc_demo2 :: upc_table where
  "upc_demo2 = \<lparr>upc_hash = [[\<lparr>up_uid = 4, up_count = 2\<rparr>], [\<lparr>up_uid = 7, up_count = 1\<rparr>]], upc_hashmask = 1\<rparr>"

theorem upcount_move_witness:
  "\<exists>t'. upcount_inc False (\<lambda>_. upc_demo2) 7 upc_demo = Done t' \<and> upc_count t' 7 = 2 \<and> upc_count t' 4 = 2
     \<and> upcount_dec 7 upc_demo = Panic"
proof -
  have "upc_ok upc_demo" "upc_ok upc_demo2" "upc_count upc_demo 7 = 0"
      "upc_count upc_demo2 7 = 1" "upc_count upc_demo2 4 = 2"
    by (simp_all add: upc_ok_def upc_demo_def upc_demo2_def chain_ok_def upc_count_def UPC_HASH_def)
  moreover have "upcount_init 4096 True = Done \<lparr>upc_hash = replicate 32 [], upc_hashmask = 31\<rparr>"
  proof -
    have "highbit 16 = 5" by code_simp
    then show ?thesis by (simp add: upcount_init_def)
  qed
  ultimately show ?thesis
    using upcount_move [of 4096 _ upc_demo "\<lambda>_. upc_demo2" 7 0 7 False] by auto
qed

end
