(* ===== verification/Cred.thy ===== *)
theory Cred
  imports Upcount
begin

text \<open>
  Credentials, \<^verbatim>\<open>uts/common/os/cred.c\<close>. Credentials are shared and reference counted: a heap
  maps addresses to them, and the process, each of its threads and holders elsewhere point
  into it. The state is that of one process with its current thread and the others; a use of
  a freed credential yields \<open>Overrun\<close>.
\<close>

section \<open>State\<close>

record cred =
  cr_ref :: ulong
  cr_uid :: int
  cr_gid :: int
  cr_ruid :: int
  cr_rgid :: int
  cr_suid :: int
  cr_sgid :: int
  cr_ngroups :: nat
  cr_groups :: "int list"

record kthread =
  t_cred :: nat
  t_pre_sys :: bool

text \<open>
  \<open>c_brk\<close> is the next address the allocator hands out; addresses are not used twice, which
  only means that what it returns is in use by nobody. \<open>c_upc\<close> is the table of processes
  per user and \<open>c_asu\<close> the accounting flag \<^verbatim>\<open>ASU\<close>.
\<close>

record cstate =
  c_heap :: "nat \<Rightarrow> cred option"
  c_brk :: nat
  c_kcred :: nat
  c_pcred :: nat
  c_curthread :: kthread
  c_others :: "kthread list"
  c_upc :: upc_table
  c_asu :: bool

definition cr_at :: "cstate \<Rightarrow> nat \<Rightarrow> cred outcome" where
  "cr_at st a = (case c_heap st a of Some cr \<Rightarrow> Done cr | None \<Rightarrow> Overrun)"

definition cr_put :: "cstate \<Rightarrow> nat \<Rightarrow> cred \<Rightarrow> cstate" where
  "cr_put st a cr = st\<lparr>c_heap := (c_heap st)(a \<mapsto> cr)\<rparr>"

section \<open>Allocation and reference counts\<close>

definition zero_cred :: "nat \<Rightarrow> cred" where
  "zero_cred ngroups_max =
     \<lparr>cr_ref = 0, cr_uid = 0, cr_gid = 0, cr_ruid = 0, cr_rgid = 0, cr_suid = 0, cr_sgid = 0,
      cr_ngroups = 0, cr_groups = replicate ngroups_max 0\<rparr>"

definition crget :: "nat \<Rightarrow> cstate \<Rightarrow> nat \<times> cstate" where
  "crget ngroups_max st =
     (let cr = c_brk st;
          st = st\<lparr>c_brk := cr + 1\<rparr>
      in (cr, cr_put st cr ((zero_cred ngroups_max)\<lparr>cr_ref := 1\<rparr>)))"

text \<open>The kernel's own credential, which process 0 runs with.\<close>

definition cred_init :: "nat \<Rightarrow> cstate \<Rightarrow> cstate" where
  "cred_init ngroups_max st =
     (let (kcred, st) = crget ngroups_max st
      in st\<lparr>c_kcred := kcred, c_pcred := kcred, c_curthread := (c_curthread st)\<lparr>t_cred := kcred\<rparr>\<rparr>)"

definition crhold :: "cstate \<Rightarrow> nat \<Rightarrow> cstate outcome" where
  "crhold st a = bind_outcome (cr_at st a) (\<lambda>cr. Done (cr_put st a (cr\<lparr>cr_ref := uadd (cr_ref cr) 1\<rparr>)))"

definition crfree :: "cstate \<Rightarrow> nat \<Rightarrow> cstate outcome" where
  "crfree st a =
     bind_outcome (cr_at st a) (\<lambda>cr.
       let cr = cr\<lparr>cr_ref := usub (cr_ref cr) 1\<rparr>
       in if cr_ref cr > 0 then Done (cr_put st a cr)
          else if a = c_kcred st then Panic
          else Done (st\<lparr>c_heap := (c_heap st)(a := None)\<rparr>))"

definition crcopy_to :: "cstate \<Rightarrow> nat \<Rightarrow> nat \<Rightarrow> cstate outcome" where
  "crcopy_to st oldcr newcr =
     bind_outcome (cr_at st oldcr) (\<lambda>old.
     bind_outcome (cr_at st newcr) (\<lambda>_.
     bind_outcome (crfree (cr_put st newcr old) oldcr) (\<lambda>st.
     bind_outcome (cr_at st newcr) (\<lambda>new.
       Done (cr_put st newcr (new\<lparr>cr_ref := 2\<rparr>))))))"

definition crcopy :: "nat \<Rightarrow> cstate \<Rightarrow> nat \<Rightarrow> (nat \<times> cstate) outcome" where
  "crcopy ngroups_max st cr =
     (let (newcr, st) = crget ngroups_max st
      in bind_outcome (crcopy_to st cr newcr) (\<lambda>st. Done (newcr, st)))"

definition crdup_to :: "cstate \<Rightarrow> nat \<Rightarrow> nat \<Rightarrow> cstate outcome" where
  "crdup_to st oldcr newcr =
     bind_outcome (cr_at st oldcr) (\<lambda>old.
     bind_outcome (cr_at st newcr) (\<lambda>_.
       Done (cr_put st newcr (old\<lparr>cr_ref := 1\<rparr>))))"

definition crdup :: "nat \<Rightarrow> cstate \<Rightarrow> nat \<Rightarrow> (nat \<times> cstate) outcome" where
  "crdup ngroups_max st cr =
     (let (newcr, st) = crget ngroups_max st
      in bind_outcome (crdup_to st cr newcr) (\<lambda>st. Done (newcr, st)))"

text \<open>The current thread changes over at once, the others before their next system call.\<close>

definition crset :: "cstate \<Rightarrow> nat \<Rightarrow> cstate outcome" where
  "crset st cr =
     bind_outcome (crfree st (t_cred (c_curthread st))) (\<lambda>st.
       let st = st\<lparr>c_curthread := (c_curthread st)\<lparr>t_cred := cr\<rparr>\<rparr>
       in Done (if 1 + length (c_others st) > 1
                then st\<lparr>c_others := map (\<lambda>t. t\<lparr>t_pre_sys := True\<rparr>) (c_others st)\<rparr>
                else st))"

definition crgetcred :: "cstate \<Rightarrow> (nat \<times> cstate) outcome" where
  "crgetcred st = bind_outcome (crhold st (c_pcred st)) (\<lambda>st. Done (c_pcred st, st))"

section \<open>Tests\<close>

definition suser :: "cstate \<Rightarrow> cred \<Rightarrow> bool \<times> cstate" where
  "suser st cr = (if cr_uid cr = 0 then (True, st\<lparr>c_asu := True\<rparr>) else (False, st))"

definition groupmember :: "int \<Rightarrow> cred \<Rightarrow> bool" where
  "groupmember gid cr \<longleftrightarrow> gid = cr_gid cr \<or> (\<exists>i\<in>{..<cr_ngroups cr}. cr_groups cr ! i = gid)"

definition hasprocperm :: "cred \<Rightarrow> cred \<Rightarrow> bool" where
  "hasprocperm tcrp scrp \<longleftrightarrow>
     cr_uid scrp = 0 \<or> cr_uid scrp = cr_ruid tcrp \<or> cr_ruid scrp = cr_ruid tcrp
     \<or> cr_uid scrp = cr_suid tcrp \<or> cr_ruid scrp = cr_suid tcrp"

text \<open>0 when the two credentials name the same user.\<close>

definition crcmp :: "cstate \<Rightarrow> nat \<Rightarrow> nat \<Rightarrow> int outcome" where
  "crcmp st a1 a2 =
     (if a1 = a2 then Done 0
      else
        bind_outcome (cr_at st a1) (\<lambda>cr1.
        bind_outcome (cr_at st a2) (\<lambda>cr2.
          Done (if cr_uid cr1 = cr_uid cr2 \<and> cr_gid cr1 = cr_gid cr2 \<and> cr_ruid cr1 = cr_ruid cr2
                   \<and> cr_rgid cr1 = cr_rgid cr2 \<and> cr_ngroups cr1 = cr_ngroups cr2
                then (if take (cr_ngroups cr1) (cr_groups cr1) = take (cr_ngroups cr1) (cr_groups cr2)
                      then 0 else 1)
                else 1))))"

section \<open>Reference counts are right\<close>

text \<open>
  The holders of a credential: the process, its threads, and whoever else (\<open>ext\<close>) holds
  it, other processes, open files and the kernel itself.
\<close>

definition holders :: "(nat \<Rightarrow> nat) \<Rightarrow> cstate \<Rightarrow> nat \<Rightarrow> nat" where
  "holders ext st a =
     (if c_pcred st = a then 1 else 0) + (if t_cred (c_curthread st) = a then 1 else 0)
     + length (filter (\<lambda>t. t_cred t = a) (c_others st)) + ext a"

definition refs_ok :: "(nat \<Rightarrow> nat) \<Rightarrow> cstate \<Rightarrow> bool" where
  "refs_ok ext st \<longleftrightarrow>
     (\<forall>a. case c_heap st a of
            None \<Rightarrow> holders ext st a = 0
          | Some cr \<Rightarrow> 0 < holders ext st a \<and> cr_ref cr = holders ext st a \<and> cr_ref cr < 2 ^ 32)
     \<and> (\<forall>a\<ge>c_brk st. c_heap st a = None) \<and> 0 < ext (c_kcred st)"

text \<open>One reference less.\<close>

definition unref :: "(nat \<Rightarrow> cred option) \<Rightarrow> nat \<Rightarrow> (nat \<Rightarrow> cred option)" where
  "unref h a =
     (case h a of
        None \<Rightarrow> h
      | Some cr \<Rightarrow> if cr_ref cr = 1 then h(a := None) else h(a \<mapsto> cr\<lparr>cr_ref := cr_ref cr - 1\<rparr>))"

lemma crfree_unref:
  assumes "c_heap st a = Some cr" and "0 < cr_ref cr" and "cr_ref cr < 2 ^ 32"
    and "cr_ref cr = 1 \<Longrightarrow> a \<noteq> c_kcred st"
  shows "crfree st a = Done (st\<lparr>c_heap := unref (c_heap st) a\<rparr>)"
  using assms by (auto simp: crfree_def cr_at_def unref_def cr_put_def Let_def)

definition refs :: "(nat \<Rightarrow> cred option) \<Rightarrow> nat \<Rightarrow> nat" where
  "refs h a = (case h a of None \<Rightarrow> 0 | Some cr \<Rightarrow> cr_ref cr)"

definition live :: "(nat \<Rightarrow> cred option) \<Rightarrow> bool" where
  "live h \<longleftrightarrow> (\<forall>a cr. h a = Some cr \<longrightarrow> 0 < cr_ref cr \<and> cr_ref cr < 2 ^ 32)"

lemma refs_ok_alt:
  "refs_ok ext st \<longleftrightarrow> live (c_heap st) \<and> refs (c_heap st) = holders ext st
     \<and> (\<forall>a\<ge>c_brk st. c_heap st a = None) \<and> 0 < ext (c_kcred st)"
  by (auto simp: refs_ok_def live_def refs_def fun_eq_iff split: option.splits)

lemma refs_unref:
  assumes "live h"
  shows "refs (unref h x) a = refs h a - (if a = x then 1 else 0)" and "live (unref h x)"
proof -
  show "refs (unref h x) a = refs h a - (if a = x then 1 else 0)"
    by (auto simp: refs_def unref_def split: option.splits)
  show "live (unref h x)"
    unfolding live_def
  proof (intro allI impI)
    fix a cr
    assume "unref h x a = Some cr"
    then consider "h a = Some cr"
      | c where "h x = Some c" "cr_ref c \<noteq> 1" "cr = c\<lparr>cr_ref := cr_ref c - 1\<rparr>"
      by (auto simp: unref_def split: option.splits if_splits)
    then show "0 < cr_ref cr \<and> cr_ref cr < 2 ^ 32"
    proof cases
      case 2
      then have "0 < cr_ref c" "cr_ref c < 2 ^ 32"
        using assms by (simp_all add: live_def)
      with 2 show ?thesis by simp
    qed (use assms in \<open>simp add: live_def\<close>)
  qed
qed

lemma unref_upd [simp]: "x \<noteq> n \<Longrightarrow> unref (h(n \<mapsto> c)) x = (unref h x)(n \<mapsto> c)"
  by (auto simp: unref_def fun_upd_twist split: option.splits)

lemma unref_other: "a \<noteq> x \<Longrightarrow> unref h x a = h a"
  by (auto simp: unref_def split: option.splits)

lemma crfree_live:
  assumes "live (c_heap st)" and "0 < refs (c_heap st) a"
    and "a = c_kcred st \<Longrightarrow> 1 < refs (c_heap st) a"
  shows "crfree st a = Done (st\<lparr>c_heap := unref (c_heap st) a\<rparr>)"
proof -
  obtain cr where cr: "c_heap st a = Some cr"
    using assms(2) by (auto simp: refs_def split: option.splits)
  then show ?thesis
    using assms by (intro crfree_unref) (auto simp: live_def refs_def)
qed

text \<open>The last two facts keep \<^verbatim>\<open>kcred\<close> from being freed.\<close>

lemma refs_ok_held:
  assumes "refs_ok ext st"
  shows "0 < refs (c_heap st) (c_pcred st)" and "0 < refs (c_heap st) (t_cred (c_curthread st))"
    and "c_pcred st = t_cred (c_curthread st) \<Longrightarrow> 1 < refs (c_heap st) (c_pcred st)"
    and "c_pcred st \<noteq> c_brk st" and "t_cred (c_curthread st) \<noteq> c_brk st"
    and "c_kcred st = c_pcred st \<Longrightarrow> 1 < refs (c_heap st) (c_pcred st)"
    and "c_kcred st = t_cred (c_curthread st) \<Longrightarrow>
      (if c_pcred st = c_kcred st then 2 else 1) < refs (c_heap st) (c_kcred st)"
proof -
  have r: "refs (c_heap st) = holders ext st" "\<forall>a\<ge>c_brk st. c_heap st a = None" "0 < ext (c_kcred st)"
    using assms by (simp_all add: refs_ok_alt)
  show p: "0 < refs (c_heap st) (c_pcred st)" and t: "0 < refs (c_heap st) (t_cred (c_curthread st))"
    by (simp_all add: r(1) holders_def)
  show "c_pcred st = t_cred (c_curthread st) \<Longrightarrow> 1 < refs (c_heap st) (c_pcred st)"
    by (simp add: r(1) holders_def)
  show "c_pcred st \<noteq> c_brk st" "t_cred (c_curthread st) \<noteq> c_brk st"
    using p t r(2) by (auto simp: refs_def split: option.splits)
  show "c_kcred st = c_pcred st \<Longrightarrow> 1 < refs (c_heap st) (c_pcred st)"
    using r(3) by (simp add: r(1) holders_def)
  show "c_kcred st = t_cred (c_curthread st) \<Longrightarrow>
      (if c_pcred st = c_kcred st then 2 else 1) < refs (c_heap st) (c_kcred st)"
    using r(3) by (simp add: r(1) holders_def)
qed

section \<open>Putting a new credential in place\<close>

text \<open>
  The state after \<open>crget\<close>, after the process changed over, and after its threads did:
  \<open>b\<close> is the accounting flag, \<open>t\<close> the counts and \<open>new\<close> the contents of the new credential.
\<close>

definition fetched :: "cstate \<Rightarrow> bool \<Rightarrow> cred \<Rightarrow> cstate" where
  "fetched st b z = st\<lparr>c_heap := (c_heap st)(c_brk st \<mapsto> z), c_brk := c_brk st + 1, c_asu := b\<rparr>"

definition switched :: "cstate \<Rightarrow> bool \<Rightarrow> cred \<Rightarrow> cstate" where
  "switched st b new =
     st\<lparr>c_heap := (unref (c_heap st) (c_pcred st))(c_brk st \<mapsto> new), c_brk := c_brk st + 1,
        c_pcred := c_brk st, c_asu := b\<rparr>"

definition installed :: "cstate \<Rightarrow> bool \<Rightarrow> upc_table \<Rightarrow> cred \<Rightarrow> cstate" where
  "installed st b t new =
     st\<lparr>c_heap := (unref (unref (c_heap st) (c_pcred st)) (t_cred (c_curthread st)))(c_brk st \<mapsto> new),
        c_brk := c_brk st + 1, c_pcred := c_brk st,
        c_curthread := (c_curthread st)\<lparr>t_cred := c_brk st\<rparr>,
        c_others := map (\<lambda>t. t\<lparr>t_pre_sys := True\<rparr>) (c_others st), c_upc := t, c_asu := b\<rparr>"

lemma crget_fetched: "crget ng st = (c_brk st, fetched st (c_asu st) ((zero_cred ng)\<lparr>cr_ref := 1\<rparr>))"
  by (simp add: crget_def cr_put_def fetched_def Let_def)

lemma fetched_fields [simp]:
  "c_pcred (fetched st b z) = c_pcred st" "c_upc (fetched st b z) = c_upc st"
  "c_curthread (fetched st b z) = c_curthread st" "c_kcred (fetched st b z) = c_kcred st"
  "c_heap (fetched st b z) = (c_heap st)(c_brk st \<mapsto> z)"
  by (simp_all add: fetched_def)

lemma suser_fetched:
  "suser (fetched st b z) cr = (if cr_uid cr = 0 then (True, fetched st True z) else (False, fetched st b z))"
  by (simp add: suser_def fetched_def)

lemma cr_at_fetched:
  assumes "refs_ok ext st" and "c_heap st (c_pcred st) = Some cr"
  shows "cr_at (fetched st b z) (c_pcred st) = Done cr"
  using assms refs_ok_held(4) [OF assms(1)] by (simp add: cr_at_def)

lemma crcopy_to_switched:
  assumes "refs_ok ext st" and "c_heap st (c_pcred st) = Some cr"
  shows "bind_outcome (crcopy_to (fetched st b z) (c_pcred st) (c_brk st))
      (\<lambda>s. Done (s\<lparr>c_pcred := c_brk st\<rparr>)) = Done (switched st b (cr\<lparr>cr_ref := 2\<rparr>))"
proof -
  note h = refs_ok_held [OF assms(1)]
  let ?s = "cr_put (fetched st b z) (c_brk st) cr"
  have l: "live (c_heap st)"
    using assms(1) by (simp add: refs_ok_alt)
  have s: "c_heap ?s = (c_heap st)(c_brk st \<mapsto> cr)" "c_kcred ?s = c_kcred st"
    by (simp_all add: cr_put_def)
  have "live (c_heap ?s)"
    using l assms(2) by (auto simp: live_def s)
  moreover have "refs (c_heap ?s) (c_pcred st) = refs (c_heap st) (c_pcred st)"
    using h(4) by (simp add: refs_def s)
  ultimately have "crfree ?s (c_pcred st) = Done (?s\<lparr>c_heap := unref (c_heap ?s) (c_pcred st)\<rparr>)"
    using h(1,6) by (intro crfree_live) (simp_all add: s)
  then show ?thesis
    using h(4) assms(2)
    by (simp add: crcopy_to_def cr_at_def) (simp add: cr_put_def s switched_def fetched_def)
qed

lemma crset_installed:
  assumes "refs_ok ext st"
  shows "crset ((switched st b new)\<lparr>c_upc := t\<rparr>) (c_brk st) = Done (installed st b t new)"
proof -
  note h = refs_ok_held [OF assms]
  let ?s = "(switched st b new)\<lparr>c_upc := t\<rparr>" and ?a = "t_cred (c_curthread st)"
  have l: "live (c_heap st)"
    using assms by (simp add: refs_ok_alt)
  have s: "c_heap ?s = (unref (c_heap st) (c_pcred st))(c_brk st \<mapsto> new)"
    by (simp add: switched_def)
  have n: "unref (c_heap st) (c_pcred st) ?a \<noteq> None"
    using refs_unref(1) [OF l, of "c_pcred st" ?a] h(2,3) by (auto simp: refs_def split: option.splits if_splits)
  obtain c where c: "unref (c_heap st) (c_pcred st) ?a = Some c"
    using n by blast
  have r: "cr_ref c = refs (c_heap st) ?a - (if ?a = c_pcred st then 1 else 0)"
    using refs_unref(1) [OF l, of "c_pcred st" ?a] c by (simp add: refs_def)
  have "crfree ?s ?a = Done (?s\<lparr>c_heap := unref (c_heap ?s) ?a\<rparr>)"
  proof (rule crfree_unref)
    show "c_heap ?s ?a = Some c"
      using h(5) by (simp add: s c)
    show "0 < cr_ref c" "cr_ref c < 2 ^ 32"
      using refs_unref(2) [OF l, of "c_pcred st"] c by (auto simp: live_def)
    show "?a \<noteq> c_kcred ?s" if "cr_ref c = 1"
      using that r h(7) by (auto simp: switched_def split: if_splits)
  qed
  moreover have "c_others ?s = c_others st" "t_cred (c_curthread ?s) = ?a"
    by (simp_all add: switched_def)
  ultimately show ?thesis
    using h(5) by (cases "c_others st") (simp_all add: crset_def s, simp_all add: switched_def installed_def)
qed

lemma installed_refs_ok:
  assumes "refs_ok ext st" and "cr_ref new = 2"
  shows "refs_ok ext (installed st b t new)"
proof -
  note h = refs_ok_held [OF assms(1)]
  let ?s = "installed st b t new" and ?a = "t_cred (c_curthread st)"
  let ?h = "unref (unref (c_heap st) (c_pcred st)) ?a"
  have l: "live (c_heap st)" and r: "refs (c_heap st) = holders ext st"
    and n: "\<forall>a\<ge>c_brk st. c_heap st a = None" and k: "0 < ext (c_kcred st)"
    using assms(1) by (simp_all add: refs_ok_alt)
  have hs: "c_heap ?s = ?h(c_brk st \<mapsto> new)"
    by (simp add: installed_def)
  have "live ?h"
    using refs_unref(2) [OF refs_unref(2) [OF l]] .
  then have "live (c_heap ?s)"
    using assms(2) by (auto simp: live_def hs)
  moreover have "refs (c_heap ?s) a = holders ext ?s a" for a
  proof (cases "a = c_brk st")
    case True
    have "holders ext st a = 0"
      using n by (simp add: True refs_def flip: r)
    then show ?thesis
      using True assms(2) by (simp add: hs refs_def holders_def installed_def comp_def filter_map)
  next
    case False
    then have "refs (c_heap ?s) a = holders ext st a - (if a = c_pcred st then 1 else 0) - (if a = ?a then 1 else 0)"
      using refs_unref(1) [OF refs_unref(2) [OF l], of "c_pcred st" ?a a] refs_unref(1) [OF l, of "c_pcred st" a]
      by (simp add: hs refs_def r)
    then show ?thesis
      using False by (auto simp: holders_def installed_def comp_def filter_map)
  qed
  moreover have "c_heap ?s a = None" if "a \<ge> c_brk ?s" for a
    using that n h(1,2) by (auto simp: installed_def unref_def refs_def split: option.splits)
  ultimately show ?thesis
    using k by (auto simp: refs_ok_alt installed_def)
qed

text \<open>A call that fails frees what it allocated.\<close>

lemma crfree_fetched:
  assumes "refs_ok ext st" and "cr_ref z = 1"
  shows "crfree (fetched st b z) (c_brk st) = Done (st\<lparr>c_brk := c_brk st + 1, c_asu := b\<rparr>)"
    and "refs_ok ext (st\<lparr>c_brk := c_brk st + 1, c_asu := b\<rparr>)"
proof -
  have n: "c_heap st (c_brk st) = None"
    using assms(1) by (simp add: refs_ok_alt)
  have "0 < refs (c_heap st) (c_kcred st)"
    using assms(1) by (simp add: refs_ok_alt holders_def)
  with n have k: "c_kcred st \<noteq> c_brk st"
    by (auto simp: refs_def)
  have "(c_heap st)(c_brk st := None) = c_heap st"
    using n by auto
  then show "crfree (fetched st b z) (c_brk st) = Done (st\<lparr>c_brk := c_brk st + 1, c_asu := b\<rparr>)"
    using k assms(2) by (simp add: crfree_def cr_at_def fetched_def Let_def)
  show "refs_ok ext (st\<lparr>c_brk := c_brk st + 1, c_asu := b\<rparr>)"
    using assms(1) by (auto simp: refs_ok_alt holders_def fun_eq_iff)
qed

text \<open>The steps of a call that works on a duplicate.\<close>

lemma fetched_dup:
  assumes "refs_ok ext st" and "c_heap st (c_pcred st) = Some cr"
  shows "crdup_to (fetched st b z) (c_pcred st) (c_brk st) = Done (fetched st b (cr\<lparr>cr_ref := 1\<rparr>))"
    and "cr_at (fetched st b z) (c_brk st) = Done z"
  using assms refs_ok_held(4) [OF assms(1)] by (simp_all add: crdup_to_def cr_at_def cr_put_def fetched_def)

lemma fetched_hold_switch:
  assumes "refs_ok ext st" and "cr_ref z = 1"
  shows "bind_outcome (crhold ((fetched st b z)\<lparr>c_pcred := c_brk st\<rparr>) (c_brk st)) (\<lambda>s. crfree s (c_pcred st))
    = Done (switched st b (z\<lparr>cr_ref := 2\<rparr>))"
proof -
  note h = refs_ok_held [OF assms(1)]
  let ?s = "(fetched st b (z\<lparr>cr_ref := 2\<rparr>))\<lparr>c_pcred := c_brk st\<rparr>"
  have "crhold ((fetched st b z)\<lparr>c_pcred := c_brk st\<rparr>) (c_brk st) = Done ?s"
    using assms(2) by (simp add: crhold_def cr_at_def cr_put_def fetched_def numeral_2_eq_2)
  moreover have "crfree ?s (c_pcred st) = Done (?s\<lparr>c_heap := unref (c_heap ?s) (c_pcred st)\<rparr>)"
  proof (rule crfree_live)
    have "live (c_heap st)"
      using assms(1) by (simp add: refs_ok_alt)
    then show "live (c_heap ?s)"
      by (auto simp: live_def)
    show "0 < refs (c_heap ?s) (c_pcred st)"
      using h(1,4) by (simp add: refs_def)
    show "1 < refs (c_heap ?s) (c_pcred st)" if "c_pcred st = c_kcred ?s"
      using that h(4,6) by (simp add: refs_def)
  qed
  ultimately show ?thesis
    using h(4) by (simp add: switched_def fetched_def)
qed

end
