(* ===== verification/Setid.thy ===== *)
theory Setid
  imports Cred
begin

text \<open>
  The system calls that change the ids of a process: \<^verbatim>\<open>syscall/uid.c\<close>, \<^verbatim>\<open>syscall/gid.c\<close> and
  \<^verbatim>\<open>syscall/groups.c\<close> under \<^verbatim>\<open>uts/common\<close>. Each allocates a credential, decides under the lock of
  the process, and on success copies the old credential into the new one, changes it and
  hands it to the threads. The result is the error, if any, and the new state.
\<close>

section \<open>Steps the calls share\<close>

abbreviation MAXUID :: int where "MAXUID \<equiv> 2147483647"

definition cr_modify :: "cstate \<Rightarrow> nat \<Rightarrow> (cred \<Rightarrow> cred) \<Rightarrow> cstate outcome" where
  "cr_modify st a f = bind_outcome (cr_at st a) (\<lambda>cr. Done (cr_put st a (f cr)))"

text \<open>\<^verbatim>\<open>crcopy_to(cr, newcr); p->p_cred = newcr;\<close> and the assignments to \<^verbatim>\<open>newcr\<close> after it.\<close>

definition cr_switch :: "cstate \<Rightarrow> nat \<Rightarrow> (cred \<Rightarrow> cred) \<Rightarrow> cstate outcome" where
  "cr_switch st newcr f =
     bind_outcome (crcopy_to st (c_pcred st) newcr) (\<lambda>st.
       cr_modify (st\<lparr>c_pcred := newcr\<rparr>) newcr f)"

text \<open>
  The process moves from the count of one user to that of another. What other processes do to the
  counts while the allocation sleeps is left out here: this is the change that the call makes.
\<close>

definition recount :: "bool \<Rightarrow> int \<Rightarrow> int \<Rightarrow> cstate \<Rightarrow> cstate outcome" where
  "recount kmem_ok oldruid uid st =
     (if oldruid \<noteq> uid then
        bind_outcome (upcount_dec oldruid (c_upc st)) (\<lambda>t.
        bind_outcome (upcount_inc kmem_ok (\<lambda>t. t) uid t) (\<lambda>t.
          Done (st\<lparr>c_upc := t\<rparr>)))
      else Done st)"

definition cr_finish :: "cstate \<Rightarrow> nat \<Rightarrow> errno option \<Rightarrow> (errno option \<times> cstate) outcome" where
  "cr_finish st newcr error =
     (case error of
        None \<Rightarrow> bind_outcome (crset st newcr) (\<lambda>st. Done (None, st))
      | Some e \<Rightarrow> Done (Some e, st))"

section \<open>User ids\<close>

definition setuid :: "nat \<Rightarrow> bool \<Rightarrow> int \<Rightarrow> cstate \<Rightarrow> (errno option \<times> cstate) outcome" where
  "setuid ngroups_max kmem_ok uid st =
     (if uid < 0 \<or> uid > MAXUID then Done (Some EINVAL, st)
      else
        let (newcr, st) = crget ngroups_max st
        in bind_outcome (cr_at st (c_pcred st)) (\<lambda>cr.
           bind_outcome
             (if cr_uid cr \<noteq> 0 \<and> (uid = cr_ruid cr \<or> uid = cr_suid cr) then
                bind_outcome (cr_switch st newcr (\<lambda>new. new\<lparr>cr_uid := uid\<rparr>)) (\<lambda>st.
                  Done (None, uid, st))
              else
                let (su, st) = suser st cr
                in if su then
                     bind_outcome
                       (cr_switch st newcr (\<lambda>new. new\<lparr>cr_ruid := uid, cr_suid := uid, cr_uid := uid\<rparr>))
                       (\<lambda>st. Done (None, cr_ruid cr, st))
                   else bind_outcome (crfree st newcr) (\<lambda>st. Done (Some EPERM, uid, st)))
             (\<lambda>(error, oldruid, st).
                bind_outcome (recount kmem_ok oldruid uid st) (\<lambda>st. cr_finish st newcr error))))"

definition getuid :: "cstate \<Rightarrow> (int \<times> int) outcome" where
  "getuid st =
     bind_outcome (cr_at st (t_cred (c_curthread st))) (\<lambda>cr. Done (cr_ruid cr, cr_uid cr))"

definition seteuid :: "nat \<Rightarrow> int \<Rightarrow> cstate \<Rightarrow> (errno option \<times> cstate) outcome" where
  "seteuid ngroups_max uid st =
     (if uid < 0 \<or> uid > MAXUID then Done (Some EINVAL, st)
      else
        let (newcr, st) = crget ngroups_max st
        in bind_outcome (cr_at st (c_pcred st)) (\<lambda>cr.
           let (ok, st) =
             (if uid = cr_ruid cr \<or> uid = cr_uid cr \<or> uid = cr_suid cr then (True, st)
              else suser st cr)
           in bind_outcome
                (if ok then
                   bind_outcome (cr_switch st newcr (\<lambda>new. new\<lparr>cr_uid := uid\<rparr>)) (\<lambda>st. Done (None, st))
                 else bind_outcome (crfree st newcr) (\<lambda>st. Done (Some EPERM, st)))
                (\<lambda>(error, st). cr_finish st newcr error)))"

text \<open>The assignments of \<^verbatim>\<open>setreuid\<close> to the new credential; -1 leaves an id alone.\<close>

definition setreuid_new :: "int \<Rightarrow> int \<Rightarrow> cred \<Rightarrow> cred" where
  "setreuid_new ruid euid new =
     (let new = (if euid \<noteq> - 1 then new\<lparr>cr_uid := euid\<rparr> else new);
          new = (if ruid \<noteq> - 1 then new\<lparr>cr_ruid := ruid\<rparr> else new)
      in if ruid \<noteq> - 1 \<or> (euid \<noteq> - 1 \<and> cr_uid new \<noteq> cr_ruid new)
         then new\<lparr>cr_suid := cr_uid new\<rparr> else new)"

definition setreuid :: "nat \<Rightarrow> bool \<Rightarrow> int \<Rightarrow> int \<Rightarrow> cstate \<Rightarrow> (errno option \<times> cstate) outcome" where
  "setreuid ngroups_max kmem_ok ruid euid st =
     (if (ruid \<noteq> - 1 \<and> (ruid < 0 \<or> ruid > MAXUID)) \<or> (euid \<noteq> - 1 \<and> (euid < 0 \<or> euid > MAXUID))
      then Done (Some EINVAL, st)
      else
        let (newcr, st) = crget ngroups_max st
        in bind_outcome (cr_at st (c_pcred st)) (\<lambda>cr.
           let (no1, st) =
                 (if ruid \<noteq> - 1 \<and> ruid \<noteq> cr_ruid cr \<and> ruid \<noteq> cr_uid cr
                  then let (su, st) = suser st cr in (\<not> su, st) else (False, st));
               (no2, st) =
                 (if \<not> no1 \<and> euid \<noteq> - 1 \<and> euid \<noteq> cr_ruid cr \<and> euid \<noteq> cr_uid cr \<and> euid \<noteq> cr_suid cr
                  then let (su, st) = suser st cr in (\<not> su, st) else (False, st))
           in bind_outcome
                (if no1 \<or> no2 then Done (Some EPERM, ruid, st)
                 else
                   bind_outcome (cr_switch st newcr (setreuid_new ruid euid)) (\<lambda>st.
                     Done (None, if ruid \<noteq> - 1 then cr_ruid cr else ruid, st)))
                (\<lambda>(error, oldruid, st).
                   bind_outcome (recount kmem_ok oldruid ruid st) (\<lambda>st.
                     case error of
                       None \<Rightarrow> cr_finish st newcr None
                     | Some e \<Rightarrow> bind_outcome (crfree st newcr) (\<lambda>st. Done (Some e, st))))))"

section \<open>Group ids\<close>

definition setgid :: "nat \<Rightarrow> int \<Rightarrow> cstate \<Rightarrow> (errno option \<times> cstate) outcome" where
  "setgid ngroups_max gid st =
     (if gid < 0 \<or> gid > MAXUID then Done (Some EINVAL, st)
      else
        let (newcr, st) = crget ngroups_max st
        in bind_outcome (cr_at st (c_pcred st)) (\<lambda>cr.
           bind_outcome
             (if cr_uid cr \<noteq> 0 \<and> (gid = cr_rgid cr \<or> gid = cr_sgid cr) then
                bind_outcome (cr_switch st newcr (\<lambda>new. new\<lparr>cr_gid := gid\<rparr>)) (\<lambda>st. Done (None, st))
              else
                let (su, st) = suser st cr
                in if su then
                     bind_outcome
                       (cr_switch st newcr (\<lambda>new. new\<lparr>cr_gid := gid, cr_rgid := gid, cr_sgid := gid\<rparr>))
                       (\<lambda>st. Done (None, st))
                   else bind_outcome (crfree st newcr) (\<lambda>st. Done (Some EPERM, st)))
             (\<lambda>(error, st). cr_finish st newcr error)))"

definition getgid :: "cstate \<Rightarrow> (int \<times> int) outcome" where
  "getgid st =
     bind_outcome (cr_at st (t_cred (c_curthread st))) (\<lambda>cr. Done (cr_rgid cr, cr_gid cr))"

definition setegid :: "nat \<Rightarrow> int \<Rightarrow> cstate \<Rightarrow> (errno option \<times> cstate) outcome" where
  "setegid ngroups_max gid st =
     (if gid < 0 \<or> gid > MAXUID then Done (Some EINVAL, st)
      else
        let (newcr, st) = crget ngroups_max st
        in bind_outcome (cr_at st (c_pcred st)) (\<lambda>cr.
           let (ok, st) =
             (if gid = cr_rgid cr \<or> gid = cr_gid cr \<or> gid = cr_sgid cr then (True, st)
              else suser st cr)
           in bind_outcome
                (if ok then
                   bind_outcome (cr_switch st newcr (\<lambda>new. new\<lparr>cr_gid := gid\<rparr>)) (\<lambda>st. Done (None, st))
                 else bind_outcome (crfree st newcr) (\<lambda>st. Done (Some EPERM, st)))
                (\<lambda>(error, st). cr_finish st newcr error)))"

definition setregid_new :: "int \<Rightarrow> int \<Rightarrow> cred \<Rightarrow> cred" where
  "setregid_new rgid egid new =
     (let new = (if egid \<noteq> - 1 then new\<lparr>cr_gid := egid\<rparr> else new);
          new = (if rgid \<noteq> - 1 then new\<lparr>cr_rgid := rgid\<rparr> else new)
      in if rgid \<noteq> - 1 \<or> (egid \<noteq> - 1 \<and> cr_gid new \<noteq> cr_rgid new)
         then new\<lparr>cr_sgid := cr_gid new\<rparr> else new)"

definition setregid :: "nat \<Rightarrow> int \<Rightarrow> int \<Rightarrow> cstate \<Rightarrow> (errno option \<times> cstate) outcome" where
  "setregid ngroups_max rgid egid st =
     (if (rgid \<noteq> - 1 \<and> (rgid < 0 \<or> rgid > MAXUID)) \<or> (egid \<noteq> - 1 \<and> (egid < 0 \<or> egid > MAXUID))
      then Done (Some EINVAL, st)
      else
        let (newcr, st) = crget ngroups_max st
        in bind_outcome (cr_at st (c_pcred st)) (\<lambda>cr.
           let (no1, st) =
                 (if rgid \<noteq> - 1 \<and> rgid \<noteq> cr_rgid cr \<and> rgid \<noteq> cr_gid cr
                  then let (su, st) = suser st cr in (\<not> su, st) else (False, st));
               (no2, st) =
                 (if \<not> no1 \<and> egid \<noteq> - 1 \<and> egid \<noteq> cr_rgid cr \<and> egid \<noteq> cr_gid cr \<and> egid \<noteq> cr_sgid cr
                  then let (su, st) = suser st cr in (\<not> su, st) else (False, st))
           in if no1 \<or> no2 then bind_outcome (crfree st newcr) (\<lambda>st. Done (Some EPERM, st))
              else bind_outcome (cr_switch st newcr (setregid_new rgid egid)) (\<lambda>st.
                     cr_finish st newcr None)))"

section \<open>Supplementary groups\<close>

text \<open>
  The number of groups is kept in a \<^verbatim>\<open>u_short\<close>. \<open>gidset n\<close> is what \<^verbatim>\<open>copyin\<close> reads of \<open>n\<close>
  groups, or \<open>None\<close> for a fault.
\<close>

abbreviation u_short :: "nat \<Rightarrow> nat" where "u_short n \<equiv> n mod 65536"

definition setgroups_new :: "nat \<Rightarrow> int list \<Rightarrow> cred \<Rightarrow> cred" where
  "setgroups_new n groups new =
     (if n \<noteq> 0 then new\<lparr>cr_groups := take n groups @ drop n (cr_groups new)\<rparr> else new)"

definition setgroups ::
  "nat \<Rightarrow> nat \<Rightarrow> (nat \<Rightarrow> int list option) \<Rightarrow> cstate \<Rightarrow> (errno option \<times> cstate) outcome" where
  "setgroups ngroups_max gidsetsize gidset st =
     (let n = u_short gidsetsize;
          groups = (if n \<noteq> 0 \<and> n \<le> u_short ngroups_max then gidset n else Some [])
      in case groups of
           None \<Rightarrow> Done (Some EFAULT, st)
         | Some groups \<Rightarrow>
             let (newcr, st) = crget ngroups_max st;
                 cr = c_pcred st
             in bind_outcome (cr_at st cr) (\<lambda>c.
                let (su, st) = suser st c
                in if \<not> su then bind_outcome (crfree st newcr) (\<lambda>st. Done (Some EPERM, st))
                   else if n > u_short ngroups_max
                   then bind_outcome (crfree st newcr) (\<lambda>st. Done (Some EINVAL, st))
                   else
                     bind_outcome (crdup_to st cr newcr) (\<lambda>st.
                     bind_outcome (cr_modify st newcr (setgroups_new n groups)) (\<lambda>st.
                     bind_outcome (cr_at st newcr) (\<lambda>new.
                       if \<exists>i\<in>{..<n}. cr_groups new ! i < 0 \<or> cr_groups new ! i > MAXUID
                       then bind_outcome (crfree st newcr) (\<lambda>st. Done (Some EINVAL, st))
                       else
                         bind_outcome (cr_modify st newcr (\<lambda>new. new\<lparr>cr_ngroups := n\<rparr>)) (\<lambda>st.
                         bind_outcome (crhold (st\<lparr>c_pcred := newcr\<rparr>) newcr) (\<lambda>st.
                         bind_outcome (crfree st cr) (\<lambda>st.
                           cr_finish st newcr None))))))))"

text \<open>The number of groups returned, with what \<^verbatim>\<open>copyout\<close> stores; \<open>ok\<close> is its success.\<close>

definition getgroups :: "bool \<Rightarrow> int \<Rightarrow> cstate \<Rightarrow> (errno + nat \<times> int list option) outcome" where
  "getgroups ok gidsetsize st =
     bind_outcome (cr_at st (t_cred (c_curthread st))) (\<lambda>cr.
       let n = cr_ngroups cr
       in if gidsetsize \<noteq> 0 then
            if gidsetsize < int n then Done (Inl EINVAL)
            else if ok then Done (Inr (n, Some (take n (cr_groups cr))))
            else Done (Inl EFAULT)
          else Done (Inr (n, None)))"

section \<open>What each call is for\<close>

datatype id_call =
    Setuid int | Seteuid int | Setreuid int int
  | Setgid int | Setegid int | Setregid int int
  | Setgroups nat "nat \<Rightarrow> int list option"

definition id_syscall :: "nat \<Rightarrow> bool \<Rightarrow> id_call \<Rightarrow> cstate \<Rightarrow> (errno option \<times> cstate) outcome" where
  "id_syscall ng kmem_ok call st =
     (case call of
        Setuid u \<Rightarrow> setuid ng kmem_ok u st
      | Seteuid u \<Rightarrow> seteuid ng u st
      | Setreuid r e \<Rightarrow> setreuid ng kmem_ok r e st
      | Setgid g \<Rightarrow> setgid ng g st
      | Setegid g \<Rightarrow> setegid ng g st
      | Setregid r e \<Rightarrow> setregid ng r e st
      | Setgroups n gs \<Rightarrow> setgroups ng n gs st)"

text \<open>
  The rules of the calls on the ids alone, without heap, locks and counts: the error, or the
  ids the process gets.
\<close>

abbreviation bad_id :: "int \<Rightarrow> bool" where "bad_id i \<equiv> i < 0 \<or> i > MAXUID"

definition privileged :: "cred \<Rightarrow> bool" where
  "privileged c \<longleftrightarrow> cr_uid c = 0"

definition uids :: "cred \<Rightarrow> int set" where
  "uids c = {cr_ruid c, cr_uid c, cr_suid c}"

definition gids :: "cred \<Rightarrow> int set" where
  "gids c = {cr_rgid c, cr_gid c, cr_sgid c}"

fun id_rule :: "nat \<Rightarrow> id_call \<Rightarrow> cred \<Rightarrow> errno + cred" where
  "id_rule ng (Setuid u) c =
     (if bad_id u then Inl EINVAL
      else if privileged c then Inr (c\<lparr>cr_ruid := u, cr_suid := u, cr_uid := u\<rparr>)
      else if u \<in> {cr_ruid c, cr_suid c} then Inr (c\<lparr>cr_uid := u\<rparr>)
      else Inl EPERM)"
| "id_rule ng (Seteuid u) c =
     (if bad_id u then Inl EINVAL
      else if privileged c \<or> u \<in> uids c then Inr (c\<lparr>cr_uid := u\<rparr>) else Inl EPERM)"
| "id_rule ng (Setreuid r e) c =
     (if r \<noteq> - 1 \<and> bad_id r \<or> e \<noteq> - 1 \<and> bad_id e then Inl EINVAL
      else if privileged c \<or> (r \<in> {- 1, cr_ruid c, cr_uid c} \<and> (e = - 1 \<or> e \<in> uids c))
      then Inr (setreuid_new r e c) else Inl EPERM)"
| "id_rule ng (Setgid g) c =
     (if bad_id g then Inl EINVAL
      else if privileged c then Inr (c\<lparr>cr_gid := g, cr_rgid := g, cr_sgid := g\<rparr>)
      else if g \<in> {cr_rgid c, cr_sgid c} then Inr (c\<lparr>cr_gid := g\<rparr>)
      else Inl EPERM)"
| "id_rule ng (Setegid g) c =
     (if bad_id g then Inl EINVAL
      else if privileged c \<or> g \<in> gids c then Inr (c\<lparr>cr_gid := g\<rparr>) else Inl EPERM)"
| "id_rule ng (Setregid r e) c =
     (if r \<noteq> - 1 \<and> bad_id r \<or> e \<noteq> - 1 \<and> bad_id e then Inl EINVAL
      else if privileged c \<or> (r \<in> {- 1, cr_rgid c, cr_gid c} \<and> (e = - 1 \<or> e \<in> gids c))
      then Inr (setregid_new r e c) else Inl EPERM)"
| "id_rule ng (Setgroups m gs) c =
     (let n = u_short m in
      if n \<noteq> 0 \<and> n \<le> u_short ng \<and> gs n = None then Inl EFAULT
      else if \<not> privileged c then Inl EPERM
      else if n > u_short ng then Inl EINVAL
      else
        let c' = setgroups_new n (if n \<noteq> 0 then the (gs n) else []) c
        in if \<exists>i\<in>{..<n}. bad_id (cr_groups c' ! i) then Inl EINVAL
           else Inr (c'\<lparr>cr_ngroups := n\<rparr>))"

section \<open>The calls follow the rules\<close>

definition recount_table :: "bool \<Rightarrow> int \<Rightarrow> int \<Rightarrow> upc_table \<Rightarrow> upc_table outcome" where
  "recount_table kmem_ok u v t =
     (if u \<noteq> v then bind_outcome (upcount_dec u t) (upcount_inc kmem_ok (\<lambda>t. t) v) else Done t)"

lemma switched_upc [simp]:
  "(switched st b new)\<lparr>c_upc := c_upc st\<rparr> = switched st b new" "c_upc (switched st b new) = c_upc st"
  by (simp_all add: switched_def)

lemma recount_switched:
  "recount kmem_ok u v (switched st b new) =
     bind_outcome (recount_table kmem_ok u v (c_upc st)) (\<lambda>t. Done ((switched st b new)\<lparr>c_upc := t\<rparr>))"
  by (simp add: recount_def recount_table_def bind_outcome_assoc)

lemma cr_switch_fetched:
  assumes "refs_ok ext st" and "c_heap st (c_pcred st) = Some cr"
  shows "cr_switch (fetched st b z) (c_brk st) f = Done (switched st b (f (cr\<lparr>cr_ref := 2\<rparr>)))"
proof -
  have "cr_switch (fetched st b z) (c_brk st) f =
      bind_outcome (bind_outcome (crcopy_to (fetched st b z) (c_pcred st) (c_brk st))
        (\<lambda>s. Done (s\<lparr>c_pcred := c_brk st\<rparr>))) (\<lambda>s. cr_modify s (c_brk st) f)"
    by (simp add: cr_switch_def bind_outcome_assoc)
  then show ?thesis
    by (simp add: crcopy_to_switched [OF assms])
      (simp add: cr_modify_def switched_def cr_at_def cr_put_def)
qed

lemma cr_finish_installed:
  assumes "refs_ok ext st"
  shows "cr_finish ((switched st b new)\<lparr>c_upc := t\<rparr>) (c_brk st) None = Done (None, installed st b t new)"
    and "cr_finish (switched st b new) (c_brk st) None = Done (None, installed st b (c_upc st) new)"
  using crset_installed [OF assms, of t b new] crset_installed [OF assms, of "c_upc st" b new]
  by (simp_all add: cr_finish_def)

lemma cr_finish_error: "cr_finish st newcr (Some e) = Done (Some e, st)"
  by (simp add: cr_finish_def)

lemmas id_call_steps = crget_fetched suser_fetched Let_def cr_at_fetched cr_switch_fetched
  cr_finish_installed cr_finish_error crfree_fetched recount_switched bind_outcome_assoc

lemma recount_same: "recount kmem_ok u u st = Done st"
  by (simp add: recount_def)

text \<open>A call that fails at most allocates, and may note the use of privilege.\<close>

definition only_alloc :: "cstate \<Rightarrow> cstate \<Rightarrow> bool" where
  "only_alloc st st' \<longleftrightarrow> st' = st \<or> (\<exists>b. st' = st\<lparr>c_brk := c_brk st + 1, c_asu := b\<rparr>)"

lemma only_alloc_simps [simp]:
  "only_alloc st st" "only_alloc st (st\<lparr>c_brk := Suc (c_brk st), c_asu := b\<rparr>)"
  "only_alloc st (st\<lparr>c_brk := Suc (c_brk st)\<rparr>)"
proof -
  show "only_alloc st st" "only_alloc st (st\<lparr>c_brk := Suc (c_brk st), c_asu := b\<rparr>)"
    by (auto simp: only_alloc_def)
  have "st\<lparr>c_brk := Suc (c_brk st)\<rparr> = st\<lparr>c_brk := c_brk st + 1, c_asu := c_asu st\<rparr>"
    by simp
  then show "only_alloc st (st\<lparr>c_brk := Suc (c_brk st)\<rparr>)"
    unfolding only_alloc_def by blast
qed

definition follows_rule :: "nat \<Rightarrow> bool \<Rightarrow> id_call \<Rightarrow> cstate \<Rightarrow> cred \<Rightarrow> bool" where
  "follows_rule ng kmem_ok call st cr \<longleftrightarrow>
     (case id_rule ng call (cr\<lparr>cr_ref := 2\<rparr>) of
        Inr new \<Rightarrow>
          \<exists>b. id_syscall ng kmem_ok call st =
            bind_outcome (recount_table kmem_ok (cr_ruid cr) (cr_ruid new) (c_upc st))
              (\<lambda>t. Done (None, installed st b t new))
      | Inl e \<Rightarrow>
          \<exists>st'. id_syscall ng kmem_ok call st = Done (Some e, st') \<and> only_alloc st st')"

lemmas follows_defs = follows_rule_def id_syscall_def id_call_steps privileged_def uids_def gids_def
  recount_same

lemma setuid_follows:
  assumes "refs_ok ext st" and "c_heap st (c_pcred st) = Some cr"
  shows "follows_rule ng kmem_ok (Setuid u) st cr"
  using assms by (auto simp: follows_defs setuid_def recount_table_def)

lemma seteuid_follows:
  assumes "refs_ok ext st" and "c_heap st (c_pcred st) = Some cr"
  shows "follows_rule ng kmem_ok (Seteuid u) st cr"
  using assms by (auto simp: follows_defs seteuid_def recount_table_def)

lemma setgid_follows:
  assumes "refs_ok ext st" and "c_heap st (c_pcred st) = Some cr"
  shows "follows_rule ng kmem_ok (Setgid u) st cr"
  using assms by (auto simp: follows_defs setgid_def recount_table_def)

lemma setegid_follows:
  assumes "refs_ok ext st" and "c_heap st (c_pcred st) = Some cr"
  shows "follows_rule ng kmem_ok (Setegid u) st cr"
  using assms by (auto simp: follows_defs setegid_def recount_table_def)

lemma setreuid_follows:
  assumes "refs_ok ext st" and "c_heap st (c_pcred st) = Some cr"
  shows "follows_rule ng kmem_ok (Setreuid r e) st cr"
proof -
  define R where "R \<longleftrightarrow> r \<in> {- 1, cr_ruid cr, cr_uid cr}"
  define E where "E \<longleftrightarrow> e = - 1 \<or> e \<in> uids cr"
  define B where "B \<longleftrightarrow> r \<noteq> - 1 \<and> bad_id r \<or> e \<noteq> - 1 \<and> bad_id e"
  have r: "(r \<noteq> - 1 \<and> r \<noteq> cr_ruid cr \<and> r \<noteq> cr_uid cr) = (\<not> R)"
    and e: "(e \<noteq> - 1 \<and> e \<noteq> cr_ruid cr \<and> e \<noteq> cr_uid cr \<and> e \<noteq> cr_suid cr) = (\<not> E)"
    by (auto simp: R_def E_def uids_def)
  have n: "cr_ruid (setreuid_new r e (cr\<lparr>cr_ref := 2\<rparr>)) = (if r \<noteq> - 1 then r else cr_ruid cr)"
    by (simp add: setreuid_new_def Let_def)
  have rule: "id_rule ng (Setreuid r e) (cr\<lparr>cr_ref := 2\<rparr>) =
      (if B then Inl EINVAL else if cr_uid cr = 0 \<or> (R \<and> E) then Inr (setreuid_new r e (cr\<lparr>cr_ref := 2\<rparr>))
       else Inl EPERM)"
    by (simp add: privileged_def uids_def R_def E_def B_def)
  show ?thesis
    unfolding follows_rule_def rule id_syscall_def setreuid_def B_def [symmetric] id_call.case
    using assms
    by (cases B; cases R; cases E; cases "cr_uid cr = 0")
      (simp_all add: r e n id_call_steps recount_same recount_table_def, auto)
qed

lemma setregid_follows:
  assumes "refs_ok ext st" and "c_heap st (c_pcred st) = Some cr"
  shows "follows_rule ng kmem_ok (Setregid r e) st cr"
proof -
  define R where "R \<longleftrightarrow> r \<in> {- 1, cr_rgid cr, cr_gid cr}"
  define E where "E \<longleftrightarrow> e = - 1 \<or> e \<in> gids cr"
  define B where "B \<longleftrightarrow> r \<noteq> - 1 \<and> bad_id r \<or> e \<noteq> - 1 \<and> bad_id e"
  have r: "(r \<noteq> - 1 \<and> r \<noteq> cr_rgid cr \<and> r \<noteq> cr_gid cr) = (\<not> R)"
    and e: "(e \<noteq> - 1 \<and> e \<noteq> cr_rgid cr \<and> e \<noteq> cr_gid cr \<and> e \<noteq> cr_sgid cr) = (\<not> E)"
    by (auto simp: R_def E_def gids_def)
  have n: "cr_ruid (setregid_new r e (cr\<lparr>cr_ref := 2\<rparr>)) = cr_ruid cr"
    by (simp add: setregid_new_def Let_def)
  have rule: "id_rule ng (Setregid r e) (cr\<lparr>cr_ref := 2\<rparr>) =
      (if B then Inl EINVAL else if cr_uid cr = 0 \<or> (R \<and> E) then Inr (setregid_new r e (cr\<lparr>cr_ref := 2\<rparr>))
       else Inl EPERM)"
    by (simp add: privileged_def gids_def R_def E_def B_def)
  show ?thesis
    unfolding follows_rule_def rule id_syscall_def setregid_def B_def [symmetric] id_call.case
    using assms
    by (cases B; cases R; cases E; cases "cr_uid cr = 0")
      (simp_all add: r e n id_call_steps recount_same recount_table_def, auto)
qed

lemma cr_modify_fetched: "cr_modify (fetched st b z) (c_brk st) f = Done (fetched st b (f z))"
  by (simp add: cr_modify_def cr_at_def cr_put_def fetched_def)

lemma setgroups_follows:
  assumes "refs_ok ext st" and "c_heap st (c_pcred st) = Some cr"
  shows "follows_rule ng kmem_ok (Setgroups m gs) st cr"
proof -
  define n where "n = u_short m"
  define g where "g = (if n \<noteq> 0 \<and> n \<le> u_short ng then gs n else Some [])"
  define c where "c = setgroups_new n (the g) (cr\<lparr>cr_ref := 1\<rparr>)"
  have c: "cr_groups (setgroups_new n (the g) (cr\<lparr>cr_ref := 2\<rparr>)) = cr_groups c"
    "(setgroups_new n (the g) (cr\<lparr>cr_ref := 2\<rparr>))\<lparr>cr_ngroups := n\<rparr> = c\<lparr>cr_ngroups := n, cr_ref := 2\<rparr>"
    "cr_ref c = 1" "cr_ruid c = cr_ruid cr"
    by (auto simp: c_def setgroups_new_def)
  have rule: "id_rule ng (Setgroups m gs) (cr\<lparr>cr_ref := 2\<rparr>) =
      (if g = None then Inl EFAULT else if cr_uid cr \<noteq> 0 then Inl EPERM
       else if n > u_short ng then Inl EINVAL
       else if \<exists>i\<in>{..<n}. bad_id (cr_groups c ! i) then Inl EINVAL
       else Inr (c\<lparr>cr_ngroups := n, cr_ref := 2\<rparr>))"
  proof (cases "n > u_short ng")
    case True
    then show ?thesis by (auto simp: Let_def g_def privileged_def simp flip: n_def)
  next
    case False
    then have "(if n \<noteq> 0 then the (gs n) else []) = the g" "(n \<noteq> 0 \<and> n \<le> u_short ng \<and> gs n = None) = (g = None)"
      by (auto simp: g_def)
    then show ?thesis
      using False by (simp add: Let_def privileged_def c flip: n_def)
  qed
  show ?thesis
  proof (cases g)
    case None
    then show ?thesis
      unfolding follows_rule_def rule id_syscall_def id_call.case setgroups_def Let_def
        n_def [symmetric] g_def [symmetric] by simp
  next
    case (Some gl)
    have hold: "bind_outcome (crhold ((fetched st True (c\<lparr>cr_ngroups := n\<rparr>))\<lparr>c_pcred := c_brk st\<rparr>) (c_brk st))
        (\<lambda>s. bind_outcome (crfree s (c_pcred st)) k) =
        bind_outcome (Done (switched st True (c\<lparr>cr_ngroups := n, cr_ref := 2\<rparr>))) k" for k
      using fetched_hold_switch [OF assms(1), of "c\<lparr>cr_ngroups := n\<rparr>" True] c(3)
      by (auto simp flip: bind_outcome_assoc)
    have "setgroups_new n gl (cr\<lparr>cr_ref := 1\<rparr>) = c"
      by (simp add: c_def Some)
    then show ?thesis
      unfolding follows_rule_def rule id_syscall_def id_call.case setgroups_def Let_def
        n_def [symmetric] g_def [symmetric] Some option.case
      using assms c(3,4)
      by (cases "cr_uid cr = 0"; cases "n > u_short ng"; cases "\<exists>i\<in>{..<n}. bad_id (cr_groups c ! i)")
        (simp_all add: id_call_steps fetched_dup cr_modify_fetched hold recount_table_def, auto)
  qed
qed

lemma id_syscall_follows:
  assumes "refs_ok ext st" and "c_heap st (c_pcred st) = Some cr"
  shows "follows_rule ng kmem_ok call st cr"
  by (cases call) (simp_all only: setuid_follows [OF assms] seteuid_follows [OF assms]
      setreuid_follows [OF assms] setgid_follows [OF assms] setegid_follows [OF assms]
      setregid_follows [OF assms] setgroups_follows [OF assms])

section \<open>Properties\<close>

lemma id_rule_ref:
  "id_rule ng call (c\<lparr>cr_ref := r\<rparr>) =
     (case id_rule ng call c of Inl e \<Rightarrow> Inl e | Inr new \<Rightarrow> Inr (new\<lparr>cr_ref := r\<rparr>))"
  by (cases call)
    (auto simp: privileged_def uids_def gids_def setreuid_new_def setregid_new_def setgroups_new_def Let_def)

lemma recount_table_move:
  assumes "upc_ok t" and "0 < upc_count t u" and "\<forall>w. upc_count t w + 1 < 2 ^ 32"
  shows "\<exists>t'. recount_table kmem_ok u v t = Done t' \<and> upc_ok t' \<and> upc_count t' =
    (if u = v then upc_count t else (upc_count t)(u := upc_count t u - 1, v := upc_count t v + 1))"
  using upc.move_count [OF assms(1,2), of v kmem_ok] assms by (auto simp: recount_table_def)

text \<open>
  C16. In a state whose reference counts are right, every call that sets ids returns,
  with the error or the new ids its rule gives. On success the process and the current
  thread share the new credential, and the counts of processes per user move with the real
  user id; on an error the credentials are as before. Either way the reference
  counts are right again: nothing is leaked, freed early or freed twice.
\<close>

theorem id_syscall_refines:
  assumes "refs_ok ext st" and "c_heap st (c_pcred st) = Some cr"
    and "upc_ok (c_upc st)" and "0 < upc_count (c_upc st) (cr_ruid cr)"
    and "\<forall>u. upc_count (c_upc st) u + 1 < 2 ^ 32"
  shows "\<exists>e st'. id_syscall ng kmem_ok call st = Done (e, st') \<and> refs_ok ext st' \<and>
    (case id_rule ng call cr of
       Inl er \<Rightarrow> e = Some er \<and> c_pcred st' = c_pcred st \<and> c_heap st' = c_heap st \<and> c_upc st' = c_upc st
     | Inr new \<Rightarrow> e = None \<and> c_heap st' (c_pcred st') = Some (new\<lparr>cr_ref := 2\<rparr>)
         \<and> t_cred (c_curthread st') = c_pcred st' \<and> upc_ok (c_upc st')
         \<and> upc_count (c_upc st') =
             (if cr_ruid new = cr_ruid cr then upc_count (c_upc st)
              else (upc_count (c_upc st))(cr_ruid cr := upc_count (c_upc st) (cr_ruid cr) - 1,
                     cr_ruid new := upc_count (c_upc st) (cr_ruid new) + 1)))"
proof (cases "id_rule ng call cr")
  case (Inl er)
  then obtain st' where st': "id_syscall ng kmem_ok call st = Done (Some er, st')" "only_alloc st st'"
    using id_syscall_follows [OF assms(1,2), of ng kmem_ok call] by (auto simp: follows_rule_def id_rule_ref)
  then have "refs_ok ext st'"
    using assms(1) by (auto simp: only_alloc_def refs_ok_alt holders_def fun_eq_iff)
  then show ?thesis
    using st' Inl by (auto simp: only_alloc_def)
next
  case (Inr new)
  then obtain b where b: "id_syscall ng kmem_ok call st =
      bind_outcome (recount_table kmem_ok (cr_ruid cr) (cr_ruid new) (c_upc st))
        (\<lambda>t. Done (None, installed st b t (new\<lparr>cr_ref := 2\<rparr>)))"
    using id_syscall_follows [OF assms(1,2), of ng kmem_ok call] by (auto simp: follows_rule_def id_rule_ref)
  obtain t where t: "recount_table kmem_ok (cr_ruid cr) (cr_ruid new) (c_upc st) = Done t" "upc_ok t"
    "upc_count t = (if cr_ruid cr = cr_ruid new then upc_count (c_upc st)
       else (upc_count (c_upc st))(cr_ruid cr := upc_count (c_upc st) (cr_ruid cr) - 1,
          cr_ruid new := upc_count (c_upc st) (cr_ruid new) + 1))"
    using recount_table_move [OF assms(3-5)] by blast
  have "refs_ok ext (installed st b t (new\<lparr>cr_ref := 2\<rparr>))"
    by (rule installed_refs_ok [OF assms(1)]) simp
  then show ?thesis
    using b t Inr by (auto simp: installed_def)
qed

text \<open>Any number of calls, one after the other.\<close>

fun id_calls :: "nat \<Rightarrow> bool \<Rightarrow> id_call list \<Rightarrow> cstate \<Rightarrow> cstate outcome" where
  "id_calls ng kmem_ok [] st = Done st"
| "id_calls ng kmem_ok (c # cs) st =
     bind_outcome (id_syscall ng kmem_ok c st) (\<lambda>(e, st). id_calls ng kmem_ok cs st)"

lemma id_rule_confined:
  assumes "id_rule ng call c = Inr new" and "\<not> privileged c"
  shows "uids new \<subseteq> uids c \<and> gids new \<subseteq> gids c \<and> cr_groups new = cr_groups c \<and> cr_ngroups new = cr_ngroups c"
  using assms
  by (cases call) (auto simp: uids_def gids_def setreuid_new_def setregid_new_def Let_def split: if_splits)

lemma id_syscall_confined:
  assumes "refs_ok ext st" and "c_heap st (c_pcred st) = Some cr" and "0 \<notin> uids cr"
    and "id_syscall ng kmem_ok call st = Done (e, st')"
  shows "\<exists>cr'. c_heap st' (c_pcred st') = Some cr' \<and> refs_ok ext st' \<and> uids cr' \<subseteq> uids cr
    \<and> gids cr' \<subseteq> gids cr \<and> cr_groups cr' = cr_groups cr \<and> cr_ngroups cr' = cr_ngroups cr"
proof (cases "id_rule ng call cr")
  case (Inl er)
  then have "only_alloc st st'"
    using id_syscall_follows [OF assms(1,2), of ng kmem_ok call] assms(4)
    by (auto simp: follows_rule_def id_rule_ref)
  then show ?thesis
    using assms(1,2) by (auto simp: only_alloc_def refs_ok_alt holders_def fun_eq_iff)
next
  case (Inr new)
  then obtain b t where st': "st' = installed st b t (new\<lparr>cr_ref := 2\<rparr>)"
    using id_syscall_follows [OF assms(1,2), of ng kmem_ok call] assms(4)
    by (auto simp: follows_rule_def id_rule_ref)
  have "\<not> privileged cr"
    using assms(3) by (auto simp: privileged_def uids_def)
  then show ?thesis
    using id_rule_confined [OF Inr] installed_refs_ok [OF assms(1), of "new\<lparr>cr_ref := 2\<rparr>" b t]
    by (auto simp: st' installed_def uids_def gids_def)
qed

text \<open>
  C5. A process none of whose user ids is 0 can never gain an id: whatever calls it makes,
  in whatever order, its real, effective and saved user ids stay among the ones it had, so
  do its group ids, and its supplementary groups do not change.
\<close>

theorem unprivileged_confined:
  assumes "refs_ok ext st" and "c_heap st (c_pcred st) = Some cr" and "0 \<notin> uids cr"
    and "id_calls ng kmem_ok calls st = Done st'"
  shows "\<exists>cr'. c_heap st' (c_pcred st') = Some cr' \<and> uids cr' \<subseteq> uids cr \<and> gids cr' \<subseteq> gids cr
    \<and> cr_groups cr' = cr_groups cr \<and> cr_ngroups cr' = cr_ngroups cr"
  using assms
proof (induction calls arbitrary: st cr)
  case (Cons call calls)
  obtain e st1 where s: "id_syscall ng kmem_ok call st = Done (e, st1)" "id_calls ng kmem_ok calls st1 = Done st'"
    using Cons.prems(4) by auto
  obtain cr1 where c: "c_heap st1 (c_pcred st1) = Some cr1" "refs_ok ext st1" "uids cr1 \<subseteq> uids cr"
    "gids cr1 \<subseteq> gids cr" "cr_groups cr1 = cr_groups cr" "cr_ngroups cr1 = cr_ngroups cr"
    using id_syscall_confined [OF Cons.prems(1-3) s(1)] by blast
  have "0 \<notin> uids cr1"
    using c(3) Cons.prems(3) by blast
  then obtain cr' where d: "c_heap st' (c_pcred st') = Some cr'" "uids cr' \<subseteq> uids cr1" "gids cr' \<subseteq> gids cr1"
    "cr_groups cr' = cr_groups cr1" "cr_ngroups cr' = cr_ngroups cr1"
    using Cons.IH [OF c(2,1) _ s(2)] by blast
  show ?case
    using d c(5,6) subset_trans [OF d(2) c(3)] subset_trans [OF d(3) c(4)] by auto
qed auto

text \<open>A process of user 100 beside the kernel's own credential, and one of the super-user.\<close>

definition cred_demo :: "int \<Rightarrow> cstate" where
  "cred_demo u =
     \<lparr>c_heap = [0 \<mapsto> (zero_cred 2)\<lparr>cr_ref := 1\<rparr>,
                1 \<mapsto> (zero_cred 2)\<lparr>cr_ref := 2, cr_uid := u, cr_ruid := u, cr_suid := u, cr_ngroups := 1\<rparr>],
      c_brk = 2, c_kcred = 0, c_pcred = 1, c_curthread = \<lparr>t_cred = 1, t_pre_sys = False\<rparr>,
      c_others = [], c_upc = \<lparr>upc_hash = [[\<lparr>up_uid = u, up_count = 1\<rparr>]], upc_hashmask = 0\<rparr>,
      c_asu = False\<rparr>"

lemma cred_demo_ok: "refs_ok (\<lambda>a. if a = 0 then 1 else 0) (cred_demo u)"
  by (auto simp: refs_ok_alt live_def refs_def holders_def cred_demo_def fun_eq_iff zero_cred_def)

lemma cred_demo_cred:
  "c_heap (cred_demo u) (c_pcred (cred_demo u)) =
     Some ((zero_cred 2)\<lparr>cr_ref := 2, cr_uid := u, cr_ruid := u, cr_suid := u, cr_ngroups := 1\<rparr>)"
  by (simp add: cred_demo_def)

theorem id_syscall_refines_witness:
  "\<exists>st'. setuid 2 False 7 (cred_demo 0) = Done (None, st') \<and> upc_count (c_upc st') 7 = 1
     \<and> upc_count (c_upc st') 0 = 0 \<and> refs_ok (\<lambda>a. if a = 0 then 1 else 0) st'"
proof -
  have "upc_ok (c_upc (cred_demo 0))" "\<And>v. upc_count (c_upc (cred_demo 0)) v = (if v = 0 then 1 else 0)"
    by (auto simp: upc_ok_def chain_ok_def upc_count_def UPC_HASH_def cred_demo_def nth_Cons')
  moreover from this have "\<forall>v. upc_count (c_upc (cred_demo 0)) v + 1 < 2 ^ 32"
    by simp
  ultimately show ?thesis
    using id_syscall_refines [OF cred_demo_ok cred_demo_cred, of 0 2 False "Setuid 7"]
    by (auto simp: id_syscall_def privileged_def zero_cred_def)
qed

theorem unprivileged_confined_witness:
  "\<exists>st' cr'. id_calls 2 True [Setuid 0, Setgroups 1 (\<lambda>n. Some [9]), Seteuid 100] (cred_demo 100) = Done st'
     \<and> c_heap st' (c_pcred st') = Some cr' \<and> uids cr' \<subseteq> {100} \<and> cr_ngroups cr' = 1"
proof -
  obtain st' where st': "id_calls 2 True [Setuid 0, Setgroups 1 (\<lambda>n. Some [9]), Seteuid 100] (cred_demo 100) = Done st'"
    by (simp add: id_syscall_def setuid_def setgroups_def seteuid_def cred_demo_def crget_def cr_put_def
        cr_at_def suser_def crfree_def cr_switch_def crcopy_to_def cr_modify_def cr_finish_def crset_def
        recount_def zero_cred_def Let_def)
  show ?thesis
    using unprivileged_confined [OF cred_demo_ok cred_demo_cred _ st'] st' by (auto simp: uids_def)
qed

text \<open>
  \<open>setgroups\<close> keeps the size it is given in 16 bits: a privileged caller that asks
  for 65536 groups, far above any limit, gets no error; its set of groups is emptied instead.
\<close>

lemma setgroups_truncates:
  assumes "refs_ok ext st" and "c_heap st (c_pcred st) = Some cr" and "cr_uid cr = 0"
  shows "\<exists>st' cr'. setgroups ng 65536 gs st = Done (None, st') \<and> c_heap st' (c_pcred st') = Some cr'
    \<and> cr_ngroups cr' = 0 \<and> setgroups 16 17 gs st = Done (Some EINVAL, st\<lparr>c_brk := c_brk st + 1, c_asu := True\<rparr>)"
proof -
  have "id_rule ng (Setgroups 65536 gs) cr = Inr (cr\<lparr>cr_ngroups := 0\<rparr>)"
    using assms(3) by (simp add: privileged_def setgroups_new_def)
  then obtain b where "setgroups ng 65536 gs st = Done (None, installed st b (c_upc st) (cr\<lparr>cr_ngroups := 0, cr_ref := 2\<rparr>))"
    using setgroups_follows [OF assms(1,2), of ng True 65536 gs]
    by (auto simp: follows_rule_def id_rule_ref recount_table_def id_syscall_def)
  moreover have "setgroups 16 17 gs st = Done (Some EINVAL, st\<lparr>c_brk := c_brk st + 1, c_asu := True\<rparr>)"
    using assms by (simp add: setgroups_def id_call_steps)
  ultimately show ?thesis
    by (auto simp: installed_def)
qed

lemma setgroups_truncates_witness:
  "\<exists>st' cr'. setgroups 16 65536 (\<lambda>n. None) (cred_demo 0) = Done (None, st')
     \<and> c_heap st' (c_pcred st') = Some cr' \<and> cr_ngroups cr' = 0"
  using setgroups_truncates [OF cred_demo_ok cred_demo_cred, of 0 16 "\<lambda>n. None"] by auto

end
