(* ===== verification/Ipc.thy ===== *)
theory Ipc
  imports Cred
begin

unbundle bit_operations_syntax

text \<open>
  What the System V facilities share, \<^verbatim>\<open>uts/common/os/ipc.c\<close>: the permission structure of
  \<^verbatim>\<open>sys/ipc.h\<close>, the permission check, and the search of a facility's table for a key. The
  table is given by its permission structures, which are the first member of every entry.
\<close>

section \<open>Permission structures\<close>

record ipc_perm =
  ip_uid :: int
  ip_gid :: int
  ip_cuid :: int
  ip_cgid :: int
  ip_mode :: "32 word"
  ip_seq :: nat
  ip_key :: int

definition IPC_ALLOC :: "32 word" where "IPC_ALLOC = 0x8000"
definition IPC_CREAT :: "32 word" where "IPC_CREAT = 0x200"
definition IPC_EXCL :: "32 word" where "IPC_EXCL = 0x400"
definition IPC_NOWAIT :: "32 word" where "IPC_NOWAIT = 0x800"
definition IPC_PRIVATE :: int where "IPC_PRIVATE = 0"

text \<open>The nine permission bits, octal 777.\<close>

definition PERM_BITS :: "32 word" where "PERM_BITS = 0x1FF"

definition ipc_allocated :: "ipc_perm \<Rightarrow> bool" where
  "ipc_allocated p \<longleftrightarrow> ip_mode p AND IPC_ALLOC \<noteq> 0"

definition zero_perm :: ipc_perm where
  "zero_perm = \<lparr>ip_uid = 0, ip_gid = 0, ip_cuid = 0, ip_cgid = 0, ip_mode = 0, ip_seq = 0, ip_key = 0\<rparr>"

section \<open>Callers\<close>

text \<open>The calling process: credential, slot, process id, and the time of the call.\<close>

record caller =
  ca_cred :: cred
  ca_slot :: nat
  ca_pid :: int
  ca_now :: int

abbreviation IPC_MAXUID :: int where "IPC_MAXUID \<equiv> 2147483647"
abbreviation USHRT_MAX :: int where "USHRT_MAX \<equiv> 65535"

text \<open>A value as the unsigned 32-bit number that \<^verbatim>\<open>(unsigned)\<close> makes of it.\<close>

definition as_unsigned :: "int \<Rightarrow> int" where
  "as_unsigned x = x mod 2 ^ 32"

section \<open>Access\<close>

definition ipcaccess :: "ipc_perm \<Rightarrow> int \<Rightarrow> cred \<Rightarrow> errno option" where
  "ipcaccess p mode cr =
     (if cr_uid cr = 0 then None
      else
        let mode = (if cr_uid cr \<noteq> ip_uid p \<and> cr_uid cr \<noteq> ip_cuid p
                    then let mode = drop_bit 3 mode
                         in if \<not> groupmember (ip_gid p) cr \<and> \<not> groupmember (ip_cgid p) cr
                            then drop_bit 3 mode else mode
                    else mode)
        in if word_of_int mode AND ip_mode p \<noteq> 0 then None else Some EACCES)"

section \<open>Search for a key\<close>

text \<open>
  The result of the search is an error, or the index of the entry with a flag that says
  whether it is to be initialised. \<open>i\<close> is the index of the head of the list and \<open>a\<close> the first
  free entry met so far.
\<close>

fun ipc_private_scan :: "ipc_perm list \<Rightarrow> nat \<Rightarrow> errno + (bool \<times> nat)" where
  "ipc_private_scan [] i = Inl ENOSPC"
| "ipc_private_scan (p # ps) i =
     (if ipc_allocated p then ipc_private_scan ps (i + 1) else Inr (True, i))"

fun ipc_key_scan ::
    "int \<Rightarrow> 32 word \<Rightarrow> ipc_perm list \<Rightarrow> nat \<Rightarrow> nat option \<Rightarrow> errno + (bool \<times> nat)" where
  "ipc_key_scan key flag [] i a =
     (if flag AND IPC_CREAT = 0 then Inl ENOENT
      else case a of None \<Rightarrow> Inl ENOSPC | Some j \<Rightarrow> Inr (True, j))"
| "ipc_key_scan key flag (p # ps) i a =
     (if ipc_allocated p
      then (if ip_key p = key
            then (if flag AND (IPC_CREAT OR IPC_EXCL) = (IPC_CREAT OR IPC_EXCL) then Inl EEXIST
                  else if flag AND PERM_BITS AND NOT (ip_mode p) \<noteq> 0 then Inl EACCES
                  else Inr (False, i))
            else ipc_key_scan key flag ps (i + 1) a)
      else ipc_key_scan key flag ps (i + 1) (if a = None then Some i else a))"

definition ipc_init_perm :: "int \<Rightarrow> 32 word \<Rightarrow> cred \<Rightarrow> ipc_perm \<Rightarrow> ipc_perm" where
  "ipc_init_perm key flag cr p =
     p\<lparr>ip_mode := IPC_ALLOC OR (flag AND PERM_BITS), ip_key := key,
       ip_cuid := cr_uid cr, ip_uid := cr_uid cr, ip_cgid := cr_gid cr, ip_gid := cr_gid cr\<rparr>"

text \<open>The status, the index of the entry and the table as it is afterwards.\<close>

definition ipcget ::
    "int \<Rightarrow> 32 word \<Rightarrow> ipc_perm list \<Rightarrow> cred \<Rightarrow> errno + (nat \<times> nat \<times> ipc_perm list)" where
  "ipcget key flag base cr =
     (case (if key = IPC_PRIVATE then ipc_private_scan base 0
            else ipc_key_scan key flag base 0 None) of
        Inl e \<Rightarrow> Inl e
      | Inr (False, i) \<Rightarrow> Inr (0, i, base)
      | Inr (True, i) \<Rightarrow> Inr (1, i, base[i := ipc_init_perm key flag cr (base ! i)]))"

section \<open>What the search finds\<close>

lemma ipc_init_perm_simps [simp]:
  "ipc_allocated (ipc_init_perm key flag cr p)" "ip_key (ipc_init_perm key flag cr p) = key"
  "ip_seq (ipc_init_perm key flag cr p) = ip_seq p"
proof -
  have "(IPC_ALLOC OR (flag AND PERM_BITS)) AND IPC_ALLOC = IPC_ALLOC"
    by (rule bit_eqI) (auto simp: bit_simps)
  then show "ipc_allocated (ipc_init_perm key flag cr p)"
    by (simp add: ipc_allocated_def ipc_init_perm_def IPC_ALLOC_def)
qed (simp_all add: ipc_init_perm_def)

lemma ipc_private_scan_new:
  "ipc_private_scan ps i = Inr (new, j) \<Longrightarrow>
     new \<and> i \<le> j \<and> j < i + length ps \<and> \<not> ipc_allocated (ps ! (j - i))"
proof (induction ps arbitrary: i)
  case (Cons p ps)
  then show ?case
    by (auto simp: nth_Cons' split: if_splits dest!: Cons.IH)
qed simp

lemma ipc_private_scan_full:
  "ipc_private_scan ps i = Inl e \<Longrightarrow> e = ENOSPC \<and> (\<forall>p\<in>set ps. ipc_allocated p)"
  by (induction ps arbitrary: i) (auto split: if_splits)

definition key_used :: "int \<Rightarrow> ipc_perm list \<Rightarrow> bool" where
  "key_used key ps \<longleftrightarrow> (\<exists>p\<in>set ps. ipc_allocated p \<and> ip_key p = key)"

lemma key_used_simps [simp]:
  "\<not> key_used key []"
  "key_used key (p # ps) \<longleftrightarrow> ipc_allocated p \<and> ip_key p = key \<or> key_used key ps"
  by (auto simp: key_used_def)

lemma ipc_key_scan_old:
  "ipc_key_scan key flag ps i a = Inr (False, j) \<Longrightarrow>
     i \<le> j \<and> j < i + length ps \<and> ipc_allocated (ps ! (j - i)) \<and> ip_key (ps ! (j - i)) = key
     \<and> flag AND PERM_BITS AND NOT (ip_mode (ps ! (j - i))) = 0"
proof (induction ps arbitrary: i a)
  case (Cons p ps)
  then show ?case
    by (auto simp: nth_Cons' split: if_splits dest!: Cons.IH)
qed (auto split: if_splits option.splits)

lemma ipc_key_scan_new:
  "ipc_key_scan key flag ps i a = Inr (True, j) \<Longrightarrow>
     \<not> key_used key ps \<and>
     (a = Some j \<or> a = None \<and> i \<le> j \<and> j < i + length ps \<and> \<not> ipc_allocated (ps ! (j - i)))"
proof (induction ps arbitrary: i a)
  case (Cons p ps)
  then show ?case
    using Cons.IH [of "Suc i" a] Cons.IH [of "Suc i" "if a = None then Some i else a"]
    by (auto simp: nth_Cons' split: if_splits)
qed (auto split: if_splits option.splits)

lemma ipc_key_scan_error:
  "ipc_key_scan key flag ps i a = Inl e \<Longrightarrow>
     e = EEXIST \<and> key_used key ps \<and> flag AND (IPC_CREAT OR IPC_EXCL) = (IPC_CREAT OR IPC_EXCL)
     \<or> e = EACCES \<and> key_used key ps
     \<or> e = ENOENT \<and> \<not> key_used key ps \<and> flag AND IPC_CREAT = 0
     \<or> e = ENOSPC \<and> \<not> key_used key ps \<and> a = None \<and> (\<forall>p\<in>set ps. ipc_allocated p)"
proof (induction ps arbitrary: i a)
  case (Cons p ps)
  then show ?case
    using Cons.IH [of "Suc i" a] Cons.IH [of "Suc i" "if a = None then Some i else a"]
    by (auto split: if_splits)
qed (auto split: if_splits option.splits)

text \<open>No two entries in use carry the same key; private entries all carry key 0.\<close>

definition keys_ok :: "ipc_perm list \<Rightarrow> bool" where
  "keys_ok ps \<longleftrightarrow>
     (\<forall>i<length ps. \<forall>j<length ps. ipc_allocated (ps ! i) \<and> ipc_allocated (ps ! j) \<and>
        ip_key (ps ! i) = ip_key (ps ! j) \<and> ip_key (ps ! i) \<noteq> IPC_PRIVATE \<longrightarrow> i = j)"

lemma keys_ok_cong:
  assumes len: "length ps' = length ps"
    and sub: "\<And>i. i < length ps \<Longrightarrow> ipc_allocated (ps' ! i) \<Longrightarrow> ipc_allocated (ps ! i) \<and> ip_key (ps' ! i) = ip_key (ps ! i)"
    and ok: "keys_ok ps"
  shows "keys_ok ps'"
  unfolding keys_ok_def
proof (intro allI impI)
  fix i j
  assume "i < length ps'" "j < length ps'"
    and "ipc_allocated (ps' ! i) \<and> ipc_allocated (ps' ! j) \<and> ip_key (ps' ! i) = ip_key (ps' ! j) \<and> ip_key (ps' ! i) \<noteq> IPC_PRIVATE"
  with sub [of i] sub [of j] len ok show "i = j"
    by (simp add: keys_ok_def)
qed

lemma ipcget_found:
  assumes "ipcget key flag ps cr = Inr (0, i, ps')"
  shows "ps' = ps" and "i < length ps" and "ipc_allocated (ps ! i)" and "ip_key (ps ! i) = key"
    and "key \<noteq> IPC_PRIVATE" and "flag AND PERM_BITS AND NOT (ip_mode (ps ! i)) = 0"
  using assms ipc_key_scan_old [of key flag ps 0 None i] ipc_private_scan_new [of ps 0 False i]
  by (auto simp: ipcget_def split: sum.splits prod.splits bool.splits if_splits)

lemma ipcget_created:
  assumes "ipcget key flag ps cr = Inr (s, i, ps')" and "s \<noteq> 0"
  shows "s = 1" and "ps' = ps[i := ipc_init_perm key flag cr (ps ! i)]" and "i < length ps"
    and "\<not> ipc_allocated (ps ! i)" and "key \<noteq> IPC_PRIVATE \<Longrightarrow> \<not> key_used key ps"
  using assms ipc_key_scan_new [of key flag ps 0 None i] ipc_private_scan_new [of ps 0 True i]
  by (auto simp: ipcget_def split: sum.splits prod.splits bool.splits if_splits)

lemma ipcget_status: "ipcget key flag ps cr = Inr (s, i, ps') \<Longrightarrow> s = 0 \<or> s = 1"
  by (auto simp: ipcget_def split: sum.splits prod.splits bool.splits if_splits)

lemma keys_ok_init:
  assumes "keys_ok ps" and "key \<noteq> IPC_PRIVATE \<Longrightarrow> \<not> key_used key ps"
  shows "keys_ok (ps[i := ipc_init_perm key flag cr (ps ! i)])"
  unfolding keys_ok_def
proof (intro allI impI)
  let ?ps' = "ps[i := ipc_init_perm key flag cr (ps ! i)]"
  fix j k
  assume l: "j < length ?ps'" "k < length ?ps'"
    and h: "ipc_allocated (?ps' ! j) \<and> ipc_allocated (?ps' ! k) \<and>
      ip_key (?ps' ! j) = ip_key (?ps' ! k) \<and> ip_key (?ps' ! j) \<noteq> IPC_PRIVATE"
  have "\<not> (ipc_allocated (ps ! m) \<and> ip_key (ps ! m) = key)" if "key \<noteq> IPC_PRIVATE" "m < length ps" for m
    using assms(2) that by (auto simp: key_used_def)
  with l h assms(1) show "j = k"
    by (cases "j = i"; cases "k = i") (auto simp: keys_ok_def)
qed

lemma keys_ok_ipcget:
  assumes "keys_ok ps" and "ipcget key flag ps cr = Inr (s, i, ps')"
  shows "keys_ok ps'"
proof (cases "s = 0")
  case True
  with assms show ?thesis
    using ipcget_found [of key flag ps cr i ps'] by simp
next
  case False
  then show ?thesis
    using ipcget_created [OF assms(2)] keys_ok_init [OF assms(1)] by simp
qed

lemma ipc_key_scan_first:
  assumes "ipc_allocated p" and "ip_key p = key" and "\<not> key_used key ps"
    and "flag AND (IPC_CREAT OR IPC_EXCL) \<noteq> (IPC_CREAT OR IPC_EXCL)"
    and "flag AND PERM_BITS AND NOT (ip_mode p) = 0"
  shows "ipc_key_scan key flag (ps @ p # qs) i a = Inr (False, i + length ps)"
  using assms by (induction ps arbitrary: i a) auto

lemma ipc_key_scan_hit:
  assumes ok: "keys_ok ps" and j: "j < length ps" and p: "ipc_allocated (ps ! j)" "ip_key (ps ! j) = key"
    and key: "key \<noteq> IPC_PRIVATE"
    and flag: "flag AND (IPC_CREAT OR IPC_EXCL) \<noteq> (IPC_CREAT OR IPC_EXCL)"
      "flag AND PERM_BITS AND NOT (ip_mode (ps ! j)) = 0"
  shows "ipcget key flag ps cr = Inr (0, j, ps)"
proof -
  have "\<not> (ipc_allocated (ps ! k) \<and> ip_key (ps ! k) = key)" if "k < j" for k
    using ok j p key that unfolding keys_ok_def by (metis less_irrefl order.strict_trans)
  then have "\<not> key_used key (take j ps)"
    using j by (fastforce simp: key_used_def in_set_conv_nth)
  then have "ipc_key_scan key flag (take j ps @ ps ! j # drop (Suc j) ps) 0 None
      = Inr (False, 0 + length (take j ps))"
    by (rule ipc_key_scan_first [OF p _ flag])
  with key j show ?thesis
    by (simp add: ipcget_def id_take_nth_drop [symmetric])
qed

text \<open>
  C39. The key search is a dictionary: on a table in which keys are unique a creation puts the
  key into a free entry, keeps keys unique and leaves all other entries alone, and whoever
  asks for the key afterwards, without insisting on a new entry and with no more permission
  bits than the entry has, is given that very entry, with the table unchanged.
\<close>

theorem ipcget_create_find:
  assumes "keys_ok ps" and "key \<noteq> IPC_PRIVATE" and "ipcget key flag ps cr = Inr (1, i, ps')"
  shows "\<not> key_used key ps \<and> i < length ps \<and> \<not> ipc_allocated (ps ! i) \<and> keys_ok ps'
    \<and> (\<forall>j. j \<noteq> i \<longrightarrow> ps' ! j = ps ! j)
    \<and> ip_uid (ps' ! i) = cr_uid cr \<and> ip_gid (ps' ! i) = cr_gid cr
    \<and> (\<forall>flag2 cr2. flag2 AND (IPC_CREAT OR IPC_EXCL) \<noteq> (IPC_CREAT OR IPC_EXCL) \<longrightarrow>
         flag2 AND PERM_BITS AND NOT (ip_mode (ps' ! i)) = 0 \<longrightarrow>
         ipcget key flag2 ps' cr2 = Inr (0, i, ps'))"
proof -
  note new = ipcget_created [OF assms(3) one_neq_zero]
  have ok: "keys_ok ps'"
    by (rule keys_ok_ipcget [OF assms(1,3)])
  have "ps' ! i = ipc_init_perm key flag cr (ps ! i)" "i < length ps'"
    using new by simp_all
  then have "ipcget key flag2 ps' cr2 = Inr (0, i, ps')"
    if "flag2 AND (IPC_CREAT OR IPC_EXCL) \<noteq> (IPC_CREAT OR IPC_EXCL)"
      and "flag2 AND PERM_BITS AND NOT (ip_mode (ps' ! i)) = 0" for flag2 cr2
    using ipc_key_scan_hit [OF ok _ _ _ assms(2), of i flag2] that by simp
  with new ok assms(2) show ?thesis
    by (simp add: ipc_init_perm_def)
qed

definition wit_free_perm :: ipc_perm where
  "wit_free_perm = \<lparr>ip_uid = 0, ip_gid = 0, ip_cuid = 0, ip_cgid = 0, ip_mode = 0, ip_seq = 4, ip_key = 0\<rparr>"

theorem ipcget_create_find_witness:
  "\<exists>ps'. ipcget 77 0x3B6 [wit_free_perm] (zero_cred 16) = Inr (1, 0, ps') \<and> keys_ok ps'
     \<and> ipcget 77 0 ps' (zero_cred 16) = Inr (0, 0, ps')"
proof -
  obtain ps' where g: "ipcget 77 0x3B6 [wit_free_perm] (zero_cred 16) = Inr (1, 0, ps')"
    by (simp add: ipcget_def wit_free_perm_def ipc_allocated_def IPC_CREAT_def IPC_PRIVATE_def)
  have "keys_ok [wit_free_perm]"
    by (simp add: keys_ok_def)
  with g show ?thesis
    using ipcget_create_find [of "[wit_free_perm]" 77 "0x3B6" "zero_cred 16" 0 ps']
    by (simp add: IPC_PRIVATE_def IPC_CREAT_def IPC_EXCL_def)
qed

end
