(* ===== verification/Sem.thy ===== *)
theory Sem
  imports Ipc Rmap
begin

text \<open>
  System V semaphores, \<^verbatim>\<open>uts/common/syscall/sem.c\<close>: the table of semaphore sets, the pool of
  semaphores that sets are cut from by the resource map, and the undo structures of
  processes. This theory holds the model; \<^verbatim>\<open>Sem_Ops\<close> is about operations and their
  adjustments, \<^verbatim>\<open>Sem_Sets\<close> about the life of sets. Semaphores go back to the map in one step: the
  moment without the lock of the map in which \<^verbatim>\<open>rmfree\<close> reports an overflow, and what others do to
  the map then, is a matter of \<^verbatim>\<open>Rmap\<close>.
\<close>

section \<open>State\<close>

text \<open>The tunables, which are not negative.\<close>

record seminfo =
  semmap :: nat
  semmni :: nat
  semmns :: nat
  semmnu :: nat
  semmsl :: nat
  semopm :: nat
  semume :: nat
  semvmx :: nat
  semaem :: nat

record sem =
  semval :: nat
  sempid :: int
  semncnt :: nat
  semzcnt :: nat

text \<open>\<open>sem_base\<close> is the index of the first semaphore in the pool; the reserved words are left out.\<close>

record semid_ds =
  sem_perm :: ipc_perm
  sem_base :: nat
  sem_nsems :: nat
  sem_otime :: int
  sem_ctime :: int
  sem_binary :: bool

record undo =
  un_aoe :: int
  un_num :: nat
  un_id :: int

text \<open>The flags are looked at below bit 15 only, so their sign does not matter.\<close>

record sembuf =
  sem_num :: nat
  sem_op :: int
  sem_flg :: "32 word"

text \<open>Wake-ups, by the index of the semaphore whose condition variable is used.\<close>

datatype wake = Signal_ncnt nat | Broadcast_ncnt nat | Signal_zcnt nat | Broadcast_zcnt nat

text \<open>
  Undo structures are numbered. \<open>un_ent\<close> gives the entries in use of each (\<^verbatim>\<open>un_cnt\<close> is
  their number), \<open>sem_undo\<close> the structure of the process in a slot, and \<open>semunp\<close> and \<open>semfup\<close>
  are the active and the free list, as the sequences the \<^verbatim>\<open>un_np\<close> links run through. \<open>wakes\<close>
  records the wake-ups, the latest first.
\<close>

record semst =
  sema :: "semid_ds list"
  sems :: "sem list"
  smap :: rmap
  un_ent :: "nat \<Rightarrow> undo list"
  sem_undo :: "nat \<Rightarrow> nat option"
  semunp :: "nat list"
  semfup :: "nat list"
  wakes :: "wake list"

definition SEM_A :: int where "SEM_A = 128"
definition SEM_R :: int where "SEM_R = 256"
definition SEM_UNDO :: "32 word" where "SEM_UNDO = 0x1000"

definition wake_up :: "wake \<Rightarrow> semst \<Rightarrow> semst" where
  "wake_up w st = st\<lparr>wakes := w # wakes st\<rparr>"

definition set_sem :: "nat \<Rightarrow> sem \<Rightarrow> semst \<Rightarrow> semst" where
  "set_sem k s st = st\<lparr>sems := (sems st)[k := s]\<rparr>"

section \<open>Adjust on exit\<close>

text \<open>Where the entry for a semaphore is or belongs, and whether it is there.\<close>

fun aoe_scan :: "int \<Rightarrow> nat \<Rightarrow> undo list \<Rightarrow> nat \<times> bool" where
  "aoe_scan semid num [] = (0, False)"
| "aoe_scan semid num (e # es) =
     (if un_id e < semid \<or> un_id e = semid \<and> un_num e < num
      then let (i, found) = aoe_scan semid num es in (Suc i, found)
      else (0, un_id e = semid \<and> un_num e = num))"

text \<open>
  The work of \<^verbatim>\<open>semaoe\<close> on the entries of one structure. The entry is a \<^verbatim>\<open>short\<close>; on the
  way out with an error the value is added again, which restores it.
\<close>

definition aoe_entries ::
    "seminfo \<Rightarrow> int \<Rightarrow> int \<Rightarrow> nat \<Rightarrow> undo list \<Rightarrow> errno option \<times> undo list" where
  "aoe_entries si val semid num es =
     (let (i, found) = aoe_scan semid num es in
      if \<not> found
      then (if length es \<ge> semume si then (Some EINVAL, es)
            else (None, take i es @ \<lparr>un_aoe = s16 (- val), un_num = num, un_id = semid\<rparr> # drop i es))
      else
        let aoe = s16 (un_aoe (es ! i) - val) in
        if aoe > int (semaem si) \<or> aoe < - int (semaem si)
        then (Some ERANGE, es[i := (es ! i)\<lparr>un_aoe := s16 (aoe + val)\<rparr>])
        else if aoe = 0 then (None, take i es @ drop (Suc i) es)
        else (None, es[i := (es ! i)\<lparr>un_aoe := aoe\<rparr>]))"

text \<open>
  An entry list that becomes non-empty puts its structure on the active list, one that
  becomes empty takes it off.
\<close>

definition set_entries :: "nat \<Rightarrow> undo list \<Rightarrow> semst \<Rightarrow> semst" where
  "set_entries up es st =
     (let st' = st\<lparr>un_ent := (un_ent st)(up := es)\<rparr> in
      if un_ent st up = [] \<and> es \<noteq> [] then st'\<lparr>semunp := up # semunp st\<rparr>
      else if un_ent st up \<noteq> [] \<and> es = [] then st'\<lparr>semunp := remove1 up (semunp st)\<rparr>
      else st')"

definition semaoe :: "seminfo \<Rightarrow> nat \<Rightarrow> int \<Rightarrow> int \<Rightarrow> nat \<Rightarrow> semst \<Rightarrow> errno option \<times> semst" where
  "semaoe si slot val semid num st =
     (if val = 0 then (None, st)
      else if val > int (semaem si) \<or> val < - int (semaem si) then (Some ERANGE, st)
      else
        case (case sem_undo st slot of
                Some up \<Rightarrow> Some (up, st)
              | None \<Rightarrow>
                  (case semfup st of
                     [] \<Rightarrow> None
                   | up # rest \<Rightarrow> Some (up, st\<lparr>semfup := rest, sem_undo := (sem_undo st)(slot \<mapsto> up)\<rparr>))) of
          None \<Rightarrow> (Some ENOSPC, st)
        | Some (up, st) \<Rightarrow>
            let (e, es) = aoe_entries si val semid num (un_ent st up)
            in (e, set_entries up es st))"

text \<open>The removal of the entries of semaphores \<open>low\<close> to \<open>high\<close> of a set.\<close>

fun unrm_entries :: "int \<Rightarrow> nat \<Rightarrow> nat \<Rightarrow> undo list \<Rightarrow> undo list" where
  "unrm_entries semid low high [] = []"
| "unrm_entries semid low high (e # es) =
     (if semid < un_id e then e # es
      else if semid > un_id e \<or> low > un_num e then e # unrm_entries semid low high es
      else if high < un_num e then e # es
      else unrm_entries semid low high es)"

fun semunrm_loop :: "int \<Rightarrow> nat \<Rightarrow> nat \<Rightarrow> nat list \<Rightarrow> (nat \<Rightarrow> undo list) \<Rightarrow> nat list \<times> (nat \<Rightarrow> undo list)" where
  "semunrm_loop semid low high [] ent = ([], ent)"
| "semunrm_loop semid low high (p # ps) ent =
     (let es = unrm_entries semid low high (ent p);
          (ps', ent') = semunrm_loop semid low high ps (ent(p := es))
      in (if es = [] then ps' else p # ps', ent'))"

definition semunrm :: "int \<Rightarrow> nat \<Rightarrow> nat \<Rightarrow> semst \<Rightarrow> semst" where
  "semunrm semid low high st =
     (let (ps, ent) = semunrm_loop semid low high (semunp st) (un_ent st)
      in st\<lparr>semunp := ps, un_ent := ent\<rparr>)"

text \<open>The operations that were done are given with the latest first.\<close>

fun semundo :: "seminfo \<Rightarrow> nat \<Rightarrow> int \<Rightarrow> nat \<Rightarrow> sembuf list \<Rightarrow> semst \<Rightarrow> semst outcome" where
  "semundo si slot semid base [] st = Done st"
| "semundo si slot semid base (op # ops) st =
     (if sem_op op = 0 then semundo si slot semid base ops st
      else
        let k = base + sem_num op in
        if length (sems st) \<le> k then Overrun
        else
          let semp = sems st ! k;
              st = set_sem k (semp\<lparr>semval := nat ((int (semval semp) - sem_op op) mod 65536)\<rparr>) st;
              st = (if sem_flg op AND SEM_UNDO \<noteq> 0
                    then snd (semaoe si slot (s16 (- sem_op op)) semid (sem_num op) st) else st)
          in semundo si slot semid base ops st)"

section \<open>Identifiers\<close>

abbreviation SEMA_SEQ_MAX :: nat where "SEMA_SEQ_MAX \<equiv> 32767"

definition sem_index :: "int \<Rightarrow> nat" where
  "sem_index s = nat (s mod 65536)"

definition sem_sequence :: "int \<Rightarrow> nat" where
  "sem_sequence s = nat (s div 65536 mod 32768)"

text \<open>The index of the set, with its lock held.\<close>

definition semconv_lock :: "seminfo \<Rightarrow> int \<Rightarrow> semst \<Rightarrow> nat option" where
  "semconv_lock si s st =
     (let index = sem_index s in
      if index \<ge> semmni si then None
      else
        let sp = sema st ! index in
        if \<not> ipc_allocated (sem_perm sp) \<or> sem_sequence s \<noteq> ip_seq (sem_perm sp) then None
        else Some index)"

definition semconv :: "seminfo \<Rightarrow> int \<Rightarrow> semst \<Rightarrow> errno option" where
  "semconv si s st =
     (let index = sem_index s in
      if index \<ge> semmni si then Some EINVAL
      else
        let sp = sema st ! index in
        if \<not> ipc_allocated (sem_perm sp) \<or> sem_sequence s \<noteq> ip_seq (sem_perm sp) then Some EINVAL
        else None)"

definition set_ds :: "nat \<Rightarrow> semid_ds \<Rightarrow> semst \<Rightarrow> semst" where
  "set_ds i sp st = st\<lparr>sema := (sema st)[i := sp]\<rparr>"

section \<open>Semaphore operations\<close>

text \<open>
  How a pass over the operations ends: all done, an error, or a sleep on the semaphore
  with the given index until its value grows or until it is zero.
\<close>

datatype passres = Pass_ok | Pass_err errno | Pass_sleep_n nat | Pass_sleep_z nat

text \<open>The wake-ups after a value was raised, and after one was lowered.\<close>

definition sem_v_wake :: "bool \<Rightarrow> nat \<Rightarrow> semst \<Rightarrow> semst" where
  "sem_v_wake signal k st =
     (let semp = sems st ! k;
          st = (if semncnt semp \<noteq> 0
                then (if signal
                      then wake_up (Signal_ncnt k) (set_sem k (semp\<lparr>semncnt := semncnt semp - 1\<rparr>) st)
                      else wake_up (Broadcast_ncnt k) (set_sem k (semp\<lparr>semncnt := 0\<rparr>) st))
                else st);
          semp = sems st ! k
      in if semzcnt semp \<noteq> 0 \<and> semval semp = 0
         then (if signal
               then wake_up (Signal_zcnt k) (set_sem k (semp\<lparr>semzcnt := semzcnt semp - 1\<rparr>) st)
               else wake_up (Broadcast_zcnt k) (set_sem k (semp\<lparr>semzcnt := 0\<rparr>) st))
         else st)"

definition sem_p_wake :: "nat \<Rightarrow> semst \<Rightarrow> semst" where
  "sem_p_wake k st =
     (let semp = sems st ! k
      in if semzcnt semp \<noteq> 0 \<and> semval semp = 0
         then wake_up (Broadcast_zcnt k) (set_sem k (semp\<lparr>semzcnt := 0\<rparr>) st)
         else st)"

definition sem_add :: "nat \<Rightarrow> int \<Rightarrow> semst \<Rightarrow> semst" where
  "sem_add k v st =
     (let semp = sems st ! k
      in set_sem k (semp\<lparr>semval := nat ((int (semval semp) + v) mod 65536)\<rparr>) st)"

text \<open>The adjustment that \<^verbatim>\<open>SEM_UNDO\<close> asks for.\<close>

definition op_aoe :: "seminfo \<Rightarrow> nat \<Rightarrow> int \<Rightarrow> sembuf \<Rightarrow> semst \<Rightarrow> errno option \<times> semst" where
  "op_aoe si slot semid op st =
     (if sem_flg op AND SEM_UNDO \<noteq> 0 then semaoe si slot (sem_op op) semid (sem_num op) st
      else (None, st))"

text \<open>
  The loop over the operations of a set with index \<open>x\<close> in the table; \<open>dn\<close> are the
  operations already done, the latest first, which are undone when the pass fails.
\<close>

fun semop_pass ::
    "seminfo \<Rightarrow> nat \<Rightarrow> int \<Rightarrow> nat \<Rightarrow> bool \<Rightarrow> sembuf list \<Rightarrow> sembuf list \<Rightarrow> semst \<Rightarrow> (passres \<times> semst) outcome" where
  "semop_pass si slot semid x binary dn [] st = Done (Pass_ok, st)"
| "semop_pass si slot semid x binary dn (op # ops) st =
     (let base = sem_base (sema st ! x); k = base + sem_num op in
      if length (sems st) \<le> k then Overrun
      else if sem_op op > 0
      then (if sem_op op + int (semval (sems st ! k)) > int (semvmx si)
            then bind_outcome (semundo si slot semid base dn st) (\<lambda>st. Done (Pass_err ERANGE, st))
            else case op_aoe si slot semid op st of
                   (Some e, st) \<Rightarrow> bind_outcome (semundo si slot semid base dn st) (\<lambda>st. Done (Pass_err e, st))
                 | (None, st) \<Rightarrow>
                     semop_pass si slot semid x binary (op # dn) ops
                       (sem_v_wake (sem_op op = 1 \<and> binary) k (sem_add k (sem_op op) st)))
      else if sem_op op < 0
      then (if int (semval (sems st ! k)) \<ge> - sem_op op
            then (case op_aoe si slot semid op st of
                    (Some e, st) \<Rightarrow> bind_outcome (semundo si slot semid base dn st) (\<lambda>st. Done (Pass_err e, st))
                  | (None, st) \<Rightarrow>
                      semop_pass si slot semid x binary (op # dn) ops
                        (sem_p_wake k (sem_add k (sem_op op) st)))
            else bind_outcome (semundo si slot semid base dn st) (\<lambda>st.
              if sem_flg op AND IPC_NOWAIT \<noteq> 0 then Done (Pass_err EAGAIN, st)
              else
                let semp = sems st ! k;
                    st = set_sem k (semp\<lparr>semncnt := (semncnt semp + 1) mod 65536\<rparr>) st;
                    st = (if sem_op op < - 1 then set_ds x ((sema st ! x)\<lparr>sem_binary := False\<rparr>) st else st)
                in Done (Pass_sleep_n k, st)))
      else if semval (sems st ! k) \<noteq> 0
      then bind_outcome (semundo si slot semid base dn st) (\<lambda>st.
             if sem_flg op AND IPC_NOWAIT \<noteq> 0 then Done (Pass_err EAGAIN, st)
             else
               let semp = sems st ! k
               in Done (Pass_sleep_z k, set_sem k (semp\<lparr>semzcnt := (semzcnt semp + 1) mod 65536\<rparr>) st))
      else semop_pass si slot semid x binary (op # dn) ops st)"

text \<open>A call of \<^verbatim>\<open>semop\<close> returns an error or 0, or sleeps.\<close>

datatype semop_res = Returned "errno option" | Sleeping_n nat | Sleeping_z nat

fun set_pids :: "int \<Rightarrow> nat \<Rightarrow> sembuf list \<Rightarrow> semst \<Rightarrow> semst" where
  "set_pids pid base [] st = st"
| "set_pids pid base (op # ops) st =
     (let k = base + sem_num op
      in set_pids pid base ops (set_sem k ((sems st ! k)\<lparr>sempid := pid\<rparr>) st))"

text \<open>From the label \<^verbatim>\<open>check\<close> on.\<close>

definition semop_check :: "seminfo \<Rightarrow> caller \<Rightarrow> int \<Rightarrow> nat \<Rightarrow> sembuf list \<Rightarrow> semst \<Rightarrow> (semop_res \<times> semst) outcome" where
  "semop_check si ca semid x uops st =
     (let binary = sem_binary (sema st ! x) \<and> sem_nsems (sema st ! x) = 1 in
      bind_outcome (semop_pass si (ca_slot ca) semid x binary [] uops st) (\<lambda>(r, st).
        case r of
          Pass_err e \<Rightarrow> Done (Returned (Some e), st)
        | Pass_sleep_n k \<Rightarrow> Done (Sleeping_n k, st)
        | Pass_sleep_z k \<Rightarrow> Done (Sleeping_z k, st)
        | Pass_ok \<Rightarrow>
            let st = set_pids (ca_pid ca) (sem_base (sema st ! x)) uops st
            in Done (Returned None, set_ds x ((sema st ! x)\<lparr>sem_otime := ca_now ca\<rparr>) st)))"

fun semop_verify :: "cred \<Rightarrow> semid_ds \<Rightarrow> sembuf list \<Rightarrow> errno option" where
  "semop_verify cr sp [] = None"
| "semop_verify cr sp (op # ops) =
     (case ipcaccess (sem_perm sp) (if sem_op op \<noteq> 0 then SEM_A else SEM_R) cr of
        Some e \<Rightarrow> Some e
      | None \<Rightarrow> if sem_num op \<ge> sem_nsems sp then Some EFBIG else semop_verify cr sp ops)"

text \<open>\<open>fault\<close> says that the operations could not be copied in.\<close>

definition semop ::
    "seminfo \<Rightarrow> caller \<Rightarrow> int \<Rightarrow> bool \<Rightarrow> sembuf list \<Rightarrow> semst \<Rightarrow> (semop_res \<times> semst) outcome" where
  "semop si ca semid fault sops st =
     (if length sops > semopm si then Done (Returned (Some E2BIG), st)
      else if length sops = 0 then Done (Returned None, st)
      else if fault then Done (Returned (Some EFAULT), st)
      else
        case semconv_lock si semid st of
          None \<Rightarrow> Done (Returned (Some EINVAL), st)
        | Some x \<Rightarrow>
            (case semop_verify (ca_cred ca) (sema st ! x) sops of
               Some e \<Rightarrow> Done (Returned (Some e), st)
             | None \<Rightarrow> semop_check si ca semid x sops st))"

text \<open>
  What a sleeper does when \<^verbatim>\<open>cv_wait_sig\<close> returns: after a signal to the process it takes
  itself off the count, otherwise it tries again if the set is still there.
\<close>

definition semop_wakeup ::
    "seminfo \<Rightarrow> caller \<Rightarrow> int \<Rightarrow> nat \<Rightarrow> sembuf list \<Rightarrow> semst \<Rightarrow> (semop_res \<times> semst) outcome" where
  "semop_wakeup si ca semid x uops st =
     (case semconv si semid st of
        Some _ \<Rightarrow> Done (Returned (Some EIDRM), st)
      | None \<Rightarrow> semop_check si ca semid x uops st)"

definition semop_interrupt_n :: "nat \<Rightarrow> semst \<Rightarrow> semop_res \<times> semst" where
  "semop_interrupt_n k st =
     (let semp = sems st ! k
      in (Returned (Some EINTR),
          if semncnt semp \<le> 1 then wake_up (Broadcast_ncnt k) (set_sem k (semp\<lparr>semncnt := 0\<rparr>) st)
          else set_sem k (semp\<lparr>semncnt := semncnt semp - 1\<rparr>) st))"

definition semop_interrupt_z :: "nat \<Rightarrow> semst \<Rightarrow> semop_res \<times> semst" where
  "semop_interrupt_z k st =
     (let semp = sems st ! k
      in (Returned (Some EINTR),
          if semzcnt semp \<le> 1 then wake_up (Broadcast_zcnt k) (set_sem k (semp\<lparr>semzcnt := 0\<rparr>) st)
          else set_sem k (semp\<lparr>semzcnt := semzcnt semp - 1\<rparr>) st))"

section \<open>Process exit\<close>

fun semexit_loop :: "seminfo \<Rightarrow> undo list \<Rightarrow> semst \<Rightarrow> semst outcome" where
  "semexit_loop si [] st = Done st"
| "semexit_loop si (e # es) st =
     (case semconv_lock si (un_id e) st of
        None \<Rightarrow> semexit_loop si es st
      | Some x \<Rightarrow>
          let k = sem_base (sema st ! x) + un_num e in
          if length (sems st) \<le> k then Overrun
          else
            let semp = sems st ! k;
                v = int (semval semp) + un_aoe e
            in if v < 0 \<or> v > int (semvmx si) then semexit_loop si es st
               else
                 let semp = semp\<lparr>semval := nat (v mod 65536)\<rparr>;
                     st = set_sem k semp st;
                     st = (if v = 0 \<and> semzcnt semp \<noteq> 0
                           then wake_up (Broadcast_zcnt k) (set_sem k (semp\<lparr>semzcnt := 0\<rparr>) st) else st);
                     semp = sems st ! k;
                     st = (if un_aoe e > 0 \<and> semncnt semp \<noteq> 0
                           then wake_up (Broadcast_ncnt k) (set_sem k (semp\<lparr>semncnt := 0\<rparr>) st) else st)
                 in semexit_loop si es st)"

definition semexit :: "seminfo \<Rightarrow> nat \<Rightarrow> semst \<Rightarrow> semst outcome" where
  "semexit si slot st =
     (case sem_undo st slot of
        None \<Rightarrow> Done st
      | Some up \<Rightarrow>
          if un_ent st up = []
          then Done (st\<lparr>semfup := up # semfup st, sem_undo := (sem_undo st)(slot := None)\<rparr>)
          else
            bind_outcome (semexit_loop si (rev (un_ent st up)) st) (\<lambda>st.
              Done (st\<lparr>un_ent := (un_ent st)(up := []), semunp := remove1 up (semunp st),
                       semfup := up # semfup st, sem_undo := (sem_undo st)(slot := None)\<rparr>)))"

section \<open>Control\<close>

text \<open>
  The commands of \<^verbatim>\<open>semctl\<close> with what is read from or written to user memory: an argument
  that could not be copied in is \<open>None\<close>, \<open>IPC_STAT\<close> and \<open>IPC_O_STAT\<close> say whether the copy out
  works, and \<open>GETALL\<close> says how many values can be stored before one faults. The old
  commands carry 16-bit ids.
\<close>

datatype semcmd =
    IPC_RMID
  | IPC_SET "(int \<times> int \<times> 32 word) option"
  | IPC_O_SET "(nat \<times> nat \<times> 32 word) option"
  | IPC_STAT bool
  | IPC_O_STAT bool
  | GETNCNT | GETPID | GETVAL | GETZCNT
  | GETALL nat
  | SETVAL int
  | SETALL "nat list option"
  | Unknown_cmd

datatype semret = Ret int | Ret_ds semid_ds | Ret_vals "nat list"

definition sem_owner :: "caller \<Rightarrow> semid_ds \<Rightarrow> bool" where
  "sem_owner ca sp \<longleftrightarrow>
     \<not> (cr_uid (ca_cred ca) \<noteq> ip_uid (sem_perm sp) \<and> cr_uid (ca_cred ca) \<noteq> ip_cuid (sem_perm sp)
        \<and> cr_uid (ca_cred ca) \<noteq> 0)"

text \<open>The loop of \<^verbatim>\<open>IPC_RMID\<close> over the \<open>n\<close> semaphores from \<open>k\<close> on.\<close>

definition sem_reset :: "nat \<Rightarrow> semst \<Rightarrow> semst" where
  "sem_reset k st =
     (let semp = (sems st ! k)\<lparr>semval := 0, sempid := 0\<rparr>;
          st = set_sem k semp st;
          st = (if semncnt semp \<noteq> 0
                then set_sem k (semp\<lparr>semncnt := 0\<rparr>) (wake_up (Broadcast_ncnt k) st) else st);
          semp = sems st ! k
      in if semzcnt semp \<noteq> 0
         then set_sem k (semp\<lparr>semzcnt := 0\<rparr>) (wake_up (Broadcast_zcnt k) st) else st)"

fun sem_reset_loop :: "nat \<Rightarrow> nat \<Rightarrow> semst \<Rightarrow> semst outcome" where
  "sem_reset_loop k 0 st = Done st"
| "sem_reset_loop k (Suc n) st =
     (if length (sems st) \<le> k then Overrun else sem_reset_loop (k + 1) n (sem_reset k st))"

definition sem_rmid :: "caller \<Rightarrow> int \<Rightarrow> nat \<Rightarrow> semst \<Rightarrow> ((errno + semret) \<times> semst) outcome" where
  "sem_rmid ca semid x st =
     (let sp = sema st ! x in
      if \<not> sem_owner ca sp then Done (Inl EPERM, st)
      else
        let st = semunrm semid 0 (sem_nsems sp) st in
        bind_outcome (sem_reset_loop (sem_base sp) (sem_nsems sp) st) (\<lambda>st.
        bind_outcome (rmfree (smap st) (sem_nsems sp) (sem_base sp + 1)) (\<lambda>mp.
          let st = st\<lparr>smap := mp\<rparr>;
              seq = (if sem_sequence semid = SEMA_SEQ_MAX then 0 else ip_seq (sem_perm sp) + 1)
          in Done (Inr (Ret 0),
                   set_ds x (sp\<lparr>sem_perm := (sem_perm sp)\<lparr>ip_seq := seq, ip_mode := 0\<rparr>\<rparr>) st))))"

definition sem_ipc_set ::
    "caller \<Rightarrow> nat \<Rightarrow> (int \<times> int \<times> 32 word) option \<Rightarrow> semst \<Rightarrow> (errno + semret) \<times> semst" where
  "sem_ipc_set ca x arg st =
     (let sp = sema st ! x in
      if \<not> sem_owner ca sp then (Inl EPERM, st)
      else case arg of
        None \<Rightarrow> (Inl EFAULT, st)
      | Some (uid, gid, mode) \<Rightarrow>
          if uid < 0 \<or> uid > IPC_MAXUID \<or> gid < 0 \<or> gid > IPC_MAXUID then (Inl EINVAL, st)
          else (Inr (Ret 0),
                set_ds x (sp\<lparr>sem_perm := (sem_perm sp)\<lparr>ip_uid := uid, ip_gid := gid,
                                 ip_mode := mode AND PERM_BITS OR IPC_ALLOC\<rparr>,
                             sem_ctime := ca_now ca\<rparr>) st))"

definition sem_ipc_o_set ::
    "caller \<Rightarrow> nat \<Rightarrow> (nat \<times> nat \<times> 32 word) option \<Rightarrow> semst \<Rightarrow> (errno + semret) \<times> semst" where
  "sem_ipc_o_set ca x arg st =
     (let sp = sema st ! x in
      if \<not> sem_owner ca sp then (Inl EPERM, st)
      else case arg of
        None \<Rightarrow> (Inl EFAULT, st)
      | Some (uid, gid, mode) \<Rightarrow>
          if int uid > IPC_MAXUID \<or> int gid > IPC_MAXUID then (Inl EINVAL, st)
          else (Inr (Ret 0),
                set_ds x (sp\<lparr>sem_perm := (sem_perm sp)\<lparr>ip_uid := int uid, ip_gid := int gid,
                                 ip_mode := mode AND PERM_BITS OR IPC_ALLOC\<rparr>,
                             sem_ctime := ca_now ca\<rparr>) st))"

definition sem_ipc_stat :: "caller \<Rightarrow> nat \<Rightarrow> bool \<Rightarrow> semst \<Rightarrow> (errno + semret)" where
  "sem_ipc_stat ca x ok st =
     (let sp = sema st ! x in
      case ipcaccess (sem_perm sp) SEM_R (ca_cred ca) of
        Some e \<Rightarrow> Inl e
      | None \<Rightarrow> if \<not> ok then Inl EFAULT else Inr (Ret_ds sp))"

definition sem_ipc_o_stat :: "caller \<Rightarrow> nat \<Rightarrow> bool \<Rightarrow> semst \<Rightarrow> (errno + semret)" where
  "sem_ipc_o_stat ca x ok st =
     (let sp = sema st ! x; p = sem_perm sp in
      case ipcaccess p SEM_R (ca_cred ca) of
        Some e \<Rightarrow> Inl e
      | None \<Rightarrow>
          if as_unsigned (ip_uid p) > USHRT_MAX \<or> as_unsigned (ip_gid p) > USHRT_MAX
             \<or> as_unsigned (ip_cuid p) > USHRT_MAX \<or> as_unsigned (ip_cgid p) > USHRT_MAX
             \<or> as_unsigned (int (ip_seq p)) > USHRT_MAX
          then Inl EOVERFLOW
          else if \<not> ok then Inl EFAULT
          else Inr (Ret_ds (sp\<lparr>sem_perm := p\<lparr>ip_mode := ip_mode p AND 0xFFFF\<rparr>, sem_base := 0\<rparr>)))"

text \<open>The four commands that read one member of one semaphore.\<close>

definition sem_get_member ::
    "caller \<Rightarrow> nat \<Rightarrow> nat \<Rightarrow> (sem \<Rightarrow> int) \<Rightarrow> semst \<Rightarrow> (errno + semret) outcome" where
  "sem_get_member ca x semnum member st =
     (let sp = sema st ! x in
      case ipcaccess (sem_perm sp) SEM_R (ca_cred ca) of
        Some e \<Rightarrow> Done (Inl e)
      | None \<Rightarrow>
          if semnum \<ge> sem_nsems sp then Done (Inl EINVAL)
          else if length (sems st) \<le> sem_base sp + semnum then Overrun
          else Done (Inr (Ret (member (sems st ! (sem_base sp + semnum))))))"

definition sem_getall :: "caller \<Rightarrow> nat \<Rightarrow> nat \<Rightarrow> semst \<Rightarrow> (errno + semret) outcome" where
  "sem_getall ca x room st =
     (let sp = sema st ! x in
      case ipcaccess (sem_perm sp) SEM_R (ca_cred ca) of
        Some e \<Rightarrow> Done (Inl e)
      | None \<Rightarrow>
          if room < sem_nsems sp then Done (Inl EFAULT)
          else if length (sems st) < sem_base sp + sem_nsems sp then Overrun
          else Done (Inr (Ret_vals (map semval (take (sem_nsems sp) (drop (sem_base sp) (sems st)))))))"

text \<open>One semaphore is given a value; the count of those who wait for it is cleared.\<close>

definition sem_store :: "nat \<Rightarrow> nat \<Rightarrow> semst \<Rightarrow> semst" where
  "sem_store k v st =
     (let semp = (sems st ! k)\<lparr>semval := v\<rparr>
      in if v \<noteq> 0
         then (if semncnt semp \<noteq> 0
               then wake_up (Broadcast_ncnt k) (set_sem k (semp\<lparr>semncnt := 0\<rparr>) st)
               else set_sem k semp st)
         else if semzcnt semp \<noteq> 0
              then wake_up (Broadcast_zcnt k) (set_sem k (semp\<lparr>semzcnt := 0\<rparr>) st)
              else set_sem k semp st)"

definition set_pid :: "nat \<Rightarrow> int \<Rightarrow> semst \<Rightarrow> semst" where
  "set_pid k pid st = set_sem k ((sems st ! k)\<lparr>sempid := pid\<rparr>) st"

definition sem_setval ::
    "seminfo \<Rightarrow> caller \<Rightarrow> int \<Rightarrow> nat \<Rightarrow> nat \<Rightarrow> int \<Rightarrow> semst \<Rightarrow> ((errno + semret) \<times> semst) outcome" where
  "sem_setval si ca semid x semnum arg st =
     (let sp = sema st ! x in
      case ipcaccess (sem_perm sp) SEM_A (ca_cred ca) of
        Some e \<Rightarrow> Done (Inl e, st)
      | None \<Rightarrow>
          if semnum \<ge> sem_nsems sp then Done (Inl EINVAL, st)
          else if as_unsigned arg > int (semvmx si) then Done (Inl ERANGE, st)
          else if length (sems st) \<le> sem_base sp + semnum then Overrun
          else
            let k = sem_base sp + semnum;
                st = set_pid k (ca_pid ca) (sem_store k (nat (as_unsigned arg mod 65536)) st)
            in Done (Inr (Ret 0), semunrm semid semnum semnum st))"

fun sem_setall_loop :: "int \<Rightarrow> nat \<Rightarrow> nat list \<Rightarrow> semst \<Rightarrow> semst outcome" where
  "sem_setall_loop pid k [] st = Done st"
| "sem_setall_loop pid k (v # vs) st =
     (if length (sems st) \<le> k then Overrun
      else sem_setall_loop pid (k + 1) vs (set_pid k pid (sem_store k v st)))"

text \<open>The values copied in are as many as the set has semaphores.\<close>

definition sem_setall ::
    "seminfo \<Rightarrow> caller \<Rightarrow> int \<Rightarrow> nat \<Rightarrow> nat list option \<Rightarrow> semst \<Rightarrow> ((errno + semret) \<times> semst) outcome" where
  "sem_setall si ca semid x arg st =
     (let sp = sema st ! x in
      case ipcaccess (sem_perm sp) SEM_A (ca_cred ca) of
        Some e \<Rightarrow> Done (Inl e, st)
      | None \<Rightarrow>
          (case arg of
             None \<Rightarrow> Done (Inl EFAULT, st)
           | Some vals \<Rightarrow>
               let vals = take (sem_nsems sp) vals in
               if list_ex (\<lambda>v. v > semvmx si) vals then Done (Inl ERANGE, st)
               else
                 bind_outcome (sem_setall_loop (ca_pid ca) (sem_base sp) vals (semunrm semid 0 (sem_nsems sp) st))
                   (\<lambda>st. Done (Inr (Ret 0), st))))"

definition semctl ::
    "seminfo \<Rightarrow> caller \<Rightarrow> int \<Rightarrow> nat \<Rightarrow> semcmd \<Rightarrow> semst \<Rightarrow> ((errno + semret) \<times> semst) outcome" where
  "semctl si ca semid semnum cmd st =
     (case semconv_lock si semid st of
        None \<Rightarrow> Done (Inl EINVAL, st)
      | Some x \<Rightarrow>
          let same = \<lambda>r. bind_outcome r (\<lambda>v. Done (v, st)) in
          (case cmd of
             IPC_RMID \<Rightarrow> sem_rmid ca semid x st
           | IPC_SET arg \<Rightarrow> Done (sem_ipc_set ca x arg st)
           | IPC_O_SET arg \<Rightarrow> Done (sem_ipc_o_set ca x arg st)
           | IPC_O_STAT ok \<Rightarrow> Done (sem_ipc_o_stat ca x ok st, st)
           | IPC_STAT ok \<Rightarrow> Done (sem_ipc_stat ca x ok st, st)
           | GETNCNT \<Rightarrow> same (sem_get_member ca x semnum (\<lambda>s. int (semncnt s)) st)
           | GETPID \<Rightarrow> same (sem_get_member ca x semnum sempid st)
           | GETVAL \<Rightarrow> same (sem_get_member ca x semnum (\<lambda>s. int (semval s)) st)
           | GETALL room \<Rightarrow> same (sem_getall ca x room st)
           | GETZCNT \<Rightarrow> same (sem_get_member ca x semnum (\<lambda>s. int (semzcnt s)) st)
           | SETVAL arg \<Rightarrow> sem_setval si ca semid x semnum arg st
           | SETALL arg \<Rightarrow> sem_setall si ca semid x arg st
           | Unknown_cmd \<Rightarrow> Done (Inl EINVAL, st)))"

section \<open>Creation\<close>

definition semget ::
    "seminfo \<Rightarrow> caller \<Rightarrow> int \<Rightarrow> int \<Rightarrow> 32 word \<Rightarrow> semst \<Rightarrow> ((errno + int) \<times> semst) outcome" where
  "semget si ca key nsems semflg st =
     (case ipcget key semflg (map sem_perm (sema st)) (ca_cred ca) of
        Inl e \<Rightarrow> Done (Inl e, st)
      | Inr (s, x, perms) \<Rightarrow>
          let sp = (sema st ! x)\<lparr>sem_perm := perms ! x\<rparr>;
              st = set_ds x sp st;
              freed = sp\<lparr>sem_perm := (sem_perm sp)\<lparr>ip_mode := 0\<rparr>\<rparr>;
              semid = s32 (int (ip_seq (sem_perm sp)) * 65536 + int x)
          in if s \<noteq> 0
             then (if nsems \<le> 0 \<or> nsems > int (semmsl si)
                   then Done (Inl EINVAL, set_ds x freed st)
                   else bind_outcome (rmalloc (smap st) (nat nsems)) (\<lambda>(i, mp).
                     let st = st\<lparr>smap := mp\<rparr> in
                     if i = 0 then Done (Inl ENOSPC, set_ds x freed st)
                     else Done (Inr semid,
                       set_ds x (sp\<lparr>sem_base := i - 1, sem_binary := True,
                                    sem_nsems := nat (nsems mod 65536),
                                    sem_ctime := ca_now ca, sem_otime := 0\<rparr>) st)))
             else if nsems \<noteq> 0 \<and> int (sem_nsems sp) < as_unsigned nsems then Done (Inl EINVAL, st)
             else Done (Inr semid, st))"

section \<open>The system call\<close>

text \<open>The three calls behind \<^verbatim>\<open>semsys\<close>, with their arguments, and their results.\<close>

datatype semcall =
    SEMCTL int nat semcmd
  | SEMGET int int "32 word"
  | SEMOP int bool "sembuf list"
  | SEM_OTHER

datatype semsys_res = Res_ctl "errno + semret" | Res_get "errno + int" | Res_op semop_res

definition semsys :: "seminfo \<Rightarrow> caller \<Rightarrow> semcall \<Rightarrow> semst \<Rightarrow> (semsys_res \<times> semst) outcome" where
  "semsys si ca call st =
     (case call of
        SEMCTL semid semnum cmd \<Rightarrow>
          bind_outcome (semctl si ca semid semnum cmd st) (\<lambda>(r, st). Done (Res_ctl r, st))
      | SEMGET key nsems semflg \<Rightarrow>
          bind_outcome (semget si ca key nsems semflg st) (\<lambda>(r, st). Done (Res_get r, st))
      | SEMOP semid fault sops \<Rightarrow>
          bind_outcome (semop si ca semid fault sops st) (\<lambda>(r, st). Done (Res_op r, st))
      | SEM_OTHER \<Rightarrow> Done (Res_ctl (Inl EINVAL), st))"

section \<open>Module initialisation\<close>

text \<open>The sizes of the structures, which the compiler knows.\<close>

record semsizes =
  sz_sem :: nat
  sz_semid_ds :: nat
  sz_kmutex :: nat
  sz_ptr :: nat
  sz_sem_undo :: nat
  sz_undo :: nat
  sz_int :: nat

definition howmany :: "nat \<Rightarrow> nat \<Rightarrow> nat" where
  "howmany x y = (x + y - 1) div y"

definition sem_memory :: "semsizes \<Rightarrow> nat \<Rightarrow> seminfo \<Rightarrow> nat" where
  "sem_memory sz nproc si =
     (let semusz = sz_sem_undo sz + semume si * sz_undo sz
      in semmns si * sz_sem sz + semmni si * sz_semid_ds sz + semmni si * sz_kmutex sz
         + nproc * sz_ptr sz + howmany (semusz * semmnu si) (sz_int sz) * sz_int sz)"

definition zero_ds :: semid_ds where
  "zero_ds = \<lparr>sem_perm = zero_perm, sem_base = 0, sem_nsems = 0, sem_otime = 0, sem_ctime = 0, sem_binary = False\<rparr>"

definition zero_sem :: sem where
  "zero_sem = \<lparr>semval = 0, sempid = 0, semncnt = 0, semzcnt = 0\<rparr>"

text \<open>
  The tunables given, kernel memory as \<open>kmem_maxavail\<close> reports it, whether \<open>rmallocmap\<close> is
  given memory, and what \<open>mod_install\<close> returns; the tunables as they are used come back with
  the state.
\<close>

definition sem_init ::
    "semsizes \<Rightarrow> nat \<Rightarrow> nat \<Rightarrow> nat \<Rightarrow> bool \<Rightarrow> errno option \<Rightarrow> seminfo \<Rightarrow> (errno + (seminfo \<times> semst)) outcome" where
  "sem_init sz nproc kmem_maxavail ovh kmem_ok mod_install si =
     (let si = si\<lparr>semmni := min (semmni si) 65535\<rparr> in
      if sem_memory sz nproc si > kmem_maxavail div 4 then Done (Inl ENOMEM)
      else
        bind_outcome (rmallocmap ovh kmem_ok (semmap si)) (\<lambda>r.
          case r of
            None \<Rightarrow> Done (Inl ENOMEM)
          | Some (mp, _) \<Rightarrow>
              bind_outcome (rmfree mp (semmns si) 1) (\<lambda>mp.
                case mod_install of
                  Some e \<Rightarrow> Done (Inl e)
                | None \<Rightarrow>
                    Done (Inr (si,
                      \<lparr>sema = replicate (semmni si) zero_ds, sems = replicate (semmns si) zero_sem,
                       smap = mp, un_ent = (\<lambda>_. []), sem_undo = (\<lambda>_. None), semunp = [],
                       semfup = [0..<max 1 (semmnu si)], wakes = []\<rparr>)))))"

end
