(* ===== verification/Sem_Ops.thy ===== *)
theory Sem_Ops
  imports Sem
begin

text \<open>
  Semaphore operations: the undo entries of a process as an exact record of its adjustments,
  and \<^verbatim>\<open>semop\<close> as a transaction.
\<close>

section \<open>Entry lists\<close>

definition seminfo_ok :: "seminfo \<Rightarrow> bool" where
  "seminfo_ok si \<longleftrightarrow> semaem si \<le> 16384 \<and> semvmx si \<le> 65535 \<and> semmsl si \<le> 65535 \<and> semmni si \<le> 65535"

definition ent_less :: "undo \<Rightarrow> undo \<Rightarrow> bool" where
  "ent_less e f \<longleftrightarrow> un_id e < un_id f \<or> un_id e = un_id f \<and> un_num e < un_num f"

definition ents_ok :: "seminfo \<Rightarrow> undo list \<Rightarrow> bool" where
  "ents_ok si es \<longleftrightarrow> sorted_wrt ent_less es \<and> length es \<le> semume si
     \<and> (\<forall>e\<in>set es. un_aoe e \<noteq> 0 \<and> \<bar>un_aoe e\<bar> \<le> int (semaem si))"

definition ent_before :: "int \<Rightarrow> nat \<Rightarrow> undo \<Rightarrow> bool" where
  "ent_before semid num e \<longleftrightarrow> un_id e < semid \<or> un_id e = semid \<and> un_num e < num"

definition ent_for :: "int \<Rightarrow> nat \<Rightarrow> undo \<Rightarrow> bool" where
  "ent_for semid num e \<longleftrightarrow> un_id e = semid \<and> un_num e = num"

definition ent_after :: "int \<Rightarrow> nat \<Rightarrow> undo \<Rightarrow> bool" where
  "ent_after semid num e \<longleftrightarrow> semid < un_id e \<or> un_id e = semid \<and> num < un_num e"

lemmas ent_defs = ent_less_def ent_before_def ent_for_def ent_after_def

text \<open>The adjustment recorded for a semaphore.\<close>

definition adj :: "int \<Rightarrow> nat \<Rightarrow> undo list \<Rightarrow> int" where
  "adj semid num es = sum_list (map un_aoe (filter (ent_for semid num) es))"

lemma adj_simps [simp]:
  "adj semid num [] = 0"
  "adj semid num (e # es) = (if ent_for semid num e then un_aoe e else 0) + adj semid num es"
  "adj semid num (es @ fs) = adj semid num es + adj semid num fs"
  by (simp_all add: adj_def)

lemma s16_add [simp]: "- 32768 \<le> a \<Longrightarrow> a < 32768 \<Longrightarrow> s16 (s16 (a - v) + v) = a"
proof -
  assume a: "- 32768 \<le> a" "a < 32768"
  have "(a - v + 32768) mod 65536 - 32768 + v + 32768 = (a - v + 32768) mod 65536 + v"
    by simp
  then have "s16 (s16 (a - v) + v) = (a + 32768) mod 65536 - 32768"
    by (simp add: s16_def mod_simps algebra_simps)
  with a show ?thesis by simp
qed

text \<open>A sorted list splits at the place the scan stops at.\<close>


lemma aoe_split_ex:
  assumes "sorted_wrt ent_less es"
  obtains (missing) as bs where "es = as @ bs" "\<forall>e\<in>set as. ent_before semid num e"
      "\<forall>e\<in>set bs. ent_after semid num e"
    | (present) as b bs where "es = as @ b # bs" "\<forall>e\<in>set as. ent_before semid num e"
      "ent_for semid num b" "\<forall>e\<in>set bs. ent_after semid num e"
proof -
  define as where "as = takeWhile (ent_before semid num) es"
  define bs where "bs = dropWhile (ent_before semid num) es"
  have es: "es = as @ bs"
    by (simp add: as_def bs_def)
  have as: "\<forall>e\<in>set as. ent_before semid num e"
    unfolding as_def by (meson set_takeWhileD)
  show thesis
  proof (cases bs)
    case Nil
    with es as missing [of as "[]"] show ?thesis by simp
  next
    case (Cons b cs)
    have "\<not> ent_before semid num b"
      using Cons unfolding bs_def by (metis hd_dropWhile list.distinct(1) list.sel(1))
    moreover have "\<forall>c\<in>set cs. ent_less b c"
      using assms es Cons by (simp add: sorted_wrt_append)
    ultimately show ?thesis
      using es as Cons missing [of as bs] present [of as b cs]
      by (cases "ent_for semid num b") (fastforce simp: ent_defs)+
  qed
qed

lemma aoe_scan_missing:
  assumes "\<forall>e\<in>set as. ent_before semid num e" and "\<forall>e\<in>set bs. ent_after semid num e"
  shows "aoe_scan semid num (as @ bs) = (length as, False)"
  using assms by (induction as) (cases bs; auto simp: ent_defs)+

lemma aoe_scan_present:
  assumes "\<forall>e\<in>set as. ent_before semid num e" and "ent_for semid num b"
  shows "aoe_scan semid num (as @ b # bs) = (length as, True)"
  using assms by (induction as) (auto simp: ent_defs)

lemma adj_outside [simp]:
  assumes "\<forall>e\<in>set es. ent_before semid num e" shows "adj semid num es = 0"
  using assms by (induction es) (auto simp: ent_defs)

lemma adj_outside' [simp]:
  assumes "\<forall>e\<in>set es. ent_after semid num e" shows "adj semid num es = 0"
  using assms by (induction es) (auto simp: ent_defs)

lemma ent_for_other: "ent_for semid num e \<Longrightarrow> ent_for semid' num' e \<longleftrightarrow> semid' = semid \<and> num' = num"
  by (auto simp: ent_defs)

text \<open>What an adjustment does to a list of entries.\<close>

definition aoe_done :: "seminfo \<Rightarrow> int \<Rightarrow> int \<Rightarrow> nat \<Rightarrow> undo list \<Rightarrow> undo list \<Rightarrow> bool" where
  "aoe_done si v semid num es es' \<longleftrightarrow> ents_ok si es' \<and>
     aoe_entries si (- v) semid num es' = (None, es) \<and>
     (\<forall>i n. adj i n es' = adj i n es - (if i = semid \<and> n = num then v else 0))"

lemma aoe_entries_missing:
  assumes si: "seminfo_ok si" and ok: "ents_ok si (as @ bs)" and v: "v \<noteq> 0" "\<bar>v\<bar> \<le> int (semaem si)"
    and as: "\<forall>e\<in>set as. ent_before semid num e" and bs: "\<forall>e\<in>set bs. ent_after semid num e"
    and run: "aoe_entries si v semid num (as @ bs) = (r, es')"
  shows "if r = None then aoe_done si v semid num (as @ bs) es' else es' = as @ bs"
proof (cases "length (as @ bs) \<ge> semume si")
  case True
  with run show ?thesis
    by (auto simp: aoe_entries_def aoe_scan_missing [OF as bs])
next
  case False
  let ?e = "\<lparr>un_aoe = - v, un_num = num, un_id = semid\<rparr>"
  have v16: "- 32768 < v" "v < 32768"
    using v(2) si by (auto simp: seminfo_ok_def)
  then have es': "r = None" "es' = as @ ?e # bs"
    using run False by (simp_all add: aoe_entries_def aoe_scan_missing [OF as bs])
  have e: "ent_for semid num ?e"
    by (simp add: ent_for_def)
  have "ents_ok si es'"
    using ok v as bs False es'(2) by (fastforce simp: ents_ok_def sorted_wrt_append ent_defs)
  moreover have "aoe_entries si (- v) semid num es' = (None, as @ bs)"
    using es'(2) by (simp add: aoe_entries_def aoe_scan_present [OF as e])
  moreover have "adj i n es' = adj i n (as @ bs) - (if i = semid \<and> n = num then v else 0)" for i n
    using es'(2) by (simp add: ent_for_other [OF e])
  ultimately show ?thesis
    using es'(1) by (simp add: aoe_done_def)
qed

lemma aoe_entries_present:
  assumes si: "seminfo_ok si" and ok: "ents_ok si (as @ b # bs)" and v: "v \<noteq> 0" "\<bar>v\<bar> \<le> int (semaem si)"
    and as: "\<forall>e\<in>set as. ent_before semid num e" and b: "ent_for semid num b"
    and bs: "\<forall>e\<in>set bs. ent_after semid num e"
    and run: "aoe_entries si v semid num (as @ b # bs) = (r, es')"
  shows "if r = None then aoe_done si v semid num (as @ b # bs) es' else es' = as @ b # bs"
proof -
  let ?aoe = "s16 (un_aoe b - v)"
  have v16: "- 16384 \<le> v" "v \<le> 16384" and a16: "- 16384 \<le> un_aoe b" "un_aoe b \<le> 16384" "un_aoe b \<noteq> 0"
    using v(2) si ok by (auto simp: seminfo_ok_def ents_ok_def)
  have b': "b\<lparr>un_aoe := un_aoe b\<rparr> = b" "\<lparr>un_aoe = un_aoe b, un_num = num, un_id = semid\<rparr> = b"
    using b by (simp_all add: ent_for_def)
  note scan = aoe_entries_def aoe_scan_present [OF as b]
  consider (range) "?aoe > int (semaem si) \<or> ?aoe < - int (semaem si)"
    | (zero) "?aoe = 0" | (adjust) "\<bar>?aoe\<bar> \<le> int (semaem si)" "?aoe \<noteq> 0"
    by linarith
  then show ?thesis
  proof cases
    case range
    with run show ?thesis
      using a16 b' by (auto simp: scan list_update_append Let_def)
  next
    case zero
    have exact: "un_aoe b = v"
    proof (cases "un_aoe b - v < 32768")
      case True
      with zero v16 a16 show ?thesis by simp
    next
      case False
      with v16 a16 have "un_aoe b - v = 32768" by simp
      with zero show ?thesis by (simp add: s16_def)
    qed
    have es': "r = None" "es' = as @ bs"
      using run zero by (simp_all add: scan)
    have "ents_ok si es'"
      using ok es'(2) by (auto simp: ents_ok_def sorted_wrt_append)
    moreover have "aoe_entries si (- v) semid num es' = (None, as @ b # bs)"
      using es'(2) ok exact b' v16
      by (simp add: aoe_entries_def aoe_scan_missing [OF as bs] ents_ok_def)
    moreover have "adj i n es' = adj i n (as @ b # bs) - (if i = semid \<and> n = num then v else 0)" for i n
      using es'(2) exact by (simp add: ent_for_other [OF b])
    ultimately show ?thesis
      using es'(1) by (simp add: aoe_done_def)
  next
    case adjust
    have exact: "?aoe = un_aoe b - v"
    proof (cases "un_aoe b - v < 32768")
      case True
      with v16 a16 show ?thesis by simp
    next
      case False
      with v16 a16 have "un_aoe b - v = 32768" by simp
      with adjust(1) si show ?thesis by (simp add: s16_def seminfo_ok_def)
    qed
    let ?b = "b\<lparr>un_aoe := un_aoe b - v\<rparr>"
    have es': "r = None" "es' = as @ ?b # bs"
      using run adjust exact by (auto simp: scan list_update_append Let_def split: if_splits)
    have for_b: "ent_for semid num ?b"
      using b by (simp add: ent_for_def)
    have "ents_ok si es'"
      using ok adjust exact es'(2) by (auto simp: ents_ok_def sorted_wrt_append ent_less_def)
    moreover have "aoe_entries si (- v) semid num es' = (None, as @ b # bs)"
      using es'(2) ok a16 by (auto simp: aoe_entries_def aoe_scan_present [OF as for_b] ents_ok_def list_update_append Let_def)
    moreover have "adj i n es' = adj i n (as @ b # bs) - (if i = semid \<and> n = num then v else 0)" for i n
      using es'(2) by (simp add: ent_for_other [OF b] ent_for_other [OF for_b])
    ultimately show ?thesis
      using es'(1) by (simp add: aoe_done_def)
  qed
qed

lemma aoe_entries_spec:
  assumes "seminfo_ok si" and "ents_ok si es" and "v \<noteq> 0" and "\<bar>v\<bar> \<le> int (semaem si)"
    and "aoe_entries si v semid num es = (r, es')"
  shows "if r = None then aoe_done si v semid num es es' else es' = es"
proof -
  have "sorted_wrt ent_less es"
    using assms(2) by (simp add: ents_ok_def)
  then show ?thesis
    by (cases rule: aoe_split_ex [of es semid num])
      (use assms aoe_entries_missing aoe_entries_present in blast)+
qed

section \<open>Undo structures\<close>

text \<open>The entries of the process in a slot.\<close>

definition ents :: "semst \<Rightarrow> nat \<Rightarrow> undo list" where
  "ents st slot = (case sem_undo st slot of None \<Rightarrow> [] | Some up \<Rightarrow> un_ent st up)"

definition undo_ok :: "seminfo \<Rightarrow> semst \<Rightarrow> bool" where
  "undo_ok si st \<longleftrightarrow>
     (\<forall>up. ents_ok si (un_ent st up)) \<and>
     (\<forall>s t up. sem_undo st s = Some up \<and> sem_undo st t = Some up \<longrightarrow> s = t) \<and>
     distinct (semfup st) \<and> (\<forall>up\<in>set (semfup st). un_ent st up = [] \<and> (\<forall>s. sem_undo st s \<noteq> Some up)) \<and>
     distinct (semunp st) \<and> set (semunp st) = {up. un_ent st up \<noteq> []} \<and>
     (\<forall>up. un_ent st up \<noteq> [] \<longrightarrow> (\<exists>s. sem_undo st s = Some up))"

text \<open>What the undo structures do not touch.\<close>

definition same_sets :: "semst \<Rightarrow> semst \<Rightarrow> bool" where
  "same_sets st st' \<longleftrightarrow> sema st' = sema st \<and> sems st' = sems st \<and> smap st' = smap st \<and> wakes st' = wakes st"

lemma undo_ok_ents [simp]: "undo_ok si st \<Longrightarrow> ents_ok si (ents st slot)"
  by (auto simp: undo_ok_def ents_def ents_ok_def split: option.splits)

lemma set_entries_frame [simp]:
  "same_sets st (set_entries up es st)" "sem_undo (set_entries up es st) = sem_undo st"
  "semfup (set_entries up es st) = semfup st" "un_ent (set_entries up es st) = (un_ent st)(up := es)"
  by (simp_all add: set_entries_def same_sets_def Let_def)

lemma set_entries_undo_ok:
  assumes ok: "undo_ok si st" and up: "sem_undo st slot = Some up" and es: "ents_ok si es"
  shows "undo_ok si (set_entries up es st)"
proof -
  have "up \<notin> set (semfup st)"
    using ok up by (auto simp: undo_ok_def)
  moreover have "distinct (semunp (set_entries up es st))"
    using ok by (auto simp: set_entries_def undo_ok_def Let_def)
  moreover have "set (semunp (set_entries up es st)) = {q. un_ent (set_entries up es st) q \<noteq> []}"
    using ok by (auto simp: set_entries_def undo_ok_def Let_def)
  ultimately show ?thesis
    using ok up es by (auto simp: undo_ok_def)
qed

lemma ents_set_entries:
  assumes "undo_ok si st" and "sem_undo st slot = Some up"
  shows "ents (set_entries up es st) slot = es"
    and "s \<noteq> slot \<Longrightarrow> ents (set_entries up es st) s = ents st s"
  using assms by (auto simp: ents_def undo_ok_def split: option.splits)

text \<open>The structure a process is given when it has none.\<close>

lemma take_free_undo:
  assumes ok: "undo_ok si st" and none: "sem_undo st slot = None" and free: "semfup st = up # rest"
  defines "st1 \<equiv> st\<lparr>semfup := rest, sem_undo := (sem_undo st)(slot \<mapsto> up)\<rparr>"
  shows "undo_ok si st1" and "sem_undo st1 slot = Some up" and "same_sets st st1" and "ents st1 = ents st"
proof -
  have up: "un_ent st up = []" "\<And>s. sem_undo st s \<noteq> Some up" "up \<notin> set rest"
    using ok free by (auto simp: undo_ok_def)
  have sel: "un_ent st1 = un_ent st" "semfup st1 = rest" "semunp st1 = semunp st"
    by (simp_all add: st1_def)
  have inj: "\<forall>s t q. sem_undo st1 s = Some q \<and> sem_undo st1 t = Some q \<longrightarrow> s = t"
    using ok up(2) by (auto simp: st1_def undo_ok_def)
  have unused: "\<forall>q\<in>set rest. un_ent st q = [] \<and> (\<forall>s. sem_undo st1 s \<noteq> Some q)" "distinct rest"
    using ok free up(3) by (auto simp: undo_ok_def st1_def)
  have "\<exists>s. sem_undo st1 s = Some q" if "un_ent st q \<noteq> []" for q
  proof -
    from that ok obtain s where "sem_undo st s = Some q"
      by (auto simp: undo_ok_def)
    with none show ?thesis
      by (intro exI [of _ s]) (auto simp: st1_def)
  qed
  then show "undo_ok si st1"
    using ok inj unused unfolding undo_ok_def sel by blast
  show "ents st1 = ents st"
    using none up(1) by (auto simp: ents_def st1_def fun_eq_iff split: option.splits)
qed (simp_all add: st1_def same_sets_def)

text \<open>What a call of \<open>semaoe\<close> leaves.\<close>

definition aoe_post :: "seminfo \<Rightarrow> nat \<Rightarrow> int \<Rightarrow> int \<Rightarrow> nat \<Rightarrow> semst \<Rightarrow> errno option \<Rightarrow> semst \<Rightarrow> bool" where
  "aoe_post si slot v semid num st e st' \<longleftrightarrow>
     undo_ok si st' \<and> same_sets st st' \<and> (\<forall>s. s \<noteq> slot \<longrightarrow> ents st' s = ents st s) \<and>
     (\<forall>up. sem_undo st slot = Some up \<longrightarrow> sem_undo st' slot = Some up) \<and>
     (if e = None
      then \<bar>v\<bar> \<le> int (semaem si) \<and> sem_undo st' slot \<noteq> None \<and> aoe_done si v semid num (ents st slot) (ents st' slot)
      else ents st' slot = ents st slot)"

lemma semaoe_owned:
  assumes si: "seminfo_ok si" and ok: "undo_ok si st" and up: "sem_undo st slot = Some up"
    and v: "v \<noteq> 0" "\<bar>v\<bar> \<le> int (semaem si)" and run: "aoe_entries si v semid num (un_ent st up) = (e, es)"
  shows "aoe_post si slot v semid num st e (set_entries up es st)"
proof -
  have ents: "ents st slot = un_ent st up"
    using up by (simp add: ents_def)
  have eok: "ents_ok si (un_ent st up)"
    using ok by (auto simp: undo_ok_def)
  note spec = aoe_entries_spec [OF si eok v run]
  then have "ents_ok si es"
    using eok by (auto simp: aoe_done_def split: if_splits)
  then show ?thesis
    using spec v ents up ents_set_entries [OF ok up, where es = es] set_entries_undo_ok [OF ok up]
    by (auto simp: aoe_post_def split: if_splits)
qed

lemma semaoe_post:
  assumes si: "seminfo_ok si" and ok: "undo_ok si st" and v: "v \<noteq> 0"
    and run: "semaoe si slot v semid num st = (e, st')"
  shows "aoe_post si slot v semid num st e st'"
proof (cases "\<bar>v\<bar> \<le> int (semaem si)")
  case False
  then have "v > int (semaem si) \<or> v < - int (semaem si)"
    by linarith
  with run v have "e = Some ERANGE" "st' = st"
    by (simp_all add: semaoe_def)
  with ok show ?thesis
    by (simp add: aoe_post_def same_sets_def)
next
  case True
  then have in_range: "\<not> (v > int (semaem si) \<or> v < - int (semaem si))"
    by linarith
  consider (own) up where "sem_undo st slot = Some up"
    | (none) "sem_undo st slot = None" "semfup st = []"
    | (free) up rest where "sem_undo st slot = None" "semfup st = up # rest"
    by (cases "sem_undo st slot"; cases "semfup st") auto
  then show ?thesis
  proof cases
    case own
    then show ?thesis
      using run v in_range semaoe_owned [OF si ok own v True]
      by (auto simp: semaoe_def split: prod.splits)
  next
    case none
    with run v in_range ok show ?thesis
      by (auto simp: semaoe_def aoe_post_def same_sets_def)
  next
    case free
    let ?st1 = "st\<lparr>semfup := rest, sem_undo := (sem_undo st)(slot \<mapsto> up)\<rparr>"
    note st1 = take_free_undo [OF ok free]
    obtain es where es: "aoe_entries si v semid num (un_ent ?st1 up) = (e, es)" "st' = set_entries up es ?st1"
      using run v in_range free by (auto simp: semaoe_def split: prod.splits)
    have "aoe_post si slot v semid num ?st1 e st'"
      unfolding es(2) by (rule semaoe_owned [OF si st1(1,2) v True es(1)])
    with st1 free show ?thesis
      by (auto simp: aoe_post_def same_sets_def split: if_splits)
  qed
qed

section \<open>Undoing operations\<close>

definition vals :: "semst \<Rightarrow> nat list" where
  "vals st = map semval (sems st)"

lemma length_vals [simp]: "length (vals st) = length (sems st)"
  by (simp add: vals_def)

definition with_undo :: "sembuf \<Rightarrow> bool" where
  "with_undo op \<longleftrightarrow> sem_flg op AND SEM_UNDO \<noteq> 0"

text \<open>What \<open>semundo\<close> does to the values and the entries of the process.\<close>

fun undo_vis :: "seminfo \<Rightarrow> int \<Rightarrow> nat \<Rightarrow> sembuf list \<Rightarrow> nat list \<times> undo list \<Rightarrow> nat list \<times> undo list" where
  "undo_vis si semid base [] ve = ve"
| "undo_vis si semid base (op # ops) (vs, es) =
     (if sem_op op = 0 then undo_vis si semid base ops (vs, es)
      else undo_vis si semid base ops
        (let k = base + sem_num op in vs[k := nat ((int (vs ! k) - sem_op op) mod 65536)],
         if with_undo op then snd (aoe_entries si (- sem_op op) semid (sem_num op) es) else es))"

text \<open>Two states that differ in values and undo entries only.\<close>

definition same_rest :: "nat \<Rightarrow> semst \<Rightarrow> semst \<Rightarrow> bool" where
  "same_rest slot st st' \<longleftrightarrow> sema st' = sema st \<and> smap st' = smap st \<and> length (sems st') = length (sems st)
     \<and> (\<forall>s. s \<noteq> slot \<longrightarrow> ents st' s = ents st s)"

lemma same_rest_refl [simp]: "same_rest slot st st"
  by (simp add: same_rest_def)

lemma same_rest_trans: "same_rest slot st st1 \<Longrightarrow> same_rest slot st1 st2 \<Longrightarrow> same_rest slot st st2"
  by (simp add: same_rest_def)

lemma set_sem_simps [simp]:
  "sema (set_sem k s st) = sema st" "smap (set_sem k s st) = smap st" "ents (set_sem k s st) = ents st"
  "undo_ok si (set_sem k s st) = undo_ok si st" "sem_undo (set_sem k s st) = sem_undo st"
  "sems (set_sem k s st) = (sems st)[k := s]" "wakes (set_sem k s st) = wakes st"
  "vals (set_sem k s st) = (vals st)[k := semval s]"
  by (auto simp: set_sem_def ents_def fun_eq_iff undo_ok_def vals_def map_update split: option.splits)

lemma wake_up_simps [simp]:
  "sema (wake_up w st) = sema st" "smap (wake_up w st) = smap st" "ents (wake_up w st) = ents st"
  "undo_ok si (wake_up w st) = undo_ok si st" "sem_undo (wake_up w st) = sem_undo st"
  "sems (wake_up w st) = sems st" "vals (wake_up w st) = vals st" "wakes (wake_up w st) = w # wakes st"
  by (auto simp: wake_up_def ents_def fun_eq_iff undo_ok_def vals_def split: option.splits)

lemma set_ds_simps [simp]:
  "sema (set_ds x sp st) = (sema st)[x := sp]" "smap (set_ds x sp st) = smap st" "ents (set_ds x sp st) = ents st"
  "undo_ok si (set_ds x sp st) = undo_ok si st" "sem_undo (set_ds x sp st) = sem_undo st"
  "sems (set_ds x sp st) = sems st" "vals (set_ds x sp st) = vals st" "wakes (set_ds x sp st) = wakes st"
  by (auto simp: set_ds_def ents_def fun_eq_iff undo_ok_def vals_def split: option.splits)

lemma vals_nth: "k < length (sems st) \<Longrightarrow> vals st ! k = semval (sems st ! k)"
  by (simp add: vals_def)

text \<open>An operation that can be undone: its adjustment was recorded in the process's structure.\<close>

definition undoable :: "seminfo \<Rightarrow> nat \<Rightarrow> nat \<Rightarrow> semst \<Rightarrow> sembuf \<Rightarrow> bool" where
  "undoable si slot base st op \<longleftrightarrow> base + sem_num op < length (sems st) \<and>
     (with_undo op \<and> sem_op op \<noteq> 0 \<longrightarrow> sem_undo st slot \<noteq> None \<and> \<bar>sem_op op\<bar> \<le> int (semaem si))"

lemma semaoe_undo:
  assumes si: "seminfo_ok si" and ok: "undo_ok si st" and op: "v \<noteq> 0" "\<bar>v\<bar> \<le> int (semaem si)"
    and own: "sem_undo st slot = Some up"
  shows "ents (snd (semaoe si slot (- v) semid num st)) slot = snd (aoe_entries si (- v) semid num (ents st slot))"
    and "sem_undo (snd (semaoe si slot (- v) semid num st)) slot = Some up"
proof -
  obtain e es where run: "aoe_entries si (- v) semid num (un_ent st up) = (e, es)"
    by (cases "aoe_entries si (- v) semid num (un_ent st up)") auto
  have "\<not> (- v > int (semaem si) \<or> - v < - int (semaem si))"
    using op(2) by linarith
  then have s: "semaoe si slot (- v) semid num st = (e, set_entries up es st)"
    using op(1) own run by (simp add: semaoe_def)
  have "ents st slot = un_ent st up"
    using own by (simp add: ents_def)
  then show "ents (snd (semaoe si slot (- v) semid num st)) slot = snd (aoe_entries si (- v) semid num (ents st slot))"
    using s run ents_set_entries(1) [OF ok own] by simp
  show "sem_undo (snd (semaoe si slot (- v) semid num st)) slot = Some up"
    using s own by simp
qed

lemma semundo_vis:
  assumes "seminfo_ok si" and "undo_ok si st" and "\<forall>op\<in>set dn. undoable si slot base st op"
  shows "\<exists>st'. semundo si slot semid base dn st = Done st' \<and> undo_ok si st' \<and> same_rest slot st st' \<and>
    wakes st' = wakes st \<and> (vals st', ents st' slot) = undo_vis si semid base dn (vals st, ents st slot)"
  using assms(2,3)
proof (induction dn arbitrary: st)
  case (Cons op dn)
  show ?case
  proof (cases "sem_op op = 0")
    case True
    with Cons show ?thesis by simp
  next
    case nonzero: False
    let ?k = "base + sem_num op"
    let ?st1 = "set_sem ?k ((sems st ! ?k)\<lparr>semval := nat ((int (semval (sems st ! ?k)) - sem_op op) mod 65536)\<rparr>) st"
    let ?st2 = "if with_undo op then snd (semaoe si slot (s16 (- sem_op op)) semid (sem_num op) ?st1) else ?st1"
    have k: "?k < length (sems st)"
      using Cons.prems(2) by (simp add: undoable_def)
    have run: "semundo si slot semid base (op # dn) st = semundo si slot semid base dn ?st2"
      using nonzero k by (simp add: with_undo_def Let_def)
    have two: "undo_ok si ?st2 \<and> same_rest slot st ?st2 \<and> wakes ?st2 = wakes st
      \<and> vals ?st2 = (vals st)[?k := nat ((int (vals st ! ?k) - sem_op op) mod 65536)]
      \<and> ents ?st2 slot = (if with_undo op then snd (aoe_entries si (- sem_op op) semid (sem_num op) (ents st slot))
          else ents st slot)
      \<and> (sem_undo st slot \<noteq> None \<longrightarrow> sem_undo ?st2 slot \<noteq> None)"
    proof (cases "with_undo op")
      case False
      with Cons.prems(1) k show ?thesis
        by (simp add: same_rest_def vals_nth)
    next
      case True
      then obtain up where up: "sem_undo st slot = Some up" and small: "\<bar>sem_op op\<bar> \<le> int (semaem si)"
        using Cons.prems(2) nonzero by (auto simp: undoable_def)
      have s16: "s16 (- sem_op op) = - sem_op op"
        using small assms(1) by (intro s16_exact) (auto simp: seminfo_ok_def)
      obtain e st2 where e: "semaoe si slot (- sem_op op) semid (sem_num op) ?st1 = (e, st2)"
        by (cases "semaoe si slot (- sem_op op) semid (sem_num op) ?st1") auto
      have ok1: "undo_ok si ?st1"
        using Cons.prems(1) by simp
      have "aoe_post si slot (- sem_op op) semid (sem_num op) ?st1 e st2"
        by (rule semaoe_post [OF assms(1) ok1 _ e]) (use nonzero in simp)
      moreover have "ents st2 slot = snd (aoe_entries si (- sem_op op) semid (sem_num op) (ents st slot))"
        "sem_undo st2 slot = Some up"
        using semaoe_undo [OF assms(1) ok1 nonzero small, where slot = slot and up = up
            and semid = semid and num = "sem_num op"] up e by simp_all
      ultimately show ?thesis
        using True e s16 k by (simp add: aoe_post_def same_sets_def same_rest_def vals_nth vals_def map_update)
    qed
    then have "\<forall>op\<in>set dn. undoable si slot base ?st2 op"
      using Cons.prems(2) by (auto simp: undoable_def same_rest_def)
    with Cons.IH [of ?st2] two obtain st' where st': "semundo si slot semid base dn ?st2 = Done st'"
      "undo_ok si st'" "same_rest slot ?st2 st'" "wakes st' = wakes ?st2"
      "(vals st', ents st' slot) = undo_vis si semid base dn (vals ?st2, ents ?st2 slot)"
      by blast
    then show ?thesis
      using run two nonzero same_rest_trans [of slot st ?st2 st'] by (simp add: Let_def)
  qed
qed simp

section \<open>One operation\<close>

text \<open>Wake-ups change the counts of sleepers only.\<close>

definition same_but_counts :: "semst \<Rightarrow> semst \<Rightarrow> bool" where
  "same_but_counts st st' \<longleftrightarrow> sema st' = sema st \<and> smap st' = smap st \<and> length (sems st') = length (sems st)
     \<and> vals st' = vals st \<and> ents st' = ents st \<and> sem_undo st' = sem_undo st
     \<and> (\<forall>si. undo_ok si st' = undo_ok si st)"

lemma vals_same [simp]:
  "k < length (sems st) \<Longrightarrow> semval (sems st ! k) = v \<Longrightarrow> (vals st)[k := v] = vals st"
  by (auto simp: vals_nth [symmetric])

lemma sem_v_wake_frame: "k < length (sems st) \<Longrightarrow> same_but_counts st (sem_v_wake signal k st)"
  by (auto simp: sem_v_wake_def same_but_counts_def Let_def)

lemma sem_p_wake_frame: "k < length (sems st) \<Longrightarrow> same_but_counts st (sem_p_wake k st)"
  by (auto simp: sem_p_wake_def same_but_counts_def Let_def)

text \<open>An operation that went through.\<close>

definition op_did :: "seminfo \<Rightarrow> nat \<Rightarrow> int \<Rightarrow> nat \<Rightarrow> sembuf \<Rightarrow> semst \<Rightarrow> semst \<Rightarrow> bool" where
  "op_did si slot semid base op st st' \<longleftrightarrow>
     undo_ok si st' \<and> same_rest slot st st' \<and>
     (\<forall>up. sem_undo st slot = Some up \<longrightarrow> sem_undo st' slot = Some up) \<and>
     (with_undo op \<and> sem_op op \<noteq> 0 \<longrightarrow> sem_undo st' slot \<noteq> None \<and> \<bar>sem_op op\<bar> \<le> int (semaem si)) \<and>
     vals st' = (let k = base + sem_num op in (vals st)[k := nat (int (vals st ! k) + sem_op op)]) \<and>
     (if with_undo op \<and> sem_op op \<noteq> 0
      then aoe_done si (sem_op op) semid (sem_num op) (ents st slot) (ents st' slot)
      else ents st' slot = ents st slot)"

lemma op_did_intro:
  assumes si: "seminfo_ok si" and ok: "undo_ok si st" and k: "base + sem_num op < length (sems st)"
    and nz: "sem_op op \<noteq> 0"
    and range: "0 \<le> int (semval (sems st ! (base + sem_num op))) + sem_op op"
      "int (semval (sems st ! (base + sem_num op))) + sem_op op \<le> int (semvmx si)"
    and aoe: "op_aoe si slot semid op st = (None, st1)"
    and wake: "same_but_counts (sem_add (base + sem_num op) (sem_op op) st1) st'"
  shows "op_did si slot semid base op st st'"
proof -
  have post: "if with_undo op then aoe_post si slot (sem_op op) semid (sem_num op) st None st1 else st1 = st"
    using aoe semaoe_post [OF si ok nz] by (simp add: op_aoe_def with_undo_def split: if_splits)
  then have sems: "sems st1 = sems st"
    by (auto simp: aoe_post_def same_sets_def split: if_splits)
  have "int (semval (sems st ! (base + sem_num op))) + sem_op op < 65536"
    using range(2) si by (simp add: seminfo_ok_def)
  with range(1) have "vals st' = (vals st)[base + sem_num op := nat (int (vals st ! (base + sem_num op)) + sem_op op)]"
    using wake sems k by (simp add: same_but_counts_def sem_add_def vals_nth vals_def map_update Let_def)
  then show ?thesis
    using post wake ok nz sems
    by (auto simp: op_did_def same_but_counts_def sem_add_def same_rest_def aoe_post_def same_sets_def Let_def
        split: if_splits)
qed

lemma op_did_zero:
  assumes "undo_ok si st" and "sem_op op = 0"
  shows "op_did si slot semid base op st st"
  using assms by (simp add: op_did_def)

text \<open>Undoing it leads back to the values and entries there were.\<close>

lemma op_did_undo:
  assumes si: "seminfo_ok si" and ok: "undo_ok si st" and did: "op_did si slot semid base op st st'"
    and k: "base + sem_num op < length (sems st)" and v: "semval (sems st ! (base + sem_num op)) \<le> semvmx si"
    and range: "0 \<le> int (semval (sems st ! (base + sem_num op))) + sem_op op"
  shows "undo_vis si semid base (op # dn) (vals st', ents st' slot) = undo_vis si semid base dn (vals st, ents st slot)"
proof (cases "sem_op op = 0")
  case True
  with did k show ?thesis
    by (simp add: op_did_def Let_def)
next
  case False
  let ?k = "base + sem_num op"
  have vals': "vals st' = (vals st)[?k := nat (int (vals st ! ?k) + sem_op op)]"
    using did by (simp add: op_did_def Let_def)
  have "vals st ! ?k < 65536"
    using v si k by (simp add: vals_nth seminfo_ok_def)
  with range k have "nat ((int (vals st' ! ?k) - sem_op op) mod 65536) = vals st ! ?k"
    by (simp add: vals' vals_nth)
  then have "(vals st')[?k := nat ((int (vals st' ! ?k) - sem_op op) mod 65536)] = vals st"
    by (simp add: vals')
  moreover have "(if with_undo op then snd (aoe_entries si (- sem_op op) semid (sem_num op) (ents st' slot))
      else ents st' slot) = ents st slot"
    using did False by (auto simp: op_did_def aoe_done_def split: if_splits)
  ultimately show ?thesis
    using False by (simp add: Let_def)
qed

section \<open>A pass over the operations\<close>

text \<open>
  The specification: which sequences of operations can be carried out on given values, and
  what they add to each semaphore and take from each adjustment.
\<close>

fun feasible :: "seminfo \<Rightarrow> nat \<Rightarrow> nat list \<Rightarrow> sembuf list \<Rightarrow> bool" where
  "feasible si base vs [] \<longleftrightarrow> True"
| "feasible si base vs (op # ops) \<longleftrightarrow>
     (let k = base + sem_num op; v = int (vs ! k) + sem_op op in
      (if sem_op op = 0 then v = 0 else 0 \<le> v \<and> (0 < sem_op op \<longrightarrow> v \<le> int (semvmx si)))
      \<and> feasible si base (vs[k := nat v]) ops)"

definition op_sum :: "nat \<Rightarrow> sembuf list \<Rightarrow> nat \<Rightarrow> int" where
  "op_sum base ops k = sum_list (map sem_op (filter (\<lambda>op. base + sem_num op = k) ops))"

definition undo_sum :: "sembuf list \<Rightarrow> nat \<Rightarrow> int" where
  "undo_sum ops num = sum_list (map sem_op (filter (\<lambda>op. with_undo op \<and> sem_num op = num) ops))"

lemma op_sum_simps [simp]:
  "op_sum base [] k = 0"
  "op_sum base (op # ops) k = (if base + sem_num op = k then sem_op op else 0) + op_sum base ops k"
  by (simp_all add: op_sum_def)

lemma undo_sum_simps [simp]:
  "undo_sum [] num = 0"
  "undo_sum (op # ops) num = (if with_undo op \<and> sem_num op = num then sem_op op else 0) + undo_sum ops num"
  by (simp_all add: undo_sum_def)

definition values_ok :: "seminfo \<Rightarrow> nat list \<Rightarrow> bool" where
  "values_ok si vs \<longleftrightarrow> (\<forall>v\<in>set vs. v \<le> semvmx si)"

lemma values_ok_update: "values_ok si vs \<Longrightarrow> v \<le> semvmx si \<Longrightarrow> values_ok si (vs[k := v])"
  by (auto simp: values_ok_def dest!: set_update_subset_insert [THEN subsetD])

text \<open>A pass that ends otherwise than well: values and entries are \<open>vs\<close> and \<open>es\<close>.\<close>

definition pass_failed :: "seminfo \<Rightarrow> nat \<Rightarrow> nat \<Rightarrow> nat list \<Rightarrow> undo list \<Rightarrow> semst \<Rightarrow> semst \<Rightarrow> bool" where
  "pass_failed si slot x vs es st st' \<longleftrightarrow>
     undo_ok si st' \<and> smap st' = smap st \<and> length (sems st') = length (sems st) \<and>
     (\<forall>s. s \<noteq> slot \<longrightarrow> ents st' s = ents st s) \<and>
     (sema st' = sema st \<or> sema st' = (sema st)[x := (sema st ! x)\<lparr>sem_binary := False\<rparr>]) \<and>
     vals st' = vs \<and> ents st' slot = es"

definition pass_did :: "seminfo \<Rightarrow> nat \<Rightarrow> int \<Rightarrow> nat \<Rightarrow> sembuf list \<Rightarrow> semst \<Rightarrow> semst \<Rightarrow> bool" where
  "pass_did si slot semid base ops st st' \<longleftrightarrow>
     undo_ok si st' \<and> same_rest slot st st' \<and> values_ok si (vals st') \<and>
     (\<forall>k<length (sems st). int (vals st' ! k) = int (vals st ! k) + op_sum base ops k) \<and>
     (\<forall>i n. adj i n (ents st' slot) = adj i n (ents st slot) - (if i = semid then undo_sum ops n else 0))"

definition pass_post :: "seminfo \<Rightarrow> nat \<Rightarrow> int \<Rightarrow> nat \<Rightarrow> sembuf list \<Rightarrow> nat list \<Rightarrow> undo list \<Rightarrow> semst \<Rightarrow> passres \<Rightarrow> semst \<Rightarrow> bool" where
  "pass_post si slot semid x ops vs es st r st' \<longleftrightarrow>
     (let base = sem_base (sema st ! x) in
      (if r = Pass_ok then pass_did si slot semid base ops st st' \<and> feasible si base (vals st) ops
       else pass_failed si slot x vs es st st') \<and>
      (feasible si base (vals st) ops \<longrightarrow> r = Pass_ok \<or> (\<exists>op\<in>set ops. with_undo op) \<and> (\<exists>e. r = Pass_err e)))"

lemma pass_failedI:
  assumes "undo_ok si st'" and "same_rest slot st st'" and "(vals st', ents st' slot) = (vs, es)"
  shows "pass_failed si slot x vs es st st'"
  using assms by (simp add: pass_failed_def same_rest_def)

text \<open>The first operation cannot be done.\<close>

lemma pass_stuck:
  assumes "pass_failed si slot x vs es st st'" and "\<not> feasible si (sem_base (sema st ! x)) (vals st) ops" and "r \<noteq> Pass_ok"
  shows "pass_post si slot semid x ops vs es st r st'"
  using assms by (simp add: pass_post_def Let_def)

text \<open>The first operation cannot be recorded.\<close>

lemma pass_refused:
  assumes "pass_failed si slot x vs es st st'" and "with_undo op"
  shows "pass_post si slot semid x (op # ops) vs es st (Pass_err e) st'"
  using assms by (simp add: pass_post_def Let_def)

text \<open>The first operation is done.\<close>

lemma pass_next:
  assumes did: "op_did si slot semid (sem_base (sema st ! x)) op st st1"
    and k: "sem_base (sema st ! x) + sem_num op < length (sems st)"
    and ok: "feasible si (sem_base (sema st ! x)) (vals st) [op]"
    and rest: "pass_post si slot semid x ops vs es st1 r st'"
  shows "pass_post si slot semid x (op # ops) vs es st r st'"
proof -
  let ?b = "sem_base (sema st ! x)"
  let ?k = "?b + sem_num op"
  have same: "sema st1 = sema st" "smap st1 = smap st" "length (sems st1) = length (sems st)"
    "\<And>s. s \<noteq> slot \<Longrightarrow> ents st1 s = ents st s"
    using did by (auto simp: op_did_def same_rest_def)
  have vals1: "vals st1 = (vals st)[?k := nat (int (vals st ! ?k) + sem_op op)]"
    using did by (simp add: op_did_def Let_def)
  have f: "feasible si ?b (vals st) (op # ops) \<longleftrightarrow> feasible si ?b (vals st1) ops"
    using ok vals1 by (auto simp: Let_def split: if_splits)
  have nonneg: "0 \<le> int (vals st ! ?k) + sem_op op"
    using ok by (auto simp: Let_def split: if_splits)
  have adj1: "adj i n (ents st1 slot) = adj i n (ents st slot) - (if i = semid \<and> with_undo op \<and> n = sem_num op then sem_op op else 0)" for i n
    using did by (cases "with_undo op \<and> sem_op op \<noteq> 0") (auto simp: op_did_def aoe_done_def split: if_splits)
  show ?thesis
  proof (cases "r = Pass_ok")
    case True
    then have p: "pass_did si slot semid ?b ops st1 st'" and f1: "feasible si ?b (vals st1) ops"
      using rest same(1) by (simp_all add: pass_post_def Let_def)
    have "int (vals st' ! j) = int (vals st ! j) + op_sum ?b (op # ops) j" if "j < length (sems st)" for j
    proof (cases "j = ?k")
      case True
      with p that nonneg k same(3) show ?thesis
        by (simp add: pass_did_def vals1)
    next
      case False
      with p that same(3) show ?thesis
        by (auto simp: pass_did_def vals1)
    qed
    moreover have "adj i n (ents st' slot) = adj i n (ents st slot) - (if i = semid then undo_sum (op # ops) n else 0)" for i n
      using p adj1 [of i n] by (auto simp: pass_did_def)
    ultimately have "pass_did si slot semid ?b (op # ops) st st'"
      using p same by (simp add: pass_did_def same_rest_def)
    with True f f1 show ?thesis
      by (simp add: pass_post_def Let_def del: feasible.simps)
  next
    case False
    then have "pass_failed si slot x vs es st1 st'"
      using rest by (simp add: pass_post_def Let_def)
    then have "pass_failed si slot x vs es st st'"
      using same by (simp add: pass_failed_def)
    with False f rest same(1) show ?thesis
      by (auto simp: pass_post_def Let_def simp del: feasible.simps)
  qed
qed

text \<open>The hypotheses of a pass with the operations \<open>dn\<close> behind it.\<close>

definition pass_pre :: "seminfo \<Rightarrow> nat \<Rightarrow> int \<Rightarrow> nat \<Rightarrow> sembuf list \<Rightarrow> sembuf list \<Rightarrow> nat list \<Rightarrow> undo list \<Rightarrow> semst \<Rightarrow> bool" where
  "pass_pre si slot semid x dn ops vs es st \<longleftrightarrow>
     (let base = sem_base (sema st ! x) in
      seminfo_ok si \<and> undo_ok si st \<and> values_ok si (vals st) \<and>
      (\<forall>op\<in>set dn. undoable si slot base st op) \<and>
      (\<forall>op\<in>set ops. base + sem_num op < length (sems st)) \<and>
      undo_vis si semid base dn (vals st, ents st slot) = (vs, es))"

lemma pass_back_out:
  assumes "pass_pre si slot semid x dn ops vs es st"
  obtains st' where "semundo si slot semid (sem_base (sema st ! x)) dn st = Done st'"
    and "pass_failed si slot x vs es st st'"
proof -
  let ?b = "sem_base (sema st ! x)"
  have pre: "seminfo_ok si" "undo_ok si st" "\<forall>op\<in>set dn. undoable si slot ?b st op"
    "undo_vis si semid ?b dn (vals st, ents st slot) = (vs, es)"
    using assms by (simp_all add: pass_pre_def Let_def)
  obtain st' where "semundo si slot semid ?b dn st = Done st'" "undo_ok si st'" "same_rest slot st st'"
    "(vals st', ents st' slot) = undo_vis si semid ?b dn (vals st, ents st slot)"
    using semundo_vis [OF pre(1-3), of semid] by blast
  then show thesis
    using that pre(4) by (simp add: pass_failedI)
qed

text \<open>An adjustment that is refused changes nothing the pass depends on.\<close>

lemma op_aoe_refused:
  assumes "pass_pre si slot semid x dn ops vs es st" and "sem_op op \<noteq> 0"
    and "op_aoe si slot semid op st = (Some e, st1)"
  shows "with_undo op" and "pass_pre si slot semid x dn ops vs es st1"
    and "pass_failed si slot x vs es st1 st2 \<Longrightarrow> pass_failed si slot x vs es st st2"
    and "sema st1 = sema st"
proof -
  have pre: "seminfo_ok si" "undo_ok si st"
    using assms(1) by (simp_all add: pass_pre_def Let_def)
  show u: "with_undo op"
    using assms(3) by (simp add: op_aoe_def with_undo_def split: if_splits)
  then have "semaoe si slot (sem_op op) semid (sem_num op) st = (Some e, st1)"
    using assms(3) by (simp add: op_aoe_def with_undo_def)
  then have "aoe_post si slot (sem_op op) semid (sem_num op) st (Some e) st1"
    by (rule semaoe_post [OF pre assms(2)])
  then have same: "undo_ok si st1" "same_sets st st1" "\<And>s. ents st1 s = ents st s"
    "\<And>up. sem_undo st slot = Some up \<Longrightarrow> sem_undo st1 slot = Some up"
    by (auto simp: aoe_post_def)
  then have "\<And>op. undoable si slot b st op \<Longrightarrow> undoable si slot b st1 op" for b
    by (auto simp: undoable_def same_sets_def)
  with same assms(1) show "pass_pre si slot semid x dn ops vs es st1"
    by (auto simp: pass_pre_def same_sets_def vals_def Let_def)
  show "pass_failed si slot x vs es st st2" if "pass_failed si slot x vs es st1 st2"
    using that same by (auto simp: pass_failed_def same_sets_def)
  show "sema st1 = sema st"
    using same(2) by (simp add: same_sets_def)
qed

lemma pass_pre_step:
  assumes pre: "pass_pre si slot semid x dn (op # ops) vs es st"
    and did: "op_did si slot semid (sem_base (sema st ! x)) op st st1"
    and f: "feasible si (sem_base (sema st ! x)) (vals st) [op]"
  shows "pass_pre si slot semid x (op # dn) ops vs es st1"
proof -
  let ?b = "sem_base (sema st ! x)"
  let ?k = "?b + sem_num op"
  have si: "seminfo_ok si" "undo_ok si st" and v: "values_ok si (vals st)" and k: "?k < length (sems st)"
    and dn: "\<forall>op\<in>set dn. undoable si slot ?b st op"
    using pre by (simp_all add: pass_pre_def Let_def)
  have d: "undo_ok si st1" "sema st1 = sema st" "length (sems st1) = length (sems st)"
    "\<And>up. sem_undo st slot = Some up \<Longrightarrow> sem_undo st1 slot = Some up"
    "vals st1 = (vals st)[?k := nat (int (vals st ! ?k) + sem_op op)]"
    using did by (auto simp: op_did_def same_rest_def Let_def)
  have small: "vals st ! ?k \<le> semvmx si"
    using v k by (simp add: values_ok_def)
  then have "nat (int (vals st ! ?k) + sem_op op) \<le> semvmx si"
    using f by (cases "sem_op op > 0") (auto simp: Let_def split: if_splits)
  then have "values_ok si (vals st1)"
    using v d(5) by (simp add: values_ok_update)
  moreover have "undo_vis si semid ?b (op # dn) (vals st1, ents st1 slot) = (vs, es)"
    using op_did_undo [OF si did k, of dn] small f pre k
    by (auto simp: vals_nth pass_pre_def Let_def split: if_splits)
  moreover have "undoable si slot ?b st1 op"
    using did d(3) k by (auto simp: undoable_def op_did_def)
  moreover have "undoable si slot ?b st1 o'" if "o' \<in> set dn" for o'
    using dn d(3,4) that by (auto simp: undoable_def)
  ultimately show ?thesis
    using pre si d by (auto simp: pass_pre_def Let_def)
qed

lemma pass_refuse:
  assumes "pass_pre si slot semid x dn (op # ops) vs es st" and "sem_op op \<noteq> 0"
    and "op_aoe si slot semid op st = (Some e, st1)"
  obtains st' where "semundo si slot semid (sem_base (sema st ! x)) dn st1 = Done st'"
    and "pass_post si slot semid x (op # ops) vs es st (Pass_err e) st'"
proof -
  note ref = op_aoe_refused [OF assms]
  obtain st' where "semundo si slot semid (sem_base (sema st1 ! x)) dn st1 = Done st'" "pass_failed si slot x vs es st1 st'"
    using pass_back_out [OF ref(2)] .
  then show thesis
    using that ref by (simp add: pass_refused)
qed

lemma pass_failed_set_sem:
  assumes "pass_failed si slot x vs es st st'" and "k < length (sems st)" and "semval s = semval (sems st' ! k)"
  shows "pass_failed si slot x vs es st (set_sem k s st')"
  using assms by (auto simp: pass_failed_def)

lemma pass_failed_binary:
  assumes "pass_failed si slot x vs es st st'"
  shows "pass_failed si slot x vs es st (set_ds x ((sema st' ! x)\<lparr>sem_binary := False\<rparr>) st')"
  using assms by (cases "x < length (sema st)") (auto simp: pass_failed_def list_update_beyond)

lemma semop_pass_step:
  assumes pre: "pass_pre si slot semid x dn (op # ops) vs es st"
    and did: "op_did si slot semid (sem_base (sema st ! x)) op st st1"
    and f: "feasible si (sem_base (sema st ! x)) (vals st) [op]"
    and run: "semop_pass si slot semid x binary dn (op # ops) st = semop_pass si slot semid x binary (op # dn) ops st1"
    and IH: "pass_pre si slot semid x (op # dn) ops vs es st1 \<Longrightarrow>
      \<exists>r st'. semop_pass si slot semid x binary (op # dn) ops st1 = Done (r, st') \<and> pass_post si slot semid x ops vs es st1 r st'"
  shows "\<exists>r st'. semop_pass si slot semid x binary dn (op # ops) st = Done (r, st') \<and> pass_post si slot semid x (op # ops) vs es st r st'"
proof -
  have "sem_base (sema st ! x) + sem_num op < length (sems st)"
    using pre by (simp add: pass_pre_def Let_def)
  then show ?thesis
    using IH [OF pass_pre_step [OF pre did f]] pass_next [OF did _ f] run by metis
qed

text \<open>
  An operation that its semaphore allows is recorded and done, or refused by \<open>semaoe\<close>;
  \<open>wk\<close> are the wake-ups that follow.
\<close>

lemma pass_recorded:
  assumes pre: "pass_pre si slot semid x dn (op # ops) vs es st" and nz: "sem_op op \<noteq> 0"
    and f: "feasible si (sem_base (sema st ! x)) (vals st) [op]"
    and wk: "\<And>st k. k < length (sems st) \<Longrightarrow> same_but_counts st (wk k st)"
    and run: "semop_pass si slot semid x binary dn (op # ops) st =
      (case op_aoe si slot semid op st of
         (Some e, st1) \<Rightarrow> bind_outcome (semundo si slot semid (sem_base (sema st ! x)) dn st1) (\<lambda>st. Done (Pass_err e, st))
       | (None, st1) \<Rightarrow> semop_pass si slot semid x binary (op # dn) ops
           (wk (sem_base (sema st ! x) + sem_num op) (sem_add (sem_base (sema st ! x) + sem_num op) (sem_op op) st1)))"
    and IH: "\<And>dn st. pass_pre si slot semid x dn ops vs es st \<Longrightarrow>
      \<exists>r st'. semop_pass si slot semid x binary dn ops st = Done (r, st') \<and> pass_post si slot semid x ops vs es st r st'"
  shows "\<exists>r st'. semop_pass si slot semid x binary dn (op # ops) st = Done (r, st') \<and> pass_post si slot semid x (op # ops) vs es st r st'"
proof (cases "op_aoe si slot semid op st")
  case (Pair r st1)
  let ?b = "sem_base (sema st ! x)"
  let ?k = "?b + sem_num op"
  have si: "seminfo_ok si" "undo_ok si st" and v: "values_ok si (vals st)" and k: "?k < length (sems st)"
    using pre by (simp_all add: pass_pre_def Let_def)
  have v': "vals st ! ?k = semval (sems st ! ?k)" "semval (sems st ! ?k) \<le> semvmx si"
    using v k by (auto simp: vals_nth values_ok_def vals_def)
  show ?thesis
  proof (cases r)
    case None
    have "sems st1 = sems st"
      using Pair semaoe_post [OF si nz, of slot semid "sem_num op"]
      by (auto simp: op_aoe_def aoe_post_def same_sets_def split: if_splits)
    then have "?k < length (sems (sem_add ?k (sem_op op) st1))"
      using k by (simp add: sem_add_def Let_def)
    then have "op_did si slot semid ?b op st (wk ?k (sem_add ?k (sem_op op) st1))"
      using f nz v' Pair None
      by (intro op_did_intro [OF si k nz, of slot semid st1]) (auto simp: Let_def wk)
    with Pair None run show ?thesis
      by (intro semop_pass_step [OF pre _ f _ IH]) simp_all
  next
    case (Some e)
    then obtain st' where "semundo si slot semid ?b dn st1 = Done st'"
      "pass_post si slot semid x (op # ops) vs es st (Pass_err e) st'"
      using pass_refuse [OF pre nz Pair [unfolded Some]] by auto
    with Pair Some run show ?thesis by simp
  qed
qed

lemma semop_pass_spec:
  assumes "pass_pre si slot semid x dn ops vs es st"
  shows "\<exists>r st'. semop_pass si slot semid x binary dn ops st = Done (r, st') \<and> pass_post si slot semid x ops vs es st r st'"
  using assms
proof (induction ops arbitrary: dn st)
  case Nil
  then show ?case
    by (simp add: pass_post_def pass_did_def pass_pre_def Let_def)
next
  case (Cons op ops)
  let ?k = "sem_base (sema st ! x) + sem_num op"
  let ?v = "semval (sems st ! ?k)"
  note pre = Cons.prems
  have k: "?k < length (sems st)"
    using pre by (simp add: pass_pre_def Let_def)
  have v: "vals st ! ?k = ?v"
    using k by (rule vals_nth)
  obtain stF where stF: "semundo si slot semid (sem_base (sema st ! x)) dn st = Done stF" "pass_failed si slot x vs es st stF"
    using pass_back_out [OF pre] .
  note stuck = pass_stuck [OF stF(2)] pass_stuck [OF pass_failed_set_sem [OF stF(2) k]]
    pass_stuck [OF pass_failed_binary [OF pass_failed_set_sem [OF stF(2) k]]]
  consider (V) "0 < sem_op op" "sem_op op + int ?v \<le> int (semvmx si)"
    | (V_fail) "0 < sem_op op" "sem_op op + int ?v > int (semvmx si)"
    | (P) "sem_op op < 0" "int ?v \<ge> - sem_op op" | (P_fail) "sem_op op < 0" "int ?v < - sem_op op"
    | (Z) "sem_op op = 0" "?v = 0" | (Z_fail) "sem_op op = 0" "?v \<noteq> 0"
    by linarith
  then show ?case
  proof cases
    case V
    show ?thesis
      by (rule pass_recorded [where wk = "sem_v_wake (sem_op op = 1 \<and> binary)", OF pre _ _ sem_v_wake_frame _ Cons.IH])
        (use V k v in \<open>simp_all add: Let_def\<close>)
  next
    case P
    show ?thesis
      by (rule pass_recorded [where wk = sem_p_wake, OF pre _ _ sem_p_wake_frame _ Cons.IH]) (use P k v in \<open>simp_all add: Let_def\<close>)
  next
    case Z
    have "undo_ok si st"
      using pre by (simp add: pass_pre_def Let_def)
    from op_did_zero [OF this Z(1)] show ?thesis
      by (rule semop_pass_step [OF pre _ _ _ Cons.IH]) (use Z k v in \<open>simp_all add: Let_def\<close>)
  next
    case V_fail
    with k v stF(1) stuck(1) [of "op # ops" "Pass_err ERANGE"] show ?thesis
      by (simp add: Let_def)
  next
    case P_fail
    with k v stF(1) stuck(1) [of "op # ops" "Pass_err EAGAIN"] stuck(2,3) [of _ "op # ops" "Pass_sleep_n ?k"]
    show ?thesis by (simp add: Let_def)
  next
    case Z_fail
    with k v stF(1) stuck(1) [of "op # ops" "Pass_err EAGAIN"] stuck(2) [of _ "op # ops" "Pass_sleep_z ?k"]
    show ?thesis by (simp add: Let_def)
  qed
qed

section \<open>The system call\<close>

text \<open>The semaphores of every set in use lie in the pool.\<close>

definition pool_ok :: "seminfo \<Rightarrow> semst \<Rightarrow> bool" where
  "pool_ok si st \<longleftrightarrow> length (sema st) = semmni si \<and>
     (\<forall>sp\<in>set (sema st). ipc_allocated (sem_perm sp) \<longrightarrow> sem_base sp + sem_nsems sp \<le> length (sems st))"

lemma semconv_lockD:
  assumes "semconv_lock si semid st = Some x"
  shows "x = sem_index semid" and "x < semmni si" and "ipc_allocated (sem_perm (sema st ! x))"
    and "ip_seq (sem_perm (sema st ! x)) = sem_sequence semid"
  using assms by (auto simp: semconv_lock_def Let_def split: if_splits)

lemma semconv_lock_eq: "semconv si semid st = None \<longleftrightarrow> semconv_lock si semid st = Some (sem_index semid)"
  by (simp add: semconv_def semconv_lock_def Let_def)

lemma pool_set:
  assumes "pool_ok si st" and "semconv_lock si semid st = Some x"
  shows "sem_base (sema st ! x) + sem_nsems (sema st ! x) \<le> length (sems st)"
  using assms semconv_lockD [OF assms(2)] by (auto simp: pool_ok_def)

lemma semop_verify_nums:
  "semop_verify cr sp ops = None \<Longrightarrow> \<forall>op\<in>set ops. sem_num op < sem_nsems sp"
  by (induction ops) (auto split: option.splits if_splits)

lemma set_pids_frame [simp]:
  "sema (set_pids pid base ops st) = sema st" "smap (set_pids pid base ops st) = smap st"
  "ents (set_pids pid base ops st) = ents st" "undo_ok si (set_pids pid base ops st) = undo_ok si st"
  "length (sems (set_pids pid base ops st)) = length (sems st)"
  by (induction ops arbitrary: st) (simp_all add: Let_def)

lemma set_pids_vals [simp]:
  "\<forall>op\<in>set ops. base + sem_num op < length (sems st) \<Longrightarrow> vals (set_pids pid base ops st) = vals st"
  by (induction ops arbitrary: st) (simp_all add: Let_def)

text \<open>
  The transaction that \<^verbatim>\<open>semop\<close> promises: all operations take effect, with the adjustments
  recorded for those that ask for it, or none does.
\<close>

definition transaction :: "seminfo \<Rightarrow> nat \<Rightarrow> int \<Rightarrow> sembuf list \<Rightarrow> semst \<Rightarrow> semop_res \<Rightarrow> semst \<Rightarrow> bool" where
  "transaction si slot semid ops st r st' \<longleftrightarrow>
     (let base = sem_base (sema st ! sem_index semid) in
      undo_ok si st' \<and> values_ok si (vals st') \<and> pool_ok si st' \<and> smap st' = smap st
      \<and> (\<exists>b t. sema st' = (sema st)[sem_index semid := (sema st ! sem_index semid)\<lparr>sem_binary := b, sem_otime := t\<rparr>])
      \<and> length (sems st') = length (sems st) \<and> (\<forall>s. s \<noteq> slot \<longrightarrow> ents st' s = ents st s)
      \<and> (if r = Returned None
         then feasible si base (vals st) ops
           \<and> (\<forall>k<length (sems st). int (vals st' ! k) = int (vals st ! k) + op_sum base ops k)
           \<and> (\<forall>i n. adj i n (ents st' slot) = adj i n (ents st slot) - (if i = semid then undo_sum ops n else 0))
         else vals st' = vals st \<and> ents st' slot = ents st slot)
      \<and> (\<forall>k. r = Sleeping_n k \<or> r = Sleeping_z k \<longrightarrow> \<not> feasible si base (vals st) ops))"

lemma sema_unchanged:
  "\<exists>b t. sema st = (sema st)[x := (sema st ! x)\<lparr>sem_binary := b, sem_otime := t\<rparr>]"
  by (rule exI [of _ "sem_binary (sema st ! x)"], rule exI [of _ "sem_otime (sema st ! x)"]) simp

lemma sema_binary:
  "\<exists>b t. (sema st)[x := (sema st ! x)\<lparr>sem_binary := c\<rparr>] = (sema st)[x := (sema st ! x)\<lparr>sem_binary := b, sem_otime := t\<rparr>]"
  by (rule exI [of _ c], rule exI [of _ "sem_otime (sema st ! x)"]) simp

lemma sema_otime:
  "\<exists>b t. (sema st)[x := (sema st ! x)\<lparr>sem_otime := u\<rparr>] = (sema st)[x := (sema st ! x)\<lparr>sem_binary := b, sem_otime := t\<rparr>]"
  by (rule exI [of _ "sem_binary (sema st ! x)"], rule exI [of _ u]) simp

lemma transaction_error:
  assumes "undo_ok si st" and "values_ok si (vals st)" and "pool_ok si st"
  shows "transaction si slot semid ops st (Returned (Some e)) st"
  using assms sema_unchanged by (simp add: transaction_def Let_def)

lemma transaction_empty:
  assumes "undo_ok si st" and "values_ok si (vals st)" and "pool_ok si st"
  shows "transaction si slot semid [] st (Returned None) st"
  using assms sema_unchanged by (simp add: transaction_def Let_def)

lemma pool_ok_update:
  assumes "pool_ok si st" and "sema st' = (sema st)[x := sp] \<or> sema st' = sema st" and "length (sems st') = length (sems st)"
    and "sem_base sp = sem_base (sema st ! x)" and "sem_nsems sp = sem_nsems (sema st ! x)"
    and "sem_perm sp = sem_perm (sema st ! x)"
  shows "pool_ok si st'"
proof -
  have "ipc_allocated (sem_perm q) \<longrightarrow> sem_base q + sem_nsems q \<le> length (sems st)" if "q \<in> set (sema st')" for q
  proof (cases "x < length (sema st)")
    case True
    with assms that show ?thesis
      by (auto simp: pool_ok_def dest!: set_update_subset_insert [THEN subsetD])
  next
    case False
    with assms that show ?thesis
      by (auto simp: pool_ok_def list_update_beyond)
  qed
  with assms show ?thesis
    by (auto simp: pool_ok_def)
qed

lemma semop_check_transaction:
  assumes si: "seminfo_ok si" and ok: "undo_ok si st" "values_ok si (vals st)" "pool_ok si st"
    and x: "semconv_lock si semid st = Some x"
    and nums: "\<forall>op\<in>set ops. sem_num op < sem_nsems (sema st ! x)"
  shows "\<exists>r st'. semop_check si ca semid x ops st = Done (r, st') \<and> transaction si (ca_slot ca) semid ops st r st'"
proof -
  let ?b = "sem_base (sema st ! x)"
  let ?bin = "sem_binary (sema st ! x) \<and> sem_nsems (sema st ! x) = 1"
  note xi = semconv_lockD(1) [OF x]
  have in_pool: "\<forall>op\<in>set ops. ?b + sem_num op < length (sems st)"
    using nums pool_set [OF ok(3) x] by (meson add_less_cancel_left order_less_le_trans)
  have "pass_pre si (ca_slot ca) semid x [] ops (vals st) (ents st (ca_slot ca)) st"
    using si ok in_pool by (simp add: pass_pre_def Let_def)
  from semop_pass_spec [OF this, of ?bin] obtain r st1 where
    run: "semop_pass si (ca_slot ca) semid x ?bin [] ops st = Done (r, st1)"
    and post: "pass_post si (ca_slot ca) semid x ops (vals st) (ents st (ca_slot ca)) st r st1"
    by blast
  show ?thesis
  proof (cases "r = Pass_ok")
    case True
    let ?st2 = "set_pids (ca_pid ca) ?b ops st1"
    let ?sp = "(sema st ! x)\<lparr>sem_otime := ca_now ca\<rparr>"
    have did: "pass_did si (ca_slot ca) semid ?b ops st st1" "feasible si ?b (vals st) ops"
      using post True by (simp_all add: pass_post_def Let_def)
    then have same: "sema st1 = sema st" "length (sems st1) = length (sems st)"
      by (simp_all add: pass_did_def same_rest_def)
    have "semop_check si ca semid x ops st = Done (Returned None, set_ds x ?sp ?st2)"
      using run True same by (simp add: semop_check_def Let_def)
    moreover have "pool_ok si (set_ds x ?sp ?st2)"
      by (rule pool_ok_update [OF ok(3), of _ x ?sp]) (simp_all add: same)
    ultimately show ?thesis
      using did xi in_pool same sema_otime by (simp add: transaction_def pass_did_def same_rest_def Let_def)
  next
    case False
    then have failed: "pass_failed si (ca_slot ca) x (vals st) (ents st (ca_slot ca)) st st1"
      using post by (simp add: pass_post_def Let_def)
    then have "pool_ok si st1"
      by (intro pool_ok_update [OF ok(3), of st1 x "(sema st ! x)\<lparr>sem_binary := False\<rparr>"])
        (auto simp: pass_failed_def)
    moreover have "\<exists>b t. sema st1 = (sema st)[x := (sema st ! x)\<lparr>sem_binary := b, sem_otime := t\<rparr>]"
      using failed sema_unchanged sema_binary unfolding pass_failed_def by metis
    ultimately show ?thesis
      using failed ok False post run xi
      by (cases r) (auto simp: semop_check_def transaction_def pass_failed_def pass_post_def Let_def)
  qed
qed

text \<open>
  C1. \<^verbatim>\<open>semop\<close> is a transaction. It always comes back with a result. When it returns 0 the
  operations could be carried out in their order, every semaphore of the pool has changed by
  exactly the sum of the operations on it, and the process's adjustments by exactly the sum of
  those marked \<^verbatim>\<open>SEM_UNDO\<close>; when it fails or goes to sleep, no value and no adjustment of any
  process has changed; it sleeps only when the operations cannot be carried out. A sleeper that
  is woken makes the same promise for its next try.
\<close>

theorem semop_atomic:
  assumes "seminfo_ok si" and "undo_ok si st" and "values_ok si (vals st)" and "pool_ok si st"
  shows "(\<exists>r st'. semop si ca semid fault ops st = Done (r, st') \<and> transaction si (ca_slot ca) semid ops st r st')
    \<and> ((\<forall>op\<in>set ops. sem_num op < sem_nsems (sema st ! sem_index semid)) \<longrightarrow>
       (\<exists>r st'. semop_wakeup si ca semid (sem_index semid) ops st = Done (r, st') \<and>
          transaction si (ca_slot ca) semid ops st r st'))"
proof -
  note err = transaction_error [OF assms(2-4)]
  have check: "\<exists>r st'. semop_check si ca semid x ops st = Done (r, st') \<and> transaction si (ca_slot ca) semid ops st r st'"
    if "semconv_lock si semid st = Some x" "\<forall>op\<in>set ops. sem_num op < sem_nsems (sema st ! x)" for x
    by (rule semop_check_transaction [OF assms that])
  have "\<exists>r st'. semop si ca semid fault ops st = Done (r, st') \<and> transaction si (ca_slot ca) semid ops st r st'"
  proof (cases "length ops > semopm si \<or> ops = [] \<or> fault \<or> semconv_lock si semid st = None")
    case True
    then show ?thesis
      using err transaction_empty [OF assms(2-4)] by (auto simp: semop_def)
  next
    case False
    then obtain x where x: "semconv_lock si semid st = Some x" by auto
    show ?thesis
    proof (cases "semop_verify (ca_cred ca) (sema st ! x) ops")
      case None
      with False x check [OF x semop_verify_nums [OF None]] show ?thesis
        by (simp add: semop_def)
    next
      case (Some e)
      with False x err show ?thesis by (simp add: semop_def)
    qed
  qed
  moreover have "\<exists>r st'. semop_wakeup si ca semid (sem_index semid) ops st = Done (r, st') \<and>
      transaction si (ca_slot ca) semid ops st r st'"
    if "\<forall>op\<in>set ops. sem_num op < sem_nsems (sema st ! sem_index semid)"
    using that check err by (auto simp: semop_wakeup_def semconv_lock_eq split: option.splits)
  ultimately show ?thesis by blast
qed

definition wit_seminfo :: seminfo where
  "wit_seminfo = \<lparr>semmap = 10, semmni = 1, semmns = 2, semmnu = 1, semmsl = 25, semopm = 10, semume = 10,
     semvmx = 32767, semaem = 16384\<rparr>"

definition wit_perm :: ipc_perm where
  "wit_perm = \<lparr>ip_uid = 0, ip_gid = 0, ip_cuid = 0, ip_cgid = 0, ip_mode = 0x81B6, ip_seq = 3, ip_key = 7\<rparr>"

definition wit_semst :: semst where
  "wit_semst =
     \<lparr>sema = [\<lparr>sem_perm = wit_perm, sem_base = 0, sem_nsems = 2, sem_otime = 0, sem_ctime = 0, sem_binary = True\<rparr>],
      sems = [\<lparr>semval = 5, sempid = 0, semncnt = 0, semzcnt = 0\<rparr>, \<lparr>semval = 1, sempid = 0, semncnt = 2, semzcnt = 0\<rparr>],
      smap = \<lparr>m_free = 2, m_want = 0, m_nam = [], m_slots = 2, m_bcasts = 0,
              m_map = replicate 3 \<lparr>m_size = 0, m_addr = 0\<rparr>\<rparr>,
      un_ent = (\<lambda>_. []), sem_undo = (\<lambda>_. None), semunp = [], semfup = [0], wakes = []\<rparr>"

definition wit_caller :: caller where
  "wit_caller = \<lparr>ca_cred = zero_cred 16, ca_slot = 4, ca_pid = 100, ca_now = 1000\<rparr>"

definition wit_ops :: "sembuf list" where
  "wit_ops = [\<lparr>sem_num = 0, sem_op = - 2, sem_flg = 0x1000\<rparr>, \<lparr>sem_num = 1, sem_op = - 4, sem_flg = 0\<rparr>]"

lemma wit_semst_ok:
  "seminfo_ok wit_seminfo" "undo_ok wit_seminfo wit_semst" "values_ok wit_seminfo (vals wit_semst)"
  "pool_ok wit_seminfo wit_semst"
  by (simp_all add: wit_seminfo_def wit_semst_def seminfo_ok_def undo_ok_def ents_ok_def values_ok_def vals_def
      pool_ok_def)

text \<open>The second operation has to wait, so that the first one is taken back.\<close>

theorem semop_atomic_witness:
  "\<exists>r st'. semop wit_seminfo wit_caller 0x30000 False wit_ops wit_semst = Done (r, st')
     \<and> transaction wit_seminfo 4 0x30000 wit_ops wit_semst r st'"
  using semop_atomic [OF wit_semst_ok, of wit_caller "0x30000" False wit_ops]
  by (simp add: wit_caller_def)

end
