(* ===== verification/Sem_Sets.thy ===== *)
theory Sem_Sets
  imports Sem_Ops
begin

text \<open>
  The life of semaphore sets: creation, control, removal and the exit of a process, and the
  invariant that all of \<^verbatim>\<open>sem.c\<close> keeps.
\<close>

section \<open>Removal of undo entries\<close>

definition ent_hit :: "int \<Rightarrow> nat \<Rightarrow> nat \<Rightarrow> undo \<Rightarrow> bool" where
  "ent_hit semid low high e \<longleftrightarrow> un_id e = semid \<and> low \<le> un_num e \<and> un_num e \<le> high"

text \<open>Because entries are sorted, stopping early leaves nothing behind.\<close>

lemma unrm_entries_filter:
  "sorted_wrt ent_less es \<Longrightarrow> unrm_entries semid low high es = filter (\<lambda>e. \<not> ent_hit semid low high e) es"
proof (induction es)
  case (Cons e es)
  have all: "filter (\<lambda>f. \<not> ent_hit semid low high f) es = es"
    if "semid < un_id e \<or> un_id e = semid \<and> high < un_num e"
  proof -
    have "\<not> ent_hit semid low high f" if "f \<in> set es" for f
      using that \<open>semid < un_id e \<or> _\<close> Cons.prems by (auto simp: ent_hit_def ent_less_def)
    then show ?thesis by (simp add: filter_id_conv)
  qed
  show ?case
    using Cons all by (auto simp: ent_hit_def)
qed simp

lemma semunrm_loop_spec:
  assumes "distinct ps"
  shows "semunrm_loop semid low high ps ent =
    (filter (\<lambda>p. unrm_entries semid low high (ent p) \<noteq> []) ps,
     \<lambda>p. if p \<in> set ps then unrm_entries semid low high (ent p) else ent p)"
  using assms
proof (induction ps arbitrary: ent)
  case (Cons p ps)
  let ?ent = "ent(p := unrm_entries semid low high (ent p))"
  have f: "filter (\<lambda>q. unrm_entries semid low high (?ent q) \<noteq> []) ps
      = filter (\<lambda>q. unrm_entries semid low high (ent q) \<noteq> []) ps"
    using Cons.prems by (intro filter_cong) auto
  have e: "(\<lambda>q. if q \<in> set ps then unrm_entries semid low high (?ent q) else ?ent q)
      = (\<lambda>q. if q \<in> set (p # ps) then unrm_entries semid low high (ent q) else ent q)"
    using Cons.prems by (auto simp: fun_eq_iff)
  have "semunrm_loop semid low high ps ?ent =
      (filter (\<lambda>q. unrm_entries semid low high (ent q) \<noteq> []) ps,
       \<lambda>q. if q \<in> set (p # ps) then unrm_entries semid low high (ent q) else ent q)"
    using Cons.prems by (subst Cons.IH) (simp_all only: f e distinct.simps)
  then show ?case
    by (simp only: semunrm_loop.simps Let_def prod.case filter.simps) auto
qed simp

lemma ents_ok_filter: "ents_ok si es \<Longrightarrow> ents_ok si (filter P es)"
  by (auto simp: ents_ok_def sorted_wrt_filter intro: order.trans [OF length_filter_le])

lemma semunrm_un_ent:
  assumes "undo_ok si st"
  shows "un_ent (semunrm semid low high st) p = filter (\<lambda>e. \<not> ent_hit semid low high e) (un_ent st p)"
proof -
  have "unrm_entries semid low high (un_ent st p) = filter (\<lambda>e. \<not> ent_hit semid low high e) (un_ent st p)"
    using assms by (intro unrm_entries_filter) (auto simp: undo_ok_def ents_ok_def)
  moreover have "distinct (semunp st)" "p \<notin> set (semunp st) \<Longrightarrow> un_ent st p = []"
    using assms by (auto simp: undo_ok_def)
  ultimately show ?thesis
    by (simp add: semunrm_def semunrm_loop_spec split: prod.splits)
qed

lemma semunrm_frame [simp]:
  "sema (semunrm semid low high st) = sema st" "sems (semunrm semid low high st) = sems st"
  "smap (semunrm semid low high st) = smap st" "wakes (semunrm semid low high st) = wakes st"
  "sem_undo (semunrm semid low high st) = sem_undo st" "semfup (semunrm semid low high st) = semfup st"
  "vals (semunrm semid low high st) = vals st"
  by (simp_all add: semunrm_def vals_def split: prod.splits)

lemma semunrm_ents:
  assumes "undo_ok si st"
  shows "ents (semunrm semid low high st) s = filter (\<lambda>e. \<not> ent_hit semid low high e) (ents st s)"
  using semunrm_un_ent [OF assms] by (auto simp: ents_def split: option.splits)

lemma semunrm_undo_ok:
  assumes "undo_ok si st"
  shows "undo_ok si (semunrm semid low high st)"
proof -
  let ?P = "\<lambda>e. \<not> ent_hit semid low high e"
  have d: "distinct (semunp st)" and u: "set (semunp st) = {up. un_ent st up \<noteq> []}"
    and s: "\<And>p. sorted_wrt ent_less (un_ent st p)"
    using assms by (auto simp: undo_ok_def ents_ok_def)
  then have "semunp (semunrm semid low high st) = filter (\<lambda>p. filter ?P (un_ent st p) \<noteq> []) (semunp st)"
    by (simp add: semunrm_def semunrm_loop_spec [OF d] unrm_entries_filter [OF s])
  moreover have "filter ?P (un_ent st p) \<noteq> [] \<Longrightarrow> un_ent st p \<noteq> []" for p
    by auto
  ultimately have "distinct (semunp (semunrm semid low high st))"
    "set (semunp (semunrm semid low high st)) = {up. filter ?P (un_ent st up) \<noteq> []}"
    using d u by auto
  moreover have "\<exists>q. sem_undo st q = Some p" if "filter ?P (un_ent st p) \<noteq> []" for p
  proof -
    have "un_ent st p \<noteq> []"
      using that by auto
    with assms show ?thesis by (simp add: undo_ok_def)
  qed
  moreover have "\<forall>p. ents_ok si (filter ?P (un_ent st p))" "\<forall>p\<in>set (semfup st). filter ?P (un_ent st p) = []"
    using assms by (simp_all add: undo_ok_def ents_ok_filter)
  ultimately show ?thesis
    using assms unfolding undo_ok_def semunrm_frame semunrm_un_ent [OF assms] by blast
qed

lemma adj_semunrm:
  assumes "undo_ok si st"
  shows "adj i n (ents (semunrm semid low high st) s) =
    (if i = semid \<and> low \<le> n \<and> n \<le> high then 0 else adj i n (ents st s))"
proof -
  have "adj i n (filter (\<lambda>e. \<not> ent_hit semid low high e) es) =
      (if i = semid \<and> low \<le> n \<and> n \<le> high then 0 else adj i n es)" for es
    by (induction es) (auto simp: ent_hit_def ent_for_def)
  then show ?thesis
    by (simp add: semunrm_ents [OF assms])
qed

text \<open>
  An identifier has a second name: the test of the sequence number looks at 15 bits, so
  that the identifier with its top bit set reaches the same set, but the entries it leaves are
  filed under the other number, and clearing the set's adjustments does not find them.
\<close>

lemma semid_alias:
  assumes "undo_ok si st"
  shows "semconv_lock si (semid - 2147483648) st = semconv_lock si semid st
    \<and> adj (semid - 2147483648) n (ents (semunrm semid low high st) s) = adj (semid - 2147483648) n (ents st s)"
proof -
  have "(semid - 2147483648) mod 65536 = semid mod 65536"
    using mod_diff_right_eq [of semid 2147483648 65536] by simp
  moreover have "(semid - 2147483648) div 65536 = semid div 65536 - 32768"
    using div_mult_self1 [of 65536 semid "- 32768"] by simp
  moreover have "(semid div 65536 - 32768) mod 32768 = semid div 65536 mod 32768"
    using mod_diff_right_eq [of "semid div 65536" 32768 32768] by simp
  ultimately have "sem_index (semid - 2147483648) = sem_index semid"
    "sem_sequence (semid - 2147483648) = sem_sequence semid"
    by (simp_all only: sem_index_def sem_sequence_def)
  then have "semconv_lock si (semid - 2147483648) st = semconv_lock si semid st"
    by (simp only: semconv_lock_def)
  then show ?thesis
    by (simp add: adj_semunrm [OF assms])
qed

lemma semid_alias_witness:
  "semconv_lock wit_seminfo (0x30000 - 2147483648) wit_semst = semconv_lock wit_seminfo 0x30000 wit_semst"
  using semid_alias [OF wit_semst_ok(2), of "0x30000" 0 0 1 4] by simp

section \<open>The invariant\<close>

abbreviation in_use :: "semid_ds \<Rightarrow> bool" where
  "in_use sp \<equiv> ipc_allocated (sem_perm sp)"

text \<open>The units of the resource map that a set holds; unit \<open>k + 1\<close> is semaphore \<open>k\<close>.\<close>

definition set_units :: "semid_ds \<Rightarrow> nat set" where
  "set_units sp = (if in_use sp then block (sem_nsems sp) (sem_base sp + 1) else {})"

definition set_ok :: "seminfo \<Rightarrow> rmap \<Rightarrow> semid_ds \<Rightarrow> bool" where
  "set_ok si mp sp \<longleftrightarrow> ip_seq (sem_perm sp) \<le> SEMA_SEQ_MAX \<and>
     (in_use sp \<longrightarrow> good_block (sem_nsems sp) (sem_base sp + 1) \<and> sem_base sp + sem_nsems sp \<le> semmns si
        \<and> set_units sp \<inter> map_units mp = {})"

text \<open>
  Sets in use hold disjoint runs of the pool that are not free in the map, a semaphore that
  belongs to no set has value 0, and keys are unique.
\<close>

definition sets_ok :: "seminfo \<Rightarrow> semst \<Rightarrow> bool" where
  "sets_ok si st \<longleftrightarrow>
     length (sema st) = semmni si \<and> length (sems st) = semmns si \<and>
     rmap_ok (smap st) \<and> map_units (smap st) \<subseteq> {1..semmns si} \<and>
     (\<forall>x < semmni si. set_ok si (smap st) (sema st ! x)) \<and>
     (\<forall>x < semmni si. \<forall>y < semmni si. x \<noteq> y \<longrightarrow> set_units (sema st ! x) \<inter> set_units (sema st ! y) = {}) \<and>
     (\<forall>k < semmns si. (\<forall>x < semmni si. k + 1 \<notin> set_units (sema st ! x)) \<longrightarrow> vals st ! k = 0) \<and>
     keys_ok (map sem_perm (sema st))"

text \<open>Every entry is about a set that is there and a semaphore of it.\<close>

definition ents_live :: "seminfo \<Rightarrow> semst \<Rightarrow> bool" where
  "ents_live si st \<longleftrightarrow>
     (\<forall>s. \<forall>e\<in>set (ents st s). 0 \<le> un_id e \<and> un_id e < 2147483648 \<and>
        (\<exists>x. semconv_lock si (un_id e) st = Some x \<and> un_num e < sem_nsems (sema st ! x)))"

definition sem_ok :: "seminfo \<Rightarrow> semst \<Rightarrow> bool" where
  "sem_ok si st \<longleftrightarrow> seminfo_ok si \<and> undo_ok si st \<and> values_ok si (vals st) \<and> sets_ok si st \<and> ents_live si st"

lemma set_units_iff: "u \<in> set_units sp \<longleftrightarrow> in_use sp \<and> sem_base sp < u \<and> u \<le> sem_base sp + sem_nsems sp"
  by (auto simp: set_units_def block_def)

lemma sets_okD:
  assumes "sets_ok si st"
  shows "length (sema st) = semmni si" and "length (sems st) = semmns si" and "rmap_ok (smap st)"
    and "\<And>x. x < semmni si \<Longrightarrow> set_ok si (smap st) (sema st ! x)"
    and "keys_ok (map sem_perm (sema st))" and "map_units (smap st) \<subseteq> {1..semmns si}"
  using assms by (auto simp: sets_ok_def)

lemma sets_ok_pool: "sets_ok si st \<Longrightarrow> pool_ok si st"
  by (auto simp: sets_ok_def pool_ok_def set_ok_def all_set_conv_all_nth)

lemma sem_okD:
  assumes "sem_ok si st"
  shows "seminfo_ok si" and "undo_ok si st" and "values_ok si (vals st)" and "sets_ok si st" and "pool_ok si st"
    and "ents_live si st"
  using assms sets_ok_pool by (auto simp: sem_ok_def)

text \<open>A state that differs in values only: what is outside the sets stays 0.\<close>

lemma sets_ok_vals:
  assumes ok: "sets_ok si st" and len: "length (sems st') = length (sems st)" and mp: "smap st' = smap st"
    and sema: "length (sema st') = length (sema st)"
      "\<And>x. x < semmni si \<Longrightarrow> sem_base (sema st' ! x) = sem_base (sema st ! x) \<and> sem_nsems (sema st' ! x) = sem_nsems (sema st ! x)
        \<and> in_use (sema st' ! x) = in_use (sema st ! x) \<and> ip_seq (sem_perm (sema st' ! x)) = ip_seq (sem_perm (sema st ! x))
        \<and> (in_use (sema st ! x) \<longrightarrow> ip_key (sem_perm (sema st' ! x)) = ip_key (sem_perm (sema st ! x)))"
    and out: "\<And>k. k < semmns si \<Longrightarrow> \<forall>x < semmni si. k + 1 \<notin> set_units (sema st ! x) \<Longrightarrow> vals st' ! k = vals st ! k"
  shows "sets_ok si st'"
proof -
  have u: "set_units (sema st' ! x) = set_units (sema st ! x)" if "x < semmni si" for x
    using sema(2) [OF that] by (simp add: set_units_def)
  have "set_ok si (smap st') (sema st' ! x)" if "x < semmni si" for x
    using sema(2) [OF that] sets_okD(4) [OF ok that] u [OF that] mp by (simp add: set_ok_def)
  moreover have "keys_ok (map sem_perm (sema st'))"
    by (rule keys_ok_cong [OF _ _ sets_okD(5) [OF ok]]) (use sema sets_okD(1) [OF ok] in auto)
  ultimately show ?thesis
    using ok len mp sema(1) u out unfolding sets_ok_def by metis
qed

text \<open>
  Identifiers that are not negative name one incarnation of one set. A call that records adjustments
  has to use such an identifier for them to be found again.
\<close>

definition id_ok :: "int \<Rightarrow> sembuf list \<Rightarrow> bool" where
  "id_ok semid ops \<longleftrightarrow> (\<exists>op\<in>set ops. with_undo op) \<longrightarrow> 0 \<le> semid \<and> semid < 2147483648"

lemma semid_split:
  assumes "0 \<le> semid" and "semid < 2147483648"
  shows "semid = int (sem_sequence semid) * 65536 + int (sem_index semid)" and "sem_sequence semid \<le> SEMA_SEQ_MAX"
proof -
  have r: "0 \<le> semid div 65536" "semid div 65536 < 32768"
    using assms by (simp_all add: int_div_less_iff pos_imp_zdiv_nonneg_iff)
  then have "semid div 65536 mod 32768 = semid div 65536"
    by simp
  with assms r show "semid = int (sem_sequence semid) * 65536 + int (sem_index semid)"
    by (simp add: sem_sequence_def sem_index_def)
  show "sem_sequence semid \<le> SEMA_SEQ_MAX"
    using pos_mod_bound [of 32768 "semid div 65536"] unfolding sem_sequence_def by linarith
qed

lemma semid_make:
  assumes "seq \<le> SEMA_SEQ_MAX" and "x \<le> 65535"
  defines "semid \<equiv> s32 (int seq * 65536 + int x)"
  shows "sem_index semid = x" and "sem_sequence semid = seq" and "0 \<le> semid" and "semid < 2147483648"
    and "semid = int seq * 65536 + int x"
proof -
  have e: "semid = int seq * 65536 + int x" and r: "0 \<le> semid" "semid < 2147483648"
    using assms(1,2) unfolding semid_def by simp_all
  show "semid = int seq * 65536 + int x" "0 \<le> semid" "semid < 2147483648"
    by (fact e r)+
  show "sem_index semid = x"
    using assms(2) unfolding e by (simp add: sem_index_def)
  show "sem_sequence semid = seq"
    using assms(1,2) unfolding e by (simp add: sem_sequence_def)
qed

lemma smap_update_simps [simp]:
  "ents (st\<lparr>smap := mp\<rparr>) = ents st" "undo_ok si (st\<lparr>smap := mp\<rparr>) = undo_ok si st"
  "vals (st\<lparr>smap := mp\<rparr>) = vals st"
  by (auto simp: ents_def fun_eq_iff undo_ok_def vals_def split: option.splits)

section \<open>Creation of a set\<close>

lemma ipcget_perm_found:
  assumes "ipcget key flag (map sem_perm (sema st)) cr = Inr (0, x, ps)"
  shows "set_ds x ((sema st ! x)\<lparr>sem_perm := ps ! x\<rparr>) st = st" and "x < length (sema st)"
    and "in_use (sema st ! x)" and "ps ! x = sem_perm (sema st ! x)"
proof -
  note found = ipcget_found [OF assms]
  show x: "x < length (sema st)" and "in_use (sema st ! x)" and p: "ps ! x = sem_perm (sema st ! x)"
    using found by simp_all
  then show "set_ds x ((sema st ! x)\<lparr>sem_perm := ps ! x\<rparr>) st = st"
    by (simp add: set_ds_def)
qed

text \<open>What the first part of \<open>semget\<close> finds for a new set.\<close>

lemma ipcget_perm_new:
  assumes "ipcget key flag (map sem_perm (sema st)) cr = Inr (s, x, ps)" and "s \<noteq> 0"
  shows "x < length (sema st)" and "\<not> in_use (sema st ! x)" and "ps ! x = ipc_init_perm key flag cr (sem_perm (sema st ! x))"
    and "keys_ok (map sem_perm (sema st)) \<Longrightarrow> keys_ok ((map sem_perm (sema st))[x := ps ! x])"
proof -
  note new = ipcget_created [OF assms]
  show x: "x < length (sema st)" and "\<not> in_use (sema st ! x)"
    using new by simp_all
  show p: "ps ! x = ipc_init_perm key flag cr (sem_perm (sema st ! x))"
    using new x by simp
  show "keys_ok ((map sem_perm (sema st))[x := ps ! x])" if "keys_ok (map sem_perm (sema st))"
    using keys_ok_ipcget [OF that assms(1)] new(2) x p by simp
qed

text \<open>An entry that is not in use may be rewritten as long as it stays so.\<close>

lemma sets_ok_idle:
  assumes ok: "sets_ok si st" and x: "x < length (sema st)" and idle: "\<not> in_use (sema st ! x)" "\<not> in_use sp"
    and seq: "ip_seq (sem_perm sp) = ip_seq (sem_perm (sema st ! x))"
  shows "sets_ok si (set_ds x sp st)"
proof -
  have u: "set_units (sema (set_ds x sp st) ! y) = set_units (sema st ! y)" for y
    using x idle by (cases "y = x") (simp_all add: set_units_def)
  have "set_ok si (smap st) (sema (set_ds x sp st) ! y)" if "y < semmni si" for y
    using sets_okD(4) [OF ok that] x idle seq by (cases "y = x") (simp_all add: set_ok_def)
  moreover have "keys_ok (map sem_perm (sema (set_ds x sp st)))"
    using sets_okD(5) [OF ok] x idle by (auto simp: keys_ok_def nth_list_update)
  ultimately show ?thesis
    using ok unfolding sets_ok_def u set_ds_simps(2,6,7) by simp
qed

text \<open>A set is given a block of units that were free.\<close>

lemma sets_ok_create:
  assumes ok: "sets_ok si st" and x: "x < length (sema st)" and idle: "\<not> in_use (sema st ! x)" and sp: "in_use sp"
    and seq: "ip_seq (sem_perm sp) = ip_seq (sem_perm (sema st ! x))"
    and keys: "keys_ok ((map sem_perm (sema st))[x := sem_perm sp])"
    and n: "\<not> ssize_nonpos (sem_nsems sp)" and alloc: "rmalloc (smap st) (sem_nsems sp) = Done (sem_base sp + 1, mp)"
  shows "sets_ok si (set_ds x sp (st\<lparr>smap := mp\<rparr>))"
    and "\<forall>k < sem_nsems sp. vals st ! (sem_base sp + k) = 0" and "sem_base sp + sem_nsems sp \<le> semmns si"
proof -
  note rm = sets_okD(3) [OF ok]
  have blk: "good_block (sem_nsems sp) (sem_base sp + 1)" "block (sem_nsems sp) (sem_base sp + 1) \<subseteq> map_units (smap st)"
    "map_units mp = map_units (smap st) - block (sem_nsems sp) (sem_base sp + 1)"
    using rm.alloc_units [OF rm n alloc] by simp_all
  have sub: "block (sem_nsems sp) (sem_base sp + 1) \<subseteq> {1..semmns si}"
    using blk(2) sets_okD(6) [OF ok] by blast
  have pos: "0 < sem_nsems sp"
    using n by (simp add: ssize_nonpos_def)
  then have "sem_base sp + sem_nsems sp \<in> block (sem_nsems sp) (sem_base sp + 1)"
    by (simp add: block_def)
  with sub show le: "sem_base sp + sem_nsems sp \<le> semmns si"
    by auto
  have free: "set_units (sema st ! y) \<inter> block (sem_nsems sp) (sem_base sp + 1) = {}" if "y < semmni si" for y
    using sets_okD(4) [OF ok that] blk(2) by (auto simp: set_ok_def set_units_def)
  show "\<forall>k < sem_nsems sp. vals st ! (sem_base sp + k) = 0"
  proof (intro allI impI)
    fix k assume k: "k < sem_nsems sp"
    then have "sem_base sp + k + 1 \<in> block (sem_nsems sp) (sem_base sp + 1)"
      by (simp add: block_def)
    with free have "\<forall>y < semmni si. sem_base sp + k + 1 \<notin> set_units (sema st ! y)"
      by blast
    with ok k le show "vals st ! (sem_base sp + k) = 0"
      by (simp add: sets_ok_def)
  qed
  let ?st' = "set_ds x sp (st\<lparr>smap := mp\<rparr>)"
  have sema': "sema ?st' ! y = (if y = x then sp else sema st ! y)" for y
    using x by (auto simp: nth_list_update)
  have su: "set_units sp = block (sem_nsems sp) (sem_base sp + 1)"
    using sp by (simp add: set_units_def)
  have "set_ok si mp (sema ?st' ! y)" if "y < semmni si" for y
    using sets_okD(4) [OF ok that] blk su le sp seq unfolding sema' by (auto simp: set_ok_def)
  moreover have "set_units (sema ?st' ! y) \<inter> set_units (sema ?st' ! z) = {}"
    if "y < semmni si" "z < semmni si" "y \<noteq> z" for y z
    using ok that free [of y] free [of z] su unfolding sema' sets_ok_def by auto
  moreover have "vals st ! k = 0" if "k < semmns si" "\<forall>y < semmni si. k + 1 \<notin> set_units (sema ?st' ! y)" for k
  proof -
    have "k + 1 \<notin> set_units (sema st ! y)" if "y < semmni si" for y
      using \<open>\<forall>y < semmni si. _\<close> that idle unfolding sema' by (cases "y = x") (auto simp: set_units_def)
    with ok \<open>k < _\<close> show ?thesis by (simp add: sets_ok_def)
  qed
  moreover have "rmap_ok mp"
    by (rule rm.alloc_invar [OF rm n alloc])
  ultimately show "sets_ok si ?st'"
    using ok keys blk(3) by (auto simp: sets_ok_def map_update)
qed

lemma semconv_lock_cong:
  assumes "in_use (sema st' ! sem_index semid) = in_use (sema st ! sem_index semid)"
    and "ip_seq (sem_perm (sema st' ! sem_index semid)) = ip_seq (sem_perm (sema st ! sem_index semid))"
  shows "semconv_lock si semid st' = semconv_lock si semid st"
  using assms by (simp add: semconv_lock_def Let_def)

text \<open>Entries stay live when none is added and their sets stay.\<close>

lemma ents_live_mono:
  assumes live: "ents_live si st"
    and sub: "\<And>s e. e \<in> set (ents st' s) \<Longrightarrow> e \<in> set (ents st s)"
    and same: "\<And>s e. e \<in> set (ents st' s) \<Longrightarrow> in_use (sema st ! sem_index (un_id e)) \<Longrightarrow>
      in_use (sema st' ! sem_index (un_id e)) \<and> sem_nsems (sema st' ! sem_index (un_id e)) = sem_nsems (sema st ! sem_index (un_id e))
      \<and> ip_seq (sem_perm (sema st' ! sem_index (un_id e))) = ip_seq (sem_perm (sema st ! sem_index (un_id e)))"
  shows "ents_live si st'"
  unfolding ents_live_def
proof (intro allI ballI)
  fix s e assume e: "e \<in> set (ents st' s)"
  obtain x where x: "semconv_lock si (un_id e) st = Some x" "un_num e < sem_nsems (sema st ! x)"
    and id: "0 \<le> un_id e" "un_id e < 2147483648"
    using live sub [OF e] by (auto simp: ents_live_def)
  note xD = semconv_lockD [OF x(1)]
  have "semconv_lock si (un_id e) st' = Some x" "sem_nsems (sema st' ! x) = sem_nsems (sema st ! x)"
    using semconv_lock_cong [of st' "un_id e" st] same [OF e] xD x(1) by auto
  with id x(2) show "0 \<le> un_id e \<and> un_id e < 2147483648 \<and>
      (\<exists>x. semconv_lock si (un_id e) st' = Some x \<and> un_num e < sem_nsems (sema st' ! x))"
    by auto
qed

lemma ents_liveD:
  assumes "ents_live si st" and "e \<in> set (ents st s)"
  obtains x where "semconv_lock si (un_id e) st = Some x" and "un_num e < sem_nsems (sema st ! x)"
    and "0 \<le> un_id e" and "un_id e < 2147483648"
  using assms by (auto simp: ents_live_def)

lemma sem_ok_idle:
  assumes ok: "sem_ok si st" and x: "x < length (sema st)" and idle: "\<not> in_use (sema st ! x)" "\<not> in_use sp"
    and seq: "ip_seq (sem_perm sp) = ip_seq (sem_perm (sema st ! x))"
  shows "sem_ok si (set_ds x sp st)"
proof -
  note D = sem_okD [OF ok]
  have "ents_live si (set_ds x sp st)"
    by (rule ents_live_mono [OF D(6)]) (use x idle in \<open>auto simp: nth_list_update\<close>)
  with D sets_ok_idle [OF D(4) x idle seq] show ?thesis
    by (simp add: sem_ok_def)
qed

lemma sem_ok_create:
  assumes ok: "sem_ok si st" and x: "x < length (sema st)" and idle: "\<not> in_use (sema st ! x)"
    and sets: "sets_ok si (set_ds x sp (st\<lparr>smap := mp\<rparr>))"
  shows "sem_ok si (set_ds x sp (st\<lparr>smap := mp\<rparr>))"
proof -
  note D = sem_okD [OF ok]
  have "ents_live si (set_ds x sp (st\<lparr>smap := mp\<rparr>))"
    by (rule ents_live_mono [OF D(6)]) (use x idle in \<open>auto simp: nth_list_update\<close>)
  with D sets show ?thesis
    by (simp add: sem_ok_def)
qed

text \<open>The new set, as \<open>semget\<close> fills it in.\<close>

definition new_ds :: "caller \<Rightarrow> ipc_perm \<Rightarrow> int \<Rightarrow> nat \<Rightarrow> semid_ds \<Rightarrow> semid_ds" where
  "new_ds ca p nsems i sp = sp\<lparr>sem_perm := p, sem_base := i - 1, sem_binary := True, sem_nsems := nat (nsems mod 65536),
     sem_ctime := ca_now ca, sem_otime := 0\<rparr>"

lemma semget_new:
  assumes ok: "sem_ok si st" and g: "ipcget key flg (map sem_perm (sema st)) (ca_cred ca) = Inr (s, x, ps)" and s: "s \<noteq> 0"
  obtains (refused) sp e where "semget si ca key nsems flg st = Done (Inl e, set_ds x sp st)" "e = EINVAL \<or> e = ENOSPC"
      "\<not> in_use sp" "ip_seq (sem_perm sp) = ip_seq (sem_perm (sema st ! x))"
    | (created) i mp where "semget si ca key nsems flg st =
        Done (Inr (s32 (int (ip_seq (ps ! x)) * 65536 + int x)), set_ds x (new_ds ca (ps ! x) nsems i (sema st ! x)) (st\<lparr>smap := mp\<rparr>))"
      "0 < nsems" "nsems \<le> int (semmsl si)" "rmalloc (smap st) (nat nsems) = Done (i, mp)" "i \<noteq> 0"
proof -
  note new = ipcget_perm_new [OF g s]
  define sp where "sp = (sema st ! x)\<lparr>sem_perm := (ps ! x)\<lparr>ip_mode := 0\<rparr>\<rparr>"
  have twice: "set_ds x a (set_ds x b c) = set_ds x a c" for a b c
    by (simp add: set_ds_def)
  have sp: "\<not> in_use sp" "ip_seq (sem_perm sp) = ip_seq (sem_perm (sema st ! x))"
    using new(3) by (simp_all add: sp_def ipc_allocated_def)
  show thesis
  proof (cases "nsems \<le> 0 \<or> nsems > int (semmsl si)")
    case True
    then have "semget si ca key nsems flg st = Done (Inl EINVAL, set_ds x sp st)"
      using g s by (simp add: semget_def sp_def twice Let_def)
    with sp refused show thesis by blast
  next
    case False
    have "\<not> ssize_nonpos (nat nsems)"
      using False sem_okD(1) [OF ok] by (auto simp: ssize_nonpos_def seminfo_ok_def)
    then obtain i mp where rm: "rmalloc (smap st) (nat nsems) = Done (i, mp)"
      using rm.alloc_total [OF sets_okD(3) [OF sem_okD(4) [OF ok]]] by blast
    show thesis
    proof (cases "i = 0")
      case True
      with rm have "mp = smap st"
        using rm.alloc_null [OF sets_okD(3) [OF sem_okD(4) [OF ok]] \<open>\<not> ssize_nonpos _\<close>] by simp
      with True False rm g s have "semget si ca key nsems flg st = Done (Inl ENOSPC, set_ds x sp st)"
        by (simp add: semget_def sp_def set_ds_def Let_def)
      with sp refused show thesis by blast
    next
      case nz: False
      show thesis
        by (rule created [of i mp]) (use False rm g s nz in \<open>simp_all add: semget_def new_ds_def set_ds_def Let_def\<close>)
    qed
  qed
qed

lemma semget_created:
  assumes ok: "sem_ok si st" and g: "ipcget key flg (map sem_perm (sema st)) (ca_cred ca) = Inr (s, x, ps)" and s: "s \<noteq> 0"
    and n: "0 < nsems" "nsems \<le> int (semmsl si)" and rm: "rmalloc (smap st) (nat nsems) = Done (i, mp)" "i \<noteq> 0"
  defines "sp \<equiv> new_ds ca (ps ! x) nsems i (sema st ! x)"
  defines "st' \<equiv> set_ds x sp (st\<lparr>smap := mp\<rparr>)"
  shows "sem_ok si st'" and "sem_nsems sp = nat nsems"
    and "\<forall>k < nat nsems. vals st ! (sem_base sp + k) = 0" and "sem_base sp + nat nsems \<le> semmns si"
    and "in_use sp" and "ip_seq (sem_perm sp) = ip_seq (sem_perm (sema st ! x))"
proof -
  note D = sem_okD [OF ok]
  note new = ipcget_perm_new [OF g s]
  have nn: "nat (nsems mod 65536) = nat nsems" and sz: "\<not> ssize_nonpos (nat nsems)"
    using n D(1) by (auto simp: seminfo_ok_def ssize_nonpos_def)
  then show nsems: "sem_nsems sp = nat nsems"
    by (simp add: sp_def new_ds_def)
  have perm: "sem_perm sp = ps ! x" and base: "sem_base sp + 1 = i"
    using rm(2) by (simp_all add: sp_def new_ds_def)
  show use: "in_use sp" and seq: "ip_seq (sem_perm sp) = ip_seq (sem_perm (sema st ! x))"
    using perm new(3) by simp_all
  have keys: "keys_ok ((map sem_perm (sema st))[x := sem_perm sp])"
    using new(4) [OF sets_okD(5) [OF D(4)]] perm by simp
  have sz': "\<not> ssize_nonpos (sem_nsems sp)" and rm': "rmalloc (smap st) (sem_nsems sp) = Done (sem_base sp + 1, mp)"
    using rm(1) base nsems sz by simp_all
  note cr = sets_ok_create [OF D(4) new(1,2) use seq keys sz' rm']
  show "sem_ok si st'"
    unfolding st'_def by (rule sem_ok_create [OF ok new(1,2) cr(1)])
  show "\<forall>k < nat nsems. vals st ! (sem_base sp + k) = 0" "sem_base sp + nat nsems \<le> semmns si"
    using cr(2,3) nsems by simp_all
qed

text \<open>\<open>semget\<close> always returns and keeps the invariant.\<close>

lemma semget_total:
  assumes ok: "sem_ok si st"
  shows "\<exists>r st'. semget si ca key nsems flg st = Done (r, st') \<and> sem_ok si st'"
proof (cases "ipcget key flg (map sem_perm (sema st)) (ca_cred ca)")
  case (Inl e)
  with ok show ?thesis by (simp add: semget_def)
next
  case (Inr a)
  obtain s x ps where g: "ipcget key flg (map sem_perm (sema st)) (ca_cred ca) = Inr (s, x, ps)"
    using Inr by (cases a) auto
  show ?thesis
  proof (cases "s = 0")
    case True
    then show ?thesis
      using g ipcget_perm_found(1) [of key flg st "ca_cred ca" x ps] ok by (simp add: semget_def Let_def)
  next
    case False
    note new = ipcget_perm_new [OF g False]
    from ok g False show ?thesis
    proof (cases rule: semget_new [where nsems = nsems])
      case (refused sp e)
      then show ?thesis
        using sem_ok_idle [OF ok new(1,2)] by blast
    next
      case (created i mp)
      then show ?thesis
        using semget_created(1) [OF ok g False created(2-5)] by blast
    qed
  qed
qed

text \<open>
  C19. A new semaphore set: when the key is private or not in use, an identifier that \<^verbatim>\<open>semget\<close>
  returns is not negative, was not valid before and is now; its set has as many semaphores as
  asked for, all of value 0 and none shared with another set, belongs to the caller, and no
  process has an adjustment for it; all other sets and all values are untouched.
\<close>

theorem semget_fresh:
  assumes "sem_ok si st" and "key = IPC_PRIVATE \<or> \<not> key_used key (map sem_perm (sema st))"
    and "semget si ca key nsems flg st = Done (Inr semid, st')"
  shows "sem_ok si st' \<and> 0 \<le> semid \<and> semconv_lock si semid st = None \<and> vals st' = vals st
    \<and> (\<exists>x. semconv_lock si semid st' = Some x \<and> int (sem_nsems (sema st' ! x)) = nsems
         \<and> (\<forall>k < sem_nsems (sema st' ! x). vals st' ! (sem_base (sema st' ! x) + k) = 0)
         \<and> ip_uid (sem_perm (sema st' ! x)) = cr_uid (ca_cred ca)
         \<and> (\<forall>y < semmni si. y \<noteq> x \<longrightarrow> sema st' ! y = sema st ! y \<and> set_units (sema st' ! y) \<inter> set_units (sema st' ! x) = {}))
    \<and> (\<forall>s n. adj semid n (ents st' s) = 0)"
proof -
  note D = sem_okD [OF assms(1)]
  obtain s x ps where g: "ipcget key flg (map sem_perm (sema st)) (ca_cred ca) = Inr (s, x, ps)"
    using assms(3) by (auto simp: semget_def split: sum.splits)
  have s: "s \<noteq> 0"
  proof
    assume "s = 0"
    from ipcget_found [OF g [unfolded this]] assms(2) show False
      by (auto simp: key_used_def)
  qed
  note new = ipcget_perm_new [OF g s]
  obtain i mp where c: "semid = s32 (int (ip_seq (ps ! x)) * 65536 + int x)"
      "st' = set_ds x (new_ds ca (ps ! x) nsems i (sema st ! x)) (st\<lparr>smap := mp\<rparr>)"
      "0 < nsems" "nsems \<le> int (semmsl si)" "rmalloc (smap st) (nat nsems) = Done (i, mp)" "i \<noteq> 0"
    using assms(1) g s by (cases rule: semget_new [where nsems = nsems]) (use assms(3) in auto)
  let ?sp = "new_ds ca (ps ! x) nsems i (sema st ! x)"
  note cr = semget_created [OF assms(1) g s c(3-6)]
  have ok': "sem_ok si st'" and sp: "sema st' ! x = ?sp" and x: "x < semmni si"
    using cr(1) c(2) new(1) sets_okD(1) [OF D(4)] by simp_all
  have seq: "ip_seq (ps ! x) \<le> SEMA_SEQ_MAX"
    using sets_okD(4) [OF D(4) x] new(3) by (simp add: set_ok_def)
  have "x \<le> 65535"
    using x D(1) by (simp add: seminfo_ok_def)
  note idm = semid_make [OF seq this, folded c(1)]
  have old: "semconv_lock si semid st = None"
    using new(2) idm(1) by (simp add: semconv_lock_def Let_def)
  have new_id: "semconv_lock si semid st' = Some x"
    using x sp idm cr(5,6) new(3) by (simp add: semconv_lock_def Let_def)
  have "adj semid n (ents st' t) = 0" for t n
  proof -
    have "ents st' t = ents st t"
      using c(2) by (auto simp: ents_def set_ds_def split: option.splits)
    moreover have "\<not> ent_for semid n e" if "e \<in> set (ents st t)" for e
      by (rule ents_liveD [OF D(6) that]) (use old in \<open>auto simp: ent_for_def\<close>)
    ultimately show ?thesis
      by (simp add: adj_def)
  qed
  moreover have "vals st' = vals st"
    using c(2) by (simp add: vals_def)
  moreover have "set_units (sema st' ! y) \<inter> set_units (sema st' ! x) = {}" if "y < semmni si" "y \<noteq> x" for y
    using sem_okD(4) [OF ok'] that x by (simp add: sets_ok_def)
  moreover have "ip_uid (sem_perm ?sp) = cr_uid (ca_cred ca)"
    using new(3) by (simp add: new_ds_def ipc_init_perm_def)
  moreover have "\<forall>y. y \<noteq> x \<longrightarrow> sema st' ! y = sema st ! y"
    using c(2) by simp
  ultimately show ?thesis
    using ok' idm(3) old new_id cr(2,3) c(3) by (simp add: sp)
qed

definition wit_empty :: semst where
  "wit_empty =
     \<lparr>sema = [zero_ds], sems = [zero_sem, zero_sem],
      smap = \<lparr>m_free = 1, m_want = 0, m_nam = [], m_slots = 2, m_bcasts = 0,
              m_map = [\<lparr>m_size = 2, m_addr = 1\<rparr>, \<lparr>m_size = 0, m_addr = 0\<rparr>, \<lparr>m_size = 0, m_addr = 0\<rparr>]\<rparr>,
      un_ent = (\<lambda>_. []), sem_undo = (\<lambda>_. None), semunp = [], semfup = [0], wakes = []\<rparr>"

lemma wit_empty_ok: "sem_ok wit_seminfo wit_empty"
proof -
  have "map_units (smap wit_empty) = {1..2}"
    by (auto simp: wit_empty_def map_units_def map_segs_def free_units_def units_of_def block_def)
  moreover have "rmap_ok (smap wit_empty)"
    by (simp add: rmap_ok_def wf_map_def wit_empty_def map_segs_def)
  ultimately have "sets_ok wit_seminfo wit_empty"
    unfolding sets_ok_def
    by (auto simp: wit_seminfo_def wit_empty_def zero_ds_def zero_sem_def zero_perm_def vals_def set_ok_def
        set_units_def ipc_allocated_def keys_ok_def less_Suc_eq numeral_2_eq_2)
  then show ?thesis
    by (simp add: sem_ok_def wit_semst_ok(1))
      (simp add: wit_empty_def wit_seminfo_def undo_ok_def ents_ok_def values_ok_def vals_def zero_sem_def ents_live_def
        ents_def)
qed

theorem semget_fresh_witness:
  "\<exists>st'. semget wit_seminfo wit_caller 0 2 0x1B6 wit_empty = Done (Inr 0, st') \<and> sem_ok wit_seminfo st'
     \<and> semconv_lock wit_seminfo 0 wit_empty = None"
proof -
  obtain st' where g: "semget wit_seminfo wit_caller 0 2 0x1B6 wit_empty = Done (Inr 0, st')"
    by (simp add: semget_def wit_seminfo_def wit_empty_def zero_ds_def zero_perm_def ipcget_def IPC_PRIVATE_def
        ipc_allocated_def rmalloc_def rmalloc_locked_def ipc_init_perm_def Let_def)
  then show ?thesis
    using semget_fresh [OF wit_empty_ok _ g] by (simp add: IPC_PRIVATE_def)
qed

section \<open>Removal of a set\<close>

text \<open>States that agree on everything but the semaphores themselves.\<close>

definition same_tables :: "semst \<Rightarrow> semst \<Rightarrow> bool" where
  "same_tables st st' \<longleftrightarrow> sema st' = sema st \<and> smap st' = smap st \<and> length (sems st') = length (sems st)
     \<and> ents st' = ents st \<and> (\<forall>si. undo_ok si st' = undo_ok si st)"

lemma same_tables_trans: "same_tables st st1 \<Longrightarrow> same_tables st1 st2 \<Longrightarrow> same_tables st st2"
  by (simp add: same_tables_def)

lemma sem_reset_spec:
  assumes "k < length (sems st)"
  shows "same_tables st (sem_reset k st)" and "vals (sem_reset k st) = (vals st)[k := 0]"
  using assms by (auto simp: sem_reset_def same_tables_def Let_def)

lemma sem_reset_loop_spec:
  assumes "k + n \<le> length (sems st)"
  shows "\<exists>st'. sem_reset_loop k n st = Done st' \<and> same_tables st st' \<and>
    (\<forall>j < length (sems st). vals st' ! j = (if k \<le> j \<and> j < k + n then 0 else vals st ! j))"
  using assms
proof (induction n arbitrary: k st)
  case 0
  then show ?case by (simp add: same_tables_def)
next
  case (Suc n)
  let ?st1 = "sem_reset k st"
  have k: "k < length (sems st)"
    using Suc.prems by simp
  note one = sem_reset_spec [OF k]
  then have len: "length (sems ?st1) = length (sems st)"
    by (simp add: same_tables_def)
  obtain st' where st': "sem_reset_loop (k + 1) n ?st1 = Done st'" "same_tables ?st1 st'"
    "\<forall>j < length (sems st). vals st' ! j = (if k + 1 \<le> j \<and> j < k + 1 + n then 0 else vals ?st1 ! j)"
    using Suc.IH [of "k + 1" ?st1] Suc.prems len by auto
  moreover have "same_tables st st'"
    by (rule same_tables_trans [OF one(1) st'(2)])
  moreover have "vals st' ! j = (if k \<le> j \<and> j < k + Suc n then 0 else vals st ! j)" if "j < length (sems st)" for j
    using st'(3) that k one(2) by (cases "j = k") auto
  ultimately show ?case
    using k by simp
qed

text \<open>A set goes out of use and its block becomes free, or is lost to the map.\<close>

lemma sets_ok_remove:
  assumes ok: "sets_ok si st" and x: "x < semmni si" and idle: "\<not> in_use sp" and seq: "ip_seq (sem_perm sp) \<le> SEMA_SEQ_MAX"
    and sema: "sema st' = (sema st)[x := sp]" and len: "length (sems st') = length (sems st)"
    and mp: "rmap_ok (smap st')" "map_units (smap st') \<subseteq> map_units (smap st) \<union> set_units (sema st ! x)"
    and zero: "\<And>k. k < semmns si \<Longrightarrow> vals st' ! k = (if k + 1 \<in> set_units (sema st ! x) then 0 else vals st ! k)"
  shows "sets_ok si st'"
proof -
  have xl: "x < length (sema st)"
    using x sets_okD(1) [OF ok] by simp
  have nth: "sema st' ! y = (if y = x then sp else sema st ! y)" for y
    using xl by (auto simp: sema nth_list_update)
  have none: "set_units sp = {}"
    using idle by (simp add: set_units_def)
  have disj: "set_units (sema st ! y) \<inter> set_units (sema st ! z) = {}" if "y < semmni si" "z < semmni si" "y \<noteq> z" for y z
    using ok that by (simp add: sets_ok_def)
  have "set_ok si (smap st') (sema st' ! y)" if "y < semmni si" for y
    using sets_okD(4) [OF ok that] disj [OF that x] mp(2) seq idle unfolding nth by (auto simp: set_ok_def)
  moreover have "set_units (sema st ! x) \<subseteq> {1..semmns si}"
    using sets_okD(4) [OF ok x] by (auto simp: set_ok_def set_units_iff)
  then have "map_units (smap st') \<subseteq> {1..semmns si}"
    using mp(2) sets_okD(6) [OF ok] by blast
  moreover have "vals st' ! k = 0" if "k < semmns si" "\<forall>y < semmni si. k + 1 \<notin> set_units (sema st' ! y)" for k
  proof (cases "k + 1 \<in> set_units (sema st ! x)")
    case False
    with that(2) have "k + 1 \<notin> set_units (sema st ! y)" if "y < semmni si" for y
      using that unfolding nth by (cases "y = x") auto
    with ok that(1) False zero show ?thesis by (simp add: sets_ok_def)
  qed (simp add: zero that)
  moreover have "keys_ok (map sem_perm (sema st'))"
    by (rule keys_ok_cong [OF _ _ sets_okD(5) [OF ok]]) (use xl idle in \<open>auto simp: sema nth_list_update split: if_splits\<close>)
  moreover have "set_units (sema st' ! y) \<inter> set_units (sema st' ! z) = {}" if "y < semmni si" "z < semmni si" "y \<noteq> z" for y z
    using disj [OF that] none unfolding nth by simp
  moreover have "length (sema st') = semmni si" "length (sems st') = semmns si"
    using sets_okD(1,2) [OF ok] sema len by simp_all
  ultimately show ?thesis
    using mp(1) unfolding sets_ok_def by blast
qed

lemma ents_live_remove:
  assumes live: "ents_live si st" and id: "0 \<le> semid" "semid < 2147483648" and x: "semconv_lock si semid st = Some x"
    and sema: "\<And>y. y \<noteq> x \<Longrightarrow> sema st' ! y = sema st ! y"
    and ents: "\<And>s. ents st' s = filter (\<lambda>e. \<not> ent_hit semid 0 (sem_nsems (sema st ! x)) e) (ents st s)"
  shows "ents_live si st'"
proof (rule ents_live_mono [OF live])
  fix s e assume e: "e \<in> set (ents st' s)"
  then have e': "e \<in> set (ents st s)" "\<not> ent_hit semid 0 (sem_nsems (sema st ! x)) e"
    by (simp_all add: ents)
  then show "e \<in> set (ents st s)" by simp
  have "sem_index (un_id e) \<noteq> x"
  proof
    assume i: "sem_index (un_id e) = x"
    obtain z where z: "semconv_lock si (un_id e) st = Some z" "un_num e < sem_nsems (sema st ! z)"
      "0 \<le> un_id e" "un_id e < 2147483648"
      by (rule ents_liveD [OF live e'(1)])
    have "un_id e = semid"
      using semid_split(1) [OF z(3,4)] semid_split(1) [OF id] semconv_lockD [OF z(1)] semconv_lockD [OF x] i by simp
    with z x e'(2) show False by (simp add: ent_hit_def)
  qed
  then show "in_use (sema st' ! sem_index (un_id e)) \<and> sem_nsems (sema st' ! sem_index (un_id e)) = sem_nsems (sema st ! sem_index (un_id e))
    \<and> ip_seq (sem_perm (sema st' ! sem_index (un_id e))) = ip_seq (sem_perm (sema st ! sem_index (un_id e)))"
    if "in_use (sema st ! sem_index (un_id e))"
    using that by (simp add: sema)
qed

lemma sem_rmid_spec:
  assumes ok: "sem_ok si st" and id: "0 \<le> semid" "semid < 2147483648" and x: "semconv_lock si semid st = Some x"
    and own: "sem_owner ca (sema st ! x)"
  shows "\<exists>st'. sem_rmid ca semid x st = Done (Inr (Ret 0), st') \<and> sem_ok si st' \<and> semconv_lock si semid st' = None
    \<and> (\<forall>s i n. adj i n (ents st' s) = (if i = semid then 0 else adj i n (ents st s)))
    \<and> (\<forall>y. y \<noteq> x \<longrightarrow> sema st' ! y = sema st ! y)
    \<and> (\<forall>k < semmns si. vals st' ! k = (if k + 1 \<in> set_units (sema st ! x) then 0 else vals st ! k))"
proof -
  note D = sem_okD [OF ok] and xD = semconv_lockD [OF x]
  let ?sp = "sema st ! x"
  define st1 where "st1 = semunrm semid 0 (sem_nsems ?sp) st"
  have sok: "set_ok si (smap st) ?sp"
    by (rule sets_okD(4) [OF D(4) xD(2)])
  have pool: "sem_base ?sp + sem_nsems ?sp \<le> length (sems st1)"
    using pool_set [OF D(5) x] by (simp add: st1_def)
  obtain st2 where st2: "sem_reset_loop (sem_base ?sp) (sem_nsems ?sp) st1 = Done st2" "same_tables st1 st2"
    "\<forall>j < length (sems st1). vals st2 ! j = (if sem_base ?sp \<le> j \<and> j < sem_base ?sp + sem_nsems ?sp then 0 else vals st1 ! j)"
    using sem_reset_loop_spec [OF pool] by blast
  have mp: "smap st2 = smap st"
    using st2(2) by (simp add: same_tables_def st1_def)
  have blk: "good_block (sem_nsems ?sp) (sem_base ?sp + 1)" "block (sem_nsems ?sp) (sem_base ?sp + 1) \<inter> map_units (smap st) = {}"
    "set_units ?sp = block (sem_nsems ?sp) (sem_base ?sp + 1)"
    using sok xD(3) by (simp_all add: set_ok_def set_units_def)
  obtain mp' where mp': "rmfree (smap st) (sem_nsems ?sp) (sem_base ?sp + 1) = Done mp'" "rmap_ok mp'"
    "map_units mp' \<subseteq> map_units (smap st) \<union> set_units ?sp"
    using rm.release_total [OF sets_okD(3) [OF D(4)] blk(1,2)] blk(3) by auto
  define seq where "seq = (if sem_sequence semid = SEMA_SEQ_MAX then 0 else ip_seq (sem_perm ?sp) + 1)"
  define sp where "sp = ?sp\<lparr>sem_perm := (sem_perm ?sp)\<lparr>ip_seq := seq, ip_mode := 0\<rparr>\<rparr>"
  define st' where "st' = set_ds x sp (st2\<lparr>smap := mp'\<rparr>)"
  have run: "sem_rmid ca semid x st = Done (Inr (Ret 0), st')"
    using own st2(1) mp mp'(1) by (simp add: sem_rmid_def st1_def st'_def sp_def seq_def Let_def)
  have idle: "\<not> in_use sp"
    by (simp add: sp_def ipc_allocated_def)
  have seq: "ip_seq (sem_perm sp) \<le> SEMA_SEQ_MAX"
    using semid_split(2) [OF id] xD(4) by (simp add: sp_def seq_def)
  have sema': "sema st' = (sema st)[x := sp]" and ents': "ents st' = ents st1" and lens: "length (sems st') = length (sems st)"
    and vals': "vals st' = vals st2" and undo': "undo_ok si st'"
    using st2(2) semunrm_undo_ok [OF D(2), of semid 0 "sem_nsems ?sp"]
    by (simp_all add: st'_def same_tables_def st1_def)
  have zero: "vals st' ! k = (if k + 1 \<in> set_units ?sp then 0 else vals st ! k)" if "k < semmns si" for k
    using st2(3) that sets_okD(2) [OF D(4)] xD(3) by (auto simp: vals' st1_def set_units_iff)
  have "sets_ok si st'"
    by (rule sets_ok_remove [OF D(4) xD(2) idle seq sema' lens _ _ zero]) (simp_all add: st'_def mp')
  moreover have "values_ok si (vals st')"
    unfolding values_ok_def all_set_conv_all_nth
    using zero D(3) lens sets_okD(2) [OF D(4)] by (auto simp: values_ok_def)
  moreover have adj: "adj i n (ents st' s) = (if i = semid then 0 else adj i n (ents st s))" for s i n
  proof (cases "i = semid \<and> sem_nsems ?sp < n")
    case True
    have "\<not> ent_for semid n e" if "e \<in> set (ents st s)" for e
      by (rule ents_liveD [OF D(6) that]) (use True x in \<open>auto simp: ent_for_def\<close>)
    with True have "adj i n (ents st s) = 0"
      by (simp add: adj_def)
    with True show ?thesis
      by (simp add: ents' st1_def adj_semunrm [OF D(2)])
  qed (auto simp: ents' st1_def adj_semunrm [OF D(2)])
  moreover have "ents_live si st'"
    by (rule ents_live_remove [OF D(6) id x]) (simp_all add: sema' ents' st1_def semunrm_ents [OF D(2)])
  ultimately have "sem_ok si st'"
    using D(1) undo' by (simp add: sem_ok_def)
  moreover have "semconv_lock si semid st' = None"
    using xD idle sets_okD(1) [OF D(4)] by (simp add: semconv_lock_def sema' Let_def)
  ultimately show ?thesis
    using run adj zero by (auto simp: sema')
qed

section \<open>The other calls keep the invariant\<close>

lemma sem_ok_tables:
  assumes ok: "sem_ok si st" and same: "same_tables st st'" and v: "values_ok si (vals st')"
    and out: "\<And>k. k < semmns si \<Longrightarrow> \<forall>x < semmni si. k + 1 \<notin> set_units (sema st ! x) \<Longrightarrow> vals st' ! k = vals st ! k"
  shows "sem_ok si st'"
proof -
  note D = sem_okD [OF ok]
  have "sets_ok si st'"
    by (rule sets_ok_vals [OF D(4) _ _ _ _ out]) (use same in \<open>auto simp: same_tables_def\<close>)
  moreover have "ents_live si st'"
    by (rule ents_live_mono [OF D(6)]) (use same in \<open>auto simp: same_tables_def\<close>)
  ultimately show ?thesis
    using D same v by (simp add: sem_ok_def same_tables_def)
qed

lemma sem_ok_semunrm:
  assumes ok: "sem_ok si st"
  shows "sem_ok si (semunrm semid low high st)"
proof -
  note D = sem_okD [OF ok]
  have "sets_ok si (semunrm semid low high st)"
    by (rule sets_ok_vals [OF D(4)]) simp_all
  moreover have "ents_live si (semunrm semid low high st)"
    by (rule ents_live_mono [OF D(6)]) (simp_all add: semunrm_ents [OF D(2)])
  ultimately show ?thesis
    using D semunrm_undo_ok [OF D(2)] by (simp add: sem_ok_def)
qed

lemma sem_ok_perm:
  assumes ok: "sem_ok si st" and x: "x < semmni si" and use: "in_use (sema st ! x)" "in_use sp"
    and same: "ip_seq (sem_perm sp) = ip_seq (sem_perm (sema st ! x))" "ip_key (sem_perm sp) = ip_key (sem_perm (sema st ! x))"
      "sem_base sp = sem_base (sema st ! x)" "sem_nsems sp = sem_nsems (sema st ! x)"
  shows "sem_ok si (set_ds x sp st)"
proof -
  note D = sem_okD [OF ok]
  have len: "x < length (sema st)"
    using x sets_okD(1) [OF D(4)] by simp
  have "sets_ok si (set_ds x sp st)"
    by (rule sets_ok_vals [OF D(4)]) (use len use same in \<open>auto simp: nth_list_update\<close>)
  moreover have "ents_live si (set_ds x sp st)"
    by (rule ents_live_mono [OF D(6)]) (use len use same in \<open>auto simp: nth_list_update\<close>)
  ultimately show ?thesis
    using D by (simp add: sem_ok_def)
qed

lemma sem_store_spec:
  assumes "k < length (sems st)"
  shows "same_tables st (set_pid k pid (sem_store k v st))" and "vals (set_pid k pid (sem_store k v st)) = (vals st)[k := v]"
  using assms by (auto simp: sem_store_def set_pid_def same_tables_def Let_def)

lemma sem_setall_loop_spec:
  assumes "k + length vs \<le> length (sems st)"
  shows "\<exists>st'. sem_setall_loop pid k vs st = Done st' \<and> same_tables st st' \<and>
    (\<forall>j < length (sems st). vals st' ! j = (if k \<le> j \<and> j < k + length vs then vs ! (j - k) else vals st ! j))"
  using assms
proof (induction vs arbitrary: k st)
  case Nil
  then show ?case by (simp add: same_tables_def)
next
  case (Cons v vs)
  let ?st1 = "set_pid k pid (sem_store k v st)"
  have k: "k < length (sems st)"
    using Cons.prems by simp
  note one = sem_store_spec [OF k, of pid v]
  then have len: "length (sems ?st1) = length (sems st)"
    by (simp add: same_tables_def)
  obtain st' where st': "sem_setall_loop pid (k + 1) vs ?st1 = Done st'" "same_tables ?st1 st'"
    "\<forall>j < length (sems st). vals st' ! j = (if k + 1 \<le> j \<and> j < k + 1 + length vs then vs ! (j - (k + 1)) else vals ?st1 ! j)"
    using Cons.IH [of "k + 1" ?st1] Cons.prems len by auto
  have "same_tables st st'"
    by (rule same_tables_trans [OF one(1) st'(2)])
  moreover have "vals st' ! j = (if k \<le> j \<and> j < k + length (v # vs) then (v # vs) ! (j - k) else vals st ! j)"
    if "j < length (sems st)" for j
    using st'(3) that k one(2) by (cases "j = k") (auto simp: nth_Cons')
  ultimately show ?case
    using k st'(1) by simp
qed

lemma in_set_units:
  assumes "sem_ok si st" and "semconv_lock si semid st = Some x" and "n < sem_nsems (sema st ! x)"
  shows "sem_base (sema st ! x) + n + 1 \<in> set_units (sema st ! x)" and "x < semmni si"
    and "sem_base (sema st ! x) + n < length (sems st)"
  using semconv_lockD [OF assms(2)] assms(3) pool_set [OF sem_okD(5) [OF assms(1)] assms(2)] by (auto simp: set_units_iff)

lemma sem_setval_ok:
  assumes ok: "sem_ok si st" and x: "semconv_lock si semid st = Some x"
  shows "\<exists>r st'. sem_setval si ca semid x semnum arg st = Done (r, st') \<and> sem_ok si st'"
proof (cases "ipcaccess (sem_perm (sema st ! x)) SEM_A (ca_cred ca) = None \<and> semnum < sem_nsems (sema st ! x)
    \<and> as_unsigned arg \<le> int (semvmx si)")
  case True
  note D = sem_okD [OF ok]
  let ?k = "sem_base (sema st ! x) + semnum"
  let ?v = "nat (as_unsigned arg mod 65536)"
  let ?st1 = "set_pid ?k (ca_pid ca) (sem_store ?k ?v st)"
  have k: "?k < length (sems st)" and u: "?k + 1 \<in> set_units (sema st ! x)" and xm: "x < semmni si"
    using in_set_units [OF ok x] True by auto
  note one = sem_store_spec [OF k, of "ca_pid ca" ?v]
  have "0 \<le> as_unsigned arg" "as_unsigned arg < 65536"
    using True D(1) by (auto simp: as_unsigned_def seminfo_ok_def)
  then have "?v \<le> semvmx si"
    using True by (simp add: nat_le_iff)
  then have "values_ok si (vals ?st1)"
    using D(3) by (simp add: one(2) values_ok_update)
  moreover have "vals ?st1 ! j = vals st ! j" if "\<forall>y < semmni si. j + 1 \<notin> set_units (sema st ! y)" for j
  proof -
    have "j \<noteq> ?k"
      using that u xm by blast
    then show ?thesis by (simp add: one(2))
  qed
  ultimately have "sem_ok si ?st1"
    by (intro sem_ok_tables [OF ok one(1)])
  then have "sem_ok si (semunrm semid semnum semnum ?st1)"
    by (rule sem_ok_semunrm)
  with True k show ?thesis
    by (simp add: sem_setval_def Let_def)
next
  case False
  with ok show ?thesis
    by (auto simp: sem_setval_def Let_def not_le split: option.splits)
qed

lemma sem_setall_ok:
  assumes ok: "sem_ok si st" and x: "semconv_lock si semid st = Some x"
  shows "\<exists>r st'. sem_setall si ca semid x arg st = Done (r, st') \<and> sem_ok si st'"
proof (cases "ipcaccess (sem_perm (sema st ! x)) SEM_A (ca_cred ca) = None \<and>
    (\<exists>vs. arg = Some vs \<and> \<not> list_ex (\<lambda>v. v > semvmx si) (take (sem_nsems (sema st ! x)) vs))")
  case True
  then obtain vs where vs: "arg = Some vs" "\<forall>v\<in>set (take (sem_nsems (sema st ! x)) vs). v \<le> semvmx si"
    by (auto simp: list_ex_iff not_less)
  define w where "w = take (sem_nsems (sema st ! x)) vs"
  let ?st1 = "semunrm semid 0 (sem_nsems (sema st ! x)) st"
  have ok1: "sem_ok si ?st1"
    by (rule sem_ok_semunrm [OF ok])
  note D = sem_okD [OF ok1]
  have w: "\<forall>v\<in>set w. v \<le> semvmx si" "length w \<le> sem_nsems (sema st ! x)"
    using vs(2) by (simp_all add: w_def)
  have "sem_base (sema st ! x) + length w \<le> length (sems ?st1)"
    using pool_set [OF sem_okD(5) [OF ok] x] w(2) by simp
  from sem_setall_loop_spec [OF this, of "ca_pid ca"] obtain st' where
    st': "sem_setall_loop (ca_pid ca) (sem_base (sema st ! x)) w ?st1 = Done st'" "same_tables ?st1 st'"
    and v: "\<forall>j < length (sems ?st1). vals st' ! j = (if sem_base (sema st ! x) \<le> j \<and> j < sem_base (sema st ! x) + length w
      then w ! (j - sem_base (sema st ! x)) else vals ?st1 ! j)"
    by blast
  have "vals st' ! j \<le> semvmx si" if "j < length (vals st')" for j
    using v w(1) D(3) st'(2) that by (auto simp: values_ok_def same_tables_def)
  then have "values_ok si (vals st')"
    by (simp add: values_ok_def all_set_conv_all_nth)
  then have "sem_ok si st'"
    using v w(2) semconv_lockD(2,3) [OF x] sets_okD(2) [OF D(4)]
    by (intro sem_ok_tables [OF ok1 st'(2)]) (auto simp: set_units_iff)
  moreover have "sem_setall si ca semid x arg st = Done (Inr (Ret 0), st')"
    using True vs(1) st'(1) by (simp add: sem_setall_def w_def Let_def)
  ultimately show ?thesis by blast
next
  case False
  with ok show ?thesis
    by (auto simp: sem_setall_def Let_def split: option.splits)
qed

lemma perm_bits_in_use: "ipc_allocated (p\<lparr>ip_mode := mode AND PERM_BITS OR IPC_ALLOC\<rparr>)"
proof -
  have "(mode AND PERM_BITS OR IPC_ALLOC) AND IPC_ALLOC = IPC_ALLOC"
    by (rule bit_eqI) (auto simp: bit_simps)
  then show ?thesis
    by (simp add: ipc_allocated_def IPC_ALLOC_def)
qed

lemma sem_ipc_set_ok:
  assumes ok: "sem_ok si st" and x: "semconv_lock si semid st = Some x"
  shows "sem_ok si (snd (sem_ipc_set ca x arg st))" and "sem_ok si (snd (sem_ipc_o_set ca x arg' st))"
proof -
  note xD = semconv_lockD [OF x]
  have "sem_ok si (set_ds x ((sema st ! x)\<lparr>sem_perm := (sem_perm (sema st ! x))\<lparr>ip_uid := u, ip_gid := g,
      ip_mode := mode AND PERM_BITS OR IPC_ALLOC\<rparr>, sem_ctime := t\<rparr>) st)" for u g mode t
    by (rule sem_ok_perm [OF ok xD(2,3)]) (simp_all add: perm_bits_in_use)
  with ok show "sem_ok si (snd (sem_ipc_set ca x arg st))" "sem_ok si (snd (sem_ipc_o_set ca x arg' st))"
    by (auto simp: sem_ipc_set_def sem_ipc_o_set_def Let_def split: option.splits)
qed

lemma sem_reads:
  assumes ok: "sem_ok si st" and x: "semconv_lock si semid st = Some x"
  shows "\<exists>r. sem_get_member ca x semnum member st = Done r" and "\<exists>r. sem_getall ca x room st = Done r"
proof -
  note pool = pool_set [OF sem_okD(5) [OF ok] x]
  then show "\<exists>r. sem_getall ca x room st = Done r"
    by (auto simp: sem_getall_def Let_def split: option.splits)
  show "\<exists>r. sem_get_member ca x semnum member st = Done r"
    using pool by (auto simp: sem_get_member_def Let_def split: option.splits)
qed

lemma semctl_ok:
  assumes ok: "sem_ok si st" and id: "cmd = IPC_RMID \<Longrightarrow> 0 \<le> semid \<and> semid < 2147483648"
  shows "\<exists>r st'. semctl si ca semid semnum cmd st = Done (r, st') \<and> sem_ok si st'"
proof (cases "semconv_lock si semid st")
  case None
  with ok show ?thesis by (simp add: semctl_def)
next
  case (Some x)
  note rd = sem_reads [OF ok Some]
  have rmid: "\<exists>r st'. sem_rmid ca semid x st = Done (r, st') \<and> sem_ok si st'" if "cmd = IPC_RMID"
    using sem_rmid_spec [OF ok _ _ Some, of ca] id [OF that] ok
    by (cases "sem_owner ca (sema st ! x)") (auto simp: sem_rmid_def Let_def)
  show ?thesis
  proof (cases cmd)
    case (GETALL room)
    then show ?thesis
      using rd(2) [of ca room] ok Some by (auto simp: semctl_def)
  next
    case (IPC_SET arg)
    then show ?thesis
      using sem_ipc_set_ok(1) [OF ok Some, of ca arg] Some by (cases "sem_ipc_set ca x arg st") (simp add: semctl_def)
  next
    case (IPC_O_SET arg)
    then show ?thesis
      using sem_ipc_set_ok(2) [OF ok Some, of ca arg] Some by (cases "sem_ipc_o_set ca x arg st") (simp add: semctl_def)
  next
    case (SETVAL arg)
    then show ?thesis
      using sem_setval_ok [OF ok Some] Some by (simp add: semctl_def)
  next
    case (SETALL arg)
    then show ?thesis
      using sem_setall_ok [OF ok Some] Some by (simp add: semctl_def)
  qed (use Some ok rmid rd(1) [of ca semnum "\<lambda>s. int (semncnt s)"] rd(1) [of ca semnum "\<lambda>s. int (semzcnt s)"]
      rd(1) [of ca semnum sempid] rd(1) [of ca semnum "\<lambda>s. int (semval s)"] in \<open>auto simp: semctl_def\<close>)
qed

section \<open>Operations keep the invariant\<close>

lemma ents_adj:
  assumes "ents_ok si es" and "e \<in> set es"
  shows "adj (un_id e) (un_num e) es = un_aoe e"
  using assms
proof (induction es)
  case (Cons f es)
  have ok: "ents_ok si es" and less: "\<And>g. g \<in> set es \<Longrightarrow> ent_less f g"
    using Cons.prems(1) by (auto simp: ents_ok_def)
  show ?case
  proof (cases "e = f")
    case True
    have "\<not> ent_for (un_id e) (un_num e) g" if "g \<in> set es" for g
      using less [OF that] unfolding True ent_defs by auto
    then have "filter (ent_for (un_id e) (un_num e)) es = []"
      by (simp add: filter_empty_conv)
    with True show ?thesis
      by (simp add: ent_for_def adj_def)
  next
    case False
    with Cons.prems(2) have e: "e \<in> set es" by simp
    then have "\<not> ent_for (un_id e) (un_num e) f"
      using less [OF e] by (auto simp: ent_defs)
    with Cons.IH [OF ok e] show ?thesis by simp
  qed
qed simp

lemma adj_nonzero:
  assumes "adj i n es \<noteq> 0"
  obtains e where "e \<in> set es" and "un_id e = i" and "un_num e = n"
proof -
  have "filter (ent_for i n) es \<noteq> []"
    using assms by (auto simp: adj_def)
  then show thesis
    using that by (auto simp: filter_empty_conv ent_for_def)
qed

lemma undo_sum_nonzero: "undo_sum ops n \<noteq> 0 \<Longrightarrow> \<exists>op\<in>set ops. sem_num op = n \<and> with_undo op"
  by (induction ops) (auto split: if_splits)

lemma op_sum_nonzero: "op_sum base ops k \<noteq> 0 \<Longrightarrow> \<exists>op\<in>set ops. base + sem_num op = k"
  by (induction ops) (auto split: if_splits)

lemma transaction_ok:
  assumes ok: "sem_ok si st" and id: "id_ok semid ops" and x: "semconv_lock si semid st = Some x"
    and nums: "\<forall>op\<in>set ops. sem_num op < sem_nsems (sema st ! x)" and t: "transaction si slot semid ops st r st'"
  shows "sem_ok si st'"
proof -
  note D = sem_okD [OF ok] and xD = semconv_lockD [OF x]
  have T: "undo_ok si st'" "values_ok si (vals st')" "smap st' = smap st" "length (sems st') = length (sems st)"
    using t by (simp_all add: transaction_def Let_def)
  obtain b u where sema: "sema st' = (sema st)[x := (sema st ! x)\<lparr>sem_binary := b, sem_otime := u\<rparr>]"
    using t xD(1) by (auto simp: transaction_def Let_def)
  have "x < length (sema st)"
    using xD(2) sets_okD(1) [OF D(4)] by simp
  then have nth: "sema st' ! y = (if y = x then (sema st ! x)\<lparr>sem_binary := b, sem_otime := u\<rparr> else sema st ! y)" for y
    unfolding sema by (auto simp: nth_list_update)
  have same: "sem_base (sema st' ! y) = sem_base (sema st ! y)" "sem_nsems (sema st' ! y) = sem_nsems (sema st ! y)"
      "sem_perm (sema st' ! y) = sem_perm (sema st ! y)" for y
    by (simp_all add: nth)
  have "vals st' ! k = vals st ! k" if k: "k < semmns si" "\<forall>y < semmni si. k + 1 \<notin> set_units (sema st ! y)" for k
  proof -
    have "op_sum (sem_base (sema st ! x)) ops k = 0"
    proof (rule ccontr)
      assume "op_sum (sem_base (sema st ! x)) ops k \<noteq> 0"
      then obtain op where "op \<in> set ops" "sem_base (sema st ! x) + sem_num op = k"
        using op_sum_nonzero by blast
      with nums have "k + 1 \<in> set_units (sema st ! x)"
        using xD(3) by (auto simp: set_units_iff)
      with k(2) xD(2) show False by blast
    qed
    moreover have "int (vals st' ! k) = int (vals st ! k) + op_sum (sem_base (sema st ! x)) ops k" if "r = Returned None"
      using t k(1) xD(1) sets_okD(2) [OF D(4)] that unfolding transaction_def Let_def by simp
    moreover have "vals st' = vals st" if "r \<noteq> Returned None"
      using t that unfolding transaction_def Let_def by simp
    ultimately show ?thesis
      by (cases "r = Returned None") simp_all
  qed
  then have "sets_ok si st'"
    by (intro sets_ok_vals [OF D(4)]) (use T sema same in auto)
  moreover have "ents_live si st'"
    unfolding ents_live_def
  proof (intro allI ballI)
    fix s e assume e: "e \<in> set (ents st' s)"
    have live: "semconv_lock si (un_id e) st' = semconv_lock si (un_id e) st"
      by (rule semconv_lock_cong) (simp_all add: same)
    have "adj (un_id e) (un_num e) (ents st' s) \<noteq> 0"
      using ents_adj [OF undo_ok_ents [OF T(1)] e] undo_ok_ents [OF T(1), of s] e by (auto simp: ents_ok_def)
    then have "adj (un_id e) (un_num e) (ents st s) \<noteq> 0 \<or> un_id e = semid \<and> undo_sum ops (un_num e) \<noteq> 0"
      using t by (cases "s = slot"; cases "r = Returned None") (auto simp: transaction_def Let_def split: if_splits)
    then show "0 \<le> un_id e \<and> un_id e < 2147483648 \<and>
        (\<exists>x. semconv_lock si (un_id e) st' = Some x \<and> un_num e < sem_nsems (sema st' ! x))"
    proof
      assume "adj (un_id e) (un_num e) (ents st s) \<noteq> 0"
      then obtain f where f: "f \<in> set (ents st s)" "un_id f = un_id e" "un_num f = un_num e"
        by (rule adj_nonzero)
      show ?thesis
        by (rule ents_liveD [OF D(6) f(1)]) (use f live same in auto)
    next
      assume "un_id e = semid \<and> undo_sum ops (un_num e) \<noteq> 0"
      then show ?thesis
        using undo_sum_nonzero [of ops "un_num e"] nums live x id same by (auto simp: id_ok_def)
    qed
  qed
  ultimately show ?thesis
    using D(1) T by (simp add: sem_ok_def)
qed

lemma semop_ok:
  assumes ok: "sem_ok si st" and id: "id_ok semid ops"
  shows "\<exists>r st'. semop si ca semid fault ops st = Done (r, st') \<and> sem_ok si st'"
proof (cases "length ops > semopm si \<or> ops = [] \<or> fault \<or> semconv_lock si semid st = None")
  case True
  with ok show ?thesis by (auto simp: semop_def)
next
  case False
  then obtain x where x: "semconv_lock si semid st = Some x" by auto
  note D = sem_okD [OF ok]
  show ?thesis
  proof (cases "semop_verify (ca_cred ca) (sema st ! x) ops")
    case None
    note nums = semop_verify_nums [OF None]
    from semop_check_transaction [OF D(1-3,5) x nums] False x None transaction_ok [OF ok id x nums] show ?thesis
      unfolding semop_def by fastforce
  qed (use False ok x in \<open>simp add: semop_def\<close>)
qed

lemma semop_wakeup_ok:
  assumes ok: "sem_ok si st" and id: "id_ok semid ops"
    and nums: "\<forall>op\<in>set ops. sem_num op < sem_nsems (sema st ! sem_index semid)"
  shows "\<exists>r st'. semop_wakeup si ca semid (sem_index semid) ops st = Done (r, st') \<and> sem_ok si st'"
proof (cases "semconv si semid st")
  case None
  note D = sem_okD [OF ok]
  have x: "semconv_lock si semid st = Some (sem_index semid)"
    using None by (simp add: semconv_lock_eq)
  from semop_check_transaction [OF D(1-3,5) x nums] None transaction_ok [OF ok id x nums] show ?thesis
    unfolding semop_wakeup_def by fastforce
qed (use ok in \<open>simp add: semop_wakeup_def\<close>)

lemma semop_interrupt_ok:
  assumes ok: "sem_ok si st" and k: "k < length (sems st)"
  shows "sem_ok si (snd (semop_interrupt_n k st))" and "sem_ok si (snd (semop_interrupt_z k st))"
  by (rule sem_ok_tables [OF ok]; use k sem_okD(3) [OF ok] in \<open>auto simp: semop_interrupt_n_def semop_interrupt_z_def
    same_tables_def Let_def\<close>)+

section \<open>Process exit\<close>

text \<open>The semaphore an entry is about, and the value it is left with.\<close>

definition ent_sem :: "semst \<Rightarrow> undo \<Rightarrow> nat" where
  "ent_sem st e = sem_base (sema st ! sem_index (un_id e)) + un_num e"

definition adjusted :: "seminfo \<Rightarrow> nat \<Rightarrow> int \<Rightarrow> nat" where
  "adjusted si v a = (if 0 \<le> int v + a \<and> int v + a \<le> int (semvmx si) then nat (int v + a) else v)"

definition ent_live :: "seminfo \<Rightarrow> semst \<Rightarrow> undo \<Rightarrow> bool" where
  "ent_live si st e \<longleftrightarrow> (\<exists>x. semconv_lock si (un_id e) st = Some x) \<and> ent_sem st e < length (sems st)"

lemma semexit_step:
  assumes si: "seminfo_ok si" and live: "ent_live si st e"
  shows "\<exists>st1. semexit_loop si (e # es) st = semexit_loop si es st1 \<and> same_tables st st1 \<and> sem_undo st1 = sem_undo st
    \<and> un_ent st1 = un_ent st \<and> semunp st1 = semunp st \<and> semfup st1 = semfup st
    \<and> vals st1 = (vals st)[ent_sem st e := adjusted si (vals st ! ent_sem st e) (un_aoe e)]"
proof -
  obtain x where x: "semconv_lock si (un_id e) st = Some x" and k: "ent_sem st e < length (sems st)"
    using live by (auto simp: ent_live_def)
  let ?k = "ent_sem st e"
  let ?v = "int (semval (sems st ! ?k)) + un_aoe e"
  have kx: "sem_base (sema st ! x) + un_num e = ?k"
    using semconv_lockD(1) [OF x] by (simp add: ent_sem_def)
  show ?thesis
  proof (cases "?v < 0 \<or> ?v > int (semvmx si)")
    case True
    then have "semexit_loop si (e # es) st = semexit_loop si es st"
      using x k by (simp add: kx Let_def)
    then show ?thesis
      using True k by (intro exI [of _ st]) (auto simp: same_tables_def adjusted_def vals_nth)
  next
    case False
    let ?semp = "(sems st ! ?k)\<lparr>semval := nat (?v mod 65536)\<rparr>"
    define st1 where "st1 = (if ?v = 0 \<and> semzcnt ?semp \<noteq> 0
      then wake_up (Broadcast_zcnt ?k) (set_sem ?k (?semp\<lparr>semzcnt := 0\<rparr>) (set_sem ?k ?semp st)) else set_sem ?k ?semp st)"
    define st2 where "st2 = (if un_aoe e > 0 \<and> semncnt (sems st1 ! ?k) \<noteq> 0
      then wake_up (Broadcast_ncnt ?k) (set_sem ?k ((sems st1 ! ?k)\<lparr>semncnt := 0\<rparr>) st1) else st1)"
    have "semexit_loop si (e # es) st = semexit_loop si es st2"
      using False x k by (simp add: kx st1_def st2_def Let_def)
    moreover have "?v mod 65536 = ?v"
      using False si by (simp add: seminfo_ok_def)
    then have "vals st2 = (vals st)[?k := adjusted si (vals st ! ?k) (un_aoe e)]"
      using False k by (simp add: st1_def st2_def adjusted_def vals_nth)
    moreover have "same_tables st st2 \<and> sem_undo st2 = sem_undo st
        \<and> un_ent st2 = un_ent st \<and> semunp st2 = semunp st \<and> semfup st2 = semfup st"
      using k by (simp add: st1_def st2_def same_tables_def) (simp add: set_sem_def wake_up_def)
    ultimately show ?thesis by blast
  qed
qed

lemma semexit_loop_spec:
  assumes "seminfo_ok si" and "\<forall>e\<in>set es. ent_live si st e" and "distinct (map (ent_sem st) es)"
  shows "\<exists>st'. semexit_loop si es st = Done st' \<and> same_tables st st' \<and> sem_undo st' = sem_undo st
    \<and> un_ent st' = un_ent st \<and> semunp st' = semunp st \<and> semfup st' = semfup st
    \<and> (\<forall>e\<in>set es. vals st' ! ent_sem st e = adjusted si (vals st ! ent_sem st e) (un_aoe e))
    \<and> (\<forall>k. k \<notin> ent_sem st ` set es \<longrightarrow> vals st' ! k = vals st ! k)"
  using assms
proof (induction es arbitrary: st)
  case Nil
  then show ?case by (simp add: same_tables_def)
next
  case (Cons e es)
  obtain st1 where st1: "semexit_loop si (e # es) st = semexit_loop si es st1" "same_tables st st1" "sem_undo st1 = sem_undo st"
    "un_ent st1 = un_ent st" "semunp st1 = semunp st" "semfup st1 = semfup st"
    "vals st1 = (vals st)[ent_sem st e := adjusted si (vals st ! ent_sem st e) (un_aoe e)]"
    using semexit_step [OF Cons.prems(1), of st e es] Cons.prems(2) by auto
  have k: "ent_sem st e < length (sems st)"
    using Cons.prems(2) by (simp add: ent_live_def)
  have same: "sema st1 = sema st" "length (sems st1) = length (sems st)"
    using st1(2) by (simp_all add: same_tables_def)
  have "semconv_lock si i st1 = semconv_lock si i st" for i
    by (rule semconv_lock_cong) (simp_all add: same)
  then have es: "ent_sem st1 = ent_sem st" and "\<And>e. ent_live si st1 e = ent_live si st e"
    by (simp_all add: ent_sem_def ent_live_def same fun_eq_iff)
  with Cons.prems obtain st' where st': "semexit_loop si es st1 = Done st'" "same_tables st1 st'" "sem_undo st' = sem_undo st1"
    "un_ent st' = un_ent st1" "semunp st' = semunp st1" "semfup st' = semfup st1"
    "\<forall>f\<in>set es. vals st' ! ent_sem st f = adjusted si (vals st1 ! ent_sem st f) (un_aoe f)"
    "\<forall>k. k \<notin> ent_sem st ` set es \<longrightarrow> vals st' ! k = vals st1 ! k"
    using Cons.IH [of st1] by auto
  have ne: "ent_sem st f \<noteq> ent_sem st e" if "f \<in> set es" for f
    using Cons.prems(3) that by (auto dest: sym)
  have "vals st' ! ent_sem st f = adjusted si (vals st ! ent_sem st f) (un_aoe f)" if "f \<in> set (e # es)" for f
  proof (cases "f \<in> set es")
    case True
    with st'(7) st1(7) ne [of f] show ?thesis by simp
  next
    case False
    with that have "f = e" by simp
    then show ?thesis
      using st'(8) Cons.prems(3) st1(7) k by auto
  qed
  moreover have "vals st' ! j = vals st ! j" if "j \<notin> ent_sem st ` set (e # es)" for j
    using that st'(8) st1(7) by simp
  ultimately show ?case
    using st1 st' same_tables_trans [OF st1(2) st'(2)] by simp
qed

lemma ent_sem_inj:
  assumes ok: "sem_ok si st" and e: "e \<in> set (ents st s)" and f: "f \<in> set (ents st s)" and eq: "ent_sem st e = ent_sem st f"
  shows "e = f"
proof -
  note D = sem_okD [OF ok]
  obtain x where x: "semconv_lock si (un_id e) st = Some x" "un_num e < sem_nsems (sema st ! x)" "0 \<le> un_id e" "un_id e < 2147483648"
    by (rule ents_liveD [OF D(6) e])
  obtain y where y: "semconv_lock si (un_id f) st = Some y" "un_num f < sem_nsems (sema st ! y)" "0 \<le> un_id f" "un_id f < 2147483648"
    by (rule ents_liveD [OF D(6) f])
  note xD = semconv_lockD [OF x(1)] and yD = semconv_lockD [OF y(1)]
  have k: "ent_sem st e + 1 \<in> set_units (sema st ! x)" "ent_sem st f + 1 \<in> set_units (sema st ! y)"
    using in_set_units(1) [OF ok x(1,2)] in_set_units(1) [OF ok y(1,2)] xD(1) yD(1) by (simp_all add: ent_sem_def)
  have xy: "x = y"
  proof (rule ccontr)
    assume "x \<noteq> y"
    then have "set_units (sema st ! x) \<inter> set_units (sema st ! y) = {}"
      using D(4) xD(2) yD(2) by (simp add: sets_ok_def)
    with k eq show False by auto
  qed
  have id: "un_id e = un_id f"
    using xD(1,4) yD(1,4) unfolding xy by (subst semid_split(1) [OF x(3,4)], subst semid_split(1) [OF y(3,4)]) simp
  have num: "un_num e = un_num f"
    using eq id by (simp add: ent_sem_def)
  have "un_aoe e = un_aoe f"
    using ents_adj [OF undo_ok_ents [OF D(2)] e] ents_adj [OF undo_ok_ents [OF D(2)] f] unfolding id num by (rule trans [OF sym])
  with id num show ?thesis
    by (intro undo.equality) simp_all
qed

lemma ents_distinct: "ents_ok si es \<Longrightarrow> distinct es"
proof (induction es)
  case (Cons e es)
  then have "ents_ok si es" "e \<notin> set es"
    by (auto simp: ents_ok_def ent_less_def)
  with Cons.IH show ?case by simp
qed simp

text \<open>The undo structure of a process goes back to the free list.\<close>

lemma undo_ok_release:
  assumes ok: "undo_ok si st" and up: "sem_undo st slot = Some up"
  shows "undo_ok si (st\<lparr>un_ent := (un_ent st)(up := []), semunp := remove1 up (semunp st), semfup := up # semfup st,
    sem_undo := (sem_undo st)(slot := None)\<rparr>)" (is "undo_ok si ?st'")
proof -
  have inj: "\<And>s. sem_undo st s = Some up \<Longrightarrow> s = slot"
    using ok up by (auto simp: undo_ok_def)
  have "up \<notin> set (semfup st)"
    using ok up by (auto simp: undo_ok_def)
  moreover have "\<exists>s. ((sem_undo st)(slot := None)) s = Some q" if "un_ent st q \<noteq> []" "q \<noteq> up" for q
  proof -
    obtain s where "sem_undo st s = Some q"
      using ok \<open>un_ent st q \<noteq> []\<close> by (auto simp: undo_ok_def)
    with up \<open>q \<noteq> up\<close> show ?thesis
      by (intro exI [of _ s]) auto
  qed
  moreover have "ents_ok si []"
    by (simp add: ents_ok_def)
  ultimately show ?thesis
    using ok inj by (auto simp: undo_ok_def)
qed

lemma ents_release:
  assumes ok: "undo_ok si st" and up: "sem_undo st slot = Some up"
  defines "st' \<equiv> st\<lparr>un_ent := (un_ent st)(up := []), semunp := remove1 up (semunp st), semfup := up # semfup st,
    sem_undo := (sem_undo st)(slot := None)\<rparr>"
  shows "ents st' s = (if s = slot then [] else ents st s)"
proof -
  have "sem_undo st s \<noteq> Some up" if "s \<noteq> slot"
    using ok up that by (auto simp: undo_ok_def)
  then show ?thesis
    by (auto simp: ents_def st'_def split: option.splits)
qed

lemma sem_ok_release:
  assumes ok: "sem_ok si st" and up: "sem_undo st slot = Some up"
  defines "st' \<equiv> st\<lparr>un_ent := (un_ent st)(up := []), semunp := remove1 up (semunp st), semfup := up # semfup st,
    sem_undo := (sem_undo st)(slot := None)\<rparr>"
  shows "sem_ok si st'"
proof -
  note D = sem_okD [OF ok]
  have sel: "sema st' = sema st" "sems st' = sems st" "smap st' = smap st" "vals st' = vals st"
    by (simp_all add: st'_def vals_def)
  have "sets_ok si st'"
    by (rule sets_ok_vals [OF D(4)]) (simp_all add: sel)
  moreover have "ents_live si st'"
    by (rule ents_live_mono [OF D(6)])
      (use ents_release [OF D(2) up, folded st'_def] in \<open>auto simp: sel split: if_splits\<close>)
  ultimately show ?thesis
    using D undo_ok_release [OF D(2) up, folded st'_def] sel by (simp add: sem_ok_def)
qed

lemma ents_all_live:
  assumes "sem_ok si st" and "e \<in> set (ents st s)"
  shows "ent_live si st e"
proof -
  obtain x where x: "semconv_lock si (un_id e) st = Some x" "un_num e < sem_nsems (sema st ! x)"
    using sem_okD(6) [OF assms(1)] assms(2) by (rule ents_liveD)
  then show ?thesis
    using in_set_units(3) [OF assms(1) x] semconv_lockD(1) [OF x(1)] by (simp add: ent_live_def ent_sem_def)
qed

lemma semexit_spec:
  assumes "sem_ok si st"
  shows "\<exists>st'. semexit si slot st = Done st' \<and> sem_ok si st' \<and> sem_undo st' slot = None \<and> sema st' = sema st
    \<and> (\<forall>s. ents st' s = (if s = slot then [] else ents st s))
    \<and> (\<forall>e\<in>set (ents st slot). vals st' ! ent_sem st e = adjusted si (vals st ! ent_sem st e) (un_aoe e))
    \<and> (\<forall>k. k \<notin> ent_sem st ` set (ents st slot) \<longrightarrow> vals st' ! k = vals st ! k)"
proof (cases "sem_undo st slot")
  case None
  with assms show ?thesis
    by (simp add: semexit_def ents_def)
next
  case (Some up)
  note D = sem_okD [OF assms]
  let ?rel = "\<lambda>t. t\<lparr>un_ent := (un_ent t)(up := []), semunp := remove1 up (semunp t), semfup := up # semfup t,
    sem_undo := (sem_undo t)(slot := None)\<rparr>"
  have es: "ents st slot = un_ent st up"
    using Some by (simp add: ents_def)
  have d: "distinct (map (ent_sem st) (rev (ents st slot)))"
    using ents_distinct [OF undo_ok_ents [OF D(2)]] ent_sem_inj [OF assms] by (auto simp: distinct_map inj_on_def rev_map [symmetric])
  have l: "\<forall>e\<in>set (rev (ents st slot)). ent_live si st e"
    using ents_all_live [OF assms] by simp
  obtain st1 where st1: "semexit_loop si (rev (ents st slot)) st = Done st1" "same_tables st st1"
    "sem_undo st1 = sem_undo st" "un_ent st1 = un_ent st" "semunp st1 = semunp st" "semfup st1 = semfup st"
    "\<forall>e\<in>set (ents st slot). vals st1 ! ent_sem st e = adjusted si (vals st ! ent_sem st e) (un_aoe e)"
    "\<forall>k. k \<notin> ent_sem st ` set (ents st slot) \<longrightarrow> vals st1 ! k = vals st ! k"
    using semexit_loop_spec [OF D(1) l d, unfolded set_rev] by blast
  have "vals st1 ! k \<le> semvmx si" if "k < length (vals st1)" for k
  proof (cases "k \<in> ent_sem st ` set (ents st slot)")
    case True
    have "vals st ! k \<le> semvmx si"
      using D(3) that st1(2) by (simp add: values_ok_def same_tables_def)
    with True st1(7) show ?thesis
      by (auto simp: adjusted_def)
  next
    case False
    with st1(2,8) D(3) that show ?thesis by (simp add: values_ok_def same_tables_def)
  qed
  then have "values_ok si (vals st1)"
    by (simp add: values_ok_def all_set_conv_all_nth)
  moreover have "vals st1 ! k = vals st ! k" if "\<forall>x < semmni si. k + 1 \<notin> set_units (sema st ! x)" for k
  proof -
    have "k \<notin> ent_sem st ` set (ents st slot)"
    proof
      assume "k \<in> ent_sem st ` set (ents st slot)"
      then obtain e where e: "e \<in> set (ents st slot)" "k = ent_sem st e" by blast
      obtain x where x: "semconv_lock si (un_id e) st = Some x" "un_num e < sem_nsems (sema st ! x)"
        using D(6) e(1) by (rule ents_liveD)
      with that e(2) in_set_units [OF assms x] semconv_lockD(1) [OF x(1)] show False
        by (simp add: ent_sem_def)
    qed
    with st1(8) show ?thesis by blast
  qed
  ultimately have ok1: "sem_ok si st1"
    by (intro sem_ok_tables [OF assms st1(2)])
  have up1: "sem_undo st1 slot = Some up" and ents1: "ents st1 = ents st"
    using st1(2,3) Some by (simp_all add: same_tables_def)
  have ents': "ents (?rel st1) s = (if s = slot then [] else ents st s)" for s
    using ents_release [OF sem_okD(2) [OF ok1] up1, of s] ents1 by simp
  have fin: "sem_ok si (?rel st1)"
    by (rule sem_ok_release [OF ok1 up1])
  show ?thesis
  proof (cases "ents st slot = []")
    case True
    have rel: "?rel st1 = st1\<lparr>semfup := up # semfup st1, sem_undo := (sem_undo st1)(slot := None)\<rparr>"
      using True es st1(4) sem_okD(2) [OF ok1] by (simp add: undo_ok_def fun_upd_idem remove1_idem)
    have "st1 = st"
      using st1(1) True by simp
    with True es Some fin rel ents' show ?thesis
      by (simp add: semexit_def vals_def)
  next
    case False
    then have "semexit si slot st = Done (?rel st1)"
      using Some es st1 by (simp add: semexit_def)
    moreover have "vals (?rel st1) = vals st1" "sema (?rel st1) = sema st"
      using st1(2) by (simp_all add: vals_def same_tables_def)
    ultimately show ?thesis
      using fin ents' st1(7,8) by auto
  qed
qed

text \<open>
  C20. Exit of a process: \<^verbatim>\<open>semexit\<close> always completes; every semaphore the process has an
  adjustment for gets it added unless the sum would leave the range 0 to \<^verbatim>\<open>semvmx\<close>, all other
  semaphores and the adjustments of all other processes stay, the process has none left, and
  the invariant holds.
\<close>

theorem semexit_adjusts:
  assumes "sem_ok si st"
  shows "\<exists>st'. semexit si slot st = Done st' \<and> sem_ok si st' \<and> sem_undo st' slot = None \<and> sema st' = sema st
    \<and> (\<forall>s. ents st' s = (if s = slot then [] else ents st s))
    \<and> (\<forall>e\<in>set (ents st slot). vals st' ! ent_sem st e = adjusted si (vals st ! ent_sem st e) (un_aoe e))
    \<and> (\<forall>k. k \<notin> ent_sem st ` set (ents st slot) \<longrightarrow> vals st' ! k = vals st ! k)"
  by (rule semexit_spec [OF assms])

text \<open>A process that holds one adjustment, made by an operation on the sample set.\<close>

definition wit_after :: semst where
  "wit_after = wit_semst\<lparr>
     smap := \<lparr>m_free = 2, m_want = 0, m_nam = [], m_slots = 2, m_bcasts = 0,
              m_map = replicate 3 \<lparr>m_size = 0, m_addr = 0\<rparr>\<rparr>,
     un_ent := (\<lambda>_. [])(0 := [\<lparr>un_aoe = 2, un_num = 0, un_id = 0x30000\<rparr>]),
     sem_undo := [4 \<mapsto> 0], semunp := [0], semfup := []\<rparr>"

lemma wit_after_ok: "sem_ok wit_seminfo wit_after"
proof -
  have "map_units (smap wit_after) = {}" "rmap_ok (smap wit_after)"
    by (simp_all add: wit_after_def map_units_def map_segs_def free_units_def rmap_ok_def wf_map_def
        numeral_3_eq_3)
  moreover have sp: "in_use (sema wit_after ! 0)" "sem_base (sema wit_after ! 0) = 0" "sem_nsems (sema wit_after ! 0) = 2"
    "ip_seq (sem_perm (sema wit_after ! 0)) = 3" "length (sema wit_after) = 1" "length (sems wit_after) = 2"
    by (simp_all add: wit_after_def wit_semst_def wit_perm_def ipc_allocated_def IPC_ALLOC_def)
  moreover have "u \<in> set_units (sema wit_after ! 0) \<longleftrightarrow> 0 < u \<and> u \<le> 2" for u
    using sp by (auto simp: set_units_iff)
  ultimately have "sets_ok wit_seminfo wit_after"
    by (auto simp: sets_ok_def set_ok_def wit_seminfo_def good_block_def ssize_nonpos_def keys_ok_def)
  moreover have "ents_live wit_seminfo wit_after"
    by (simp add: ents_live_def ents_def wit_after_def wit_semst_def wit_seminfo_def wit_perm_def semconv_lock_def
        sem_index_def sem_sequence_def ipc_allocated_def IPC_ALLOC_def)
  moreover have "undo_ok wit_seminfo wit_after"
    by (auto simp: undo_ok_def ents_ok_def wit_after_def wit_semst_def wit_seminfo_def split: if_splits)
  moreover have "values_ok wit_seminfo (vals wit_after)"
    by (simp add: values_ok_def vals_def wit_after_def wit_semst_def wit_seminfo_def)
  ultimately show ?thesis
    by (simp add: sem_ok_def wit_semst_ok(1))
qed

theorem semexit_adjusts_witness:
  "\<exists>st'. semexit wit_seminfo 4 wit_after = Done st' \<and> sem_ok wit_seminfo st' \<and> vals st' ! 0 = 7 \<and> vals st' ! 1 = 1"
proof -
  have "ents wit_after 4 = [\<lparr>un_aoe = 2, un_num = 0, un_id = 0x30000\<rparr>]" "vals wit_after = [5, 1]"
    "ent_sem wit_after \<lparr>un_aoe = 2, un_num = 0, un_id = 0x30000\<rparr> = 0"
    by (simp_all add: ents_def wit_after_def wit_semst_def vals_def ent_sem_def sem_index_def)
  then show ?thesis
    using semexit_adjusts [OF wit_after_ok, of 4] by (auto simp: adjusted_def wit_seminfo_def)
qed

text \<open>
  C18. A set that is removed is gone: in a state that satisfies the invariant, so with no adjustment
  recorded under the second, negative name of an identifier, when its owner, its creator or the super-user removes a
  set by the identifier that \<^verbatim>\<open>semget\<close> returned, \<^verbatim>\<open>IPC_RMID\<close> completes without a panic of the resource map, the identifier is refused from
  then on, no process keeps an adjustment for the set, its semaphores are back to 0, and no
  other set, value or adjustment changes.
\<close>

theorem sem_rmid_gone:
  assumes "sem_ok si st" and "0 \<le> semid" and "semid < 2147483648" and "semconv_lock si semid st = Some x"
    and "cr_uid (ca_cred ca) \<in> {0, ip_uid (sem_perm (sema st ! x)), ip_cuid (sem_perm (sema st ! x))}"
  shows "\<exists>st'. semctl si ca semid n IPC_RMID st = Done (Inr (Ret 0), st') \<and> sem_ok si st' \<and> semconv_lock si semid st' = None
    \<and> (\<forall>s i n. adj i n (ents st' s) = (if i = semid then 0 else adj i n (ents st s)))
    \<and> (\<forall>y. y \<noteq> x \<longrightarrow> sema st' ! y = sema st ! y)
    \<and> (\<forall>k < semmns si. vals st' ! k = (if k + 1 \<in> set_units (sema st ! x) then 0 else vals st ! k))"
proof -
  have "sem_owner ca (sema st ! x)"
    using assms(5) by (auto simp: sem_owner_def)
  from sem_rmid_spec [OF assms(1-4) this] assms(4) show ?thesis
    by (simp add: semctl_def)
qed

theorem sem_rmid_gone_witness:
  "\<exists>st'. semctl wit_seminfo wit_caller 0x30000 0 IPC_RMID wit_after = Done (Inr (Ret 0), st') \<and> sem_ok wit_seminfo st'
     \<and> semconv_lock wit_seminfo 0x30000 st' = None \<and> adj 0x30000 0 (ents st' 4) = 0"
proof -
  have "semconv_lock wit_seminfo 0x30000 wit_after = Some 0"
    by (simp add: wit_after_def wit_semst_def wit_seminfo_def wit_perm_def semconv_lock_def
        sem_index_def sem_sequence_def ipc_allocated_def IPC_ALLOC_def)
  moreover have "cr_uid (ca_cred wit_caller) = 0"
    by (simp add: wit_caller_def zero_cred_def)
  ultimately show ?thesis
    using sem_rmid_gone [OF wit_after_ok, of "0x30000" 0 wit_caller 0] by auto
qed

section \<open>Reachable states\<close>

text \<open>
  The state after module initialisation, and a step for every call that \<^verbatim>\<open>semsys\<close> and the exit
  of a process make, and for every return of a sleeper. Two kinds of call are left out, both with an identifier
  that \<^verbatim>\<open>semget\<close> never returns, the second name of a set with the top bit set: its use to remove the
  set, and its use to record adjustments. They leave entries behind that no longer
  belong to a set (lemma \<open>semid_alias\<close>), and are the only calls that can.
\<close>

fun call_id_ok :: "semcall \<Rightarrow> bool" where
  "call_id_ok (SEMCTL semid _ cmd) \<longleftrightarrow> (cmd = IPC_RMID \<longrightarrow> 0 \<le> semid \<and> semid < 2147483648)"
| "call_id_ok (SEMOP semid _ ops) \<longleftrightarrow> id_ok semid ops"
| "call_id_ok _ \<longleftrightarrow> True"

lemma semsys_ok:
  assumes ok: "sem_ok si st" and id: "call_id_ok call"
  shows "\<exists>r st'. semsys si ca call st = Done (r, st') \<and> sem_ok si st'"
proof (cases call)
  case (SEMCTL semid semnum cmd)
  with id semctl_ok [OF ok, of cmd semid ca semnum] show ?thesis
    by (auto simp: semsys_def)
next
  case (SEMGET key nsems flg)
  with semget_total [OF ok, of ca key nsems flg] show ?thesis
    by (auto simp: semsys_def)
next
  case (SEMOP semid fault ops)
  with id semop_ok [OF ok, of semid ops ca fault] show ?thesis
    by (auto simp: semsys_def)
qed (simp add: semsys_def ok)

inductive sem_reach :: "seminfo \<Rightarrow> semst \<Rightarrow> bool" for si :: seminfo where
  Load: "seminfo_ok si \<Longrightarrow> sem_init sz nproc avail ovh True None si0 = Done (Inr (si, st)) \<Longrightarrow>
    2 \<le> semmap si0 \<Longrightarrow> semmap si0 + ovh < 2 ^ 32 \<Longrightarrow> 0 < semmns si0 \<Longrightarrow> semmns si0 < 2 ^ 31 \<Longrightarrow> sem_reach si st"
| Call: "sem_reach si st \<Longrightarrow> call_id_ok call \<Longrightarrow> semsys si ca call st = Done (r, st') \<Longrightarrow> sem_reach si st'"
| Wakeup: "sem_reach si st \<Longrightarrow> id_ok semid ops \<Longrightarrow>
    \<forall>op\<in>set ops. sem_num op < sem_nsems (sema st ! sem_index semid) \<Longrightarrow>
    semop_wakeup si ca semid (sem_index semid) ops st = Done (r'', st') \<Longrightarrow> sem_reach si st'"
| Interrupt_n: "sem_reach si st \<Longrightarrow> k < length (sems st) \<Longrightarrow> semop_interrupt_n k st = (r'', st') \<Longrightarrow> sem_reach si st'"
| Interrupt_z: "sem_reach si st \<Longrightarrow> k < length (sems st) \<Longrightarrow> semop_interrupt_z k st = (r'', st') \<Longrightarrow> sem_reach si st'"
| Exit: "sem_reach si st \<Longrightarrow> semexit si slot st = Done st' \<Longrightarrow> sem_reach si st'"

lemma sem_init_ok:
  assumes si: "seminfo_ok si" and run: "sem_init sz nproc avail ovh True None si0 = Done (Inr (si, st))"
    and m: "2 \<le> semmap si0" "semmap si0 + ovh < 2 ^ 32" and n: "0 < semmns si0" "semmns si0 < 2 ^ 31"
  shows "sem_ok si st"
proof -
  obtain mp k where mp: "rmallocmap ovh True (semmap si0) = Done (Some (mp, k))" "wf_map mp" "m_slots mp = semmap si0" "map_units mp = {}"
    using rmallocmap_new [of "semmap si0" ovh] m by auto
  have "good_block (semmns si0) 1"
    using n by (simp add: good_block_def ssize_nonpos_def)
  then obtain mp' where mp': "rmfree mp (semmns si0) 1 = Done mp'" "rmap_ok mp'" "map_units mp' \<subseteq> block (semmns si0) 1"
    using rm.release_total [of mp "semmns si0" 1] mp m by (auto simp: rmap_ok_def)
  have st: "si = si0\<lparr>semmni := min (semmni si0) 65535\<rparr>" "st = \<lparr>sema = replicate (semmni si) zero_ds, sems = replicate (semmns si) zero_sem,
      smap = mp', un_ent = (\<lambda>_. []), sem_undo = (\<lambda>_. None), semunp = [], semfup = [0..<max 1 (semmnu si)], wakes = []\<rparr>"
    using run mp(1) mp'(1) by (auto simp: sem_init_def Let_def split: if_splits)
  have "sets_ok si st"
    using mp'(2,3) unfolding sets_ok_def
    by (auto simp: st(2) vals_def zero_sem_def zero_ds_def zero_perm_def set_ok_def set_units_def ipc_allocated_def keys_ok_def
        st(1) block_def)
  then show ?thesis
    using si by (simp add: sem_ok_def undo_ok_def ents_ok_def values_ok_def vals_def zero_sem_def ents_live_def ents_def st(2))
qed

lemma sem_reach_sem_ok:
  assumes "sem_reach si st"
  shows "sem_ok si st"
  using assms
proof induction
  case (Load sz nproc avail ovh si0 st)
  then show ?case by (intro sem_init_ok)
next
  case (Call st call ca r st')
  then show ?case using semsys_ok [of si st call ca] by auto
next
  case (Wakeup st semid ops ca r st')
  then show ?case using semop_wakeup_ok [of si st semid ops ca] by auto
next
  case (Interrupt_n st k r st')
  then show ?case using semop_interrupt_ok(1) [of si st k] by simp
next
  case (Interrupt_z st k r st')
  then show ?case using semop_interrupt_ok(2) [of si st k] by simp
next
  case (Exit st slot st')
  then show ?case using semexit_spec [of si st slot] by auto
qed

text \<open>
  C6. The invariant of the semaphore facility. In every state that can be reached from module
  initialisation by any sequence of calls, sleeps, wake-ups, interrupts and process exits, except that
  no set is removed and no adjustment is recorded under a negative identifier (which \<^verbatim>\<open>semget\<close> never
  returns, but \<^verbatim>\<open>semconv_lock\<close> takes for a second name of a set), sets
  in use hold disjoint runs of semaphores that the map does not give out, all values are at
  most \<^verbatim>\<open>semvmx\<close>, a semaphore outside all sets is 0, keys are unique, undo entries are sorted,
  non-zero and bounded and belong to live sets, and each undo structure is free or owned by one
  process; and the next such call and the exit of any process return.
\<close>

theorem sem_reach_ok:
  assumes "sem_reach si st"
  shows "sem_ok si st
    \<and> (\<forall>ca call. call_id_ok call \<longrightarrow> (\<exists>r st'. semsys si ca call st = Done (r, st')))
    \<and> (\<forall>slot. \<exists>st'. semexit si slot st = Done st')"
proof -
  note ok = sem_reach_sem_ok [OF assms]
  then show ?thesis
    using semsys_ok [OF ok] semexit_spec [OF ok] by blast
qed

definition wit_sizes :: semsizes where
  "wit_sizes = \<lparr>sz_sem = 16, sz_semid_ds = 112, sz_kmutex = 8, sz_ptr = 4, sz_sem_undo = 16, sz_undo = 8, sz_int = 4\<rparr>"

theorem sem_reach_ok_witness:
  "\<exists>st. sem_reach wit_seminfo st \<and> sem_ok wit_seminfo st
     \<and> (\<exists>r st'. semsys wit_seminfo wit_caller (SEMCTL (- 1) 0 GETVAL) st = Done (r, st'))
     \<and> (\<exists>st'. semexit wit_seminfo 4 st = Done st')"
proof -
  obtain mp k where mp: "rmallocmap 3 True (semmap wit_seminfo) = Done (Some (mp, k))" "wf_map mp" "m_slots mp = semmap wit_seminfo"
      "map_units mp = {}"
    using rmallocmap_new [of "semmap wit_seminfo" 3] by (auto simp: wit_seminfo_def)
  moreover obtain mp' where "rmfree mp (semmns wit_seminfo) 1 = Done mp'"
    using rm.release_total [of mp "semmns wit_seminfo" 1] mp
    by (auto simp: rmap_ok_def wit_seminfo_def good_block_def ssize_nonpos_def)
  ultimately obtain st where "sem_init wit_sizes 100 1000000 3 True None wit_seminfo = Done (Inr (wit_seminfo, st))"
    by (simp add: sem_init_def sem_memory_def howmany_def wit_sizes_def wit_seminfo_def)
  moreover have "2 \<le> semmap wit_seminfo" "semmap wit_seminfo + 3 < 2 ^ 32" "0 < semmns wit_seminfo" "semmns wit_seminfo < 2 ^ 31"
    by (simp_all add: wit_seminfo_def)
  ultimately have "sem_reach wit_seminfo st"
    by (rule sem_reach.Load [OF wit_semst_ok(1)])
  moreover have "call_id_ok (SEMCTL (- 1) 0 GETVAL)"
    by simp
  ultimately show ?thesis
    using sem_reach_ok [of wit_seminfo st] by blast
qed

end
