(* ===== verification/Msg.thy ===== *)
theory Msg
  imports Ipc Rmap
begin

unbundle bit_operations_syntax

text \<open>
  System V messages, \<^verbatim>\<open>uts/common/os/msg.c\<close> and \<^verbatim>\<open>sys/msg.h\<close>. The messages of all queues share
  three pools: the array of headers, linked by \<^verbatim>\<open>msg_next\<close> into one list per queue and a
  list of free headers; the text area, cut into segments of \<^verbatim>\<open>msgssz\<close> bytes; and the resource
  map that says which segments are free. This theory holds the model; \<^verbatim>\<open>Msg_Queues\<close> shows that
  the pools and links implement plain queues of messages.

  A pointer to a header is its index in the array. A call holds the lock of its queue from
  \<open>msgconv\<close> until it sleeps or returns, and is cut there. Segments go back to the map in one step: the
  moment without the lock of the map in which \<^verbatim>\<open>rmfree\<close> reports an overflow, and what others do to
  the map then, is a matter of \<^verbatim>\<open>Rmap\<close>.
\<close>

section \<open>State\<close>

text \<open>The tunables, which are not negative.\<close>

record msginfo =
  msgmap :: nat
  msgmax :: nat
  msgmnb :: nat
  msgmni :: nat
  msgssz :: nat
  msgtql :: nat
  msgseg :: nat

text \<open>The header of a message, \<^verbatim>\<open>struct msg\<close>: \<open>msg_ts\<close> is an unsigned, \<open>msg_spot\<close> a signed short.\<close>

record msghdr =
  msg_next :: "nat option"
  msg_type :: int
  msg_ts :: nat
  msg_spot :: int

record msqid_ds =
  msg_perm :: ipc_perm
  msg_first :: "nat option"
  msg_last :: "nat option"
  msg_cbytes :: ulong
  msg_qnum :: ulong
  msg_qbytes :: ulong
  msg_lspid :: int
  msg_lrpid :: int
  msg_stime :: int
  msg_rtime :: int
  msg_ctime :: int

text \<open>
  Broadcasts: to those who wait for a message on a queue, for room on a queue, and for a
  header. Those on the map's condition variable are counted in the map.
\<close>

datatype mwake = W_qnum_cv nat | W_cv nat | W_msgfp_cv

text \<open>\<open>mtext\<close> is the text area \<^verbatim>\<open>msg\<close>, \<open>mmap\<close> the map \<^verbatim>\<open>msgmap\<close>.\<close>

record msgst =
  msgque :: "msqid_ds list"
  msgh :: "msghdr list"
  msgfp :: "nat option"
  mtext :: "byte list"
  mmap :: rmap
  mwakes :: "mwake list"

definition MSG_R :: int where "MSG_R = 256"
definition MSG_W :: int where "MSG_W = 128"
definition MSG_RWAIT :: "32 word" where "MSG_RWAIT = 0x200"
definition MSG_WWAIT :: "32 word" where "MSG_WWAIT = 0x400"
definition MSG_NOERROR :: "32 word" where "MSG_NOERROR = 0x1000"

definition set_q :: "nat \<Rightarrow> msqid_ds \<Rightarrow> msgst \<Rightarrow> msgst" where
  "set_q x q st = st\<lparr>msgque := (msgque st)[x := q]\<rparr>"

definition set_h :: "nat \<Rightarrow> msghdr \<Rightarrow> msgst \<Rightarrow> msgst" where
  "set_h i h st = st\<lparr>msgh := (msgh st)[i := h]\<rparr>"

definition set_mode :: "32 word \<Rightarrow> msqid_ds \<Rightarrow> msqid_ds" where
  "set_mode m q = q\<lparr>msg_perm := (msg_perm q)\<lparr>ip_mode := m\<rparr>\<rparr>"

abbreviation q_mode :: "msqid_ds \<Rightarrow> 32 word" where
  "q_mode q \<equiv> ip_mode (msg_perm q)"

definition broadcast :: "mwake \<Rightarrow> msgst \<Rightarrow> msgst" where
  "broadcast w st = st\<lparr>mwakes := w # mwakes st\<rparr>"

section \<open>Text segments\<close>

text \<open>
  The macro \<^verbatim>\<open>btoq\<close>: a sum of longs, a signed division that truncates, and the conversion to the
  unsigned size that the map's routines take. A divisor of 0 traps.
\<close>

definition btoq :: "msginfo \<Rightarrow> nat \<Rightarrow> ulong outcome" where
  "btoq mi n =
     (if msgssz mi = 0 then Panic
      else
        let s = s32 (int n + int (msgssz mi) - 1); d = int (msgssz mi)
        in Done (nat ((if s < 0 then - (- s div d) else s div d) mod 2 ^ 32)))"

text \<open>Access to \<open>n\<close> bytes of the text area from the start of segment \<open>spot\<close> on.\<close>

definition text_read :: "msginfo \<Rightarrow> int \<Rightarrow> nat \<Rightarrow> msgst \<Rightarrow> byte list outcome" where
  "text_read mi spot n st =
     (let a = int (msgssz mi) * spot in
      if a < 0 \<or> int (length (mtext st)) < a + int n then Overrun
      else Done (take n (drop (nat a) (mtext st))))"

definition text_write :: "msginfo \<Rightarrow> int \<Rightarrow> byte list \<Rightarrow> msgst \<Rightarrow> msgst outcome" where
  "text_write mi spot bs st =
     (let a = int (msgssz mi) * spot in
      if a < 0 \<or> int (length (mtext st)) < a + int (length bs) then Overrun
      else Done (st\<lparr>mtext := take (nat a) (mtext st) @ bs @ drop (nat a + length bs) (mtext st)\<rparr>))"

section \<open>Headers\<close>

text \<open>A header goes back to the free list, under \<^verbatim>\<open>msg_lock\<close>.\<close>

definition put_header :: "nat \<Rightarrow> msgst \<Rightarrow> msgst" where
  "put_header mp st =
     (let st1 = set_h mp ((msgh st ! mp)\<lparr>msg_next := msgfp st\<rparr>) st;
          st2 = (if msgfp st = None then broadcast W_msgfp_cv st1 else st1)
      in st2\<lparr>msgfp := Some mp\<rparr>)"

text \<open>
  \<open>msgfree\<close> on the queue with index \<open>x\<close>: \<open>mp\<close> is the message and \<open>pmp\<close> its predecessor.
\<close>

definition msg_unlink :: "nat \<Rightarrow> nat option \<Rightarrow> nat \<Rightarrow> msgst \<Rightarrow> msgst" where
  "msg_unlink x pmp mp st =
     (let nxt = msg_next (msgh st ! mp);
          st = (case pmp of
                  None \<Rightarrow> set_q x ((msgque st ! x)\<lparr>msg_first := nxt\<rparr>) st
                | Some p \<Rightarrow> set_h p ((msgh st ! p)\<lparr>msg_next := nxt\<rparr>) st);
          st = (if nxt = None then set_q x ((msgque st ! x)\<lparr>msg_last := pmp\<rparr>) st else st);
          q = msgque st ! x;
          st = set_q x (q\<lparr>msg_qnum := usub (msg_qnum q) 1\<rparr>) st
      in if q_mode q AND MSG_WWAIT \<noteq> 0
         then broadcast (W_cv x)
                (set_q x (set_mode (q_mode q AND NOT MSG_WWAIT) (msgque st ! x)) st)
         else st)"

definition free_text :: "msginfo \<Rightarrow> nat \<Rightarrow> int \<Rightarrow> msgst \<Rightarrow> msgst outcome" where
  "free_text mi n addr st =
     bind_outcome (btoq mi n) (\<lambda>k.
     bind_outcome (rmfree (mmap st) k (nat (addr mod 2 ^ 32))) (\<lambda>m. Done (st\<lparr>mmap := m\<rparr>)))"

definition msgfree :: "msginfo \<Rightarrow> nat \<Rightarrow> nat option \<Rightarrow> nat \<Rightarrow> msgst \<Rightarrow> msgst outcome" where
  "msgfree mi x pmp mp st =
     (if length (msgh st) \<le> mp \<or> (case pmp of None \<Rightarrow> False | Some p \<Rightarrow> length (msgh st) \<le> p)
      then Overrun
      else
        let h = msgh st ! mp; st = msg_unlink x pmp mp st in
        bind_outcome (if msg_ts h \<noteq> 0 then free_text mi (msg_ts h) (msg_spot h + 1) st else Done st)
          (\<lambda>st. Done (put_header mp st)))"

section \<open>Identifiers\<close>

text \<open>The test that the sleepers repeat when they wake up.\<close>

definition queue_gone :: "msginfo \<Rightarrow> int \<Rightarrow> msqid_ds \<Rightarrow> bool" where
  "queue_gone mi msqid q \<longleftrightarrow>
     \<not> ipc_allocated (msg_perm q) \<or> msqid div int (msgmni mi) \<noteq> int (ip_seq (msg_perm q))"

text \<open>The index of the queue, with its lock held.\<close>

definition msgconv :: "msginfo \<Rightarrow> int \<Rightarrow> msgst \<Rightarrow> (errno + nat) outcome" where
  "msgconv mi msqid st =
     (if msqid < 0 then Done (Inl EINVAL)
      else if msgmni mi = 0 then Panic
      else
        let x = nat (msqid mod int (msgmni mi)) in
        if length (msgque st) \<le> x then Overrun
        else if queue_gone mi msqid (msgque st ! x) then Done (Inl EINVAL)
        else Done (Inr x))"

section \<open>Control\<close>

text \<open>
  The commands of \<open>msgctl\<close> with what is read from user memory (\<open>None\<close> when the copy fails):
  owner, group, mode and size limit; and whether the copy out of the two \<^verbatim>\<open>STAT\<close> commands
  works. The old commands carry 16-bit values.
\<close>

datatype msgcmd =
    MSG_RMID
  | MSG_SET "(int \<times> int \<times> 32 word \<times> ulong) option"
  | MSG_O_SET "(nat \<times> nat \<times> 32 word \<times> nat) option"
  | MSG_STAT bool
  | MSG_O_STAT bool
  | MSG_unknown

text \<open>The loop of \<^verbatim>\<open>IPC_RMID\<close>; \<open>None\<close> means that it does not end.\<close>

partial_function (option) msg_purge :: "msginfo \<Rightarrow> nat \<Rightarrow> msgst \<Rightarrow> msgst outcome option" where
  "msg_purge mi x st =
     (case msg_first (msgque st ! x) of
        None \<Rightarrow> Some (Done st)
      | Some mp \<Rightarrow>
          (case msgfree mi x None mp st of
             Done st' \<Rightarrow> msg_purge mi x st'
           | Panic \<Rightarrow> Some Panic
           | Overrun \<Rightarrow> Some Overrun))"

definition msg_owner :: "caller \<Rightarrow> msqid_ds \<Rightarrow> bool" where
  "msg_owner ca q \<longleftrightarrow>
     \<not> (cr_uid (ca_cred ca) \<noteq> ip_uid (msg_perm q) \<and> cr_uid (ca_cred ca) \<noteq> ip_cuid (msg_perm q)
        \<and> cr_uid (ca_cred ca) \<noteq> 0)"

definition msg_removed :: "msginfo \<Rightarrow> int \<Rightarrow> nat \<Rightarrow> msgst \<Rightarrow> msgst" where
  "msg_removed mi msqid x st =
     (let q = (msgque st ! x)\<lparr>msg_cbytes := 0\<rparr>;
          p = msg_perm q;
          seq = (if s32 (msqid + int (msgmni mi)) < 0 then 0 else ip_seq p + 1);
          st = (if ip_mode p AND MSG_RWAIT \<noteq> 0 then broadcast (W_qnum_cv x) st else st);
          st = (if ip_mode p AND MSG_WWAIT \<noteq> 0 then broadcast (W_cv x) st else st)
      in set_q x (q\<lparr>msg_perm := p\<lparr>ip_seq := seq, ip_mode := 0\<rparr>\<rparr>) st)"

definition msg_rmid ::
    "msginfo \<Rightarrow> caller \<Rightarrow> int \<Rightarrow> nat \<Rightarrow> msgst \<Rightarrow> (errno option \<times> msgst) outcome option" where
  "msg_rmid mi ca msqid x st =
     (if \<not> msg_owner ca (msgque st ! x) then Some (Done (Some EPERM, st))
      else map_option (\<lambda>r. bind_outcome r (\<lambda>st. Done (None, msg_removed mi msqid x st)))
             (msg_purge mi x st))"

definition msg_install :: "caller \<Rightarrow> nat \<Rightarrow> int \<Rightarrow> int \<Rightarrow> 32 word \<Rightarrow> ulong \<Rightarrow> msgst \<Rightarrow> msgst" where
  "msg_install ca x uid gid mode qbytes st =
     (let q = msgque st ! x
      in set_q x (q\<lparr>msg_perm := (msg_perm q)\<lparr>ip_uid := uid, ip_gid := gid,
                      ip_mode := q_mode q AND NOT PERM_BITS OR mode AND PERM_BITS\<rparr>,
                    msg_qbytes := qbytes, msg_ctime := ca_now ca\<rparr>) st)"

definition msg_ipc_set ::
    "caller \<Rightarrow> nat \<Rightarrow> (int \<times> int \<times> 32 word \<times> ulong) option \<Rightarrow> msgst \<Rightarrow> errno option \<times> msgst" where
  "msg_ipc_set ca x arg st =
     (let q = msgque st ! x in
      if \<not> msg_owner ca q then (Some EPERM, st)
      else case arg of
        None \<Rightarrow> (Some EFAULT, st)
      | Some (uid, gid, mode, qbytes) \<Rightarrow>
          if qbytes > msg_qbytes q \<and> cr_uid (ca_cred ca) \<noteq> 0 then (Some EPERM, st)
          else if uid < 0 \<or> uid > IPC_MAXUID \<or> gid < 0 \<or> gid > IPC_MAXUID then (Some EINVAL, st)
          else (None, msg_install ca x uid gid mode qbytes st))"

definition msg_ipc_o_set ::
    "caller \<Rightarrow> nat \<Rightarrow> (nat \<times> nat \<times> 32 word \<times> nat) option \<Rightarrow> msgst \<Rightarrow> errno option \<times> msgst" where
  "msg_ipc_o_set ca x arg st =
     (let q = msgque st ! x in
      if \<not> msg_owner ca q then (Some EPERM, st)
      else case arg of
        None \<Rightarrow> (Some EFAULT, st)
      | Some (uid, gid, mode, qbytes) \<Rightarrow>
          if qbytes > msg_qbytes q \<and> cr_uid (ca_cred ca) \<noteq> 0 then (Some EPERM, st)
          else if int uid \<ge> USHRT_MAX \<or> int gid \<ge> USHRT_MAX then (Some EOVERFLOW, st)
          else if int uid > IPC_MAXUID \<or> int gid > IPC_MAXUID then (Some EINVAL, st)
          else (None, msg_install ca x (int uid) (int gid) mode qbytes st))"

definition msg_ipc_stat :: "caller \<Rightarrow> nat \<Rightarrow> bool \<Rightarrow> msgst \<Rightarrow> errno + msqid_ds" where
  "msg_ipc_stat ca x ok st =
     (let q = msgque st ! x in
      case ipcaccess (msg_perm q) MSG_R (ca_cred ca) of
        Some e \<Rightarrow> Inl e
      | None \<Rightarrow> if \<not> ok then Inl EFAULT else Inr q)"

abbreviation SHRT_MAX :: int where "SHRT_MAX \<equiv> 32767"

text \<open>The old structure has the fields of the new one, in 16 bits where it is narrower.\<close>

definition msg_ipc_o_stat :: "caller \<Rightarrow> nat \<Rightarrow> bool \<Rightarrow> msgst \<Rightarrow> errno + msqid_ds" where
  "msg_ipc_o_stat ca x ok st =
     (let q = msgque st ! x; p = msg_perm q in
      case ipcaccess p MSG_R (ca_cred ca) of
        Some e \<Rightarrow> Inl e
      | None \<Rightarrow>
          if as_unsigned (ip_uid p) > USHRT_MAX \<or> as_unsigned (ip_gid p) > USHRT_MAX
             \<or> as_unsigned (ip_cuid p) > USHRT_MAX \<or> as_unsigned (ip_cgid p) > USHRT_MAX
             \<or> as_unsigned (int (ip_seq p)) > USHRT_MAX \<or> int (msg_cbytes q) > USHRT_MAX
             \<or> int (msg_qnum q) > USHRT_MAX \<or> int (msg_qbytes q) > USHRT_MAX
             \<or> as_unsigned (msg_lspid q) > SHRT_MAX \<or> as_unsigned (msg_lrpid q) > SHRT_MAX
          then Inl EOVERFLOW
          else if \<not> ok then Inl EFAULT
          else Inr (q\<lparr>msg_perm := p\<lparr>ip_mode := ip_mode p AND 0xFFFF\<rparr>, msg_first := None, msg_last := None\<rparr>))"

datatype msgctl_res = Ctl_err errno | Ctl_ok | Ctl_ds msqid_ds

definition ctl_ret :: "errno option \<Rightarrow> msgctl_res" where
  "ctl_ret e = (case e of None \<Rightarrow> Ctl_ok | Some e \<Rightarrow> Ctl_err e)"

definition ctl_stat :: "errno + msqid_ds \<Rightarrow> msgctl_res" where
  "ctl_stat r = (case r of Inl e \<Rightarrow> Ctl_err e | Inr q \<Rightarrow> Ctl_ds q)"

definition msgctl ::
    "msginfo \<Rightarrow> caller \<Rightarrow> int \<Rightarrow> msgcmd \<Rightarrow> msgst \<Rightarrow> (msgctl_res \<times> msgst) outcome option" where
  "msgctl mi ca msqid cmd st =
     (case msgconv mi msqid st of
        Panic \<Rightarrow> Some Panic
      | Overrun \<Rightarrow> Some Overrun
      | Done (Inl e) \<Rightarrow> Some (Done (Ctl_err e, st))
      | Done (Inr x) \<Rightarrow>
          (case cmd of
             MSG_RMID \<Rightarrow>
               map_option (\<lambda>r. bind_outcome r (\<lambda>(e, st). Done (ctl_ret e, st))) (msg_rmid mi ca msqid x st)
           | MSG_SET arg \<Rightarrow> Some (Done (apfst ctl_ret (msg_ipc_set ca x arg st)))
           | MSG_O_SET arg \<Rightarrow> Some (Done (apfst ctl_ret (msg_ipc_o_set ca x arg st)))
           | MSG_STAT ok \<Rightarrow> Some (Done (ctl_stat (msg_ipc_stat ca x ok st), st))
           | MSG_O_STAT ok \<Rightarrow> Some (Done (ctl_stat (msg_ipc_o_stat ca x ok st), st))
           | MSG_unknown \<Rightarrow> Some (Done (Ctl_err EINVAL, st))))"

section \<open>Creation\<close>

definition msgget :: "msginfo \<Rightarrow> caller \<Rightarrow> int \<Rightarrow> 32 word \<Rightarrow> msgst \<Rightarrow> (errno + int) \<times> msgst" where
  "msgget mi ca key msgflg st =
     (case ipcget key msgflg (map msg_perm (msgque st)) (ca_cred ca) of
        Inl e \<Rightarrow> (Inl e, st)
      | Inr (s, x, perms) \<Rightarrow>
          let q = (msgque st ! x)\<lparr>msg_perm := perms ! x\<rparr>;
              q = (if s \<noteq> 0
                   then q\<lparr>msg_first := None, msg_last := None, msg_qnum := 0, msg_qbytes := msgmnb mi,
                          msg_lspid := 0, msg_lrpid := 0, msg_stime := 0, msg_rtime := 0,
                          msg_ctime := ca_now ca\<rparr>
                   else q)
          in (Inr (s32 (int (ip_seq (msg_perm q)) * int (msgmni mi) + int x)), set_q x q st))"

section \<open>Receiving\<close>

text \<open>
  The arguments of a call: identifier, size of the buffer, type, flags, and whether the two
  parts of the buffer can be written.
\<close>

record msgrcv_args =
  ra_id :: int
  ra_sz :: int
  ra_typ :: int
  ra_flg :: "32 word"
  ra_type_ok :: bool
  ra_text_ok :: bool

datatype msgrcv_res = Rcv_err errno | Rcv_msg int "byte list" | Rcv_sleep

text \<open>
  The loop at \<^verbatim>\<open>findmsg\<close>, for a type that is not 0: the best message so far and its
  predecessor. \<open>None\<close> means that the loop does not end.
\<close>

partial_function (option) findmsg_loop ::
    "int \<Rightarrow> msghdr list \<Rightarrow> nat option \<Rightarrow> nat option \<Rightarrow> nat option \<Rightarrow> nat option
       \<Rightarrow> (nat option \<times> nat option) outcome option" where
  "findmsg_loop mtyp hs pmp mp spmp smp =
     (case mp of
        None \<Rightarrow> Some (Done (spmp, smp))
      | Some i \<Rightarrow>
          if length hs \<le> i then Some Overrun
          else if mtyp > 0
          then (if mtyp \<noteq> msg_type (hs ! i)
                then findmsg_loop mtyp hs mp (msg_next (hs ! i)) spmp smp
                else Some (Done (pmp, mp)))
          else if msg_type (hs ! i) \<le> s32 (- mtyp)
          then (if (case smp of None \<Rightarrow> False | Some j \<Rightarrow> msg_type (hs ! j) \<le> msg_type (hs ! i))
                then findmsg_loop mtyp hs mp (msg_next (hs ! i)) spmp smp
                else findmsg_loop mtyp hs mp (msg_next (hs ! i)) pmp mp)
          else findmsg_loop mtyp hs mp (msg_next (hs ! i)) spmp smp)"

definition msgrcv_take ::
    "msginfo \<Rightarrow> caller \<Rightarrow> msgrcv_args \<Rightarrow> nat \<Rightarrow> nat option \<Rightarrow> nat \<Rightarrow> msgst \<Rightarrow> (msgrcv_res \<times> msgst) outcome" where
  "msgrcv_take mi ca r x spmp smp st =
     (if length (msgh st) \<le> smp then Overrun
      else
        let h = msgh st ! smp in
        if as_unsigned (ra_sz r) < int (msg_ts h) \<and> ra_flg r AND MSG_NOERROR = 0
        then Done (Rcv_err E2BIG, st)
        else
          let sz = (if as_unsigned (ra_sz r) < int (msg_ts h) then nat (ra_sz r) else msg_ts h) in
          if \<not> ra_type_ok r then Done (Rcv_err EFAULT, st)
          else bind_outcome (if sz = 0 then Done [] else text_read mi (msg_spot h) sz st) (\<lambda>text.
            if sz \<noteq> 0 \<and> \<not> ra_text_ok r then Done (Rcv_err EFAULT, st)
            else
              let q = msgque st ! x;
                  st = set_q x (q\<lparr>msg_cbytes := usub (msg_cbytes q) (msg_ts h),
                                  msg_lrpid := ca_pid ca, msg_rtime := ca_now ca\<rparr>) st
              in bind_outcome (msgfree mi x spmp smp st) (\<lambda>st. Done (Rcv_msg (msg_type h) text, st))))"

definition msgrcv_find ::
    "msginfo \<Rightarrow> caller \<Rightarrow> msgrcv_args \<Rightarrow> nat \<Rightarrow> msgst \<Rightarrow> (msgrcv_res \<times> msgst) outcome option" where
  "msgrcv_find mi ca r x st =
     (let q = msgque st ! x in
      case (if ra_typ r = 0 then Some (Done (None, msg_first q))
            else findmsg_loop (ra_typ r) (msgh st) None (msg_first q) None None) of
        None \<Rightarrow> None
      | Some Panic \<Rightarrow> Some Panic
      | Some Overrun \<Rightarrow> Some Overrun
      | Some (Done (spmp, Some smp)) \<Rightarrow> Some (msgrcv_take mi ca r x spmp smp st)
      | Some (Done (spmp, None)) \<Rightarrow>
          if ra_flg r AND IPC_NOWAIT \<noteq> 0 then Some (Done (Rcv_err ENOMSG, st))
          else Some (Done (Rcv_sleep, set_q x (set_mode (q_mode q OR MSG_RWAIT) q) st)))"

definition msgrcv ::
    "msginfo \<Rightarrow> caller \<Rightarrow> msgrcv_args \<Rightarrow> msgst \<Rightarrow> (msgrcv_res \<times> msgst) outcome option" where
  "msgrcv mi ca r st =
     (case msgconv mi (ra_id r) st of
        Panic \<Rightarrow> Some Panic
      | Overrun \<Rightarrow> Some Overrun
      | Done (Inl e) \<Rightarrow> Some (Done (Rcv_err e, st))
      | Done (Inr x) \<Rightarrow>
          (case ipcaccess (msg_perm (msgque st ! x)) MSG_R (ca_cred ca) of
             Some e \<Rightarrow> Some (Done (Rcv_err e, st))
           | None \<Rightarrow>
               if ra_sz r < 0 then Some (Done (Rcv_err EINVAL, st))
               else msgrcv_find mi ca r x st))"

text \<open>What a receiver does when it is woken, and when a signal ends its sleep.\<close>

definition msgrcv_woken ::
    "msginfo \<Rightarrow> caller \<Rightarrow> msgrcv_args \<Rightarrow> nat \<Rightarrow> msgst \<Rightarrow> (msgrcv_res \<times> msgst) outcome option" where
  "msgrcv_woken mi ca r x st =
     (if queue_gone mi (ra_id r) (msgque st ! x) then Some (Done (Rcv_err EIDRM, st))
      else msgrcv_find mi ca r x st)"

definition msgrcv_interrupted :: "msgst \<Rightarrow> msgrcv_res \<times> msgst" where
  "msgrcv_interrupted st = (Rcv_err EINTR, st)"

section \<open>Sending\<close>

text \<open>
  The arguments of a call: identifier, size, flags, the type as it is read from user memory,
  and the bytes of user memory behind it that can be read.
\<close>

record msgsnd_args =
  sa_id :: int
  sa_sz :: int
  sa_flg :: "32 word"
  sa_type :: "int option"
  sa_text :: "byte list"

datatype msgsnd_res = Snd_ret "errno option" | Snd_sleep_room | Snd_sleep_header | Snd_sleep_text

text \<open>The message is put on its queue.\<close>

definition msg_link ::
    "caller \<Rightarrow> nat \<Rightarrow> int \<Rightarrow> nat \<Rightarrow> ulong option \<Rightarrow> nat \<Rightarrow> msgst \<Rightarrow> msgst outcome" where
  "msg_link ca x mtyp cnt spot mp st =
     (let q = msgque st ! x;
          q = q\<lparr>msg_qnum := uadd (msg_qnum q) 1, msg_cbytes := uadd (msg_cbytes q) cnt,
                msg_lspid := ca_pid ca, msg_stime := ca_now ca\<rparr>;
          h = \<lparr>msg_next = None, msg_type = mtyp, msg_ts = cnt mod 65536,
               msg_spot = (case spot of None \<Rightarrow> - 1 | Some s \<Rightarrow> s16 (int s))\<rparr>;
          st = set_h mp h st;
          wake = \<lambda>st. if q_mode q AND MSG_RWAIT \<noteq> 0
                      then broadcast (W_qnum_cv x)
                             (set_q x (set_mode (q_mode q AND NOT MSG_RWAIT) (msgque st ! x)) st)
                      else st
      in case msg_last q of
           None \<Rightarrow> Done (wake (set_q x (q\<lparr>msg_first := Some mp, msg_last := Some mp\<rparr>) st))
         | Some l \<Rightarrow>
             if length (msgh st) \<le> l then Overrun
             else Done (wake (set_q x (q\<lparr>msg_last := Some mp\<rparr>)
                                (set_h l ((msgh st ! l)\<lparr>msg_next := Some mp\<rparr>) st))))"

text \<open>
  With a header and the segments from \<open>spot\<close> on in hand (\<open>None\<close> for an empty message), the
  text is copied in, as far as it can be read.
\<close>

definition msgsnd_copy ::
    "msginfo \<Rightarrow> caller \<Rightarrow> msgsnd_args \<Rightarrow> int \<Rightarrow> nat \<Rightarrow> nat \<Rightarrow> ulong option \<Rightarrow> msgst \<Rightarrow> (msgsnd_res \<times> msgst) outcome" where
  "msgsnd_copy mi ca a mtyp x mp spot st =
     (let cnt = nat (sa_sz a); link = \<lambda>st. msg_link ca x mtyp cnt spot mp st in
      case spot of
        None \<Rightarrow> bind_outcome (link st) (\<lambda>st. Done (Snd_ret None, st))
      | Some s \<Rightarrow>
          bind_outcome (text_write mi (int s) (take cnt (sa_text a)) st) (\<lambda>st.
            if length (sa_text a) < cnt
            then bind_outcome (free_text mi cnt (int s + 1) st) (\<lambda>st.
                   Done (Snd_ret (Some EFAULT), put_header mp st))
            else bind_outcome (link st) (\<lambda>st. Done (Snd_ret None, st))))"

text \<open>From the label \<^verbatim>\<open>getres\<close> on.\<close>

definition msgsnd_getres ::
    "msginfo \<Rightarrow> caller \<Rightarrow> msgsnd_args \<Rightarrow> int \<Rightarrow> nat \<Rightarrow> msgst \<Rightarrow> (msgsnd_res \<times> msgst) outcome" where
  "msgsnd_getres mi ca a mtyp x st =
     (let cnt = nat (sa_sz a); q = msgque st ! x; nowait = (sa_flg a AND IPC_NOWAIT \<noteq> 0) in
      if uadd cnt (msg_cbytes q) > msg_qbytes q
      then Done (if nowait then (Snd_ret (Some EAGAIN), st)
                 else (Snd_sleep_room, set_q x (set_mode (q_mode q OR MSG_WWAIT) q) st))
      else
        case msgfp st of
          None \<Rightarrow> Done (if nowait then (Snd_ret (Some EAGAIN), st) else (Snd_sleep_header, st))
        | Some mp \<Rightarrow>
            if length (msgh st) \<le> mp then Overrun
            else
              let st = st\<lparr>msgfp := msg_next (msgh st ! mp)\<rparr> in
              if cnt = 0 then msgsnd_copy mi ca a mtyp x mp None st
              else
                bind_outcome (btoq mi cnt) (\<lambda>n.
                bind_outcome (rmalloc_locked (mmap st) n) (\<lambda>(spot, m).
                  let st = st\<lparr>mmap := m\<rparr> in
                  if spot = 0
                  then Done (if nowait then (Snd_ret (Some EAGAIN), put_header mp st)
                             else (Snd_sleep_text,
                                   put_header mp (st\<lparr>mmap := m\<lparr>m_want := m_want m + 1\<rparr>\<rparr>)))
                  else msgsnd_copy mi ca a mtyp x mp (Some (spot - 1)) st)))"

definition msgsnd ::
    "msginfo \<Rightarrow> caller \<Rightarrow> msgsnd_args \<Rightarrow> msgst \<Rightarrow> (msgsnd_res \<times> msgst) outcome" where
  "msgsnd mi ca a st =
     bind_outcome (msgconv mi (sa_id a) st) (\<lambda>c.
       case c of
         Inl e \<Rightarrow> Done (Snd_ret (Some e), st)
       | Inr x \<Rightarrow>
           (case ipcaccess (msg_perm (msgque st ! x)) MSG_W (ca_cred ca) of
              Some e \<Rightarrow> Done (Snd_ret (Some e), st)
            | None \<Rightarrow>
                if sa_sz a < 0 \<or> sa_sz a > int (msgmax mi) then Done (Snd_ret (Some EINVAL), st)
                else
                  case sa_type a of
                    None \<Rightarrow> Done (Snd_ret (Some EFAULT), st)
                  | Some mtyp \<Rightarrow>
                      if mtyp < 1 then Done (Snd_ret (Some EINVAL), st)
                      else msgsnd_getres mi ca a mtyp x st))"

text \<open>
  What a sender does when it is woken after waiting for room on its queue, and after waiting
  for a header or for text segments, when it has given up the lock of the queue.
\<close>

definition msgsnd_room_woken ::
    "msginfo \<Rightarrow> caller \<Rightarrow> msgsnd_args \<Rightarrow> int \<Rightarrow> nat \<Rightarrow> msgst \<Rightarrow> (msgsnd_res \<times> msgst) outcome" where
  "msgsnd_room_woken mi ca a mtyp x st =
     (if queue_gone mi (sa_id a) (msgque st ! x) then Done (Snd_ret (Some EIDRM), st)
      else msgsnd_getres mi ca a mtyp x st)"

definition msgsnd_pool_woken ::
    "msginfo \<Rightarrow> caller \<Rightarrow> msgsnd_args \<Rightarrow> int \<Rightarrow> msgst \<Rightarrow> (msgsnd_res \<times> msgst) outcome" where
  "msgsnd_pool_woken mi ca a mtyp st =
     bind_outcome (msgconv mi (sa_id a) st) (\<lambda>c.
       case c of
         Inl _ \<Rightarrow> Done (Snd_ret (Some EIDRM), st)
       | Inr x \<Rightarrow> msgsnd_getres mi ca a mtyp x st)"

text \<open>
  What it does when a signal ends its sleep. After a wait for room it looks its queue up again;
  when that fails it unlocks through \<^verbatim>\<open>qp1\<close>, which has not been given a value.
\<close>

definition msgsnd_room_interrupted ::
    "msginfo \<Rightarrow> msgsnd_args \<Rightarrow> nat \<Rightarrow> msgst \<Rightarrow> (msgsnd_res \<times> msgst) outcome" where
  "msgsnd_room_interrupted mi a x st =
     bind_outcome (msgconv mi (sa_id a) st) (\<lambda>c.
       case c of
         Inl _ \<Rightarrow> Overrun
       | Inr _ \<Rightarrow>
           let q = msgque st ! x
           in Done (Snd_ret (Some EINTR),
                    broadcast (W_cv x) (set_q x (set_mode (q_mode q AND NOT MSG_WWAIT) q) st)))"

definition msgsnd_header_interrupted ::
    "msginfo \<Rightarrow> msgsnd_args \<Rightarrow> msgst \<Rightarrow> (msgsnd_res \<times> msgst) outcome" where
  "msgsnd_header_interrupted mi a st =
     bind_outcome (msgconv mi (sa_id a) st) (\<lambda>c.
       Done (Snd_ret (Some (case c of Inl e \<Rightarrow> e | Inr _ \<Rightarrow> EINTR)), st))"

definition msgsnd_text_interrupted ::
    "msginfo \<Rightarrow> msgsnd_args \<Rightarrow> msgst \<Rightarrow> (msgsnd_res \<times> msgst) outcome" where
  "msgsnd_text_interrupted mi a st =
     bind_outcome (msgconv mi (sa_id a) st) (\<lambda>c.
       Done (Snd_ret (Some (case c of Inl _ \<Rightarrow> EIDRM | Inr _ \<Rightarrow> EINTR)), st))"

section \<open>The system call\<close>

datatype msgcall =
    MSGGET int "32 word"
  | MSGCTL int msgcmd
  | MSGRCV msgrcv_args
  | MSGSND msgsnd_args
  | MSG_OTHER

datatype msgsys_res = Res_msgget "errno + int" | Res_msgctl msgctl_res | Res_msgrcv msgrcv_res
  | Res_msgsnd msgsnd_res | Res_msgbad errno

definition msgsys ::
    "msginfo \<Rightarrow> caller \<Rightarrow> msgcall \<Rightarrow> msgst \<Rightarrow> (msgsys_res \<times> msgst) outcome option" where
  "msgsys mi ca call st =
     (case call of
        MSGGET key flg \<Rightarrow> Some (Done (apfst Res_msgget (msgget mi ca key flg st)))
      | MSGCTL msqid cmd \<Rightarrow>
          map_option (\<lambda>r. bind_outcome r (\<lambda>(r, st). Done (Res_msgctl r, st))) (msgctl mi ca msqid cmd st)
      | MSGRCV r \<Rightarrow>
          map_option (\<lambda>r. bind_outcome r (\<lambda>(r, st). Done (Res_msgrcv r, st))) (msgrcv mi ca r st)
      | MSGSND a \<Rightarrow> Some (bind_outcome (msgsnd mi ca a st) (\<lambda>(r, st). Done (Res_msgsnd r, st)))
      | MSG_OTHER \<Rightarrow> Some (Done (Res_msgbad EINVAL, st)))"

section \<open>Module initialisation\<close>

text \<open>The sizes of the structures, which the compiler knows; an \<^verbatim>\<open>int\<close> has 4 bytes.\<close>

record msgsizes =
  sz_map :: nat
  sz_msqid_ds :: nat
  sz_msglock :: nat
  sz_msg :: nat

definition INTRND :: "nat \<Rightarrow> nat" where
  "INTRND x = (x + 3) div 4 * 4"

definition msg_memory :: "msgsizes \<Rightarrow> msginfo \<Rightarrow> nat" where
  "msg_memory sz mi =
     INTRND (msgseg mi * msgssz mi) + msgmap mi * sz_map sz + msgmni mi * sz_msqid_ds sz
     + INTRND (msgmni mi * sz_msglock sz) + msgtql mi * sz_msg sz"

definition zero_msqid_ds :: msqid_ds where
  "zero_msqid_ds =
     \<lparr>msg_perm = zero_perm, msg_first = None, msg_last = None, msg_cbytes = 0, msg_qnum = 0,
      msg_qbytes = 0, msg_lspid = 0, msg_lrpid = 0, msg_stime = 0, msg_rtime = 0, msg_ctime = 0\<rparr>"

definition free_hdr :: "msginfo \<Rightarrow> nat \<Rightarrow> msghdr" where
  "free_hdr mi i =
     \<lparr>msg_next = (if Suc i < msgtql mi then Some (Suc i) else None),
      msg_type = 0, msg_ts = 0, msg_spot = 0\<rparr>"

text \<open>
  \<open>ovh\<close> is \<^verbatim>\<open>MAP_OVERHEAD\<close>, \<open>maxavail\<close> what \<^verbatim>\<open>kmem_maxavail\<close> reports, and \<open>mod_ret\<close> what
  \<^verbatim>\<open>mod_install\<close> returns. The initialisation of the locks has no counterpart.
\<close>

definition msg_init ::
    "msgsizes \<Rightarrow> nat \<Rightarrow> nat \<Rightarrow> errno option \<Rightarrow> msginfo \<Rightarrow> (errno + msgst) outcome" where
  "msg_init sz ovh maxavail mod_ret mi =
     (if msg_memory sz mi > maxavail div 4 then Done (Inl ENOMEM)
      else
        bind_outcome (mapinit ovh (zeroed_map ovh (msgmap mi)) (msgseg mi) 1 ''msgmap'' (msgmap mi)) (\<lambda>m.
          case mod_ret of
            Some e \<Rightarrow> Done (Inl e)
          | None \<Rightarrow>
              Done (Inr \<lparr>msgque = replicate (msgmni mi) zero_msqid_ds,
                         msgh = map (free_hdr mi) [0..<msgtql mi], msgfp = Some 0,
                         mtext = replicate (INTRND (msgseg mi * msgssz mi)) 0,
                         mmap = m, mwakes = []\<rparr>)))"

end
