(* ===== verification/Msg_Queues.thy ===== *)
theory Msg_Queues
  imports Msg
begin

text \<open>
  Messages, continued: the headers, links, segments and counts of \<^verbatim>\<open>Msg\<close> implement one plain
  list of messages per queue. \<open>links_ok\<close> says which headers are on which list, \<open>texts_ok\<close> that the
  texts of queued messages lie apart from each other and from what the map holds free.
\<close>

section \<open>Linked headers\<close>

primrec linked :: "msghdr list \<Rightarrow> nat option \<Rightarrow> nat list \<Rightarrow> bool" where
  "linked hs p [] \<longleftrightarrow> p = None"
| "linked hs p (i # is) \<longleftrightarrow> p = Some i \<and> i < length hs \<and> linked hs (msg_next (hs ! i)) is"

text \<open>The list that starts at a pointer, as far as it can be without meeting a header twice.\<close>

fun chain :: "msghdr list \<Rightarrow> nat \<Rightarrow> nat option \<Rightarrow> nat list" where
  "chain hs (Suc n) (Some i) = i # chain hs n (msg_next (hs ! i))"
| "chain hs _ _ = []"

lemma linked_chain: "linked hs p is \<Longrightarrow> length is \<le> n \<Longrightarrow> chain hs n p = is"
proof (induction "is" arbitrary: p n)
  case (Cons i "is")
  then show ?case by (cases n) auto
qed simp

lemma linked_update [simp]:
  "j \<notin> set is \<Longrightarrow> linked (hs[j := h]) p is = linked hs p is"
  by (induction "is" arbitrary: p) auto

lemma linked_length: "linked hs p is \<Longrightarrow> i \<in> set is \<Longrightarrow> i < length hs"
  by (induction "is" arbitrary: p) auto

lemma linked_next: "linked hs p (as @ i # bs) \<Longrightarrow> linked hs (msg_next (hs ! i)) bs"
  by (induction as arbitrary: p) auto

lemma linked_cut_first: "linked hs p (i # bs) \<Longrightarrow> linked hs (msg_next (hs ! i)) bs"
  by simp

text \<open>Leaving out a header that has a predecessor, and adding one behind the last.\<close>

lemma linked_cut:
  assumes "linked hs p (as @ a # i # bs)" and "distinct (as @ a # i # bs)"
  shows "linked (hs[a := (hs ! a)\<lparr>msg_next := msg_next (hs ! i)\<rparr>]) p (as @ a # bs)"
  using assms by (induction as arbitrary: p) auto

lemma linked_snoc:
  assumes "linked hs p (as @ [a])" and "distinct (as @ [a])" and "mp \<notin> set (as @ [a])"
    and "mp < length hs" and "msg_next (hs ! mp) = None"
  shows "linked (hs[a := (hs ! a)\<lparr>msg_next := Some mp\<rparr>]) p (as @ [a, mp])"
  using assms by (induction as arbitrary: p) auto

definition last_opt :: "nat list \<Rightarrow> nat option" where
  "last_opt is = (if is = [] then None else Some (last is))"

lemma last_opt_simps [simp]:
  "last_opt [] = None" "last_opt (is @ [i]) = Some i" "last_opt is = None \<longleftrightarrow> is = []"
  by (auto simp: last_opt_def)

lemma linked_last_next:
  assumes "linked hs p (as @ i # bs)"
  shows "msg_next (hs ! i) = None \<longleftrightarrow> bs = []"
  using linked_next [OF assms] by (cases bs) auto

section \<open>What is on which list\<close>

abbreviation queued :: "msginfo \<Rightarrow> (nat \<Rightarrow> nat list) \<Rightarrow> nat set" where
  "queued mi qs \<equiv> \<Union>x\<in>{..<msgmni mi}. set (qs x)"

definition q_links :: "msghdr list \<Rightarrow> nat list \<Rightarrow> msqid_ds \<Rightarrow> bool" where
  "q_links hs is q \<longleftrightarrow>
     linked hs (msg_first q) is \<and> msg_last q = last_opt is \<and> msg_qnum q = length is"

definition links_ok :: "msginfo \<Rightarrow> msgst \<Rightarrow> (nat \<Rightarrow> nat list) \<Rightarrow> nat list \<Rightarrow> bool" where
  "links_ok mi st qs fs \<longleftrightarrow>
     length (msgque st) = msgmni mi \<and> length (msgh st) = msgtql mi \<and>
     (\<forall>x<msgmni mi. q_links (msgh st) (qs x) (msgque st ! x)) \<and>
     linked (msgh st) (msgfp st) fs \<and>
     (\<forall>x<msgmni mi. distinct (qs x) \<and> set (qs x) \<inter> set fs = {}) \<and>
     (\<forall>x<msgmni mi. \<forall>y<msgmni mi. x \<noteq> y \<longrightarrow> set (qs x) \<inter> set (qs y) = {}) \<and>
     distinct fs \<and> queued mi qs \<union> set fs = {..<msgtql mi}"

lemma links_okD:
  assumes "links_ok mi st qs fs"
  shows "length (msgque st) = msgmni mi" and "length (msgh st) = msgtql mi"
    and "x < msgmni mi \<Longrightarrow> q_links (msgh st) (qs x) (msgque st ! x)"
    and "linked (msgh st) (msgfp st) fs"
    and "x < msgmni mi \<Longrightarrow> distinct (qs x)" and "x < msgmni mi \<Longrightarrow> set (qs x) \<inter> set fs = {}"
    and "x < msgmni mi \<Longrightarrow> y < msgmni mi \<Longrightarrow> x \<noteq> y \<Longrightarrow> set (qs x) \<inter> set (qs y) = {}"
    and "distinct fs" and "queued mi qs \<union> set fs = {..<msgtql mi}"
  using assms by (simp_all add: links_ok_def)

lemma links_ok_header:
  assumes "links_ok mi st qs fs" and "x < msgmni mi" and "i \<in> set (qs x)"
  shows "i < length (msgh st)"
proof -
  have "i \<in> queued mi qs \<union> set fs"
    using assms(2,3) by blast
  then show ?thesis
    unfolding links_okD(9) [OF assms(1)] links_okD(2) [OF assms(1)] by simp
qed

lemma links_ok_length:
  assumes "links_ok mi st qs fs" and "x < msgmni mi"
  shows "length (qs x) \<le> msgtql mi"
proof -
  have "set (qs x) \<subseteq> {..<msgtql mi}"
    using links_okD(9) [OF assms(1)] assms(2) by blast
  then have "card (set (qs x)) \<le> msgtql mi"
    using card_mono [of "{..<msgtql mi}"] by simp
  then show ?thesis
    using links_okD(5) [OF assms] by (simp add: distinct_card)
qed

section \<open>Update laws\<close>

lemma set_q_simps [simp, state_simps]:
  "msgque (set_q x q st) = (msgque st)[x := q]" "msgh (set_q x q st) = msgh st"
  "msgfp (set_q x q st) = msgfp st" "mtext (set_q x q st) = mtext st" "mmap (set_q x q st) = mmap st"
  by (simp_all add: set_q_def)

lemma set_h_simps [simp, state_simps]:
  "msgque (set_h i h st) = msgque st" "msgh (set_h i h st) = (msgh st)[i := h]"
  "msgfp (set_h i h st) = msgfp st" "mtext (set_h i h st) = mtext st" "mmap (set_h i h st) = mmap st"
  by (simp_all add: set_h_def)

lemma broadcast_simps [simp, state_simps]:
  "msgque (broadcast w st) = msgque st" "msgh (broadcast w st) = msgh st"
  "msgfp (broadcast w st) = msgfp st" "mtext (broadcast w st) = mtext st"
  "mmap (broadcast w st) = mmap st"
  by (simp_all add: broadcast_def)

lemma put_header_simps [simp, state_simps]:
  "msgque (put_header i st) = msgque st"
  "msgh (put_header i st) = (msgh st)[i := (msgh st ! i)\<lparr>msg_next := msgfp st\<rparr>]"
  "msgfp (put_header i st) = Some i" "mtext (put_header i st) = mtext st"
  "mmap (put_header i st) = mmap st"
  by (simp_all add: put_header_def Let_def)

lemma set_mode_simps [simp]:
  "msg_first (set_mode m q) = msg_first q" "msg_last (set_mode m q) = msg_last q"
  "msg_qnum (set_mode m q) = msg_qnum q" "msg_cbytes (set_mode m q) = msg_cbytes q"
  "msg_perm (set_mode m q) = (msg_perm q)\<lparr>ip_mode := m\<rparr>"
  by (simp_all add: set_mode_def)

lemma q_links_mode [simp]: "q_links hs is (set_mode m q) = q_links hs is q"
  by (simp add: q_links_def)


lemma linked_cong:
  assumes "length hs' = length hs" and "\<And>j. j \<in> set is \<Longrightarrow> j < length hs \<Longrightarrow> hs' ! j = hs ! j"
  shows "linked hs' p is = linked hs p is"
  using assms by (induction "is" arbitrary: p) auto

lemma queued_update:
  assumes "x < msgmni mi"
  shows "queued mi (qs(x := is)) = set is \<union> (\<Union>y\<in>{..<msgmni mi} - {x}. set (qs y))"
    and "queued mi qs = set (qs x) \<union> (\<Union>y\<in>{..<msgmni mi} - {x}. set (qs y))"
  using assms by (auto split: if_splits)

text \<open>
  Headers move between one queue and the free list, and only those of the two are written:
  then the other queues are as they were.
\<close>

lemma links_ok_move:
  assumes ok: "links_ok mi st qs fs" and x: "x < msgmni mi"
    and que: "msgque st' = (msgque st)[x := q']" and len: "length (msgh st') = length (msgh st)"
    and ql: "q_links (msgh st') is q'" and fl: "linked (msgh st') (msgfp st') fs'"
    and keep: "\<And>j. j \<notin> set (qs x) \<union> set fs \<Longrightarrow> j < length (msgh st) \<Longrightarrow> msgh st' ! j = msgh st ! j"
    and dist: "distinct (is @ fs')" and sets: "set is \<union> set fs' = set (qs x) \<union> set fs"
  shows "links_ok mi st' (qs(x := is)) fs'"
proof -
  note D = links_okD [OF ok]
  have apart: "set (qs y) \<inter> (set (qs x) \<union> set fs) = {}" if "y < msgmni mi" "y \<noteq> x" for y
    using D(6) [OF that(1)] D(7) [OF that(1) x that(2)] by blast
  have "q_links (msgh st') ((qs(x := is)) y) (msgque st' ! y)" if y: "y < msgmni mi" for y
  proof (cases "y = x")
    case True
    then show ?thesis using ql que x D(1) by simp
  next
    case False
    have "linked (msgh st') p (qs y) = linked (msgh st) p (qs y)" for p
      using keep apart [OF y False] by (intro linked_cong [OF len]) blast
    then show ?thesis
      using D(3) [OF y] False que by (simp add: q_links_def)
  qed
  moreover have "set ((qs(x := is)) y) \<inter> set fs' = {}" if "y < msgmni mi" for y
    using apart [OF that] dist sets by (cases "y = x") auto
  moreover have "set ((qs(x := is)) y) \<inter> set ((qs(x := is)) z) = {}"
    if "y < msgmni mi" "z < msgmni mi" "y \<noteq> z" for y z
    using apart [OF that(1)] apart [OF that(2)] D(7) [OF that] that(3) sets by auto
  moreover have "queued mi (qs(x := is)) \<union> set fs' = {..<msgtql mi}"
    using D(9) sets unfolding queued_update [OF x] by blast
  moreover have "distinct ((qs(x := is)) y)" if "y < msgmni mi" for y
    using D(5) [OF that] dist by simp
  ultimately show ?thesis
    unfolding links_ok_def using D(1,2) que len fl dist by simp
qed

section \<open>Taking a message off its queue\<close>

definition unlinked_q :: "nat option \<Rightarrow> nat option \<Rightarrow> msqid_ds \<Rightarrow> msqid_ds" where
  "unlinked_q pmp nxt q =
     q\<lparr>msg_first := (if pmp = None then nxt else msg_first q),
       msg_last := (if nxt = None then pmp else msg_last q), msg_qnum := usub (msg_qnum q) 1\<rparr>"

lemma set_mode_same: "set_mode (q_mode q) q = q"
  by (simp add: set_mode_def)

lemma msg_unlink_effect:
  fixes pmp :: "nat option"
  assumes "x < length (msgque st)" and "mp < length (msgh st)"
  defines "nxt \<equiv> msg_next (msgh st ! mp)" and "q \<equiv> msgque st ! x" and "st' \<equiv> msg_unlink x pmp mp st"
  shows "\<exists>m. (m = q_mode q \<or> m = q_mode q AND NOT MSG_WWAIT) \<and>
      msgque st' = (msgque st)[x := set_mode m (unlinked_q pmp nxt q)]"
    and "msgh st' = (case pmp of None \<Rightarrow> msgh st | Some p \<Rightarrow> (msgh st)[p := (msgh st ! p)\<lparr>msg_next := nxt\<rparr>])"
    and "msgfp st' = msgfp st" and "mtext st' = mtext st" and "mmap st' = mmap st"
proof -
  let ?m = "if q_mode q AND MSG_WWAIT \<noteq> 0 then q_mode q AND NOT MSG_WWAIT else q_mode q"
  have "msgque st' = (msgque st)[x := set_mode ?m (unlinked_q pmp nxt q)]"
    using assms(1) unfolding st'_def q_def nxt_def msg_unlink_def
    by (cases pmp) (simp_all add: Let_def unlinked_q_def set_mode_def)
  then show "\<exists>m. (m = q_mode q \<or> m = q_mode q AND NOT MSG_WWAIT) \<and>
      msgque st' = (msgque st)[x := set_mode m (unlinked_q pmp nxt q)]"
    by (intro exI [of _ ?m]) simp
qed (simp_all add: st'_def nxt_def msg_unlink_def Let_def split: option.split)

lemma q_links_unlink:
  assumes q: "q_links hs (as @ i # bs) q" and dist: "distinct (as @ i # bs)"
    and small: "length (as @ i # bs) < 2 ^ 32" and pmp: "pmp = last_opt as"
    and hs': "hs' = (case pmp of None \<Rightarrow> hs
       | Some p \<Rightarrow> hs[p := (hs ! p)\<lparr>msg_next := msg_next (hs ! i)\<rparr>])"
  shows "q_links hs' (as @ bs) (unlinked_q pmp (msg_next (hs ! i)) q)"
proof -
  have lk: "linked hs (msg_first q) (as @ i # bs)" and last: "msg_last q = last_opt (as @ i # bs)"
    and num: "msg_qnum q = Suc (length as + length bs)"
    using q by (auto simp: q_links_def)
  have end_iff: "msg_next (hs ! i) = None \<longleftrightarrow> bs = []"
    by (rule linked_last_next [OF lk])
  have n: "usub (msg_qnum q) 1 = length (as @ bs)"
    using num small by simp
  show ?thesis
  proof (cases as rule: rev_cases)
    case Nil
    then show ?thesis
      using lk last end_iff n hs' pmp by (auto simp: q_links_def unlinked_q_def last_opt_def)
  next
    case (snoc as' a)
    then have "linked hs' (msg_first q) (as @ bs)"
      using linked_cut [of hs "msg_first q" as' a i bs] lk dist hs' pmp by simp
    then show ?thesis
      using last end_iff n pmp snoc by (auto simp: q_links_def unlinked_q_def last_opt_def)
  qed
qed


lemma q_links_update [simp]: "j \<notin> set is \<Longrightarrow> q_links (hs[j := h]) is q = q_links hs is q"
  by (simp add: q_links_def)

lemma links_ok_free:
  assumes ok: "links_ok mi st qs fs" and x: "x < msgmni mi" and q: "qs x = as @ i # bs"
    and small: "msgtql mi < 2 ^ 32"
    and st1: "msgque st1 = msgque (msg_unlink x (last_opt as) i st)"
      "msgh st1 = msgh (msg_unlink x (last_opt as) i st)" "msgfp st1 = msgfp st"
  shows "links_ok mi (put_header i st1) (qs(x := as @ bs)) (i # fs)"
proof -
  note D = links_okD [OF ok]
  have i: "i < length (msgh st)"
    by (rule links_ok_header [OF ok x]) (simp add: q)
  have dist: "distinct (as @ i # bs)" and apart: "set (as @ i # bs) \<inter> set fs = {}"
    using D(5,6) [OF x] q by simp_all
  have len: "length (as @ i # bs) < 2 ^ 32"
    using links_ok_length [OF ok x] small q by simp
  have xl: "x < length (msgque st)" using x D(1) by simp
  note E = msg_unlink_effect [OF xl i, of "last_opt as"]
  obtain m where que: "msgque st1 = (msgque st)[x := set_mode m (unlinked_q (last_opt as) (msg_next (msgh st ! i)) (msgque st ! x))]"
    using E(1) st1(1) by auto
  have "q_links (msgh st) (as @ i # bs) (msgque st ! x)"
    using D(3) [OF x] q by simp
  from q_links_unlink [OF this dist len refl E(2)]
  have ql: "q_links (msgh st1) (as @ bs) (unlinked_q (last_opt as) (msg_next (msgh st ! i)) (msgque st ! x))"
    using st1(2) by simp
  have outside: "msgh st1 ! j = msgh st ! j" if "j \<notin> set as" for j
    using that unfolding st1(2) E(2) by (cases as rule: rev_cases) (auto simp: last_opt_def)
  have len1: "length (msgh st1) = length (msgh st)"
    unfolding st1(2) E(2) by (auto split: option.split)
  have free: "linked (msgh st1) (msgfp st) fs"
    using D(4) linked_cong [OF len1] outside apart by (metis Int_iff Un_iff empty_iff set_append)
  show ?thesis
  proof (rule links_ok_move [OF ok x])
    show "msgque (put_header i st1) = (msgque st)[x := set_mode m (unlinked_q (last_opt as) (msg_next (msgh st ! i)) (msgque st ! x))]"
      using que by simp
    show "q_links (msgh (put_header i st1)) (as @ bs) (set_mode m (unlinked_q (last_opt as) (msg_next (msgh st ! i)) (msgque st ! x)))"
      using ql dist by simp
    show "linked (msgh (put_header i st1)) (msgfp (put_header i st1)) (i # fs)"
      using free apart i len1 st1(3) by simp
    show "msgh (put_header i st1) ! j = msgh st ! j" if "j \<notin> set (qs x) \<union> set fs" for j
      using that outside [of j] q by simp
  qed (use q len1 dist apart D(8) in auto)
qed


section \<open>Texts\<close>

text \<open>
  What is asked of the tunables. The limits on \<^verbatim>\<open>msgseg\<close> and \<^verbatim>\<open>msgmax\<close> come from the widths of
  \<^verbatim>\<open>msg_spot\<close> and \<^verbatim>\<open>msg_ts\<close>; the first is documented. The products are bounded by the memory that
  \<open>msg_init\<close> allows.
\<close>

definition info_ok :: "msginfo \<Rightarrow> bool" where
  "info_ok mi \<longleftrightarrow>
     0 < msgmni mi \<and> msgmni mi < 2 ^ 31 \<and> 0 < msgssz mi \<and> msgssz mi < 2 ^ 30 \<and>
     msgseg mi < 32768 \<and> msgmax mi < 65536 \<and> 0 < msgtql mi \<and> msgtql mi < 2 ^ 31 \<and> msgseg mi * msgssz mi < 2 ^ 30"

definition nsegs :: "msginfo \<Rightarrow> nat \<Rightarrow> nat" where
  "nsegs mi n = (n + msgssz mi - 1) div msgssz mi"

lemma nsegs_bounds:
  assumes "info_ok mi"
  shows "n \<le> msgssz mi * nsegs mi n" and "nsegs mi n \<le> n" and "nsegs mi n = 0 \<longleftrightarrow> n = 0"
proof -
  let ?s = "msgssz mi"
  have s: "0 < ?s" using assms by (simp add: info_ok_def)
  let ?m = "(n + ?s - 1) mod ?s"
  have "n + ?s - 1 = ?s * nsegs mi n + ?m" and "?m < ?s"
    using s by (simp_all add: nsegs_def)
  then show le: "n \<le> ?s * nsegs mi n"
    by linarith
  have "n + ?s - 1 < ?s * (n + 1)"
  proof -
    have "n \<le> ?s * n" using s by (cases ?s) auto
    moreover have "?s * (n + 1) = ?s * n + ?s" by simp
    ultimately show ?thesis using s by linarith
  qed
  then have "nsegs mi n < n + 1"
    unfolding nsegs_def by (rule less_mult_imp_div_less [of _ "n + 1" ?s, unfolded mult.commute [of "n + 1"]])
  then show up: "nsegs mi n \<le> n" by simp
  show "nsegs mi n = 0 \<longleftrightarrow> n = 0"
    using le up by auto
qed

lemma btoq_nsegs:
  assumes "info_ok mi" and "n < 65536"
  shows "btoq mi n = Done (nsegs mi n)"
proof -
  let ?s = "int n + int (msgssz mi) - 1"
  have s: "0 < msgssz mi" "msgssz mi < 1073741824"
    using assms(1) by (simp_all add: info_ok_def)
  then have e: "s32 ?s = ?s" and pos: "0 \<le> ?s"
    using assms(2) by simp_all
  have d: "?s div int (msgssz mi) = int (nsegs mi n)"
    using s by (simp add: nsegs_def zdiv_int of_nat_diff)
  have "nsegs mi n < 4294967296"
    using nsegs_bounds(2) [OF assms(1), of n] assms(2) by linarith
  then have "nat (int (nsegs mi n) mod 2 ^ 32) = nsegs mi n"
    by simp
  then show ?thesis
    unfolding btoq_def Let_def e d using s pos by simp
qed

definition hdr_ok :: "msginfo \<Rightarrow> msghdr \<Rightarrow> bool" where
  "hdr_ok mi h \<longleftrightarrow>
     1 \<le> msg_type h \<and> msg_ts h < 65536 \<and>
     (if msg_ts h = 0 then msg_spot h = - 1
      else 0 \<le> msg_spot h \<and> msg_spot h + int (nsegs mi (msg_ts h)) \<le> int (msgseg mi))"

definition segs_of :: "msginfo \<Rightarrow> msghdr \<Rightarrow> nat set" where
  "segs_of mi h = (if msg_ts h = 0 then {} else block (nsegs mi (msg_ts h)) (nat (msg_spot h + 1)))"

definition hdr_text :: "msginfo \<Rightarrow> byte list \<Rightarrow> msghdr \<Rightarrow> byte list" where
  "hdr_text mi t h = take (msg_ts h) (drop (nat (int (msgssz mi) * msg_spot h)) t)"

definition texts_ok :: "msginfo \<Rightarrow> msgst \<Rightarrow> nat set \<Rightarrow> bool" where
  "texts_ok mi st Q \<longleftrightarrow>
     rmap_ok (mmap st) \<and> map_units (mmap st) \<subseteq> {1..msgseg mi} \<and>
     msgseg mi * msgssz mi \<le> length (mtext st) \<and>
     (\<forall>i\<in>Q. hdr_ok mi (msgh st ! i) \<and> segs_of mi (msgh st ! i) \<inter> map_units (mmap st) = {}) \<and>
     (\<forall>i\<in>Q. \<forall>j\<in>Q. i \<noteq> j \<longrightarrow> segs_of mi (msgh st ! i) \<inter> segs_of mi (msgh st ! j) = {})"

lemma texts_okD:
  assumes "texts_ok mi st Q"
  shows "rmap_ok (mmap st)" and "map_units (mmap st) \<subseteq> {1..msgseg mi}"
    and "msgseg mi * msgssz mi \<le> length (mtext st)"
    and "i \<in> Q \<Longrightarrow> hdr_ok mi (msgh st ! i)"
    and "i \<in> Q \<Longrightarrow> segs_of mi (msgh st ! i) \<inter> map_units (mmap st) = {}"
    and "i \<in> Q \<Longrightarrow> j \<in> Q \<Longrightarrow> i \<noteq> j \<Longrightarrow> segs_of mi (msgh st ! i) \<inter> segs_of mi (msgh st ! j) = {}"
  using assms by (simp_all add: texts_ok_def)

text \<open>Links do not matter for the text: only the other three members of a header do.\<close>

definition same_msg :: "msghdr \<Rightarrow> msghdr \<Rightarrow> bool" where
  "same_msg h h' \<longleftrightarrow> msg_type h' = msg_type h \<and> msg_ts h' = msg_ts h \<and> msg_spot h' = msg_spot h"

lemma same_msgD:
  assumes "same_msg h h'"
  shows "hdr_ok mi h' = hdr_ok mi h" and "segs_of mi h' = segs_of mi h"
    and "hdr_text mi t h' = hdr_text mi t h" and "msg_type h' = msg_type h" and "msg_ts h' = msg_ts h"
  using assms by (simp_all add: same_msg_def hdr_ok_def segs_of_def hdr_text_def)

lemma same_msg_simps [simp]: "same_msg h h" "same_msg h (h'\<lparr>msg_next := n\<rparr>) = same_msg h h'"
  by (simp_all add: same_msg_def)

lemma same_msg_update [simp]:
  "same_msg h ((hs[p := (hs ! p)\<lparr>msg_next := n\<rparr>]) ! i) = same_msg h (hs ! i)"
  by (cases "i = p"; cases "p < length hs") (simp_all add: same_msg_def list_update_beyond)

lemma hdr_block:
  assumes "info_ok mi" and "hdr_ok mi h" and "msg_ts h \<noteq> 0"
  shows "good_block (nsegs mi (msg_ts h)) (nat (msg_spot h + 1))"
    and "nat ((msg_spot h + 1) mod 2 ^ 32) = nat (msg_spot h + 1)"
    and "btoq mi (msg_ts h) = Done (nsegs mi (msg_ts h))"
    and "segs_of mi h \<subseteq> {1..msgseg mi}"
proof -
  have ts: "msg_ts h < 65536" and spot: "0 \<le> msg_spot h"
    and fits: "msg_spot h + int (nsegs mi (msg_ts h)) \<le> int (msgseg mi)"
    using assms(2,3) by (simp_all add: hdr_ok_def)
  have seg: "msgseg mi < 32768"
    using assms(1) by (simp add: info_ok_def)
  have pos: "0 < nsegs mi (msg_ts h)"
    using nsegs_bounds(3) [OF assms(1), of "msg_ts h"] assms(3) by simp
  show "good_block (nsegs mi (msg_ts h)) (nat (msg_spot h + 1))"
    using spot fits seg pos by (simp add: good_block_def ssize_nonpos_def nat_add_distrib)
  show "nat ((msg_spot h + 1) mod 2 ^ 32) = nat (msg_spot h + 1)"
    using spot fits seg pos by simp
  show "btoq mi (msg_ts h) = Done (nsegs mi (msg_ts h))"
    by (rule btoq_nsegs [OF assms(1) ts])
  show "segs_of mi h \<subseteq> {1..msgseg mi}"
    using spot fits by (auto simp: segs_of_def block_def nat_add_distrib)
qed

text \<open>The text of a message is given back.\<close>

lemma free_text_ok:
  assumes "info_ok mi" and "hdr_ok mi h" and "rmap_ok (mmap st)"
    and "segs_of mi h \<inter> map_units (mmap st) = {}" and "msg_ts h \<noteq> 0"
  obtains m where "free_text mi (msg_ts h) (msg_spot h + 1) st = Done (st\<lparr>mmap := m\<rparr>)"
    and "rmap_ok m" and "map_units m \<subseteq> map_units (mmap st) \<union> segs_of mi h"
proof -
  note B = hdr_block [OF assms(1,2,5)]
  have "block (nsegs mi (msg_ts h)) (nat (msg_spot h + 1)) \<inter> map_units (mmap st) = {}"
    using assms(4,5) by (simp add: segs_of_def)
  from rm.release_total [OF assms(3) B(1) this] obtain m where
    m: "rmfree (mmap st) (nsegs mi (msg_ts h)) (nat (msg_spot h + 1)) = Done m" "rmap_ok m"
      "map_units m \<subseteq> map_units (mmap st) \<union> segs_of mi h"
    using assms(5) by (auto simp: segs_of_def)
  then show ?thesis
    using that B(2,3) by (simp add: free_text_def)
qed

lemma texts_ok_release:
  assumes ok: "texts_ok mi st Q" and info: "info_ok mi" and i: "i \<in> Q"
    and same: "\<And>j. same_msg (msgh st ! j) (msgh st' ! j)" and tx: "mtext st' = mtext st"
    and m: "rmap_ok (mmap st')" "map_units (mmap st') \<subseteq> map_units (mmap st) \<union> segs_of mi (msgh st ! i)"
  shows "texts_ok mi st' (Q - {i})"
proof -
  note T = texts_okD [OF ok]
  note S = same_msgD [OF same]
  have "segs_of mi (msgh st ! i) \<subseteq> {1..msgseg mi}"
    using hdr_block(4) [OF info T(4) [OF i]] by (cases "msg_ts (msgh st ! i) = 0") (simp_all add: segs_of_def)
  then have "map_units (mmap st') \<subseteq> {1..msgseg mi}"
    using m(2) T(2) by blast
  moreover have "segs_of mi (msgh st ! j) \<inter> map_units (mmap st') = {}" if "j \<in> Q - {i}" for j
    using m(2) T(5) [of j] T(6) [of j i] i that by blast
  ultimately show ?thesis
    unfolding texts_ok_def using T(3,4,6) m(1) by (simp add: S tx)
qed


section \<open>Permissions and identifiers\<close>

definition same_perm :: "ipc_perm \<Rightarrow> ipc_perm \<Rightarrow> bool" where
  "same_perm p p' \<longleftrightarrow> ipc_allocated p' = ipc_allocated p \<and> ip_key p' = ip_key p \<and> ip_seq p' = ip_seq p"

definition perms_ok :: "msginfo \<Rightarrow> msgst \<Rightarrow> (nat \<Rightarrow> nat list) \<Rightarrow> bool" where
  "perms_ok mi st qs \<longleftrightarrow>
     keys_ok (map msg_perm (msgque st)) \<and>
     (\<forall>x<msgmni mi. (\<not> ipc_allocated (msg_perm (msgque st ! x)) \<longrightarrow> qs x = []) \<and>
        ip_seq (msg_perm (msgque st ! x)) * msgmni mi + x < 2147483648)"

lemma same_perm_refl [simp]: "same_perm p p"
  by (simp add: same_perm_def)

lemma same_perm_modes:
  "same_perm p (p\<lparr>ip_mode := ip_mode p AND NOT MSG_WWAIT\<rparr>)"
  "same_perm p (p\<lparr>ip_mode := ip_mode p AND NOT MSG_RWAIT\<rparr>)"
  "same_perm p (p\<lparr>ip_mode := ip_mode p OR MSG_WWAIT\<rparr>)"
  "same_perm p (p\<lparr>ip_mode := ip_mode p OR MSG_RWAIT\<rparr>)"
  "same_perm p (p\<lparr>ip_uid := u, ip_gid := g, ip_mode := ip_mode p AND NOT PERM_BITS OR m AND PERM_BITS\<rparr>)"
proof -
  have a: "NOT MSG_WWAIT AND IPC_ALLOC = IPC_ALLOC" "NOT MSG_RWAIT AND IPC_ALLOC = IPC_ALLOC"
    "MSG_WWAIT AND IPC_ALLOC = 0" "MSG_RWAIT AND IPC_ALLOC = 0"
    "NOT PERM_BITS AND IPC_ALLOC = IPC_ALLOC" "PERM_BITS AND IPC_ALLOC = 0"
    by (simp_all add: MSG_WWAIT_def MSG_RWAIT_def PERM_BITS_def IPC_ALLOC_def)
  then have "(m AND NOT MSG_WWAIT) AND IPC_ALLOC = m AND IPC_ALLOC"
    "(m AND NOT MSG_RWAIT) AND IPC_ALLOC = m AND IPC_ALLOC"
    "(m OR MSG_WWAIT) AND IPC_ALLOC = m AND IPC_ALLOC" "(m OR MSG_RWAIT) AND IPC_ALLOC = m AND IPC_ALLOC"
    "(m AND NOT PERM_BITS OR m' AND PERM_BITS) AND IPC_ALLOC = m AND IPC_ALLOC" for m m' :: "32 word"
    by (simp_all add: and.assoc bit.conj_disj_distrib2)
  then show "same_perm p (p\<lparr>ip_mode := ip_mode p AND NOT MSG_WWAIT\<rparr>)"
    "same_perm p (p\<lparr>ip_mode := ip_mode p AND NOT MSG_RWAIT\<rparr>)"
    "same_perm p (p\<lparr>ip_mode := ip_mode p OR MSG_WWAIT\<rparr>)"
    "same_perm p (p\<lparr>ip_mode := ip_mode p OR MSG_RWAIT\<rparr>)"
    "same_perm p (p\<lparr>ip_uid := u, ip_gid := g, ip_mode := ip_mode p AND NOT PERM_BITS OR m AND PERM_BITS\<rparr>)"
    by (simp_all add: same_perm_def ipc_allocated_def)
qed

lemma perms_ok_update:
  assumes ok: "perms_ok mi st qs" and len: "length (msgque st) = msgmni mi"
    and que: "msgque st' = (msgque st)[x := q']" and x: "x < msgmni mi"
    and p: "same_perm (msg_perm (msgque st ! x)) (msg_perm q')"
    and used: "\<And>y. y < msgmni mi \<Longrightarrow> qs y = [] \<Longrightarrow> \<not> ipc_allocated (msg_perm (msgque st ! y)) \<Longrightarrow> qs' y = []"
  shows "perms_ok mi st' qs'"
proof -
  have same: "same_perm (msg_perm (msgque st ! y)) (msg_perm (msgque st' ! y))" if "y < msgmni mi" for y
    using that p que len by (cases "y = x") simp_all
  have "keys_ok (map msg_perm (msgque st'))"
    by (rule keys_ok_cong [of _ "map msg_perm (msgque st)"])
      (use ok same len que in \<open>auto simp: perms_ok_def same_perm_def\<close>)
  then show ?thesis
    using ok same used by (simp add: perms_ok_def same_perm_def)
qed

section \<open>The queues of messages that a state stands for\<close>

definition msg_rep :: "msginfo \<Rightarrow> msgst \<Rightarrow> (nat \<Rightarrow> nat list) \<Rightarrow> nat list \<Rightarrow> bool" where
  "msg_rep mi st qs fs \<longleftrightarrow> links_ok mi st qs fs \<and> texts_ok mi st (queued mi qs) \<and> perms_ok mi st qs"

definition bytes_ok :: "msginfo \<Rightarrow> msgst \<Rightarrow> (nat \<Rightarrow> nat list) \<Rightarrow> bool" where
  "bytes_ok mi st qs \<longleftrightarrow>
     (\<forall>x<msgmni mi. msg_cbytes (msgque st ! x) = (\<Sum>i\<leftarrow>qs x. msg_ts (msgh st ! i)))"

definition msg_ok :: "msginfo \<Rightarrow> msgst \<Rightarrow> bool" where
  "msg_ok mi st \<longleftrightarrow> (\<exists>qs fs. msg_rep mi st qs fs \<and> bytes_ok mi st qs)"

definition message :: "msginfo \<Rightarrow> msgst \<Rightarrow> nat \<Rightarrow> int \<times> byte list" where
  "message mi st i = (msg_type (msgh st ! i), hdr_text mi (mtext st) (msgh st ! i))"

definition messages :: "msginfo \<Rightarrow> msgst \<Rightarrow> nat \<Rightarrow> (int \<times> byte list) list" where
  "messages mi st x =
     map (message mi st) (chain (msgh st) (length (msgh st)) (msg_first (msgque st ! x)))"

lemma messages_rep:
  assumes "links_ok mi st qs fs" and "x < msgmni mi"
  shows "messages mi st x = map (message mi st) (qs x)"
proof -
  have "chain (msgh st) (length (msgh st)) (msg_first (msgque st ! x)) = qs x"
    using links_okD(2) [OF assms(1)] links_okD(3) [OF assms] links_ok_length [OF assms]
    by (intro linked_chain) (auto simp: q_links_def)
  then show ?thesis by (simp add: messages_def)
qed

lemma message_same:
  assumes "same_msg (msgh st ! i) (msgh st' ! i)" and "mtext st' = mtext st"
  shows "message mi st' i = message mi st i"
  using same_msgD [OF assms(1)] assms(2) by (simp add: message_def)

lemma msg_repD:
  assumes "msg_rep mi st qs fs"
  shows "links_ok mi st qs fs" and "texts_ok mi st (queued mi qs)" and "perms_ok mi st qs"
  using assms by (simp_all add: msg_rep_def)

text \<open>\<open>msgfree\<close> takes one message off its queue; its header and its segments become free.\<close>

lemma queued_remove:
  assumes "links_ok mi st qs fs" and "x < msgmni mi" and "qs x = as @ i # bs"
  shows "queued mi (qs(x := as @ bs)) = queued mi qs - {i}"
proof -
  have "i \<notin> set (as @ bs)" using links_okD(5) [OF assms(1,2)] assms(3) by simp
  moreover have "i \<notin> (\<Union>y\<in>{..<msgmni mi} - {x}. set (qs y))"
    using links_okD(7) [OF assms(1,2)] assms(2,3) by fastforce
  ultimately show ?thesis
    unfolding queued_update [OF assms(2)] assms(3) by auto
qed

lemma msgfree_done:
  assumes rep: "msg_rep mi st qs fs" and info: "info_ok mi" and x: "x < msgmni mi"
    and q: "qs x = as @ i # bs"
  obtains st' m where "msgfree mi x (last_opt as) i st = Done st'"
    and "msg_rep mi st' (qs(x := as @ bs)) (i # fs)"
    and "\<And>j. same_msg (msgh st ! j) (msgh st' ! j)" and "mtext st' = mtext st"
    and "msgque st' = (msgque st)[x := set_mode m (unlinked_q (last_opt as) (msg_next (msgh st ! i)) (msgque st ! x))]"
    and "same_perm (msg_perm (msgque st ! x)) (msg_perm (msgque st' ! x))"
proof -
  note L = msg_repD(1) [OF rep] and T = msg_repD(2) [OF rep] and P = msg_repD(3) [OF rep]
  let ?u = "msg_unlink x (last_opt as) i st" and ?h = "msgh st ! i"
  have i: "i < length (msgh st)"
    using links_ok_header [OF L x] q by simp
  have iq: "i \<in> queued mi qs"
    by (rule UN_I [of x]) (simp_all add: x q)
  have xl: "x < length (msgque st)" using x links_okD(1) [OF L] by simp
  note E = msg_unlink_effect [OF xl i, of "last_opt as"]
  obtain m where m: "m = q_mode (msgque st ! x) \<or> m = q_mode (msgque st ! x) AND NOT MSG_WWAIT"
    and que: "msgque ?u = (msgque st)[x := set_mode m (unlinked_q (last_opt as) (msg_next ?h) (msgque st ! x))]"
    using E(1) by auto
  have pred: "\<not> (case last_opt as of None \<Rightarrow> False | Some p \<Rightarrow> length (msgh st) \<le> p)"
    using links_ok_header [OF L x] q by (auto simp: last_opt_def not_le)
  have same: "same_msg (msgh st ! j) (msgh ?u ! j)" for j
    unfolding E(2) by (simp split: option.split)
  obtain mm where run: "(if msg_ts ?h \<noteq> 0 then free_text mi (msg_ts ?h) (msg_spot ?h + 1) ?u else Done ?u)
        = Done (?u\<lparr>mmap := mm\<rparr>)"
    and mm: "rmap_ok mm" "map_units mm \<subseteq> map_units (mmap st) \<union> segs_of mi ?h"
  proof (cases "msg_ts ?h = 0")
    case True
    have "?u = ?u\<lparr>mmap := mmap ?u\<rparr>" by simp
    then show ?thesis
      using that [of "mmap st"] True texts_okD(1) [OF T] E(5) by simp
  next
    case False
    show ?thesis
      by (rule free_text_ok [OF info texts_okD(4) [OF T iq], of ?u])
        (use that False texts_okD(1) [OF T] texts_okD(5) [OF T iq] E(5) in auto)
  qed
  let ?st' = "put_header i (?u\<lparr>mmap := mm\<rparr>)"
  have "links_ok mi ?st' (qs(x := as @ bs)) (i # fs)"
    using E(3) info by (intro links_ok_free [OF L x q]) (simp_all add: info_ok_def)
  moreover have "texts_ok mi ?st' (queued mi (qs(x := as @ bs)))"
    unfolding queued_remove [OF L x q] using same mm E(4)
    by (intro texts_ok_release [OF T info iq]) simp_all
  moreover have perm: "same_perm (msg_perm (msgque st ! x))
      (msg_perm (set_mode m (unlinked_q (last_opt as) (msg_next ?h) (msgque st ! x))))"
    using m same_perm_modes(1) by (auto simp: unlinked_q_def)
  moreover have "perms_ok mi ?st' (qs(x := as @ bs))"
    by (rule perms_ok_update [OF P links_okD(1) [OF L] _ x perm]) (use que q in auto)
  ultimately have "msg_rep mi ?st' (qs(x := as @ bs)) (i # fs)"
    by (simp add: msg_rep_def)
  moreover have "msgfree mi x (last_opt as) i st = Done ?st'"
    using i pred run by (simp add: msgfree_def Let_def)
  ultimately show ?thesis
    using that [of ?st' m] same E(4) que xl perm by simp
qed


section \<open>Choosing a message\<close>

text \<open>
  Which types a receiver's argument admits, and which of those it prefers: any message, one of a
  given type, or one of a type up to the argument's magnitude, the lowest first. The negation
  is that of a \<^verbatim>\<open>long\<close>.
\<close>

definition eligible :: "int \<Rightarrow> int \<Rightarrow> bool" where
  "eligible mtyp t \<longleftrightarrow> mtyp = 0 \<or> 0 < mtyp \<and> t = mtyp \<or> mtyp < 0 \<and> t \<le> s32 (- mtyp)"

definition rank :: "int \<Rightarrow> int \<Rightarrow> int" where
  "rank mtyp t = (if mtyp < 0 then t else 0)"

text \<open>Position \<open>k\<close> holds the first of the best messages.\<close>

definition picks :: "int \<Rightarrow> int list \<Rightarrow> nat \<Rightarrow> bool" where
  "picks mtyp ts k \<longleftrightarrow>
     k < length ts \<and> eligible mtyp (ts ! k) \<and>
     (\<forall>j<length ts. eligible mtyp (ts ! j) \<longrightarrow>
        rank mtyp (ts ! k) \<le> rank mtyp (ts ! j) \<and> (j < k \<longrightarrow> rank mtyp (ts ! k) < rank mtyp (ts ! j)))"

definition best_at :: "int \<Rightarrow> msghdr list \<Rightarrow> nat list \<Rightarrow> nat option \<times> nat option \<Rightarrow> bool" where
  "best_at mtyp hs is r \<longleftrightarrow>
     r = (None, None) \<and> (\<forall>i\<in>set is. \<not> eligible mtyp (msg_type (hs ! i))) \<or>
     (\<exists>as i bs. is = as @ i # bs \<and> r = (last_opt as, Some i) \<and> eligible mtyp (msg_type (hs ! i)) \<and>
        (\<forall>j\<in>set as. eligible mtyp (msg_type (hs ! j)) \<longrightarrow>
           rank mtyp (msg_type (hs ! i)) < rank mtyp (msg_type (hs ! j))) \<and>
        (\<forall>j\<in>set bs. eligible mtyp (msg_type (hs ! j)) \<longrightarrow>
           rank mtyp (msg_type (hs ! i)) \<le> rank mtyp (msg_type (hs ! j))))"

lemma best_at_skip:
  assumes "best_at mtyp hs pre (s, b)"
    and "eligible mtyp (msg_type (hs ! i)) \<Longrightarrow>
      \<exists>j. b = Some j \<and> rank mtyp (msg_type (hs ! j)) \<le> rank mtyp (msg_type (hs ! i))"
  shows "best_at mtyp hs (pre @ [i]) (s, b)"
proof (cases b)
  case None
  then show ?thesis using assms by (auto simp: best_at_def)
next
  case (Some j)
  with assms(1) obtain as bs where "pre = as @ j # bs" "s = last_opt as" "eligible mtyp (msg_type (hs ! j))"
    "\<forall>k\<in>set as. eligible mtyp (msg_type (hs ! k)) \<longrightarrow> rank mtyp (msg_type (hs ! j)) < rank mtyp (msg_type (hs ! k))"
    "\<forall>k\<in>set bs. eligible mtyp (msg_type (hs ! k)) \<longrightarrow> rank mtyp (msg_type (hs ! j)) \<le> rank mtyp (msg_type (hs ! k))"
    by (auto simp: best_at_def)
  then show ?thesis
    unfolding best_at_def using assms(2) Some
    by (intro disjI2 exI [of _ as] exI [of _ j] exI [of _ "bs @ [i]"]) auto
qed

lemma best_at_new:
  assumes "best_at mtyp hs pre (s, b)" and "eligible mtyp (msg_type (hs ! i))"
    and "\<And>j. b = Some j \<Longrightarrow> rank mtyp (msg_type (hs ! i)) < rank mtyp (msg_type (hs ! j))"
  shows "best_at mtyp hs (pre @ [i]) (last_opt pre, Some i)"
proof -
  have "\<forall>k\<in>set pre. eligible mtyp (msg_type (hs ! k)) \<longrightarrow> rank mtyp (msg_type (hs ! i)) < rank mtyp (msg_type (hs ! k))"
    using assms(1,3) unfolding best_at_def by fastforce
  then show ?thesis
    unfolding best_at_def using assms(2)
    by (intro disjI2 exI [of _ pre] exI [of _ i] exI [of _ "[]"]) simp
qed

lemma best_at_more:
  assumes "best_at mtyp hs pre (s, Some i)" and "0 < mtyp"
  shows "best_at mtyp hs (pre @ is) (s, Some i)"
  using assms by (induction "is" rule: rev_induct)
    (auto simp del: append_assoc simp: append_assoc [symmetric] rank_def intro: best_at_skip)

lemma findmsg_loop_best:
  assumes "mtyp \<noteq> 0" and "linked hs mp is" and "best_at mtyp hs pre (spmp, smp)"
    and "0 < mtyp \<Longrightarrow> smp = None"
  shows "\<exists>r. findmsg_loop mtyp hs (last_opt pre) mp spmp smp = Some (Done r) \<and> best_at mtyp hs (pre @ is) r"
  using assms(2-4)
proof (induction "is" arbitrary: mp pre spmp smp)
  case Nil
  then show ?case by (simp add: findmsg_loop.simps)
next
  case (Cons i "is")
  let ?t = "msg_type (hs ! i)"
  have mp: "mp = Some i" "i < length hs" and rest: "linked hs (msg_next (hs ! i)) is"
    using Cons.prems(1) by auto
  have go: "\<exists>r. findmsg_loop mtyp hs mp (msg_next (hs ! i)) s b = Some (Done r) \<and> best_at mtyp hs (pre @ i # is) r"
    if "best_at mtyp hs (pre @ [i]) (s, b)" "0 < mtyp \<Longrightarrow> b = None" for s b
    using Cons.IH [OF rest that] mp(1) by simp
  consider (other) "0 < mtyp" "?t \<noteq> mtyp" | (hit) "0 < mtyp" "?t = mtyp"
    | (over) "mtyp < 0" "s32 (- mtyp) < ?t"
    | (worse) j where "mtyp < 0" "?t \<le> s32 (- mtyp)" "smp = Some j" "msg_type (hs ! j) \<le> ?t"
    | (better) "mtyp < 0" "?t \<le> s32 (- mtyp)" "\<And>j. smp = Some j \<Longrightarrow> ?t < msg_type (hs ! j)"
    using assms(1) by (cases smp) (fastforce simp: not_le)+
  then show ?case
  proof cases
    case other
    then have "best_at mtyp hs (pre @ [i]) (spmp, smp)"
      by (intro best_at_skip [OF Cons.prems(2)]) (simp add: eligible_def)
    from go [OF this Cons.prems(3)] show ?thesis
      using mp other by (subst findmsg_loop.simps) simp
  next
    case hit
    then have "best_at mtyp hs (pre @ [i]) (last_opt pre, Some i)"
      using Cons.prems(3) by (intro best_at_new [OF Cons.prems(2)]) (auto simp: eligible_def)
    from best_at_more [OF this hit(1), of "is"] show ?thesis
      using mp hit by (subst findmsg_loop.simps) simp
  next
    case over
    then have "best_at mtyp hs (pre @ [i]) (spmp, smp)"
      by (intro best_at_skip [OF Cons.prems(2)]) (simp add: eligible_def)
    from go [OF this Cons.prems(3)] show ?thesis
      using mp over by (subst findmsg_loop.simps) simp
  next
    case worse
    then have "best_at mtyp hs (pre @ [i]) (spmp, smp)"
      by (intro best_at_skip [OF Cons.prems(2)]) (simp add: rank_def)
    from go [OF this Cons.prems(3)] show ?thesis
      using mp worse by (subst findmsg_loop.simps) simp
  next
    case better
    then have "best_at mtyp hs (pre @ [i]) (last_opt pre, Some i)"
      by (intro best_at_new [OF Cons.prems(2)]) (simp_all add: eligible_def rank_def)
    from go [OF this] better show ?thesis
      using mp by (subst findmsg_loop.simps) (auto split: option.split)
  qed
qed

text \<open>In terms of positions.\<close>

lemma best_at_picks:
  assumes "best_at mtyp hs is (s, Some i)"
  obtains as bs where "is = as @ i # bs" and "s = last_opt as"
    and "picks mtyp (map (\<lambda>i. msg_type (hs ! i)) is) (length as)"
proof -
  from assms obtain as bs where sp: "is = as @ i # bs" "s = last_opt as"
    and b: "eligible mtyp (msg_type (hs ! i))"
      "\<forall>j\<in>set as. eligible mtyp (msg_type (hs ! j)) \<longrightarrow> rank mtyp (msg_type (hs ! i)) < rank mtyp (msg_type (hs ! j))"
      "\<forall>j\<in>set bs. eligible mtyp (msg_type (hs ! j)) \<longrightarrow> rank mtyp (msg_type (hs ! i)) \<le> rank mtyp (msg_type (hs ! j))"
    by (auto simp: best_at_def)
  let ?ts = "map (\<lambda>i. msg_type (hs ! i)) is"
  have at: "?ts ! length as = msg_type (hs ! i)"
    using sp(1) by (simp add: nth_append)
  have "rank mtyp (?ts ! length as) \<le> rank mtyp (?ts ! j) \<and>
      (j < length as \<longrightarrow> rank mtyp (?ts ! length as) < rank mtyp (?ts ! j))"
    if j: "j < length ?ts" and e: "eligible mtyp (?ts ! j)" for j
  proof -
    consider "j < length as" | "j = length as" | k where "j = Suc (length as + k)" "k < length bs"
      using j sp(1) less_imp_Suc_add [of "length as" j] by (fastforce simp: not_less)
    then show ?thesis
    proof cases
      case 1
      then have "as ! j \<in> set as" and "?ts ! j = msg_type (hs ! (as ! j))"
        using sp(1) by (simp_all add: nth_append)
      then have "rank mtyp (msg_type (hs ! i)) < rank mtyp (?ts ! j)"
        using b(2) e by metis
      then show ?thesis using at by simp
    next
      case 3
      then have "bs ! k \<in> set bs" and "?ts ! j = msg_type (hs ! (bs ! k))"
        using sp(1) by (simp_all add: nth_append)
      then have "rank mtyp (msg_type (hs ! i)) \<le> rank mtyp (?ts ! j)"
        using b(3) e by metis
      then show ?thesis using at 3 by simp
    qed simp
  qed
  moreover have "length as < length ?ts" and "eligible mtyp (?ts ! length as)"
    using b(1) at sp(1) by simp_all
  ultimately have "picks mtyp ?ts (length as)"
    unfolding picks_def by blast
  with sp that show ?thesis by blast
qed


section \<open>Receiving\<close>

lemma bytes_bound:
  assumes L: "links_ok mi st qs fs" and T: "texts_ok mi st (queued mi qs)" and info: "info_ok mi"
    and x: "x < msgmni mi"
  shows "(\<Sum>i\<leftarrow>qs x. msg_ts (msgh st ! i)) \<le> msgseg mi * msgssz mi"
proof -
  let ?S = "\<lambda>i. segs_of mi (msgh st ! i)"
  have sub: "i \<in> queued mi qs" if "i \<in> set (qs x)" for i
    using that x by blast
  have card: "card (?S i) = nsegs mi (msg_ts (msgh st ! i))" for i
    using nsegs_bounds(3) [OF info, of 0] by (simp add: segs_of_def block_def)
  have fin: "finite (?S i)" for i
    by (simp add: segs_of_def block_def)
  have inside: "?S i \<subseteq> {1..msgseg mi}" if "i \<in> set (qs x)" for i
    using hdr_block(4) [OF info texts_okD(4) [OF T sub [OF that]]]
    by (cases "msg_ts (msgh st ! i) = 0") (simp_all add: segs_of_def)
  have "(\<Sum>i\<leftarrow>qs x. msg_ts (msgh st ! i)) = (\<Sum>i\<in>set (qs x). msg_ts (msgh st ! i))"
    using links_okD(5) [OF L x] by (simp add: sum_list_distinct_conv_sum_set)
  also have "\<dots> \<le> (\<Sum>i\<in>set (qs x). msgssz mi * card (?S i))"
    unfolding card by (intro sum_mono nsegs_bounds(1) [OF info])
  also have "\<dots> = msgssz mi * card (\<Union>i\<in>set (qs x). ?S i)"
    using texts_okD(6) [OF T] sub fin
    by (subst card_UN_disjoint) (auto simp: sum_distrib_left)
  also have "card (\<Union>i\<in>set (qs x). ?S i) \<le> card {1..msgseg mi}"
    using inside by (intro card_mono) auto
  finally show ?thesis
    by (simp add: mult.commute)
qed

lemma text_read_ok:
  assumes info: "info_ok mi" and h: "hdr_ok mi h" and len: "msgseg mi * msgssz mi \<le> length (mtext st)"
    and n: "n \<le> msg_ts h" and ts: "msg_ts h \<noteq> 0"
  shows "text_read mi (msg_spot h) n st = Done (take n (hdr_text mi (mtext st) h))"
    and "length (hdr_text mi (mtext st) h) = msg_ts h"
proof -
  let ?z = "msgssz mi"
  obtain s where s: "msg_spot h = int s" and fit: "s + nsegs mi (msg_ts h) \<le> msgseg mi"
    using h ts zero_le_imp_eq_int [of "msg_spot h"] by (auto simp: hdr_ok_def)
  have "?z * s + msg_ts h \<le> ?z * s + ?z * nsegs mi (msg_ts h)"
    using nsegs_bounds(1) [OF info] by simp
  also have "\<dots> \<le> ?z * msgseg mi"
    unfolding add_mult_distrib2 [symmetric] by (rule mult_le_mono2 [OF fit])
  finally have "?z * s + msg_ts h \<le> length (mtext st)"
    using len by (simp add: mult.commute)
  moreover have "nat (int ?z * int s) = ?z * s"
    by (simp add: nat_mult_distrib)
  moreover have "int ?z * int s = int (?z * s)" by simp
  ultimately show "text_read mi (msg_spot h) n st = Done (take n (hdr_text mi (mtext st) h))"
    and "length (hdr_text mi (mtext st) h) = msg_ts h"
    using n unfolding text_read_def hdr_text_def s Let_def
    by (auto simp: min_def simp del: of_nat_mult)
qed


text \<open>A change of a queue that touches neither its list nor its name.\<close>

lemma msg_rep_set_q:
  assumes rep: "msg_rep mi st qs fs" and x: "x < msgmni mi"
    and q: "msg_first q' = msg_first (msgque st ! x)" "msg_last q' = msg_last (msgque st ! x)"
      "msg_qnum q' = msg_qnum (msgque st ! x)" "same_perm (msg_perm (msgque st ! x)) (msg_perm q')"
    and st': "msgque st' = (msgque st)[x := q']" "msgh st' = msgh st" "msgfp st' = msgfp st"
      "mtext st' = mtext st" "mmap st' = mmap st"
  shows "msg_rep mi st' qs fs"
proof -
  note L = msg_repD(1) [OF rep] and T = msg_repD(2) [OF rep] and P = msg_repD(3) [OF rep]
  have "q_links (msgh st) (qs x) q'"
    using links_okD(3) [OF L x] q by (simp add: q_links_def)
  then have "links_ok mi st' (qs(x := qs x)) fs"
    using links_okD [OF L] st' x by (intro links_ok_move [OF L x st'(1)]) simp_all
  moreover have "texts_ok mi st' (queued mi qs)"
    using T st' by (simp add: texts_ok_def)
  moreover have "perms_ok mi st' qs"
    by (rule perms_ok_update [OF P links_okD(1) [OF L] st'(1) x q(4)])
  ultimately show ?thesis by (simp add: msg_rep_def)
qed

definition sized :: "msgrcv_args \<Rightarrow> bool" where
  "sized r \<longleftrightarrow> 0 \<le> ra_sz r \<and> ra_sz r < 2 ^ 31"

lemma message_text:
  assumes "info_ok mi" and "texts_ok mi st (queued mi qs)" and "x < msgmni mi" and "i \<in> set (qs x)"
  shows "length (snd (message mi st i)) = msg_ts (msgh st ! i)"
proof -
  have "i \<in> queued mi qs" using assms(3,4) by blast
  with text_read_ok(2) [OF assms(1) texts_okD(4) [OF assms(2)] texts_okD(3) [OF assms(2)], of i 0] show ?thesis
    by (cases "msg_ts (msgh st ! i) = 0") (simp_all add: message_def hdr_text_def)
qed

lemma msgrcv_take_done:
  assumes rep: "msg_rep mi st qs fs" and bytes: "bytes_ok mi st qs" and info: "info_ok mi"
    and x: "x < msgmni mi" and q: "qs x = as @ i # bs" and r: "sized r"
  defines "full \<equiv> snd (message mi st i)"
  obtains (refused) e where "msgrcv_take mi ca r x (last_opt as) i st = Done (Rcv_err e, st)"
      and "e = E2BIG \<and> ra_sz r < int (length full) \<and> ra_flg r AND MSG_NOERROR = 0
         \<or> e = EFAULT \<and> \<not> (ra_type_ok r \<and> ra_text_ok r)"
    | (taken) st' where
      "msgrcv_take mi ca r x (last_opt as) i st
         = Done (Rcv_msg (fst (message mi st i)) (take (nat (ra_sz r)) full), st')"
      and "msg_rep mi st' (qs(x := as @ bs)) (i # fs)" and "bytes_ok mi st' (qs(x := as @ bs))"
      and "\<And>j. message mi st' j = message mi st j"
      and "int (length full) \<le> ra_sz r \<or> ra_flg r AND MSG_NOERROR \<noteq> 0"
proof -
  note L = msg_repD(1) [OF rep] and T = msg_repD(2) [OF rep]
  let ?h = "msgh st ! i" and ?n = "nat (ra_sz r)"
  have iq: "i \<in> queued mi qs"
    by (rule UN_I [of x]) (simp_all add: x q)
  have i: "i < length (msgh st)"
    using links_ok_header [OF L x] q by simp
  have full: "length full = msg_ts ?h"
    unfolding full_def by (rule message_text [OF info T x]) (simp add: q)
  have sz: "as_unsigned (ra_sz r) = ra_sz r"
    using r by (simp add: as_unsigned_def sized_def)
  have le: "ra_sz r < int (msg_ts ?h) \<longleftrightarrow> ?n < msg_ts ?h"
    using r by (auto simp: sized_def)
  define n where "n = (if ?n < msg_ts ?h then ?n else msg_ts ?h)"
  have read: "(if n = 0 then Done [] else text_read mi (msg_spot ?h) n st) = Done (take ?n full)"
  proof (cases "n = 0")
    case True
    then have "take ?n full = []" using full by (auto simp: n_def split: if_splits)
    then show ?thesis using True by simp
  next
    case False
    then have "text_read mi (msg_spot ?h) n st = Done (take n full)"
      using text_read_ok(1) [OF info texts_okD(4) [OF T iq] texts_okD(3) [OF T], of n]
      by (auto simp: n_def full_def message_def)
    moreover have "take n full = take ?n full"
      using full by (simp add: n_def)
    ultimately show ?thesis using False by simp
  qed
  define q1 where "q1 = (msgque st ! x)\<lparr>msg_cbytes := usub (msg_cbytes (msgque st ! x)) (msg_ts ?h),
                          msg_lrpid := ca_pid ca, msg_rtime := ca_now ca\<rparr>"
  let ?st1 = "set_q x q1 st"
  have rep1: "msg_rep mi ?st1 qs fs"
    by (rule msg_rep_set_q [OF rep x]) (simp_all add: q1_def)
  obtain st' m where free: "msgfree mi x (last_opt as) i ?st1 = Done st'"
    and rep': "msg_rep mi st' (qs(x := as @ bs)) (i # fs)"
    and same: "\<And>j. same_msg (msgh st ! j) (msgh st' ! j)" and tx: "mtext st' = mtext st"
    and que: "msgque st' = (msgque st)[x := set_mode m (unlinked_q (last_opt as) (msg_next ?h) q1)]"
    by (rule msgfree_done [OF rep1 info x q])
      (use x links_okD(1) [OF L] in \<open>simp_all\<close>)
  have ts: "msg_ts (msgh st' ! j) = msg_ts (msgh st ! j)" for j
    by (rule same_msgD(5) [OF same])
  have total: "msg_cbytes (msgque st ! y) = (\<Sum>i\<leftarrow>qs y. msg_ts (msgh st ! i))" if "y < msgmni mi" for y
    using bytes that by (simp add: bytes_ok_def)
  have "msg_cbytes (msgque st ! x) < 4294967296"
    using bytes_bound [OF L T info x] total [OF x] info by (simp add: info_ok_def)
  then have "usub (msg_cbytes (msgque st ! x)) (msg_ts ?h) = (\<Sum>i\<leftarrow>as @ bs. msg_ts (msgh st ! i))"
    using total [OF x] q by simp
  then have bytes': "bytes_ok mi st' (qs(x := as @ bs))"
    using total que x links_okD(1) [OF L]
    by (auto simp: bytes_ok_def ts unlinked_q_def q1_def nth_list_update)
  consider "ra_sz r < int (msg_ts ?h)" "ra_flg r AND MSG_NOERROR = 0"
    | "\<not> (ra_sz r < int (msg_ts ?h) \<and> ra_flg r AND MSG_NOERROR = 0)" "\<not> (ra_type_ok r \<and> (n = 0 \<or> ra_text_ok r))"
    | "\<not> (ra_sz r < int (msg_ts ?h) \<and> ra_flg r AND MSG_NOERROR = 0)" "ra_type_ok r" "n = 0 \<or> ra_text_ok r"
    by blast
  then show ?thesis
  proof cases
    case 1
    then show ?thesis
      using refused [of E2BIG] i sz full by (simp add: msgrcv_take_def)
  next
    case 2
    then have "msgrcv_take mi ca r x (last_opt as) i st = Done (Rcv_err EFAULT, st)"
      using i unfolding msgrcv_take_def Let_def sz le n_def [symmetric] read by auto
    then show ?thesis using refused 2 by blast
  next
    case 3
    then have "msgrcv_take mi ca r x (last_opt as) i st = Done (Rcv_msg (msg_type ?h) (take ?n full), st')"
      using i free unfolding msgrcv_take_def Let_def sz le n_def [symmetric] read q1_def by auto
    moreover have "int (length full) \<le> ra_sz r \<or> ra_flg r AND MSG_NOERROR \<noteq> 0"
      using 3(1) full by auto
    ultimately show ?thesis
      using taken rep' bytes' message_same [OF same tx] by (simp add: message_def)
  qed
qed

end
