(* ===== verification/Msg_Calls.thy ===== *)
theory Msg_Calls
  imports Msg_Queues
begin

text \<open>
  Messages, concluded: what each call does to the queues of messages, from the point where it
  holds the lock of its queue, and the invariant of all states that calls can lead to, however
  many callers there are and in whatever order they run, sleep, are woken or interrupted.
\<close>

section \<open>Receiving\<close>

definition only_queue :: "msginfo \<Rightarrow> nat \<Rightarrow> msgst \<Rightarrow> msgst \<Rightarrow> bool" where
  "only_queue mi x st st' \<longleftrightarrow> (\<forall>y<msgmni mi. y \<noteq> x \<longrightarrow> messages mi st' y = messages mi st y)"

definition rcv_spec :: "msginfo \<Rightarrow> msgrcv_args \<Rightarrow> nat \<Rightarrow> msgst \<Rightarrow> msgrcv_res \<Rightarrow> msgst \<Rightarrow> bool" where
  "rcv_spec mi r x st res st' \<longleftrightarrow>
     (let ms = messages mi st x; ts = map fst ms in
      case res of
        Rcv_msg t text \<Rightarrow>
          (\<exists>k. picks (ra_typ r) ts k \<and> t = ts ! k \<and> text = take (nat (ra_sz r)) (snd (ms ! k)) \<and>
             (int (length (snd (ms ! k))) \<le> ra_sz r \<or> ra_flg r AND MSG_NOERROR \<noteq> 0) \<and>
             messages mi st' x = take k ms @ drop (Suc k) ms) \<and> only_queue mi x st st'
      | Rcv_sleep \<Rightarrow>
          (\<forall>t\<in>set ts. \<not> eligible (ra_typ r) t) \<and> ra_flg r AND IPC_NOWAIT = 0 \<and>
          q_mode (msgque st' ! x) AND MSG_RWAIT \<noteq> 0 \<and>
          messages mi st' x = ms \<and> only_queue mi x st st'
      | Rcv_err e \<Rightarrow>
          st' = st \<and>
          (e = ENOMSG \<and> (\<forall>t\<in>set ts. \<not> eligible (ra_typ r) t) \<and> ra_flg r AND IPC_NOWAIT \<noteq> 0
           \<or> e = E2BIG \<and> (\<exists>k. picks (ra_typ r) ts k \<and> ra_sz r < int (length (snd (ms ! k)))) \<and>
             ra_flg r AND MSG_NOERROR = 0
           \<or> e = EFAULT \<and> \<not> (ra_type_ok r \<and> ra_text_ok r)))"

lemma or_bit_set: "(m OR w) AND w = w" for m w :: "32 word"
  by (rule bit_eqI) (auto simp: bit_simps)

lemma messages_update:
  assumes "links_ok mi st qs fs" and "links_ok mi st' (qs(x := is)) fs'" and "x < msgmni mi"
    and "\<And>j. j \<in> queued mi qs \<Longrightarrow> message mi st' j = message mi st j"
  shows "messages mi st' x = map (message mi st') is" and "only_queue mi x st st'"
proof -
  show "messages mi st' x = map (message mi st') is"
    using messages_rep [OF assms(2,3)] by simp
  show "only_queue mi x st st'"
    unfolding only_queue_def
  proof (intro allI impI)
    fix y assume y: "y < msgmni mi" "y \<noteq> x"
    then have "map (message mi st') (qs y) = map (message mi st) (qs y)"
      using assms(4) by auto
    then show "messages mi st' y = messages mi st y"
      using messages_rep [OF assms(1) y(1)] messages_rep [OF assms(2) y(1)] y(2) by simp
  qed
qed

lemma bytes_ok_update:
  assumes "bytes_ok mi st qs" and "msgh st' = msgh st"
    and "msgque st' = (msgque st)[x := q']" and "msg_cbytes q' = msg_cbytes (msgque st ! x)"
    and "length (msgque st) = msgmni mi"
  shows "bytes_ok mi st' qs"
  unfolding bytes_ok_def
proof (intro allI impI)
  fix y assume "y < msgmni mi"
  then have "msg_cbytes (msgque st' ! y) = msg_cbytes (msgque st ! y)"
    using assms(3-5) by (cases "y = x") simp_all
  with assms(1,2) \<open>y < msgmni mi\<close> show "msg_cbytes (msgque st' ! y) = (\<Sum>i\<leftarrow>qs y. msg_ts (msgh st' ! i))"
    by (simp add: bytes_ok_def)
qed

lemma best_at_find:
  assumes rep: "msg_rep mi st qs fs" and x: "x < msgmni mi"
  obtains r where
    "(if mtyp = 0 then Some (Done (None, msg_first (msgque st ! x)))
      else findmsg_loop mtyp (msgh st) None (msg_first (msgque st ! x)) None None) = Some (Done r)"
    and "best_at mtyp (msgh st) (qs x) r"
proof (cases "mtyp = 0")
  case True
  have "linked (msgh st) (msg_first (msgque st ! x)) (qs x)"
    using links_okD(3) [OF msg_repD(1) [OF rep] x] by (simp add: q_links_def)
  then have "best_at mtyp (msgh st) (qs x) (None, msg_first (msgque st ! x))"
    using True by (cases "qs x") (auto simp: best_at_def eligible_def rank_def Cons_eq_append_conv)
  then show ?thesis using that True by simp
next
  case False
  have "linked (msgh st) (msg_first (msgque st ! x)) (qs x)"
    using links_okD(3) [OF msg_repD(1) [OF rep] x] by (simp add: q_links_def)
  moreover have "best_at mtyp (msgh st) [] (None, None)"
    by (simp add: best_at_def)
  ultimately obtain r where "findmsg_loop mtyp (msgh st) None (msg_first (msgque st ! x)) None None = Some (Done r)"
    and "best_at mtyp (msgh st) (qs x) r"
    using findmsg_loop_best [OF False, of "msgh st" "msg_first (msgque st ! x)" "qs x" "[]" None None] by auto
  then show ?thesis using that False by simp
qed

lemma msgrcv_find_spec:
  assumes rep: "msg_rep mi st qs fs" and bytes: "bytes_ok mi st qs" and info: "info_ok mi"
    and x: "x < msgmni mi" and r: "sized r"
  obtains res st' where "msgrcv_find mi ca r x st = Some (Done (res, st'))"
    and "rcv_spec mi r x st res st'" and "msg_ok mi st'"
proof -
  note L = msg_repD(1) [OF rep]
  let ?ms = "messages mi st x" and ?mtyp = "ra_typ r" and ?q = "msgque st ! x"
  have ms: "?ms = map (message mi st) (qs x)"
    by (rule messages_rep [OF L x])
  have types: "map fst ?ms = map (\<lambda>i. msg_type (msgh st ! i)) (qs x)"
    by (simp add: ms message_def)
  have ok: "msg_ok mi st" using rep bytes by (auto simp: msg_ok_def)
  obtain b where found: "(if ?mtyp = 0 then Some (Done (None, msg_first ?q))
      else findmsg_loop ?mtyp (msgh st) None (msg_first ?q) None None) = Some (Done b)"
    and best: "best_at ?mtyp (msgh st) (qs x) b"
    by (rule best_at_find [OF rep x])
  show ?thesis
  proof (cases "snd b")
    case None
    then have b: "b = (None, None)" and none: "\<forall>t\<in>set (map fst ?ms). \<not> eligible ?mtyp t"
      using best unfolding types by (auto simp: best_at_def)
    let ?st' = "set_q x (set_mode (q_mode ?q OR MSG_RWAIT) ?q) st"
    have run: "msgrcv_find mi ca r x st =
        Some (Done (if ra_flg r AND IPC_NOWAIT \<noteq> 0 then (Rcv_err ENOMSG, st) else (Rcv_sleep, ?st')))"
      unfolding msgrcv_find_def Let_def found b by simp
    show ?thesis
    proof (cases "ra_flg r AND IPC_NOWAIT = 0")
      case True
      have rep': "msg_rep mi ?st' qs fs"
        by (rule msg_rep_set_q [OF rep x]) (simp_all add: same_perm_modes(4))
      have bytes': "bytes_ok mi ?st' qs"
        by (rule bytes_ok_update [OF bytes _ set_q_simps(1)]) (simp_all add: links_okD(1) [OF L])
      have xl: "x < length (msgque st)" using x links_okD(1) [OF L] by simp
      have "q_mode (msgque ?st' ! x) AND MSG_RWAIT \<noteq> 0"
        using xl by (simp add: or_bit_set) (simp add: MSG_RWAIT_def)
      moreover have "messages mi ?st' x = ?ms" and "only_queue mi x st ?st'"
        using messages_update [OF L, of ?st' x "qs x" fs] msg_repD(1) [OF rep'] x ms
        by (simp_all add: message_def)
      ultimately have "rcv_spec mi r x st Rcv_sleep ?st'"
        using none True by (simp add: rcv_spec_def)
      then show ?thesis
        using that run True rep' bytes' by (auto simp: msg_ok_def)
    next
      case False
      then have "rcv_spec mi r x st (Rcv_err ENOMSG) st"
        using none by (simp add: rcv_spec_def)
      then show ?thesis using that run False ok by simp
    qed
  next
    case (Some i)
    then obtain s where b: "b = (s, Some i)" by (cases b) auto
    obtain as bs where q: "qs x = as @ i # bs" and s: "s = last_opt as"
      and pick: "picks ?mtyp (map fst ?ms) (length as)"
      using best_at_picks [OF best [unfolded b]] unfolding types by metis
    have at: "?ms ! length as = message mi st i"
      by (simp add: ms q nth_append)
    have run: "msgrcv_find mi ca r x st = Some (msgrcv_take mi ca r x (last_opt as) i st)"
      unfolding msgrcv_find_def Let_def found b s by simp
    show ?thesis
    proof (rule msgrcv_take_done [OF rep bytes info x q r, of ca], goal_cases)
      case (1 e)
      then have "rcv_spec mi r x st (Rcv_err e) st"
        using pick at by (auto simp: rcv_spec_def Let_def)
      then show ?case using that run 1(1) ok by simp
    next
      case (2 st')
      have "messages mi st' x = map (message mi st) (as @ bs)" and "only_queue mi x st st'"
        using messages_update [OF L msg_repD(1) [OF 2(2)] x] 2(4) by simp_all
      then have "messages mi st' x = take (length as) ?ms @ drop (Suc (length as)) ?ms"
        by (simp add: ms q)
      then have "rcv_spec mi r x st (Rcv_msg (fst (message mi st i)) (take (nat (ra_sz r)) (snd (message mi st i)))) st'"
        using pick at 2(5) \<open>only_queue mi x st st'\<close> ms q
        by (auto simp: rcv_spec_def Let_def nth_append intro!: exI [of _ "length as"])
      then show ?case
        using that run 2(1-3) by (auto simp: msg_ok_def)
    qed
  qed
qed


section \<open>Sending\<close>

lemma patch_read:
  assumes "c + length b \<le> length t" and "a + n \<le> c \<or> c + length b \<le> a"
  shows "take n (drop a (take c t @ b @ drop (c + length b) t)) = take n (drop a t)"
proof (cases "a + n \<le> c")
  case True
  then show ?thesis using assms(1) by (auto simp: drop_take min_def)
next
  case False
  then have "c + length b \<le> a" using assms(2) by simp
  then obtain d where "a = c + length b + d" using le_Suc_ex by blast
  then show ?thesis using assms(1) by (simp add: add.commute add.left_commute)
qed

text \<open>Writing into free segments leaves the text of every queued message alone.\<close>

definition patched :: "msginfo \<Rightarrow> nat \<Rightarrow> byte list \<Rightarrow> byte list \<Rightarrow> byte list" where
  "patched mi s b t = take (msgssz mi * s) t @ b @ drop (msgssz mi * s + length b) t"

lemma segs_apart:
  fixes a n c m z :: nat
  assumes "block n (a + 1) \<inter> block m (c + 1) = {}" and "0 < n" and "0 < m"
  shows "z * a + z * n \<le> z * c \<or> z * c + z * m \<le> z * a"
proof -
  have "a + n \<le> c \<or> c + m \<le> a"
  proof (rule ccontr)
    assume "\<not> (a + n \<le> c \<or> c + m \<le> a)"
    then have "max a c + 1 \<in> block n (a + 1) \<inter> block m (c + 1)"
      using assms(2,3) by (auto simp: block_def)
    with assms(1) show False by simp
  qed
  then show ?thesis
    unfolding add_mult_distrib2 [symmetric] by (auto intro: mult_le_mono2)
qed

lemma patched_length:
  assumes "msgssz mi * s + length b \<le> length t"
  shows "length (patched mi s b t) = length t"
  using assms by (simp add: patched_def)

lemma patched_text:
  assumes info: "info_ok mi" and h: "hdr_ok mi h" and b: "length b \<le> msgssz mi * k" and k: "0 < k"
    and apart: "segs_of mi h \<inter> block k (s + 1) = {}"
    and room: "msgssz mi * s + length b \<le> length t"
  shows "hdr_text mi (patched mi s b t) h = hdr_text mi t h"
proof (cases "msg_ts h = 0")
  case True
  then show ?thesis by (simp add: hdr_text_def)
next
  case False
  let ?z = "msgssz mi" and ?n = "nsegs mi (msg_ts h)"
  obtain a where a: "msg_spot h = int a"
    using h False zero_le_imp_eq_int [of "msg_spot h"] by (auto simp: hdr_ok_def)
  have n: "0 < ?n" and ts: "msg_ts h \<le> ?z * ?n"
    using nsegs_bounds [OF info, of "msg_ts h"] False by simp_all
  have "nat (int a + 1) = a + 1" by simp
  then have "block ?n (a + 1) \<inter> block k (s + 1) = {}"
    using apart False a by (simp add: segs_of_def)
  from segs_apart [OF this n k, of ?z] have "?z * a + msg_ts h \<le> ?z * s \<or> ?z * s + length b \<le> ?z * a"
    using ts b by linarith
  moreover have "nat (int ?z * int a) = ?z * a"
    by (simp add: nat_mult_distrib)
  ultimately show ?thesis
    using patch_read [OF room] by (simp add: hdr_text_def patched_def a)
qed

lemma text_write_patched:
  assumes "msgssz mi * s + length b \<le> length (mtext st)"
  shows "text_write mi (int s) b st = Done (st\<lparr>mtext := patched mi s b (mtext st)\<rparr>)"
proof -
  have "nat (int (msgssz mi) * int s) = msgssz mi * s" and "int (msgssz mi) * int s = int (msgssz mi * s)"
    by (simp_all add: nat_mult_distrib)
  then show ?thesis
    using assms by (simp add: text_write_def patched_def Let_def del: of_nat_mult)
qed


text \<open>A header that was taken from the free list is put back.\<close>

lemma msg_rep_putback:
  assumes rep: "msg_rep mi st qs (mp # fs)"
    and st': "st' = put_header mp (st\<lparr>msgfp := msg_next (msgh st ! mp), mmap := m, mtext := t\<rparr>)"
    and m: "rmap_ok m" "map_units m \<subseteq> map_units (mmap st)" and t: "length t = length (mtext st)"
  shows "msg_rep mi st' qs (mp # fs)" and "msgque st' = msgque st" and "msgh st' = msgh st"
    and "mtext st' = t" and "mmap st' = m"
proof -
  note L = msg_repD(1) [OF rep] and T = msg_repD(2) [OF rep] and P = msg_repD(3) [OF rep]
  have fp: "msgfp st = Some mp" using links_okD(4) [OF L] by simp
  have eq: "msgque st' = msgque st" "msgh st' = msgh st" "msgfp st' = msgfp st" "mtext st' = t" "mmap st' = m"
    using fp by (simp_all add: st')
  then show "msgque st' = msgque st" "msgh st' = msgh st" "mtext st' = t" "mmap st' = m"
    by simp_all
  have "links_ok mi st' qs (mp # fs)"
    using L eq by (simp add: links_ok_def)
  moreover have "texts_ok mi st' (queued mi qs)"
  proof -
    have "segs_of mi (msgh st ! i) \<inter> map_units m = {}" if "i \<in> queued mi qs" for i
      using texts_okD(5) [OF T that] m(2) by blast
    moreover have "map_units m \<subseteq> {1..msgseg mi}"
      by (rule subset_trans [OF m(2) texts_okD(2) [OF T]])
    ultimately show ?thesis
      using texts_okD(3,4,6) [OF T] m(1) t by (simp add: texts_ok_def eq)
  qed
  moreover have "perms_ok mi st' qs"
    using P eq by (simp add: perms_ok_def)
  ultimately show "msg_rep mi st' qs (mp # fs)"
    by (simp add: msg_rep_def)
qed

text \<open>A message is put on its queue.\<close>

definition linked_q :: "caller \<Rightarrow> nat \<Rightarrow> nat \<Rightarrow> msqid_ds \<Rightarrow> msqid_ds" where
  "linked_q ca mp cnt q =
     q\<lparr>msg_qnum := uadd (msg_qnum q) 1, msg_cbytes := uadd (msg_cbytes q) cnt,
       msg_lspid := ca_pid ca, msg_stime := ca_now ca,
       msg_first := (if msg_last q = None then Some mp else msg_first q), msg_last := Some mp\<rparr>"

definition new_hdr :: "int \<Rightarrow> nat \<Rightarrow> ulong option \<Rightarrow> msghdr" where
  "new_hdr mtyp cnt spot =
     \<lparr>msg_next = None, msg_type = mtyp, msg_ts = cnt mod 65536,
      msg_spot = (case spot of None \<Rightarrow> - 1 | Some s \<Rightarrow> s16 (int s))\<rparr>"

definition linked_h :: "nat \<Rightarrow> msghdr \<Rightarrow> nat option \<Rightarrow> msghdr list \<Rightarrow> msghdr list" where
  "linked_h mp h l hs =
     (case l of None \<Rightarrow> hs[mp := h]
      | Some l \<Rightarrow> (hs[mp := h])[l := ((hs[mp := h]) ! l)\<lparr>msg_next := Some mp\<rparr>])"

lemma msg_link_effect:
  assumes "x < length (msgque st)" and "\<And>l. msg_last (msgque st ! x) = Some l \<Longrightarrow> l < length (msgh st)"
  obtains st' m where "msg_link ca x mtyp cnt spot mp st = Done st'"
    and "m = q_mode (msgque st ! x) \<or> m = q_mode (msgque st ! x) AND NOT MSG_RWAIT"
    and "msgque st' = (msgque st)[x := set_mode m (linked_q ca mp cnt (msgque st ! x))]"
    and "msgh st' = linked_h mp (new_hdr mtyp cnt spot) (msg_last (msgque st ! x)) (msgh st)"
    and "msgfp st' = msgfp st" and "mtext st' = mtext st" and "mmap st' = mmap st"
proof -
  let ?q = "msgque st ! x"
  define m where "m = (if q_mode ?q AND MSG_RWAIT \<noteq> 0 then q_mode ?q AND NOT MSG_RWAIT else q_mode ?q)"
  show ?thesis
  proof (cases "msg_last ?q")
    case None
    then show ?thesis
      using that [of _ m] assms(1)
      by (simp add: msg_link_def Let_def m_def linked_q_def linked_h_def new_hdr_def set_mode_def)
  next
    case (Some l)
    with assms(2) have "l < length (msgh st)" by blast
    with Some show ?thesis
      using that [of _ m] assms(1)
      by (simp add: msg_link_def Let_def m_def linked_q_def linked_h_def new_hdr_def set_mode_def)
  qed
qed

lemma q_links_link:
  assumes q: "q_links hs is q" and dist: "distinct (is @ [mp])" and mp: "mp < length hs"
    and small: "length is + 1 < 2 ^ 32" and h: "msg_next h = None"
  shows "q_links (linked_h mp h (msg_last q) hs) (is @ [mp]) (linked_q ca mp cnt q)"
proof -
  let ?hs = "hs[mp := h]"
  have lk: "linked ?hs (msg_first q) is" and last: "msg_last q = last_opt is"
    and num: "uadd (msg_qnum q) 1 = length (is @ [mp])"
    using q dist small by (auto simp: q_links_def)
  show ?thesis
  proof (cases "is" rule: rev_cases)
    case Nil
    then show ?thesis
      using last num mp h by (simp add: q_links_def linked_q_def linked_h_def last_opt_def)
  next
    case (snoc js a)
    then have "linked (?hs[a := (?hs ! a)\<lparr>msg_next := Some mp\<rparr>]) (msg_first q) (js @ [a, mp])"
      using lk dist mp h by (intro linked_snoc) auto
    then show ?thesis
      using snoc last num by (simp add: q_links_def linked_q_def linked_h_def last_opt_def)
  qed
qed

lemma links_ok_link:
  assumes ok: "links_ok mi st qs (mp # fs)" and x: "x < msgmni mi" and small: "msgtql mi < 2 ^ 31"
    and st': "msgque st' = (msgque st)[x := set_mode m (linked_q ca mp cnt (msgque st ! x))]"
      "msgh st' = linked_h mp h (msg_last (msgque st ! x)) (msgh st)" "msgfp st' = msg_next (msgh st ! mp)"
    and h: "msg_next h = None"
  shows "links_ok mi st' (qs(x := qs x @ [mp])) fs"
proof -
  note D = links_okD [OF ok]
  have mp: "mp < length (msgh st)" using D(4) by simp
  have dist: "distinct (qs x @ [mp])" using D(5,6) [OF x] by simp
  have len: "length (qs x) + 1 < 2 ^ 32"
    using links_ok_length [OF ok x] small by simp
  have last: "msg_last (msgque st ! x) = last_opt (qs x)"
    using D(3) [OF x] by (simp add: q_links_def)
  have outside: "msgh st' ! j = msgh st ! j" if "j \<notin> set (qs x @ [mp])" for j
    using that unfolding st'(2) last linked_h_def by (cases "qs x" rule: rev_cases) (auto simp: last_opt_def)
  have len': "length (msgh st') = length (msgh st)"
    unfolding st'(2) linked_h_def by (simp split: option.split)
  have "linked (msgh st) (msg_next (msgh st ! mp)) fs"
    using D(4) by simp
  then have free: "linked (msgh st') (msgfp st') fs"
    unfolding st'(3) using D(6) [OF x] D(8) by (subst linked_cong [OF len' outside]) auto
  show ?thesis
  proof (rule links_ok_move [OF ok x st'(1) len' _ free])
    show "q_links (msgh st') (qs x @ [mp]) (set_mode m (linked_q ca mp cnt (msgque st ! x)))"
      unfolding st'(2) using q_links_link [OF D(3) [OF x] dist mp len h] by simp
    show "msgh st' ! j = msgh st ! j" if "j \<notin> set (qs x) \<union> set (mp # fs)" for j
      using that outside by simp
  qed (use D(6) [OF x] D(8) dist in auto)
qed

lemma texts_ok_add:
  assumes ok: "texts_ok mi st Q" and mp: "mp \<notin> Q" and h: "hdr_ok mi h"
    and segs: "segs_of mi h \<subseteq> map_units (mmap st)"
    and m: "rmap_ok (mmap st')" "map_units (mmap st') = map_units (mmap st) - segs_of mi h"
    and new: "same_msg h (msgh st' ! mp)" and old: "\<And>j. j \<in> Q \<Longrightarrow> same_msg (msgh st ! j) (msgh st' ! j)"
    and len: "length (mtext st') = length (mtext st)"
  shows "texts_ok mi st' (insert mp Q)"
proof -
  note T = texts_okD [OF ok]
  note N = same_msgD [OF new] and O = same_msgD [OF old]
  let ?U = "map_units (mmap st) - segs_of mi h"
  have apart: "segs_of mi (msgh st ! j) \<inter> segs_of mi h = {}" "segs_of mi h \<inter> segs_of mi (msgh st ! j) = {}"
    "segs_of mi (msgh st ! j) \<inter> ?U = {}" if "j \<in> Q" for j
    using T(5) [OF that] segs by blast+
  moreover have "?U \<subseteq> {1..msgseg mi}" and "segs_of mi h \<inter> ?U = {}"
    using T(2) by blast+
  ultimately show ?thesis
    unfolding texts_ok_def m(2) len using T(3,4,6) m(1) h mp by (simp add: N O)
qed


lemma bytes_ok_add:
  assumes bytes: "bytes_ok mi st qs" and que: "msgque st' = (msgque st)[x := q']"
    and q': "msg_cbytes q' = msg_cbytes (msgque st ! x) + cnt" and new: "msg_ts (msgh st' ! mp) = cnt"
    and old: "\<And>i. i \<in> queued mi qs \<Longrightarrow> msg_ts (msgh st' ! i) = msg_ts (msgh st ! i)"
    and len: "length (msgque st) = msgmni mi"
  shows "bytes_ok mi st' (qs(x := qs x @ [mp]))"
  unfolding bytes_ok_def
proof (intro allI impI)
  fix y assume y: "y < msgmni mi"
  have "(\<Sum>i\<leftarrow>qs y. msg_ts (msgh st' ! i)) = (\<Sum>i\<leftarrow>qs y. msg_ts (msgh st ! i))"
    using y by (intro arg_cong [of _ _ sum_list] map_cong refl old UN_I [of y]) simp_all
  then have "msg_cbytes (msgque st ! y) = (\<Sum>i\<leftarrow>qs y. msg_ts (msgh st' ! i))"
    using bytes y by (simp add: bytes_ok_def)
  then show "msg_cbytes (msgque st' ! y) = (\<Sum>i\<leftarrow>(qs(x := qs x @ [mp])) y. msg_ts (msgh st' ! i))"
    using que q' new len y by (cases "y = x") simp_all
qed

lemma linked_h_same:
  assumes "mp < length hs"
  shows "same_msg h (linked_h mp h l hs ! mp)" and "j \<noteq> mp \<Longrightarrow> same_msg (hs ! j) (linked_h mp h l hs ! j)"
  using assms by (cases l; simp add: linked_h_def)+

text \<open>
  With a header and a place for the text, whose bytes are in \<open>t\<close> already, the queue grows by one
  message at its end.
\<close>

lemma msg_link_done:
  assumes rep: "msg_rep mi st qs (mp # fs)" and bytes: "bytes_ok mi st qs" and info: "info_ok mi"
    and x: "x < msgmni mi" and cnt: "cnt < 65536" and used: "ipc_allocated (msg_perm (msgque st ! x))"
    and h: "hdr_ok mi (new_hdr mtyp cnt spot)"
    and segs: "segs_of mi (new_hdr mtyp cnt spot) \<subseteq> map_units (mmap st)"
    and m: "rmap_ok m" "map_units m = map_units (mmap st) - segs_of mi (new_hdr mtyp cnt spot)"
    and t: "length t = length (mtext st)"
      "\<And>j. j \<in> queued mi qs \<Longrightarrow> hdr_text mi t (msgh st ! j) = hdr_text mi (mtext st) (msgh st ! j)"
  obtains st' where
    "msg_link ca x mtyp cnt spot mp (st\<lparr>msgfp := msg_next (msgh st ! mp), mmap := m, mtext := t\<rparr>) = Done st'"
    and "msg_ok mi st'" and "only_queue mi x st st'"
    and "messages mi st' x = messages mi st x @ [(mtyp, hdr_text mi t (new_hdr mtyp cnt spot))]"
proof -
  note L = msg_repD(1) [OF rep] and T = msg_repD(2) [OF rep] and P = msg_repD(3) [OF rep]
  let ?h = "new_hdr mtyp cnt spot" and ?q = "msgque st ! x" and ?qs = "qs(x := qs x @ [mp])"
  have xl: "x < length (msgque st)" using x links_okD(1) [OF L] by simp
  have mp: "mp < length (msgh st)" using links_okD(4) [OF L] by simp
  have "mp \<notin> set (qs y)" if "y < msgmni mi" for y
    using links_okD(6) [OF L that] by simp
  then have mpq: "mp \<notin> queued mi qs" by blast
  have last: "l < length (msgh st)" if "msg_last ?q = Some l" for l
    using that links_okD(3) [OF L x] links_ok_header [OF L x]
    by (cases "qs x" rule: rev_cases) (auto simp: q_links_def)
  obtain st' m' where run: "msg_link ca x mtyp cnt spot mp (st\<lparr>msgfp := msg_next (msgh st ! mp), mmap := m, mtext := t\<rparr>) = Done st'"
    and m': "m' = q_mode ?q \<or> m' = q_mode ?q AND NOT MSG_RWAIT"
    and que: "msgque st' = (msgque st)[x := set_mode m' (linked_q ca mp cnt ?q)]"
    and hs: "msgh st' = linked_h mp ?h (msg_last ?q) (msgh st)"
    and rest: "msgfp st' = msg_next (msgh st ! mp)" "mtext st' = t" "mmap st' = m"
    by (rule msg_link_effect [of x "st\<lparr>msgfp := msg_next (msgh st ! mp), mmap := m, mtext := t\<rparr>"])
      (use xl last in auto)
  have L': "links_ok mi st' ?qs fs"
    using info by (intro links_ok_link [OF L x _ que hs rest(1)]) (simp_all add: info_ok_def new_hdr_def)
  have old: "same_msg (msgh st ! j) (msgh st' ! j)" if "j \<in> queued mi qs" for j
  proof -
    have "j \<noteq> mp" using that mpq by metis
    then show ?thesis unfolding hs by (rule linked_h_same(2) [OF mp])
  qed
  have new: "same_msg ?h (msgh st' ! mp)"
    unfolding hs by (rule linked_h_same(1) [OF mp])
  have Q: "queued mi ?qs = insert mp (queued mi qs)"
    by (simp only: queued_update(1) [OF x] queued_update(2) [OF x, of qs]) auto
  have T': "texts_ok mi st' (queued mi ?qs)"
    unfolding Q using m t(1) rest by (intro texts_ok_add [OF T mpq h segs _ _ new old]) simp_all
  have P': "perms_ok mi st' ?qs"
    by (rule perms_ok_update [OF P links_okD(1) [OF L] que x])
      (use m' used same_perm_modes(2) in \<open>auto simp: linked_q_def\<close>)
  have total: "msg_cbytes (msgque st ! y) = (\<Sum>i\<leftarrow>qs y. msg_ts (msgh st ! i))" if "y < msgmni mi" for y
    using bytes that by (simp add: bytes_ok_def)
  have "uadd (msg_cbytes ?q) cnt = msg_cbytes ?q + cnt"
    using bytes_bound [OF L T info x] total [OF x] info cnt by (simp add: info_ok_def)
  moreover have "msg_ts (msgh st' ! mp) = cnt"
    using same_msgD(5) [OF new] cnt by (simp add: new_hdr_def)
  ultimately have "bytes_ok mi st' ?qs"
    using links_okD(1) [OF L] same_msgD(5) [OF old]
    by (intro bytes_ok_add [OF bytes que]) (simp_all add: linked_q_def)
  with L' T' P' have "msg_ok mi st'"
    by (auto simp: msg_ok_def msg_rep_def)
  moreover have "message mi st' j = message mi st j" if "j \<in> queued mi qs" for j
    using same_msgD [OF old [OF that]] t(2) [OF that] rest(2) by (simp add: message_def)
  then have "only_queue mi x st st'" and "messages mi st' x = messages mi st x @ [message mi st' mp]"
    using messages_update [OF L L' x] messages_rep [OF L x] x by auto
  moreover have "message mi st' mp = (mtyp, hdr_text mi t ?h)"
    using same_msgD [OF new] rest(2) by (simp add: message_def new_hdr_def)
  ultimately show ?thesis
    using that run by simp
qed


text \<open>The places where a text of the given size would fit.\<close>

definition m_free_run :: "msginfo \<Rightarrow> msgst \<Rightarrow> nat \<Rightarrow> nat set" where
  "m_free_run mi st cnt = {a. block (nsegs mi cnt) a \<subseteq> map_units (mmap st)}"

text \<open>What a sender brings: a size within the limits and a positive type.\<close>

definition snd_valid :: "msginfo \<Rightarrow> msgsnd_args \<Rightarrow> int \<Rightarrow> bool" where
  "snd_valid mi a mtyp \<longleftrightarrow> 0 \<le> sa_sz a \<and> sa_sz a \<le> int (msgmax mi) \<and> 1 \<le> mtyp"

definition snd_spec ::
    "msginfo \<Rightarrow> msgsnd_args \<Rightarrow> int \<Rightarrow> nat \<Rightarrow> msgst \<Rightarrow> msgsnd_res \<Rightarrow> msgst \<Rightarrow> bool" where
  "snd_spec mi a mtyp x st res st' \<longleftrightarrow>
     (let cnt = nat (sa_sz a); ms = messages mi st x; q = msgque st ! x;
          wait = (sa_flg a AND IPC_NOWAIT = 0); full = (cnt + msg_cbytes q > msg_qbytes q);
          kept = (messages mi st' x = ms)
      in only_queue mi x st st' \<and>
      (case res of
         Snd_ret None \<Rightarrow>
           \<not> full \<and> cnt \<le> length (sa_text a) \<and> messages mi st' x = ms @ [(mtyp, take cnt (sa_text a))]
       | Snd_ret (Some e) \<Rightarrow>
           kept \<and> (e = EAGAIN \<and> \<not> wait \<and> (full \<or> msgfp st = None \<or> m_free_run mi st cnt = {})
                   \<or> e = EFAULT \<and> length (sa_text a) < cnt)
       | Snd_sleep_room \<Rightarrow> kept \<and> wait \<and> full \<and> q_mode (msgque st' ! x) AND MSG_WWAIT \<noteq> 0
       | Snd_sleep_header \<Rightarrow> st' = st \<and> wait \<and> msgfp st = None
       | Snd_sleep_text \<Rightarrow> kept \<and> wait \<and> m_free_run mi st cnt = {} \<and> m_want (mmap st') \<noteq> 0))"


text \<open>The segments for a text are found, or there is no room for it.\<close>

lemma text_place:
  assumes info: "info_ok mi" and T: "texts_ok mi st Q" and cnt: "0 < cnt" "cnt < 65536" and ty: "1 \<le> mtyp"
  obtains (none) "rmalloc_locked (mmap st) (nsegs mi cnt) = Done (0, mmap st)" and "m_free_run mi st cnt = {}"
    | (some) s m where "rmalloc_locked (mmap st) (nsegs mi cnt) = Done (Suc s, m)" and "rmap_ok m"
      and "hdr_ok mi (new_hdr mtyp cnt (Some s))"
      and "segs_of mi (new_hdr mtyp cnt (Some s)) = block (nsegs mi cnt) (s + 1)"
      and "block (nsegs mi cnt) (s + 1) \<subseteq> map_units (mmap st)"
      and "map_units m = map_units (mmap st) - block (nsegs mi cnt) (s + 1)"
      and "msgssz mi * s + cnt \<le> length (mtext st)" and "msg_spot (new_hdr mtyp cnt (Some s)) = int s"
proof -
  let ?n = "nsegs mi cnt"
  have wf: "wf_map (mmap st)" and slots: "2 \<le> m_slots (mmap st)"
    using texts_okD(1) [OF T] by (simp_all add: rmap_ok_def)
  have n: "0 < ?n" and fill: "cnt \<le> msgssz mi * ?n"
    using nsegs_bounds [OF info, of cnt] cnt by simp_all
  show ?thesis
  proof (rule rmalloc_cases [OF wf n])
    assume "rmalloc (mmap st) ?n = Done (0, mmap st)" and "\<forall>a. \<not> block ?n a \<subseteq> map_units (mmap st)"
    then show ?thesis using none by (simp add: rmalloc_def m_free_run_def)
  next
    fix a m
    assume run: "rmalloc (mmap st) ?n = Done (a, m)" and a: "0 < a" and "wf_map m" "m_slots m = m_slots (mmap st)"
      and sub: "block ?n a \<subseteq> map_units (mmap st)" and units: "map_units m = map_units (mmap st) - block ?n a"
    then have m: "rmap_ok m" using slots by (simp add: rmap_ok_def)
    obtain s where s: "a = Suc s" using a by (cases a) auto
    have "s + ?n \<in> block ?n a" using n by (simp add: block_def s)
    then have fit: "s + ?n \<le> msgseg mi"
      using sub texts_okD(2) [OF T] by auto
    have seg: "msgseg mi < 32768" using info by (simp add: info_ok_def)
    have h: "msg_spot (new_hdr mtyp cnt (Some s)) = int s" "msg_ts (new_hdr mtyp cnt (Some s)) = cnt"
      "msg_type (new_hdr mtyp cnt (Some s)) = mtyp"
      using fit seg n cnt by (simp_all add: new_hdr_def)
    have "msgssz mi * s + cnt \<le> msgssz mi * s + msgssz mi * ?n"
      using fill by simp
    also have "\<dots> \<le> msgssz mi * msgseg mi"
      unfolding add_mult_distrib2 [symmetric] by (rule mult_le_mono2 [OF fit])
    finally have room: "msgssz mi * s + cnt \<le> length (mtext st)"
      using texts_okD(3) [OF T] by (simp add: mult.commute)
    have "hdr_ok mi (new_hdr mtyp cnt (Some s))"
      using fit cnt ty by (simp add: hdr_ok_def h)
    moreover have "segs_of mi (new_hdr mtyp cnt (Some s)) = block ?n (s + 1)"
    proof -
      have "nat (int s + 1) = s + 1" by simp
      then show ?thesis using cnt by (simp add: segs_of_def h)
    qed
    ultimately show ?thesis
      using some [of s m] run m sub units room s h(1) by (simp add: rmalloc_def)
  qed
qed

lemma kept_messages:
  assumes "links_ok mi st qs fs" and "links_ok mi st' qs fs'" and "x < msgmni mi"
    and "\<And>j. j \<in> queued mi qs \<Longrightarrow> message mi st' j = message mi st j"
  shows "messages mi st' x = messages mi st x" and "only_queue mi x st st'"
proof -
  have "links_ok mi st' (qs(x := qs x)) fs'" using assms(2) by simp
  note U = messages_update [OF assms(1) this assms(3,4)]
  have "map (message mi st') (qs x) = map (message mi st) (qs x)"
    using assms(3) by (intro map_cong refl assms(4) UN_I [of x]) simp_all
  then show "messages mi st' x = messages mi st x" and "only_queue mi x st st'"
    using U messages_rep [OF assms(1,3)] by simp_all
qed

lemma putback_keeps:
  assumes rep: "msg_rep mi st qs (mp # fs)" and bytes: "bytes_ok mi st qs" and x: "x < msgmni mi"
    and st': "st' = put_header mp (st\<lparr>msgfp := msg_next (msgh st ! mp), mmap := m, mtext := t\<rparr>)"
    and m: "rmap_ok m" "map_units m \<subseteq> map_units (mmap st)" and t: "length t = length (mtext st)"
      "\<And>j. j \<in> queued mi qs \<Longrightarrow> hdr_text mi t (msgh st ! j) = hdr_text mi (mtext st) (msgh st ! j)"
  shows "msg_ok mi st'" and "messages mi st' x = messages mi st x" and "only_queue mi x st st'"
    and "mmap st' = m"
proof -
  note B = msg_rep_putback [OF rep st' m t(1)]
  have "bytes_ok mi st' qs"
    using bytes B(2,3) by (simp add: bytes_ok_def)
  then show "msg_ok mi st'" using B(1) by (auto simp: msg_ok_def)
  have same: "message mi st' j = message mi st j" if "j \<in> queued mi qs" for j
    using t(2) [OF that] B(3,4) by (simp add: message_def)
  show "messages mi st' x = messages mi st x"
    by (rule kept_messages(1) [OF msg_repD(1) [OF rep] msg_repD(1) [OF B(1)] x same])
  show "only_queue mi x st st'"
    by (rule kept_messages(2) [OF msg_repD(1) [OF rep] msg_repD(1) [OF B(1)] x same])
  show "mmap st' = m" by (rule B(5))
qed


lemma map_want_simps [simp]:
  "rmap_ok (m\<lparr>m_want := w\<rparr>) = rmap_ok m" "map_units (m\<lparr>m_want := w\<rparr>) = map_units m"
  by (simp_all add: rmap_ok_def wf_map_def map_units_def map_segs_def)

lemma msgst_eta: "st\<lparr>msgfp := p\<rparr> = st\<lparr>msgfp := p, mmap := mmap st, mtext := mtext st\<rparr>"
  "st\<lparr>msgfp := p, mmap := m\<rparr> = st\<lparr>msgfp := p, mmap := m, mtext := mtext st\<rparr>"
  by (cases st; simp)+

text \<open>The end of a call that has its header and its place, for an empty and for another message.\<close>

lemma msgsnd_copy_empty:
  assumes rep: "msg_rep mi st qs (mp # fs)" and bytes: "bytes_ok mi st qs" and info: "info_ok mi"
    and x: "x < msgmni mi" and used: "ipc_allocated (msg_perm (msgque st ! x))"
    and v: "snd_valid mi a mtyp" and cnt: "nat (sa_sz a) = 0"
    and room: "\<not> msg_cbytes (msgque st ! x) > msg_qbytes (msgque st ! x)"
  obtains st' where
    "msgsnd_copy mi ca a mtyp x mp None (st\<lparr>msgfp := msg_next (msgh st ! mp)\<rparr>) = Done (Snd_ret None, st')"
    and "snd_spec mi a mtyp x st (Snd_ret None) st'" and "msg_ok mi st'"
proof -
  let ?h = "new_hdr mtyp 0 None"
  have h: "hdr_ok mi ?h" "segs_of mi ?h = {}" "hdr_text mi t ?h = []" for t
    using v by (simp_all add: new_hdr_def hdr_ok_def segs_of_def hdr_text_def snd_valid_def)
  obtain st' where run: "msg_link ca x mtyp 0 None mp
        (st\<lparr>msgfp := msg_next (msgh st ! mp), mmap := mmap st, mtext := mtext st\<rparr>) = Done st'"
    and ok: "msg_ok mi st'" and only: "only_queue mi x st st'"
    and new: "messages mi st' x = messages mi st x @ [(mtyp, hdr_text mi (mtext st) ?h)]"
    by (rule msg_link_done [OF rep bytes info x _ used h(1)])
      (use h texts_okD(1) [OF msg_repD(2) [OF rep]] in auto)
  have "msgsnd_copy mi ca a mtyp x mp None (st\<lparr>msgfp := msg_next (msgh st ! mp)\<rparr>) = Done (Snd_ret None, st')"
    using run [folded msgst_eta(1)] cnt by (simp add: msgsnd_copy_def)
  moreover have "snd_spec mi a mtyp x st (Snd_ret None) st'"
    using only new room cnt h(3) by (simp add: snd_spec_def Let_def)
  ultimately show ?thesis using that ok by blast
qed

lemma msgsnd_copy_text:
  assumes rep: "msg_rep mi st qs (mp # fs)" and bytes: "bytes_ok mi st qs" and info: "info_ok mi"
    and x: "x < msgmni mi" and used: "ipc_allocated (msg_perm (msgque st ! x))"
    and cnt: "nat (sa_sz a) = cnt" "0 < cnt" "cnt < 65536"
    and room: "\<not> cnt + msg_cbytes (msgque st ! x) > msg_qbytes (msgque st ! x)"
    and m: "rmap_ok m" "map_units m = map_units (mmap st) - block (nsegs mi cnt) (s + 1)"
    and h: "hdr_ok mi (new_hdr mtyp cnt (Some s))"
      "segs_of mi (new_hdr mtyp cnt (Some s)) = block (nsegs mi cnt) (s + 1)"
      "msg_spot (new_hdr mtyp cnt (Some s)) = int s"
    and sub: "block (nsegs mi cnt) (s + 1) \<subseteq> map_units (mmap st)"
    and fits: "msgssz mi * s + cnt \<le> length (mtext st)"
  obtains e st' where
    "msgsnd_copy mi ca a mtyp x mp (Some s) (st\<lparr>msgfp := msg_next (msgh st ! mp), mmap := m\<rparr>) = Done (Snd_ret e, st')"
    and "snd_spec mi a mtyp x st (Snd_ret e) st'" and "msg_ok mi st'"
proof -
  let ?h = "new_hdr mtyp cnt (Some s)" and ?st = "st\<lparr>msgfp := msg_next (msgh st ! mp), mmap := m\<rparr>"
  let ?b = "take cnt (sa_text a)"
  let ?t = "patched mi s ?b (mtext st)"
  note T = msg_repD(2) [OF rep]
  have ts: "msg_ts ?h = cnt" using cnt by (simp add: new_hdr_def)
  have k: "0 < nsegs mi cnt" and fill: "cnt \<le> msgssz mi * nsegs mi cnt"
    using nsegs_bounds [OF info, of cnt] cnt by simp_all
  have b: "length ?b \<le> cnt" by simp
  have in_text: "msgssz mi * s + length ?b \<le> length (mtext st)"
    using fits b by linarith
  have wr: "text_write mi (int s) ?b ?st = Done (?st\<lparr>mtext := ?t\<rparr>)"
    using text_write_patched [of mi s ?b ?st] in_text by simp
  have len: "length ?t = length (mtext st)"
    by (rule patched_length [OF in_text])
  have old: "hdr_text mi ?t (msgh st ! j) = hdr_text mi (mtext st) (msgh st ! j)" if "j \<in> queued mi qs" for j
  proof (rule patched_text [OF info texts_okD(4) [OF T that] _ k _ in_text])
    show "length ?b \<le> msgssz mi * nsegs mi cnt" using b fill by linarith
    show "segs_of mi (msgh st ! j) \<inter> block (nsegs mi cnt) (s + 1) = {}"
      using texts_okD(5) [OF T that] sub by blast
  qed
  show ?thesis
  proof (cases "length (sa_text a) < cnt")
    case True
    let ?st1 = "?st\<lparr>mtext := ?t\<rparr>"
    obtain m' where free: "free_text mi cnt (int s + 1) ?st1 = Done (?st1\<lparr>mmap := m'\<rparr>)"
      and m': "rmap_ok m'" "map_units m' \<subseteq> map_units m \<union> segs_of mi ?h"
      by (rule free_text_ok [OF info h(1), of ?st1]) (use m h ts cnt in \<open>auto simp: h(3)\<close>)
    let ?st' = "put_header mp (?st1\<lparr>mmap := m'\<rparr>)"
    have eq: "?st' = put_header mp (st\<lparr>msgfp := msg_next (msgh st ! mp), mmap := m', mtext := ?t\<rparr>)"
      by (cases st) simp
    have sub': "map_units m' \<subseteq> map_units (mmap st)"
      using m'(2) m(2) sub h(2) by blast
    note K = putback_keeps [OF rep bytes x eq m'(1) sub' len old]
    have "msgsnd_copy mi ca a mtyp x mp (Some s) ?st = Done (Snd_ret (Some EFAULT), ?st')"
      using wr free True cnt(1) by (simp add: msgsnd_copy_def Let_def)
    moreover have "snd_spec mi a mtyp x st (Snd_ret (Some EFAULT)) ?st'"
      using K True cnt(1) by (simp add: snd_spec_def Let_def)
    ultimately show ?thesis using that K(1) by blast
  next
    case False
    then have lb: "length ?b = cnt" by simp
    have "nat (int (msgssz mi) * int s) = msgssz mi * s"
      by (simp add: nat_mult_distrib)
    then have body: "hdr_text mi ?t ?h = ?b"
      using lb in_text unfolding hdr_text_def ts h(3) patched_def by simp
    obtain st' where run: "msg_link ca x mtyp cnt (Some s) mp
        (st\<lparr>msgfp := msg_next (msgh st ! mp), mmap := m, mtext := ?t\<rparr>) = Done st'"
      and ok: "msg_ok mi st'" and only: "only_queue mi x st st'"
      and new: "messages mi st' x = messages mi st x @ [(mtyp, hdr_text mi ?t ?h)]"
      by (rule msg_link_done [OF rep bytes info x cnt(3) used h(1) _ m(1) _ len old])
        (use sub m(2) h(2) in auto)
    have "msgsnd_copy mi ca a mtyp x mp (Some s) ?st = Done (Snd_ret None, st')"
      using wr run False cnt(1) by (simp add: msgsnd_copy_def Let_def)
    moreover have "snd_spec mi a mtyp x st (Snd_ret None) st'"
      using only new room False cnt(1) body by (simp add: snd_spec_def Let_def)
    ultimately show ?thesis using that ok by blast
  qed
qed


text \<open>From \<^verbatim>\<open>getres\<close> on: no room on the queue, a text to store, and all cases.\<close>

lemma snd_sums:
  assumes "msg_rep mi st qs fs" and "bytes_ok mi st qs" and "info_ok mi" and "x < msgmni mi"
    and "snd_valid mi a mtyp"
  shows "nat (sa_sz a) < 65536" and "1 \<le> mtyp"
    and "uadd (nat (sa_sz a)) (msg_cbytes (msgque st ! x)) = nat (sa_sz a) + msg_cbytes (msgque st ! x)"
proof -
  show cnt: "nat (sa_sz a) < 65536" and "1 \<le> mtyp"
    using assms(3,5) by (auto simp: snd_valid_def info_ok_def)
  have "msg_cbytes (msgque st ! x) \<le> msgseg mi * msgssz mi"
    using bytes_bound [OF msg_repD(1,2) [OF assms(1)] assms(3,4)] assms(2,4) by (simp add: bytes_ok_def)
  then show "uadd (nat (sa_sz a)) (msg_cbytes (msgque st ! x)) = nat (sa_sz a) + msg_cbytes (msgque st ! x)"
    using assms(3) cnt by (simp add: info_ok_def)
qed

lemma msgsnd_full:
  assumes rep: "msg_rep mi st qs fs" and bytes: "bytes_ok mi st qs" and x: "x < msgmni mi"
    and full: "nat (sa_sz a) + msg_cbytes (msgque st ! x) > msg_qbytes (msgque st ! x)"
  shows "snd_spec mi a mtyp x st Snd_sleep_room (set_q x (set_mode (q_mode (msgque st ! x) OR MSG_WWAIT) (msgque st ! x)) st)
      \<or> sa_flg a AND IPC_NOWAIT \<noteq> 0"
    and "msg_ok mi (set_q x (set_mode (q_mode (msgque st ! x) OR MSG_WWAIT) (msgque st ! x)) st)"
proof -
  note L = msg_repD(1) [OF rep]
  let ?q = "msgque st ! x"
  let ?st' = "set_q x (set_mode (q_mode ?q OR MSG_WWAIT) ?q) st"
  have rep': "msg_rep mi ?st' qs fs"
    by (rule msg_rep_set_q [OF rep x]) (simp_all add: same_perm_modes(3))
  have "bytes_ok mi ?st' qs"
    by (rule bytes_ok_update [OF bytes _ set_q_simps(1)]) (simp_all add: links_okD(1) [OF L])
  with rep' show "msg_ok mi ?st'" by (auto simp: msg_ok_def)
  have "message mi ?st' j = message mi st j" for j by (simp add: message_def)
  note K = kept_messages [OF L msg_repD(1) [OF rep'] x this]
  have "q_mode (msgque ?st' ! x) AND MSG_WWAIT \<noteq> 0"
    using x links_okD(1) [OF L] by (simp add: or_bit_set) (simp add: MSG_WWAIT_def)
  then show "snd_spec mi a mtyp x st Snd_sleep_room ?st' \<or> sa_flg a AND IPC_NOWAIT \<noteq> 0"
    using full K by (simp add: snd_spec_def Let_def)
qed

lemma msgsnd_text:
  assumes rep: "msg_rep mi st qs (mp # fs)" and bytes: "bytes_ok mi st qs" and info: "info_ok mi"
    and x: "x < msgmni mi" and used: "ipc_allocated (msg_perm (msgque st ! x))" and v: "snd_valid mi a mtyp"
    and cnt: "nat (sa_sz a) = cnt" "0 < cnt"
    and room: "\<not> cnt + msg_cbytes (msgque st ! x) > msg_qbytes (msgque st ! x)"
  obtains res st' where "msgsnd_getres mi ca a mtyp x st = Done (res, st')"
    and "snd_spec mi a mtyp x st res st'" and "msg_ok mi st'"
proof -
  note L = msg_repD(1) [OF rep] and T = msg_repD(2) [OF rep]
  note S = snd_sums [OF rep bytes info x v, unfolded cnt(1)]
  note step = msgsnd_getres_def Let_def cnt(1) S(3)
  have mp: "msgfp st = Some mp" "\<not> length (msgh st) \<le> mp"
    using links_okD(4) [OF L] by simp_all
  have q: "btoq mi cnt = Done (nsegs mi cnt)" by (rule btoq_nsegs [OF info S(1)])
  show ?thesis
  proof (rule text_place [OF info T cnt(2) S(1,2)])
    assume none: "rmalloc_locked (mmap st) (nsegs mi cnt) = Done (0, mmap st)" "m_free_run mi st cnt = {}"
    define m where "m = (if sa_flg a AND IPC_NOWAIT \<noteq> 0 then mmap st
      else (mmap st)\<lparr>m_want := m_want (mmap st) + 1\<rparr>)"
    let ?st' = "put_header mp (st\<lparr>msgfp := msg_next (msgh st ! mp), mmap := m, mtext := mtext st\<rparr>)"
    have m: "rmap_ok m" "map_units m \<subseteq> map_units (mmap st)"
      using texts_okD(1) [OF T] by (simp_all add: m_def)
    note K = putback_keeps [OF rep bytes x refl m refl refl]
    have "msgsnd_getres mi ca a mtyp x st =
        Done (if sa_flg a AND IPC_NOWAIT \<noteq> 0 then Snd_ret (Some EAGAIN) else Snd_sleep_text, ?st')"
      unfolding step msgst_eta(2) [symmetric] using room mp cnt(2) q none(1) by (simp add: m_def)
    moreover have "snd_spec mi a mtyp x st
        (if sa_flg a AND IPC_NOWAIT \<noteq> 0 then Snd_ret (Some EAGAIN) else Snd_sleep_text) ?st'"
      using K none(2) cnt(1) by (simp add: snd_spec_def Let_def) (simp add: m_def)
    ultimately show ?thesis using that K(1) by blast
  next
    fix s m
    assume place: "rmalloc_locked (mmap st) (nsegs mi cnt) = Done (Suc s, m)" "rmap_ok m"
      "hdr_ok mi (new_hdr mtyp cnt (Some s))"
      "segs_of mi (new_hdr mtyp cnt (Some s)) = block (nsegs mi cnt) (s + 1)"
      "block (nsegs mi cnt) (s + 1) \<subseteq> map_units (mmap st)"
      "map_units m = map_units (mmap st) - block (nsegs mi cnt) (s + 1)"
      "msgssz mi * s + cnt \<le> length (mtext st)" "msg_spot (new_hdr mtyp cnt (Some s)) = int s"
    have run: "msgsnd_getres mi ca a mtyp x st =
        msgsnd_copy mi ca a mtyp x mp (Some s) (st\<lparr>msgfp := msg_next (msgh st ! mp), mmap := m\<rparr>)"
      unfolding step using room mp cnt(2) q place(1) by simp
    show ?thesis
      by (rule msgsnd_copy_text [OF rep bytes info x used cnt S(1) room place(2,6,3,4,8,5,7), of ca])
        (use that run in simp)
  qed
qed

lemma msgsnd_getres_spec:
  assumes rep: "msg_rep mi st qs fs" and bytes: "bytes_ok mi st qs" and info: "info_ok mi"
    and x: "x < msgmni mi" and used: "ipc_allocated (msg_perm (msgque st ! x))" and v: "snd_valid mi a mtyp"
  obtains res st' where "msgsnd_getres mi ca a mtyp x st = Done (res, st')"
    and "snd_spec mi a mtyp x st res st'" and "msg_ok mi st'"
proof -
  let ?q = "msgque st ! x" and ?cnt = "nat (sa_sz a)"
  note step = msgsnd_getres_def Let_def snd_sums(3) [OF rep bytes info x v]
  have ok: "msg_ok mi st" using rep bytes by (auto simp: msg_ok_def)
  have same: "only_queue mi x st st" by (simp add: only_queue_def)
  have free: "linked (msgh st) (msgfp st) fs" by (rule links_okD(4) [OF msg_repD(1) [OF rep]])
  consider (full) "?cnt + msg_cbytes ?q > msg_qbytes ?q"
    | (no_header) "\<not> ?cnt + msg_cbytes ?q > msg_qbytes ?q" "fs = []"
    | (empty) mp fs' where "\<not> ?cnt + msg_cbytes ?q > msg_qbytes ?q" "fs = mp # fs'" "?cnt = 0"
    | (header) mp fs' where "\<not> ?cnt + msg_cbytes ?q > msg_qbytes ?q" "fs = mp # fs'" "0 < ?cnt"
    by (cases fs) blast+
  then show ?thesis
  proof cases
    case full
    note F = msgsnd_full(1) [OF rep bytes x full, of "mtyp"] msgsnd_full(2) [OF rep bytes x full]
    have "snd_spec mi a mtyp x st (Snd_ret (Some EAGAIN)) st" if "sa_flg a AND IPC_NOWAIT \<noteq> 0"
      using full same that by (simp add: snd_spec_def Let_def)
    with F show ?thesis
      using that ok full by (cases "sa_flg a AND IPC_NOWAIT = 0") (simp_all add: step)
  next
    case no_header
    then have none: "msgfp st = None" using free by simp
    then have "snd_spec mi a mtyp x st (if sa_flg a AND IPC_NOWAIT \<noteq> 0 then Snd_ret (Some EAGAIN) else Snd_sleep_header) st"
      using same by (simp add: snd_spec_def Let_def)
    moreover have "msgsnd_getres mi ca a mtyp x st =
        Done (if sa_flg a AND IPC_NOWAIT \<noteq> 0 then Snd_ret (Some EAGAIN) else Snd_sleep_header, st)"
      using no_header none unfolding step by simp
    ultimately show ?thesis using that ok by blast
  next
    case empty
    have run: "msgsnd_getres mi ca a mtyp x st = msgsnd_copy mi ca a mtyp x mp None (st\<lparr>msgfp := msg_next (msgh st ! mp)\<rparr>)"
      using empty free unfolding step by simp
    show ?thesis
      by (rule msgsnd_copy_empty [OF rep [unfolded empty(2)] bytes info x used v empty(3), of ca])
        (use empty that run in simp_all)
  next
    case header
    show ?thesis
      by (rule msgsnd_text [OF rep [unfolded header(2)] bytes info x used v refl header(3,1)]) (rule that)
  qed
qed


section \<open>Identifiers and removal\<close>

lemma msgconv_cases:
  assumes info: "info_ok mi" and rep: "msg_rep mi st qs fs"
  obtains (bad) "msgconv mi msqid st = Done (Inl EINVAL)"
    | (queue) x where "msgconv mi msqid st = Done (Inr x)" and "x < msgmni mi"
      and "ipc_allocated (msg_perm (msgque st ! x))"
      and "msqid = int (ip_seq (msg_perm (msgque st ! x)) * msgmni mi + x)"
proof -
  let ?n = "int (msgmni mi)" and ?x = "nat (msqid mod int (msgmni mi))"
  have n: "0 < ?n" using info by (simp add: info_ok_def)
  have len: "length (msgque st) = msgmni mi" by (rule links_okD(1) [OF msg_repD(1) [OF rep]])
  have x: "?x < msgmni mi" using n by (simp add: nat_less_iff)
  show ?thesis
  proof (cases "msqid < 0 \<or> queue_gone mi msqid (msgque st ! ?x)")
    case True
    then show ?thesis using bad n x len by (auto simp: msgconv_def Let_def)
  next
    case False
    then have "int (ip_seq (msg_perm (msgque st ! ?x))) = msqid div ?n"
      by (simp add: queue_gone_def)
    then have "int (ip_seq (msg_perm (msgque st ! ?x)) * msgmni mi + ?x) = msqid div ?n * ?n + msqid mod ?n"
      using n by simp
    also have "\<dots> = msqid" by (rule div_mult_mod_eq)
    finally have "msqid = int (ip_seq (msg_perm (msgque st ! ?x)) * msgmni mi + ?x)" ..
    then show ?thesis
      using queue [of ?x] False n x len by (simp add: msgconv_def queue_gone_def Let_def)
  qed
qed

lemma msgconv_own:
  assumes info: "info_ok mi" and len: "length (msgque st) = msgmni mi" and x: "x < msgmni mi"
    and used: "ipc_allocated (msg_perm (msgque st ! x))"
  shows "msgconv mi (int (ip_seq (msg_perm (msgque st ! x)) * msgmni mi + x)) st = Done (Inr x)"
proof -
  have "int (ip_seq (msg_perm (msgque st ! x)) * msgmni mi + x) div int (msgmni mi) = int (ip_seq (msg_perm (msgque st ! x)))"
    using x by (subst zdiv_int [symmetric]) simp
  moreover have "int (ip_seq (msg_perm (msgque st ! x)) * msgmni mi + x) mod int (msgmni mi) = int x"
    using x by (subst zmod_int [symmetric]) simp
  ultimately show ?thesis
    using assms by (simp add: msgconv_def Let_def queue_gone_def info_ok_def del: of_nat_add of_nat_mult)
qed

lemma msg_purge_done:
  assumes "msg_rep mi st qs fs" and info: "info_ok mi" and x: "x < msgmni mi"
  shows "\<exists>st' fs' q'. msg_purge mi x st = Some (Done st') \<and> msg_rep mi st' (qs(x := [])) fs' \<and>
    (\<forall>j. same_msg (msgh st ! j) (msgh st' ! j)) \<and> mtext st' = mtext st \<and>
    msgque st' = (msgque st)[x := q'] \<and> same_perm (msg_perm (msgque st ! x)) (msg_perm q')"
  using assms(1)
proof (induction "qs x" arbitrary: st qs fs)
  case Nil
  have "q_links (msgh st) [] (msgque st ! x)"
    using links_okD(3) [OF msg_repD(1) [OF Nil.prems] x] unfolding Nil.hyps [symmetric] .
  then have "msg_first (msgque st ! x) = None" by (simp add: q_links_def)
  then have "msg_purge mi x st = Some (Done st)"
    by (simp add: msg_purge.simps)
  moreover have "qs(x := []) = qs" using Nil.hyps by auto
  ultimately show ?case
    using Nil.prems by (intro exI [of _ st] exI [of _ fs] exI [of _ "msgque st ! x"]) simp
next
  case (Cons i js)
  note L = msg_repD(1) [OF Cons.prems]
  have q: "qs x = [] @ i # js" using Cons.hyps(2) by simp
  have "q_links (msgh st) (i # js) (msgque st ! x)"
    using links_okD(3) [OF L x] unfolding Cons.hyps(2) [symmetric] .
  then have first: "msg_first (msgque st ! x) = Some i" by (simp add: q_links_def)
  obtain st1 m where free: "msgfree mi x (last_opt []) i st = Done st1"
    and rep1: "msg_rep mi st1 (qs(x := [] @ js)) (i # fs)"
    and same1: "\<And>j. same_msg (msgh st ! j) (msgh st1 ! j)" and tx1: "mtext st1 = mtext st"
    and que1: "msgque st1 = (msgque st)[x := set_mode m (unlinked_q (last_opt []) (msg_next (msgh st ! i)) (msgque st ! x))]"
    and perm1: "same_perm (msg_perm (msgque st ! x)) (msg_perm (msgque st1 ! x))"
    by (rule msgfree_done [OF Cons.prems info x q]) blast
  obtain st' fs' q' where rest: "msg_purge mi x st1 = Some (Done st')"
    "msg_rep mi st' ((qs(x := [] @ js))(x := [])) fs'" "mtext st' = mtext st1"
    and same': "\<forall>j. same_msg (msgh st1 ! j) (msgh st' ! j)"
    and que': "msgque st' = (msgque st1)[x := q']" "same_perm (msg_perm (msgque st1 ! x)) (msg_perm q')"
    using Cons.hyps(1) [OF _ rep1] by auto
  have "msg_purge mi x st = Some (Done st')"
    using free first rest(1) by (subst msg_purge.simps) simp
  moreover have "same_msg (msgh st ! j) (msgh st' ! j)" for j
    using same1 [of j] same' by (simp add: same_msg_def)
  moreover have "msgque st' = (msgque st)[x := q']"
    using que' que1 by simp
  moreover have "same_perm (msg_perm (msgque st ! x)) (msg_perm q')"
    using perm1 que'(2) by (simp add: same_perm_def)
  ultimately show ?case
    using rest tx1 by auto
qed

end
