(* ===== verification/Msg_Reach.thy ===== *)
theory Msg_Reach
  imports Msg_Calls
begin

text \<open>
  Messages, concluded: creation and removal of queues, the invariant of all states that calls can
  lead to, however many callers there are and in whatever order they run, sleep, are woken or
  interrupted, and the properties of the message calls.
\<close>

section \<open>Removal\<close>

lemma perms_ok_release:
  assumes ok: "perms_ok mi st qs" and len: "length (msgque st) = msgmni mi"
    and que: "msgque st' = (msgque st)[x := q']" and x: "x < msgmni mi"
    and p: "\<not> ipc_allocated (msg_perm q')" "ip_seq (msg_perm q') * msgmni mi + x < 2147483648"
    and "qs x = []"
  shows "perms_ok mi st' qs"
proof -
  have "keys_ok (map msg_perm (msgque st'))"
    by (rule keys_ok_cong [of _ "map msg_perm (msgque st)"])
      (use ok p(1) len que x in \<open>auto simp: perms_ok_def nth_list_update split: if_splits\<close>)
  then show ?thesis
    using ok assms(7) p len que x by (simp add: perms_ok_def nth_list_update)
qed

lemma next_seq_bound:
  assumes "info_ok mi" and "x < msgmni mi" and "seq * msgmni mi + x < 2147483648"
    and "msqid = int (seq * msgmni mi + x)"
  shows "(if s32 (msqid + int (msgmni mi)) < 0 then 0 else seq + 1) * msgmni mi + x < 2147483648"
proof -
  define n where "n = seq * msgmni mi + x"
  have mni: "msgmni mi < 2147483648" using assms(1) by (simp add: info_ok_def)
  have n: "n < 2147483648" "msqid = int n" "(seq + 1) * msgmni mi + x = n + msgmni mi"
    using assms(3,4) by (simp_all add: n_def)
  show ?thesis
  proof (cases "n + msgmni mi < 2147483648")
    case True
    then show ?thesis using mni assms(2) n(3) by simp
  next
    case False
    then have "s32 (msqid + int (msgmni mi)) = msqid + int (msgmni mi) - 4294967296"
      using n(1,2) mni by (intro s32_high) linarith+
    then show ?thesis using n(1,2) mni assms(2) by simp
  qed
qed

lemma msg_removed_effect:
  obtains q' where "msgque (msg_removed mi msqid x st) = (msgque st)[x := q']"
    and "msg_perm q' = (msg_perm (msgque st ! x))\<lparr>ip_seq := (if s32 (msqid + int (msgmni mi)) < 0 then 0
        else ip_seq (msg_perm (msgque st ! x)) + 1), ip_mode := 0\<rparr>"
    and "msg_cbytes q' = 0" and "msg_first q' = msg_first (msgque st ! x)"
    and "msg_last q' = msg_last (msgque st ! x)" and "msg_qnum q' = msg_qnum (msgque st ! x)"
    and "msgh (msg_removed mi msqid x st) = msgh st" and "msgfp (msg_removed mi msqid x st) = msgfp st"
    and "mtext (msg_removed mi msqid x st) = mtext st" and "mmap (msg_removed mi msqid x st) = mmap st"
proof (rule that)
  let ?p = "msg_perm (msgque st ! x)"
  show "msgque (msg_removed mi msqid x st) = (msgque st)[x := (msgque st ! x)\<lparr>msg_cbytes := 0,
      msg_perm := ?p\<lparr>ip_seq := (if s32 (msqid + int (msgmni mi)) < 0 then 0 else ip_seq ?p + 1), ip_mode := 0\<rparr>\<rparr>]"
    by (simp add: msg_removed_def Let_def)
qed (simp_all add: msg_removed_def Let_def)

lemma bytes_ok_purged:
  assumes bytes: "bytes_ok mi st qs" and len: "length (msgque st) = msgmni mi"
    and same: "\<And>j. msg_ts (msgh st' ! j) = msg_ts (msgh st ! j)"
    and que: "msgque st' = (msgque st)[x := q']" and q': "msg_cbytes q' = 0"
  shows "bytes_ok mi st' (qs(x := []))"
  using assms by (auto simp: bytes_ok_def nth_list_update)

lemma msg_rmid_done:
  assumes rep: "msg_rep mi st qs fs" and bytes: "bytes_ok mi st qs" and info: "info_ok mi"
    and x: "x < msgmni mi" and owner: "msg_owner ca (msgque st ! x)"
    and msqid: "msqid = int (ip_seq (msg_perm (msgque st ! x)) * msgmni mi + x)"
  obtains st' where "msg_rmid mi ca msqid x st = Some (Done (None, st'))" and "msg_ok mi st'"
    and "messages mi st' x = []" and "only_queue mi x st st'"
    and "\<not> ipc_allocated (msg_perm (msgque st' ! x))"
    and "ip_seq (msg_perm (msgque st' ! x)) =
      (if s32 (msqid + int (msgmni mi)) < 0 then 0 else ip_seq (msg_perm (msgque st ! x)) + 1)"
proof -
  note L = msg_repD(1) [OF rep]
  obtain st1 fs' q1 where purge: "msg_purge mi x st = Some (Done st1)"
    and rep1: "msg_rep mi st1 (qs(x := [])) fs'"
    and same: "\<And>j. same_msg (msgh st ! j) (msgh st1 ! j)" and tx: "mtext st1 = mtext st"
    and que1: "msgque st1 = (msgque st)[x := q1]" "same_perm (msg_perm (msgque st ! x)) (msg_perm q1)"
    using msg_purge_done [OF rep info x] by blast
  let ?st' = "msg_removed mi msqid x st1" and ?qs = "qs(x := [])"
  note L1 = msg_repD(1) [OF rep1]
  have len: "length (msgque st) = msgmni mi" "length (msgque st1) = msgmni mi"
    by (rule links_okD(1) [OF L], rule links_okD(1) [OF L1])
  obtain q' where que': "msgque ?st' = (msgque st1)[x := q']"
    and p': "msg_perm q' = (msg_perm (msgque st1 ! x))\<lparr>ip_seq := (if s32 (msqid + int (msgmni mi)) < 0 then 0
        else ip_seq (msg_perm (msgque st1 ! x)) + 1), ip_mode := 0\<rparr>"
    and q': "msg_cbytes q' = 0" "msg_first q' = msg_first (msgque st1 ! x)"
      "msg_last q' = msg_last (msgque st1 ! x)" "msg_qnum q' = msg_qnum (msgque st1 ! x)"
    and rest: "msgh ?st' = msgh st1" "msgfp ?st' = msgfp st1" "mtext ?st' = mtext st1" "mmap ?st' = mmap st1"
    by (rule msg_removed_effect)
  have seq: "ip_seq (msg_perm (msgque st1 ! x)) = ip_seq (msg_perm (msgque st ! x))"
    using que1 x len by (simp add: same_perm_def)
  have old: "ip_seq (msg_perm (msgque st ! x)) * msgmni mi + x < 2147483648"
    using msg_repD(3) [OF rep] x by (simp add: perms_ok_def)
  have sq: "ip_seq (msg_perm q') =
      (if s32 (msqid + int (msgmni mi)) < 0 then 0 else ip_seq (msg_perm (msgque st ! x)) + 1)"
    by (simp add: p' seq)
  have un: "\<not> ipc_allocated (msg_perm q')"
    by (simp add: p' ipc_allocated_def)
  have "q_links (msgh st1) (?qs x) q'"
    using links_okD(3) [OF L1 x] q' by (simp add: q_links_def)
  then have L': "links_ok mi ?st' (?qs(x := ?qs x)) fs'"
    using rest links_okD(4,5,6,8) [OF L1] x by (intro links_ok_move [OF L1 x que']) simp_all
  moreover have "texts_ok mi ?st' (queued mi ?qs)"
    using msg_repD(2) [OF rep1] rest by (simp add: texts_ok_def)
  moreover have "perms_ok mi ?st' ?qs"
    using next_seq_bound [OF info x old msqid] un
    by (intro perms_ok_release [OF msg_repD(3) [OF rep1] len(2) que' x]) (simp_all only: sq fun_upd_same not_False_eq_True)
  moreover have "bytes_ok mi ?st' ?qs"
    using que' que1 q'(1) same_msgD(5) [OF same] rest
    by (intro bytes_ok_purged [OF bytes len(1), of _ x q']) simp_all
  ultimately have "msg_ok mi ?st'"
    by (auto simp: msg_ok_def msg_rep_def)
  moreover have "message mi ?st' j = message mi st j" for j
    using message_same [OF same tx] rest by (simp add: message_def)
  then have "messages mi ?st' x = []" and "only_queue mi x st ?st'"
    using messages_update [OF L, of ?st' x "[]" fs'] L' x by simp_all
  moreover have "msg_rmid mi ca msqid x st = Some (Done (None, ?st'))"
    using owner purge by (simp add: msg_rmid_def)
  moreover have "msg_perm (msgque ?st' ! x) = msg_perm q'"
    using que' x len(2) by simp
  ultimately show ?thesis
    using that [of ?st'] un sq by simp
qed


section \<open>Every call keeps the invariant\<close>

lemma msg_ok_same_lists:
  assumes rep: "msg_rep mi st qs fs" and bytes: "bytes_ok mi st qs" and x: "x < msgmni mi"
    and q: "msg_first q' = msg_first (msgque st ! x)" "msg_last q' = msg_last (msgque st ! x)"
      "msg_qnum q' = msg_qnum (msgque st ! x)" "msg_cbytes q' = msg_cbytes (msgque st ! x)"
      "same_perm (msg_perm (msgque st ! x)) (msg_perm q')"
  shows "msg_ok mi (set_q x q' st)"
proof -
  have "msg_rep mi (set_q x q' st) qs fs"
    by (rule msg_rep_set_q [OF rep x q(1,2,3,5)]) simp_all
  moreover have "bytes_ok mi (set_q x q' st) qs"
    by (rule bytes_ok_update [OF bytes _ set_q_simps(1) q(4)])
      (simp_all add: links_okD(1) [OF msg_repD(1) [OF rep]])
  ultimately show ?thesis by (auto simp: msg_ok_def)
qed

lemma msg_ok_broadcast [simp]: "msg_ok mi (broadcast w st) = msg_ok mi st"
  by (simp add: msg_ok_def msg_rep_def links_ok_def texts_ok_def perms_ok_def bytes_ok_def)

lemma msg_install_ok:
  assumes "msg_rep mi st qs fs" and "bytes_ok mi st qs" and "x < msgmni mi"
  shows "msg_ok mi (msg_install ca x uid gid mode qbytes st)"
  unfolding msg_install_def Let_def
  by (rule msg_ok_same_lists [OF assms]) (simp_all add: same_perm_modes(5))

lemma msgctl_ok:
  assumes info: "info_ok mi" and "msg_ok mi st"
  shows "\<exists>r st'. msgctl mi ca msqid cmd st = Some (Done (r, st')) \<and> msg_ok mi st'"
proof -
  obtain qs fs where rep: "msg_rep mi st qs fs" and bytes: "bytes_ok mi st qs"
    using assms(2) by (auto simp: msg_ok_def)
  show ?thesis
  proof (rule msgconv_cases [OF info rep, of msqid])
    assume "msgconv mi msqid st = Done (Inl EINVAL)"
    then show ?thesis using assms(2) by (simp add: msgctl_def)
  next
    fix x
    assume conv: "msgconv mi msqid st = Done (Inr x)" and x: "x < msgmni mi"
      and id: "msqid = int (ip_seq (msg_perm (msgque st ! x)) * msgmni mi + x)"
    show ?thesis
    proof (cases "cmd = MSG_RMID \<and> msg_owner ca (msgque st ! x)")
      case True
      then obtain st' where "msg_rmid mi ca msqid x st = Some (Done (None, st'))" and "msg_ok mi st'"
        using msg_rmid_done [OF rep bytes info x _ id] by blast
      with True conv show ?thesis by (simp add: msgctl_def)
    next
      case False
      then show ?thesis
        using conv assms(2) msg_install_ok [OF rep bytes x]
        by (cases cmd) (auto simp: msgctl_def msg_rmid_def msg_ipc_set_def msg_ipc_o_set_def Let_def
            split: option.split)
    qed
  qed
qed

text \<open>
  \<open>msgget\<close> finds a queue, or sets one up that nobody uses; the identifier it returns leads back
  to the queue.
\<close>

lemma msgget_cases:
  assumes info: "info_ok mi" and rep: "msg_rep mi st qs fs" and bytes: "bytes_ok mi st qs"
  obtains (fail) e where "msgget mi ca key flg st = (Inl e, st)"
    | (found) x where "msgget mi ca key flg st
        = (Inr (int (ip_seq (msg_perm (msgque st ! x)) * msgmni mi + x)), st)"
      and "x < msgmni mi" and "ipc_allocated (msg_perm (msgque st ! x))"
    | (new) x st' where "msgget mi ca key flg st
        = (Inr (int (ip_seq (msg_perm (msgque st ! x)) * msgmni mi + x)), st')"
      and "x < msgmni mi" and "\<not> ipc_allocated (msg_perm (msgque st ! x))"
      and "msg_perm (msgque st' ! x) = ipc_init_perm key flg (ca_cred ca) (msg_perm (msgque st ! x))"
      and "msg_rep mi st' qs fs" and "bytes_ok mi st' qs" and "qs x = []"
      and "msgh st' = msgh st" and "mtext st' = mtext st"
proof -
  note L = msg_repD(1) [OF rep] and P = msg_repD(3) [OF rep]
  have len: "length (msgque st) = msgmni mi" by (rule links_okD(1) [OF L])
  let ?ps = "map msg_perm (msgque st)"
  have id: "s32 (int (ip_seq (msg_perm (msgque st ! x))) * int (msgmni mi) + int x)
      = int (ip_seq (msg_perm (msgque st ! x)) * msgmni mi + x)" if "x < msgmni mi" for x
  proof -
    have "ip_seq (msg_perm (msgque st ! x)) * msgmni mi + x < 2147483648"
      using P that by (simp add: perms_ok_def)
    then have "s32 (int (ip_seq (msg_perm (msgque st ! x)) * msgmni mi + x)) = int (ip_seq (msg_perm (msgque st ! x)) * msgmni mi + x)"
      by (intro s32_exact) linarith+
    then show ?thesis by simp
  qed
  show ?thesis
  proof (cases "ipcget key flg ?ps (ca_cred ca)")
    case (Inl e)
    then show ?thesis using fail by (simp add: msgget_def)
  next
    case (Inr r)
    then obtain s x ps' where get: "ipcget key flg ?ps (ca_cred ca) = Inr (s, x, ps')"
      by (metis prod_cases3)
    show ?thesis
    proof (cases "s = 0")
      case True
      note F = ipcget_found [OF get [unfolded True]]
      have x: "x < msgmni mi" using F(2) len by simp
      have "ps' ! x = msg_perm (msgque st ! x)"
        using F(1,2) by simp
      then have "msgget mi ca key flg st
          = (Inr (int (ip_seq (msg_perm (msgque st ! x)) * msgmni mi + x)), st)"
        using get True id [OF x] by (simp add: msgget_def set_q_def)
      then show ?thesis using found x F(2,3) by simp
    next
      case False
      note C = ipcget_created [OF get False]
      have x: "x < msgmni mi" using C(3) len by simp
      define q' where "q' = (msgque st ! x)\<lparr>msg_perm := ps' ! x, msg_first := None, msg_last := None,
        msg_qnum := 0, msg_qbytes := msgmnb mi, msg_lspid := 0, msg_lrpid := 0, msg_stime := 0,
        msg_rtime := 0, msg_ctime := ca_now ca\<rparr>"
      let ?st' = "set_q x q' st"
      have p: "ps' ! x = ipc_init_perm key flg (ca_cred ca) (msg_perm (msgque st ! x))"
        using C(2,3) by simp
      have un: "\<not> ipc_allocated (msg_perm (msgque st ! x))" using C(3,4) by simp
      then have empty: "qs x = []" using P x by (simp add: perms_ok_def)
      have old: "q_links (msgh st) [] (msgque st ! x)"
        using links_okD(3) [OF L x] empty by simp
      have "links_ok mi ?st' (qs(x := qs x)) fs"
        using links_okD(4,5,6,8) [OF L] x empty
        by (intro links_ok_move [OF L x set_q_simps(1)]) (simp_all add: q_links_def q'_def)
      moreover have "texts_ok mi ?st' (queued mi qs)"
        using msg_repD(2) [OF rep] by (simp add: texts_ok_def)
      moreover have "perms_ok mi ?st' qs"
      proof -
        have "map msg_perm (msgque ?st') = ps'"
          using C(2,3) by (simp add: map_update q'_def p)
        then have "keys_ok (map msg_perm (msgque ?st'))"
          using keys_ok_ipcget [OF _ get] P by (simp add: perms_ok_def)
        then show ?thesis
          using P x len empty p by (auto simp: perms_ok_def nth_list_update q'_def)
      qed
      ultimately have rep': "msg_rep mi ?st' qs fs" by (simp add: msg_rep_def)
      have bytes': "bytes_ok mi ?st' qs"
        by (rule bytes_ok_update [OF bytes _ set_q_simps(1)]) (simp_all add: q'_def len)
      have "msgget mi ca key flg st
          = (Inr (int (ip_seq (msg_perm (msgque st ! x)) * msgmni mi + x)), ?st')"
        using get False id [OF x] p by (simp add: msgget_def q'_def Let_def)
      then show ?thesis
        using new [of x ?st'] x un rep' bytes' empty len p by (simp add: q'_def)
    qed
  qed
qed


section \<open>Reachable states\<close>

text \<open>The size of a receiver's buffer is an \<^verbatim>\<open>int\<close>.\<close>

definition call_ok :: "msgcall \<Rightarrow> bool" where
  "call_ok call \<longleftrightarrow> (case call of MSGRCV r \<Rightarrow> ra_sz r < 2 ^ 31 | _ \<Rightarrow> True)"

text \<open>
  Any caller may make any call at any time; a caller that sleeps in a call it was entitled to make
  may be woken or interrupted at any time, for whatever reason. A receiver that is interrupted
  changes nothing. There is no state after a wild access: where the code makes one, the run ends, and the
  properties below say when that happens.
\<close>

inductive msg_reach :: "msginfo \<Rightarrow> msgst \<Rightarrow> msgst \<Rightarrow> bool" for mi st0 where
  start: "msg_reach mi st0 st0"
| call: "msg_reach mi st0 st \<Longrightarrow> call_ok call \<Longrightarrow> msgsys mi ca call st = Some (Done (r, st')) \<Longrightarrow>
    msg_reach mi st0 st'"
| rcv_woken: "msg_reach mi st0 st \<Longrightarrow> sized r \<Longrightarrow> x < msgmni mi \<Longrightarrow>
    msgrcv_woken mi ca r x st = Some (Done (res, st')) \<Longrightarrow> msg_reach mi st0 st'"
| room_woken: "msg_reach mi st0 st \<Longrightarrow> snd_valid mi a mtyp \<Longrightarrow> x < msgmni mi \<Longrightarrow>
    msgsnd_room_woken mi ca a mtyp x st = Done (sres, st') \<Longrightarrow> msg_reach mi st0 st'"
| pool_woken: "msg_reach mi st0 st \<Longrightarrow> snd_valid mi a mtyp \<Longrightarrow>
    msgsnd_pool_woken mi ca a mtyp st = Done (sres, st') \<Longrightarrow> msg_reach mi st0 st'"
| room_interrupted: "msg_reach mi st0 st \<Longrightarrow> x < msgmni mi \<Longrightarrow>
    msgsnd_room_interrupted mi a x st = Done (sres, st') \<Longrightarrow> msg_reach mi st0 st'"
| header_interrupted: "msg_reach mi st0 st \<Longrightarrow>
    msgsnd_header_interrupted mi a st = Done (sres, st') \<Longrightarrow> msg_reach mi st0 st'"
| text_interrupted: "msg_reach mi st0 st \<Longrightarrow>
    msgsnd_text_interrupted mi a st = Done (sres, st') \<Longrightarrow> msg_reach mi st0 st'"

text \<open>The receiving and the sending call as a whole.\<close>

lemma msgrcv_call:
  assumes info: "info_ok mi" and ok: "msg_ok mi st" and r: "ra_sz r < 2 ^ 31"
  obtains res st' where "msgrcv mi ca r st = Some (Done (res, st'))" and "msg_ok mi st'"
    and "(\<exists>e. res = Rcv_err e \<and> st' = st) \<or>
      (\<exists>x. msgconv mi (ra_id r) st = Done (Inr x) \<and> x < msgmni mi \<and> rcv_spec mi r x st res st')"
    and "\<And>x. msgconv mi (ra_id r) st = Done (Inr x) \<Longrightarrow>
      ipcaccess (msg_perm (msgque st ! x)) MSG_R (ca_cred ca) = None \<Longrightarrow> 0 \<le> ra_sz r \<Longrightarrow>
      rcv_spec mi r x st res st'"
proof -
  obtain qs fs where rep: "msg_rep mi st qs fs" and bytes: "bytes_ok mi st qs"
    using ok by (auto simp: msg_ok_def)
  show ?thesis
  proof (rule msgconv_cases [OF info rep, of "ra_id r"])
    assume "msgconv mi (ra_id r) st = Done (Inl EINVAL)"
    then show ?thesis using that [of "Rcv_err EINVAL" st] ok by (simp add: msgrcv_def)
  next
    fix x
    assume conv: "msgconv mi (ra_id r) st = Done (Inr x)" and x: "x < msgmni mi"
    show ?thesis
    proof (cases "ipcaccess (msg_perm (msgque st ! x)) MSG_R (ca_cred ca) = None \<and> 0 \<le> ra_sz r")
      case True
      then have "sized r" using r by (simp add: sized_def)
      from msgrcv_find_spec [OF rep bytes info x this] obtain res st' where
        "msgrcv_find mi ca r x st = Some (Done (res, st'))" "rcv_spec mi r x st res st'" "msg_ok mi st'"
        by metis
      then show ?thesis using that [of res st'] True conv x by (simp add: msgrcv_def)
    next
      case False
      then obtain e where "msgrcv mi ca r st = Some (Done (Rcv_err e, st))"
        using conv by (cases "ipcaccess (msg_perm (msgque st ! x)) MSG_R (ca_cred ca)") (simp_all add: msgrcv_def)
      then show ?thesis using that [of "Rcv_err e" st] ok False conv by auto
    qed
  qed
qed

lemma msgsnd_call:
  assumes info: "info_ok mi" and ok: "msg_ok mi st"
  obtains res st' where "msgsnd mi ca a st = Done (res, st')" and "msg_ok mi st'"
    and "(\<exists>e. res = Snd_ret (Some e) \<and> st' = st) \<or>
      (\<exists>x mtyp. msgconv mi (sa_id a) st = Done (Inr x) \<and> x < msgmni mi \<and> snd_valid mi a mtyp \<and>
         snd_spec mi a mtyp x st res st')"
    and "\<And>x mtyp. msgconv mi (sa_id a) st = Done (Inr x) \<Longrightarrow>
      ipcaccess (msg_perm (msgque st ! x)) MSG_W (ca_cred ca) = None \<Longrightarrow> sa_type a = Some mtyp \<Longrightarrow>
      snd_valid mi a mtyp \<Longrightarrow> snd_spec mi a mtyp x st res st'"
proof -
  obtain qs fs where rep: "msg_rep mi st qs fs" and bytes: "bytes_ok mi st qs"
    using ok by (auto simp: msg_ok_def)
  show ?thesis
  proof (rule msgconv_cases [OF info rep, of "sa_id a"])
    assume "msgconv mi (sa_id a) st = Done (Inl EINVAL)"
    then show ?thesis using that [of "Snd_ret (Some EINVAL)" st] ok by (simp add: msgsnd_def)
  next
    fix x
    assume conv: "msgconv mi (sa_id a) st = Done (Inr x)" and x: "x < msgmni mi"
      and used: "ipc_allocated (msg_perm (msgque st ! x))"
    show ?thesis
    proof (cases "ipcaccess (msg_perm (msgque st ! x)) MSG_W (ca_cred ca) = None \<and>
        (\<exists>mtyp. sa_type a = Some mtyp \<and> snd_valid mi a mtyp)")
      case True
      then obtain t where t: "sa_type a = Some t" and v: "snd_valid mi a t" by blast
      from msgsnd_getres_spec [OF rep bytes info x used v] obtain res st' where
        "msgsnd_getres mi ca a t x st = Done (res, st')" "snd_spec mi a t x st res st'" "msg_ok mi st'"
        by metis
      then show ?thesis
        using that [of res st'] True conv x t v by (auto simp: msgsnd_def snd_valid_def)
    next
      case False
      then have "\<exists>e. msgsnd mi ca a st = Done (Snd_ret (Some e), st)"
        using conv by (cases "ipcaccess (msg_perm (msgque st ! x)) MSG_W (ca_cred ca)"; cases "sa_type a")
          (auto simp: msgsnd_def snd_valid_def not_less)
      then obtain e where run: "msgsnd mi ca a st = Done (Snd_ret (Some e), st)" by blast
      show ?thesis
        by (rule that [OF run ok]) (use False conv in auto)
    qed
  qed
qed


lemma msgget_ok:
  assumes "info_ok mi" and "msg_ok mi st"
  shows "msg_ok mi (snd (msgget mi ca key flg st))"
proof -
  obtain qs fs where rep: "msg_rep mi st qs fs" "bytes_ok mi st qs"
    using assms(2) by (auto simp: msg_ok_def)
  show ?thesis
    by (rule msgget_cases [OF assms(1) rep, of ca key flg]) (use assms(2) in \<open>auto simp: msg_ok_def\<close>)
qed

lemma msgsys_ok:
  assumes "info_ok mi" and "msg_ok mi st" and "call_ok call"
  shows "\<exists>r st'. msgsys mi ca call st = Some (Done (r, st')) \<and> msg_ok mi st'"
proof (cases call)
  case (MSGGET key flg)
  then show ?thesis
    using msgget_ok [OF assms(1,2), of ca key flg] by (cases "msgget mi ca key flg st") (simp add: msgsys_def)
next
  case (MSGCTL msqid cmd)
  then show ?thesis using msgctl_ok [OF assms(1,2), of ca msqid cmd] by (auto simp: msgsys_def)
next
  case (MSGRCV r)
  then have r: "ra_sz r < 2 ^ 31" using assms(3) by (simp add: call_ok_def)
  show ?thesis
    by (rule msgrcv_call [OF assms(1,2) r, of ca]) (use MSGRCV in \<open>simp add: msgsys_def\<close>)
next
  case (MSGSND a)
  show ?thesis
    by (rule msgsnd_call [OF assms(1,2), of ca a]) (use MSGSND in \<open>simp add: msgsys_def\<close>)
next
  case MSG_OTHER
  then show ?thesis using assms(2) by (simp add: msgsys_def)
qed


lemma msgsnd_getres_ok:
  assumes "info_ok mi" and "msg_ok mi st" and "x < msgmni mi" and "ipc_allocated (msg_perm (msgque st ! x))"
    and "snd_valid mi a mtyp"
  shows "\<exists>res st'. msgsnd_getres mi ca a mtyp x st = Done (res, st') \<and> msg_ok mi st'"
proof -
  obtain qs fs where "msg_rep mi st qs fs" "bytes_ok mi st qs"
    using assms(2) by (auto simp: msg_ok_def)
  from msgsnd_getres_spec [OF this assms(1,3,4,5)] show ?thesis by metis
qed

text \<open>The second halves of the calls that sleep, run from any well-formed state.\<close>

lemma msgrcv_woken_ok:
  assumes info: "info_ok mi" and ok: "msg_ok mi st" and r: "sized r" and x: "x < msgmni mi"
  shows "\<exists>res st'. msgrcv_woken mi ca r x st = Some (Done (res, st')) \<and> msg_ok mi st'"
proof -
  obtain qs fs where rep: "msg_rep mi st qs fs" "bytes_ok mi st qs"
    using ok by (auto simp: msg_ok_def)
  show ?thesis
    by (rule msgrcv_find_spec [OF rep info x r, of ca]) (use ok in \<open>auto simp: msgrcv_woken_def\<close>)
qed

lemma msgsnd_room_woken_ok:
  assumes "info_ok mi" and "msg_ok mi st" and "snd_valid mi a mtyp" and "x < msgmni mi"
  shows "\<exists>res st'. msgsnd_room_woken mi ca a mtyp x st = Done (res, st') \<and> msg_ok mi st'"
  using msgsnd_getres_ok [OF assms(1,2,4), of a mtyp ca] assms
  by (auto simp: msgsnd_room_woken_def queue_gone_def)

lemma msgsnd_pool_woken_ok:
  assumes info: "info_ok mi" and ok: "msg_ok mi st" and a: "snd_valid mi a mtyp"
  shows "\<exists>res st'. msgsnd_pool_woken mi ca a mtyp st = Done (res, st') \<and> msg_ok mi st'"
proof -
  obtain qs fs where rep: "msg_rep mi st qs fs" using ok by (auto simp: msg_ok_def)
  show ?thesis
  proof (rule msgconv_cases [OF info rep, of "sa_id a"])
    fix x
    assume "msgconv mi (sa_id a) st = Done (Inr x)" and x: "x < msgmni mi"
      and used: "ipc_allocated (msg_perm (msgque st ! x))"
    then show ?thesis
      using msgsnd_getres_ok [OF info ok x used a, of ca] by (auto simp: msgsnd_pool_woken_def)
  qed (use ok in \<open>auto simp: msgsnd_pool_woken_def\<close>)
qed

lemma msgsnd_room_interrupted_cases:
  assumes info: "info_ok mi" and ok: "msg_ok mi st" and x: "x < msgmni mi"
  obtains (gone) "msgconv mi (sa_id a) st = Done (Inl EINVAL)" and "msgsnd_room_interrupted mi a x st = Overrun"
    | (there) y st' where "msgconv mi (sa_id a) st = Done (Inr y)" and "msg_ok mi st'"
      and "msgsnd_room_interrupted mi a x st = Done (Snd_ret (Some EINTR), st')"
proof -
  obtain qs fs where rep: "msg_rep mi st qs fs" "bytes_ok mi st qs"
    using ok by (auto simp: msg_ok_def)
  let ?st = "set_q x (set_mode (q_mode (msgque st ! x) AND NOT MSG_WWAIT) (msgque st ! x)) st"
  have "msg_ok mi ?st"
    by (rule msg_ok_same_lists [OF rep x]) (simp_all add: same_perm_modes(1))
  then have keep: "msg_ok mi (broadcast (W_cv x) ?st)"
    by simp
  show ?thesis
  proof (rule msgconv_cases [OF info rep(1), of "sa_id a"])
    assume "msgconv mi (sa_id a) st = Done (Inl EINVAL)"
    then show ?thesis by (intro gone) (simp_all add: msgsnd_room_interrupted_def)
  next
    fix y assume "msgconv mi (sa_id a) st = Done (Inr y)"
    then show ?thesis
      by (intro there [OF _ keep]) (simp_all add: msgsnd_room_interrupted_def Let_def)
  qed
qed

lemma msgsnd_pool_interrupted_ok:
  assumes info: "info_ok mi" and ok: "msg_ok mi st"
  shows "\<exists>res. msgsnd_header_interrupted mi a st = Done (res, st)"
    and "\<exists>res. msgsnd_text_interrupted mi a st = Done (res, st)"
proof -
  obtain qs fs where rep: "msg_rep mi st qs fs" using ok by (auto simp: msg_ok_def)
  show "\<exists>res. msgsnd_header_interrupted mi a st = Done (res, st)"
    and "\<exists>res. msgsnd_text_interrupted mi a st = Done (res, st)"
    by (rule msgconv_cases [OF info rep, of "sa_id a"];
        simp add: msgsnd_header_interrupted_def msgsnd_text_interrupted_def)+
qed

lemma msg_reach_step_ok:
  assumes info: "info_ok mi" and "msg_reach mi st0 st" and start: "msg_ok mi st0"
  shows "msg_ok mi st"
  using assms(2)
proof induction
  case start
  show ?case by (rule assms(3))
next
  case (call st c ca r st')
  then show ?case using msgsys_ok [OF info, of st c ca] by auto
next
  case (rcv_woken st r x ca res st')
  then show ?case using msgrcv_woken_ok [OF info, of st r x ca] by auto
next
  case (room_woken st a t x ca res st')
  then show ?case using msgsnd_room_woken_ok [OF info, of st a t x ca] by auto
next
  case (pool_woken st a t ca res st')
  then show ?case using msgsnd_pool_woken_ok [OF info, of st a t ca] by auto
next
  case (room_interrupted st x a res st')
  show ?case
    by (rule msgsnd_room_interrupted_cases [OF info room_interrupted.IH room_interrupted.hyps(2), of a])
      (use room_interrupted.hyps(3) in auto)
next
  case (header_interrupted st a res st')
  then show ?case using msgsnd_pool_interrupted_ok(1) [OF info, of st a] by auto
next
  case (text_interrupted st a res st')
  then show ?case using msgsnd_pool_interrupted_ok(2) [OF info, of st a] by auto
qed

section \<open>The first state\<close>

lemma linked_upt:
  assumes "\<And>i. i < n \<Longrightarrow> i < length hs \<and> msg_next (hs ! i) = (if Suc i < n then Some (Suc i) else None)"
    and "k < n"
  shows "linked hs (Some k) [k..<n]"
  using assms(2)
proof (induction "n - k" arbitrary: k)
  case (Suc d)
  then have "[k..<n] = k # [Suc k..<n]" by (simp add: upt_conv_Cons)
  with Suc assms(1) [of k] show ?case by (cases "Suc k < n") auto
qed simp

lemma msg_init_ok:
  assumes info: "info_ok mi" and slots: "ovh + 2 \<le> msgmap mi"
    and run: "msg_init sz ovh maxavail mod_ret mi = Done (Inr st)"
  shows "msg_ok mi st"
proof -
  define m where "m = (zeroed_map ovh (msgmap mi))\<lparr>m_free := (if msgseg mi = 0 then msgmap mi - ovh else msgmap mi - ovh - 1),
    m_slots := msgmap mi - ovh, m_nam := ''msgmap'',
    m_map := \<lparr>m_size = msgseg mi, m_addr = 1\<rparr> # replicate (msgmap mi - ovh) \<lparr>m_size = 0, m_addr = 0\<rparr>\<rparr>"
  have "mapinit ovh (zeroed_map ovh (msgmap mi)) (msgseg mi) 1 ''msgmap'' (msgmap mi) = Done m"
    using slots by (simp add: mapinit_def zeroed_map_def Let_def m_def)
  then have st: "st = \<lparr>msgque = replicate (msgmni mi) zero_msqid_ds, msgh = map (free_hdr mi) [0..<msgtql mi],
      msgfp = Some 0, mtext = replicate (INTRND (msgseg mi * msgssz mi)) 0, mmap = m, mwakes = []\<rparr>"
    using run by (auto simp: msg_init_def split: if_splits option.splits)
  have segs: "map_segs m = (if msgseg mi = 0 then [] else [\<lparr>m_size = msgseg mi, m_addr = 1\<rparr>])"
    using slots by (cases "msgmap mi - ovh") (simp_all add: map_segs_def m_def)
  have seg: "msgseg mi < 32768" and tql: "0 < msgtql mi" and mni: "msgmni mi < 2147483648"
    using info by (simp_all add: info_ok_def)
  have "wf_map m"
    using slots seg unfolding wf_map_def segs by (auto simp: m_def)
  then have "rmap_ok m" using slots by (simp add: rmap_ok_def m_def)
  moreover have "map_units m \<subseteq> {1..msgseg mi}"
    by (auto simp: map_units_def segs units_of_def block_def)
  moreover have "msgseg mi * msgssz mi \<le> INTRND (msgseg mi * msgssz mi)"
    by (simp add: INTRND_def)
  ultimately have "texts_ok mi st (queued mi (\<lambda>_. []))"
    by (simp add: texts_ok_def st)
  moreover have "links_ok mi st (\<lambda>_. []) [0..<msgtql mi]"
    using tql linked_upt [of "msgtql mi" "map (free_hdr mi) [0..<msgtql mi]" 0]
    by (auto simp: links_ok_def st q_links_def zero_msqid_ds_def free_hdr_def)
  moreover have "perms_ok mi st (\<lambda>_. [])"
    using mni by (simp add: perms_ok_def st zero_msqid_ds_def zero_perm_def keys_ok_def ipc_allocated_def)
  moreover have "bytes_ok mi st (\<lambda>_. [])"
    by (simp add: bytes_ok_def st zero_msqid_ds_def)
  ultimately show ?thesis
    by (auto simp: msg_ok_def msg_rep_def)
qed

text \<open>The headers of a state are all accounted for.\<close>

definition free_headers :: "msgst \<Rightarrow> nat list" where
  "free_headers st = chain (msgh st) (length (msgh st)) (msgfp st)"

lemma headers_accounted:
  assumes "msg_ok mi st"
  shows "(\<Sum>x<msgmni mi. length (messages mi st x)) + length (free_headers st) = msgtql mi"
proof -
  obtain qs fs where L: "links_ok mi st qs fs"
    using assms by (auto simp: msg_ok_def msg_rep_def)
  note D = links_okD [OF L]
  have "set fs \<subseteq> {..<msgtql mi}" using D(9) by blast
  then have "length fs \<le> msgtql mi"
    using D(8) card_mono [of "{..<msgtql mi}" "set fs"] by (simp add: distinct_card)
  then have "free_headers st = fs"
    using linked_chain [OF D(4)] D(2) by (simp add: free_headers_def)
  moreover have "(\<Sum>x<msgmni mi. length (messages mi st x)) = (\<Sum>x<msgmni mi. card (set (qs x)))"
    using messages_rep [OF L] D(5) by (intro sum.cong) (simp_all add: distinct_card)
  moreover have "(\<Sum>x<msgmni mi. card (set (qs x))) = card (queued mi qs)"
    using D(7) by (subst card_UN_disjoint) auto
  moreover have "card (queued mi qs) + card (set fs) = card (queued mi qs \<union> set fs)"
    using D(6) by (subst card_Un_disjoint) auto
  ultimately show ?thesis
    using D(8) D(9) by (simp add: distinct_card)
qed


section \<open>Properties\<close>

text \<open>The tunables as the source sets them.\<close>

definition msg_tunables :: msginfo where
  "msg_tunables = \<lparr>msgmap = 100, msgmax = 2048, msgmnb = 4096, msgmni = 50, msgssz = 8, msgtql = 40, msgseg = 1024\<rparr>"

lemma msg_tunables_ok: "info_ok msg_tunables" "msgmap msg_tunables = 100"
  by (simp_all add: info_ok_def msg_tunables_def)

text \<open>A small facility for examples: two queues, two headers, four segments of eight bytes.\<close>

definition wit_info :: msginfo where
  "wit_info = \<lparr>msgmap = 5, msgmax = 16, msgmnb = 10, msgmni = 2, msgssz = 8, msgtql = 2, msgseg = 4\<rparr>"

definition wit_sizes :: msgsizes where
  "wit_sizes = \<lparr>sz_map = 8, sz_msqid_ds = 112, sz_msglock = 8, sz_msg = 12\<rparr>"

definition wit_msg0 :: msgst where
  "wit_msg0 =
     \<lparr>msgque = [zero_msqid_ds, zero_msqid_ds],
      msgh = [\<lparr>msg_next = Some 1, msg_type = 0, msg_ts = 0, msg_spot = 0\<rparr>,
              \<lparr>msg_next = None, msg_type = 0, msg_ts = 0, msg_spot = 0\<rparr>],
      msgfp = Some 0, mtext = replicate 32 0,
      mmap = \<lparr>m_free = 1, m_want = 0, m_nam = ''msgmap'', m_slots = 2, m_bcasts = 0,
              m_map = [\<lparr>m_size = 4, m_addr = 1\<rparr>, \<lparr>m_size = 0, m_addr = 0\<rparr>, \<lparr>m_size = 0, m_addr = 0\<rparr>]\<rparr>,
      mwakes = []\<rparr>"

definition wit_user :: caller where
  "wit_user = \<lparr>ca_cred = \<lparr>cr_ref = 1, cr_uid = 0, cr_gid = 0, cr_ruid = 0, cr_rgid = 0, cr_suid = 0, cr_sgid = 0,
       cr_ngroups = 0, cr_groups = []\<rparr>,
     ca_slot = 0, ca_pid = 1, ca_now = 5\<rparr>"

lemma wit_info_ok: "info_ok wit_info" "msgmap wit_info = 5" "msgmax wit_info = 16" "msgssz wit_info = 8"
    "msgmni wit_info = 2"
  by (simp_all add: info_ok_def wit_info_def)

lemma wit_init: "msg_init wit_sizes 3 10000 None wit_info = Done (Inr wit_msg0)"
proof -
  have lists: "replicate 3 z = [z, z, z]" "replicate 2 q = [q, q]" "[0..<2] = [0, 1]"
    for z :: mapent and q :: msqid_ds
    by (simp_all add: numeral_3_eq_3 numeral_2_eq_2)
  show ?thesis
    by (simp add: msg_init_def msg_memory_def INTRND_def mapinit_def zeroed_map_def free_hdr_def
        wit_info_def wit_sizes_def wit_msg0_def lists)
qed


lemma wit_msg0_ok: "msg_ok wit_info wit_msg0"
  by (rule msg_init_ok [OF wit_info_ok(1) _ wit_init]) (simp add: wit_info_ok)

text \<open>A private queue is made in it.\<close>

definition wit_queue :: msqid_ds where
  "wit_queue = zero_msqid_ds\<lparr>msg_perm := zero_perm\<lparr>ip_mode := IPC_ALLOC\<rparr>, msg_qbytes := 10, msg_ctime := 5\<rparr>"

definition wit_msg1 :: msgst where
  "wit_msg1 = wit_msg0\<lparr>msgque := [wit_queue, zero_msqid_ds]\<rparr>"

lemma wit_get: "msgget wit_info wit_user 0 0 wit_msg0 = (Inr 0, wit_msg1)"
  by (simp add: msgget_def ipcget_def IPC_PRIVATE_def ipc_allocated_def ipc_init_perm_def wit_msg0_def
      wit_msg1_def wit_queue_def wit_info_def wit_user_def zero_msqid_ds_def zero_perm_def set_q_def)

lemma wit_msg1_ok: "msg_ok wit_info wit_msg1"
  using msgget_ok [OF wit_info_ok(1) wit_msg0_ok, of wit_user 0 0] by (simp add: wit_get)

lemma wit_msg1_conv:
  "msgconv wit_info 0 wit_msg1 = Done (Inr 0)"
  "ipcaccess (msg_perm (msgque wit_msg1 ! 0)) MSG_R (ca_cred wit_user) = None"
  "ipcaccess (msg_perm (msgque wit_msg1 ! 0)) MSG_W (ca_cred wit_user) = None"
  by code_simp+

definition wit_send :: msgsnd_args where
  "wit_send = \<lparr>sa_id = 0, sa_sz = 3, sa_flg = 0, sa_type = Some 7, sa_text = [1, 2, 3, 4]\<rparr>"

definition wit_recv :: msgrcv_args where
  "wit_recv = \<lparr>ra_id = 0, ra_sz = 10, ra_typ = 7, ra_flg = 0, ra_type_ok = True, ra_text_ok = True\<rparr>"

text \<open>
  C7. Invariant and termination: from the state that initialisation leaves, whatever calls are
  made and however sleepers are woken or interrupted, the lists of headers stay well formed and
  disjoint, texts lie apart from each other and from the free segments, the counts of the queues
  are right and every header is on exactly one list. From any such state every call returns or
  goes to sleep, a sleeper that is woken returns or sleeps again, and one that is interrupted returns,
  without a panic and without an access outside the tables, with one exception: a sender interrupted while
  it waits for room on its queue makes a wild access exactly when its identifier is no longer valid.
\<close>

theorem msg_reach_ok:
  assumes "info_ok mi" and "ovh + 2 \<le> msgmap mi"
    and "msg_init sz ovh maxavail mod_ret mi = Done (Inr st0)" and "msg_reach mi st0 st"
  shows "msg_ok mi st \<and>
    (\<Sum>x<msgmni mi. length (messages mi st x)) + length (free_headers st) = msgtql mi \<and>
    (\<forall>ca call. call_ok call \<longrightarrow> (\<exists>r st'. msgsys mi ca call st = Some (Done (r, st')))) \<and>
    (\<forall>ca r x. sized r \<and> x < msgmni mi \<longrightarrow> (\<exists>res st'. msgrcv_woken mi ca r x st = Some (Done (res, st')))) \<and>
    (\<forall>ca a mtyp x. snd_valid mi a mtyp \<and> x < msgmni mi \<longrightarrow>
       (\<exists>res st'. msgsnd_room_woken mi ca a mtyp x st = Done (res, st')) \<and>
       (\<exists>res st'. msgsnd_pool_woken mi ca a mtyp st = Done (res, st'))) \<and>
    (\<forall>a. (\<exists>res. msgsnd_header_interrupted mi a st = Done (res, st)) \<and>
       (\<exists>res. msgsnd_text_interrupted mi a st = Done (res, st))) \<and>
    (\<forall>a x. x < msgmni mi \<longrightarrow>
       (if msgconv mi (sa_id a) st = Done (Inl EINVAL) then msgsnd_room_interrupted mi a x st = Overrun
        else \<exists>st'. msgsnd_room_interrupted mi a x st = Done (Snd_ret (Some EINTR), st')))"
proof -
  note info = assms(1)
  have ok: "msg_ok mi st"
    by (rule msg_reach_step_ok [OF assms(1,4) msg_init_ok [OF assms(1-3)]])
  have "if msgconv mi (sa_id a) st = Done (Inl EINVAL) then msgsnd_room_interrupted mi a x st = Overrun
      else \<exists>st'. msgsnd_room_interrupted mi a x st = Done (Snd_ret (Some EINTR), st')" if "x < msgmni mi" for a x
    by (rule msgsnd_room_interrupted_cases [OF info ok that, of a]) simp_all
  then show ?thesis
    using headers_accounted [OF ok] msgsys_ok [OF info ok] msgrcv_woken_ok [OF info ok] msgsnd_room_woken_ok [OF info ok]
      msgsnd_pool_woken_ok [OF info ok] msgsnd_pool_interrupted_ok [OF info ok] ok by blast
qed

theorem msg_reach_ok_witness:
  "msg_reach wit_info wit_msg0 wit_msg1 \<and> msg_ok wit_info wit_msg1 \<and>
    (\<Sum>x<msgmni wit_info. length (messages wit_info wit_msg1 x)) + length (free_headers wit_msg1) = msgtql wit_info \<and>
    (\<exists>r st'. msgsys wit_info wit_user (MSGRCV wit_recv) wit_msg1 = Some (Done (r, st'))) \<and>
    (\<exists>st'. msgsnd_room_interrupted wit_info wit_send 0 wit_msg1 = Done (Snd_ret (Some EINTR), st'))"
proof -
  have "msgsys wit_info wit_user (MSGGET 0 0) wit_msg0 = Some (Done (Res_msgget (Inr 0), wit_msg1))"
    by (simp add: msgsys_def wit_get)
  then have reach: "msg_reach wit_info wit_msg0 wit_msg1"
    by (rule msg_reach.call [OF msg_reach.start, rotated]) (simp add: call_ok_def)
  have "call_ok (MSGRCV wit_recv)" and map: "3 + 2 \<le> msgmap wit_info" and "0 < msgmni wit_info"
    and "msgconv wit_info (sa_id wit_send) wit_msg1 \<noteq> Done (Inl EINVAL)"
    by (simp_all add: call_ok_def wit_recv_def wit_info_ok wit_send_def wit_msg1_conv)
  with msg_reach_ok [OF wit_info_ok(1) map wit_init reach] reach show ?thesis by meson
qed

text \<open>
  C8. Sending: a sender with a valid identifier, permission, size and type appends its message,
  type and text, at the end of its queue, if the queue, a header and enough segments are free and
  the text can be read; otherwise the queue's messages stay as they are and it sleeps, or gives
  up, for one of these reasons. Other queues are not affected.
\<close>

theorem msgsnd_appends:
  assumes "info_ok mi" and "msg_ok mi st" and "msgconv mi (sa_id a) st = Done (Inr x)"
    and "ipcaccess (msg_perm (msgque st ! x)) MSG_W (ca_cred ca) = None"
    and "sa_type a = Some mtyp" and "snd_valid mi a mtyp"
  shows "\<exists>res st'. msgsnd mi ca a st = Done (res, st') \<and> msg_ok mi st' \<and> snd_spec mi a mtyp x st res st'"
  by (rule msgsnd_call [OF assms(1,2), of ca a]) (use assms in blast)

theorem msgsnd_appends_witness:
  "\<exists>res st'. msgsnd wit_info wit_user wit_send wit_msg1 = Done (res, st') \<and> msg_ok wit_info st' \<and>
     snd_spec wit_info wit_send 7 0 wit_msg1 res st'"
  by (rule msgsnd_appends [OF wit_info_ok(1) wit_msg1_ok])
    (simp_all add: wit_send_def wit_msg1_conv snd_valid_def wit_info_ok)

text \<open>
  C9. Receiving: a receiver with a valid identifier, permission and size is given the first of the
  best messages its type argument admits (any, that type, or the lowest type up to a limit), cut to
  its buffer only if it allows that, and just this message leaves the queue; the search always
  ends. Without an admitted message it sleeps with the flag for wake-ups set, or fails.
\<close>

theorem msgrcv_picks:
  assumes "info_ok mi" and "msg_ok mi st" and "msgconv mi (ra_id r) st = Done (Inr x)"
    and "ipcaccess (msg_perm (msgque st ! x)) MSG_R (ca_cred ca) = None"
    and "0 \<le> ra_sz r" and "ra_sz r < 2 ^ 31"
  shows "\<exists>res st'. msgrcv mi ca r st = Some (Done (res, st')) \<and> msg_ok mi st' \<and> rcv_spec mi r x st res st'"
  by (rule msgrcv_call [OF assms(1,2,6), of ca]) (use assms in blast)

theorem msgrcv_picks_witness:
  "\<exists>res st'. msgrcv wit_info wit_user wit_recv wit_msg1 = Some (Done (res, st')) \<and> msg_ok wit_info st' \<and>
     rcv_spec wit_info wit_recv 0 wit_msg1 res st'"
  by (rule msgrcv_picks [OF wit_info_ok(1) wit_msg1_ok]) (simp_all add: wit_recv_def wit_msg1_conv)


lemma queue_bounds:
  assumes "info_ok mi" and "msg_ok mi st" and "msgconv mi msqid st = Done (Inr x)"
  shows "x < msgmni mi" and "ipc_allocated (msg_perm (msgque st ! x))"
    and "msqid = int (ip_seq (msg_perm (msgque st ! x)) * msgmni mi + x)"
    and "length (msgque st) = msgmni mi"
proof -
  obtain qs fs where rep: "msg_rep mi st qs fs" using assms(2) by (auto simp: msg_ok_def)
  show "x < msgmni mi" "ipc_allocated (msg_perm (msgque st ! x))"
    "msqid = int (ip_seq (msg_perm (msgque st ! x)) * msgmni mi + x)"
    by (rule msgconv_cases [OF assms(1) rep, of msqid]; use assms(3) in simp)+
  show "length (msgque st) = msgmni mi" by (rule links_okD(1) [OF msg_repD(1) [OF rep]])
qed

lemma msgconv_index: "msgconv mi msqid st = Done (Inr x) \<Longrightarrow> x = nat (msqid mod int (msgmni mi))"
  by (auto simp: msgconv_def Let_def split: if_splits)

lemma msgconv_removed:
  assumes "info_ok mi" and "msg_ok mi st" and "msgconv mi msqid st0 = Done (Inr x)"
    and "\<not> ipc_allocated (msg_perm (msgque st ! x))"
  shows "msgconv mi msqid st = Done (Inl EINVAL)"
proof -
  obtain qs fs where rep: "msg_rep mi st qs fs" using assms(2) by (auto simp: msg_ok_def)
  show ?thesis
  proof (rule msgconv_cases [OF assms(1) rep, of msqid])
    fix y
    assume "msgconv mi msqid st = Done (Inr y)" and "ipc_allocated (msg_perm (msgque st ! y))"
    with msgconv_index [OF assms(3)] msgconv_index [of mi msqid st y] assms(4) show ?thesis by simp
  qed
qed

text \<open>The last message is the one that is picked when no other has its type.\<close>

lemma pick_last:
  assumes "0 < t" and "t \<notin> set ts"
  shows "picks t (ts @ [t]) k \<longleftrightarrow> k = length ts"
proof
  assume "picks t (ts @ [t]) k"
  then have "k < length (ts @ [t])" "(ts @ [t]) ! k = t"
    using assms(1) by (simp_all add: picks_def eligible_def)
  then show "k = length ts"
    using assms(2) by (cases "k < length ts") (auto simp: nth_append)
next
  assume "k = length ts"
  moreover have "j = length ts" if "j < length (ts @ [t])" "(ts @ [t]) ! j = t" for j
    using that assms(2) by (cases "j < length ts") (auto simp: nth_append)
  ultimately show "picks t (ts @ [t]) k"
    using assms(1) by (auto simp: picks_def eligible_def)
qed

text \<open>
  Round trip: when a sender returns success, a receiver that asks for the type, of which the
  queue held no message before, and whose buffer is large enough and can be written, is given
  exactly the bytes that were sent, and all queues hold what they held before the message was
  sent.
\<close>

lemma msg_send_receive:
  assumes "info_ok mi" and "msg_ok mi st" and "msgsnd mi ca a st = Done (Snd_ret None, st1)"
    and "sa_type a = Some mtyp" and "msgconv mi (ra_id r) st1 = Done (Inr x)"
    and "msgconv mi (sa_id a) st = Done (Inr x)"
    and "ipcaccess (msg_perm (msgque st1 ! x)) MSG_R (ca_cred ca') = None"
    and "ra_typ r = mtyp" and "mtyp \<notin> fst ` set (messages mi st x)"
    and "sa_sz a \<le> ra_sz r" and "ra_sz r < 2 ^ 31" and "ra_type_ok r" and "ra_text_ok r"
  shows "\<exists>st2. msgrcv mi ca' r st1 = Some (Done (Rcv_msg mtyp (take (nat (sa_sz a)) (sa_text a)), st2)) \<and>
    msg_ok mi st2 \<and> (\<forall>y<msgmni mi. messages mi st2 y = messages mi st y)"
proof -
  let ?cnt = "nat (sa_sz a)" and ?ms = "messages mi st x"
  have v: "snd_valid mi a mtyp" and acc: "ipcaccess (msg_perm (msgque st ! x)) MSG_W (ca_cred ca) = None"
    using assms(3,4,6) by (auto simp: msgsnd_def snd_valid_def split: option.splits if_splits)
  obtain st1' res where sent: "msgsnd mi ca a st = Done (res, st1')" "msg_ok mi st1'" "snd_spec mi a mtyp x st res st1'"
    by (rule msgsnd_call [OF assms(1,2), of ca a]) (use assms(4,6) acc v in blast)
  then have ok1: "msg_ok mi st1" and spec: "snd_spec mi a mtyp x st (Snd_ret None) st1"
    using assms(3) by simp_all
  then have len: "?cnt \<le> length (sa_text a)" and ms1: "messages mi st1 x = ?ms @ [(mtyp, take ?cnt (sa_text a))]"
    and only1: "only_queue mi x st st1"
    by (simp_all add: snd_spec_def Let_def)
  have pos: "0 < mtyp" and sz: "0 \<le> sa_sz a" using v by (simp_all add: snd_valid_def)
  obtain res2 st2 where rcv: "msgrcv mi ca' r st1 = Some (Done (res2, st2))" "msg_ok mi st2" "rcv_spec mi r x st1 res2 st2"
    by (rule msgrcv_call [OF assms(1) ok1 assms(11), of ca']) (use assms(5,7,10) sz in auto)
  have pick: "picks (ra_typ r) (map fst (messages mi st1 x)) k \<longleftrightarrow> k = length ?ms" for k
    using pick_last [OF pos, of "map fst ?ms" k] assms(8,9) ms1 by simp
  have hit: "\<exists>t\<in>set (map fst (messages mi st1 x)). eligible (ra_typ r) t"
    using ms1 pos assms(8) by (auto simp: eligible_def)
  have at: "messages mi st1 x ! length ?ms = (mtyp, take ?cnt (sa_text a))" using ms1 by simp
  have fits: "int ?cnt \<le> ra_sz r" using assms(10) sz by simp
  have mn: "min (nat (ra_sz r)) ?cnt = ?cnt" using assms(10) by (simp add: min_absorb2 nat_mono)
  have "res2 = Rcv_msg mtyp (take ?cnt (sa_text a)) \<and> messages mi st2 x = ?ms \<and> only_queue mi x st1 st2"
  proof (cases res2)
    case (Rcv_err e)
    then show ?thesis using rcv(3) hit pick at len fits assms(12,13) by (auto simp: rcv_spec_def Let_def)
  next
    case (Rcv_msg t bs)
    then show ?thesis
      using rcv(3) pick at len fits mn by (auto simp: rcv_spec_def Let_def ms1 nth_append)
  next
    case Rcv_sleep
    then show ?thesis using rcv(3) hit by (auto simp: rcv_spec_def Let_def)
  qed
  then show ?thesis
    using rcv only1 by (auto simp: only_queue_def)
qed


definition wit_msg2 :: msgst where
  "wit_msg2 = wit_msg1\<lparr>
     msgque := [wit_queue\<lparr>msg_first := Some 0, msg_last := Some 0, msg_qnum := 1, msg_cbytes := 3,
                         msg_lspid := 1, msg_stime := 5\<rparr>, zero_msqid_ds],
     msgh := [\<lparr>msg_next = None, msg_type = 7, msg_ts = 3, msg_spot = 0\<rparr>,
              \<lparr>msg_next = None, msg_type = 0, msg_ts = 0, msg_spot = 0\<rparr>],
     msgfp := Some 1, mtext := [1, 2, 3] @ replicate 29 0,
     mmap := (mmap wit_msg0)\<lparr>m_map := [\<lparr>m_size = 3, m_addr = 2\<rparr>, \<lparr>m_size = 0, m_addr = 0\<rparr>, \<lparr>m_size = 0, m_addr = 0\<rparr>]\<rparr>\<rparr>"

lemma wit_sent: "msgsnd wit_info wit_user wit_send wit_msg1 = Done (Snd_ret None, wit_msg2)"
proof -
  have r: "msgsnd wit_info wit_user wit_send wit_msg1 = msgsnd_getres wit_info wit_user wit_send 7 0 wit_msg1"
    by (simp add: msgsnd_def wit_send_def wit_msg1_conv wit_info_ok)
  have q: "btoq wit_info 3 = Done 1"
    by (simp add: btoq_def wit_info_ok)
  show ?thesis
    unfolding r
    by (simp add: msgsnd_getres_def wit_send_def q rmalloc_locked_def wit_msg1_def wit_msg0_def wit_queue_def
        zero_msqid_ds_def zero_perm_def msgsnd_copy_def text_write_def msg_link_def set_h_def set_q_def
        IPC_ALLOC_def MSG_RWAIT_def wit_info_ok wit_user_def wit_msg2_def Let_def
        del: bind_outcome_Done Done_bind_outcome)
qed

lemma msg_send_receive_witness:
  "\<exists>st2. msgrcv wit_info wit_user wit_recv wit_msg2
      = Some (Done (Rcv_msg 7 (take (nat (sa_sz wit_send)) (sa_text wit_send)), st2)) \<and>
    msg_ok wit_info st2 \<and> messages wit_info st2 0 = messages wit_info wit_msg1 0"
proof -
  have "msgconv wit_info (ra_id wit_recv) wit_msg2 = Done (Inr 0)"
    and "ipcaccess (msg_perm (msgque wit_msg2 ! 0)) MSG_R (ca_cred wit_user) = None"
    and "7 \<notin> fst ` set (messages wit_info wit_msg1 0)"
    by code_simp+
  then show ?thesis
    using msg_send_receive [OF wit_info_ok(1) wit_msg1_ok wit_sent, of 7 wit_recv 0 wit_user]
    by (auto simp: wit_send_def wit_recv_def wit_msg1_conv wit_info_ok)
qed

text \<open>
  Identifiers: what \<open>msgget\<close> returns is accepted until the queue is removed, no other number
  leads to the queue, and a queue that was just made is empty and disturbs no other.
\<close>

lemma msgget_identifies:
  assumes "info_ok mi" and "msg_ok mi st" and "msgget mi ca key flg st = (Inr msqid, st')"
  shows "\<exists>x<msgmni mi. msgconv mi msqid st' = Done (Inr x) \<and>
    (\<forall>n. msgconv mi n st' = Done (Inr x) \<longrightarrow> n = msqid) \<and>
    (\<not> ipc_allocated (msg_perm (msgque st ! x)) \<longrightarrow> messages mi st' x = []) \<and>
    (\<forall>y<msgmni mi. messages mi st' y = messages mi st y)"
proof -
  obtain qs fs where rep: "msg_rep mi st qs fs" and bytes: "bytes_ok mi st qs"
    using assms(2) by (auto simp: msg_ok_def)
  have ok': "msg_ok mi st'" using msgget_ok [OF assms(1,2), of ca key flg] assms(3) by simp
  have unique: "\<forall>n. msgconv mi n st' = Done (Inr x) \<longrightarrow> n = msqid" if "msgconv mi msqid st' = Done (Inr x)" for x
    using queue_bounds(3) [OF assms(1) ok'] that by metis
  note L = msg_repD(1) [OF rep]
  show ?thesis
  proof (rule msgget_cases [OF assms(1) rep bytes, of ca key flg])
    fix x
    assume "msgget mi ca key flg st = (Inr (int (ip_seq (msg_perm (msgque st ! x)) * msgmni mi + x)), st)"
      and x: "x < msgmni mi" and used: "ipc_allocated (msg_perm (msgque st ! x))"
    then have st': "st' = st" and msqid: "msqid = int (ip_seq (msg_perm (msgque st ! x)) * msgmni mi + x)"
      using assms(3) by simp_all
    have conv: "msgconv mi msqid st' = Done (Inr x)"
      unfolding msqid st' by (rule msgconv_own [OF assms(1) links_okD(1) [OF L] x used])
    show ?thesis
      by (rule exI [of _ x], intro conjI, rule x, rule conv, rule unique [OF conv]) (simp_all add: st' used)
  next
    fix x st1
    assume get: "msgget mi ca key flg st = (Inr (int (ip_seq (msg_perm (msgque st ! x)) * msgmni mi + x)), st1)"
      and x: "x < msgmni mi" and rep': "msg_rep mi st1 qs fs" and empty: "qs x = []"
      and p: "msg_perm (msgque st1 ! x) = ipc_init_perm key flg (ca_cred ca) (msg_perm (msgque st ! x))"
      and same: "msgh st1 = msgh st" "mtext st1 = mtext st"
    have st': "st' = st1" using get assms(3) by simp
    note L' = msg_repD(1) [OF rep']
    have conv: "msgconv mi msqid st' = Done (Inr x)"
      using msgconv_own [OF assms(1) links_okD(1) [OF L'] x] get assms(3) p by (simp add: st')
    have keep: "messages mi st1 y = messages mi st y" if "y < msgmni mi" for y
      using messages_rep [OF L that] messages_rep [OF L' that] same by (simp add: message_def)
    have "messages mi st1 x = []"
      using messages_rep [OF L' x] empty by simp
    then show ?thesis
      by (intro exI [of _ x] conjI x conv unique [OF conv]) (simp_all add: st' keep)
  qed (use assms(3) in auto)
qed

lemma msgget_identifies_witness:
  "\<exists>x. x < msgmni wit_info \<and> msgconv wit_info 0 wit_msg1 = Done (Inr x) \<and>
    messages wit_info wit_msg1 1 = messages wit_info wit_msg0 1"
proof -
  have "1 < msgmni wit_info" by (simp add: wit_info_ok)
  then show ?thesis
    using msgget_identifies [OF wit_info_ok(1) wit_msg0_ok wit_get] by blast
qed

text \<open>
  C21. Removal: the loop that frees the messages of a queue ends; afterwards the queue is empty and
  its identifier invalid, all its headers are free, and the other queues are as before.
\<close>

theorem msg_rmid_ends:
  assumes "info_ok mi" and "msg_ok mi st" and "msgconv mi msqid st = Done (Inr x)"
    and "msg_owner ca (msgque st ! x)"
  shows "\<exists>st'. msgctl mi ca msqid MSG_RMID st = Some (Done (Ctl_ok, st')) \<and> msg_ok mi st' \<and>
    messages mi st' x = [] \<and> msgconv mi msqid st' = Done (Inl EINVAL) \<and>
    length (free_headers st') = length (free_headers st) + length (messages mi st x) \<and>
    (\<forall>y<msgmni mi. y \<noteq> x \<longrightarrow> messages mi st' y = messages mi st y)"
proof -
  note Q = queue_bounds [OF assms(1-3)]
  obtain qs fs where rep: "msg_rep mi st qs fs" and bytes: "bytes_ok mi st qs"
    using assms(2) by (auto simp: msg_ok_def)
  obtain st' where run: "msg_rmid mi ca msqid x st = Some (Done (None, st'))" and ok': "msg_ok mi st'"
    and gone: "messages mi st' x = []" "only_queue mi x st st'" "\<not> ipc_allocated (msg_perm (msgque st' ! x))"
    by (rule msg_rmid_done [OF rep bytes assms(1) Q(1) assms(4) Q(3)])
  have "msgctl mi ca msqid MSG_RMID st = Some (Done (Ctl_ok, st'))"
    using assms(3) run by (simp add: msgctl_def ctl_ret_def)
  moreover have "msgconv mi msqid st' = Done (Inl EINVAL)"
    by (rule msgconv_removed [OF assms(1) ok' assms(3) gone(3)])
  moreover have "(\<Sum>y<msgmni mi. length (messages mi st y))
      = (\<Sum>y<msgmni mi. length (messages mi st' y)) + length (messages mi st x)"
    using Q(1) gone(1,2) by (simp add: sum.remove [of _ x] only_queue_def)
  then have "length (free_headers st') = length (free_headers st) + length (messages mi st x)"
    using headers_accounted [OF assms(2)] headers_accounted [OF ok'] by linarith
  ultimately show ?thesis
    using ok' gone by (auto simp: only_queue_def)
qed

theorem msg_rmid_ends_witness:
  "\<exists>st'. msgctl wit_info wit_user 0 MSG_RMID wit_msg1 = Some (Done (Ctl_ok, st')) \<and> msg_ok wit_info st' \<and>
    messages wit_info st' 0 = [] \<and> msgconv wit_info 0 st' = Done (Inl EINVAL) \<and>
    length (free_headers st') = length (free_headers wit_msg1) + length (messages wit_info wit_msg1 0)"
proof -
  have "msg_owner wit_user (msgque wit_msg1 ! 0)" by code_simp
  then show ?thesis
    using msg_rmid_ends [OF wit_info_ok(1) wit_msg1_ok wit_msg1_conv(1)] by blast
qed

text \<open>
  C40. A wild pointer: a sender that waits for room on a queue and is interrupted by a signal after
  the queue has been removed follows a pointer that was never set, where it should, as when it is
  woken, report that the queue is gone.
\<close>

theorem msgsnd_interrupt_after_removal:
  assumes "info_ok mi" and "msg_ok mi st" and "msgconv mi msqid st = Done (Inr x)"
    and "msgsnd mi ca a st = Done (Snd_sleep_room, st1)" and "sa_id a = msqid"
    and "msgctl mi ca' msqid MSG_RMID st1 = Some (Done (Ctl_ok, st2))"
  shows "msgsnd_room_interrupted mi a x st2 = Overrun \<and>
    msgsnd_room_woken mi ca a mtyp x st2 = Done (Snd_ret (Some EIDRM), st2)"
proof -
  have ok1: "msg_ok mi st1"
    by (rule msgsnd_call [OF assms(1,2), of ca a]) (use assms(4) in simp)
  obtain x' where "msgconv mi msqid st1 = Done (Inr x')"
    using assms(6) by (auto simp: msgctl_def split: outcome.splits sum.splits)
  then have conv1: "msgconv mi msqid st1 = Done (Inr x)"
    using msgconv_index [of mi msqid st1 x'] msgconv_index [OF assms(3)] by simp
  have "msg_owner ca' (msgque st1 ! x)"
    using assms(6) conv1 by (auto simp: msgctl_def msg_rmid_def ctl_ret_def split: if_splits)
  obtain qs fs where rep: "msg_rep mi st1 qs fs" and bytes: "bytes_ok mi st1 qs"
    using ok1 by (auto simp: msg_ok_def)
  note Q = queue_bounds [OF assms(1) ok1 conv1]
  obtain st' where run: "msg_rmid mi ca' msqid x st1 = Some (Done (None, st'))"
    and ok': "msg_ok mi st'" and gone: "\<not> ipc_allocated (msg_perm (msgque st' ! x))"
    by (rule msg_rmid_done [OF rep bytes assms(1) Q(1) \<open>msg_owner ca' (msgque st1 ! x)\<close> Q(3)])
  have st2: "st2 = st'"
    using assms(6) conv1 run by (simp add: msgctl_def ctl_ret_def)
  have "msgconv mi msqid st' = Done (Inl EINVAL)"
    by (rule msgconv_removed [OF assms(1) ok' assms(3) gone])
  then show ?thesis
    using gone assms(5) by (simp add: st2 msgsnd_room_interrupted_def msgsnd_room_woken_def queue_gone_def)
qed


definition wit_big :: msgsnd_args where
  "wit_big = wit_send\<lparr>sa_sz := 16\<rparr>"

definition wit_waiting :: msgst where
  "wit_waiting = wit_msg1\<lparr>msgque := [set_mode (IPC_ALLOC OR MSG_WWAIT) wit_queue, zero_msqid_ds]\<rparr>"

definition wit_removed :: msgst where
  "wit_removed = msg_removed wit_info 0 0 wit_waiting"

lemma wit_sleeps: "msgsnd wit_info wit_user wit_big wit_msg1 = Done (Snd_sleep_room, wit_waiting)"
proof -
  have "msgsnd wit_info wit_user wit_big wit_msg1 = msgsnd_getres wit_info wit_user wit_big 7 0 wit_msg1"
    by (simp add: msgsnd_def wit_big_def wit_send_def wit_msg1_conv wit_info_ok)
  also have "\<dots> = Done (Snd_sleep_room, wit_waiting)"
    by (simp add: msgsnd_getres_def wit_big_def wit_send_def wit_msg1_def wit_waiting_def wit_queue_def
        zero_msqid_ds_def set_q_def wit_msg0_def)
  finally show ?thesis .
qed

lemma wit_rmid: "msgctl wit_info wit_user 0 MSG_RMID wit_waiting = Some (Done (Ctl_ok, wit_removed))"
proof -
  have "msgconv wit_info 0 wit_waiting = Done (Inr 0)" and "msg_owner wit_user (msgque wit_waiting ! 0)"
    by code_simp+
  moreover have "msg_purge wit_info 0 wit_waiting = Some (Done wit_waiting)"
    by (simp add: msg_purge.simps wit_waiting_def wit_queue_def zero_msqid_ds_def)
  ultimately show ?thesis
    by (simp add: msgctl_def msg_rmid_def ctl_ret_def wit_removed_def)
qed

theorem msgsnd_interrupt_after_removal_witness:
  "msgsnd_room_interrupted wit_info wit_big 0 wit_removed = Overrun \<and>
    msgsnd_room_woken wit_info wit_user wit_big 7 0 wit_removed = Done (Snd_ret (Some EIDRM), wit_removed)"
  by (rule msgsnd_interrupt_after_removal [OF wit_info_ok(1) wit_msg1_ok wit_msg1_conv(1) wit_sleeps _ wit_rmid])
    (simp add: wit_big_def wit_send_def)

text \<open>The limit of a queue can be raised while senders wait for room: nobody is woken.\<close>

lemma msg_set_wakes_nobody: "mwakes (msg_install ca x uid gid mode qbytes st) = mwakes st"
  by (simp add: msg_install_def set_q_def Let_def)

end
