(* ===== verification/Callout.thy ===== *)
theory Callout
  imports Kern_Prelude
begin

unbundle bit_operations_syntax

text \<open>
  Callout tables, \<^verbatim>\<open>uts/common/os/callout.c\<close>: functions to be called after a number of clock
  ticks. A table has 256 buckets by the low bits of the time at which a callout is due; ticks
  are 32-bit and wrap. The lock of a table is given up while a callout's function runs, so
  that execution is cut there into two operations; everything else runs with the lock held.
\<close>

section \<open>State\<close>

type_synonym ticks = "32 word"

text \<open>
  \<open>c_addr\<close> stands for the address of the structure, \<open>c_func\<close> and \<open>c_arg\<close> for the function and
  its argument, \<open>c_executor\<close> for the thread that runs it. A structure is in one bucket or on
  the free list, so that each chain is the list of the structures in it.
\<close>

record callout =
  c_addr :: nat
  c_xid :: "32 word"
  c_runtime :: ticks
  c_func :: nat
  c_arg :: nat
  c_executor :: nat

record callout_bucket =
  b_first :: "callout list"
  b_short_id :: "32 word"
  b_long_id :: "32 word"

record callout_state =
  cs_freelist :: "callout list"
  cs_curtime :: ticks
  cs_runtime :: ticks
  cs_ncallout :: nat
  cs_busyticks :: nat
  cs_bucket :: "callout_bucket list"

definition CALLOUT_EXECUTING :: "32 word" where "CALLOUT_EXECUTING = 0x80000000"
definition CALLOUT_UNSAFE_DRIVER :: "32 word" where "CALLOUT_UNSAFE_DRIVER = 0x40000000"
definition CALLOUT_REALTIME :: "32 word" where "CALLOUT_REALTIME = 0x20000000"
definition CALLOUT_NORMAL :: "32 word" where "CALLOUT_NORMAL = 0x10000000"
definition CALLOUT_LONGTERM :: "32 word" where "CALLOUT_LONGTERM = 0x08000000"
definition CALLOUT_TABLE_ID_MASK :: "32 word" where "CALLOUT_TABLE_ID_MASK = CALLOUT_REALTIME OR CALLOUT_NORMAL"
definition CALLOUT_ID_MASK :: "32 word" where "CALLOUT_ID_MASK = 0x3FFFFFFF"
definition CALLOUT_LONGTERM_TICKS :: int where "CALLOUT_LONGTERM_TICKS = 0x4000"
definition CALLOUT_BUCKETS :: nat where "CALLOUT_BUCKETS = 256"
definition CALLOUT_BUCKET_MASK :: "32 word" where "CALLOUT_BUCKET_MASK = 255"

definition bucket_of :: "32 word \<Rightarrow> nat" where
  "bucket_of w = unat (w AND CALLOUT_BUCKET_MASK)"

definition executing :: "callout \<Rightarrow> bool" where
  "executing c \<longleftrightarrow> c_xid c AND CALLOUT_EXECUTING \<noteq> 0"

definition set_bucket :: "nat \<Rightarrow> callout list \<Rightarrow> callout_state \<Rightarrow> callout_state" where
  "set_bucket i l cs = cs\<lparr>cs_bucket := (cs_bucket cs)[i := (cs_bucket cs ! i)\<lparr>b_first := l\<rparr>]\<rparr>"

section \<open>Initialisation and allocation\<close>

definition callout_setup :: "ticks \<Rightarrow> 32 word \<Rightarrow> callout_state \<Rightarrow> callout_state" where
  "callout_setup lbolt table_id cs =
     cs\<lparr>cs_bucket := map (\<lambda>i. \<lparr>b_first = [], b_short_id = word_of_nat i OR table_id,
                             b_long_id = word_of_nat i OR table_id OR CALLOUT_LONGTERM\<rparr>) [0..<CALLOUT_BUCKETS],
        cs_curtime := lbolt, cs_runtime := lbolt\<rparr>"

text \<open>
  The memory allocator answers a request by the address of the memory or not at all: \<open>perm\<close>
  is what \<^verbatim>\<open>kmem_perm_alloc\<close> returns and \<open>kmem\<close> what \<^verbatim>\<open>kmem_alloc\<close> returns for each size.
\<close>

record allocator =
  ka_size :: nat
  ka_perm :: "nat option"
  ka_kmem :: "nat \<Rightarrow> nat option"

function callout_alloc_loop :: "(nat \<Rightarrow> nat option) \<Rightarrow> nat \<Rightarrow> nat option" where
  "callout_alloc_loop kmem sz =
     (if sz < 4096 then case kmem sz of None \<Rightarrow> callout_alloc_loop kmem (sz + 1) | Some a \<Rightarrow> Some a
      else None)"
  by pat_completeness auto

termination
  by (relation "measure (\<lambda>(_, sz). 4096 - sz)") auto

definition callout_alloc :: "allocator \<Rightarrow> callout_state \<Rightarrow> (callout \<times> callout_state) outcome" where
  "callout_alloc ka cs =
     (case (case ka_perm ka of Some a \<Rightarrow> Some a | None \<Rightarrow> callout_alloc_loop (ka_kmem ka) (ka_size ka)) of
        None \<Rightarrow> Panic
      | Some a \<Rightarrow> Done (\<lparr>c_addr = a, c_xid = 0, c_runtime = 0, c_func = 0, c_arg = 0, c_executor = 0\<rparr>,
                        cs\<lparr>cs_ncallout := cs_ncallout cs + 1\<rparr>))"

section \<open>Insertion and deletion\<close>

text \<open>
  The next identifier of a bucket. The long-term bit is taken away before the addition or
  cleared after it, so that a carry out of the counter does not reach the bits above.
\<close>

definition next_long_id :: "32 word \<Rightarrow> 32 word" where
  "next_long_id i = (i - CALLOUT_LONGTERM + word_of_nat CALLOUT_BUCKETS) OR CALLOUT_LONGTERM"

definition next_short_id :: "32 word \<Rightarrow> 32 word" where
  "next_short_id i = (i + word_of_nat CALLOUT_BUCKETS) AND NOT CALLOUT_LONGTERM"

definition callout_runtime :: "ticks \<Rightarrow> ticks \<Rightarrow> 32 word \<Rightarrow> ticks" where
  "callout_runtime lbolt curtime delta =
     (let runtime = lbolt + delta
      in if sint (runtime - curtime) \<le> 0 then curtime + 1 else runtime)"

definition callout_insert ::
    "allocator \<Rightarrow> ticks \<Rightarrow> bool \<Rightarrow> nat \<Rightarrow> nat \<Rightarrow> 32 word \<Rightarrow> callout_state \<Rightarrow> (32 word \<times> callout_state) outcome" where
  "callout_insert ka lbolt unsafe func arg delta cs =
     bind_outcome (case cs_freelist cs of
                     [] \<Rightarrow> bind_outcome (callout_alloc ka cs) (\<lambda>(cp, cs). Done (cp, cs\<lparr>cs_freelist := []\<rparr>))
                   | cp # rest \<Rightarrow> Done (cp, cs\<lparr>cs_freelist := rest\<rparr>))
       (\<lambda>(cp, cs).
          let curtime = cs_curtime cs;
              runtime = callout_runtime lbolt curtime delta;
              i = bucket_of runtime;
              bucket = cs_bucket cs ! i;
              long = sint (runtime - curtime) > CALLOUT_LONGTERM_TICKS;
              ident = (if long then next_long_id (b_long_id bucket) else next_short_id (b_short_id bucket));
              bucket = (if long then bucket\<lparr>b_long_id := ident\<rparr> else bucket\<lparr>b_short_id := ident\<rparr>);
              cp = cp\<lparr>c_func := func, c_arg := arg, c_runtime := runtime,
                      c_xid := (if unsafe then ident OR CALLOUT_UNSAFE_DRIVER else ident)\<rparr>
          in Done (ident, cs\<lparr>cs_bucket := (cs_bucket cs)[i := bucket\<lparr>b_first := cp # b_first bucket\<rparr>]\<rparr>))"

text \<open>The callout with the given identifier, with what is before and behind it in its chain.\<close>

fun find_id :: "32 word \<Rightarrow> callout list \<Rightarrow> (callout list \<times> callout \<times> callout list) option" where
  "find_id ident [] = None"
| "find_id ident (c # l) =
     (if c_xid c AND CALLOUT_ID_MASK = ident then Some ([], c, l)
      else case find_id ident l of None \<Rightarrow> None | Some (pre, d, post) \<Rightarrow> Some (c # pre, d, post))"

text \<open>
  A deletion returns the time left or -1, or waits until the structure at the given address
  carries another extended identifier, and then returns -1.
\<close>

datatype delete_res = Del_returns int | Del_waits nat "32 word"

definition callout_delete :: "nat \<Rightarrow> 32 word \<Rightarrow> callout_state \<Rightarrow> delete_res \<times> callout_state" where
  "callout_delete curthread ident cs =
     (case find_id ident (b_first (cs_bucket cs ! bucket_of ident)) of
        None \<Rightarrow> (Del_returns (- 1), cs)
      | Some (pre, cp, post) \<Rightarrow>
          if executing cp
          then (if c_executor cp = curthread then (Del_returns (- 1), cs)
                else (Del_waits (c_addr cp) (c_xid cp), cs))
          else
            let time_left = sint (c_runtime cp - cs_curtime cs);
                cs = set_bucket (bucket_of ident) (pre @ post) cs
            in (Del_returns (if time_left < 0 then 0 else time_left), cs\<lparr>cs_freelist := cp # cs_freelist cs\<rparr>))"

section \<open>The clock tick\<close>

definition due_now :: "ticks \<Rightarrow> callout \<Rightarrow> bool" where
  "due_now runtime c \<longleftrightarrow> c_runtime c = runtime \<and> \<not> executing c"

fun find_due :: "ticks \<Rightarrow> callout list \<Rightarrow> callout option" where
  "find_due runtime [] = None"
| "find_due runtime (c # l) = (if due_now runtime c then Some c else find_due runtime l)"

text \<open>The work the tick asks for: a soft interrupt, or a wake-up of a callout thread.\<close>

datatype scheduled = Softcall | Signal_thread

lemma ticks_left_decreases:
  fixes r t :: "32 word"
  assumes "sint (r - t) \<le> 0"
  shows "unat (t - r) < unat (t - r + 1)"
proof -
  have "t - r \<noteq> - 1"
  proof
    assume "t - r = - 1"
    then have "r - t = 1"
      by (metis minus_diff_eq minus_minus)
    with assms show False by simp
  qed
  then have "t - r + 1 \<noteq> 0"
    by (metis add_eq_0_iff2 minus_equation_iff)
  then have "unat (t - r + 1) = Suc (unat (t - r))"
    by (metis add.commute unatSuc)
  then show ?thesis by simp
qed

function callout_schedule_loop :: "callout_state \<Rightarrow> scheduled option \<times> callout_state" where
  "callout_schedule_loop cs =
     (let runtime = cs_runtime cs in
      if sint (runtime - cs_curtime cs) \<le> 0
      then (case find_due runtime (b_first (cs_bucket cs ! bucket_of runtime)) of
              Some c \<Rightarrow> (Some (if c_xid c AND CALLOUT_REALTIME \<noteq> 0 then Softcall else Signal_thread),
                        cs\<lparr>cs_busyticks := cs_busyticks cs + 1\<rparr>)
            | None \<Rightarrow> callout_schedule_loop (cs\<lparr>cs_runtime := runtime + 1\<rparr>))
      else (None, cs))"
  by pat_completeness auto

termination
  by (relation "measure (\<lambda>cs. unat (cs_curtime cs - cs_runtime cs + 1))") (auto simp: ticks_left_decreases)

definition callout_schedule :: "ticks \<Rightarrow> callout_state \<Rightarrow> scheduled option \<times> callout_state" where
  "callout_schedule lbolt cs = callout_schedule_loop (cs\<lparr>cs_curtime := lbolt\<rparr>)"

section \<open>Execution\<close>

text \<open>The next callout of a chain that is due, marked as executing.\<close>

fun start_due :: "nat \<Rightarrow> ticks \<Rightarrow> callout list \<Rightarrow> (callout \<times> callout list) option" where
  "start_due curthread runtime [] = None"
| "start_due curthread runtime (c # l) =
     (if c_runtime c \<noteq> runtime \<or> executing c
      then (case start_due curthread runtime l of None \<Rightarrow> None | Some (d, l') \<Rightarrow> Some (d, c # l'))
      else
        let c = c\<lparr>c_executor := curthread, c_xid := c_xid c OR CALLOUT_EXECUTING\<rparr>
        in Some (c, c # l))"

text \<open>
  A thread that executes callouts is idle when it has left \<^verbatim>\<open>callout_execute\<close>, or runs the
  function of the structure at an address, with the run time it works on.
\<close>

datatype executor = Idle | Running ticks nat

function callout_execute :: "nat \<Rightarrow> callout_state \<Rightarrow> executor \<times> callout_state" where
  "callout_execute curthread cs =
     (let runtime = cs_runtime cs in
      if sint (runtime - cs_curtime cs) \<le> 0
      then (case start_due curthread runtime (b_first (cs_bucket cs ! bucket_of runtime)) of
              Some (c, l) \<Rightarrow> (Running runtime (c_addr c), set_bucket (bucket_of runtime) l cs)
            | None \<Rightarrow> callout_execute curthread (cs\<lparr>cs_runtime := runtime + 1\<rparr>))
      else (Idle, cs))"
  by pat_completeness auto

termination
  by (relation "measure (\<lambda>(_, cs). unat (cs_curtime cs - cs_runtime cs + 1))") (auto simp: ticks_left_decreases)

text \<open>
  What follows the call of the function: the structure is unlinked, freed and its waiters
  are woken, and the thread goes on behind it. Before that the thread sleeps, with the lock given up,
  as long as the system is being stopped (\<^verbatim>\<open>cpr_stop_callout\<close>); the step below is what it does once that wait is
  over. It changes nothing while it waits, and in the runs considered later any number of steps of others may come
  between the start of a function and this step, so that a wait is a delay of the step. The result is \<open>None\<close> if the structure is not in
  its bucket, in which case the search for its predecessor never ends.
\<close>

fun split_addr :: "nat \<Rightarrow> callout list \<Rightarrow> (callout list \<times> callout \<times> callout list) option" where
  "split_addr a [] = None"
| "split_addr a (c # l) =
     (if c_addr c = a then Some ([], c, l)
      else case split_addr a l of None \<Rightarrow> None | Some (pre, d, post) \<Rightarrow> Some (c # pre, d, post))"

definition callout_executed :: "nat \<Rightarrow> ticks \<Rightarrow> nat \<Rightarrow> callout_state \<Rightarrow> (executor \<times> callout_state) option" where
  "callout_executed curthread runtime a cs =
     (case split_addr a (b_first (cs_bucket cs ! bucket_of runtime)) of
        None \<Rightarrow> None
      | Some (pre, cp, post) \<Rightarrow>
          let cs = cs\<lparr>cs_freelist := cp\<lparr>c_xid := 0\<rparr> # cs_freelist cs\<rparr>
          in (case start_due curthread runtime post of
                Some (c, l) \<Rightarrow> Some (Running runtime (c_addr c), set_bucket (bucket_of runtime) (pre @ l) cs)
              | None \<Rightarrow>
                  let cs = set_bucket (bucket_of runtime) (pre @ post) cs;
                      cs = (if cs_runtime cs = runtime then cs\<lparr>cs_runtime := runtime + 1\<rparr> else cs)
                  in Some (callout_execute curthread cs)))"

section \<open>The two tables\<close>

record callout_tables =
  ct_normal :: callout_state
  ct_realtime :: callout_state
  ct_stop :: bool

definition timeout :: "allocator \<Rightarrow> ticks \<Rightarrow> bool \<Rightarrow> nat \<Rightarrow> nat \<Rightarrow> 32 word \<Rightarrow> callout_tables \<Rightarrow> (32 word \<times> callout_tables) outcome" where
  "timeout ka lbolt unsafe func arg delta ct =
     bind_outcome (callout_insert ka lbolt unsafe func arg delta (ct_normal ct)) (\<lambda>(ident, cs). Done (ident, ct\<lparr>ct_normal := cs\<rparr>))"

definition realtime_timeout :: "allocator \<Rightarrow> ticks \<Rightarrow> bool \<Rightarrow> nat \<Rightarrow> nat \<Rightarrow> 32 word \<Rightarrow> callout_tables \<Rightarrow> (32 word \<times> callout_tables) outcome" where
  "realtime_timeout ka lbolt unsafe func arg delta ct =
     bind_outcome (callout_insert ka lbolt unsafe func arg delta (ct_realtime ct)) (\<lambda>(ident, cs). Done (ident, ct\<lparr>ct_realtime := cs\<rparr>))"

definition untimeout :: "nat \<Rightarrow> 32 word \<Rightarrow> callout_tables \<Rightarrow> delete_res \<times> callout_tables" where
  "untimeout curthread ident ct =
     (if ident AND CALLOUT_REALTIME \<noteq> 0
      then let (r, cs) = callout_delete curthread ident (ct_realtime ct) in (r, ct\<lparr>ct_realtime := cs\<rparr>)
      else let (r, cs) = callout_delete curthread ident (ct_normal ct) in (r, ct\<lparr>ct_normal := cs\<rparr>))"

text \<open>A callout thread that was woken; it goes back to sleep while the system is being stopped.\<close>

definition callout_thread :: "nat \<Rightarrow> callout_tables \<Rightarrow> executor \<times> callout_tables" where
  "callout_thread curthread ct =
     (if ct_stop ct then (Idle, ct)
      else let (e, cs) = callout_execute curthread (ct_normal ct) in (e, ct\<lparr>ct_normal := cs\<rparr>))"

definition realtime_timein :: "nat \<Rightarrow> callout_tables \<Rightarrow> executor \<times> callout_tables" where
  "realtime_timein curthread ct =
     (let (e, cs) = callout_execute curthread (ct_realtime ct) in (e, ct\<lparr>ct_realtime := cs\<rparr>))"

definition empty_table :: callout_state where
  "empty_table = \<lparr>cs_freelist = [], cs_curtime = 0, cs_runtime = 0, cs_ncallout = 0, cs_busyticks = 0, cs_bucket = []\<rparr>"

definition CALLOUT_THREADS :: nat where "CALLOUT_THREADS = 2"

text \<open>\<open>created i\<close> tells whether the creation of the \<open>i\<close>th callout thread succeeded.\<close>

definition callout_init :: "(nat \<Rightarrow> bool) \<Rightarrow> ticks \<Rightarrow> callout_tables outcome" where
  "callout_init created lbolt =
     (let normal = callout_setup lbolt CALLOUT_NORMAL empty_table in
      if list_all created [0..<CALLOUT_THREADS]
      then Done \<lparr>ct_normal = normal, ct_realtime = callout_setup lbolt CALLOUT_REALTIME empty_table, ct_stop = False\<rparr>
      else Panic)"

section \<open>Suspend and resume\<close>

text \<open>
  Moving callouts from a bucket to the saved one. The test in the code is
  \<^verbatim>\<open>cp->c_xid | CALLOUT_EXECUTING\<close>. The result is what stays and what was moved.
\<close>

fun save_bucket :: "callout list \<Rightarrow> callout list \<Rightarrow> callout list \<times> callout list" where
  "save_bucket [] saved = ([], saved)"
| "save_bucket (c # l) saved =
     (if c_xid c OR CALLOUT_EXECUTING \<noteq> 0
      then let (stay, saved) = save_bucket l saved in (c # stay, saved)
      else save_bucket l (c # saved))"

definition callout_save :: "callout_state \<Rightarrow> callout_state \<times> callout_state" where
  "callout_save cs =
     (let ocs = cs;
          moved = map (\<lambda>b. save_bucket (b_first b) []) (cs_bucket cs)
      in (cs\<lparr>cs_busyticks := 0, cs_bucket := map2 (\<lambda>b m. b\<lparr>b_first := fst m\<rparr>) (cs_bucket cs) moved\<rparr>,
          ocs\<lparr>cs_bucket := map2 (\<lambda>b m. b\<lparr>b_first := snd m\<rparr>) (cs_bucket cs) moved\<rparr>))"

definition callout_restore :: "callout_state \<Rightarrow> callout_state \<Rightarrow> callout_state" where
  "callout_restore cs ocs =
     cs\<lparr>cs_bucket := map2 (\<lambda>b ob. b\<lparr>b_first := rev (b_first ob) @ b_first b\<rparr>) (cs_bucket cs) (cs_bucket ocs),
        cs_busyticks := cs_busyticks cs + cs_busyticks ocs, cs_runtime := cs_runtime ocs\<rparr>"

text \<open>Suspend gives the tables to restore; resume takes them.\<close>

definition callout_cpr_chkpt :: "callout_tables \<Rightarrow> callout_tables \<times> callout_state \<times> callout_state" where
  "callout_cpr_chkpt ct =
     (let (n, on) = callout_save (ct_normal ct); (r, ort) = callout_save (ct_realtime ct)
      in (\<lparr>ct_normal = n, ct_realtime = r, ct_stop = True\<rparr>, on, ort))"

definition callout_cpr_resume :: "callout_tables \<Rightarrow> callout_state \<Rightarrow> callout_state \<Rightarrow> callout_tables" where
  "callout_cpr_resume ct on ort =
     \<lparr>ct_normal = callout_restore (ct_normal ct) on, ct_realtime = callout_restore (ct_realtime ct) ort, ct_stop = False\<rparr>"

end
