(* ===== verification/Callout_Proofs.thy ===== *)
theory Callout_Proofs
  imports Callout
begin

text \<open>
  Correctness of callout tables: times are compared by their signed distance, identifiers
  keep their fields apart, an insertion can be taken back, and whatever threads insert,
  delete and execute, no callout is missed, started early or run by two threads.
\<close>

declare callout_execute.simps [simp del] callout_schedule_loop.simps [simp del] callout_alloc_loop.simps [simp del]

section \<open>Distances between times\<close>

lemma sint_plus:
  fixes x y :: "32 word"
  assumes "- 2147483648 \<le> sint x + sint y" and "sint x + sint y < 2147483648"
  shows "sint (x + y) = sint x + sint y"
  using assms by (simp add: sint_word_ariths(1) signed_take_bit_int_eq_self)

lemma sint_range: "- 2147483648 \<le> sint (x :: 32 word) \<and> sint x < 2147483648"
  using sint_ge [of x] sint_lt [of x] by simp

text \<open>The signed distance from the current time \<open>t\<close>.\<close>

definition ahead :: "ticks \<Rightarrow> ticks \<Rightarrow> int" where
  "ahead t x = sint (x - t)"

lemma ahead_inj: "ahead t x = ahead t y \<Longrightarrow> x = y"
  unfolding ahead_def by (metis diff_add_cancel signed_word_eqI)

lemma ahead_next:
  assumes "ahead t x \<le> 0"
  shows "ahead t (x + 1) = ahead t x + 1"
proof -
  have "sint (x - t + 1) = sint (x - t) + 1"
    using assms sint_plus [of "x - t" 1] sint_range [of "x - t"] by (simp add: ahead_def)
  then show ?thesis
    by (simp add: ahead_def algebra_simps)
qed

lemma ahead_later:
  assumes "0 \<le> ahead t t'" and "- 2147483648 \<le> ahead t x - ahead t t'"
  shows "ahead t' x = ahead t x - ahead t t'"
proof -
  have n: "sint (t - t') = - sint (t' - t)"
  proof -
    have "sint (- (t' - t)) = - sint (t' - t)"
      using assms(1) sint_range [of "t' - t"]
      by (simp only: sint_word_ariths(4)) (simp add: ahead_def signed_take_bit_int_eq_self)
    then show ?thesis by simp
  qed
  have "sint ((x - t) + (t - t')) = sint (x - t) + sint (t - t')"
    using assms n sint_range [of "x - t"] by (intro sint_plus) (simp_all add: ahead_def)
  with n show ?thesis
    by (simp add: ahead_def)
qed

lemma ahead_self [simp]: "ahead t t = 0" "ahead t (t + 1) = 1"
  by (simp_all add: ahead_def)

lemma callout_runtime_future: "1 \<le> ahead t (callout_runtime lbolt t delta)"
  by (simp add: callout_runtime_def ahead_def Let_def)

section \<open>Buckets\<close>

abbreviation chain :: "callout_state \<Rightarrow> nat \<Rightarrow> callout list" where
  "chain cs i \<equiv> b_first (cs_bucket cs ! i)"

lemma bucket_of_mod: "bucket_of w = unat w mod 256"
proof -
  have "w AND 255 = take_bit 8 w"
    by (simp add: take_bit_eq_mask mask_eq_exp_minus_1)
  then have "bucket_of w = take_bit 8 (unat w)"
    by (simp only: bucket_of_def CALLOUT_BUCKET_MASK_def unsigned_take_bit_eq)
  then show ?thesis
    by (simp add: take_bit_eq_mod)
qed

lemma bucket_of_bound [simp]: "bucket_of w < 256"
  by (simp add: bucket_of_mod)

definition buckets_ok :: "callout_state \<Rightarrow> bool" where
  "buckets_ok cs \<longleftrightarrow> length (cs_bucket cs) = 256 \<and>
     (\<forall>i<256. \<forall>c\<in>set (chain cs i). bucket_of (c_runtime c) = i)"

lemma set_bucket_simps [simp, state_simps]:
  "length (cs_bucket (set_bucket i l cs)) = length (cs_bucket cs)"
  "cs_curtime (set_bucket i l cs) = cs_curtime cs" "cs_runtime (set_bucket i l cs) = cs_runtime cs"
  "cs_freelist (set_bucket i l cs) = cs_freelist cs"
  by (simp_all add: set_bucket_def)

lemma chain_set_bucket [simp]:
  "i < length (cs_bucket cs) \<Longrightarrow> chain (set_bucket i l cs) j = (if j = i then l else chain cs j)"
  by (auto simp: set_bucket_def)

text \<open>All structures that are in a bucket.\<close>

definition queued :: "callout_state \<Rightarrow> callout set" where
  "queued cs = (\<Union>i<256. set (chain cs i))"

lemma queued_bucket:
  assumes "buckets_ok cs" and "c \<in> queued cs"
  shows "c \<in> set (chain cs (bucket_of (c_runtime c)))"
  using assms by (auto simp: buckets_ok_def queued_def)

lemma chain_queued: "c \<in> set (chain cs (bucket_of w)) \<Longrightarrow> c \<in> queued cs"
  unfolding queued_def using bucket_of_bound by blast

lemma chain_runtime: "buckets_ok cs \<Longrightarrow> i < 256 \<Longrightarrow> c \<in> set (chain cs i) \<Longrightarrow> bucket_of (c_runtime c) = i"
  by (simp add: buckets_ok_def)

lemma queued_set_bucket:
  assumes "buckets_ok cs" and "i < 256"
  shows "queued (set_bucket i l cs) = set l \<union> (\<Union>j\<in>{..<256} - {i}. set (chain cs j))"
    and "queued cs = set (chain cs i) \<union> (\<Union>j\<in>{..<256} - {i}. set (chain cs j))"
  using assms by (auto simp: queued_def buckets_ok_def split: if_splits)

lemma buckets_ok_set_bucket:
  assumes "buckets_ok cs" and "\<forall>c\<in>set l. bucket_of (c_runtime c) = i"
  shows "buckets_ok (set_bucket i l cs)"
proof (cases "i < 256")
  case True
  with assms show ?thesis
    by (auto simp: buckets_ok_def)
next
  case False
  then have "set_bucket i l cs = cs"
    using assms(1) by (simp add: set_bucket_def buckets_ok_def list_update_beyond)
  with assms(1) show ?thesis by simp
qed

section \<open>Identifiers\<close>

text \<open>An identifier made of the bits \<open>aux\<close> above the counter and the counter with the bucket number.\<close>

definition make_id :: "nat \<Rightarrow> nat \<Rightarrow> 32 word" where
  "make_id aux j = word_of_nat (aux * 2 ^ 27 + j)"

lemma unat_make_id: "aux < 32 \<Longrightarrow> j < 2 ^ 27 \<Longrightarrow> unat (make_id aux j) = aux * 2 ^ 27 + j"
  unfolding make_id_def unsigned_of_nat by (simp add: take_bit_nat_eq_self)

lemma bit27_make_id:
  assumes "j < 2 ^ 28"
  shows "bit (make_id aux j) 27 \<longleftrightarrow> odd (aux + j div 2 ^ 27)"
proof -
  have "(aux * 2 ^ 27 + j) div 2 ^ 27 = aux + j div 2 ^ 27"
    by simp
  moreover have "bit (make_id aux j) 27 \<longleftrightarrow> bit (aux * 2 ^ 27 + j) 27"
    using bit_unsigned_iff [of "make_id aux j" 27, where 'a = nat]
    unfolding make_id_def unsigned_of_nat by (simp add: bit_take_bit_iff)
  ultimately show ?thesis
    by (simp only: bit_iff_odd)
qed

lemma longterm_bit: "bit CALLOUT_LONGTERM n \<longleftrightarrow> n = 27"
proof -
  have e: "CALLOUT_LONGTERM = 2 ^ 27"
    by (simp add: CALLOUT_LONGTERM_def)
  show ?thesis
    unfolding e bit_exp_iff by auto
qed

lemma clear_longterm: "w AND NOT CALLOUT_LONGTERM = (if bit w 27 then w - CALLOUT_LONGTERM else w)"
proof (cases "bit w 27")
  case True
  then have "w = (w AND NOT CALLOUT_LONGTERM) OR CALLOUT_LONGTERM"
    by (intro bit_eqI) (auto simp: bit_simps longterm_bit)
  also have "\<dots> = (w AND NOT CALLOUT_LONGTERM) + CALLOUT_LONGTERM"
    by (rule disjunctive_add [symmetric]) (auto simp: bit_simps)
  finally show ?thesis
    using True by (metis add_diff_cancel_right')
next
  case False
  then have "w AND NOT CALLOUT_LONGTERM = w"
    by (intro bit_eqI) (auto simp: bit_simps longterm_bit)
  with False show ?thesis by simp
qed

lemma set_longterm: "w OR CALLOUT_LONGTERM = (if bit w 27 then w else w + CALLOUT_LONGTERM)"
proof (cases "bit w 27")
  case True
  then have "w OR CALLOUT_LONGTERM = w"
    by (intro bit_eqI) (auto simp: bit_simps longterm_bit)
  with True show ?thesis by simp
next
  case False
  then have "w + CALLOUT_LONGTERM = w OR CALLOUT_LONGTERM"
    by (intro disjunctive_add) (auto simp: longterm_bit)
  with False show ?thesis by simp
qed

lemma make_id_plus: "make_id aux j + word_of_nat n = make_id aux (j + n)"
  by (simp add: make_id_def algebra_simps)

lemma make_id_256: "make_id aux j + 256 = make_id aux (j + 256)"
  using make_id_plus [of aux j 256] by simp

lemma make_id_longterm: "make_id aux (134217728 + j) = make_id aux j + CALLOUT_LONGTERM" "make_id (Suc aux) j = make_id aux j + CALLOUT_LONGTERM"
  by (simp_all add: make_id_def CALLOUT_LONGTERM_def algebra_simps)

lemma next_short_make:
  assumes "even aux" and "j < 2 ^ 27"
  shows "next_short_id (make_id aux j) = make_id aux ((j + 256) mod 2 ^ 27)"
proof (cases "j + 256 < 2 ^ 27")
  case True
  then have "\<not> bit (make_id aux (j + 256)) 27"
    using assms(1) by (subst bit27_make_id) auto
  with True show ?thesis
    by (simp add: next_short_id_def CALLOUT_BUCKETS_def make_id_256 clear_longterm)
next
  case False
  define m where "m = j + 256 - 2 ^ 27"
  have m: "j + 256 = 2 ^ 27 + m" "m < 2 ^ 27"
    using False assms(2) by (simp_all add: m_def)
  have "(2 ^ 27 + m) div 2 ^ 27 = m div 2 ^ 27 + 1"
    by (rule div_add_self1) simp
  then have "bit (make_id aux (2 ^ 27 + m)) 27"
    using assms(1) m(2) by (subst bit27_make_id) simp_all
  then show ?thesis
    using m by (simp add: next_short_id_def CALLOUT_BUCKETS_def make_id_256 clear_longterm make_id_longterm(1))
qed

lemma next_long_make:
  assumes "odd aux" and "j < 2 ^ 27"
  shows "next_long_id (make_id aux j) = make_id aux ((j + 256) mod 2 ^ 27)"
proof -
  obtain aux' where aux: "aux = Suc aux'" "even aux'"
    using assms(1) by (cases aux) auto
  have start: "make_id aux j - CALLOUT_LONGTERM + word_of_nat 256 = make_id aux' (j + 256)"
    by (simp add: aux(1) make_id_longterm(2) make_id_256)
  show ?thesis
  proof (cases "j + 256 < 2 ^ 27")
    case True
    then have "\<not> bit (make_id aux' (j + 256)) 27"
      using aux(2) by (subst bit27_make_id) auto
    with True start show ?thesis
      by (simp add: next_long_id_def CALLOUT_BUCKETS_def set_longterm aux(1) make_id_longterm(2))
  next
    case False
    define m where "m = j + 256 - 2 ^ 27"
    have m: "j + 256 = 2 ^ 27 + m" "m < 2 ^ 27"
      using False assms(2) by (simp_all add: m_def)
    have "(2 ^ 27 + m) div 2 ^ 27 = m div 2 ^ 27 + 1"
      by (rule div_add_self1) simp
    then have "bit (make_id aux' (2 ^ 27 + m)) 27"
      using aux(2) m(2) by (subst bit27_make_id) simp_all
    with m start show ?thesis
      by (simp add: next_long_id_def CALLOUT_BUCKETS_def set_longterm aux(1) make_id_longterm)
  qed
qed

lemma next_ids_iterate:
  assumes "j < 2 ^ 27"
  shows "even aux \<Longrightarrow> (next_short_id ^^ n) (make_id aux j) = make_id aux ((j + 256 * n) mod 2 ^ 27)"
    and "odd aux \<Longrightarrow> (next_long_id ^^ n) (make_id aux j) = make_id aux ((j + 256 * n) mod 2 ^ 27)"
proof -
  have step: "((j + 256 * n) mod 134217728 + 256) mod 134217728 = (j + 256 * Suc n) mod 134217728" for n :: nat
    by (simp add: mod_simps algebra_simps)
  show "even aux \<Longrightarrow> (next_short_id ^^ n) (make_id aux j) = make_id aux ((j + 256 * n) mod 2 ^ 27)"
    using assms by (induction n) (simp_all add: next_short_make step del: mult_Suc_right)
  show "odd aux \<Longrightarrow> (next_long_id ^^ n) (make_id aux j) = make_id aux ((j + 256 * n) mod 2 ^ 27)"
    using assms by (induction n) (simp_all add: next_long_make step del: mult_Suc_right)
qed

lemma make_id_high:
  assumes "aux < 32" and "j < 2 ^ 27"
  shows "make_id aux j AND push_bit 27 q = push_bit 27 (word_of_nat aux AND q)"
proof -
  have "unat (drop_bit 27 (make_id aux j)) = unat (word_of_nat aux :: 32 word)"
    unfolding unsigned_drop_bit_eq unat_make_id [OF assms] unsigned_of_nat
    using assms by (simp add: drop_bit_eq_div take_bit_nat_eq_self)
  then have d: "drop_bit 27 (make_id aux j) = word_of_nat aux"
    by (rule unsigned_word_eqI)
  have "make_id aux j AND push_bit 27 q = push_bit 27 (drop_bit 27 (make_id aux j) AND q)"
    by (rule bit_eqI) (auto simp: bit_simps)
  with d show ?thesis by simp
qed

lemma make_id_masked:
  assumes "aux < 8" and "j < 2 ^ 27"
  shows "make_id aux j AND CALLOUT_ID_MASK = make_id aux j"
proof -
  have "unat (take_bit 30 (make_id aux j)) = unat (make_id aux j)"
    using assms by (simp add: unsigned_take_bit_eq unat_make_id take_bit_nat_eq_self)
  then have "take_bit 30 (make_id aux j) = make_id aux j"
    by (rule unsigned_word_eqI)
  moreover have "CALLOUT_ID_MASK = mask 30"
    by (simp add: CALLOUT_ID_MASK_def mask_eq_exp_minus_1)
  ultimately show ?thesis
    by (simp add: take_bit_eq_mask)
qed

text \<open>The identifiers a bucket starts from.\<close>

lemma first_id:
  assumes "b < 256" and "w = push_bit 27 (word_of_nat aux)" and "aux < 8"
  shows "word_of_nat b OR w = make_id aux b"
proof -
  have b: "\<not> bit (word_of_nat b :: 32 word) n" if "27 \<le> n" for n
  proof -
    have "(2::nat) ^ 27 \<le> 2 ^ n"
      by (rule power_increasing [OF that]) simp
    with assms(1) have "\<not> bit b n"
      by (simp add: bit_iff_odd)
    then show ?thesis
      using bit_unsigned_iff [of "word_of_nat b :: 32 word" n, where 'a = nat] unfolding unsigned_of_nat
      by (auto simp: bit_take_bit_iff possible_bit_def)
  qed
  have "word_of_nat b OR w = word_of_nat b + w"
    by (rule disjunctive_add [symmetric]) (use b in \<open>auto simp: assms(2) bit_simps not_le\<close>)
  also have "\<dots> = make_id aux b"
    by (simp add: assms(2) push_bit_eq_mult make_id_def add.commute)
  finally show ?thesis .
qed

lemma id_consts:
  "CALLOUT_NORMAL = push_bit 27 2" "CALLOUT_REALTIME = push_bit 27 4" "CALLOUT_LONGTERM = push_bit 27 1"
  "CALLOUT_TABLE_ID_MASK = push_bit 27 6" "CALLOUT_NORMAL OR CALLOUT_LONGTERM = push_bit 27 3"
  "CALLOUT_REALTIME OR CALLOUT_LONGTERM = push_bit 27 5"
  by (simp_all add: CALLOUT_NORMAL_def CALLOUT_REALTIME_def CALLOUT_LONGTERM_def CALLOUT_TABLE_ID_MASK_def push_bit_eq_mult)

lemma add_mod_cancel: "(b + x) mod c = (b + y) mod c \<longleftrightarrow> x mod c = y mod (c :: nat)"
proof -
  have "int (b + x) mod int c = int (b + y) mod int c \<longleftrightarrow> int x mod int c = int y mod int c"
    by (simp add: mod_eq_dvd_iff)
  then show ?thesis
    by (simp only: zmod_int [symmetric] of_nat_eq_iff)
qed

lemma mod_multiple_add:
  assumes "d dvd c"
  shows "(a * c + x mod c) mod d = x mod (d :: nat)"
proof -
  have "(a * c) mod d = 0"
    using assms by simp
  then have "(a * c + x mod c) mod d = (x mod c) mod d"
    by (simp add: mod_add_eq [of "a * c" d, symmetric])
  with assms show ?thesis
    by (simp add: mod_mod_cancel)
qed

lemma cycle_iff: "(b + 256 * n) mod 2 ^ 27 = (b + 256 * m) mod 2 ^ 27 \<longleftrightarrow> n mod 524288 = m mod (524288 :: nat)"
proof -
  have e: "(2 :: nat) ^ 27 = 256 * 524288"
    by simp
  have "(256 * n) mod (256 * 524288) = (256 * m) mod (256 * 524288) \<longleftrightarrow> n mod 524288 = m mod (524288 :: nat)"
    unfolding mult_mod_right [symmetric] by (rule mult_cancel1 [THEN trans]) auto
  then show ?thesis
    unfolding e add_mod_cancel .
qed

lemma term_ids:
  assumes aux: "aux < 8" and b: "b < 256" and w: "w = push_bit 27 (word_of_nat aux)"
    and nxt: "nxt = (if even aux then next_short_id else next_long_id)"
  shows "bucket_of ((nxt ^^ n) (word_of_nat b OR w)) = b"
    and "(nxt ^^ n) (word_of_nat b OR w) AND CALLOUT_ID_MASK = (nxt ^^ n) (word_of_nat b OR w)"
    and "(nxt ^^ n) (word_of_nat b OR w) AND push_bit 27 q = push_bit 27 (word_of_nat aux AND q)"
    and "(nxt ^^ n) (word_of_nat b OR w) = (nxt ^^ m) (word_of_nat b OR w) \<longleftrightarrow> n mod 524288 = m mod 524288"
proof -
  have b27: "b < 2 ^ 27"
    using b by simp
  have it: "(nxt ^^ n) (word_of_nat b OR w) = make_id aux ((b + 256 * n) mod 2 ^ 27)" for n
    using next_ids_iterate [OF b27, of aux n] first_id [OF b w aux] nxt by simp
  have small: "(b + 256 * n) mod 2 ^ 27 < 2 ^ 27" for n
    by simp
  have e: "(2 :: nat) ^ 27 = 256 * 524288"
    by simp
  have dvd: "(256 :: nat) dvd 2 ^ 27"
    unfolding e by (rule dvd_triv_left)
  have "unat (make_id aux ((b + 256 * n) mod 2 ^ 27)) = aux * 2 ^ 27 + (b + 256 * n) mod 2 ^ 27"
    using aux small by (intro unat_make_id) auto
  also have "\<dots> mod 256 = (b + 256 * n) mod 256"
    by (rule mod_multiple_add [OF dvd])
  also have "\<dots> = b"
    using b by simp
  finally show "bucket_of ((nxt ^^ n) (word_of_nat b OR w)) = b"
    unfolding it bucket_of_mod .
  show "(nxt ^^ n) (word_of_nat b OR w) AND CALLOUT_ID_MASK = (nxt ^^ n) (word_of_nat b OR w)"
    unfolding it by (rule make_id_masked [OF aux small])
  show "(nxt ^^ n) (word_of_nat b OR w) AND push_bit 27 q = push_bit 27 (word_of_nat aux AND q)"
    unfolding it by (rule make_id_high [OF _ small]) (use aux in simp)
  have inj: "j = k" if "j < 2 ^ 27" "k < 2 ^ 27" "make_id aux j = make_id aux k" for j k
  proof -
    have "aux < 32"
      using aux by simp
    then have "aux * 2 ^ 27 + j = aux * 2 ^ 27 + k"
      using unat_make_id [OF _ that(1)] unat_make_id [OF _ that(2)] that(3) by metis
    then show ?thesis
      by (rule add_left_imp_eq)
  qed
  have "make_id aux ((b + 256 * n) mod 2 ^ 27) = make_id aux ((b + 256 * m) mod 2 ^ 27)
      \<longleftrightarrow> (b + 256 * n) mod 2 ^ 27 = (b + 256 * m) mod 2 ^ 27"
    by (rule iffI, erule inj [OF small small], erule arg_cong)
  then show "(nxt ^^ n) (word_of_nat b OR w) = (nxt ^^ m) (word_of_nat b OR w) \<longleftrightarrow> n mod 524288 = m mod 524288"
    unfolding it cycle_iff .
qed

lemma table_bits:
  assumes "table \<in> {CALLOUT_NORMAL, CALLOUT_REALTIME}"
  obtains aux where "aux < 8" "even aux" "table = push_bit 27 (word_of_nat aux)"
    "table OR CALLOUT_LONGTERM = push_bit 27 (word_of_nat (Suc aux))" "Suc aux < 8"
    "word_of_nat aux AND (6 :: 32 word) = word_of_nat aux" "word_of_nat (Suc aux) AND (6 :: 32 word) = word_of_nat aux"
    "word_of_nat aux AND (1 :: 32 word) = 0" "word_of_nat (Suc aux) AND (1 :: 32 word) = 1"
proof -
  consider "table = CALLOUT_NORMAL" | "table = CALLOUT_REALTIME"
    using assms by blast
  then show thesis
  proof cases
    case 1
    show ?thesis
      by (rule that [of 2]; (simp only: 1 id_consts)?; simp)
  next
    case 2
    show ?thesis
      by (rule that [of 4]; (simp only: 2 id_consts)?; simp)
  qed
qed

lemma callout_id_fields:
  assumes "table \<in> {CALLOUT_NORMAL, CALLOUT_REALTIME}" and "b < 256"
    and "s = (\<lambda>n. (next_short_id ^^ n) (word_of_nat b OR table))"
    and "l = (\<lambda>n. (next_long_id ^^ n) (word_of_nat b OR (table OR CALLOUT_LONGTERM)))"
  shows "bucket_of (s n) = b \<and> bucket_of (l n) = b"
    and "s n AND CALLOUT_ID_MASK = s n \<and> l n AND CALLOUT_ID_MASK = l n"
    and "s n AND CALLOUT_TABLE_ID_MASK = table \<and> l n AND CALLOUT_TABLE_ID_MASK = table"
    and "s n AND CALLOUT_LONGTERM = 0 \<and> l n AND CALLOUT_LONGTERM = CALLOUT_LONGTERM"
    and "(s n = s m \<longleftrightarrow> n mod 524288 = m mod 524288) \<and> (l n = l m \<longleftrightarrow> n mod 524288 = m mod 524288)"
proof -
  obtain aux where aux: "aux < 8" "even aux" "table = push_bit 27 (word_of_nat aux)"
    "table OR CALLOUT_LONGTERM = push_bit 27 (word_of_nat (Suc aux))" "Suc aux < 8"
    and masks: "word_of_nat aux AND (6 :: 32 word) = word_of_nat aux" "word_of_nat (Suc aux) AND (6 :: 32 word) = word_of_nat aux"
    "word_of_nat aux AND (1 :: 32 word) = 0" "word_of_nat (Suc aux) AND (1 :: 32 word) = 1"
    using table_bits [OF assms(1)] .
  have short: "next_short_id = (if even aux then next_short_id else next_long_id)"
    and long: "next_long_id = (if even (Suc aux) then next_short_id else next_long_id)"
    using aux(2) by simp_all
  note S = term_ids [OF aux(1) assms(2) aux(3) short] and L = term_ids [OF aux(5) assms(2) aux(4) long]
  show "bucket_of (s n) = b \<and> bucket_of (l n) = b"
    unfolding assms(3,4) by (intro conjI S(1) L(1))
  show "s n AND CALLOUT_ID_MASK = s n \<and> l n AND CALLOUT_ID_MASK = l n"
    unfolding assms(3,4) by (intro conjI S(2) L(2))
  show "s n AND CALLOUT_TABLE_ID_MASK = table \<and> l n AND CALLOUT_TABLE_ID_MASK = table"
    unfolding assms(3,4) id_consts(4) S(3) L(3) masks by (intro conjI aux(3) [symmetric])
  have m: "s n AND CALLOUT_LONGTERM = push_bit 27 (word_of_nat aux AND 1)"
    "l n AND CALLOUT_LONGTERM = push_bit 27 (word_of_nat (Suc aux) AND 1)"
    using S(3) [of n 1] L(3) [of n 1] unfolding assms(3,4) id_consts(3) [symmetric] by blast+
  show "s n AND CALLOUT_LONGTERM = 0 \<and> l n AND CALLOUT_LONGTERM = CALLOUT_LONGTERM"
    unfolding m masks by (simp add: id_consts(3))
  show "(s n = s m \<longleftrightarrow> n mod 524288 = m mod 524288) \<and> (l n = l m \<longleftrightarrow> n mod 524288 = m mod 524288)"
    unfolding assms(3,4) by (intro conjI S(4) L(4))
qed

text \<open>
  C35. Identifiers: in a bucket of a table the next short-term or long-term identifier keeps the
  table's bits, the bucket number and the term bit, and sets no bit above them, however often
  the counter has wrapped; and an identifier of a bucket comes back after exactly 524288
  insertions of the same term, no earlier.
\<close>

theorem callout_ids:
  assumes "table \<in> {CALLOUT_NORMAL, CALLOUT_REALTIME}" and "b < 256"
    and "s = (\<lambda>n. (next_short_id ^^ n) (word_of_nat b OR table))"
    and "l = (\<lambda>n. (next_long_id ^^ n) (word_of_nat b OR (table OR CALLOUT_LONGTERM)))"
  shows "bucket_of (s n) = b \<and> bucket_of (l n) = b
    \<and> s n AND CALLOUT_ID_MASK = s n \<and> l n AND CALLOUT_ID_MASK = l n
    \<and> s n AND CALLOUT_TABLE_ID_MASK = table \<and> l n AND CALLOUT_TABLE_ID_MASK = table
    \<and> s n AND CALLOUT_LONGTERM = 0 \<and> l n AND CALLOUT_LONGTERM = CALLOUT_LONGTERM
    \<and> (s n = s m \<longleftrightarrow> n mod 524288 = m mod 524288) \<and> (l n = l m \<longleftrightarrow> n mod 524288 = m mod 524288)"
  using callout_id_fields [OF assms] by blast

theorem callout_ids_witness:
  "bucket_of ((next_short_id ^^ 524287) (word_of_nat 7 OR CALLOUT_NORMAL)) = 7
   \<and> (next_short_id ^^ 524287) (word_of_nat 7 OR CALLOUT_NORMAL) AND CALLOUT_TABLE_ID_MASK = CALLOUT_NORMAL
   \<and> (next_short_id ^^ 524287) (word_of_nat 7 OR CALLOUT_NORMAL) \<noteq> (next_short_id ^^ 3) (word_of_nat 7 OR CALLOUT_NORMAL)"
proof -
  have n: "(524287 :: nat) mod 524288 \<noteq> 3 mod 524288" and "CALLOUT_NORMAL \<in> {CALLOUT_NORMAL, CALLOUT_REALTIME}" "(7 :: nat) < 256"
    by simp_all
  then show ?thesis
    using callout_ids [of CALLOUT_NORMAL 7 _ _ 524287 3, OF _ _ refl refl] by blast
qed

section \<open>Insertion\<close>

definition ids_ok :: "32 word \<Rightarrow> callout_state \<Rightarrow> bool" where
  "ids_ok table cs \<longleftrightarrow> (\<forall>i<256.
     (\<exists>n. b_short_id (cs_bucket cs ! i) = (next_short_id ^^ n) (word_of_nat i OR table)) \<and>
     (\<exists>n. b_long_id (cs_bucket cs ! i) = (next_long_id ^^ n) (word_of_nat i OR (table OR CALLOUT_LONGTERM))))"

lemma executing_bit: "executing c \<longleftrightarrow> bit (c_xid c) 31"
proof -
  have e: "CALLOUT_EXECUTING = 2 ^ 31"
    by (simp add: CALLOUT_EXECUTING_def)
  show ?thesis
    unfolding executing_def e and_exp_eq_0_iff_not_bit by simp
qed

lemma id_mask_bit: "bit CALLOUT_ID_MASK n \<longleftrightarrow> n < 30"
proof -
  have e: "CALLOUT_ID_MASK = mask 30"
    by (simp add: CALLOUT_ID_MASK_def mask_eq_exp_minus_1)
  show ?thesis
    unfolding e bit_mask_iff possible_bit_def by auto
qed

lemma unsafe_bit: "bit CALLOUT_UNSAFE_DRIVER n \<longleftrightarrow> n = 30"
proof -
  have e: "CALLOUT_UNSAFE_DRIVER = 2 ^ 30"
    by (simp add: CALLOUT_UNSAFE_DRIVER_def)
  show ?thesis
    unfolding e bit_exp_iff by auto
qed

text \<open>The extended identifier of a new callout is the identifier, and the callout is not executing.\<close>

lemma new_xid:
  assumes "ident AND CALLOUT_ID_MASK = ident"
    and "x = (if unsafe then ident OR CALLOUT_UNSAFE_DRIVER else ident)"
  shows "x AND CALLOUT_ID_MASK = ident" and "\<not> bit x 31"
proof -
  have b: "bit ident n \<Longrightarrow> n < 30" for n
    using assms(1) id_mask_bit by (metis bit_and_iff)
  show "x AND CALLOUT_ID_MASK = ident"
    using b by (intro bit_eqI) (auto simp: assms(2) bit_simps id_mask_bit unsafe_bit)
  show "\<not> bit x 31"
    using b [of 31] by (auto simp: assms(2) bit_simps unsafe_bit)
qed

text \<open>
  The allocator gives memory that is not among the addresses in use.
\<close>

definition fresh_alloc :: "allocator \<Rightarrow> nat set \<Rightarrow> bool" where
  "fresh_alloc ka used \<longleftrightarrow> (\<forall>a. ka_perm ka = Some a \<or> (\<exists>sz. ka_kmem ka sz = Some a) \<longrightarrow> a \<notin> used)"

lemma callout_alloc_loop_Some: "callout_alloc_loop kmem sz = Some a \<Longrightarrow> \<exists>s. kmem s = Some a"
  by (induction kmem sz rule: callout_alloc_loop.induct)
    (subst (asm) callout_alloc_loop.simps, auto split: if_splits option.splits)

lemma callout_alloc_Done:
  "callout_alloc ka cs = Done (cp, cs') \<Longrightarrow> fresh_alloc ka used \<Longrightarrow>
     c_addr cp \<notin> used \<and> cs' = cs\<lparr>cs_ncallout := cs_ncallout cs + 1\<rparr>"
  by (auto simp: callout_alloc_def fresh_alloc_def split: option.splits dest!: callout_alloc_loop_Some)

lemma ids_next:
  assumes "ids_ok table cs" and "table \<in> {CALLOUT_NORMAL, CALLOUT_REALTIME}" and "i < 256"
    and "ident = next_long_id (b_long_id (cs_bucket cs ! i)) \<or> ident = next_short_id (b_short_id (cs_bucket cs ! i))"
  shows "bucket_of ident = i" and "ident AND CALLOUT_ID_MASK = ident" and "ident AND CALLOUT_TABLE_ID_MASK = table"
proof -
  obtain n where "ident = (next_short_id ^^ Suc n) (word_of_nat i OR table)
      \<or> ident = (next_long_id ^^ Suc n) (word_of_nat i OR (table OR CALLOUT_LONGTERM))"
    using assms(1,3,4) unfolding ids_ok_def by (metis comp_apply funpow.simps(2))
  then show "bucket_of ident = i" and "ident AND CALLOUT_ID_MASK = ident" and "ident AND CALLOUT_TABLE_ID_MASK = table"
    using callout_id_fields(1-3) [OF assms(2,3) refl refl, of "Suc n"] by metis+
qed

lemma ids_ok_nth:
  assumes "ids_ok table cs" and "i < 256"
  obtains n m where "b_short_id (cs_bucket cs ! i) = (next_short_id ^^ n) (word_of_nat i OR table)"
    "b_long_id (cs_bucket cs ! i) = (next_long_id ^^ m) (word_of_nat i OR (table OR CALLOUT_LONGTERM))"
  using assms unfolding ids_ok_def by blast

lemma ids_ok_update:
  assumes "ids_ok table cs" and "i < 256" and "length (cs_bucket cs) = 256"
    and "b_long_id b = next_long_id (b_long_id (cs_bucket cs ! i)) \<or> b_long_id b = b_long_id (cs_bucket cs ! i)"
    and "b_short_id b = next_short_id (b_short_id (cs_bucket cs ! i)) \<or> b_short_id b = b_short_id (cs_bucket cs ! i)"
    and "cs_bucket cs' = (cs_bucket cs)[i := b]"
  shows "ids_ok table cs'"
proof -
  obtain n m where old: "b_short_id (cs_bucket cs ! i) = (next_short_id ^^ n) (word_of_nat i OR table)"
    "b_long_id (cs_bucket cs ! i) = (next_long_id ^^ m) (word_of_nat i OR (table OR CALLOUT_LONGTERM))"
    using ids_ok_nth [OF assms(1,2)] .
  have "b_short_id b = (next_short_id ^^ Suc n) (word_of_nat i OR table) \<or>
      b_short_id b = (next_short_id ^^ n) (word_of_nat i OR table)"
    using assms(5) unfolding old funpow.simps(2) comp_apply .
  then have s: "\<exists>n. b_short_id b = (next_short_id ^^ n) (word_of_nat i OR table)"
    by blast
  have "b_long_id b = (next_long_id ^^ Suc m) (word_of_nat i OR (table OR CALLOUT_LONGTERM)) \<or>
      b_long_id b = (next_long_id ^^ m) (word_of_nat i OR (table OR CALLOUT_LONGTERM))"
    using assms(4) unfolding old funpow.simps(2) comp_apply .
  then have l: "\<exists>n. b_long_id b = (next_long_id ^^ n) (word_of_nat i OR (table OR CALLOUT_LONGTERM))"
    by blast
  have "cs_bucket cs' ! j = (if j = i then b else cs_bucket cs ! j)" if "j < 256" for j
    using assms(2,3,6) that by simp
  then show ?thesis
    using assms(1) s l unfolding ids_ok_def by metis
qed

lemma ids_ok_set_bucket: "ids_ok table cs \<Longrightarrow> i < 256 \<Longrightarrow> length (cs_bucket cs) = 256 \<Longrightarrow> ids_ok table (set_bucket i l cs)"
  by (rule ids_ok_update [of table cs i]) (simp_all add: set_bucket_def)

text \<open>What an insertion does: the new structure is taken from the free list or allocated and is first in its bucket.\<close>

lemma callout_insert_Done:
  assumes ins: "callout_insert ka lbolt unsafe func arg delta cs = Done (ident, cs')"
    and ids: "ids_ok table cs" "table \<in> {CALLOUT_NORMAL, CALLOUT_REALTIME}" and len: "length (cs_bucket cs) = 256"
  obtains cp new i where
    "(cs_freelist cs = cp # cs_freelist cs' \<and> cs_ncallout cs' = cs_ncallout cs) \<or>
     (cs_freelist cs = [] \<and> cs_freelist cs' = [] \<and> cs_ncallout cs' = cs_ncallout cs + 1 \<and>
        (\<forall>used. fresh_alloc ka used \<longrightarrow> c_addr cp \<notin> used))"
    "c_addr new = c_addr cp" "c_runtime new = callout_runtime lbolt (cs_curtime cs) delta" "\<not> executing new"
    "c_func new = func" "c_arg new = arg"
    "c_xid new AND CALLOUT_ID_MASK = ident" "i = bucket_of (c_runtime new)" "bucket_of ident = i"
    "ident AND CALLOUT_TABLE_ID_MASK = table" "ids_ok table cs'"
    "\<forall>j. chain cs' j = (if j = i then new # chain cs i else chain cs j)"
    "length (cs_bucket cs') = 256" "cs_curtime cs' = cs_curtime cs" "cs_runtime cs' = cs_runtime cs"
proof -
  define runtime where "runtime = callout_runtime lbolt (cs_curtime cs) delta"
  define i where "i = bucket_of runtime"
  define long where "long \<longleftrightarrow> sint (runtime - cs_curtime cs) > CALLOUT_LONGTERM_TICKS"
  define bucket where "bucket = (if long then (cs_bucket cs ! i)\<lparr>b_long_id := ident\<rparr> else (cs_bucket cs ! i)\<lparr>b_short_id := ident\<rparr>)"
  define x where "x = (if unsafe then ident OR CALLOUT_UNSAFE_DRIVER else ident)"
  have i: "i < 256"
    by (simp add: i_def)
  obtain cp cs1 where get: "(case cs_freelist cs of
                     [] \<Rightarrow> bind_outcome (callout_alloc ka cs) (\<lambda>(cp, cs). Done (cp, cs\<lparr>cs_freelist := []\<rparr>))
                   | cp # rest \<Rightarrow> Done (cp, cs\<lparr>cs_freelist := rest\<rparr>)) = Done (cp, cs1)"
    using ins by (auto simp: callout_insert_def)
  define new where "new = cp\<lparr>c_func := func, c_arg := arg, c_runtime := runtime, c_xid := x\<rparr>"
  have "fresh_alloc ka {}"
    by (simp add: fresh_alloc_def)
  with get have keep: "cs_bucket cs1 = cs_bucket cs" "cs_curtime cs1 = cs_curtime cs" "cs_runtime cs1 = cs_runtime cs"
    and free: "(cs_freelist cs = cp # cs_freelist cs1 \<and> cs_ncallout cs1 = cs_ncallout cs) \<or>
     (cs_freelist cs = [] \<and> cs_freelist cs1 = [] \<and> cs_ncallout cs1 = cs_ncallout cs + 1 \<and>
        (\<forall>used. fresh_alloc ka used \<longrightarrow> c_addr cp \<notin> used))"
    by (auto split: list.splits dest: callout_alloc_Done)
  have ident: "ident = (if long then next_long_id (b_long_id (cs_bucket cs ! i)) else next_short_id (b_short_id (cs_bucket cs ! i)))"
    and cs': "cs' = cs1\<lparr>cs_bucket := (cs_bucket cs)[i := bucket\<lparr>b_first := new # chain cs i\<rparr>]\<rparr>"
    using ins unfolding callout_insert_def get
    by (auto simp: Let_def keep runtime_def [symmetric] i_def [symmetric] long_def [symmetric] x_def new_def bucket_def
        split: if_splits)
  then have next_id: "ident = next_long_id (b_long_id (cs_bucket cs ! i)) \<or> ident = next_short_id (b_short_id (cs_bucket cs ! i))"
    by auto
  note id = ids_next [OF ids i next_id]
  show thesis
  proof (rule that [of cp new i])
    show "ids_ok table cs'"
      by (rule ids_ok_update [OF ids(1) i len, of "bucket\<lparr>b_first := new # chain cs i\<rparr>"])
        (use ident in \<open>auto simp: cs' bucket_def\<close>)
    show "\<forall>j. chain cs' j = (if j = i then new # chain cs i else chain cs j)"
      using i len by (simp add: cs')
    show "\<not> executing new"
      using new_xid(2) [OF id(2) x_def] by (simp add: executing_bit new_def)
    show "c_xid new AND CALLOUT_ID_MASK = ident"
      using new_xid(1) [OF id(2) x_def] by (simp add: new_def)
  qed (use id keep free len in \<open>simp_all add: cs' new_def runtime_def i_def\<close>)
qed

end
