(* ===== verification/Callout_Reach.thy ===== *)
theory Callout_Reach
  imports Callout_Proofs "HOL-Library.Multiset"
begin

text \<open>
  The life of a callout table: the invariant that every operation keeps, whatever threads
  insert, delete and execute between two clock ticks.
\<close>

section \<open>The structures of a table\<close>

definition structs :: "callout_state \<Rightarrow> nat list" where
  "structs cs = map c_addr (concat (map b_first (cs_bucket cs)) @ cs_freelist cs)"

lemma concat_map_nth:
  assumes "i < length xs"
  shows "concat (map f xs) = concat (map f (take i xs)) @ f (xs ! i) @ concat (map f (drop (Suc i) xs))"
  using assms by (subst (1) id_take_nth_drop [OF assms]) simp

lemma structs_chain:
  assumes "i < length (cs_bucket cs)"
  obtains A B where "structs cs = A @ map c_addr (chain cs i) @ B @ map c_addr (cs_freelist cs)"
  using assms that by (simp add: structs_def concat_map_nth [OF assms])

lemma structs_update:
  assumes "length (cs_bucket cs') = length (cs_bucket cs)" and "i < length (cs_bucket cs)"
    and "\<And>j. j \<noteq> i \<Longrightarrow> chain cs' j = chain cs j"
  shows "mset (structs cs') + mset (map c_addr (chain cs i)) + mset (map c_addr (cs_freelist cs))
       = mset (structs cs) + mset (map c_addr (chain cs' i)) + mset (map c_addr (cs_freelist cs'))"
proof -
  have "map b_first (cs_bucket cs') = (map b_first (cs_bucket cs))[i := chain cs' i]"
    using assms by (intro nth_equalityI) (auto simp: nth_list_update)
  then show ?thesis
    using assms(2) concat_map_nth [of i "map b_first (cs_bucket cs)" "\<lambda>x. x"] unfolding structs_def
    by (simp add: upd_conv_take_nth_drop)
qed

lemma structs_set_bucket:
  assumes "i < length (cs_bucket cs)"
  shows "mset (structs (set_bucket i l cs)) + mset (map c_addr (chain cs i)) = mset (structs cs) + mset (map c_addr l)"
  using structs_update [of "set_bucket i l cs" cs i] assms by simp

lemma structs_same:
  assumes "mset (structs cs') = mset (structs cs)"
  shows "distinct (structs cs') \<longleftrightarrow> distinct (structs cs)" and "length (structs cs') = length (structs cs)"
  using mset_eq_imp_distinct_iff [OF assms] mset_eq_length [OF assms] by simp_all

lemma queued_structs: "length (cs_bucket cs) = 256 \<Longrightarrow> c \<in> queued cs \<Longrightarrow> c_addr c \<in> set (structs cs)"
  by (auto simp: queued_def structs_def intro!: imageI) (use nth_mem in \<open>fastforce intro!: imageI\<close>)

lemma same_chain:
  assumes "distinct (structs cs)" and "i < length (cs_bucket cs)"
  shows "distinct (map c_addr (chain cs i))"
  using structs_chain [OF assms(2)] assms(1) by (metis distinct_append)

section \<open>The invariant\<close>

text \<open>
  Thread \<open>th\<close> runs the function of the structure at \<open>a\<close>, whose time \<open>rt\<close> has come, and which
  carries its mark; the callouts of that time in front of it were all started.
\<close>

definition running :: "callout_state \<Rightarrow> nat \<Rightarrow> ticks \<Rightarrow> nat \<Rightarrow> bool" where
  "running cs th rt a \<longleftrightarrow> ahead (cs_curtime cs) rt \<le> 0
     \<and> (\<exists>c\<in>set (chain cs (bucket_of rt)). c_addr c = a \<and> c_runtime c = rt \<and> executing c \<and> c_executor c = th)
     \<and> (\<forall>d\<in>set (takeWhile (\<lambda>d. c_addr d \<noteq> a) (chain cs (bucket_of rt))). c_runtime d = rt \<longrightarrow> executing d)"

type_synonym executors = "nat \<Rightarrow> (ticks \<times> nat) option"

definition pending_later :: "callout_state \<Rightarrow> bool" where
  "pending_later cs \<longleftrightarrow> (\<forall>c\<in>queued cs. \<not> executing c \<longrightarrow>
     ahead (cs_curtime cs) (cs_runtime cs) \<le> ahead (cs_curtime cs) (c_runtime c))"

definition executed_by :: "callout_state \<Rightarrow> executors \<Rightarrow> bool" where
  "executed_by cs run \<longleftrightarrow> (\<forall>c\<in>queued cs. executing c \<longrightarrow> run (c_executor c) = Some (c_runtime c, c_addr c))"

definition all_running :: "callout_state \<Rightarrow> executors \<Rightarrow> bool" where
  "all_running cs run \<longleftrightarrow> (\<forall>th rt a. run th = Some (rt, a) \<longrightarrow> running cs th rt a)"

definition table_ok :: "32 word \<Rightarrow> callout_state \<Rightarrow> bool" where
  "table_ok table cs \<longleftrightarrow> buckets_ok cs \<and> ids_ok table cs \<and> distinct (structs cs) \<and> length (structs cs) = cs_ncallout cs
     \<and> ahead (cs_curtime cs) (cs_runtime cs) \<le> 1"

definition co_ok :: "32 word \<Rightarrow> callout_state \<Rightarrow> executors \<Rightarrow> bool" where
  "co_ok table cs run \<longleftrightarrow> table_ok table cs \<and> pending_later cs \<and> executed_by cs run \<and> all_running cs run"

lemma co_okI:
  "table_ok table cs \<Longrightarrow> pending_later cs \<Longrightarrow> executed_by cs run \<Longrightarrow> all_running cs run \<Longrightarrow> co_ok table cs run"
  by (simp add: co_ok_def)

lemma co_okD:
  assumes "co_ok table cs run"
  shows "table_ok table cs" "pending_later cs" "executed_by cs run" "all_running cs run"
    "buckets_ok cs" "ids_ok table cs" "distinct (structs cs)" "length (cs_bucket cs) = 256"
    "ahead (cs_curtime cs) (cs_runtime cs) \<le> 1" "length (structs cs) = cs_ncallout cs"
  using assms by (simp_all add: co_ok_def table_ok_def buckets_ok_def)

lemma same_struct:
  assumes "co_ok table cs run" and "c \<in> set (chain cs i)" "d \<in> set (chain cs i)" and "i < 256" and "c_addr c = c_addr d"
  shows "c = d"
proof -
  have "distinct (map c_addr (chain cs i))"
    using assms(4) co_okD(7,8) [OF assms(1)] by (intro same_chain) simp_all
  with assms(2,3,5) show ?thesis
    by (auto simp: distinct_map inj_on_def)
qed

lemma table_ok_set_bucket:
  assumes "table_ok table cs" and "i < 256" and "\<forall>c\<in>set l. bucket_of (c_runtime c) = i"
    and "mset (map c_addr l) = mset (map c_addr (chain cs i))"
  shows "table_ok table (set_bucket i l cs)"
proof -
  have len: "length (cs_bucket cs) = 256"
    using assms(1) by (simp add: table_ok_def buckets_ok_def)
  then have "mset (structs (set_bucket i l cs)) = mset (structs cs)"
    using structs_set_bucket [of i cs l] assms(2,4) by simp
  from structs_same [OF this] show ?thesis
    using assms(1-3) len buckets_ok_set_bucket [of cs l i] ids_ok_set_bucket [of table cs i l]
    by (simp add: table_ok_def set_bucket_def)
qed

section \<open>Starting a callout\<close>

definition mark :: "nat \<Rightarrow> callout \<Rightarrow> callout" where
  "mark th c = c\<lparr>c_executor := th, c_xid := c_xid c OR CALLOUT_EXECUTING\<rparr>"

lemma mark_simps [simp]:
  "c_addr (mark th c) = c_addr c" "c_runtime (mark th c) = c_runtime c" "c_executor (mark th c) = th" "executing (mark th c)"
proof -
  have "bit CALLOUT_EXECUTING 31"
    by (simp add: CALLOUT_EXECUTING_def)
  then show "executing (mark th c)"
    by (simp add: executing_bit mark_def bit_or_iff)
qed (simp_all add: mark_def)

lemma start_due_Some:
  assumes "start_due th rt l = Some (d, l')"
  obtains pre c post where "l = pre @ c # post" "d = mark th c" "l' = pre @ mark th c # post" "c_runtime c = rt"
    "\<not> executing c" "\<forall>x\<in>set pre. c_runtime x = rt \<longrightarrow> executing x"
proof -
  have "\<exists>pre c post. l = pre @ c # post \<and> d = mark th c \<and> l' = pre @ mark th c # post \<and> c_runtime c = rt \<and>
      \<not> executing c \<and> (\<forall>x\<in>set pre. c_runtime x = rt \<longrightarrow> executing x)"
    using assms
  proof (induction l arbitrary: l')
    case (Cons x l)
    show ?case
    proof (cases "c_runtime x \<noteq> rt \<or> executing x")
      case True
      with Cons.prems obtain l1 where "start_due th rt l = Some (d, l1)" "l' = x # l1"
        by (auto split: option.splits)
      with Cons.IH [of l1] True show ?thesis
        by (metis append_Cons set_ConsD)
    next
      case False
      with Cons.prems show ?thesis
        by (intro exI [of _ "[]"] exI [of _ x] exI [of _ l]) (auto simp: mark_def Let_def)
    qed
  qed simp
  with that show thesis by blast
qed

lemma start_due_None: "start_due th rt l = None \<longleftrightarrow> (\<forall>x\<in>set l. c_runtime x = rt \<longrightarrow> executing x)"
  by (induction l) (auto simp: Let_def split: option.splits)

lemma takeWhile_replace:
  assumes "c_addr c' = c_addr c"
  shows "set (takeWhile (\<lambda>d. c_addr d \<noteq> a) (pre @ c' # post)) \<subseteq> insert c' (set (takeWhile (\<lambda>d. c_addr d \<noteq> a) (pre @ c # post)))"
  using assms by (induction pre) auto

lemma co_ok_mark:
  assumes ok: "co_ok table cs run" and idle: "run th = None"
    and ch: "chain cs i = pre @ c # post" and i: "i = bucket_of (c_runtime c)"
    and c: "\<not> executing c" "ahead (cs_curtime cs) (c_runtime c) \<le> 0"
    and front: "\<forall>x\<in>set pre. c_runtime x = c_runtime c \<longrightarrow> executing x"
  shows "co_ok table (set_bucket i (pre @ mark th c # post) cs) (run(th \<mapsto> (c_runtime c, c_addr c)))"
proof -
  let ?cs = "set_bucket i (pre @ mark th c # post) cs"
  have i256: "i < 256" and il: "i < length (cs_bucket cs)"
    using co_okD(8) [OF ok] by (simp_all add: i)
  have runtimes: "bucket_of (c_runtime x) = i" if "x \<in> set (chain cs i)" for x
    using chain_runtime [OF co_okD(5) [OF ok] i256 that] .
  have q: "queued ?cs \<subseteq> insert (mark th c) (queued cs)"
    using queued_set_bucket [OF co_okD(5) [OF ok] i256] ch by auto
  have alone: "x \<noteq> c" if "executing x" for x
    using that c(1) by auto
  show ?thesis
  proof (rule co_okI)
    show "table_ok table ?cs"
    proof (rule table_ok_set_bucket [OF co_okD(1) [OF ok] i256])
      show "\<forall>x\<in>set (pre @ mark th c # post). bucket_of (c_runtime x) = i"
        using runtimes unfolding ch by (auto simp: i [symmetric])
    qed (simp add: ch)
    show "pending_later ?cs"
      unfolding pending_later_def
    proof (intro ballI impI)
      fix x assume x: "x \<in> queued ?cs" "\<not> executing x"
      then have "x \<noteq> mark th c"
        by auto
      with x q have "x \<in> queued cs"
        by blast
      with x(2) show "ahead (cs_curtime ?cs) (cs_runtime ?cs) \<le> ahead (cs_curtime ?cs) (c_runtime x)"
        using co_okD(2) [OF ok] by (simp add: pending_later_def)
    qed
    show "executed_by ?cs (run(th \<mapsto> (c_runtime c, c_addr c)))"
      unfolding executed_by_def
    proof (intro ballI impI)
      fix x assume x: "x \<in> queued ?cs" "executing x"
      show "(run(th \<mapsto> (c_runtime c, c_addr c))) (c_executor x) = Some (c_runtime x, c_addr x)"
      proof (cases "x = mark th c")
        case False
        with x q have "run (c_executor x) = Some (c_runtime x, c_addr x)"
          using co_okD(3) [OF ok] unfolding executed_by_def by blast
        with idle show ?thesis by auto
      qed simp
    qed
    show "all_running ?cs (run(th \<mapsto> (c_runtime c, c_addr c)))"
      unfolding all_running_def
    proof (intro allI impI)
      fix th' rt a
      assume r: "(run(th \<mapsto> (c_runtime c, c_addr c))) th' = Some (rt, a)"
      show "running ?cs th' rt a"
      proof (cases "th' = th")
        case True
        with r have [simp]: "rt = c_runtime c" "a = c_addr c"
          by auto
        have "set (takeWhile (\<lambda>d. c_addr d \<noteq> a) (pre @ mark th c # post)) \<subseteq> set pre"
          by (induction pre) auto
        then show ?thesis
          using True c front il by (auto simp: running_def i)
      next
        case False
        with r have "running cs th' rt a"
          using co_okD(4) [OF ok] by (simp add: all_running_def)
        then obtain d where d: "d \<in> set (chain cs (bucket_of rt))" "c_addr d = a" "c_runtime d = rt" "executing d"
            "c_executor d = th'" "ahead (cs_curtime cs) rt \<le> 0"
          and before: "\<forall>d\<in>set (takeWhile (\<lambda>d. c_addr d \<noteq> a) (chain cs (bucket_of rt))). c_runtime d = rt \<longrightarrow> executing d"
          unfolding running_def by blast
        have "d \<in> set (chain ?cs (bucket_of rt))"
          using d(1) alone [OF d(4)] il ch by (cases "bucket_of rt = i") auto
        moreover have "\<forall>d\<in>set (takeWhile (\<lambda>d. c_addr d \<noteq> a) (chain ?cs (bucket_of rt))). c_runtime d = rt \<longrightarrow> executing d"
          using before il ch takeWhile_replace [of "mark th c" c a pre post] by (cases "bucket_of rt = i") auto
        ultimately show ?thesis
          using d(2-6) by (auto simp: running_def)
      qed
    qed
  qed
qed

lemma co_ok_advance:
  assumes ok: "co_ok table cs run" and due: "ahead (cs_curtime cs) (cs_runtime cs) \<le> 0"
    and none: "\<forall>x\<in>set (chain cs (bucket_of (cs_runtime cs))). c_runtime x = cs_runtime cs \<longrightarrow> executing x"
  shows "co_ok table (cs\<lparr>cs_runtime := cs_runtime cs + 1\<rparr>) run"
proof -
  let ?t = "cs_curtime cs" and ?r = "cs_runtime cs"
  note next_time = ahead_next [OF due]
  have later: "ahead ?t (?r + 1) \<le> ahead ?t (c_runtime c)" if "c \<in> queued cs" "\<not> executing c" for c
  proof -
    have "c_runtime c \<noteq> ?r"
      using none that queued_bucket [OF co_okD(5) [OF ok] that(1)] by auto
    then have "ahead ?t (c_runtime c) \<noteq> ahead ?t ?r"
      using ahead_inj by blast
    moreover have "ahead ?t ?r \<le> ahead ?t (c_runtime c)"
      using co_okD(2) [OF ok] that by (simp add: pending_later_def)
    ultimately show ?thesis
      by (simp add: next_time)
  qed
  show ?thesis
    using co_okD(1-4) [OF ok] due later
    by (auto simp: co_ok_def table_ok_def pending_later_def executed_by_def all_running_def running_def buckets_ok_def ids_ok_def
        structs_def queued_def next_time)
qed

lemma callout_execute_step:
  assumes "ahead (cs_curtime cs) (cs_runtime cs) \<le> 0"
  shows "callout_execute th cs =
     (case start_due th (cs_runtime cs) (chain cs (bucket_of (cs_runtime cs))) of
        Some (c, l) \<Rightarrow> (Running (cs_runtime cs) (c_addr c), set_bucket (bucket_of (cs_runtime cs)) l cs)
      | None \<Rightarrow> callout_execute th (cs\<lparr>cs_runtime := cs_runtime cs + 1\<rparr>))"
  using assms by (subst callout_execute.simps) (simp add: ahead_def Let_def)

lemma callout_execute_stop:
  "\<not> ahead (cs_curtime cs) (cs_runtime cs) \<le> 0 \<Longrightarrow> callout_execute th cs = (Idle, cs)"
  by (subst callout_execute.simps) (simp add: ahead_def Let_def)

text \<open>
  Executing from an idle thread: it stays idle with nothing due left, or runs a due callout.
\<close>

definition set_executor :: "nat \<Rightarrow> executor \<Rightarrow> executors \<Rightarrow> executors" where
  "set_executor th e run = run(th := (case e of Idle \<Rightarrow> None | Running rt a \<Rightarrow> Some (rt, a)))"

lemma set_executor_simps [simp]:
  "set_executor th Idle run = run(th := None)" "set_executor th (Running rt a) run = run(th \<mapsto> (rt, a))"
  by (auto simp: set_executor_def)

definition none_due :: "callout_state \<Rightarrow> bool" where
  "none_due cs \<longleftrightarrow> (\<forall>c\<in>queued cs. \<not> executing c \<longrightarrow> 1 \<le> ahead (cs_curtime cs) (c_runtime c))"

lemma none_due_stop:
  "co_ok table cs run \<Longrightarrow> \<not> ahead (cs_curtime cs) (cs_runtime cs) \<le> 0 \<Longrightarrow> none_due cs"
  using co_okD(2) [of table cs run] by (fastforce simp: none_due_def pending_later_def)

lemma callout_execute_ok:
  assumes "co_ok table cs run" and "run th = None" and "callout_execute th cs = (e, cs')"
  shows "co_ok table cs' (set_executor th e run) \<and> cs_curtime cs' = cs_curtime cs \<and> (e = Idle \<longrightarrow> none_due cs')"
  using assms
proof (induction th cs rule: callout_execute.induct)
  case (1 th cs)
  let ?t = "cs_curtime cs" and ?r = "cs_runtime cs"
  show ?case
  proof (cases "ahead ?t ?r \<le> 0")
    case False
    with "1.prems" have "e = Idle" "cs' = cs"
      by (simp_all add: callout_execute_stop)
    moreover have "set_executor th Idle run = run"
      using "1.prems"(2) by auto
    ultimately show ?thesis
      using "1.prems"(1) none_due_stop [OF "1.prems"(1) False] by simp
  next
    case due: True
    note step = callout_execute_step [OF due, of th]
    show ?thesis
    proof (cases "start_due th ?r (chain cs (bucket_of ?r))")
      case None
      then have "co_ok table (cs\<lparr>cs_runtime := ?r + 1\<rparr>) run"
        using "1.prems"(1) due by (intro co_ok_advance) (simp_all add: start_due_None)
      then show ?thesis
        using "1.IH" [OF refl _ None] due "1.prems"(2,3) None step by (simp add: ahead_def)
    next
      case (Some p)
      obtain d l where p: "p = (d, l)"
        by fastforce
      obtain pre c post where c: "chain cs (bucket_of ?r) = pre @ c # post" "d = mark th c" "l = pre @ mark th c # post"
          "c_runtime c = ?r" "\<not> executing c" "\<forall>x\<in>set pre. c_runtime x = ?r \<longrightarrow> executing x"
        using start_due_Some [OF Some [unfolded p]] .
      have e: "e = Running ?r (c_addr c)" and cs': "cs' = set_bucket (bucket_of ?r) (pre @ mark th c # post) cs"
        using "1.prems"(3) Some p c step by simp_all
      have "co_ok table cs' (run(th \<mapsto> (c_runtime c, c_addr c)))"
        unfolding cs' by (rule co_ok_mark [OF "1.prems"(1,2) c(1)]) (use c(4-6) due in simp_all)
      moreover have "set_executor th e run = run(th \<mapsto> (c_runtime c, c_addr c))"
        unfolding e c(4) by (rule set_executor_simps)
      ultimately have "co_ok table cs' (set_executor th e run)"
        by (simp only:)
      then show ?thesis
        by (simp add: cs' e del: set_executor_simps)
    qed
  qed
qed

lemma callout_execute_starts:
  "callout_execute th cs = (Running rt a, cs') \<Longrightarrow> \<exists>c\<in>queued cs. c_addr c = a \<and> c_runtime c = rt \<and> \<not> executing c"
proof (induction th cs rule: callout_execute.induct)
  case (1 th cs)
  let ?r = "cs_runtime cs"
  have due: "ahead (cs_curtime cs) ?r \<le> 0"
    using "1.prems" callout_execute_stop [of cs th] by (cases "ahead (cs_curtime cs) ?r \<le> 0") auto
  note step = callout_execute_step [OF due, of th]
  show ?case
  proof (cases "start_due th ?r (chain cs (bucket_of ?r))")
    case None
    then show ?thesis
      using "1.IH" [OF refl _ None] due "1.prems" step by (simp add: ahead_def queued_def)
  next
    case (Some p)
    obtain d l where p: "p = (d, l)"
      by fastforce
    obtain pre c post where c: "chain cs (bucket_of ?r) = pre @ c # post" "d = mark th c" "c_runtime c = ?r" "\<not> executing c"
      using start_due_Some [OF Some [unfolded p]] .
    then have "rt = ?r" "a = c_addr c"
      using "1.prems" Some p step by simp_all
    moreover have "c \<in> queued cs"
      by (rule chain_queued [of _ _ ?r]) (simp add: c(1))
    ultimately show ?thesis
      using c(3,4) by blast
  qed
qed

section \<open>Removing a callout\<close>

lemma queued_not_free:
  assumes "distinct (structs cs)" and "length (cs_bucket cs) = 256" and "c \<in> queued cs"
  shows "c_addr c \<notin> c_addr ` set (cs_freelist cs)"
proof -
  obtain i where i: "i < length (cs_bucket cs)" "c \<in> set (chain cs i)"
    using assms(2,3) by (auto simp: queued_def)
  then show ?thesis
    using structs_chain [OF i(1)] assms(1)
    by (metis IntI distinct_append empty_iff image_eqI in_set_conv_decomp list.set_map set_append UnCI)
qed

lemma takeWhile_remove: "P c \<Longrightarrow> set (takeWhile P (pre @ post)) \<subseteq> set (takeWhile P (pre @ c # post))"
  by (induction pre) auto

lemma co_ok_unlink:
  assumes ok: "co_ok table cs run" and ch: "chain cs i = pre @ c # post" and i: "i < 256" and c': "c_addr c' = c_addr c"
    and run': "run' = (if executing c then run(c_executor c := None) else run)"
  shows "co_ok table ((set_bucket i (pre @ post) cs)\<lparr>cs_freelist := c' # cs_freelist cs\<rparr>) run'"
    (is "co_ok _ ?cs _")
proof -
  have il: "i < length (cs_bucket cs)"
    using i co_okD(8) [OF ok] by simp
  have bkt: "cs_bucket ?cs = cs_bucket (set_bucket i (pre @ post) cs)"
    by simp
  have len: "length (cs_bucket ?cs) = 256"
    using co_okD(8) [OF ok] by simp
  have "mset (structs ?cs) = mset (structs cs)"
    using structs_update [of ?cs cs i] il c' by (simp add: ch)
  note same = structs_same [OF this]
  have table: "table_ok table ?cs"
    using co_okD(1) [OF ok] same buckets_ok_set_bucket [OF co_okD(5) [OF ok], of "pre @ post" i]
      ids_ok_set_bucket [OF co_okD(6) [OF ok] i co_okD(8) [OF ok], of "pre @ post"]
      chain_runtime [OF co_okD(5) [OF ok] i] ch
    by (auto simp: table_ok_def buckets_ok_def ids_ok_def set_bucket_def)
  have gone: "c_addr x \<noteq> c_addr c" if "x \<in> queued ?cs" for x
    using queued_not_free [OF _ len that] table c' by (auto simp: table_ok_def)
  have q: "x \<in> queued cs" if "x \<in> queued ?cs" for x
    using that queued_set_bucket(1) [OF co_okD(5) [OF ok] i, of "pre @ post"] queued_set_bucket(2) [OF co_okD(5) [OF ok] i]
    by (auto simp: queued_def ch)
  have cq: "c \<in> queued cs"
    unfolding queued_def using ch i by (intro UN_I [of i]) auto
  show ?thesis
  proof (rule co_okI [OF table])
    show "pending_later ?cs"
      using co_okD(2) [OF ok] q by (simp add: pending_later_def)
    show "executed_by ?cs run'"
      unfolding executed_by_def
    proof (intro ballI impI)
      fix x assume x: "x \<in> queued ?cs" "executing x"
      have old: "run (c_executor x) = Some (c_runtime x, c_addr x)"
        using co_okD(3) [OF ok] q [OF x(1)] x(2) by (simp add: executed_by_def)
      moreover have "executing c \<Longrightarrow> run (c_executor c) = Some (c_runtime c, c_addr c)"
        using co_okD(3) [OF ok] cq by (simp add: executed_by_def)
      ultimately have "executing c \<Longrightarrow> c_executor x \<noteq> c_executor c"
        using gone [OF x(1)] by auto
      with old show "run' (c_executor x) = Some (c_runtime x, c_addr x)"
        by (simp add: run')
    qed
    show "all_running ?cs run'"
      unfolding all_running_def
    proof (intro allI impI)
      fix th rt a
      assume r: "run' th = Some (rt, a)"
      then have "running cs th rt a" and other: "executing c \<Longrightarrow> th \<noteq> c_executor c"
        using co_okD(4) [OF ok] by (auto simp: all_running_def run' split: if_splits)
      then obtain d where d: "d \<in> set (chain cs (bucket_of rt))" "c_addr d = a" "c_runtime d = rt" "executing d"
          "c_executor d = th" "ahead (cs_curtime cs) rt \<le> 0"
        and before: "\<forall>d\<in>set (takeWhile (\<lambda>d. c_addr d \<noteq> a) (chain cs (bucket_of rt))). c_runtime d = rt \<longrightarrow> executing d"
        unfolding running_def by blast
      have "d \<noteq> c"
        using d(4,5) other by auto
      then have ne: "bucket_of rt = i \<Longrightarrow> c_addr c \<noteq> a"
        using same_struct [OF ok d(1), of c] ch d(2) i by auto
      have "d \<in> set (chain ?cs (bucket_of rt))"
        using d(1) \<open>d \<noteq> c\<close> il ch by (cases "bucket_of rt = i") auto
      moreover have "\<forall>d\<in>set (takeWhile (\<lambda>d. c_addr d \<noteq> a) (chain ?cs (bucket_of rt))). c_runtime d = rt \<longrightarrow> executing d"
        using before il ch ne takeWhile_remove [of "\<lambda>d. c_addr d \<noteq> a" c pre post] by (cases "bucket_of rt = i") auto
      ultimately show "running ?cs th rt a"
        using d(2-6) by (auto simp: running_def)
    qed
  qed
qed

lemma find_id_Some:
  "find_id ident l = Some (pre, c, post) \<Longrightarrow> l = pre @ c # post \<and> c_xid c AND CALLOUT_ID_MASK = ident"
  by (induction l arbitrary: pre) (auto split: if_splits option.splits)

lemma callout_delete_ok:
  assumes ok: "co_ok table cs run" and "callout_delete th ident cs = (res, cs')"
  shows "co_ok table cs' run"
proof (cases "find_id ident (chain cs (bucket_of ident))")
  case None
  with assms show ?thesis
    by (simp add: callout_delete_def)
next
  case (Some p)
  obtain pre c post where p: "p = (pre, c, post)"
    using prod_cases3 by blast
  have ch: "chain cs (bucket_of ident) = pre @ c # post"
    using find_id_Some Some p by blast
  show ?thesis
  proof (cases "executing c")
    case True
    with assms Some p show ?thesis
      by (simp add: callout_delete_def split: if_splits)
  next
    case False
    then have "cs' = (set_bucket (bucket_of ident) (pre @ post) cs)\<lparr>cs_freelist := c # cs_freelist cs\<rparr>"
      using assms(2) Some p by (simp add: callout_delete_def Let_def)
    with False show ?thesis
      using co_ok_unlink [OF ok ch bucket_of_bound refl refl] by simp
  qed
qed

lemma split_addr_ex:
  assumes "c \<in> set l" and "c_addr c = a"
  shows "\<exists>d post. split_addr a l = Some (takeWhile (\<lambda>d. c_addr d \<noteq> a) l, d, post)
     \<and> l = takeWhile (\<lambda>d. c_addr d \<noteq> a) l @ d # post \<and> c_addr d = a"
  using assms by (induction l) auto

lemma set_bucket_twice [simp]: "set_bucket i l (set_bucket i l' cs) = set_bucket i l cs"
  by (cases "i < length (cs_bucket cs)") (simp_all add: set_bucket_def list_update_beyond)

lemma set_bucket_freelist: "set_bucket i l (cs\<lparr>cs_freelist := f\<rparr>) = (set_bucket i l cs)\<lparr>cs_freelist := f\<rparr>"
  by (simp add: set_bucket_def)

lemma callout_executed_ok:
  assumes ok: "co_ok table cs run" and th: "run th = Some (rt, a)"
  obtains e cs' where "callout_executed th rt a cs = Some (e, cs')" "co_ok table cs' (set_executor th e run)"
    "e = Idle \<longrightarrow> none_due cs'"
proof -
  let ?i = "bucket_of rt"
  have "running cs th rt a"
    using co_okD(4) [OF ok] th by (simp add: all_running_def)
  then obtain c where c: "c \<in> set (chain cs ?i)" "c_addr c = a" "c_runtime c = rt" "executing c" "c_executor c = th"
    and due: "ahead (cs_curtime cs) rt \<le> 0"
    and before: "\<forall>d\<in>set (takeWhile (\<lambda>d. c_addr d \<noteq> a) (chain cs ?i)). c_runtime d = rt \<longrightarrow> executing d"
    unfolding running_def by blast
  obtain pre d post where sp: "split_addr a (chain cs ?i) = Some (pre, d, post)" "chain cs ?i = pre @ d # post" "c_addr d = a"
    and pre: "pre = takeWhile (\<lambda>d. c_addr d \<noteq> a) (chain cs ?i)"
    using split_addr_ex [OF c(1,2)] by blast
  have "d = c"
    using same_struct [OF ok _ c(1) bucket_of_bound] sp(2,3) c(2) by simp
  define cs1 where "cs1 = (set_bucket ?i (pre @ post) cs)\<lparr>cs_freelist := c\<lparr>c_xid := 0\<rparr> # cs_freelist cs\<rparr>"
  define run1 where "run1 = run(th := None)"
  have ok1: "co_ok table cs1 run1"
    unfolding cs1_def run1_def
    by (rule co_ok_unlink [OF ok, of ?i pre c post]) (use sp(2) c(4,5) \<open>d = c\<close> in simp_all)
  have ch1: "chain cs1 ?i = pre @ post" and [simp]: "cs_curtime cs1 = cs_curtime cs" "run1 th = None"
    using co_okD(8) [OF ok] by (simp_all add: cs1_def run1_def)
  have exec: "set_executor th e run = set_executor th e run1" for e
    by (simp add: set_executor_def run1_def)
  have fl: "set_bucket ?i l (cs\<lparr>cs_freelist := d\<lparr>c_xid := 0\<rparr> # cs_freelist cs\<rparr>) = set_bucket ?i l cs1" for l
    using \<open>d = c\<close> by (simp add: cs1_def set_bucket_freelist)
  show thesis
  proof (cases "start_due th rt post")
    case (Some p)
    obtain b l where p: "p = (b, l)"
      by fastforce
    obtain pre2 c2 post2 where c2: "post = pre2 @ c2 # post2" "b = mark th c2" "l = pre2 @ mark th c2 # post2" "c_runtime c2 = rt"
        "\<not> executing c2" "\<forall>x\<in>set pre2. c_runtime x = rt \<longrightarrow> executing x"
      using start_due_Some [OF Some [unfolded p]] .
    have "co_ok table (set_bucket ?i ((pre @ pre2) @ mark th c2 # post2) cs1) (run1(th \<mapsto> (c_runtime c2, c_addr c2)))"
      by (rule co_ok_mark [OF ok1]) (use ch1 c2 before pre due in auto)
    moreover have "run1(th \<mapsto> (c_runtime c2, c_addr c2)) = set_executor th (Running rt (c_addr c2)) run"
      by (simp add: run1_def c2(4))
    ultimately show thesis
      using Some p c2(2,3) sp(1) fl by (intro that [of "Running rt (c_addr c2)"]) (simp_all add: callout_executed_def Let_def)
  next
    case None
    define cs2 where "cs2 = (if cs_runtime cs1 = rt then cs1\<lparr>cs_runtime := rt + 1\<rparr> else cs1)"
    have "\<forall>x\<in>set (pre @ post). c_runtime x = rt \<longrightarrow> executing x"
      using None before pre by (auto simp: start_due_None)
    then have "cs_runtime cs1 = rt \<Longrightarrow> co_ok table (cs1\<lparr>cs_runtime := rt + 1\<rparr>) run1"
      using co_ok_advance [OF ok1] ch1 due by simp
    with ok1 have ok2: "co_ok table cs2 run1"
      by (simp add: cs2_def)
    obtain e cs' where e: "callout_execute th cs2 = (e, cs')"
      by fastforce
    have "set_bucket ?i (pre @ post) cs1 = cs1"
      by (simp add: cs1_def set_bucket_freelist)
    then have "callout_executed th rt a cs = Some (callout_execute th cs2)"
      using None sp(1) by (simp add: callout_executed_def Let_def cs2_def fl)
    with e show thesis
      using callout_execute_ok [OF ok2 _ e] that [of e cs'] by (simp add: exec)
  qed
qed

section \<open>Insertion\<close>

lemma callout_insert_ok:
  assumes ok: "co_ok table cs run" and table: "table \<in> {CALLOUT_NORMAL, CALLOUT_REALTIME}"
    and fresh: "fresh_alloc ka (set (structs cs))"
    and ins: "callout_insert ka lbolt unsafe func arg delta cs = Done (ident, cs')"
  shows "co_ok table cs' run"
proof -
  from callout_insert_Done [OF ins co_okD(6) [OF ok] table co_okD(8) [OF ok]] obtain cp new i where
    free: "(cs_freelist cs = cp # cs_freelist cs' \<and> cs_ncallout cs' = cs_ncallout cs) \<or>
     (cs_freelist cs = [] \<and> cs_freelist cs' = [] \<and> cs_ncallout cs' = cs_ncallout cs + 1 \<and>
        (\<forall>used. fresh_alloc ka used \<longrightarrow> c_addr cp \<notin> used))"
    and new: "c_addr new = c_addr cp" "c_runtime new = callout_runtime lbolt (cs_curtime cs) delta" "\<not> executing new"
    and "c_func new = func" "c_arg new = arg" "c_xid new AND CALLOUT_ID_MASK = ident"
    and i: "i = bucket_of (c_runtime new)" and "bucket_of ident = i" "ident AND CALLOUT_TABLE_ID_MASK = table" and ids: "ids_ok table cs'"
    and ch: "\<forall>j. chain cs' j = (if j = i then new # chain cs i else chain cs j)"
    and keep: "length (cs_bucket cs') = 256" "cs_curtime cs' = cs_curtime cs" "cs_runtime cs' = cs_runtime cs" .
  have i256: "i < 256"
    by (simp add: i)
  have new_time: "1 \<le> ahead (cs_curtime cs) (c_runtime new)"
    by (simp add: new(2) callout_runtime_future)
  have structs: "distinct (structs cs') \<and> length (structs cs') = cs_ncallout cs'"
  proof -
    have m: "mset (structs cs') + mset (map c_addr (cs_freelist cs)) = add_mset (c_addr cp) (mset (structs cs)) + mset (map c_addr (cs_freelist cs'))"
      using structs_update [of cs' cs i] keep(1) co_okD(8) [OF ok] i256 by (simp add: ch new(1))
    from free show ?thesis
    proof
      assume f: "cs_freelist cs = cp # cs_freelist cs' \<and> cs_ncallout cs' = cs_ncallout cs"
      then have "mset (structs cs') = mset (structs cs)"
        using m by simp
      from structs_same [OF this] show ?thesis
        using co_okD(7,10) [OF ok] f by simp
    next
      assume f: "cs_freelist cs = [] \<and> cs_freelist cs' = [] \<and> cs_ncallout cs' = cs_ncallout cs + 1 \<and>
        (\<forall>used. fresh_alloc ka used \<longrightarrow> c_addr cp \<notin> used)"
      then have e: "mset (structs cs') = mset (c_addr cp # structs cs)" and "c_addr cp \<notin> set (structs cs)"
        using m fresh by simp_all
      then have "distinct (structs cs')"
        using co_okD(7) [OF ok] mset_eq_imp_distinct_iff [OF e] by simp
      moreover have "length (structs cs') = cs_ncallout cs'"
        using co_okD(10) [OF ok] mset_eq_length [OF e] f by simp
      ultimately show ?thesis ..
    qed
  qed
  have q: "x = new \<or> x \<in> queued cs" if "x \<in> queued cs'" for x
    using that by (auto simp: queued_def ch split: if_splits)
  show ?thesis
  proof (rule co_okI)
    show "table_ok table cs'"
      using co_okD(5,9) [OF ok] ids structs keep by (auto simp: table_ok_def buckets_ok_def ch i)
    show "pending_later cs'"
      unfolding pending_later_def keep using co_okD(2,9) [OF ok] q new_time unfolding pending_later_def by fastforce
    show "executed_by cs' run"
      unfolding executed_by_def using co_okD(3) [OF ok] q new(3) unfolding executed_by_def by blast
    show "all_running cs' run"
      unfolding all_running_def
    proof (intro allI impI)
      fix th rt a
      assume "run th = Some (rt, a)"
      then have "running cs th rt a"
        using co_okD(4) [OF ok] by (simp add: all_running_def)
      then obtain d where d: "d \<in> set (chain cs (bucket_of rt))" "c_addr d = a" "c_runtime d = rt" "executing d"
          "c_executor d = th" "ahead (cs_curtime cs) rt \<le> 0"
        and before: "\<forall>d\<in>set (takeWhile (\<lambda>d. c_addr d \<noteq> a) (chain cs (bucket_of rt))). c_runtime d = rt \<longrightarrow> executing d"
        unfolding running_def by blast
      have "c_runtime new \<noteq> rt"
        using d(6) new_time by auto
      then have "\<forall>d\<in>set (takeWhile (\<lambda>d. c_addr d \<noteq> a) (chain cs' (bucket_of rt))). c_runtime d = rt \<longrightarrow> executing d"
        using before by (auto simp: ch split: if_splits)
      then show "running cs' th rt a"
        using d unfolding running_def keep by (auto simp: ch)
    qed
  qed
qed

section \<open>The clock\<close>

text \<open>
  The clock goes on by less than \<open>2\<^sup>3\<^sup>1\<close> ticks, also as seen from a callout that is being executed or looked for.
\<close>

definition no_lag :: "callout_state \<Rightarrow> executors \<Rightarrow> ticks \<Rightarrow> bool" where
  "no_lag cs run lbolt \<longleftrightarrow> 0 \<le> ahead (cs_curtime cs) lbolt
     \<and> - 2147483648 \<le> ahead (cs_curtime cs) (cs_runtime cs) - ahead (cs_curtime cs) lbolt
     \<and> (\<forall>th rt a. run th = Some (rt, a) \<longrightarrow> - 2147483648 \<le> ahead (cs_curtime cs) rt - ahead (cs_curtime cs) lbolt)"

lemma co_ok_update_simps [state_simps]:
  "buckets_ok (cs\<lparr>cs_curtime := t\<rparr>) = buckets_ok cs" "ids_ok table (cs\<lparr>cs_curtime := t\<rparr>) = ids_ok table cs"
  "structs (cs\<lparr>cs_curtime := t\<rparr>) = structs cs" "queued (cs\<lparr>cs_curtime := t\<rparr>) = queued cs"
  "queued (cs\<lparr>cs_runtime := t\<rparr>) = queued cs" "queued (cs\<lparr>cs_busyticks := n\<rparr>) = queued cs"
  by (simp_all add: buckets_ok_def ids_ok_def structs_def queued_def)

lemma co_ok_busyticks: "co_ok table (cs\<lparr>cs_busyticks := n\<rparr>) run \<longleftrightarrow> co_ok table cs run"
  by (simp add: co_ok_def table_ok_def pending_later_def executed_by_def all_running_def running_def buckets_ok_def ids_ok_def
      structs_def queued_def)

lemma co_ok_clock:
  assumes ok: "co_ok table cs run" and lag: "no_lag cs run lbolt"
  shows "co_ok table (cs\<lparr>cs_curtime := lbolt\<rparr>) run"
proof -
  let ?t = "cs_curtime cs"
  have shift: "ahead lbolt x = ahead ?t x - ahead ?t lbolt" if "- 2147483648 \<le> ahead ?t x - ahead ?t lbolt" for x
    using ahead_later [OF _ that] lag by (simp add: no_lag_def)
  have r: "ahead lbolt (cs_runtime cs) = ahead ?t (cs_runtime cs) - ahead ?t lbolt"
    using shift lag by (simp add: no_lag_def)
  have later: "ahead lbolt (cs_runtime cs) \<le> ahead lbolt (c_runtime c)" if "c \<in> queued cs" "\<not> executing c" for c
  proof -
    have "ahead ?t (cs_runtime cs) \<le> ahead ?t (c_runtime c)"
      using co_okD(2) [OF ok] that by (simp add: pending_later_def)
    then show ?thesis
      using shift [of "c_runtime c"] lag r by (simp add: no_lag_def)
  qed
  have running: "ahead lbolt rt \<le> 0" if "run th = Some (rt, a)" for th rt a
  proof -
    have "ahead ?t rt \<le> 0"
      using co_okD(4) [OF ok] that by (auto simp: all_running_def running_def)
    moreover have "- 2147483648 \<le> ahead ?t rt - ahead ?t lbolt" "0 \<le> ahead ?t lbolt"
      using lag that unfolding no_lag_def by blast+
    ultimately show ?thesis
      using shift [of rt] by simp
  qed
  show ?thesis
    using co_okD(1-4,9) [OF ok] lag r later running
    by (auto simp: co_ok_def table_ok_def pending_later_def executed_by_def all_running_def running_def no_lag_def state_simps)
qed

lemma find_due_None: "find_due rt l = None \<longleftrightarrow> (\<forall>x\<in>set l. c_runtime x = rt \<longrightarrow> executing x)"
  by (induction l) (auto simp: due_now_def)

lemma find_due_Some: "find_due rt l = Some c \<Longrightarrow> c \<in> set l \<and> c_runtime c = rt \<and> \<not> executing c"
  by (induction l) (auto simp: due_now_def split: if_splits)

lemma callout_schedule_loop_ok:
  assumes "co_ok table cs run" and "callout_schedule_loop cs = (s, cs')"
  shows "co_ok table cs' run \<and> queued cs' = queued cs \<and> cs_curtime cs' = cs_curtime cs \<and> (s = None \<longleftrightarrow> none_due cs')"
  using assms
proof (induction cs rule: callout_schedule_loop.induct)
  case (1 cs)
  let ?t = "cs_curtime cs" and ?r = "cs_runtime cs"
  note step = callout_schedule_loop.simps [of cs]
  show ?case
  proof (cases "ahead ?t ?r \<le> 0")
    case False
    with "1.prems" have "s = None" "cs' = cs"
      by (simp_all add: step Let_def ahead_def)
    then show ?thesis
      using "1.prems"(1) none_due_stop [OF "1.prems"(1) False] by simp
  next
    case due: True
    show ?thesis
    proof (cases "find_due ?r (chain cs (bucket_of ?r))")
      case None
      then have "co_ok table (cs\<lparr>cs_runtime := ?r + 1\<rparr>) run"
        using "1.prems"(1) due by (intro co_ok_advance) (simp_all add: find_due_None)
      then show ?thesis
        using "1.IH" [OF refl _ None] due "1.prems"(2) None step by (simp add: ahead_def Let_def state_simps)
    next
      case (Some c)
      then have c: "c \<in> queued cs" "c_runtime c = ?r" "\<not> executing c"
        using find_due_Some [OF Some] chain_queued by blast+
      have "s \<noteq> None" "cs' = cs\<lparr>cs_busyticks := cs_busyticks cs + 1\<rparr>"
        using "1.prems"(2) due Some step by (auto simp: Let_def ahead_def)
      moreover have "\<not> none_due cs"
        using c due by (auto simp: none_due_def)
      ultimately show ?thesis
        using "1.prems"(1) by (auto simp: co_ok_busyticks state_simps none_due_def)
    qed
  qed
qed

section \<open>Reachable tables\<close>

text \<open>
  The table \<open>table\<close> from its initialisation on, with the threads that run a callout's function:
  insertions, deletions, clock ticks, and threads that begin to execute or come back from a
  function happen in any order.
\<close>

inductive co_reach :: "32 word \<Rightarrow> callout_state \<Rightarrow> executors \<Rightarrow> bool" for table where
  start: "co_reach table (callout_setup lbolt table empty_table) Map.empty"
| insert: "co_reach table cs run \<Longrightarrow> fresh_alloc ka (set (structs cs)) \<Longrightarrow>
    callout_insert ka lbolt unsafe func arg delta cs = Done (ident, cs') \<Longrightarrow> co_reach table cs' run"
| delete: "co_reach table cs run \<Longrightarrow> callout_delete th ident cs = (res, cs') \<Longrightarrow> co_reach table cs' run"
| tick: "co_reach table cs run \<Longrightarrow> no_lag cs run lbolt \<Longrightarrow> callout_schedule lbolt cs = (s, cs') \<Longrightarrow> co_reach table cs' run"
| execute: "co_reach table cs run \<Longrightarrow> run th = None \<Longrightarrow> callout_execute th cs = (e, cs') \<Longrightarrow>
    co_reach table cs' (set_executor th e run)"
| executed: "co_reach table cs run \<Longrightarrow> run th = Some (rt, a) \<Longrightarrow> callout_executed th rt a cs = Some (e, cs') \<Longrightarrow>
    co_reach table cs' (set_executor th e run)"

lemma callout_setup_ok: "co_ok table (callout_setup lbolt table empty_table) Map.empty"
proof -
  let ?cs = "callout_setup lbolt table empty_table"
  have b: "cs_bucket ?cs ! i = \<lparr>b_first = [], b_short_id = word_of_nat i OR table,
      b_long_id = word_of_nat i OR table OR CALLOUT_LONGTERM\<rparr>" if "i < 256" for i
    using that by (simp add: callout_setup_def CALLOUT_BUCKETS_def)
  have len: "length (cs_bucket ?cs) = 256"
    by (simp add: callout_setup_def CALLOUT_BUCKETS_def)
  have "ids_ok table ?cs"
    unfolding ids_ok_def using b funpow_0 by (metis callout_bucket.select_convs(2,3))
  moreover have "queued ?cs = {}"
    using b by (simp add: queued_def)
  moreover have "structs ?cs = []"
    by (simp add: structs_def callout_setup_def empty_table_def)
  moreover have "cs_ncallout ?cs = 0" "cs_curtime ?cs = lbolt" "cs_runtime ?cs = lbolt"
    by (simp_all add: callout_setup_def empty_table_def)
  ultimately show ?thesis
    using b len by (simp add: co_ok_def table_ok_def buckets_ok_def pending_later_def executed_by_def all_running_def)
qed

lemma co_reach_ok:
  assumes "co_reach table cs run" and "table \<in> {CALLOUT_NORMAL, CALLOUT_REALTIME}"
  shows "co_ok table cs run"
  using assms(1)
proof induction
  case (start lbolt)
  show ?case
    by (rule callout_setup_ok)
next
  case (insert cs run ka lbolt unsafe func arg delta ident cs')
  with assms(2) show ?case
    using callout_insert_ok by blast
next
  case (delete cs run th ident res cs')
  then show ?case
    using callout_delete_ok by blast
next
  case (tick cs run lbolt s cs')
  then show ?case
    using callout_schedule_loop_ok [OF co_ok_clock] unfolding callout_schedule_def by blast
next
  case (execute cs run th e cs')
  then show ?case
    using callout_execute_ok by blast
next
  case (executed cs run th rt a e cs')
  then show ?case
    using callout_executed_ok [of table cs run th rt a] by (metis option.inject prod.inject)
qed

lemma distinct_concat_nth:
  assumes "distinct (concat xss)" and "i < j" and "j < length xss"
  shows "set (xss ! i) \<inter> set (xss ! j) = {}"
proof -
  have "distinct (concat (take j xss) @ xss ! j @ concat (drop (Suc j) xss))"
    using assms(1,3) concat_map_nth [of j xss "\<lambda>x. x"] by simp
  moreover have "xss ! i \<in> set (take j xss)"
    using assms(2,3) by (auto simp: in_set_conv_nth intro!: exI [of _ i])
  then have "set (xss ! i) \<subseteq> set (concat (take j xss))"
    unfolding set_concat by (rule UN_upper)
  moreover have "set (concat (take j xss)) \<inter> set (xss ! j) = {}"
    using calculation(1) by (simp only: distinct_append set_append) blast
  ultimately show ?thesis
    by blast
qed

lemma queued_inj:
  assumes ok: "co_ok table cs run" and "c \<in> queued cs" "d \<in> queued cs" and "c_addr c = c_addr d"
  shows "c = d"
proof -
  obtain i j where ij: "i < 256" "j < 256" "c \<in> set (chain cs i)" "d \<in> set (chain cs j)"
    using assms(2,3) by (auto simp: queued_def)
  let ?xss = "map (\<lambda>b. map c_addr (b_first b)) (cs_bucket cs)"
  have d: "distinct (concat ?xss)"
    using co_okD(7) [OF ok] unfolding structs_def map_append map_concat map_map comp_def distinct_append by blast
  have len: "length ?xss = 256"
    using co_okD(8) [OF ok] by simp
  have disj: "set (?xss ! k) \<inter> set (?xss ! l) = {}" if "k < l" "l < 256" for k l
    by (rule distinct_concat_nth [OF d that(1)]) (simp only: len that(2))
  have "c_addr c \<in> set (?xss ! i)" "c_addr d \<in> set (?xss ! j)"
    using ij co_okD(8) [OF ok] by simp_all
  then have "i = j"
    using disj [of i j] disj [of j i] ij(1,2) assms(4) by (metis IntI empty_iff nat_neq_iff)
  with ij assms(4) show ?thesis
    using same_struct [OF ok] by blast
qed

text \<open>
  C3. Callout tables stay consistent whatever threads do: in every reachable state a thread that
  runs a callout runs one whose time has come, that is marked with this thread, and that no
  other thread runs; coming back from the function it finds the structure again, so that the
  search for its predecessor ends; no pending callout is due earlier than the time the table
  looks at next; and every structure ever allocated is in exactly one bucket or on the free list.
\<close>

theorem callout_reach_safe:
  assumes "co_reach table cs run" and "table \<in> {CALLOUT_NORMAL, CALLOUT_REALTIME}"
  shows "(\<forall>th rt a. run th = Some (rt, a) \<longrightarrow>
       ahead (cs_curtime cs) rt \<le> 0
     \<and> (\<exists>c\<in>queued cs. c_addr c = a \<and> c_runtime c = rt \<and> executing c \<and> c_executor c = th)
     \<and> (\<forall>th' rt'. run th' = Some (rt', a) \<longrightarrow> th' = th)
     \<and> callout_executed th rt a cs \<noteq> None)
   \<and> (\<forall>c\<in>queued cs. \<not> executing c \<longrightarrow> ahead (cs_curtime cs) (cs_runtime cs) \<le> ahead (cs_curtime cs) (c_runtime c))
   \<and> distinct (structs cs) \<and> length (structs cs) = cs_ncallout cs"
proof -
  have ok: "co_ok table cs run"
    by (rule co_reach_ok [OF assms])
  have run: "ahead (cs_curtime cs) rt \<le> 0 \<and> (\<exists>c\<in>queued cs. c_addr c = a \<and> c_runtime c = rt \<and> executing c \<and> c_executor c = th)"
    if "run th = Some (rt, a)" for th rt a
    using co_okD(4) [OF ok] that chain_queued unfolding all_running_def running_def by metis
  have "th' = th" if "run th = Some (rt, a)" "run th' = Some (rt', a)" for th th' rt rt' a
    using run [OF that(1)] run [OF that(2)] queued_inj [OF ok] by metis
  moreover have "callout_executed th rt a cs \<noteq> None" if "run th = Some (rt, a)" for th rt a
    using callout_executed_ok [OF ok that] by (metis option.distinct(1))
  ultimately show ?thesis
    using run co_okD(2,7,10) [OF ok] unfolding pending_later_def by blast
qed

text \<open>
  C15. No callout is missed and none runs early: a clock tick asks for an execution exactly when a
  pending callout is due at the new time; a thread that executes leaves the table only when
  no pending callout is due, and otherwise runs one that was pending and due; the same holds
  when it comes back from a callout's function.
\<close>

theorem callout_none_missed:
  assumes "co_reach table cs run" and "table \<in> {CALLOUT_NORMAL, CALLOUT_REALTIME}"
  shows "(no_lag cs run lbolt \<longrightarrow>
       (fst (callout_schedule lbolt cs) = None
          \<longleftrightarrow> (\<forall>c\<in>queued cs. \<not> executing c \<longrightarrow> 1 \<le> ahead lbolt (c_runtime c))))
   \<and> (\<forall>th. run th = None \<longrightarrow> (case callout_execute th cs of
         (Idle, cs') \<Rightarrow> none_due cs'
       | (Running rt a, cs') \<Rightarrow> running cs' th rt a \<and>
           (\<exists>c\<in>queued cs. c_addr c = a \<and> c_runtime c = rt \<and> \<not> executing c)))
   \<and> (\<forall>th rt a. run th = Some (rt, a) \<longrightarrow> (case callout_executed th rt a cs of
         None \<Rightarrow> False
       | Some (Idle, cs') \<Rightarrow> none_due cs'
       | Some (Running rt' a', cs') \<Rightarrow> running cs' th rt' a'))"
proof (intro conjI impI allI)
  have ok: "co_ok table cs run"
    by (rule co_reach_ok [OF assms])
  have runs: "running cs' th rt a" if "co_ok table cs' (set_executor th (Running rt a) run)" for cs' th rt a
    using co_okD(4) [OF that] unfolding all_running_def by simp
  show "fst (callout_schedule lbolt cs) = None \<longleftrightarrow> (\<forall>c\<in>queued cs. \<not> executing c \<longrightarrow> 1 \<le> ahead lbolt (c_runtime c))"
    if "no_lag cs run lbolt"
  proof -
    obtain s cs' where s: "callout_schedule_loop (cs\<lparr>cs_curtime := lbolt\<rparr>) = (s, cs')"
      by fastforce
    then show ?thesis
      using callout_schedule_loop_ok [OF co_ok_clock [OF ok that] s]
      by (simp add: callout_schedule_def none_due_def state_simps)
  qed
  show "case callout_execute th cs of (Idle, cs') \<Rightarrow> none_due cs'
      | (Running rt a, cs') \<Rightarrow> running cs' th rt a \<and> (\<exists>c\<in>queued cs. c_addr c = a \<and> c_runtime c = rt \<and> \<not> executing c)"
    if "run th = None" for th
    using callout_execute_ok [OF ok that] callout_execute_starts [of th cs] runs
    by (auto split: prod.splits executor.splits simp del: set_executor_simps)
  show "case callout_executed th rt a cs of None \<Rightarrow> False | Some (Idle, cs') \<Rightarrow> none_due cs'
      | Some (Running rt' a', cs') \<Rightarrow> running cs' th rt' a'"
    if r: "run th = Some (rt, a)" for th rt a
  proof -
    obtain e cs' where e: "callout_executed th rt a cs = Some (e, cs')" "co_ok table cs' (set_executor th e run)"
      and idle: "e = Idle \<longrightarrow> none_due cs'"
      using callout_executed_ok [OF ok r] .
    show ?thesis
    proof (cases e)
      case Idle
      with e idle show ?thesis by simp
    next
      case (Running rt' a')
      with e runs show ?thesis by (auto simp del: set_executor_simps)
    qed
  qed
qed

section \<open>A run\<close>

definition wit_ka :: allocator where
  "wit_ka = \<lparr>ka_size = 24, ka_perm = Some 100, ka_kmem = (\<lambda>_. None)\<rparr>"

definition wit_callout :: callout where
  "wit_callout = \<lparr>c_addr = 100, c_xid = 0x10000101, c_runtime = 1, c_func = 7, c_arg = 8, c_executor = 0\<rparr>"

definition wit_table :: "callout list \<Rightarrow> ticks \<Rightarrow> ticks \<Rightarrow> nat \<Rightarrow> callout_state" where
  "wit_table l curtime runtime busy =
     \<lparr>cs_freelist = [], cs_curtime = curtime, cs_runtime = runtime, cs_ncallout = 1, cs_busyticks = busy,
      cs_bucket = (cs_bucket (callout_setup 0 CALLOUT_NORMAL empty_table))
        [1 := \<lparr>b_first = l, b_short_id = 0x10000101, b_long_id = 0x18000001\<rparr>]\<rparr>"

lemma wit_bucket: "bucket_of 0 = 0" "bucket_of 1 = 1"
  by (simp_all add: bucket_of_def CALLOUT_BUCKET_MASK_def)

lemma wit_chain: "chain (wit_table l t r n) 1 = l" "chain (wit_table l t r n) 0 = []"
  by (simp_all add: wit_table_def callout_setup_def CALLOUT_BUCKETS_def)

lemma wit_insert:
  "callout_insert wit_ka 0 False 7 8 1 (callout_setup 0 CALLOUT_NORMAL empty_table) = Done (0x10000101, wit_table [wit_callout] 0 0 0)"
proof -
  have "bucket_of (callout_runtime 0 0 1) = 1" "callout_runtime 0 0 1 = 1"
    by (simp_all add: callout_runtime_def wit_bucket Let_def)
  then show ?thesis
    by (simp add: callout_insert_def callout_alloc_def wit_ka_def wit_table_def wit_callout_def callout_setup_def empty_table_def
        CALLOUT_BUCKETS_def CALLOUT_LONGTERM_TICKS_def CALLOUT_NORMAL_def next_short_id_def CALLOUT_LONGTERM_def Let_def)
qed

lemma wit_idle: "\<not> executing wit_callout"
  by (simp add: executing_def wit_callout_def CALLOUT_EXECUTING_def)

lemma wit_tick: "callout_schedule 1 (wit_table [wit_callout] 0 0 0) = (Some Signal_thread, wit_table [wit_callout] 1 1 1)"
proof -
  have 1: "(wit_table [wit_callout] 0 0 0)\<lparr>cs_curtime := 1\<rparr> = wit_table [wit_callout] 1 0 0"
    "(wit_table [wit_callout] 1 0 0)\<lparr>cs_runtime := 1\<rparr> = wit_table [wit_callout] 1 1 0"
    and t: "(wit_table l t r n)\<lparr>cs_busyticks := m\<rparr> = wit_table l t r m" "cs_curtime (wit_table l t r n) = t" "cs_runtime (wit_table l t r n) = r" "cs_busyticks (wit_table l t r n) = n"
    for l t r n m
    by (simp_all add: wit_table_def)
  have d: "due_now 1 wit_callout" "c_xid wit_callout AND CALLOUT_REALTIME = 0"
    using wit_idle by (simp_all add: due_now_def) (simp_all add: wit_callout_def CALLOUT_REALTIME_def)
  show ?thesis
    unfolding callout_schedule_def 1
    by (simp add: callout_schedule_loop.simps [of "wit_table [wit_callout] 1 0 0"]
        callout_schedule_loop.simps [of "wit_table [wit_callout] 1 1 0"] t 1 wit_bucket wit_chain [simplified] d Let_def)
qed

lemma wit_execute: "callout_execute 5 (wit_table [wit_callout] 1 1 1) = (Running 1 100, wit_table [mark 5 wit_callout] 1 1 1)"
proof -
  have "start_due 5 1 [wit_callout] = Some (mark 5 wit_callout, [mark 5 wit_callout])"
    using wit_idle by (simp add: mark_def Let_def) (simp add: wit_callout_def)
  moreover have "set_bucket 1 l (wit_table l' t r n) = wit_table l t r n" for l l' t r n
    by (simp add: set_bucket_def wit_table_def callout_setup_def CALLOUT_BUCKETS_def)
  moreover have "c_addr wit_callout = 100"
    by (simp add: wit_callout_def)
  moreover have "cs_curtime (wit_table l t r n) = t" "cs_runtime (wit_table l t r n) = r" for l t r n
    by (simp_all add: wit_table_def)
  ultimately show ?thesis
    by (subst callout_execute.simps) (simp add: wit_bucket wit_chain [simplified] Let_def)
qed

lemma wit_reach:
  "co_reach CALLOUT_NORMAL (wit_table [wit_callout] 1 1 1) Map.empty"
  "co_reach CALLOUT_NORMAL (wit_table [mark 5 wit_callout] 1 1 1) [5 \<mapsto> (1, 100)]"
proof -
  have "fresh_alloc wit_ka (set (structs (callout_setup 0 CALLOUT_NORMAL empty_table)))"
    by (simp add: fresh_alloc_def wit_ka_def structs_def callout_setup_def empty_table_def)
  then have 1: "co_reach CALLOUT_NORMAL (wit_table [wit_callout] 0 0 0) Map.empty"
    by (rule co_reach.insert [OF co_reach.start _ wit_insert])
  have "no_lag (wit_table [wit_callout] 0 0 0) Map.empty 1"
    by (simp add: no_lag_def wit_table_def ahead_def)
  then show r: "co_reach CALLOUT_NORMAL (wit_table [wit_callout] 1 1 1) Map.empty"
    by (rule co_reach.tick [OF 1 _ wit_tick])
  show "co_reach CALLOUT_NORMAL (wit_table [mark 5 wit_callout] 1 1 1) [5 \<mapsto> (1, 100)]"
    using co_reach.execute [OF r _ wit_execute] by simp
qed

theorem callout_reach_safe_witness:
  "callout_executed 5 1 100 (wit_table [mark 5 wit_callout] 1 1 1) \<noteq> None \<and> length (structs (wit_table [mark 5 wit_callout] 1 1 1)) = 1"
  using callout_reach_safe [OF wit_reach(2)] by (simp add: wit_table_def)

theorem callout_none_missed_witness:
  "running (wit_table [mark 5 wit_callout] 1 1 1) 5 1 100"
proof -
  have "CALLOUT_NORMAL \<in> {CALLOUT_NORMAL, CALLOUT_REALTIME}"
    by blast
  from callout_none_missed [OF wit_reach(1) this, THEN conjunct2, THEN conjunct1, THEN spec [of _ 5]] show ?thesis
    unfolding wit_execute by simp
qed

end
