(* ===== verification/Callout_Tables.thy ===== *)
theory Callout_Tables
  imports Callout_Reach
begin

text \<open>
  The two callout tables together: what \<^verbatim>\<open>timeout\<close> and \<^verbatim>\<open>realtime_timeout\<close> insert can be
  taken back by \<^verbatim>\<open>untimeout\<close>, and what suspending the system does to the tables.
\<close>

section \<open>Insertion and deletion\<close>

lemma table_of_id:
  assumes "ident AND CALLOUT_TABLE_ID_MASK = table" and "table \<in> {CALLOUT_NORMAL, CALLOUT_REALTIME}"
  shows "ident \<noteq> 0" and "ident AND CALLOUT_REALTIME \<noteq> 0 \<longleftrightarrow> table = CALLOUT_REALTIME"
proof -
  have "table \<noteq> 0"
    using assms(2) by (auto simp: CALLOUT_NORMAL_def CALLOUT_REALTIME_def)
  with assms(1) show "ident \<noteq> 0"
    by auto
  have "CALLOUT_TABLE_ID_MASK AND CALLOUT_REALTIME = CALLOUT_REALTIME"
    by (simp add: CALLOUT_TABLE_ID_MASK_def CALLOUT_NORMAL_def CALLOUT_REALTIME_def)
  then have "ident AND CALLOUT_REALTIME = table AND CALLOUT_REALTIME"
    using assms(1) by (metis and.assoc)
  moreover have "CALLOUT_NORMAL AND CALLOUT_REALTIME = 0" "CALLOUT_REALTIME AND CALLOUT_REALTIME \<noteq> 0"
    "CALLOUT_NORMAL \<noteq> CALLOUT_REALTIME"
    by (simp_all add: CALLOUT_NORMAL_def CALLOUT_REALTIME_def)
  ultimately show "ident AND CALLOUT_REALTIME \<noteq> 0 \<longleftrightarrow> table = CALLOUT_REALTIME"
    using assms(2) by auto
qed

lemma callout_insert_delete:
  assumes ok: "co_ok table cs run" and table: "table \<in> {CALLOUT_NORMAL, CALLOUT_REALTIME}"
    and ins: "callout_insert ka lbolt unsafe func arg delta cs = Done (ident, cs')"
  obtains cs'' where "ident \<noteq> 0" "ident AND CALLOUT_REALTIME \<noteq> 0 \<longleftrightarrow> table = CALLOUT_REALTIME"
    "callout_delete th ident cs'
       = (Del_returns (ahead (cs_curtime cs) (callout_runtime lbolt (cs_curtime cs) delta)), cs'')"
    "\<forall>i. chain cs'' i = chain cs i"
proof -
  from callout_insert_Done [OF ins co_okD(6) [OF ok] table co_okD(8) [OF ok]] obtain cp new i where
    "(cs_freelist cs = cp # cs_freelist cs' \<and> cs_ncallout cs' = cs_ncallout cs) \<or>
     (cs_freelist cs = [] \<and> cs_freelist cs' = [] \<and> cs_ncallout cs' = cs_ncallout cs + 1 \<and>
        (\<forall>used. fresh_alloc ka used \<longrightarrow> c_addr cp \<notin> used))"
    and new: "c_addr new = c_addr cp" "c_runtime new = callout_runtime lbolt (cs_curtime cs) delta" "\<not> executing new"
    and "c_func new = func" "c_arg new = arg" and xid: "c_xid new AND CALLOUT_ID_MASK = ident"
    and i: "i = bucket_of (c_runtime new)" "bucket_of ident = i" and id: "ident AND CALLOUT_TABLE_ID_MASK = table" and "ids_ok table cs'"
    and ch: "\<forall>j. chain cs' j = (if j = i then new # chain cs i else chain cs j)"
    and keep: "length (cs_bucket cs') = 256" "cs_curtime cs' = cs_curtime cs" "cs_runtime cs' = cs_runtime cs" .
  define cs'' where "cs'' = (set_bucket i (chain cs i) cs')\<lparr>cs_freelist := new # cs_freelist cs'\<rparr>"
  have "find_id ident (chain cs' (bucket_of ident)) = Some ([], new, chain cs i)"
    using xid i(2) by (simp add: ch)
  then have "callout_delete th ident cs' = (Del_returns (ahead (cs_curtime cs) (c_runtime new)), cs'')"
    using new(3) callout_runtime_future [of "cs_curtime cs" lbolt delta]
    by (simp add: callout_delete_def Let_def ahead_def keep i(2) cs''_def new(2))
  moreover have "i < length (cs_bucket cs')"
    by (simp add: keep i(1))
  then have "\<forall>j. chain cs'' j = chain cs j"
    by (simp add: cs''_def ch)
  ultimately show thesis
    using that table_of_id [OF id table] new(2) by simp
qed

text \<open>
  C22. An insertion can be taken back: the identifier returned by \<^verbatim>\<open>timeout\<close> or
  \<^verbatim>\<open>realtime_timeout\<close> is never 0 and names the new callout in the right table, so that
  \<^verbatim>\<open>untimeout\<close> returns the time left until it was due, which is positive, and both tables hold the
  same callouts as before.
\<close>

theorem timeout_untimeout:
  assumes "co_reach CALLOUT_NORMAL (ct_normal ct) run" and "co_reach CALLOUT_REALTIME (ct_realtime ct) run'"
    and "timeout ka lbolt unsafe func arg delta ct = Done (ident, ct') \<and> t = cs_curtime (ct_normal ct)
       \<or> realtime_timeout ka lbolt unsafe func arg delta ct = Done (ident, ct') \<and> t = cs_curtime (ct_realtime ct)"
  shows "ident \<noteq> 0 \<and> (\<exists>left ct''. untimeout th ident ct' = (Del_returns left, ct'')
    \<and> left = ahead t (callout_runtime lbolt t delta) \<and> 1 \<le> left
    \<and> (\<forall>i. chain (ct_normal ct'') i = chain (ct_normal ct) i) \<and> (\<forall>i. chain (ct_realtime ct'') i = chain (ct_realtime ct) i))"
  using assms(3)
proof
  have ne: "CALLOUT_NORMAL \<noteq> CALLOUT_REALTIME"
    by (simp add: CALLOUT_NORMAL_def CALLOUT_REALTIME_def)
  have ok: "co_ok CALLOUT_NORMAL (ct_normal ct) run"
    by (rule co_reach_ok [OF assms(1)]) simp
  assume t: "timeout ka lbolt unsafe func arg delta ct = Done (ident, ct') \<and> t = cs_curtime (ct_normal ct)"
  then obtain cs' where cs': "callout_insert ka lbolt unsafe func arg delta (ct_normal ct) = Done (ident, cs')"
      "ct' = ct\<lparr>ct_normal := cs'\<rparr>"
    by (auto simp: timeout_def)
  from callout_insert_delete [OF ok _ cs'(1), of th] obtain cs'' where "ident \<noteq> 0" "ident AND CALLOUT_REALTIME = 0"
    "callout_delete th ident cs' = (Del_returns (ahead t (callout_runtime lbolt t delta)), cs'')"
    "\<forall>i. chain cs'' i = chain (ct_normal ct) i"
    using t ne by auto
  then show ?thesis
    using cs'(2) callout_runtime_future by (simp add: untimeout_def)
next
  have ok: "co_ok CALLOUT_REALTIME (ct_realtime ct) run'"
    by (rule co_reach_ok [OF assms(2)]) simp
  assume t: "realtime_timeout ka lbolt unsafe func arg delta ct = Done (ident, ct') \<and> t = cs_curtime (ct_realtime ct)"
  then obtain cs' where cs': "callout_insert ka lbolt unsafe func arg delta (ct_realtime ct) = Done (ident, cs')"
      "ct' = ct\<lparr>ct_realtime := cs'\<rparr>"
    by (auto simp: realtime_timeout_def)
  from callout_insert_delete [OF ok _ cs'(1), of th] obtain cs'' where "ident \<noteq> 0" "ident AND CALLOUT_REALTIME \<noteq> 0"
    "callout_delete th ident cs' = (Del_returns (ahead t (callout_runtime lbolt t delta)), cs'')"
    "\<forall>i. chain cs'' i = chain (ct_realtime ct) i"
    using t by auto
  then show ?thesis
    using cs'(2) callout_runtime_future by (simp add: untimeout_def)
qed

theorem timeout_untimeout_witness:
  "\<exists>ct''. untimeout 5 0x10000101 \<lparr>ct_normal = wit_table [wit_callout] 0 0 0,
       ct_realtime = callout_setup 0 CALLOUT_REALTIME empty_table, ct_stop = False\<rparr> = (Del_returns 1, ct'')"
proof -
  define ct where "ct = \<lparr>ct_normal = callout_setup 0 CALLOUT_NORMAL empty_table,
    ct_realtime = callout_setup 0 CALLOUT_REALTIME empty_table, ct_stop = False\<rparr>"
  have ct: "callout_init (\<lambda>i. True) 0 = Done ct" "ct_normal ct = callout_setup 0 CALLOUT_NORMAL empty_table"
    "ct_realtime ct = callout_setup 0 CALLOUT_REALTIME empty_table" "ct_stop ct = False"
    by (simp_all add: callout_init_def list_all_iff ct_def)
  have r: "co_reach CALLOUT_NORMAL (ct_normal ct) Map.empty" "co_reach CALLOUT_REALTIME (ct_realtime ct) Map.empty"
    unfolding ct by (rule co_reach.start)+
  have t: "timeout wit_ka 0 False 7 8 1 ct = Done (0x10000101, \<lparr>ct_normal = wit_table [wit_callout] 0 0 0,
       ct_realtime = callout_setup 0 CALLOUT_REALTIME empty_table, ct_stop = False\<rparr>)"
    using ct(3,4) by (simp add: timeout_def ct(2) wit_insert)
  have e: "callout_runtime 0 0 1 = 1" "cs_curtime (ct_normal ct) = 0" "ahead 0 1 = 1"
    by (simp_all add: callout_runtime_def Let_def ct(2) callout_setup_def ahead_def)
  show ?thesis
    using timeout_untimeout [OF r disjI1 [OF conjI [OF t refl]], of 5] unfolding e by blast
qed

section \<open>Suspend\<close>

lemma save_bucket_stays: "save_bucket l saved = (l, saved)"
proof (induction l arbitrary: saved)
  case (Cons c l)
  have "bit (c_xid c OR CALLOUT_EXECUTING) 31"
    by (simp add: bit_or_iff CALLOUT_EXECUTING_def)
  then have "c_xid c OR CALLOUT_EXECUTING \<noteq> 0"
    by auto
  with Cons.IH show ?case by simp
qed simp

text \<open>
  Suspending moves no callout: the test for a callout that is being executed is true of every
  callout, so that all callouts, pending ones too, stay in the active table and the saved
  buckets are empty; resuming gives the same callouts, and sets the time to look at next
  back to what it was when the system was suspended, whatever happened in between.
\<close>

lemma callout_save_moves_nothing:
  "map b_first (cs_bucket (fst (callout_save cs))) = map b_first (cs_bucket cs)
   \<and> map b_first (cs_bucket (snd (callout_save cs))) = replicate (length (cs_bucket cs)) []
   \<and> map b_first (cs_bucket (callout_restore (fst (callout_save cs)) (snd (callout_save cs)))) = map b_first (cs_bucket cs)
   \<and> cs_runtime (callout_restore cs' (snd (callout_save cs))) = cs_runtime cs"
  by (auto simp: callout_save_def callout_restore_def save_bucket_stays Let_def intro: nth_equalityI)

end
