(* ===== verification/Xdr.thy ===== *)
theory Xdr
  imports Kern_Prelude
begin

unbundle bit_operations_syntax

text \<open>
  External data representation, \<^verbatim>\<open>uts/common/rpc/xdr.c\<close>, \<^verbatim>\<open>xdr_array.c\<close> and
  \<^verbatim>\<open>xdr_refer.c\<close>: the filters that encode a value into a stream, decode it from the stream
  or free what a decoding allocated, one routine for the three operations. A stream is known
  to the filters by its operations vector only.
\<close>

section \<open>Handles\<close>

text \<open>The bytes in memory of a long in network byte order, and back.\<close>

definition be32 :: "32 word \<Rightarrow> byte list" where
  "be32 v = [ucast (drop_bit 24 v), ucast (drop_bit 16 v), ucast (drop_bit 8 v), ucast v]"

fun of_be32 :: "byte list \<Rightarrow> 32 word" where
  "of_be32 [a, b, c, d] = word_cat (word_cat a b :: 16 word) (word_cat c d :: 16 word)"
| "of_be32 _ = 0"

lemma length_be32 [simp]: "length (be32 v) = 4"
  by (simp add: be32_def)

lemma of_be32_be32 [simp]: "of_be32 (be32 v) = v"
  by (rule bit_word_eqI) (auto simp: be32_def bit_simps)

lemma be32_of_be32: "length bs = 4 \<Longrightarrow> be32 (of_be32 bs) = bs"
proof -
  assume "length bs = 4"
  then obtain a b c d where "bs = [a, b, c, d]"
    by (auto simp: length_Suc_conv numeral_eq_Suc)
  then show ?thesis
    by (auto simp: be32_def bit_simps intro!: bit_word_eqI)
qed

datatype xdr_op = XDR_ENCODE | XDR_DECODE | XDR_FREE

definition BYTES_PER_XDR_UNIT :: nat where "BYTES_PER_XDR_UNIT = 4"

text \<open>Requests of \<^verbatim>\<open>x_control\<close> with their argument.\<close>

datatype xdr_request = XDR_PEEK | XDR_SKIPBYTES "32 word" | XDR_other

text \<open>
  The operations vector of a stream whose private fields are of type \<^typ>\<open>'s\<close>. The caller's
  variables are passed by value and returned: \<open>x_getlong\<close> returns the long it stores, or None,
  \<open>x_getbytes\<close> takes the memory it may fill and returns it as it leaves it, \<open>x_inline\<close> returns an
  address. \<open>x_load\<close> and \<open>x_store\<close> are not members of the vector: they are the access to the memory of
  the stream through such an address.
\<close>

record 's xdr_ops =
  x_getlong :: "'s \<Rightarrow> (32 word option \<times> 's) outcome"
  x_putlong :: "32 word \<Rightarrow> 's \<Rightarrow> (bool \<times> 's) outcome"
  x_getbytes :: "byte list \<Rightarrow> 32 word \<Rightarrow> 's \<Rightarrow> (bool \<times> byte list \<times> 's) outcome"
  x_putbytes :: "byte list \<Rightarrow> 32 word \<Rightarrow> 's \<Rightarrow> (bool \<times> 's) outcome"
  x_getpostn :: "'s \<Rightarrow> 32 word outcome"
  x_setpostn :: "32 word \<Rightarrow> 's \<Rightarrow> bool \<times> 's"
  x_inline :: "32 word \<Rightarrow> 's \<Rightarrow> 32 word option \<times> 's"
  x_control :: "xdr_request \<Rightarrow> 's \<Rightarrow> (32 word option \<times> bool \<times> 's) outcome"
  x_load :: "32 word \<Rightarrow> nat \<Rightarrow> 's \<Rightarrow> byte list outcome"
  x_store :: "32 word \<Rightarrow> byte list \<Rightarrow> 's \<Rightarrow> 's outcome"

record 's xdr =
  x_op :: xdr_op
  x_ops :: "'s xdr_ops"
  x_priv :: 's

definition XDR_GETLONG :: "'s xdr \<Rightarrow> (32 word option \<times> 's xdr) outcome" where
  "XDR_GETLONG xdrs = bind_outcome (x_getlong (x_ops xdrs) (x_priv xdrs)) (\<lambda>(v, s). Done (v, xdrs\<lparr>x_priv := s\<rparr>))"

definition XDR_PUTLONG :: "32 word \<Rightarrow> 's xdr \<Rightarrow> (bool \<times> 's xdr) outcome" where
  "XDR_PUTLONG v xdrs = bind_outcome (x_putlong (x_ops xdrs) v (x_priv xdrs)) (\<lambda>(ok, s). Done (ok, xdrs\<lparr>x_priv := s\<rparr>))"

definition XDR_GETBYTES :: "byte list \<Rightarrow> 32 word \<Rightarrow> 's xdr \<Rightarrow> (bool \<times> byte list \<times> 's xdr) outcome" where
  "XDR_GETBYTES addr len xdrs =
     bind_outcome (x_getbytes (x_ops xdrs) addr len (x_priv xdrs)) (\<lambda>(ok, addr, s). Done (ok, addr, xdrs\<lparr>x_priv := s\<rparr>))"

definition XDR_PUTBYTES :: "byte list \<Rightarrow> 32 word \<Rightarrow> 's xdr \<Rightarrow> (bool \<times> 's xdr) outcome" where
  "XDR_PUTBYTES addr len xdrs =
     bind_outcome (x_putbytes (x_ops xdrs) addr len (x_priv xdrs)) (\<lambda>(ok, s). Done (ok, xdrs\<lparr>x_priv := s\<rparr>))"

definition XDR_INLINE :: "32 word \<Rightarrow> 's xdr \<Rightarrow> 32 word option \<times> 's xdr" where
  "XDR_INLINE len xdrs = (let (r, s) = x_inline (x_ops xdrs) len (x_priv xdrs) in (r, xdrs\<lparr>x_priv := s\<rparr>))"

text \<open>
  A filter takes the handle and the variable it works on, and returns whether it succeeded,
  the variable and the handle.
\<close>

type_synonym ('s, 'a) xdrproc = "'s xdr \<Rightarrow> 'a \<Rightarrow> (bool \<times> 'a \<times> 's xdr) outcome"

text \<open>A pointer to memory, to nothing, or to memory that was freed.\<close>

datatype 'a ptr = Null | Ptr 'a | Dangling

text \<open>Bytes that can be reached through a pointer.\<close>

fun bytes_at :: "byte list ptr \<Rightarrow> byte list" where
  "bytes_at (Ptr bs) = bs"
| "bytes_at _ = []"

section \<open>Integers\<close>

definition xdr_void :: "('s, 'a) xdrproc" where
  "xdr_void xdrs v = Done (True, v, xdrs)"

definition xdr_free :: "('s, 'a) xdrproc \<Rightarrow> 's xdr \<Rightarrow> 'a \<Rightarrow> 'a outcome" where
  "xdr_free proc x v = bind_outcome (proc (x\<lparr>x_op := XDR_FREE\<rparr>) v) (\<lambda>(_, v, _). Done v)"

definition xdr_long :: "('s, 32 word) xdrproc" where
  "xdr_long xdrs lp =
     (case x_op xdrs of
        XDR_ENCODE \<Rightarrow> bind_outcome (XDR_PUTLONG lp xdrs) (\<lambda>(ok, xdrs). Done (ok, lp, xdrs))
      | XDR_DECODE \<Rightarrow> bind_outcome (XDR_GETLONG xdrs)
          (\<lambda>(r, xdrs). Done (case r of None \<Rightarrow> (False, lp, xdrs) | Some v \<Rightarrow> (True, v, xdrs)))
      | XDR_FREE \<Rightarrow> Done (True, lp, xdrs))"

definition xdr_u_long :: "('s, 32 word) xdrproc" where
  "xdr_u_long xdrs ulp =
     (case x_op xdrs of
        XDR_DECODE \<Rightarrow> bind_outcome (XDR_GETLONG xdrs)
          (\<lambda>(r, xdrs). Done (case r of None \<Rightarrow> (False, ulp, xdrs) | Some v \<Rightarrow> (True, v, xdrs)))
      | XDR_ENCODE \<Rightarrow> bind_outcome (XDR_PUTLONG ulp xdrs) (\<lambda>(ok, xdrs). Done (ok, ulp, xdrs))
      | XDR_FREE \<Rightarrow> Done (True, ulp, xdrs))"

text \<open>\<^verbatim>\<open>int\<close>, \<^verbatim>\<open>long\<close> and enumerations are of one size.\<close>

definition xdr_int :: "('s, 32 word) xdrproc" where
  "xdr_int xdrs ip = xdr_long xdrs ip"

definition xdr_u_int :: "('s, 32 word) xdrproc" where
  "xdr_u_int xdrs up = xdr_u_long xdrs up"

definition xdr_enum :: "('s, 32 word) xdrproc" where
  "xdr_enum xdrs ep = xdr_long xdrs ep"

text \<open>
  A long long as its two words: \<open>high_word\<close> is at the lower address on a big-endian machine and
  at the higher one on a little-endian machine, and goes first in both cases.
\<close>

definition high_word :: "64 word \<Rightarrow> 32 word" where "high_word h = ucast (drop_bit 32 h)"
definition low_word :: "64 word \<Rightarrow> 32 word" where "low_word h = ucast h"
definition set_high :: "32 word \<Rightarrow> 64 word \<Rightarrow> 64 word" where "set_high v h = word_cat v (low_word h)"
definition set_low :: "32 word \<Rightarrow> 64 word \<Rightarrow> 64 word" where "set_low v h = word_cat (high_word h) v"

definition xdr_longlong_t :: "('s, 64 word) xdrproc" where
  "xdr_longlong_t xdrs hp =
     (case x_op xdrs of
        XDR_ENCODE \<Rightarrow> bind_outcome (XDR_PUTLONG (high_word hp) xdrs) (\<lambda>(ok, xdrs).
          if ok then bind_outcome (XDR_PUTLONG (low_word hp) xdrs) (\<lambda>(ok, xdrs). Done (ok, hp, xdrs))
          else Done (False, hp, xdrs))
      | XDR_DECODE \<Rightarrow> bind_outcome (XDR_GETLONG xdrs) (\<lambda>(r, xdrs).
          case r of None \<Rightarrow> Done (False, hp, xdrs)
          | Some v \<Rightarrow> let hp = set_high v hp in
              bind_outcome (XDR_GETLONG xdrs) (\<lambda>(r, xdrs).
                Done (case r of None \<Rightarrow> (False, hp, xdrs) | Some v \<Rightarrow> (True, set_low v hp, xdrs))))
      | XDR_FREE \<Rightarrow> Done (True, hp, xdrs))"

definition xdr_u_longlong_t :: "('s, 64 word) xdrproc" where
  "xdr_u_longlong_t xdrs hp =
     (case x_op xdrs of
        XDR_ENCODE \<Rightarrow> bind_outcome (XDR_PUTLONG (high_word hp) xdrs) (\<lambda>(ok, xdrs).
          if ok then bind_outcome (XDR_PUTLONG (low_word hp) xdrs) (\<lambda>(ok, xdrs). Done (ok, hp, xdrs))
          else Done (False, hp, xdrs))
      | XDR_DECODE \<Rightarrow> bind_outcome (XDR_GETLONG xdrs) (\<lambda>(r, xdrs).
          case r of None \<Rightarrow> Done (False, hp, xdrs)
          | Some v \<Rightarrow> let hp = set_high v hp in
              bind_outcome (XDR_GETLONG xdrs) (\<lambda>(r, xdrs).
                Done (case r of None \<Rightarrow> (False, hp, xdrs) | Some v \<Rightarrow> (True, set_low v hp, xdrs))))
      | XDR_FREE \<Rightarrow> Done (True, hp, xdrs))"

definition xdr_short :: "('s, 16 word) xdrproc" where
  "xdr_short xdrs sp =
     (case x_op xdrs of
        XDR_ENCODE \<Rightarrow> bind_outcome (XDR_PUTLONG (scast sp) xdrs) (\<lambda>(ok, xdrs). Done (ok, sp, xdrs))
      | XDR_DECODE \<Rightarrow> bind_outcome (XDR_GETLONG xdrs)
          (\<lambda>(r, xdrs). Done (case r of None \<Rightarrow> (False, sp, xdrs) | Some l \<Rightarrow> (True, ucast l, xdrs)))
      | XDR_FREE \<Rightarrow> Done (True, sp, xdrs))"

definition xdr_u_short :: "('s, 16 word) xdrproc" where
  "xdr_u_short xdrs usp =
     (case x_op xdrs of
        XDR_ENCODE \<Rightarrow> bind_outcome (XDR_PUTLONG (ucast usp) xdrs) (\<lambda>(ok, xdrs). Done (ok, usp, xdrs))
      | XDR_DECODE \<Rightarrow> bind_outcome (XDR_GETLONG xdrs)
          (\<lambda>(r, xdrs). Done (case r of None \<Rightarrow> (False, usp, xdrs) | Some l \<Rightarrow> (True, ucast l, xdrs)))
      | XDR_FREE \<Rightarrow> Done (True, usp, xdrs))"

text \<open>A \<^verbatim>\<open>char\<close> is signed.\<close>

definition xdr_char :: "('s, byte) xdrproc" where
  "xdr_char xdrs cp =
     bind_outcome (xdr_int xdrs (scast cp)) (\<lambda>(ok, i, xdrs). Done (if ok then (True, ucast i, xdrs) else (False, cp, xdrs)))"

definition xdr_bool :: "('s, 32 word) xdrproc" where
  "xdr_bool xdrs bp =
     (case x_op xdrs of
        XDR_ENCODE \<Rightarrow> bind_outcome (XDR_PUTLONG (if bp \<noteq> 0 then 1 else 0) xdrs) (\<lambda>(ok, xdrs). Done (ok, bp, xdrs))
      | XDR_DECODE \<Rightarrow> bind_outcome (XDR_GETLONG xdrs)
          (\<lambda>(r, xdrs). Done (case r of None \<Rightarrow> (False, bp, xdrs) | Some lb \<Rightarrow> (True, if lb = 0 then 0 else 1, xdrs)))
      | XDR_FREE \<Rightarrow> Done (True, bp, xdrs))"

section \<open>Bytes\<close>

definition xdr_zero :: "byte list" where "xdr_zero = replicate BYTES_PER_XDR_UNIT 0"

text \<open>The static array \<^verbatim>\<open>crud\<close> takes the filler; it is four ints long and never read.\<close>

definition crud :: "byte list" where "crud = replicate (4 * BYTES_PER_XDR_UNIT) 0"

definition xdr_rndup :: "32 word \<Rightarrow> 32 word" where
  "xdr_rndup cnt =
     (let rndup = cnt mod word_of_nat BYTES_PER_XDR_UNIT
      in if rndup \<noteq> 0 then word_of_nat BYTES_PER_XDR_UNIT - rndup else 0)"

definition xdr_opaque :: "32 word \<Rightarrow> ('s, byte list) xdrproc" where
  "xdr_opaque cnt xdrs cp =
     (if cnt = 0 then Done (True, cp, xdrs)
      else
        let rndup = xdr_rndup cnt in
        case x_op xdrs of
          XDR_DECODE \<Rightarrow> bind_outcome (XDR_GETBYTES cp cnt xdrs) (\<lambda>(ok, cp, xdrs).
            if \<not> ok then Done (False, cp, xdrs)
            else if rndup = 0 then Done (True, cp, xdrs)
            else bind_outcome (XDR_GETBYTES crud rndup xdrs) (\<lambda>(ok, _, xdrs). Done (ok, cp, xdrs)))
        | XDR_ENCODE \<Rightarrow> bind_outcome (XDR_PUTBYTES cp cnt xdrs) (\<lambda>(ok, xdrs).
            if \<not> ok then Done (False, cp, xdrs)
            else if rndup = 0 then Done (True, cp, xdrs)
            else bind_outcome (XDR_PUTBYTES xdr_zero rndup xdrs) (\<lambda>(ok, xdrs). Done (ok, cp, xdrs)))
        | XDR_FREE \<Rightarrow> Done (True, cp, xdrs))"

text \<open>
  Memory from the allocator: \<open>mem n\<close> are the bytes, of any content, of a request for \<open>n\<close> bytes,
  which sleeps until it can be met.
\<close>

type_synonym mem_alloc = "nat \<Rightarrow> byte list"

text \<open>\<open>store p bs\<close> is the pointer \<open>p\<close> after the bytes it points to became \<open>bs\<close>.\<close>

fun store :: "byte list ptr \<Rightarrow> byte list \<Rightarrow> byte list ptr" where
  "store (Ptr _) bs = Ptr bs"
| "store p bs = p"

definition xdr_bytes :: "mem_alloc \<Rightarrow> 32 word \<Rightarrow> ('s, byte list ptr \<times> 32 word) xdrproc" where
  "xdr_bytes mem maxsize xdrs = (\<lambda>(cpp, sizep).
     bind_outcome (xdr_u_int xdrs sizep) (\<lambda>(ok, sizep, xdrs).
       if \<not> ok then Done (False, (cpp, sizep), xdrs)
       else
         let nodesize = sizep in
         if nodesize > maxsize \<and> x_op xdrs \<noteq> XDR_FREE then Done (False, (cpp, sizep), xdrs)
         else case x_op xdrs of
           XDR_DECODE \<Rightarrow>
             if nodesize = 0 then Done (True, (cpp, sizep), xdrs)
             else
               let cpp = (if cpp = Null then Ptr (mem (unat nodesize)) else cpp)
               in bind_outcome (xdr_opaque nodesize xdrs (bytes_at cpp)) (\<lambda>(ok, bs, xdrs). Done (ok, (store cpp bs, sizep), xdrs))
         | XDR_ENCODE \<Rightarrow>
             bind_outcome (xdr_opaque nodesize xdrs (bytes_at cpp)) (\<lambda>(ok, bs, xdrs). Done (ok, (store cpp bs, sizep), xdrs))
         | XDR_FREE \<Rightarrow> Done (True, (Null, sizep), xdrs)))"

definition MAX_NETOBJ_SZ :: "32 word" where "MAX_NETOBJ_SZ = 1024"

definition xdr_netobj :: "mem_alloc \<Rightarrow> ('s, byte list ptr \<times> 32 word) xdrproc" where
  "xdr_netobj mem xdrs np = xdr_bytes mem MAX_NETOBJ_SZ xdrs np"

section \<open>Strings\<close>

text \<open>The length of a string, or None where no byte of the memory is 0.\<close>

fun strlen :: "byte list \<Rightarrow> nat option" where
  "strlen [] = None"
| "strlen (b # bs) = (if b = 0 then Some 0 else map_option Suc (strlen bs))"

definition xdr_string :: "mem_alloc \<Rightarrow> 32 word \<Rightarrow> ('s, byte list ptr) xdrproc" where
  "xdr_string mem maxsize xdrs cpp =
     (if x_op xdrs = XDR_FREE \<and> cpp = Null then Done (True, cpp, xdrs)
      else
        bind_outcome
          (if x_op xdrs = XDR_DECODE \<or> cpp = Null then Done 0
           else case strlen (bytes_at cpp) of None \<Rightarrow> Overrun | Some n \<Rightarrow> Done (word_of_nat n)) (\<lambda>size.
        bind_outcome (xdr_u_int xdrs size) (\<lambda>(ok, size, xdrs).
          if \<not> ok then Done (False, cpp, xdrs)
          else if size > maxsize then Done (False, cpp, xdrs)
          else
            let nodesize = size + 1 in
            case x_op xdrs of
              XDR_DECODE \<Rightarrow>
                if nodesize = 0 then Done (True, cpp, xdrs)
                else
                  let sp = (if cpp = Null then Ptr (mem (unat nodesize)) else cpp);
                      free = (if cpp = Null then Null else Dangling)
                  in if length (bytes_at sp) \<le> unat size then Overrun
                     else
                       bind_outcome (xdr_opaque size xdrs ((bytes_at sp)[unat size := 0])) (\<lambda>(ok, bs, xdrs).
                         if \<not> ok then Done (False, free, xdrs)
                         else if strlen bs \<noteq> Some (unat size) then Done (False, free, xdrs)
                         else Done (True, Ptr bs, xdrs))
            | XDR_ENCODE \<Rightarrow>
                bind_outcome (xdr_opaque size xdrs (bytes_at cpp)) (\<lambda>(ok, bs, xdrs). Done (ok, store cpp bs, xdrs))
            | XDR_FREE \<Rightarrow> Done (True, Null, xdrs))))"

definition LASTUNSIGNED :: "32 word" where "LASTUNSIGNED = - 1"

definition xdr_wrapstring :: "mem_alloc \<Rightarrow> ('s, byte list ptr) xdrproc" where
  "xdr_wrapstring mem xdrs cpp = xdr_string mem LASTUNSIGNED xdrs cpp"

section \<open>Unions\<close>

text \<open>The choices up to the entry with a null procedure.\<close>

fun find_choice :: "32 word \<Rightarrow> (32 word \<times> ('s, 'u) xdrproc) list \<Rightarrow> ('s, 'u) xdrproc option" where
  "find_choice dscm [] = None"
| "find_choice dscm ((v, p) # cs) = (if v = dscm then Some p else find_choice dscm cs)"

definition xdr_union ::
    "(32 word \<times> ('s, 'u) xdrproc) list \<Rightarrow> ('s, 'u) xdrproc option \<Rightarrow> ('s, 32 word \<times> 'u) xdrproc" where
  "xdr_union choices dfault xdrs = (\<lambda>(dscmp, unp).
     bind_outcome (xdr_enum xdrs dscmp) (\<lambda>(ok, dscmp, xdrs).
       if \<not> ok then Done (False, (dscmp, unp), xdrs)
       else case find_choice dscmp choices of
         Some proc \<Rightarrow> bind_outcome (proc xdrs unp) (\<lambda>(ok, unp, xdrs). Done (ok, (dscmp, unp), xdrs))
       | None \<Rightarrow> (case dfault of
           None \<Rightarrow> Done (False, (dscmp, unp), xdrs)
         | Some proc \<Rightarrow> bind_outcome (proc xdrs unp) (\<lambda>(ok, unp, xdrs). Done (ok, (dscmp, unp), xdrs)))))"

section \<open>Arrays and pointers\<close>

text \<open>Element by element; an element beyond those of the array is outside of its memory.\<close>

function xdr_array_loop :: "('s, 'a) xdrproc \<Rightarrow> nat \<Rightarrow> nat \<Rightarrow> ('s, 'a list) xdrproc" where
  "xdr_array_loop elproc c i xdrs target =
     (if i < c then
        (if length target \<le> i then Overrun
         else bind_outcome (elproc xdrs (target ! i)) (\<lambda>(stat, v, xdrs).
           if stat then xdr_array_loop elproc c (i + 1) xdrs (target[i := v])
           else Done (False, target[i := v], xdrs)))
      else Done (True, target, xdrs))"
  by pat_completeness auto

termination
  by (relation "measure (\<lambda>(_, c, i, _, _). c - i)") auto

fun elems_at :: "'a list ptr \<Rightarrow> 'a list" where
  "elems_at (Ptr l) = l"
| "elems_at _ = []"

text \<open>
  \<open>zero\<close> is an element whose bytes are all 0; an array of \<open>nodesize\<close> bytes, a product that may
  wrap around, has room for \<open>nodesize div elsize\<close> elements.
\<close>

definition xdr_array ::
    "32 word \<Rightarrow> 32 word \<Rightarrow> 'a \<Rightarrow> ('s, 'a) xdrproc \<Rightarrow> ('s, 'a list ptr \<times> 32 word) xdrproc" where
  "xdr_array maxsize elsize zero elproc xdrs = (\<lambda>(addrp, sizep).
     bind_outcome (xdr_u_int xdrs sizep) (\<lambda>(ok, sizep, xdrs).
       if \<not> ok then Done (False, (addrp, sizep), xdrs)
       else
         let c = sizep in
         if c > maxsize \<and> x_op xdrs \<noteq> XDR_FREE then Done (False, (addrp, sizep), xdrs)
         else
           let nodesize = c * elsize in
           if addrp = Null \<and> x_op xdrs = XDR_DECODE \<and> c = 0 then Done (True, (addrp, sizep), xdrs)
           else if addrp = Null \<and> x_op xdrs = XDR_FREE then Done (True, (addrp, sizep), xdrs)
           else
             let addrp = (if addrp = Null \<and> x_op xdrs = XDR_DECODE
                          then Ptr (replicate (unat nodesize div unat elsize) zero) else addrp)
             in bind_outcome (xdr_array_loop elproc (unat c) 0 xdrs (elems_at addrp)) (\<lambda>(stat, l, xdrs).
                  let addrp = (case addrp of Ptr _ \<Rightarrow> Ptr l | p \<Rightarrow> p) in
                  Done (stat, (if x_op xdrs = XDR_FREE then Null else addrp, sizep), xdrs))))"

text \<open>
  The code does not prevent that a null pointer is passed on when it is encoded; a routine that
  reads a value through it has none to read.
\<close>

definition xdr_reference :: "'a \<Rightarrow> ('s, 'a) xdrproc \<Rightarrow> ('s, 'a ptr) xdrproc" where
  "xdr_reference zero proc xdrs pp =
     (if pp = Null \<and> x_op xdrs = XDR_FREE then Done (True, pp, xdrs)
      else
        let pp = (if pp = Null \<and> x_op xdrs = XDR_DECODE then Ptr zero else pp)
        in case pp of
             Ptr v \<Rightarrow> bind_outcome (proc xdrs v) (\<lambda>(stat, v, xdrs). Done (stat, if x_op xdrs = XDR_FREE then Null else Ptr v, xdrs))
           | _ \<Rightarrow> Overrun)"

definition xdr_pointer :: "'a \<Rightarrow> ('s, 'a) xdrproc \<Rightarrow> ('s, 'a ptr) xdrproc" where
  "xdr_pointer zero xdr_obj xdrs objpp =
     bind_outcome (xdr_bool xdrs (if objpp \<noteq> Null then 1 else 0)) (\<lambda>(ok, more_data, xdrs).
       if \<not> ok then Done (False, objpp, xdrs)
       else if more_data = 0 then Done (True, Null, xdrs)
       else xdr_reference zero xdr_obj xdrs objpp)"

end
