(* ===== verification/Xdr_Stream.thy ===== *)
theory Xdr_Stream
  imports Xdr
begin

text \<open>
  What the filters rely on of a stream they write to and of one they read from, and what they
  then do: each filter writes exactly the external representation of the value and reads it
  back, and decoding from any input ends with the value of a prefix of the input or with a
  failure.
\<close>

section \<open>External representation\<close>

text \<open>The filler that brings \<open>n\<close> bytes to a multiple of four.\<close>

definition pad :: "nat \<Rightarrow> nat" where
  "pad n = (4 - n mod 4) mod 4"

definition rep_opaque :: "byte list \<Rightarrow> byte list" where
  "rep_opaque bs = bs @ replicate (pad (length bs)) 0"

definition rep_bytes :: "byte list \<Rightarrow> byte list" where
  "rep_bytes bs = be32 (word_of_nat (length bs)) @ rep_opaque bs"

lemma pad_bound: "pad n < 4"
  by (simp add: pad_def)

lemma unat_rndup: "unat (xdr_rndup cnt) = pad (unat cnt)"
proof -
  have m: "unat (cnt mod 4) = unat cnt mod 4"
    by (simp add: unat_mod)
  have less: "unat cnt mod 4 < 4"
    by simp
  show ?thesis
  proof (cases "cnt mod 4 = 0")
    case True
    then have "unat cnt mod 4 = 0"
      using m by simp
    with True show ?thesis
      by (simp add: xdr_rndup_def BYTES_PER_XDR_UNIT_def pad_def)
  next
    case False
    then have "unat cnt mod 4 \<noteq> 0"
      using m by (metis unat_eq_zero)
    moreover have "unat (4 - cnt mod 4) = 4 - unat cnt mod 4"
      using m by (subst unat_sub) (simp_all add: word_le_nat_alt)
    ultimately show ?thesis
      using False by (simp add: xdr_rndup_def BYTES_PER_XDR_UNIT_def pad_def)
  qed
qed

lemma pad_phase: "(n + pad n) mod 4 = 0"
proof -
  have "n mod 4 < 4"
    by simp
  then have "n mod 4 \<in> {0, 1, 2, 3}"
    by auto
  moreover have "(n + pad n) mod 4 = (n mod 4 + pad n) mod 4"
    by (simp add: mod_add_left_eq)
  ultimately show ?thesis
    by (auto simp: pad_def)
qed

lemma length_rep_opaque: "4 dvd length (rep_opaque bs)"
  using pad_phase [of "length bs"] by (simp add: rep_opaque_def dvd_eq_mod_eq_0)

lemma rndup_zero: "xdr_rndup cnt = 0 \<longleftrightarrow> pad (unat cnt) = 0"
  using unat_rndup [of cnt] by (metis unat_eq_zero)

declare xdr_array_loop.simps [simp del]

lemma word_parts: "set_low (low_word v) (set_high (high_word v) v0) = v"
  by (rule bit_word_eqI) (auto simp: set_low_def set_high_def low_word_def high_word_def bit_simps)

lemma narrow_wide: "ucast (scast (v :: byte) :: 32 word) = v" "ucast (scast (h :: 16 word) :: 32 word) = h"
  "ucast (ucast (h :: 16 word) :: 32 word) = h"
  by (rule bit_word_eqI; simp add: bit_simps)+

lemma int_eqs: "xdr_int = xdr_long" "xdr_u_int = xdr_u_long" "xdr_enum = xdr_long"
  by (simp_all add: fun_eq_iff xdr_int_def xdr_u_int_def xdr_enum_def)

lemma u_longlong_eq: "xdr_u_longlong_t = xdr_longlong_t"
  by (simp add: fun_eq_iff xdr_u_longlong_t_def xdr_longlong_t_def)

lemma strlen_append: "0 \<notin> set bs \<Longrightarrow> strlen (bs @ 0 # t) = Some (length bs)"
  by (induction bs) auto

lemma strlen_early: "0 \<in> set bs \<Longrightarrow> \<exists>k<length bs. strlen (bs @ t) = Some k"
  by (induction bs) auto

lemma xdr_long_put: "x_op xdrs = XDR_ENCODE \<Longrightarrow> xdr_long xdrs v = Done (True, v, x1) \<Longrightarrow> XDR_PUTLONG v xdrs = Done (True, x1)"
  by (auto simp: xdr_long_def)

lemma xdr_long_get: "x_op xdrs = XDR_DECODE \<Longrightarrow> xdr_long xdrs v0 = Done (True, v, x1) \<Longrightarrow> XDR_GETLONG xdrs = Done (Some v, x1)"
  by (auto simp: xdr_long_def split: option.splits)

section \<open>Writing to a stream\<close>

text \<open>
  \<open>out s\<close> are the bytes put so far, and \<open>room s\<close> bytes more can be put; longs are put at the
  beginning of a unit of four bytes only.
\<close>

locale xdr_sink =
  fixes ops :: "'s xdr_ops" and inv :: "'s \<Rightarrow> bool" and out :: "'s \<Rightarrow> byte list" and room :: "'s \<Rightarrow> nat"
  assumes putlong: "inv s \<Longrightarrow> 4 dvd length (out s) \<Longrightarrow> 4 \<le> room s \<Longrightarrow>
      \<exists>s'. x_putlong ops v s = Done (True, s') \<and> inv s' \<and> out s' = out s @ be32 v \<and> room s \<le> room s' + 4"
    and putbytes: "inv s \<Longrightarrow> unat len \<le> room s \<Longrightarrow> unat len \<le> length bs \<Longrightarrow>
      \<exists>s'. x_putbytes ops bs len s = Done (True, s') \<and> inv s' \<and> out s' = out s @ take (unat len) bs \<and> room s \<le> room s' + unat len"
begin

text \<open>A handle that encodes into such a stream.\<close>

definition handle :: "'s xdr \<Rightarrow> bool" where
  "handle xdrs \<longleftrightarrow> x_op xdrs = XDR_ENCODE \<and> x_ops xdrs = ops \<and> inv (x_priv xdrs)"

lemma handleD: "handle xdrs \<Longrightarrow> inv (x_priv xdrs)" "handle xdrs \<Longrightarrow> x_ops xdrs = ops"
  and handle_op [simp]: "handle xdrs \<Longrightarrow> x_op xdrs = XDR_ENCODE"
  by (simp_all add: handle_def)

text \<open>\<open>proc\<close> encodes \<open>v\<close> as \<open>bs\<close>.\<close>

definition encodes :: "('s, 'a) xdrproc \<Rightarrow> 'a \<Rightarrow> byte list \<Rightarrow> bool" where
  "encodes proc v bs \<longleftrightarrow> 4 dvd length bs \<and> (\<forall>xdrs. handle xdrs \<longrightarrow> 4 dvd length (out (x_priv xdrs)) \<longrightarrow> length bs \<le> room (x_priv xdrs) \<longrightarrow>
     (\<exists>xdrs'. proc xdrs v = Done (True, v, xdrs') \<and> handle xdrs'
        \<and> out (x_priv xdrs') = out (x_priv xdrs) @ bs \<and> room (x_priv xdrs) \<le> room (x_priv xdrs') + length bs))"

lemma encodesD:
  assumes "encodes proc v bs" and "handle xdrs" and "4 dvd length (out (x_priv xdrs))" and "length bs \<le> room (x_priv xdrs)"
  obtains xdrs' where "proc xdrs v = Done (True, v, xdrs')" "handle xdrs'"
    "out (x_priv xdrs') = out (x_priv xdrs) @ bs" "room (x_priv xdrs) \<le> room (x_priv xdrs') + length bs"
  using assms unfolding encodes_def by blast

lemma encodesI:
  assumes "4 dvd length bs" and "\<And>xdrs. handle xdrs \<Longrightarrow> 4 dvd length (out (x_priv xdrs)) \<Longrightarrow> length bs \<le> room (x_priv xdrs) \<Longrightarrow>
     \<exists>xdrs'. proc xdrs v = Done (True, v, xdrs') \<and> handle xdrs' \<and> out (x_priv xdrs') = out (x_priv xdrs) @ bs
        \<and> room (x_priv xdrs) \<le> room (x_priv xdrs') + length bs"
  shows "encodes proc v bs"
  using assms unfolding encodes_def by blast

lemma encodes_length: "encodes proc v bs \<Longrightarrow> 4 dvd length bs"
  by (simp add: encodes_def)

lemma XDR_PUTLONG_ok:
  assumes "handle xdrs" and "4 dvd length (out (x_priv xdrs))" and "4 \<le> room (x_priv xdrs)"
  obtains xdrs' where "XDR_PUTLONG v xdrs = Done (True, xdrs')" "handle xdrs'"
    "out (x_priv xdrs') = out (x_priv xdrs) @ be32 v" "room (x_priv xdrs) \<le> room (x_priv xdrs') + 4"
proof -
  obtain s' where "x_putlong ops v (x_priv xdrs) = Done (True, s')" "inv s'" "out s' = out (x_priv xdrs) @ be32 v"
    "room (x_priv xdrs) \<le> room s' + 4"
    using putlong [OF _ assms(2,3)] assms(1) by (auto simp: handle_def)
  with assms(1) show thesis
    by (intro that [of "xdrs\<lparr>x_priv := s'\<rparr>"]) (simp_all add: XDR_PUTLONG_def handle_def)
qed

lemma XDR_PUTBYTES_ok:
  assumes "handle xdrs" and "unat len \<le> room (x_priv xdrs)" and "unat len \<le> length bs"
  obtains xdrs' where "XDR_PUTBYTES bs len xdrs = Done (True, xdrs')" "handle xdrs'"
    "out (x_priv xdrs') = out (x_priv xdrs) @ take (unat len) bs" "room (x_priv xdrs) \<le> room (x_priv xdrs') + unat len"
proof -
  obtain s' where "x_putbytes ops bs len (x_priv xdrs) = Done (True, s')" "inv s'" "out s' = out (x_priv xdrs) @ take (unat len) bs"
    "room (x_priv xdrs) \<le> room s' + unat len"
    using putbytes [OF _ assms(2,3)] assms(1) by (auto simp: handle_def)
  with assms(1) show thesis
    by (intro that [of "xdrs\<lparr>x_priv := s'\<rparr>"]) (simp_all add: XDR_PUTBYTES_def handle_def)
qed

lemma encodes_one_long:
  assumes "\<And>xdrs. x_op xdrs = XDR_ENCODE \<Longrightarrow> proc xdrs v = bind_outcome (XDR_PUTLONG w xdrs) (\<lambda>(ok, xdrs). Done (ok, v, xdrs))"
  shows "encodes proc v (be32 w)"
proof (rule encodesI)
  fix xdrs assume h: "handle xdrs" and a: "4 dvd length (out (x_priv xdrs))" and r: "length (be32 w) \<le> room (x_priv xdrs)"
  obtain xdrs' where "XDR_PUTLONG w xdrs = Done (True, xdrs')" "handle xdrs'"
    "out (x_priv xdrs') = out (x_priv xdrs) @ be32 w" "room (x_priv xdrs) \<le> room (x_priv xdrs') + 4"
    using XDR_PUTLONG_ok [OF h a, of w] r by auto
  then show "\<exists>xdrs'. proc xdrs v = Done (True, v, xdrs') \<and> handle xdrs'
      \<and> out (x_priv xdrs') = out (x_priv xdrs) @ be32 w \<and> room (x_priv xdrs) \<le> room (x_priv xdrs') + length (be32 w)"
    using assms [of xdrs] h by simp
qed simp

lemma encodes_pair:
  assumes "encodes p1 v1 b1" and "encodes p2 v2 b2"
    and "\<And>xdrs x1 x2. handle xdrs \<Longrightarrow> handle x1 \<Longrightarrow> handle x2 \<Longrightarrow>
       p1 xdrs v1 = Done (True, v1, x1) \<Longrightarrow> p2 x1 v2 = Done (True, v2, x2) \<Longrightarrow> proc xdrs v = Done (True, v, x2)"
  shows "encodes proc v (b1 @ b2)"
proof (rule encodesI)
  fix xdrs assume h: "handle xdrs" and a: "4 dvd length (out (x_priv xdrs))" and r: "length (b1 @ b2) \<le> room (x_priv xdrs)"
  have "length b1 \<le> room (x_priv xdrs)"
    using r by simp
  from encodesD [OF assms(1) h a this] obtain x1 where 1: "p1 xdrs v1 = Done (True, v1, x1)" "handle x1"
    "out (x_priv x1) = out (x_priv xdrs) @ b1" "room (x_priv xdrs) \<le> room (x_priv x1) + length b1" .
  have "4 dvd length (out (x_priv x1))" "length b2 \<le> room (x_priv x1)"
    using r 1(3,4) a encodes_length [OF assms(1)] by simp_all
  from encodesD [OF assms(2) 1(2) this] obtain x2 where 2: "p2 x1 v2 = Done (True, v2, x2)" "handle x2"
    "out (x_priv x2) = out (x_priv x1) @ b2" "room (x_priv x1) \<le> room (x_priv x2) + length b2" .
  have "proc xdrs v = Done (True, v, x2)"
    by (rule assms(3) [OF h 1(2) 2(2) 1(1) 2(1)])
  with 1 2 show "\<exists>xdrs'. proc xdrs v = Done (True, v, xdrs') \<and> handle xdrs'
      \<and> out (x_priv xdrs') = out (x_priv xdrs) @ b1 @ b2 \<and> room (x_priv xdrs) \<le> room (x_priv xdrs') + length (b1 @ b2)"
    by (intro exI [of _ x2]) simp
qed (use assms(1,2) in \<open>simp add: encodes_length\<close>)

lemma long_encodes: "encodes xdr_long v (be32 v)"
  by (rule encodes_one_long) (simp add: xdr_long_def)

lemma u_long_encodes: "encodes xdr_u_long v (be32 v)"
  by (rule encodes_one_long) (simp add: xdr_u_long_def)

lemma short_encodes: "encodes xdr_short v (be32 (scast v))"
  by (rule encodes_one_long) (simp add: xdr_short_def)

lemma u_short_encodes: "encodes xdr_u_short v (be32 (ucast v))"
  by (rule encodes_one_long) (simp add: xdr_u_short_def)

lemma bool_encodes: "encodes xdr_bool v (be32 (if v \<noteq> 0 then 1 else 0))"
  by (rule encodes_one_long) (simp add: xdr_bool_def)

lemma char_encodes: "encodes xdr_char v (be32 (scast v))"
proof (rule encodesI)
  fix xdrs assume h: "handle xdrs" and a: "4 dvd length (out (x_priv xdrs))" and r: "length (be32 (scast v)) \<le> room (x_priv xdrs)"
  show "\<exists>xdrs'. xdr_char xdrs v = Done (True, v, xdrs') \<and> handle xdrs'
      \<and> out (x_priv xdrs') = out (x_priv xdrs) @ be32 (scast v)
      \<and> room (x_priv xdrs) \<le> room (x_priv xdrs') + length (be32 (scast v))"
    by (rule encodesD [OF long_encodes h a r]) (auto simp: xdr_char_def xdr_int_def narrow_wide)
qed simp

lemma longlong_encodes: "encodes xdr_longlong_t v (be32 (high_word v) @ be32 (low_word v))"
proof (rule encodes_pair [OF long_encodes long_encodes])
  fix xdrs x1 x2 assume "handle xdrs" "handle x1" "xdr_long xdrs (high_word v) = Done (True, high_word v, x1)"
    "xdr_long x1 (low_word v) = Done (True, low_word v, x2)"
  then show "xdr_longlong_t xdrs v = Done (True, v, x2)"
    using xdr_long_put [of xdrs "high_word v" x1] xdr_long_put [of x1 "low_word v" x2] by (simp add: xdr_longlong_t_def)
qed

lemma opaque_encodes:
  assumes n: "unat cnt \<le> length cp"
  shows "encodes (xdr_opaque cnt) cp (rep_opaque (take (unat cnt) cp))"
proof (rule encodesI)
  fix xdrs assume h: "handle xdrs" and a: "4 dvd length (out (x_priv xdrs))" and r: "length (rep_opaque (take (unat cnt) cp)) \<le> room (x_priv xdrs)"
  let ?n = "unat cnt"
  have len: "length (rep_opaque (take ?n cp)) = ?n + pad ?n"
    using n by (simp add: rep_opaque_def)
  show "\<exists>xdrs'. xdr_opaque cnt xdrs cp = Done (True, cp, xdrs') \<and> handle xdrs'
      \<and> out (x_priv xdrs') = out (x_priv xdrs) @ rep_opaque (take ?n cp)
      \<and> room (x_priv xdrs) \<le> room (x_priv xdrs') + length (rep_opaque (take ?n cp))"
  proof (cases "cnt = 0")
    case True
    with h show ?thesis
      by (simp add: xdr_opaque_def rep_opaque_def pad_def)
  next
    case False
    have "?n \<le> room (x_priv xdrs)"
      using r len by simp
    from XDR_PUTBYTES_ok [OF h this n] obtain x1 where 1: "XDR_PUTBYTES cp cnt xdrs = Done (True, x1)" "handle x1"
      "out (x_priv x1) = out (x_priv xdrs) @ take ?n cp" "room (x_priv xdrs) \<le> room (x_priv x1) + ?n" .
    show ?thesis
    proof (cases "xdr_rndup cnt = 0")
      case True
      with False h 1 show ?thesis
        using rndup_zero [of cnt] n by (simp add: xdr_opaque_def Let_def rep_opaque_def)
    next
      case filler: False
      have "unat (xdr_rndup cnt) \<le> room (x_priv x1)" "unat (xdr_rndup cnt) \<le> length xdr_zero"
        using r len 1(4) pad_bound [of ?n] by (simp_all add: unat_rndup xdr_zero_def BYTES_PER_XDR_UNIT_def)
      from XDR_PUTBYTES_ok [OF 1(2) this] obtain x2 where "XDR_PUTBYTES xdr_zero (xdr_rndup cnt) x1 = Done (True, x2)"
        "handle x2" "out (x_priv x2) = out (x_priv x1) @ take (pad ?n) xdr_zero"
        "room (x_priv x1) \<le> room (x_priv x2) + pad ?n"
        unfolding unat_rndup .
      moreover have "take (pad ?n) xdr_zero = replicate (pad ?n) 0"
        using pad_bound [of ?n] by (simp add: xdr_zero_def BYTES_PER_XDR_UNIT_def)
      ultimately show ?thesis
        using False filler h 1 n by (simp add: xdr_opaque_def Let_def rep_opaque_def)
    qed
  qed
qed (rule length_rep_opaque)

lemma bytes_encodes:
  assumes "unat sz \<le> length bs" and "sz \<le> maxsize"
  shows "encodes (xdr_bytes mem maxsize) (Ptr bs, sz) (be32 sz @ rep_opaque (take (unat sz) bs))"
proof (rule encodes_pair [OF u_long_encodes opaque_encodes [OF assms(1)]])
  fix xdrs x1 x2 assume "handle x1" and "xdr_u_long xdrs sz = Done (True, sz, x1)" "xdr_opaque sz x1 bs = Done (True, bs, x2)"
  then show "xdr_bytes mem maxsize xdrs (Ptr bs, sz) = Done (True, (Ptr bs, sz), x2)"
    using assms(2) by (auto simp: xdr_bytes_def xdr_u_int_def Let_def not_less [symmetric])
qed

lemma string_encodes:
  assumes "0 \<notin> set bs" and "length bs < 2 ^ 32" and "word_of_nat (length bs) \<le> maxsize"
  shows "encodes (xdr_string mem maxsize) (Ptr (bs @ 0 # t)) (rep_bytes bs)"
proof -
  let ?sz = "word_of_nat (length bs) :: 32 word"
  have u: "unat ?sz = length bs"
    using assms(2) by (simp add: unsigned_of_nat take_bit_nat_eq_self)
  have "encodes (xdr_opaque ?sz) (bs @ 0 # t) (rep_opaque bs)"
    using opaque_encodes [of ?sz "bs @ 0 # t"] u by simp
  then show ?thesis
    unfolding rep_bytes_def
  proof (rule encodes_pair [OF u_long_encodes])
    fix xdrs x1 x2 assume "handle xdrs" "handle x1" and "xdr_u_long xdrs ?sz = Done (True, ?sz, x1)"
      "xdr_opaque ?sz x1 (bs @ 0 # t) = Done (True, bs @ 0 # t, x2)"
    then show "xdr_string mem maxsize xdrs (Ptr (bs @ 0 # t)) = Done (True, Ptr (bs @ 0 # t), x2)"
      using assms(3) strlen_append [OF assms(1)] by (auto simp: xdr_string_def xdr_u_int_def Let_def not_less [symmetric])
  qed
qed

lemma array_loop_encodes:
  assumes "length l = c" and "\<And>v. v \<in> set l \<Longrightarrow> encodes elproc v (rep v)"
  shows "encodes (xdr_array_loop elproc c i) l (concat (map rep (drop i l)))"
proof (induction "c - i" arbitrary: i)
  case 0
  then show ?case
    using assms(1) by (simp add: encodes_def xdr_array_loop.simps)
next
  case (Suc k)
  then have i: "i < c" "k = c - Suc i"
    by simp_all
  have "encodes (xdr_array_loop elproc c i) l (rep (l ! i) @ concat (map rep (drop (Suc i) l)))"
  proof (rule encodes_pair [OF assms(2) Suc.hyps(1) [OF i(2)]])
    show "l ! i \<in> set l"
      using i(1) assms(1) by simp
    fix xdrs x1 x2 assume "elproc xdrs (l ! i) = Done (True, l ! i, x1)" "xdr_array_loop elproc c (Suc i) x1 l = Done (True, l, x2)"
    then show "xdr_array_loop elproc c i xdrs l = Done (True, l, x2)"
      using i(1) assms(1) by (subst xdr_array_loop.simps) simp
  qed
  moreover have "drop i l = l ! i # drop (Suc i) l"
    using i(1) assms(1) by (simp add: Cons_nth_drop_Suc)
  ultimately show ?case by simp
qed

lemma array_encodes:
  assumes "length l = unat c" and "c \<le> maxsize" and "\<And>v. v \<in> set l \<Longrightarrow> encodes elproc v (rep v)"
  shows "encodes (xdr_array maxsize elsize zero elproc) (Ptr l, c) (be32 c @ concat (map rep l))"
proof -
  have "encodes (xdr_array_loop elproc (unat c) 0) l (concat (map rep l))"
    using array_loop_encodes [OF assms(1,3), of 0] by simp
  then show ?thesis
  proof (rule encodes_pair [OF u_long_encodes])
    fix xdrs x1 x2 assume "handle x1" "handle x2" and "xdr_u_long xdrs c = Done (True, c, x1)"
      "xdr_array_loop elproc (unat c) 0 x1 l = Done (True, l, x2)"
    moreover have "\<not> maxsize < c"
      using assms(2) by simp
    ultimately show "xdr_array maxsize elsize zero elproc xdrs (Ptr l, c) = Done (True, (Ptr l, c), x2)"
      by (simp add: xdr_array_def xdr_u_int_def Let_def)
  qed
qed

lemma pointer_encodes:
  "encodes (xdr_pointer zero proc) Null (be32 0)"
  "encodes proc v bs \<Longrightarrow> encodes (xdr_pointer zero proc) (Ptr v) (be32 1 @ bs)"
proof -
  show "encodes (xdr_pointer zero proc) Null (be32 0)"
  proof (rule encodesI)
    fix xdrs assume h: "handle xdrs" and a: "4 dvd length (out (x_priv xdrs))" and r: "length (be32 0) \<le> room (x_priv xdrs)"
    have b: "encodes xdr_bool 0 (be32 0)"
      using bool_encodes [of 0] by simp
    show "\<exists>xdrs'. xdr_pointer zero proc xdrs Null = Done (True, Null, xdrs') \<and> handle xdrs'
        \<and> out (x_priv xdrs') = out (x_priv xdrs) @ be32 0 \<and> room (x_priv xdrs) \<le> room (x_priv xdrs') + length (be32 0)"
      by (rule encodesD [OF b h a r]) (simp add: xdr_pointer_def)
  qed simp
  assume v: "encodes proc v bs"
  have "encodes xdr_bool 1 (be32 1)"
    using bool_encodes [of 1] by simp
  then show "encodes (xdr_pointer zero proc) (Ptr v) (be32 1 @ bs)"
    by (rule encodes_pair [OF _ v]) (simp add: xdr_pointer_def xdr_reference_def Let_def)
qed

lemma union_encodes:
  assumes "find_choice d choices = Some proc \<or> find_choice d choices = None \<and> dfault = Some proc" and "encodes proc v bs"
  shows "encodes (xdr_union choices dfault) (d, v) (be32 d @ bs)"
  by (rule encodes_pair [OF long_encodes assms(2)]) (use assms(1) in \<open>auto simp: xdr_union_def xdr_enum_def\<close>)

end

section \<open>Reading from a stream\<close>

text \<open>
  \<open>inp s\<close> are the bytes that can still be got; longs are got at the beginning of a unit of four
  bytes only, \<open>phase s\<close> is the position in the unit.
\<close>

locale xdr_source =
  fixes ops :: "'s xdr_ops" and inv :: "'s \<Rightarrow> bool" and inp :: "'s \<Rightarrow> byte list" and phase :: "'s \<Rightarrow> nat"
  assumes getlong: "inv s \<Longrightarrow> phase s = 0 \<Longrightarrow> inp s = be32 v @ rest \<Longrightarrow>
      \<exists>s'. x_getlong ops s = Done (Some v, s') \<and> inv s' \<and> inp s' = rest \<and> phase s' = 0"
    and getbytes: "inv s \<Longrightarrow> inp s = data @ rest \<Longrightarrow> length data = unat len \<Longrightarrow> unat len \<le> length buf \<Longrightarrow>
      \<exists>s'. x_getbytes ops buf len s = Done (True, data @ drop (unat len) buf, s') \<and> inv s' \<and> inp s' = rest
         \<and> phase s' = (phase s + unat len) mod 4"
    and getlong_short: "inv s \<Longrightarrow> phase s = 0 \<Longrightarrow> length (inp s) < 4 \<Longrightarrow> \<exists>s'. x_getlong ops s = Done (None, s')"
    and getbytes_short: "inv s \<Longrightarrow> length (inp s) < unat len \<Longrightarrow> unat len < 2 ^ 31 \<Longrightarrow> unat len \<le> length buf \<Longrightarrow>
      \<exists>buf' s'. x_getbytes ops buf len s = Done (False, buf', s')"
begin

text \<open>A handle that decodes from such a stream.\<close>

definition handle :: "'s xdr \<Rightarrow> bool" where
  "handle xdrs \<longleftrightarrow> x_op xdrs = XDR_DECODE \<and> x_ops xdrs = ops \<and> inv (x_priv xdrs)"

lemma handleD: "handle xdrs \<Longrightarrow> inv (x_priv xdrs)" "handle xdrs \<Longrightarrow> x_ops xdrs = ops"
  and handle_op [simp]: "handle xdrs \<Longrightarrow> x_op xdrs = XDR_DECODE"
  by (simp_all add: handle_def)

text \<open>\<open>proc\<close> decodes \<open>bs\<close> into a variable with value \<open>v0\<close> as \<open>v\<close>.\<close>

definition decodes :: "('s, 'a) xdrproc \<Rightarrow> 'a \<Rightarrow> byte list \<Rightarrow> 'a \<Rightarrow> bool" where
  "decodes proc v0 bs v \<longleftrightarrow> (\<forall>xdrs rest. handle xdrs \<longrightarrow> phase (x_priv xdrs) = 0 \<longrightarrow> inp (x_priv xdrs) = bs @ rest \<longrightarrow>
     (\<exists>xdrs'. proc xdrs v0 = Done (True, v, xdrs') \<and> handle xdrs' \<and> phase (x_priv xdrs') = 0 \<and> inp (x_priv xdrs') = rest))"

lemma decodesD:
  assumes "decodes proc v0 bs v" and "handle xdrs" and "phase (x_priv xdrs) = 0" and "inp (x_priv xdrs) = bs @ rest"
  obtains xdrs' where "proc xdrs v0 = Done (True, v, xdrs')" "handle xdrs'" "phase (x_priv xdrs') = 0" "inp (x_priv xdrs') = rest"
  using assms unfolding decodes_def by blast

lemma XDR_GETLONG_ok:
  assumes "handle xdrs" and "phase (x_priv xdrs) = 0" and "inp (x_priv xdrs) = be32 v @ rest"
  obtains xdrs' where "XDR_GETLONG xdrs = Done (Some v, xdrs')" "handle xdrs'" "phase (x_priv xdrs') = 0" "inp (x_priv xdrs') = rest"
proof -
  obtain s' where "x_getlong ops (x_priv xdrs) = Done (Some v, s')" "inv s'" "inp s' = rest" "phase s' = 0"
    using getlong [OF _ assms(2,3)] assms(1) by (auto simp: handle_def)
  with assms(1) show thesis
    by (intro that [of "xdrs\<lparr>x_priv := s'\<rparr>"]) (simp_all add: XDR_GETLONG_def handle_def)
qed

lemma XDR_GETBYTES_ok:
  assumes "handle xdrs" and "inp (x_priv xdrs) = data @ rest" and "length data = unat len" and "unat len \<le> length buf"
  obtains xdrs' where "XDR_GETBYTES buf len xdrs = Done (True, data @ drop (unat len) buf, xdrs')" "handle xdrs'"
    "inp (x_priv xdrs') = rest" "phase (x_priv xdrs') = (phase (x_priv xdrs) + unat len) mod 4"
proof -
  obtain s' where "x_getbytes ops buf len (x_priv xdrs) = Done (True, data @ drop (unat len) buf, s')" "inv s'" "inp s' = rest"
    "phase s' = (phase (x_priv xdrs) + unat len) mod 4"
    using getbytes [OF _ assms(2-4)] assms(1) by (auto simp: handle_def)
  with assms(1) show thesis
    by (intro that [of "xdrs\<lparr>x_priv := s'\<rparr>"]) (simp_all add: XDR_GETBYTES_def handle_def)
qed

lemma decodes_one_long:
  assumes "\<And>xdrs. x_op xdrs = XDR_DECODE \<Longrightarrow> proc xdrs v0 = bind_outcome (XDR_GETLONG xdrs)
      (\<lambda>(r, xdrs). Done (case r of None \<Rightarrow> (False, v0, xdrs) | Some x \<Rightarrow> (True, f x, xdrs)))"
  shows "decodes proc v0 (be32 w) (f w)"
  unfolding decodes_def
proof (intro allI impI)
  fix xdrs rest assume h: "handle xdrs" and p: "phase (x_priv xdrs) = 0" and i: "inp (x_priv xdrs) = be32 w @ rest"
  obtain xdrs' where "XDR_GETLONG xdrs = Done (Some w, xdrs')" "handle xdrs'" "phase (x_priv xdrs') = 0" "inp (x_priv xdrs') = rest"
    using XDR_GETLONG_ok [OF h p i] .
  then show "\<exists>xdrs'. proc xdrs v0 = Done (True, f w, xdrs') \<and> handle xdrs' \<and> phase (x_priv xdrs') = 0 \<and> inp (x_priv xdrs') = rest"
    using assms [of xdrs] h by simp
qed

lemma decodes_pair:
  assumes "decodes p1 u1 b1 v1" and "decodes p2 u2 b2 v2"
    and "\<And>xdrs x1 x2. handle xdrs \<Longrightarrow> handle x1 \<Longrightarrow> handle x2 \<Longrightarrow>
       p1 xdrs u1 = Done (True, v1, x1) \<Longrightarrow> p2 x1 u2 = Done (True, v2, x2) \<Longrightarrow> proc xdrs u = Done (True, v, x2)"
  shows "decodes proc u (b1 @ b2) v"
  unfolding decodes_def
proof (intro allI impI)
  fix xdrs rest assume h: "handle xdrs" and p: "phase (x_priv xdrs) = 0" and i: "inp (x_priv xdrs) = (b1 @ b2) @ rest"
  have "inp (x_priv xdrs) = b1 @ (b2 @ rest)"
    using i by simp
  from decodesD [OF assms(1) h p this] obtain x1 where 1: "p1 xdrs u1 = Done (True, v1, x1)" "handle x1" "phase (x_priv x1) = 0"
    "inp (x_priv x1) = b2 @ rest" .
  from decodesD [OF assms(2) 1(2-4)] obtain x2 where 2: "p2 x1 u2 = Done (True, v2, x2)" "handle x2" "phase (x_priv x2) = 0"
    "inp (x_priv x2) = rest" .
  have "proc xdrs u = Done (True, v, x2)"
    by (rule assms(3) [OF h 1(2) 2(2) 1(1) 2(1)])
  with 2 show "\<exists>xdrs'. proc xdrs u = Done (True, v, xdrs') \<and> handle xdrs' \<and> phase (x_priv xdrs') = 0 \<and> inp (x_priv xdrs') = rest"
    by blast
qed

lemma long_decodes: "decodes xdr_long v0 (be32 v) v"
  by (rule decodes_one_long) (simp add: xdr_long_def)

lemma u_long_decodes: "decodes xdr_u_long v0 (be32 v) v"
  by (rule decodes_one_long) (simp add: xdr_u_long_def)

lemma short_decodes: "decodes xdr_short v0 (be32 (scast v)) v"
proof -
  have "decodes xdr_short v0 (be32 (scast v)) (ucast (scast v :: 32 word))"
    by (rule decodes_one_long) (simp add: xdr_short_def)
  then show ?thesis
    by (simp add: narrow_wide)
qed

lemma u_short_decodes: "decodes xdr_u_short v0 (be32 (ucast v)) v"
proof -
  have "decodes xdr_u_short v0 (be32 (ucast v)) (ucast (ucast v :: 32 word))"
    by (rule decodes_one_long) (simp add: xdr_u_short_def)
  then show ?thesis
    by (simp add: narrow_wide)
qed

lemma bool_decodes: "decodes xdr_bool v0 (be32 w) (if w = 0 then 0 else 1)"
  by (rule decodes_one_long) (simp add: xdr_bool_def)

lemma char_decodes: "decodes xdr_char v0 (be32 (scast v)) v"
  unfolding decodes_def
proof (intro allI impI)
  fix xdrs rest assume h: "handle xdrs" and p: "phase (x_priv xdrs) = 0" and i: "inp (x_priv xdrs) = be32 (scast v) @ rest"
  show "\<exists>xdrs'. xdr_char xdrs v0 = Done (True, v, xdrs') \<and> handle xdrs' \<and> phase (x_priv xdrs') = 0 \<and> inp (x_priv xdrs') = rest"
    by (rule decodesD [OF long_decodes [of "scast v0"] h p i]) (simp add: xdr_char_def xdr_int_def narrow_wide)
qed

lemma longlong_decodes: "decodes xdr_longlong_t v0 (be32 (high_word v) @ be32 (low_word v)) v"
proof (rule decodes_pair [OF long_decodes long_decodes])
  fix xdrs x1 x2 assume "handle xdrs" "handle x1" "xdr_long xdrs 0 = Done (True, high_word v, x1)"
    "xdr_long x1 0 = Done (True, low_word v, x2)"
  then show "xdr_longlong_t xdrs v0 = Done (True, v, x2)"
    using xdr_long_get [of xdrs 0 "high_word v" x1] xdr_long_get [of x1 0 "low_word v" x2] by (simp add: xdr_longlong_t_def word_parts)
qed

text \<open>What the filler bytes are does not matter when they are read.\<close>

lemma opaque_decodes:
  assumes n: "length data = unat cnt" "unat cnt \<le> length cp" and f: "length filler = pad (unat cnt)"
  shows "decodes (xdr_opaque cnt) cp (data @ filler) (data @ drop (unat cnt) cp)"
  unfolding decodes_def
proof (intro allI impI)
  fix xdrs rest assume h: "handle xdrs" and p: "phase (x_priv xdrs) = 0" and i: "inp (x_priv xdrs) = (data @ filler) @ rest"
  let ?n = "unat cnt"
  show "\<exists>xdrs'. xdr_opaque cnt xdrs cp = Done (True, data @ drop ?n cp, xdrs') \<and> handle xdrs' \<and> phase (x_priv xdrs') = 0
      \<and> inp (x_priv xdrs') = rest"
  proof (cases "cnt = 0")
    case True
    with h i p n f show ?thesis
      by (simp add: xdr_opaque_def pad_def)
  next
    case False
    have "inp (x_priv xdrs) = data @ (filler @ rest)"
      using i by simp
    from XDR_GETBYTES_ok [OF h this n] obtain x1 where 1: "XDR_GETBYTES cp cnt xdrs = Done (True, data @ drop ?n cp, x1)"
      "handle x1" "inp (x_priv x1) = filler @ rest" "phase (x_priv x1) = ?n mod 4"
      using p by auto
    show ?thesis
    proof (cases "xdr_rndup cnt = 0")
      case True
      then have "?n mod 4 = 0" "filler = []"
        using rndup_zero [of cnt] pad_phase [of ?n] f by simp_all
      with False True h 1 show ?thesis
        by (simp add: xdr_opaque_def Let_def)
    next
      case False': False
      have "length filler = unat (xdr_rndup cnt)" "unat (xdr_rndup cnt) \<le> length crud"
        using f pad_bound [of ?n] by (simp_all add: unat_rndup crud_def BYTES_PER_XDR_UNIT_def)
      from XDR_GETBYTES_ok [OF 1(2,3) this] obtain x2 where
        "XDR_GETBYTES crud (xdr_rndup cnt) x1 = Done (True, filler @ drop (unat (xdr_rndup cnt)) crud, x2)"
        "handle x2" "inp (x_priv x2) = rest" "phase (x_priv x2) = (phase (x_priv x1) + pad ?n) mod 4"
        unfolding unat_rndup .
      moreover have "(?n mod 4 + pad ?n) mod 4 = 0"
        using pad_phase [of ?n] by (simp add: mod_add_left_eq)
      ultimately show ?thesis
        using False False' h 1 by (simp add: xdr_opaque_def Let_def)
    qed
  qed
qed

lemma opaque_short:
  assumes h: "handle xdrs" and short: "length (inp (x_priv xdrs)) < unat cnt + pad (unat cnt)"
    and n: "unat cnt \<le> length cp" "unat cnt < 2 ^ 31"
  shows "\<exists>cp' xdrs'. xdr_opaque cnt xdrs cp = Done (False, cp', xdrs')"
proof -
  let ?n = "unat cnt"
  have cnt: "cnt \<noteq> 0"
  proof
    assume "cnt = 0"
    moreover have "pad 0 = 0"
      by (simp add: pad_def)
    ultimately show False
      using short by simp
  qed
  note inv = handleD [OF h]
  show ?thesis
  proof (cases "length (inp (x_priv xdrs)) < ?n")
    case True
    obtain cp' s' where "x_getbytes ops cp cnt (x_priv xdrs) = Done (False, cp', s')"
      using getbytes_short [OF inv(1) True n(2,1)] by blast
    then have "xdr_opaque cnt xdrs cp = Done (False, cp', xdrs\<lparr>x_priv := s'\<rparr>)"
      using cnt inv(2) h by (simp add: xdr_opaque_def XDR_GETBYTES_def Let_def)
    then show ?thesis by blast
  next
    case False
    then have "inp (x_priv xdrs) = take ?n (inp (x_priv xdrs)) @ drop ?n (inp (x_priv xdrs))" "length (take ?n (inp (x_priv xdrs))) = ?n"
      by simp_all
    from XDR_GETBYTES_ok [OF h this n(1)] obtain x1 where 1: "XDR_GETBYTES cp cnt xdrs = Done (True, take ?n (inp (x_priv xdrs)) @ drop ?n cp, x1)"
      "handle x1" "inp (x_priv x1) = drop ?n (inp (x_priv xdrs))" by blast
    have s: "length (inp (x_priv x1)) < unat (xdr_rndup cnt)" "unat (xdr_rndup cnt) < 2 ^ 31" "unat (xdr_rndup cnt) \<le> length crud"
      using short False 1(3) pad_bound [of ?n] by (simp_all add: unat_rndup crud_def BYTES_PER_XDR_UNIT_def)
    then have "xdr_rndup cnt \<noteq> 0"
      by auto
    moreover obtain b' s' where "x_getbytes ops crud (xdr_rndup cnt) (x_priv x1) = Done (False, b', s')"
      using getbytes_short [OF handleD(1) [OF 1(2)] s] by blast
    ultimately show ?thesis
      using 1(1) cnt h handleD(2) [OF 1(2)] by (simp add: xdr_opaque_def XDR_GETBYTES_def [of crud] Let_def)
  qed
qed

lemma bytes_decodes:
  assumes "length bs = unat sz" and "0 < sz" and "sz \<le> maxsize" and "length filler = pad (unat sz)"
    and "p = Null \<and> buf = mem (unat sz) \<or> p = Ptr buf" and "unat sz \<le> length buf"
  shows "decodes (xdr_bytes mem maxsize) (p, z) (be32 sz @ bs @ filler) (Ptr (bs @ drop (unat sz) buf), sz)"
proof (rule decodes_pair [OF u_long_decodes opaque_decodes [OF assms(1,6,4)]])
  fix xdrs x1 x2 assume "handle x1" and "xdr_u_long xdrs z = Done (True, sz, x1)"
    "xdr_opaque sz x1 buf = Done (True, bs @ drop (unat sz) buf, x2)"
  then show "xdr_bytes mem maxsize xdrs (p, z) = Done (True, (Ptr (bs @ drop (unat sz) buf), sz), x2)"
    using assms(2,3,5) by (auto simp: xdr_bytes_def xdr_u_int_def Let_def)
qed

lemma string_decodes:
  assumes "0 \<notin> set bs" and n: "length bs = unat sz" and "sz \<le> maxsize" and "sz + 1 \<noteq> 0" and f: "length filler = pad (unat sz)"
    and p: "p = Null \<and> buf = mem (unat (sz + 1)) \<or> p = Ptr buf" and "unat sz < length buf"
  shows "decodes (xdr_string mem maxsize) p (be32 sz @ bs @ filler) (Ptr (bs @ 0 # drop (Suc (unat sz)) buf))"
proof -
  let ?n = "unat sz"
  have d: "drop ?n (buf[?n := 0]) = 0 # drop (Suc ?n) buf"
    using assms(7) by (simp add: Cons_nth_drop_Suc [symmetric])
  have "decodes (xdr_opaque sz) (buf[?n := 0]) (bs @ filler) (bs @ 0 # drop (Suc ?n) buf)"
    using opaque_decodes [OF n _ f, of "buf[?n := 0]"] assms(7) by (simp add: d)
  then show ?thesis
  proof (rule decodes_pair [OF u_long_decodes [of 0]])
    fix xdrs x1 x2 assume h: "handle xdrs" "handle x1" and 1: "xdr_u_long xdrs 0 = Done (True, sz, x1)"
      and 2: "xdr_opaque sz x1 (buf[?n := 0]) = Done (True, bs @ 0 # drop (Suc ?n) buf, x2)"
    have sp: "bytes_at (if p = Null then Ptr (mem (unat (sz + 1))) else p) = buf"
      using p by auto
    have "strlen (bs @ 0 # drop (Suc ?n) buf) = Some ?n" "\<not> maxsize < sz" "\<not> length buf \<le> ?n"
      using strlen_append [OF assms(1)] n assms(3,7) by simp_all
    then show "xdr_string mem maxsize xdrs p = Done (True, Ptr (bs @ 0 # drop (Suc ?n) buf), x2)"
      unfolding xdr_string_def xdr_u_int_def Let_def sp handle_op [OF h(1)] using 1 2 assms(4) handle_op [OF h(2)] sp by simp
  qed
qed

lemma array_loop_decodes:
  assumes "length l = length vs" and "take i l = take i vs"
    and "\<And>j. i \<le> j \<Longrightarrow> j < length vs \<Longrightarrow> decodes elproc (l ! j) (rep (vs ! j)) (vs ! j)"
  shows "decodes (xdr_array_loop elproc (length vs) i) l (concat (map rep (drop i vs))) vs"
  using assms
proof (induction "length vs - i" arbitrary: i l)
  case 0
  then show ?case
    by (simp add: decodes_def xdr_array_loop.simps)
next
  case (Suc k)
  then have i: "i < length vs" "k = length vs - Suc i"
    by simp_all
  let ?l = "l[i := vs ! i]"
  have "take (Suc i) ?l = take (Suc i) vs"
    using Suc.prems(1,2) i(1) by (simp add: take_Suc_conv_app_nth)
  then have IH: "decodes (xdr_array_loop elproc (length vs) (Suc i)) ?l (concat (map rep (drop (Suc i) vs))) vs"
    using Suc.prems(1,3) by (intro Suc.hyps(1) [OF i(2)]) auto
  have "decodes (xdr_array_loop elproc (length vs) i) l (rep (vs ! i) @ concat (map rep (drop (Suc i) vs))) vs"
  proof (rule decodes_pair [OF Suc.prems(3) IH])
    fix xdrs x1 x2 assume "elproc xdrs (l ! i) = Done (True, vs ! i, x1)"
      "xdr_array_loop elproc (length vs) (Suc i) x1 ?l = Done (True, vs, x2)"
    then show "xdr_array_loop elproc (length vs) i xdrs l = Done (True, vs, x2)"
      using i(1) Suc.prems(1) by (subst xdr_array_loop.simps) simp
  qed (use i(1) in simp_all)
  moreover have "drop i vs = vs ! i # drop (Suc i) vs"
    using i(1) by (simp add: Cons_nth_drop_Suc)
  ultimately show ?case by simp
qed

lemma array_decodes:
  assumes "length l = unat c" and "0 < c" and "c \<le> maxsize" and "unat c * unat elsize < 2 ^ 32" and "0 < elsize"
    and "\<And>v. v \<in> set l \<Longrightarrow> decodes elproc zero (rep v) v"
  shows "decodes (xdr_array maxsize elsize zero elproc) (Null, z) (be32 c @ concat (map rep l)) (Ptr l, c)"
proof -
  have "unat (c * elsize) = unat c * unat elsize"
    using assms(4) by (simp add: unat_word_ariths)
  moreover have "0 < unat elsize"
    using assms(5) by (simp add: word_less_nat_alt)
  ultimately have fit: "unat (c * elsize) div unat elsize = unat c"
    by simp
  have "decodes (xdr_array_loop elproc (length l) 0) (replicate (unat c) zero) (concat (map rep (drop 0 l))) l"
    using assms(1,6) by (intro array_loop_decodes) simp_all
  then have "decodes (xdr_array_loop elproc (unat c) 0) (replicate (unat c) zero) (concat (map rep l)) l"
    using assms(1) by simp
  then show ?thesis
  proof (rule decodes_pair [OF u_long_decodes [of z]])
    fix xdrs x1 x2 assume "handle x1" "handle x2" and "xdr_u_long xdrs z = Done (True, c, x1)"
      "xdr_array_loop elproc (unat c) 0 x1 (replicate (unat c) zero) = Done (True, l, x2)"
    moreover have "\<not> maxsize < c" "c \<noteq> 0"
      using assms(2,3) by auto
    ultimately show "xdr_array maxsize elsize zero elproc xdrs (Null, z) = Done (True, (Ptr l, c), x2)"
      by (simp add: xdr_array_def xdr_u_int_def Let_def fit)
  qed
qed

lemma pointer_decodes:
  "decodes (xdr_pointer zero proc) Null (be32 0) Null"
  "decodes proc zero bs v \<Longrightarrow> decodes (xdr_pointer zero proc) Null (be32 1 @ bs) (Ptr v)"
proof -
  show "decodes (xdr_pointer zero proc) Null (be32 0) Null"
    unfolding decodes_def
  proof (intro allI impI)
    fix xdrs rest assume h: "handle xdrs" and p: "phase (x_priv xdrs) = 0" and i: "inp (x_priv xdrs) = be32 0 @ rest"
    have b: "decodes xdr_bool 0 (be32 0) 0"
      using bool_decodes [of 0 0] by simp
    show "\<exists>xdrs'. xdr_pointer zero proc xdrs Null = Done (True, Null, xdrs') \<and> handle xdrs' \<and> phase (x_priv xdrs') = 0
        \<and> inp (x_priv xdrs') = rest"
      by (rule decodesD [OF b h p i]) (simp add: xdr_pointer_def)
  qed
  assume v: "decodes proc zero bs v"
  have "decodes xdr_bool 0 (be32 1) 1"
    using bool_decodes [of 0 1] by simp
  then show "decodes (xdr_pointer zero proc) Null (be32 1 @ bs) (Ptr v)"
    by (rule decodes_pair [OF _ v]) (simp add: xdr_pointer_def xdr_reference_def Let_def)
qed

lemma union_decodes:
  assumes "find_choice d choices = Some proc \<or> find_choice d choices = None \<and> dfault = Some proc" and "decodes proc v0 bs v"
  shows "decodes (xdr_union choices dfault) (d0, v0) (be32 d @ bs) (d, v)"
  by (rule decodes_pair [OF long_decodes [of d0] assms(2)]) (use assms(1) in \<open>auto simp: xdr_union_def xdr_enum_def\<close>)

text \<open>
  Decoding into a null pointer from any input: a value within the limit that is a prefix of
  the input, or a failure; never memory outside the input or the allocated bytes.
\<close>

lemma bytes_total:
  assumes h: "handle xdrs" and p: "phase (x_priv xdrs) = 0" and mem: "\<And>n. length (mem n) = n" and max: "maxsize < 2 ^ 31"
  shows "\<exists>ok p sz xdrs'. xdr_bytes mem maxsize xdrs (Null, z) = Done (ok, (p, sz), xdrs') \<and>
     (ok \<longrightarrow> sz \<le> maxsize \<and> handle xdrs' \<and> (\<exists>bs filler. length bs = unat sz \<and> length filler = pad (unat sz)
        \<and> p = (if sz = 0 then Null else Ptr bs) \<and> inp (x_priv xdrs) = be32 sz @ bs @ filler @ inp (x_priv xdrs')))"
proof (cases "length (inp (x_priv xdrs)) < 4")
  case True
  obtain s' where "x_getlong ops (x_priv xdrs) = Done (None, s')"
    using getlong_short [OF handleD(1) [OF h] p True] by blast
  then have "xdr_bytes mem maxsize xdrs (Null, z) = Done (False, (Null, z), xdrs\<lparr>x_priv := s'\<rparr>)"
    using handleD [OF h] h by (simp add: xdr_bytes_def xdr_u_int_def xdr_u_long_def XDR_GETLONG_def)
  then show ?thesis by blast
next
  case False
  define sz where "sz = of_be32 (take 4 (inp (x_priv xdrs)))"
  define rest where "rest = drop 4 (inp (x_priv xdrs))"
  let ?n = "unat sz"
  have i: "inp (x_priv xdrs) = be32 sz @ rest"
    using False by (simp add: sz_def rest_def be32_of_be32)
  from decodesD [OF u_long_decodes [of z] h p i] obtain x1 where 1: "xdr_u_long xdrs z = Done (True, sz, x1)"
    "handle x1" "inp (x_priv x1) = rest" .
  note op = handle_op [OF 1(2)]
  consider "sz > maxsize" | "sz \<le> maxsize" "sz = 0" | "sz \<le> maxsize" "sz \<noteq> 0" "length rest < ?n + pad ?n"
    | "sz \<le> maxsize" "sz \<noteq> 0" "?n + pad ?n \<le> length rest"
    by fastforce
  then show ?thesis
  proof cases
    case 1
    then have "xdr_bytes mem maxsize xdrs (Null, z) = Done (False, (Null, sz), x1)"
      using \<open>xdr_u_long xdrs z = _\<close> op by (simp add: xdr_bytes_def xdr_u_int_def Let_def)
    then show ?thesis by blast
  next
    case 2
    then have "xdr_bytes mem maxsize xdrs (Null, z) = Done (True, (Null, sz), x1)"
      using 1 op by (simp add: xdr_bytes_def xdr_u_int_def Let_def)
    then show ?thesis
      using 1 2 i by (auto simp: pad_def)
  next
    case 3
    have "?n < 2 ^ 31"
      using 3(1) max by (simp add: word_le_nat_alt word_less_nat_alt)
    moreover have "?n \<le> length (mem ?n)"
      by (simp add: mem)
    ultimately obtain cp' x2 where "xdr_opaque sz x1 (mem ?n) = Done (False, cp', x2)"
      using opaque_short [OF 1(2)] 3(3) 1(3) by blast
    then have "xdr_bytes mem maxsize xdrs (Null, z) = Done (False, (Ptr cp', sz), x2)"
      using 1(1) 3 op by (simp add: xdr_bytes_def xdr_u_int_def Let_def)
    then show ?thesis by blast
  next
    case 4
    define bs where "bs = take ?n rest"
    define filler where "filler = take (pad ?n) (drop ?n rest)"
    define rest' where "rest' = drop (pad ?n) (drop ?n rest)"
    have l: "length bs = ?n" "length filler = pad ?n"
      using 4(3) by (simp_all add: bs_def filler_def)
    have r: "rest = (bs @ filler) @ rest'"
      by (simp only: bs_def filler_def rest'_def append_assoc append_take_drop_id)
    have "0 < sz"
      using 4(2) by (simp add: word_neq_0_conv)
    from decodesD [OF bytes_decodes [OF l(1) this 4(1) l(2) disjI1, of Null "mem ?n" mem z] h p, of rest'] obtain x2 where
      "xdr_bytes mem maxsize xdrs (Null, z) = Done (True, (Ptr (bs @ drop ?n (mem ?n)), sz), x2)"
      "handle x2" "inp (x_priv x2) = rest'"
      using i r mem by auto
    then show ?thesis
      using 4 l i r mem by auto
  qed
qed

text \<open>
  A string whose bytes on the wire contain a 0 is refused; memory that the caller passed is freed
  then, and the caller's pointer still points to it.
\<close>

lemma string_frees_caller:
  assumes h: "handle xdrs" and p: "phase (x_priv xdrs) = 0" and i: "inp (x_priv xdrs) = be32 sz @ bs @ filler @ rest"
    and n: "length bs = unat sz" "0 \<in> set bs" and f: "length filler = pad (unat sz)"
    and "sz \<le> maxsize" and "sz + 1 \<noteq> 0" and "unat sz < length buf"
  shows "\<exists>xdrs'. xdr_string mem maxsize xdrs (Ptr buf) = Done (False, Dangling, xdrs')"
proof -
  let ?n = "unat sz"
  from decodesD [OF u_long_decodes [of 0] h p i] obtain x1 where 1: "xdr_u_long xdrs 0 = Done (True, sz, x1)"
    "handle x1" "phase (x_priv x1) = 0" "inp (x_priv x1) = bs @ filler @ rest" .
  have "inp (x_priv x1) = (bs @ filler) @ rest"
    using 1(4) by simp
  from decodesD [OF opaque_decodes [OF n(1) _ f, of "buf[?n := 0]"] 1(2,3) this] obtain x2 where
    2: "xdr_opaque sz x1 (buf[?n := 0]) = Done (True, bs @ drop ?n (buf[?n := 0]), x2)"
    using assms(9) by auto
  have "strlen (bs @ drop ?n (buf[?n := 0])) \<noteq> Some ?n" "\<not> maxsize < sz" "\<not> length buf \<le> ?n"
    using strlen_early [OF n(2), of "drop ?n (buf[?n := 0])"] n(1) assms(7,9) by auto
  then show ?thesis
    unfolding xdr_string_def xdr_u_int_def Let_def handle_op [OF h] using 1(1) 2 assms(8) handle_op [OF 1(2)] by simp
qed

end

section \<open>Access in line\<close>

text \<open>
  A stream may let the caller write a number of bytes at an address instead of putting them:
  \<open>win s a p n\<close> says that the \<open>n\<close> bytes at the address \<open>a\<close> are those at the position \<open>p\<close> of the output.
  They are part of the output at once, with whatever they hold.
\<close>

locale xdr_inline_sink = xdr_sink +
  fixes win :: "'a \<Rightarrow> 32 word \<Rightarrow> nat \<Rightarrow> nat \<Rightarrow> bool"
  assumes inline_put: "inv s \<Longrightarrow> unat len < 2 ^ 31 \<Longrightarrow> x_inline ops len s = (r, s') \<Longrightarrow>
      (case r of
         None \<Rightarrow> s' = s
       | Some a \<Rightarrow> inv s' \<and> room s \<le> room s' + unat len \<and> (\<exists>old. length old = unat len \<and> out s' = out s @ old)
           \<and> win s' a (length (out s)) (unat len))"
    and inline_store: "inv s \<Longrightarrow> win s a p n \<Longrightarrow> i + length bs \<le> n \<Longrightarrow>
      \<exists>s'. x_store ops (a + word_of_nat i) bs s = Done s' \<and> inv s' \<and> room s' = room s
         \<and> out s' = take (p + i) (out s) @ bs @ drop (p + i + length bs) (out s) \<and> win s' a p n"
begin

text \<open>
  \<open>cursor xdrs buf pre w k\<close>: of the bytes in line, behind the output \<open>pre\<close>, the first have been written
  as \<open>w\<close>, and \<open>k\<close> are left to be written at \<open>buf\<close>.
\<close>

definition cursor :: "'a xdr \<Rightarrow> 32 word \<Rightarrow> byte list \<Rightarrow> byte list \<Rightarrow> nat \<Rightarrow> bool" where
  "cursor xdrs buf pre w k \<longleftrightarrow> handle xdrs \<and> (\<exists>a old. win (x_priv xdrs) a (length pre) (length w + k)
     \<and> buf = a + word_of_nat (length w) \<and> length old = k \<and> out (x_priv xdrs) = pre @ w @ old)"

lemma XDR_INLINE_put:
  assumes "handle xdrs" and "unat len < 2 ^ 31"
  obtains "XDR_INLINE len xdrs = (None, xdrs)"
  | buf xdrs' where "XDR_INLINE len xdrs = (Some buf, xdrs')" "cursor xdrs' buf (out (x_priv xdrs)) [] (unat len)"
      "room (x_priv xdrs) \<le> room (x_priv xdrs') + unat len"
proof -
  obtain r s' where i: "x_inline ops len (x_priv xdrs) = (r, s')"
    by fastforce
  have "case r of None \<Rightarrow> s' = x_priv xdrs | Some a \<Rightarrow> inv s' \<and> room (x_priv xdrs) \<le> room s' + unat len
      \<and> (\<exists>old. length old = unat len \<and> out s' = out (x_priv xdrs) @ old) \<and> win s' a (length (out (x_priv xdrs))) (unat len)"
    using inline_put [OF handleD(1) [OF assms(1)] assms(2) i] .
  then show thesis
    using i assms(1) that by (cases r) (auto simp: XDR_INLINE_def handle_def cursor_def)
qed

lemma cursor_put:
  assumes "cursor xdrs buf pre w k" and "length bs \<le> k"
  obtains s' where "x_store (x_ops xdrs) buf bs (x_priv xdrs) = Done s'"
    "cursor (xdrs\<lparr>x_priv := s'\<rparr>) (buf + word_of_nat (length bs)) pre (w @ bs) (k - length bs)" "room s' = room (x_priv xdrs)"
proof -
  obtain a old where c: "handle xdrs" "win (x_priv xdrs) a (length pre) (length w + k)" "buf = a + word_of_nat (length w)"
    "length old = k" "out (x_priv xdrs) = pre @ w @ old"
    using assms(1) by (auto simp: cursor_def)
  obtain s' where s': "x_store ops buf bs (x_priv xdrs) = Done s'" "inv s'" "room s' = room (x_priv xdrs)"
    "out s' = take (length pre + length w) (out (x_priv xdrs)) @ bs @ drop (length pre + length w + length bs) (out (x_priv xdrs))"
    "win s' a (length pre) (length w + k)"
    using inline_store [OF handleD(1) [OF c(1)] c(2), of "length w" bs] assms(2) c(3) by auto
  have "out s' = pre @ (w @ bs) @ drop (length bs) old"
    using s'(4) c(5) by simp
  then have "cursor (xdrs\<lparr>x_priv := s'\<rparr>) (buf + word_of_nat (length bs)) pre (w @ bs) (k - length bs)"
    using c s'(2,5) assms(2) by (auto simp: cursor_def handle_def intro!: exI [of _ a])
  then show thesis
    using that s'(1,3) handleD(2) [OF c(1)] by simp
qed

lemma cursorD: "cursor xdrs buf pre w 0 \<Longrightarrow> out (x_priv xdrs) = pre @ w" "cursor xdrs buf pre w k \<Longrightarrow> handle xdrs"
  by (auto simp: cursor_def)

end

text \<open>
  And read them at an address instead of getting them: \<open>rwin s a bs\<close> says that \<open>bs\<close> are at the
  address \<open>a\<close>.
\<close>

locale xdr_inline_source = xdr_source +
  fixes rwin :: "'a \<Rightarrow> 32 word \<Rightarrow> byte list \<Rightarrow> bool"
  assumes inline_get: "inv s \<Longrightarrow> unat len < 2 ^ 31 \<Longrightarrow> x_inline ops len s = (r, s') \<Longrightarrow>
      (case r of
         None \<Rightarrow> s' = s
       | Some a \<Rightarrow> inv s' \<and> unat len \<le> length (inp s) \<and> inp s' = drop (unat len) (inp s)
           \<and> phase s' = (phase s + unat len) mod 4 \<and> rwin s' a (take (unat len) (inp s)))"
    and inline_load: "rwin s a bs \<Longrightarrow> i + n \<le> length bs \<Longrightarrow> x_load ops (a + word_of_nat i) n s = Done (take n (drop i bs))"
begin

text \<open>\<open>bs\<close> can be read at \<open>buf\<close>.\<close>

definition reader :: "'a xdr \<Rightarrow> 32 word \<Rightarrow> byte list \<Rightarrow> bool" where
  "reader xdrs buf bs \<longleftrightarrow> x_ops xdrs = ops \<and> (\<exists>a pre. rwin (x_priv xdrs) a (pre @ bs) \<and> buf = a + word_of_nat (length pre))"

lemma XDR_INLINE_get:
  assumes "handle xdrs" and "unat len < 2 ^ 31"
  obtains "XDR_INLINE len xdrs = (None, xdrs)"
  | buf xdrs' where "XDR_INLINE len xdrs = (Some buf, xdrs')" "handle xdrs'" "reader xdrs' buf (take (unat len) (inp (x_priv xdrs)))"
      "unat len \<le> length (inp (x_priv xdrs))" "inp (x_priv xdrs') = drop (unat len) (inp (x_priv xdrs))"
      "phase (x_priv xdrs') = (phase (x_priv xdrs) + unat len) mod 4"
proof -
  obtain r s' where i: "x_inline ops len (x_priv xdrs) = (r, s')"
    by fastforce
  have "case r of None \<Rightarrow> s' = x_priv xdrs | Some a \<Rightarrow> inv s' \<and> unat len \<le> length (inp (x_priv xdrs))
      \<and> inp s' = drop (unat len) (inp (x_priv xdrs)) \<and> phase s' = (phase (x_priv xdrs) + unat len) mod 4
      \<and> rwin s' a (take (unat len) (inp (x_priv xdrs)))"
    using inline_get [OF handleD(1) [OF assms(1)] assms(2) i] .
  then show thesis
  proof (cases r)
    case None
    then show thesis
      using i assms(1) \<open>case r of None \<Rightarrow> _ | Some a \<Rightarrow> _ a\<close> that(1) by (simp add: XDR_INLINE_def handle_def)
  next
    case (Some a)
    then have "reader (xdrs\<lparr>x_priv := s'\<rparr>) a (take (unat len) (inp (x_priv xdrs)))"
      using \<open>case r of None \<Rightarrow> _ | Some a \<Rightarrow> _ a\<close> assms(1) by (auto simp: reader_def handle_def intro!: exI [of _ a] exI [of _ "[]"])
    then show thesis
      using Some i assms(1) \<open>case r of None \<Rightarrow> _ | Some a \<Rightarrow> _ a\<close> that(2) [of a "xdrs\<lparr>x_priv := s'\<rparr>"]
      by (simp add: XDR_INLINE_def handle_def)
  qed
qed

lemma reader_get:
  assumes "reader xdrs buf (bs @ rest)"
  shows "x_load (x_ops xdrs) buf (length bs) (x_priv xdrs) = Done bs" and "reader xdrs (buf + word_of_nat (length bs)) rest"
proof -
  obtain a pre where r: "x_ops xdrs = ops" "rwin (x_priv xdrs) a (pre @ bs @ rest)" "buf = a + word_of_nat (length pre)"
    using assms by (auto simp: reader_def)
  show "x_load (x_ops xdrs) buf (length bs) (x_priv xdrs) = Done bs"
    using inline_load [OF r(2), of "length pre" "length bs"] r(1,3) by simp
  show "reader xdrs (buf + word_of_nat (length bs)) rest"
    using r by (auto simp: reader_def intro!: exI [of _ a] exI [of _ "pre @ bs"])
qed

end

section \<open>Writing and reading\<close>

text \<open>
  A medium is a stream one can write to and, with the same operations vector, read from. A
  filter conveys \<open>v\<close> by \<open>bs\<close> if it encodes \<open>v\<close> as \<open>bs\<close> and decodes \<open>bs\<close> into a variable of value
  \<open>v0\<close> as \<open>v\<close>.
\<close>

locale xdr_medium = snk: xdr_sink ops oinv out room + src: xdr_source ops iinv inp phase
  for ops :: "'s xdr_ops" and oinv out room iinv inp phase
begin

definition conveys :: "('s, 'a) xdrproc \<Rightarrow> 'a \<Rightarrow> 'a \<Rightarrow> byte list \<Rightarrow> bool" where
  "conveys proc v0 v bs \<longleftrightarrow> snk.encodes proc v bs \<and> src.decodes proc v0 bs v"

lemma conveysD: "conveys proc v0 v bs \<Longrightarrow> snk.encodes proc v bs" "conveys proc v0 v bs \<Longrightarrow> src.decodes proc v0 bs v"
  by (simp_all add: conveys_def)

lemma conveys_scalars:
  "conveys xdr_long v0 v (be32 v)" "conveys xdr_u_long v0 v (be32 v)" "conveys xdr_short h0 h (be32 (scast h))"
  "conveys xdr_u_short h0 h (be32 (ucast h))" "conveys xdr_char c0 c (be32 (scast c))"
  "conveys xdr_longlong_t d0 d (be32 (high_word d) @ be32 (low_word d))"
  by (simp_all add: conveys_def snk.long_encodes src.long_decodes snk.u_long_encodes
      src.u_long_decodes snk.short_encodes src.short_decodes snk.u_short_encodes src.u_short_decodes snk.char_encodes src.char_decodes
      snk.longlong_encodes src.longlong_decodes)

lemma conveys_bool: "b \<in> {0, 1} \<Longrightarrow> conveys xdr_bool b0 b (be32 b)"
  using snk.bool_encodes [of b] src.bool_decodes [of b0 b] by (auto simp: conveys_def)

lemma conveys_opaque:
  assumes "length bs = unat sz" and "length buf = length bs"
  shows "conveys (xdr_opaque sz) buf bs (rep_opaque bs)"
  using snk.opaque_encodes [of sz bs] src.opaque_decodes [of bs sz buf "replicate (pad (unat sz)) 0"] assms
  by (simp add: conveys_def rep_opaque_def)

lemma conveys_bytes:
  assumes "length bs = unat sz" and "0 < sz" and "sz \<le> maxsize" and "\<And>n. length (mem n) = n"
  shows "conveys (xdr_bytes mem maxsize) (Null, z) (Ptr bs, sz) (rep_bytes bs)"
proof -
  have r: "rep_bytes bs = be32 sz @ rep_opaque bs"
    using assms(1) by (simp add: rep_bytes_def)
  show ?thesis
    using snk.bytes_encodes [of sz bs maxsize mem]
      src.bytes_decodes [OF assms(1-3), of "replicate (pad (unat sz)) 0" Null "mem (unat sz)" mem z] assms(1,3,4) r
    by (simp add: conveys_def rep_opaque_def)
qed

lemma conveys_string:
  assumes "length bs = unat sz" and "sz \<le> maxsize" and "sz + 1 \<noteq> 0" and "\<And>n. length (mem n) = n" and "0 \<notin> set bs"
  shows "conveys (xdr_string mem maxsize) Null (Ptr (bs @ [0])) (rep_bytes bs)"
proof -
  have r: "rep_bytes bs = be32 sz @ bs @ replicate (pad (unat sz)) 0"
    using assms(1) by (simp add: rep_bytes_def rep_opaque_def)
  have l: "length bs < 2 ^ 32" "word_of_nat (length bs) = sz"
    using assms(1) unsigned_less [of sz, where 'a = nat] by simp_all
  have n: "unat (sz + 1) = Suc (unat sz)"
    using assms(3) by (simp add: unatSuc add.commute)
  have "snk.encodes (xdr_string mem maxsize) (Ptr (bs @ [0])) (rep_bytes bs)"
    using snk.string_encodes [OF assms(5) l(1), of maxsize mem "[]"] l(2) assms(2) by simp
  moreover have "src.decodes (xdr_string mem maxsize) Null (rep_bytes bs) (Ptr (bs @ [0]))"
    using src.string_decodes [OF assms(5,1-3), of "replicate (pad (unat sz)) 0" Null "mem (unat (sz + 1))" mem] assms(4) n r
    by simp
  ultimately show ?thesis
    by (simp add: conveys_def)
qed

lemma conveys_array:
  assumes "length l = unat c" and "0 < c" and "c \<le> maxsize" and "unat c * unat elsize < 2 ^ 32" and "0 < elsize"
    and "\<And>v. v \<in> set l \<Longrightarrow> conveys elproc zero v (rep v)"
  shows "conveys (xdr_array maxsize elsize zero elproc) (Null, z) (Ptr l, c) (be32 c @ concat (map rep l))"
  using snk.array_encodes [OF assms(1,3) conveysD(1) [OF assms(6)]] src.array_decodes [OF assms(1-5) conveysD(2) [OF assms(6)]]
  by (simp add: conveys_def)

lemma conveys_pointer:
  "conveys (xdr_pointer zero proc) Null Null (be32 0)"
  "conveys proc zero v bs \<Longrightarrow> conveys (xdr_pointer zero proc) Null (Ptr v) (be32 1 @ bs)"
  by (simp_all add: conveys_def snk.pointer_encodes src.pointer_decodes)

lemma conveys_union:
  assumes "find_choice d choices = Some proc \<or> find_choice d choices = None \<and> dfault = Some proc" and "conveys proc v0 v bs"
  shows "conveys (xdr_union choices dfault) (d0, v0) (d, v) (be32 d @ bs)"
  using assms by (simp add: conveys_def snk.union_encodes src.union_decodes)

end

text \<open>A medium with access in line.\<close>

locale xdr_inline_medium = xdr_medium ops oinv out room iinv inp phase
  + snk: xdr_inline_sink ops oinv out room win + src: xdr_inline_source ops iinv inp phase rwin
  for ops :: "'s xdr_ops" and oinv out room iinv inp phase win rwin

end
