(* ===== verification/Xdr_Mem.thy ===== *)
theory Xdr_Mem
  imports Xdr_Stream
begin

text \<open>
  Streams on a memory buffer, \<^verbatim>\<open>uts/common/rpc/xdr_mem.c\<close>. They implement the interface of
  the filters, so that what was proved of the filters holds for encoding into a buffer and
  decoding from it.
\<close>

section \<open>Operations\<close>

text \<open>
  \<open>xm_mem\<close> are the bytes of the buffer at the address \<open>xm_base\<close>; an access to memory that is not
  part of it is an overrun. Addresses and \<^verbatim>\<open>x_handy\<close> are 32 bits wide, \<^verbatim>\<open>x_handy\<close> is signed.
\<close>

record xdr_mem =
  xm_base :: "32 word"
  xm_private :: "32 word"
  xm_handy :: "32 word"
  xm_mem :: "byte list"

definition xm_off :: "xdr_mem \<Rightarrow> nat" where
  "xm_off s = unat (xm_private s - xm_base s)"

definition xdrmem_getlong :: "xdr_mem \<Rightarrow> (32 word option \<times> xdr_mem) outcome" where
  "xdrmem_getlong s =
     (let s = s\<lparr>xm_handy := xm_handy s - 4\<rparr> in
      if sint (xm_handy s) < 0 then Done (None, s)
      else if length (xm_mem s) < xm_off s + 4 then Overrun
      else Done (Some (of_be32 (take 4 (drop (xm_off s) (xm_mem s)))), s\<lparr>xm_private := xm_private s + 4\<rparr>))"

definition xdrmem_putlong :: "32 word \<Rightarrow> xdr_mem \<Rightarrow> (bool \<times> xdr_mem) outcome" where
  "xdrmem_putlong l s =
     (let s = s\<lparr>xm_handy := xm_handy s - 4\<rparr> in
      if sint (xm_handy s) < 0 then Done (False, s)
      else if length (xm_mem s) < xm_off s + 4 then Overrun
      else Done (True, s\<lparr>xm_mem := take (xm_off s) (xm_mem s) @ be32 l @ drop (xm_off s + 4) (xm_mem s),
                         xm_private := xm_private s + 4\<rparr>))"

text \<open>\<^verbatim>\<open>bcopy\<close> takes the length as unsigned.\<close>

definition xdrmem_getbytes :: "byte list \<Rightarrow> 32 word \<Rightarrow> xdr_mem \<Rightarrow> (bool \<times> byte list \<times> xdr_mem) outcome" where
  "xdrmem_getbytes addr len s =
     (let s = s\<lparr>xm_handy := xm_handy s - len\<rparr>; n = unat len in
      if sint (xm_handy s) < 0 then Done (False, addr, s)
      else if length (xm_mem s) < xm_off s + n \<or> length addr < n then Overrun
      else Done (True, take n (drop (xm_off s) (xm_mem s)) @ drop n addr, s\<lparr>xm_private := xm_private s + len\<rparr>))"

definition xdrmem_putbytes :: "byte list \<Rightarrow> 32 word \<Rightarrow> xdr_mem \<Rightarrow> (bool \<times> xdr_mem) outcome" where
  "xdrmem_putbytes addr len s =
     (let s = s\<lparr>xm_handy := xm_handy s - len\<rparr>; n = unat len in
      if sint (xm_handy s) < 0 then Done (False, s)
      else if length (xm_mem s) < xm_off s + n \<or> length addr < n then Overrun
      else Done (True, s\<lparr>xm_mem := take (xm_off s) (xm_mem s) @ take n addr @ drop (xm_off s + n) (xm_mem s),
                         xm_private := xm_private s + len\<rparr>))"

definition xdrmem_getpos :: "xdr_mem \<Rightarrow> 32 word" where
  "xdrmem_getpos s = xm_private s - xm_base s"

definition xdrmem_setpos :: "32 word \<Rightarrow> xdr_mem \<Rightarrow> bool \<times> xdr_mem" where
  "xdrmem_setpos pos s =
     (let newaddr = xm_base s + pos; lastaddr = xm_private s + xm_handy s in
      if sint newaddr > sint lastaddr then (False, s)
      else (True, s\<lparr>xm_private := newaddr, xm_handy := lastaddr - newaddr\<rparr>))"

definition xdrmem_inline :: "32 word \<Rightarrow> xdr_mem \<Rightarrow> 32 word option \<times> xdr_mem" where
  "xdrmem_inline len s =
     (if sint (xm_handy s) \<ge> sint len
      then (Some (xm_private s), s\<lparr>xm_handy := xm_handy s - len, xm_private := xm_private s + len\<rparr>)
      else (None, s))"

text \<open>Division of the signed integers truncates; \<^verbatim>\<open>sizeof\<close> is unsigned, so that \<^verbatim>\<open>x_handy\<close> is compared as unsigned.\<close>

definition RNDUP :: "32 word \<Rightarrow> 32 word" where
  "RNDUP x = (let y = sint (x + 3); q = (if y < 0 then - ((- y) div 4) else y div 4) in word_of_int (q * 4))"

definition xdrmem_control :: "xdr_request \<Rightarrow> xdr_mem \<Rightarrow> (32 word option \<times> bool \<times> xdr_mem) outcome" where
  "xdrmem_control request s =
     (case request of
        XDR_PEEK \<Rightarrow>
          if xm_handy s < 4 then Done (None, False, s)
          else if length (xm_mem s) < xm_off s + 4 then Overrun
          else Done (Some (of_be32 (take 4 (drop (xm_off s) (xm_mem s)))), True, s)
      | XDR_SKIPBYTES info \<Rightarrow>
          let len = RNDUP info; s = s\<lparr>xm_handy := xm_handy s - len\<rparr> in
          if sint (xm_handy s) < 0 then Done (None, False, s)
          else Done (None, True, s\<lparr>xm_private := xm_private s + len\<rparr>)
      | XDR_other \<Rightarrow> Done (None, False, s))"

text \<open>Memory of the buffer, read and written through an address.\<close>

definition xm_load :: "32 word \<Rightarrow> nat \<Rightarrow> xdr_mem \<Rightarrow> byte list outcome" where
  "xm_load a n s =
     (let i = unat (a - xm_base s) in
      if length (xm_mem s) < i + n then Overrun else Done (take n (drop i (xm_mem s))))"

definition xm_store :: "32 word \<Rightarrow> byte list \<Rightarrow> xdr_mem \<Rightarrow> xdr_mem outcome" where
  "xm_store a bs s =
     (let i = unat (a - xm_base s) in
      if length (xm_mem s) < i + length bs then Overrun
      else Done (s\<lparr>xm_mem := take i (xm_mem s) @ bs @ drop (i + length bs) (xm_mem s)\<rparr>))"

definition xdrmem_ops :: "xdr_mem xdr_ops" where
  "xdrmem_ops = \<lparr>x_getlong = xdrmem_getlong, x_putlong = xdrmem_putlong, x_getbytes = xdrmem_getbytes,
     x_putbytes = xdrmem_putbytes, x_getpostn = Done \<circ> xdrmem_getpos, x_setpostn = xdrmem_setpos,
     x_inline = xdrmem_inline, x_control = xdrmem_control, x_load = xm_load, x_store = xm_store\<rparr>"

text \<open>\<open>mem\<close> are the bytes at \<open>addr\<close>, as many as the caller says.\<close>

definition xdrmem_create :: "32 word \<Rightarrow> byte list \<Rightarrow> xdr_op \<Rightarrow> xdr_mem xdr" where
  "xdrmem_create addr mem op =
     \<lparr>x_op = op, x_ops = xdrmem_ops,
      x_priv = \<lparr>xm_base = addr, xm_private = addr, xm_handy = word_of_nat (length mem), xm_mem = mem\<rparr>\<rparr>"

section \<open>The interface\<close>

lemma sint_cases: "sint (w :: 32 word) = (if uint w < 2147483648 then uint w else uint w - 4294967296)"
proof -
  have u: "uint w < 4294967296" "0 \<le> uint w"
    using uint_lt2p [of w] by simp_all
  have "sint w = (uint w + 2147483648) mod 4294967296 - 2147483648"
    by (simp add: sint_uint signed_take_bit_eq_take_bit_shift take_bit_eq_mod)
  also have "\<dots> = (if uint w < 2147483648 then uint w else uint w - 4294967296)"
  proof (cases "uint w < 2147483648")
    case True
    then have "(uint w + 2147483648) mod 4294967296 = uint w + 2147483648"
      using u by (intro mod_pos_pos_trivial) simp_all
    with True show ?thesis by simp
  next
    case False
    have "(uint w + 2147483648) mod 4294967296 = (uint w - 2147483648) mod 4294967296"
      using mod_add_self2 [of "uint w - 2147483648" 4294967296] by (simp add: add.commute)
    also have "\<dots> = uint w - 2147483648"
      using u False by (intro mod_pos_pos_trivial) simp_all
    finally show ?thesis
      using False by simp
  qed
  finally show ?thesis .
qed

lemma sint_neg: "sint (w :: 32 word) < 0 \<longleftrightarrow> 2147483648 \<le> unat w"
proof -
  have "sint w < 0 \<longleftrightarrow> 2147483648 \<le> uint w"
    using uint_lt2p [of w] by (simp add: sint_cases)
  also have "\<dots> \<longleftrightarrow> 2147483648 \<le> nat (uint w)"
    by (simp add: le_nat_iff del: nat_uint_eq)
  finally show ?thesis
    by simp
qed

lemma sint_small:
  assumes "unat (h :: 32 word) < 2147483648"
  shows "sint h = int (unat h)"
proof -
  have "nat (uint h) < 2147483648"
    using assms by simp
  then have "uint h < 2147483648"
    by linarith
  then show ?thesis
    by (simp add: sint_cases)
qed

text \<open>
  What is left is inside the buffer, and there the buffer is as it was at the beginning, when
  it was \<open>M\<close>.
\<close>

definition xm_ok :: "byte list \<Rightarrow> xdr_mem \<Rightarrow> bool" where
  "xm_ok M s \<longleftrightarrow> unat (xm_handy s) < 2147483648 \<and> xm_off s + unat (xm_handy s) = length (xm_mem s) \<and> length (xm_mem s) < 4294967296
     \<and> length (xm_mem s) = length M \<and> drop (xm_off s) (xm_mem s) = drop (xm_off s) M"

definition xm_out :: "xdr_mem \<Rightarrow> byte list" where "xm_out s = take (xm_off s) (xm_mem s)"
definition xm_inp :: "xdr_mem \<Rightarrow> byte list" where "xm_inp s = take (unat (xm_handy s)) (drop (xm_off s) (xm_mem s))"
definition xm_room :: "xdr_mem \<Rightarrow> nat" where "xm_room s = unat (xm_handy s)"

lemma xm_advance:
  assumes "xm_ok M s" and "unat len \<le> unat (xm_handy s)"
  shows "unat (xm_handy s - len) = unat (xm_handy s) - unat len" and "\<not> sint (xm_handy s - len) < 0"
    and "unat (xm_private s + len - xm_base s) = xm_off s + unat len"
proof -
  show h: "unat (xm_handy s - len) = unat (xm_handy s) - unat len"
    using assms(2) by (simp add: unat_sub word_le_nat_alt)
  show "\<not> sint (xm_handy s - len) < 0"
    using assms h by (auto simp: sint_neg xm_ok_def)
  have "unat (xm_private s - xm_base s) + unat len < 4294967296"
    using assms by (simp add: xm_ok_def xm_off_def)
  then have "unat ((xm_private s - xm_base s) + len) = xm_off s + unat len"
    by (simp add: unat_word_ariths xm_off_def)
  then show "unat (xm_private s + len - xm_base s) = xm_off s + unat len"
    by (simp add: algebra_simps)
qed

lemma xm_short:
  assumes "xm_ok M s" and "unat (xm_handy s) < unat len" and "unat len < 2147483648"
  shows "sint (xm_handy s - len) < 0"
proof -
  have "unat (xm_handy s - len) = unat (xm_handy s) + 4294967296 - unat len"
    using assms(2) unat_sub_if' [of "xm_handy s" len] by simp
  then show ?thesis
    using assms by (auto simp: sint_neg xm_ok_def)
qed

lemma xm_split:
  assumes "xm_ok M s" and "xm_inp s = data @ rest" and "length data = n"
  shows "n \<le> unat (xm_handy s)" and "take n (drop (xm_off s) (xm_mem s)) = data"
    and "take (unat (xm_handy s) - n) (drop (xm_off s + n) (xm_mem s)) = rest"
proof -
  let ?h = "unat (xm_handy s)" and ?m = "drop (xm_off s) (xm_mem s)"
  have i: "take ?h ?m = data @ rest"
    using assms(2) by (simp add: xm_inp_def)
  have l: "length (take ?h ?m) = ?h"
    using assms(1) by (auto simp: xm_ok_def)
  from l show n: "n \<le> ?h"
    unfolding i using assms(3) by simp
  have "take n (take ?h ?m) = data"
    using i assms(3) by simp
  then show "take n ?m = data"
    using n by (simp add: min_def)
  have "drop n (take ?h ?m) = rest"
    using i assms(3) by simp
  then show "take (?h - n) (drop (xm_off s + n) (xm_mem s)) = rest"
    by (simp add: drop_take add.commute)
qed

text \<open>A memory stream can be written to, and read from at any position.\<close>

interpretation xmo: xdr_sink xdrmem_ops "xm_ok M" xm_out xm_room for M
proof
  have four: "unat (4 :: 32 word) = 4"
    by simp
  fix s v and len :: "32 word" and bs :: "byte list"
  assume ok: "xm_ok M s"
  note adv4 = xm_advance [OF ok, of 4, unfolded four]
  have tail: "drop (unat (xm_private s - xm_base s) + n) (xm_mem s) = drop (unat (xm_private s - xm_base s) + n) M" for n
    using ok unfolding xm_ok_def xm_off_def by (metis add.commute drop_drop)
  let ?n = "unat len"
  show "\<exists>s'. x_putlong xdrmem_ops v s = Done (True, s') \<and> xm_ok M s' \<and> xm_out s' = xm_out s @ be32 v \<and> xm_room s \<le> xm_room s' + 4"
    if "4 dvd length (xm_out s)" "4 \<le> xm_room s"
    using that ok adv4 by (auto simp: xdrmem_ops_def xdrmem_putlong_def xm_room_def xm_ok_def xm_out_def xm_off_def Let_def tail)
  show "\<exists>s'. x_putbytes xdrmem_ops bs len s = Done (True, s') \<and> xm_ok M s' \<and> xm_out s' = xm_out s @ take ?n bs \<and> xm_room s \<le> xm_room s' + ?n"
    if "?n \<le> xm_room s" "?n \<le> length bs"
    using that ok xm_advance [OF ok, of len]
    by (auto simp: xdrmem_ops_def xdrmem_putbytes_def xm_room_def xm_ok_def xm_out_def xm_off_def Let_def tail)
qed

interpretation xmi: xdr_source xdrmem_ops "xm_ok M" xm_inp "\<lambda>s. xm_off s mod 4" for M
proof
  have four: "unat (4 :: 32 word) = 4"
    by simp
  fix s v and len :: "32 word" and data rest buf :: "byte list"
  assume ok: "xm_ok M s"
  note adv4 = xm_advance [OF ok, of 4, unfolded four]
  have tail: "drop (unat (xm_private s - xm_base s) + n) (xm_mem s) = drop (unat (xm_private s - xm_base s) + n) M" for n
    using ok unfolding xm_ok_def xm_off_def by (metis add.commute drop_drop)
  let ?n = "unat len"
  show "\<exists>s'. x_getlong xdrmem_ops s = Done (Some v, s') \<and> xm_ok M s' \<and> xm_inp s' = rest \<and> xm_off s' mod 4 = 0"
    if "xm_off s mod 4 = 0" "xm_inp s = be32 v @ rest"
    using that(1) xm_split [OF ok that(2), of 4] ok adv4
    by (auto simp: xdrmem_ops_def xdrmem_getlong_def xm_ok_def xm_inp_def xm_off_def Let_def tail)
  show "\<exists>s'. x_getbytes xdrmem_ops buf len s = Done (True, data @ drop ?n buf, s') \<and> xm_ok M s' \<and> xm_inp s' = rest
      \<and> xm_off s' mod 4 = (xm_off s mod 4 + ?n) mod 4"
    if "xm_inp s = data @ rest" "length data = ?n" "?n \<le> length buf"
    using xm_split [OF ok that(1,2)] that(3) ok xm_advance [OF ok, of len]
    by (auto simp: xdrmem_ops_def xdrmem_getbytes_def xm_ok_def xm_inp_def xm_off_def Let_def tail mod_add_left_eq)
  show "\<exists>s'. x_getlong xdrmem_ops s = Done (None, s')" if "length (xm_inp s) < 4"
    using that ok xm_short [OF ok, of 4] by (auto simp: xdrmem_ops_def xdrmem_getlong_def xm_inp_def xm_ok_def Let_def)
  show "\<exists>buf' s'. x_getbytes xdrmem_ops buf len s = Done (False, buf', s')" if "length (xm_inp s) < ?n" "?n < 2 ^ 31"
    using that ok xm_short [OF ok, of len] by (auto simp: xdrmem_ops_def xdrmem_getbytes_def xm_inp_def xm_ok_def Let_def)
qed

text \<open>Access in line: addresses of bytes that were put or got.\<close>

definition xm_win :: "xdr_mem \<Rightarrow> 32 word \<Rightarrow> nat \<Rightarrow> nat \<Rightarrow> bool" where
  "xm_win s a p n \<longleftrightarrow> a = xm_base s + word_of_nat p \<and> p + n \<le> xm_off s"

definition xm_rwin :: "xdr_mem \<Rightarrow> 32 word \<Rightarrow> byte list \<Rightarrow> bool" where
  "xm_rwin s a bs \<longleftrightarrow> length (xm_mem s) < 4294967296 \<and> unat (a - xm_base s) + length bs \<le> length (xm_mem s)
     \<and> take (length bs) (drop (unat (a - xm_base s)) (xm_mem s)) = bs"

lemma unat_offset: "i < 4294967296 \<Longrightarrow> unat (b + word_of_nat i - (b :: 32 word)) = i"
  by (simp add: unsigned_of_nat take_bit_nat_eq_self)

lemma xm_inline_cases:
  assumes "xm_ok M s" and "unat len < 2 ^ 31" and "xdrmem_inline len s = (r, s')"
  shows "if unat len \<le> unat (xm_handy s)
    then r = Some (xm_private s) \<and> s' = s\<lparr>xm_handy := xm_handy s - len, xm_private := xm_private s + len\<rparr> \<and> xm_ok M s'
      \<and> xm_off s' = xm_off s + unat len \<and> unat (xm_handy s') = unat (xm_handy s) - unat len
    else r = None \<and> s' = s"
proof -
  have h: "unat (xm_handy s) < 2147483648" "unat len < 2147483648"
    using assms(1,2) by (simp_all add: xm_ok_def)
  have le: "sint len \<le> sint (xm_handy s) \<longleftrightarrow> unat len \<le> unat (xm_handy s)"
    using h by (simp add: sint_small del: of_nat_unat)
  have tail: "drop (xm_off s + n) (xm_mem s) = drop (xm_off s + n) M" for n
    using assms(1) unfolding xm_ok_def by (metis add.commute drop_drop)
  show ?thesis
  proof (cases "unat len \<le> unat (xm_handy s)")
    case True
    note adv = xm_advance [OF assms(1) True]
    have s': "r = Some (xm_private s)" "s' = s\<lparr>xm_handy := xm_handy s - len, xm_private := xm_private s + len\<rparr>"
      using assms(3) True le by (simp_all add: xdrmem_inline_def)
    have o: "xm_off s' = xm_off s + unat len" "unat (xm_handy s') = unat (xm_handy s) - unat len"
      using adv s'(2) by (simp_all add: xm_off_def)
    have "xm_ok M s'"
      using assms(1) True tail [of "unat len"] unfolding xm_ok_def o using s'(2) by auto
    then show ?thesis
      using True s' o by simp
  next
    case False
    then show ?thesis
      using assms(3) le by (simp add: xdrmem_inline_def)
  qed
qed

interpretation xm: xdr_inline_medium xdrmem_ops "xm_ok M" xm_out xm_room "xm_ok M" xm_inp "\<lambda>s. xm_off s mod 4" xm_win xm_rwin for M
proof (unfold_locales, goal_cases)
  case (1 s len r s')
  have i: "xdrmem_inline len s = (r, s')"
    using 1(3) by (simp add: xdrmem_ops_def)
  note c = xm_inline_cases [OF 1(1,2) i]
  have "xm_off s + unat (xm_handy s) = length (xm_mem s)"
    using 1(1) by (simp add: xm_ok_def)
  moreover have "xm_private s = xm_base s + word_of_nat (xm_off s)"
    by (simp add: xm_off_def)
  ultimately show ?case
    using c by (cases "unat len \<le> unat (xm_handy s)")
      (auto simp: xm_room_def xm_out_def xm_win_def take_add intro!: exI [of _ "take (unat len) (drop (xm_off s) (xm_mem s))"])
next
  case (2 s a p n i bs)
  have l: "p + i + length bs \<le> xm_off s" "xm_off s \<le> length (xm_mem s)" "length (xm_mem s) < 4294967296"
    using 2 by (auto simp: xm_win_def xm_ok_def)
  have "a + word_of_nat i = xm_base s + word_of_nat (p + i)"
    using 2(2) by (simp add: xm_win_def)
  moreover have "unat (xm_base s + word_of_nat (p + i) - xm_base s) = p + i"
    by (rule unat_offset) (use l in simp)
  ultimately have st: "x_store xdrmem_ops (a + word_of_nat i) bs s
      = Done (s\<lparr>xm_mem := take (p + i) (xm_mem s) @ bs @ drop (p + i + length bs) (xm_mem s)\<rparr>)"
    using l by (simp add: xdrmem_ops_def xm_store_def Let_def)
  have d: "drop (xm_off s) (take (p + i) (xm_mem s) @ bs @ drop (p + i + length bs) (xm_mem s)) = drop (xm_off s) (xm_mem s)"
    using l by simp
  show ?case
    unfolding st using 2(1,2) l d by (auto simp: xm_ok_def xm_room_def xm_out_def xm_win_def xm_off_def min_def drop_take)
next
  case (3 s len r s')
  have i: "xdrmem_inline len s = (r, s')"
    using 3(3) by (simp add: xdrmem_ops_def)
  note c = xm_inline_cases [OF 3(1,2) i]
  have l: "xm_off s + unat (xm_handy s) = length (xm_mem s)" "length (xm_mem s) < 4294967296"
    using 3(1) by (auto simp: xm_ok_def)
  show ?case
    using c l by (cases "unat len \<le> unat (xm_handy s)")
      (auto simp: xm_inp_def xm_rwin_def xm_off_def drop_take add.commute min_def mod_add_left_eq mod_add_right_eq)
next
  case (4 s a bs i n)
  have l: "unat (a - xm_base s) + i + n \<le> length (xm_mem s)" "length (xm_mem s) < 4294967296"
    using 4 by (auto simp: xm_rwin_def)
  have "unat ((a - xm_base s) + word_of_nat i) = unat (a - xm_base s) + i"
    using l by (simp add: unat_word_ariths unsigned_of_nat take_bit_nat_eq_self)
  then have u: "unat (a + word_of_nat i - xm_base s) = unat (a - xm_base s) + i"
    by (simp add: algebra_simps)
  have "take n (drop i (take (length bs) (drop (unat (a - xm_base s)) (xm_mem s)))) = take n (drop i bs)"
    using 4(1) by (simp add: xm_rwin_def)
  moreover have "min n (length bs - i) = n"
    using 4(2) by simp
  ultimately have "take n (drop (unat (a - xm_base s) + i) (xm_mem s)) = take n (drop i bs)"
    by (simp add: drop_take add.commute)
  then show ?case
    using u l by (simp add: xdrmem_ops_def xm_load_def Let_def)
qed

section \<open>Encoding and decoding in memory\<close>

text \<open>
  \<open>proc\<close> encodes \<open>v\<close> into the first bytes of any buffer that is long enough as \<open>bs\<close>, leaves the rest
  of the buffer alone, and decodes them into a variable with value \<open>v0\<close> as \<open>v\<close> again; the position
  is behind the bytes both times.
\<close>

definition mem_roundtrip :: "(xdr_mem, 'a) xdrproc \<Rightarrow> 'a \<Rightarrow> 'a \<Rightarrow> byte list \<Rightarrow> bool" where
  "mem_roundtrip proc v0 v bs \<longleftrightarrow> (\<forall>addr mem. length bs \<le> length mem \<longrightarrow> length mem < 2 ^ 31 \<longrightarrow>
     (\<exists>x x'. proc (xdrmem_create addr mem XDR_ENCODE) v = Done (True, v, x)
        \<and> xm_mem (x_priv x) = bs @ drop (length bs) mem \<and> xdrmem_getpos (x_priv x) = word_of_nat (length bs)
        \<and> proc (xdrmem_create addr (bs @ drop (length bs) mem) XDR_DECODE) v0 = Done (True, v, x')
        \<and> xdrmem_getpos (x_priv x') = word_of_nat (length bs)))"

lemma create_ok:
  assumes "length mem < 2147483648"
  shows "xm_ok mem (x_priv (xdrmem_create addr mem op))" and "xm_room (x_priv (xdrmem_create addr mem op)) = length mem"
    and "xm_out (x_priv (xdrmem_create addr mem op)) = []" and "xm_inp (x_priv (xdrmem_create addr mem op)) = mem"
proof -
  have "unat (word_of_nat (length mem) :: 32 word) = length mem"
    using assms by (simp add: unsigned_of_nat take_bit_nat_eq_self)
  then show "xm_ok mem (x_priv (xdrmem_create addr mem op))" "xm_room (x_priv (xdrmem_create addr mem op)) = length mem"
    "xm_out (x_priv (xdrmem_create addr mem op)) = []" "xm_inp (x_priv (xdrmem_create addr mem op)) = mem"
    using assms by (simp_all add: xdrmem_create_def xm_ok_def xm_room_def xm_out_def xm_inp_def xm_off_def)
qed

lemma xm_pos:
  assumes "xm_ok M s"
  shows "length (xm_out s) = xm_off s" and "xdrmem_getpos s = word_of_nat (xm_off s)"
    and "length (xm_inp s) = unat (xm_handy s)"
  using assms by (auto simp: xm_ok_def xm_out_def xm_inp_def xdrmem_getpos_def xm_off_def)

text \<open>The buffer after encoding, and decoding from a buffer.\<close>

lemma mem_encoded:
  assumes "xmo.handle mem x" and "xm_out (x_priv x) = bs"
  shows "xm_mem (x_priv x) = bs @ drop (length bs) mem" and "xdrmem_getpos (x_priv x) = word_of_nat (length bs)"
proof -
  have ok: "xm_ok mem (x_priv x)"
    by (rule xmo.handleD(1) [OF assms(1)])
  have off: "xm_off (x_priv x) = length bs"
    using xm_pos(1) [OF ok] assms(2) by simp
  have "xm_mem (x_priv x) = take (length bs) (xm_mem (x_priv x)) @ drop (length bs) (xm_mem (x_priv x))"
    by simp
  also have "\<dots> = bs @ drop (length bs) mem"
    using assms(2) ok off by (simp only: xm_out_def xm_ok_def)
  finally show "xm_mem (x_priv x) = bs @ drop (length bs) mem" .
  show "xdrmem_getpos (x_priv x) = word_of_nat (length bs)"
    using xm_pos(2) [OF ok] off by simp
qed

lemma encode_create:
  assumes "length mem < 2147483648"
  shows "xmo.handle mem (xdrmem_create addr mem XDR_ENCODE)" and "4 dvd length (xm_out (x_priv (xdrmem_create addr mem XDR_ENCODE)))"
  using create_ok [OF assms, where op = XDR_ENCODE and addr = addr] by (simp_all add: xmo.handle_def) (simp_all add: xdrmem_create_def)

lemma decode_create:
  assumes "length mem < 2147483648"
  shows "xmi.handle mem (xdrmem_create addr mem XDR_DECODE)" and "xm_off (x_priv (xdrmem_create addr mem XDR_DECODE)) mod 4 = 0"
  using create_ok [OF assms, where op = XDR_DECODE and addr = addr]
  by (simp_all add: xmi.handle_def) (simp_all add: xdrmem_create_def xm_off_def)

lemma mem_decoded:
  assumes dec: "\<And>M. xmi.decodes M proc v0 bs v" and m: "length (bs @ rest) < 2147483648"
  obtains x where "proc (xdrmem_create addr (bs @ rest) XDR_DECODE) v0 = Done (True, v, x)"
    "xdrmem_getpos (x_priv x) = word_of_nat (length bs)"
proof -
  obtain x where x: "proc (xdrmem_create addr (bs @ rest) XDR_DECODE) v0 = Done (True, v, x)"
    "xmi.handle (bs @ rest) x" "xm_inp (x_priv x) = rest"
    using xmi.decodesD [OF dec decode_create [OF m] create_ok(4) [OF m]] .
  have ok: "xm_ok (bs @ rest) (x_priv x)"
    by (rule xmi.handleD(1) [OF x(2)])
  then have "xm_off (x_priv x) + unat (xm_handy (x_priv x)) = length bs + length rest"
    by (auto simp: xm_ok_def)
  then have "xm_off (x_priv x) = length bs"
    using xm_pos(3) [OF ok] x(3) by simp
  then show thesis
    using that x(1) xm_pos(2) [OF ok] by simp
qed

lemma mem_roundtripI:
  assumes enc: "\<And>M. xmo.encodes M proc v bs" and dec: "\<And>M. xmi.decodes M proc v0 bs v"
  shows "mem_roundtrip proc v0 v bs"
  unfolding mem_roundtrip_def
proof (intro allI impI)
  fix addr and mem :: "byte list" assume l: "length bs \<le> length mem" and m: "length mem < 2 ^ 31"
  then have m': "length mem < 2147483648" "length (bs @ drop (length bs) mem) < 2147483648"
    by simp_all
  have "length bs \<le> xm_room (x_priv (xdrmem_create addr mem XDR_ENCODE))"
    using l create_ok(2) [OF m'(1)] by simp
  from xmo.encodesD [OF enc encode_create [OF m'(1)] this] obtain x where
    x: "proc (xdrmem_create addr mem XDR_ENCODE) v = Done (True, v, x)" "xmo.handle mem x" "xm_out (x_priv x) = bs"
    using create_ok(3) [OF m'(1)] by auto
  show "\<exists>x x'. proc (xdrmem_create addr mem XDR_ENCODE) v = Done (True, v, x)
        \<and> xm_mem (x_priv x) = bs @ drop (length bs) mem \<and> xdrmem_getpos (x_priv x) = word_of_nat (length bs)
        \<and> proc (xdrmem_create addr (bs @ drop (length bs) mem) XDR_DECODE) v0 = Done (True, v, x')
        \<and> xdrmem_getpos (x_priv x') = word_of_nat (length bs)"
    by (rule mem_decoded [OF dec m'(2)]) (use x(1) mem_encoded [OF x(2,3)] in auto)
qed

text \<open>
  The filter \<open>proc\<close> represents \<open>v\<close> by \<open>bs\<close>, wherever it stands in a memory stream: it encodes \<open>v\<close> as
  \<open>bs\<close> and decodes \<open>bs\<close> into a variable of value \<open>v0\<close> as \<open>v\<close>.
\<close>

definition represents :: "(xdr_mem, 'a) xdrproc \<Rightarrow> 'a \<Rightarrow> 'a \<Rightarrow> byte list \<Rightarrow> bool" where
  "represents proc v0 v bs \<longleftrightarrow> (\<forall>M. xm.conveys M proc v0 v bs)"

lemma conveys_roundtrip: "(\<And>M. xm.conveys M proc v0 v bs) \<Longrightarrow> mem_roundtrip proc v0 v bs"
  by (rule mem_roundtripI) (rule xm.conveysD, assumption)+

text \<open>
  Integers in external representation: every integer filter writes its value into a memory
  stream big-endian in units of four bytes, sign- or zero-extended as its type says (a long
  long as two units, a boolean as 0 or 1), touches nothing else of the buffer, and decoding
  gives the value back.
\<close>

lemma xdr_integers_roundtrip:
  "mem_roundtrip xdr_long v0 v (be32 v) \<and> mem_roundtrip xdr_u_long v0 v (be32 v)
   \<and> mem_roundtrip xdr_int v0 v (be32 v) \<and> mem_roundtrip xdr_u_int v0 v (be32 v) \<and> mem_roundtrip xdr_enum v0 v (be32 v)
   \<and> mem_roundtrip xdr_short h0 h (be32 (scast h)) \<and> mem_roundtrip xdr_u_short h0 h (be32 (ucast h))
   \<and> mem_roundtrip xdr_char c0 c (be32 (scast c))
   \<and> mem_roundtrip xdr_bool b0 (if b then 1 else 0) (be32 (if b then 1 else 0))
   \<and> mem_roundtrip xdr_longlong_t d0 d (be32 (high_word d) @ be32 (low_word d))
   \<and> mem_roundtrip xdr_u_longlong_t d0 d (be32 (high_word d) @ be32 (low_word d))"
  unfolding int_eqs u_longlong_eq
  by (intro conjI conveys_roundtrip xm.conveys_scalars xm.conveys_bool) simp

text \<open>
  C23. Byte sequences in external representation: opaque data, counted bytes, network objects and
  strings are written into a memory stream as their bytes, behind their length where it is
  not fixed, and filled up with zeros to a multiple of four; decoding, which allocates the
  memory, gives the same bytes, for a string with the terminating 0.
\<close>

theorem xdr_bytes_roundtrip:
  assumes "length bs = unat sz" and "0 < sz" and "sz \<le> maxsize" and "sz + 1 \<noteq> 0"
    and "\<And>n. length (mem n) = n" and "length buf = length bs"
  shows "mem_roundtrip (xdr_opaque sz) buf bs (rep_opaque bs)
    \<and> mem_roundtrip (xdr_bytes mem maxsize) (Null, z) (Ptr bs, sz) (rep_bytes bs)
    \<and> (sz \<le> 1024 \<longrightarrow> mem_roundtrip (xdr_netobj mem) (Null, z) (Ptr bs, sz) (rep_bytes bs))
    \<and> (0 \<notin> set bs \<longrightarrow> mem_roundtrip (xdr_string mem maxsize) Null (Ptr (bs @ [0])) (rep_bytes bs)
                      \<and> mem_roundtrip (xdr_wrapstring mem) Null (Ptr (bs @ [0])) (rep_bytes bs))"
proof -
  have eqs: "xdr_netobj mem = xdr_bytes mem 1024" "xdr_wrapstring mem = xdr_string mem (- 1)"
    by (simp_all add: fun_eq_iff xdr_netobj_def MAX_NETOBJ_SZ_def xdr_wrapstring_def LASTUNSIGNED_def)
  show ?thesis
    unfolding eqs using xm.conveys_opaque [OF assms(1,6)] xm.conveys_bytes [OF assms(1,2) _ assms(5)]
      xm.conveys_string [OF assms(1) _ assms(4,5)] assms(3) by (auto intro!: conveys_roundtrip)
qed

theorem xdr_bytes_roundtrip_witness:
  "mem_roundtrip (xdr_string (\<lambda>n. replicate n 7) 255) Null (Ptr [104, 105, 0]) [0, 0, 0, 2, 104, 105, 0, 0]"
proof -
  have "word_of_nat (length [104, 105 :: byte]) = (2 :: 32 word)" "pad (length [104, 105 :: byte]) = 2" "replicate 2 (0 :: byte) = [0, 0]"
    by (simp_all add: pad_def numeral_2_eq_2)
  then have "rep_bytes [104, 105] = [0, 0, 0, 2, 104, 105, 0, 0]"
    unfolding rep_bytes_def rep_opaque_def be32_def by (simp only:) simp
  then show ?thesis
    using xdr_bytes_roundtrip [of "[104, 105]" 2 255 "\<lambda>n. replicate n 7" "[0, 0]" 0] by simp
qed

text \<open>
  C24. Composite values: where the filter of an element represents values by bytes, the filter of a
  counted array of them represents the array by its length and the elements in order, the
  pointer filter a null pointer by 0 and another pointer by 1 and what it points to, and the
  union filter a value by its discriminant and the value of the chosen arm; each is written
  to a memory stream as these bytes and decoded, with the memory allocated, to the same value.
\<close>

theorem xdr_composite_roundtrip:
  assumes "\<forall>v\<in>set l. represents elproc zero v (rep v)" and "length l = unat c" and "0 < c" and "c \<le> maxsize"
    and "unat c * unat elsize < 2 ^ 32" and "0 < elsize" and "v \<in> set l"
    and "find_choice d choices = Some elproc \<or> find_choice d choices = None \<and> dfault = Some elproc"
  shows "mem_roundtrip (xdr_array maxsize elsize zero elproc) (Null, z) (Ptr l, c) (be32 c @ concat (map rep l))
    \<and> mem_roundtrip (xdr_pointer zero elproc) Null Null (be32 0)
    \<and> mem_roundtrip (xdr_pointer zero elproc) Null (Ptr v) (be32 1 @ rep v)
    \<and> mem_roundtrip (xdr_union choices dfault) (d0, zero) (d, v) (be32 d @ rep v)"
proof -
  have e: "xm.conveys M elproc zero v (rep v)" if "v \<in> set l" for v M
    using assms(1) that by (simp add: represents_def)
  show ?thesis
    using xm.conveys_array [OF assms(2-6) e] xm.conveys_pointer(1) xm.conveys_pointer(2) [OF e [OF assms(7)]]
      xm.conveys_union [OF assms(8) e [OF assms(7)]] by (intro conjI conveys_roundtrip) auto
qed

theorem xdr_composite_roundtrip_witness:
  "mem_roundtrip (xdr_array 10 4 0 xdr_long) (Null, 0) (Ptr [5, 258], 2) [0, 0, 0, 2, 0, 0, 0, 5, 0, 0, 1, 2]"
proof -
  have "be32 2 @ concat (map be32 [5, 258]) = [0, 0, 0, 2, 0, 0, 0, 5, 0, 0, 1, 2]"
    by (simp add: be32_def)
  then show ?thesis
    using xdr_composite_roundtrip [of "[5, 258]" xdr_long 0 be32 2 10 4 5 7 "[(7, xdr_long)]" None 0 0] xm.conveys_scalars(1)
    by (simp add: represents_def)
qed

text \<open>
  Decoding counted bytes from a memory stream is safe whatever the buffer holds: with a limit
  below \<open>2\<^sup>3\<^sup>1\<close> it ends without an access outside of the buffer and the allocated memory; if it
  succeeds, the length is within the limit and the bytes, their length and the filler are the
  beginning of the buffer.
\<close>

lemma xdr_bytes_decode_safe:
  assumes "length buf < 2 ^ 31" and "maxsize < 2 ^ 31" and "\<And>n. length (mem n) = n"
  shows "\<exists>ok p sz x. xdr_bytes mem maxsize (xdrmem_create addr buf XDR_DECODE) (Null, z) = Done (ok, (p, sz), x) \<and>
     (ok \<longrightarrow> sz \<le> maxsize \<and> (\<exists>bs filler rest. length bs = unat sz \<and> length filler = pad (unat sz)
        \<and> p = (if sz = 0 then Null else Ptr bs) \<and> buf = be32 sz @ bs @ filler @ rest))"
proof -
  have l: "length buf < 2147483648"
    using assms(1) by simp
  note h = create_ok [OF l, where op = XDR_DECODE and addr = addr]
  have h': "xmi.handle buf (xdrmem_create addr buf XDR_DECODE)" "xm_off (x_priv (xdrmem_create addr buf XDR_DECODE)) mod 4 = 0"
    using h(1) by (simp_all add: xmi.handle_def) (simp_all add: xdrmem_create_def xm_off_def)
  show ?thesis
    using xmi.bytes_total [OF h' assms(3,2), where z = z] unfolding h(4) by blast
qed

lemma xdr_bytes_decode_safe_witness:
  "\<exists>ok p sz x. xdr_bytes (\<lambda>n. replicate n 0) 64 (xdrmem_create 0x2000 [0, 0, 0, 200, 1, 2] XDR_DECODE) (Null, 0)
     = Done (ok, (p, sz), x)"
  using xdr_bytes_decode_safe [of "[0, 0, 0, 200, 1, 2]" 64 "\<lambda>n. replicate n 0" "0x2000" 0] by auto

text \<open>
  Two bounds checks of memory streams have holes. When fewer than four bytes are left, getting
  a long fails and leaves \<^verbatim>\<open>x_handy\<close> negative; a peek, which fails before, then compares it as an
  unsigned number, passes its check and reads beyond the end of the buffer. And getting more
  than \<open>2\<^sup>3\<^sup>1\<close> bytes beyond what is left, a length that is negative as a signed number, passes the
  check and copies from outside of the buffer.
\<close>

lemma xdrmem_check_holes:
  assumes "xm_ok M s"
  shows "(unat (xm_handy s) < 4 \<longrightarrow> (\<exists>s'. xdrmem_getlong s = Done (None, s')
      \<and> xdrmem_control XDR_PEEK s = Done (None, False, s) \<and> xdrmem_control XDR_PEEK s' = Overrun))
    \<and> (2 ^ 31 + unat (xm_handy s) < unat len \<longrightarrow> xdrmem_getbytes buf len s = Overrun)"
proof (intro conjI impI)
  assume short: "unat (xm_handy s) < 4"
  define s' where "s' = s\<lparr>xm_handy := xm_handy s - 4\<rparr>"
  have neg: "sint (xm_handy s - 4) < 0"
    using xm_short [OF assms, of 4] short by simp
  then have "\<not> xm_handy s' < 4"
    by (simp add: sint_neg word_less_nat_alt s'_def)
  moreover have "length (xm_mem s') < xm_off s' + 4"
    using assms short by (simp add: xm_ok_def s'_def xm_off_def)
  moreover have "xm_handy s < 4"
    using short by (simp add: word_less_nat_alt)
  ultimately show "\<exists>s'. xdrmem_getlong s = Done (None, s') \<and> xdrmem_control XDR_PEEK s = Done (None, False, s)
      \<and> xdrmem_control XDR_PEEK s' = Overrun"
    using neg by (intro exI [of _ s']) (simp add: xdrmem_getlong_def xdrmem_control_def s'_def)
next
  assume big: "2 ^ 31 + unat (xm_handy s) < unat len"
  then have "unat (xm_handy s - len) = unat (xm_handy s) + 4294967296 - unat len"
    using unat_sub_if' [of "xm_handy s" len] by simp
  then have "\<not> sint (xm_handy s - len) < 0"
    using big by (simp add: sint_neg)
  moreover have "length (xm_mem s) < xm_off s + unat len"
    using assms big by (auto simp: xm_ok_def)
  ultimately show "xdrmem_getbytes buf len s = Overrun"
    by (simp add: xdrmem_getbytes_def Let_def xm_off_def)
qed

lemma xdrmem_check_holes_witness:
  "xdrmem_control XDR_PEEK (x_priv (xdrmem_create 0x2000 [1, 2] XDR_DECODE))
     = Done (None, False, x_priv (xdrmem_create 0x2000 [1, 2] XDR_DECODE))"
proof -
  let ?s = "x_priv (xdrmem_create 0x2000 [1, 2] XDR_DECODE)"
  have ok: "xm_ok [1, 2] ?s"
    by (rule create_ok(1)) simp
  have "unat (xm_handy ?s) < 4"
    by (simp add: xdrmem_create_def)
  then show ?thesis
    using xdrmem_check_holes [OF ok, of 0 "[]"] by blast
qed

end
