(* ===== verification/Rpc_Msg.thy ===== *)
theory Rpc_Msg
  imports Xdr_Mem
begin

text \<open>
  The messages of remote procedure calls, \<^verbatim>\<open>uts/common/rpc/rpc_prot.c\<close> and \<^verbatim>\<open>rpc_calmsg.c\<close>: the
  filters of call and reply messages, which work in line on the memory of the stream where the
  stream allows it, and the error a reply stands for.
\<close>

section \<open>Messages\<close>

text \<open>
  Authentication data. \<open>oa_base\<close> points to bytes; where the code lets it point into the memory of
  the stream, it points to the \<open>oa_length\<close> bytes there.
\<close>

record opaque_auth =
  oa_flavor :: "32 word"
  oa_base :: "byte list ptr"
  oa_length :: "32 word"

definition MAX_AUTH_BYTES :: "32 word" where "MAX_AUTH_BYTES = 400"
definition RPC_MSG_VERSION :: "32 word" where "RPC_MSG_VERSION = 2"

text \<open>Enumerations are decoded from any long, so that their variables hold any value.\<close>

definition CALL :: "32 word" where "CALL = 0"
definition REPLY :: "32 word" where "REPLY = 1"

definition MSG_ACCEPTED :: "32 word" where "MSG_ACCEPTED = 0"
definition MSG_DENIED :: "32 word" where "MSG_DENIED = 1"

definition SUCCESS :: "32 word" where "SUCCESS = 0"
definition PROG_UNAVAIL :: "32 word" where "PROG_UNAVAIL = 1"
definition PROG_MISMATCH :: "32 word" where "PROG_MISMATCH = 2"
definition PROC_UNAVAIL :: "32 word" where "PROC_UNAVAIL = 3"
definition GARBAGE_ARGS :: "32 word" where "GARBAGE_ARGS = 4"
definition SYSTEM_ERR :: "32 word" where "SYSTEM_ERR = 5"

definition RPC_MISMATCH :: "32 word" where "RPC_MISMATCH = 0"
definition AUTH_ERROR :: "32 word" where "AUTH_ERROR = 1"

lemmas rpc_enums = CALL_def REPLY_def MSG_ACCEPTED_def MSG_DENIED_def SUCCESS_def PROG_UNAVAIL_def PROG_MISMATCH_def
  PROC_UNAVAIL_def GARBAGE_ARGS_def SYSTEM_ERR_def RPC_MISMATCH_def AUTH_ERROR_def

text \<open>
  Unions. Where all members are words of 32 bits, the record has these words, and the members
  are names for them: storing to one is storing to the others. Elsewhere the union is a
  datatype with a constructor for each of its members, and storing to one replaces what another
  one held. The value that is read through a member other than the one stored last is left
  unspecified; a filter on a member that fails may leave it stored, with parts of it unspecified.

  The results of a call are of type \<^typ>\<open>'r\<close>: \<open>ar_where\<close> is the variable at the address
  \<^verbatim>\<open>ar_results.where\<close>, \<open>ar_proc\<close> the filter or a null pointer.
\<close>

datatype ('s, 'r) accepted_ru =
    is_versions: AR_versions "32 word" "32 word"
  | is_results: AR_results 'r "('s, 'r) xdrproc option"

record ('s, 'r) accepted_reply =
  ar_verf :: opaque_auth
  ar_stat :: "32 word"
  ar_ru :: "('s, 'r) accepted_ru"

definition ar_vers_low :: "('s, 'r) accepted_reply \<Rightarrow> 32 word" where
  "ar_vers_low ar = (case ar_ru ar of AR_versions low high \<Rightarrow> low | _ \<Rightarrow> undefined)"

definition ar_vers_high :: "('s, 'r) accepted_reply \<Rightarrow> 32 word" where
  "ar_vers_high ar = (case ar_ru ar of AR_versions low high \<Rightarrow> high | _ \<Rightarrow> undefined)"

definition ar_where :: "('s, 'r) accepted_reply \<Rightarrow> 'r" where
  "ar_where ar = (case ar_ru ar of AR_results w proc \<Rightarrow> w | _ \<Rightarrow> undefined)"

definition ar_proc :: "('s, 'r) accepted_reply \<Rightarrow> ('s, 'r) xdrproc option" where
  "ar_proc ar = (case ar_ru ar of AR_results w proc \<Rightarrow> proc | _ \<Rightarrow> undefined)"

record rejected_reply =
  rj_stat :: "32 word"
  rj_ru0 :: "32 word"
  rj_ru1 :: "32 word"

abbreviation "rj_vers_low \<equiv> rj_ru0"
abbreviation "rj_vers_high \<equiv> rj_ru1"
abbreviation "rj_why \<equiv> rj_ru0"

datatype ('s, 'r) reply_ru =
    is_acpt: RP_ar "('s, 'r) accepted_reply"
  | is_rjct: RP_dr rejected_reply

record ('s, 'r) reply_body =
  rp_stat :: "32 word"
  rp_ru :: "('s, 'r) reply_ru"

definition rp_acpt :: "('s, 'r) reply_body \<Rightarrow> ('s, 'r) accepted_reply" where
  "rp_acpt r = (case rp_ru r of RP_ar ar \<Rightarrow> ar | _ \<Rightarrow> undefined)"

definition rp_rjct :: "('s, 'r) reply_body \<Rightarrow> rejected_reply" where
  "rp_rjct r = (case rp_ru r of RP_dr rr \<Rightarrow> rr | _ \<Rightarrow> undefined)"

record call_body =
  cb_rpcvers :: "32 word"
  cb_prog :: "32 word"
  cb_vers :: "32 word"
  cb_proc :: "32 word"
  cb_cred :: opaque_auth
  cb_verf :: opaque_auth

datatype ('s, 'r) msg_ru =
    is_call: RM_cmb call_body
  | is_reply: RM_rmb "('s, 'r) reply_body"

record ('s, 'r) rpc_msg =
  rm_xid :: "32 word"
  rm_direction :: "32 word"
  rm_ru :: "('s, 'r) msg_ru"

definition rm_call :: "('s, 'r) rpc_msg \<Rightarrow> call_body" where
  "rm_call m = (case rm_ru m of RM_cmb c \<Rightarrow> c | _ \<Rightarrow> undefined)"

definition rm_reply :: "('s, 'r) rpc_msg \<Rightarrow> ('s, 'r) reply_body" where
  "rm_reply m = (case rm_ru m of RM_rmb r \<Rightarrow> r | _ \<Rightarrow> undefined)"

text \<open>A member that was stored is read; other fields do not matter to it.\<close>

lemma ru_stored [simp]:
  "ar_ru ar = AR_versions l h \<Longrightarrow> ar_vers_low ar = l" "ar_ru ar = AR_versions l h \<Longrightarrow> ar_vers_high ar = h"
  "ar_ru ar = AR_results w q \<Longrightarrow> ar_where ar = w" "ar_ru ar = AR_results w q \<Longrightarrow> ar_proc ar = q"
  "rp_ru r = RP_ar ar \<Longrightarrow> rp_acpt r = ar" "rp_ru r = RP_dr rr \<Longrightarrow> rp_rjct r = rr"
  "rm_ru m = RM_cmb c \<Longrightarrow> rm_call m = c" "rm_ru m = RM_rmb r \<Longrightarrow> rm_reply m = r"
  by (simp_all add: ar_vers_low_def ar_vers_high_def ar_where_def ar_proc_def rp_acpt_def rp_rjct_def rm_call_def rm_reply_def)

lemma ru_other [simp]:
  "ar_vers_low (ar\<lparr>ar_verf := v\<rparr>) = ar_vers_low ar" "ar_vers_high (ar\<lparr>ar_verf := v\<rparr>) = ar_vers_high ar"
  "ar_where (ar\<lparr>ar_verf := v\<rparr>) = ar_where ar" "ar_proc (ar\<lparr>ar_verf := v\<rparr>) = ar_proc ar"
  "ar_vers_low (ar\<lparr>ar_stat := st\<rparr>) = ar_vers_low ar" "ar_vers_high (ar\<lparr>ar_stat := st\<rparr>) = ar_vers_high ar"
  "ar_where (ar\<lparr>ar_stat := st\<rparr>) = ar_where ar" "ar_proc (ar\<lparr>ar_stat := st\<rparr>) = ar_proc ar"
  "rp_acpt (r\<lparr>rp_stat := st\<rparr>) = rp_acpt r" "rp_rjct (r\<lparr>rp_stat := st\<rparr>) = rp_rjct r"
  "rm_call (m\<lparr>rm_xid := x\<rparr>) = rm_call m" "rm_reply (m\<lparr>rm_xid := x\<rparr>) = rm_reply m"
  "rm_call (m\<lparr>rm_direction := d\<rparr>) = rm_call m" "rm_reply (m\<lparr>rm_direction := d\<rparr>) = rm_reply m"
  by (simp_all add: ar_vers_low_def ar_vers_high_def ar_where_def ar_proc_def rp_acpt_def rp_rjct_def rm_call_def rm_reply_def)

text \<open>Storing what a member that was stored last holds changes nothing.\<close>

lemma ru_same [simp]:
  "is_versions (ar_ru ar) \<Longrightarrow> ar\<lparr>ar_ru := AR_versions (ar_vers_low ar) (ar_vers_high ar)\<rparr> = ar"
  "is_results (ar_ru ar) \<Longrightarrow> ar\<lparr>ar_ru := AR_results (ar_where ar) (ar_proc ar)\<rparr> = ar"
  "is_acpt (rp_ru r) \<Longrightarrow> r\<lparr>rp_ru := RP_ar (rp_acpt r)\<rparr> = r"
  "is_rjct (rp_ru r) \<Longrightarrow> r\<lparr>rp_ru := RP_dr (rp_rjct r)\<rparr> = r"
  "is_call (rm_ru m) \<Longrightarrow> m\<lparr>rm_ru := RM_cmb (rm_call m)\<rparr> = m"
  "is_reply (rm_ru m) \<Longrightarrow> m\<lparr>rm_ru := RM_rmb (rm_reply m)\<rparr> = m"
  by (cases "ar_ru ar"; cases "rp_ru r"; cases "rm_ru m"; simp)+

section \<open>Composition of filters\<close>

text \<open>A filter on a member of a structure, one filter after another where the first must succeed, and a test.\<close>

definition xdr_field :: "('s, 'b) xdrproc \<Rightarrow> ('a \<Rightarrow> 'b) \<Rightarrow> ('b \<Rightarrow> 'a \<Rightarrow> 'a) \<Rightarrow> ('s, 'a) xdrproc" where
  "xdr_field p get upd xdrs v = bind_outcome (p xdrs (get v)) (\<lambda>(ok, w, xdrs). Done (ok, upd w v, xdrs))"

definition xdr_and :: "('s, 'a) xdrproc \<Rightarrow> ('s, 'a) xdrproc \<Rightarrow> ('s, 'a) xdrproc" where
  "xdr_and p q xdrs v = bind_outcome (p xdrs v) (\<lambda>(ok, v, xdrs). if ok then q xdrs v else Done (False, v, xdrs))"

definition xdr_check :: "('a \<Rightarrow> bool) \<Rightarrow> ('s, 'a) xdrproc" where
  "xdr_check c xdrs v = Done (c v, v, xdrs)"

text \<open>The members of the structures.\<close>

definition oa_fields :: "('s, byte list ptr \<times> 32 word) xdrproc \<Rightarrow> ('s, opaque_auth) xdrproc" where
  "oa_fields p = xdr_field p (\<lambda>a. (oa_base a, oa_length a)) (\<lambda>(b, n) a. a\<lparr>oa_base := b, oa_length := n\<rparr>)"

definition in_call :: "('s, call_body) xdrproc \<Rightarrow> ('s, ('s, 'r) rpc_msg) xdrproc" where
  "in_call p = xdr_field p rm_call (\<lambda>c m. m\<lparr>rm_ru := RM_cmb c\<rparr>)"

definition in_reply :: "('s, ('s, 'r) reply_body) xdrproc \<Rightarrow> ('s, ('s, 'r) rpc_msg) xdrproc" where
  "in_reply p = xdr_field p rm_reply (\<lambda>r m. m\<lparr>rm_ru := RM_rmb r\<rparr>)"

definition in_acpt :: "('s, ('s, 'r) accepted_reply) xdrproc \<Rightarrow> ('s, ('s, 'r) reply_body) xdrproc" where
  "in_acpt p = xdr_field p rp_acpt (\<lambda>a r. r\<lparr>rp_ru := RP_ar a\<rparr>)"

definition in_rjct :: "('s, rejected_reply) xdrproc \<Rightarrow> ('s, ('s, 'r) reply_body) xdrproc" where
  "in_rjct p = xdr_field p rp_rjct (\<lambda>a r. r\<lparr>rp_ru := RP_dr a\<rparr>)"

section \<open>Access in line\<close>

text \<open>
  \<^verbatim>\<open>RNDUP\<close> of an unsigned number, and the macros that write and read a long at \<open>buf\<close> and advance it;
  \<open>IXDR_PUT_LONGS\<close> is a sequence of them. \<^verbatim>\<open>IXDR_PUT_ENUM\<close> and \<^verbatim>\<open>IXDR_GET_ENUM\<close> do the same.
\<close>

definition RNDUP_u :: "32 word \<Rightarrow> 32 word" where
  "RNDUP_u x = (x + 3) div 4 * 4"

definition IXDR_PUT_LONG :: "32 word \<Rightarrow> 32 word \<Rightarrow> 's xdr \<Rightarrow> (32 word \<times> 's xdr) outcome" where
  "IXDR_PUT_LONG v buf xdrs =
     bind_outcome (x_store (x_ops xdrs) buf (be32 v) (x_priv xdrs)) (\<lambda>s. Done (buf + 4, xdrs\<lparr>x_priv := s\<rparr>))"

primrec IXDR_PUT_LONGS :: "32 word list \<Rightarrow> 32 word \<Rightarrow> 's xdr \<Rightarrow> (32 word \<times> 's xdr) outcome" where
  "IXDR_PUT_LONGS [] buf xdrs = Done (buf, xdrs)"
| "IXDR_PUT_LONGS (v # vs) buf xdrs = bind_outcome (IXDR_PUT_LONG v buf xdrs) (\<lambda>(buf, xdrs). IXDR_PUT_LONGS vs buf xdrs)"

definition IXDR_GET_LONG :: "32 word \<Rightarrow> 's xdr \<Rightarrow> (32 word \<times> 32 word) outcome" where
  "IXDR_GET_LONG buf xdrs = bind_outcome (x_load (x_ops xdrs) buf 4 (x_priv xdrs)) (\<lambda>bs. Done (of_be32 bs, buf + 4))"

text \<open>\<^verbatim>\<open>bcopy\<close> of \<open>n\<close> bytes from memory to \<open>buf\<close>, and \<^verbatim>\<open>bzero\<close> of \<open>n\<close> bytes there.\<close>

definition ixdr_bcopy :: "byte list ptr \<Rightarrow> 32 word \<Rightarrow> 32 word \<Rightarrow> 's xdr \<Rightarrow> 's xdr outcome" where
  "ixdr_bcopy base buf n xdrs =
     (if length (bytes_at base) < unat n then Overrun
      else bind_outcome (x_store (x_ops xdrs) buf (take (unat n) (bytes_at base)) (x_priv xdrs)) (\<lambda>s. Done (xdrs\<lparr>x_priv := s\<rparr>)))"

definition ixdr_bzero :: "32 word \<Rightarrow> 32 word \<Rightarrow> 's xdr \<Rightarrow> 's xdr outcome" where
  "ixdr_bzero buf n xdrs =
     bind_outcome (x_store (x_ops xdrs) buf (replicate (unat n) 0) (x_priv xdrs)) (\<lambda>s. Done (xdrs\<lparr>x_priv := s\<rparr>))"

section \<open>Parts of messages\<close>

definition xdr_opaque_auth :: "mem_alloc \<Rightarrow> ('s, opaque_auth) xdrproc" where
  "xdr_opaque_auth mem =
     xdr_and (xdr_field xdr_enum oa_flavor (\<lambda>f a. a\<lparr>oa_flavor := f\<rparr>)) (oa_fields (xdr_bytes mem MAX_AUTH_BYTES))"

definition xdr_des_block :: "('s, byte list) xdrproc" where
  "xdr_des_block = xdr_opaque 8"

text \<open>What follows the status of an accepted call, in \<open>xdr_accepted_reply\<close> and twice in \<open>xdr_replymsg\<close>.\<close>

definition results_field :: "('s, 'r) xdrproc \<Rightarrow> ('s, ('s, 'r) accepted_reply) xdrproc" where
  "results_field proc = xdr_field proc ar_where (\<lambda>w ar. ar\<lparr>ar_ru := AR_results w (ar_proc ar)\<rparr>)"

definition versions_fields :: "('s, ('s, 'r) accepted_reply) xdrproc" where
  "versions_fields =
     xdr_and (xdr_field xdr_u_long ar_vers_low (\<lambda>v ar. ar\<lparr>ar_ru := AR_versions v (ar_vers_high ar)\<rparr>))
       (xdr_field xdr_u_long ar_vers_high (\<lambda>v ar. ar\<lparr>ar_ru := AR_versions (ar_vers_low ar) v\<rparr>))"

definition accepted_rest :: "('s, ('s, 'r) accepted_reply) xdrproc" where
  "accepted_rest xdrs ar =
     (if ar_stat ar = SUCCESS then
        case ar_proc ar of
          None \<Rightarrow> Panic
        | Some proc \<Rightarrow> results_field proc xdrs ar
      else if ar_stat ar = PROG_MISMATCH then versions_fields xdrs ar
      else Done (True, ar, xdrs))"

definition xdr_accepted_reply :: "mem_alloc \<Rightarrow> ('s, ('s, 'r) accepted_reply) xdrproc" where
  "xdr_accepted_reply mem =
     xdr_and (xdr_field (xdr_opaque_auth mem) ar_verf (\<lambda>v ar. ar\<lparr>ar_verf := v\<rparr>))
       (xdr_and (xdr_field xdr_enum ar_stat (\<lambda>v ar. ar\<lparr>ar_stat := v\<rparr>)) accepted_rest)"

definition rejected_rest :: "('s, rejected_reply) xdrproc" where
  "rejected_rest xdrs rr =
     (if rj_stat rr = RPC_MISMATCH then
        xdr_and (xdr_field xdr_u_long rj_vers_low (\<lambda>v rr. rr\<lparr>rj_ru0 := v\<rparr>))
          (xdr_field xdr_u_long rj_vers_high (\<lambda>v rr. rr\<lparr>rj_ru1 := v\<rparr>)) xdrs rr
      else if rj_stat rr = AUTH_ERROR then xdr_field xdr_enum rj_why (\<lambda>v rr. rr\<lparr>rj_ru0 := v\<rparr>) xdrs rr
      else Done (False, rr, xdrs))"

definition xdr_rejected_reply :: "('s, rejected_reply) xdrproc" where
  "xdr_rejected_reply = xdr_and (xdr_field xdr_enum rj_stat (\<lambda>v rr. rr\<lparr>rj_stat := v\<rparr>)) rejected_rest"

definition reply_dscrm :: "mem_alloc \<Rightarrow> (32 word \<times> ('s, ('s, 'r) reply_body) xdrproc) list" where
  "reply_dscrm mem = [(MSG_ACCEPTED, in_acpt (xdr_accepted_reply mem)), (MSG_DENIED, in_rjct xdr_rejected_reply)]"

section \<open>Reply messages\<close>

text \<open>The body of the first branch of \<open>xdr_replymsg\<close>: a verifier and its filler are written at \<open>buf\<close>.\<close>

definition replymsg_put_verf :: "opaque_auth \<Rightarrow> 32 word \<Rightarrow> 32 word \<Rightarrow> 's xdr \<Rightarrow> (32 word \<times> 's xdr) outcome" where
  "replymsg_put_verf oa rndup buf xdrs =
     (if oa_length oa = 0 then Done (buf, xdrs)
      else
        bind_outcome (ixdr_bcopy (oa_base oa) buf (oa_length oa) xdrs) (\<lambda>xdrs.
          let buf = buf + oa_length oa; rndup = rndup - oa_length oa in
          if rndup > 0 then bind_outcome (ixdr_bzero buf rndup xdrs) (\<lambda>xdrs. Done (buf + rndup, xdrs))
          else Done (buf, xdrs)))"

definition replymsg_put :: "32 word \<Rightarrow> ('s, ('s, 'r) rpc_msg) xdrproc" where
  "replymsg_put buf xdrs rmsg =
     (let ar = rp_acpt (rm_reply rmsg); oa = ar_verf ar; rndup = RNDUP_u (oa_length oa) in
      bind_outcome (IXDR_PUT_LONGS [rm_xid rmsg, rm_direction rmsg, rp_stat (rm_reply rmsg), oa_flavor oa, oa_length oa] buf xdrs)
        (\<lambda>(buf, xdrs). bind_outcome (replymsg_put_verf oa rndup buf xdrs)
        (\<lambda>(buf, xdrs). bind_outcome (IXDR_PUT_LONG (ar_stat ar) buf xdrs)
        (\<lambda>(_, xdrs). in_reply (in_acpt accepted_rest) xdrs rmsg))))"

text \<open>
  The second branch: flavor and length of the verifier, in line or not, and its bytes, which are
  copied from the stream.
\<close>

definition get_auth_hdr :: "('s, opaque_auth) xdrproc" where
  "get_auth_hdr xdrs oa =
     (case XDR_INLINE 8 xdrs of
        (Some buf, xdrs) \<Rightarrow>
          bind_outcome (IXDR_GET_LONG buf xdrs) (\<lambda>(f, buf).
          bind_outcome (IXDR_GET_LONG buf xdrs) (\<lambda>(n, _). Done (True, oa\<lparr>oa_flavor := f, oa_length := n\<rparr>, xdrs)))
      | (None, xdrs) \<Rightarrow>
          xdr_and (xdr_field xdr_enum oa_flavor (\<lambda>f a. a\<lparr>oa_flavor := f\<rparr>))
            (xdr_field xdr_u_int oa_length (\<lambda>n a. a\<lparr>oa_length := n\<rparr>)) xdrs oa)"

definition replymsg_get_verf :: "mem_alloc \<Rightarrow> ('s, opaque_auth) xdrproc" where
  "replymsg_get_verf mem xdrs oa =
     (let n = oa_length oa in
      if n = 0 then Done (True, oa, xdrs)
      else if n > MAX_AUTH_BYTES then Done (False, oa, xdrs)
      else
        let base = (if oa_base oa = Null then Ptr (mem (unat n)) else oa_base oa) in
        case XDR_INLINE (RNDUP_u n) xdrs of
          (None, xdrs) \<Rightarrow>
            bind_outcome (xdr_opaque n xdrs (bytes_at base)) (\<lambda>(ok, bs, xdrs). Done (ok, oa\<lparr>oa_base := store base bs\<rparr>, xdrs))
        | (Some buf, xdrs) \<Rightarrow>
            bind_outcome (x_load (x_ops xdrs) buf (unat n) (x_priv xdrs)) (\<lambda>bs.
              if length (bytes_at base) < unat n then Overrun
              else Done (True, oa\<lparr>oa_base := store base (bs @ drop (unat n) (bytes_at base))\<rparr>, xdrs)))"

definition replymsg_get :: "mem_alloc \<Rightarrow> 32 word \<Rightarrow> ('s, ('s, 'r) rpc_msg) xdrproc" where
  "replymsg_get mem buf xdrs rmsg =
     bind_outcome (IXDR_GET_LONG buf xdrs) (\<lambda>(v, buf). let rmsg = rmsg\<lparr>rm_xid := v\<rparr> in
     bind_outcome (IXDR_GET_LONG buf xdrs) (\<lambda>(v, buf). let rmsg = rmsg\<lparr>rm_direction := v\<rparr> in
     if rm_direction rmsg \<noteq> REPLY then Done (False, rmsg, xdrs)
     else
       bind_outcome (IXDR_GET_LONG buf xdrs) (\<lambda>(v, _). let rmsg = rmsg\<lparr>rm_ru := RM_rmb ((rm_reply rmsg)\<lparr>rp_stat := v\<rparr>)\<rparr> in
       if rp_stat (rm_reply rmsg) \<noteq> MSG_ACCEPTED then
         if rp_stat (rm_reply rmsg) = MSG_DENIED then in_reply (in_rjct xdr_rejected_reply) xdrs rmsg
         else Done (False, rmsg, xdrs)
       else
         in_reply (in_acpt
           (xdr_and (xdr_field (xdr_and get_auth_hdr (replymsg_get_verf mem)) ar_verf (\<lambda>v ar. ar\<lparr>ar_verf := v\<rparr>))
             (xdr_and (xdr_field xdr_enum ar_stat (\<lambda>v ar. ar\<lparr>ar_stat := v\<rparr>)) accepted_rest))) xdrs rmsg)))"

text \<open>The path that is not in line.\<close>

definition replymsg_slow :: "mem_alloc \<Rightarrow> ('s, ('s, 'r) rpc_msg) xdrproc" where
  "replymsg_slow mem =
     xdr_and (xdr_field xdr_u_long rm_xid (\<lambda>v m. m\<lparr>rm_xid := v\<rparr>))
       (xdr_and (xdr_field xdr_enum rm_direction (\<lambda>v m. m\<lparr>rm_direction := v\<rparr>))
       (xdr_and (xdr_check (\<lambda>m. rm_direction m = REPLY))
         (in_reply (xdr_field (xdr_union (reply_dscrm mem) None) (\<lambda>r. (rp_stat r, r)) (\<lambda>(d, r) _. r\<lparr>rp_stat := d\<rparr>)))))"

definition xdr_replymsg :: "mem_alloc \<Rightarrow> ('s, ('s, 'r) rpc_msg) xdrproc" where
  "xdr_replymsg mem xdrs rmsg =
     (if x_op xdrs = XDR_ENCODE \<and> rp_stat (rm_reply rmsg) = MSG_ACCEPTED \<and> rm_direction rmsg = REPLY then
        case XDR_INLINE (24 + RNDUP_u (oa_length (ar_verf (rp_acpt (rm_reply rmsg))))) xdrs of
          (Some buf, xdrs) \<Rightarrow> replymsg_put buf xdrs rmsg
        | (None, xdrs) \<Rightarrow> replymsg_slow mem xdrs rmsg
      else if x_op xdrs = XDR_DECODE then
        case XDR_INLINE 12 xdrs of
          (Some buf, xdrs) \<Rightarrow> replymsg_get mem buf xdrs rmsg
        | (None, xdrs) \<Rightarrow> replymsg_slow mem xdrs rmsg
      else replymsg_slow mem xdrs rmsg)"

text \<open>Header and body of a reply separately, for encoding only.\<close>

definition replymsg_hdr_put :: "32 word \<Rightarrow> ('s, ('s, 'r) rpc_msg) xdrproc" where
  "replymsg_hdr_put buf xdrs rmsg =
     (let ar = rp_acpt (rm_reply rmsg); oa = ar_verf ar in
      bind_outcome (IXDR_PUT_LONGS [rm_xid rmsg, rm_direction rmsg, rp_stat (rm_reply rmsg), oa_flavor oa, oa_length oa] buf xdrs)
        (\<lambda>(buf, xdrs). bind_outcome
           (if oa_length oa = 0 then Done (buf, xdrs)
            else bind_outcome (ixdr_bcopy (oa_base oa) buf (oa_length oa) xdrs)
              (\<lambda>xdrs. Done (buf + (oa_length oa + 3) div 4 * 4, xdrs)))
        (\<lambda>(buf, xdrs). bind_outcome (IXDR_PUT_LONG (ar_stat ar) buf xdrs)
        (\<lambda>(_, xdrs). Done (True, rmsg, xdrs)))))"

definition xdr_replymsg_hdr :: "mem_alloc \<Rightarrow> ('s, ('s, 'r) rpc_msg) xdrproc" where
  "xdr_replymsg_hdr mem xdrs rmsg =
     (if x_op xdrs \<noteq> XDR_ENCODE \<or> rp_stat (rm_reply rmsg) \<noteq> MSG_ACCEPTED \<or> rm_direction rmsg \<noteq> REPLY then Done (False, rmsg, xdrs)
      else
        case XDR_INLINE (24 + oa_length (ar_verf (rp_acpt (rm_reply rmsg)))) xdrs of
          (Some buf, xdrs) \<Rightarrow> replymsg_hdr_put buf xdrs rmsg
        | (None, xdrs) \<Rightarrow>
            xdr_and (xdr_field xdr_u_long rm_xid (\<lambda>v m. m\<lparr>rm_xid := v\<rparr>))
              (xdr_and (xdr_field xdr_enum rm_direction (\<lambda>v m. m\<lparr>rm_direction := v\<rparr>))
              (in_reply (xdr_and (xdr_field xdr_enum rp_stat (\<lambda>v r. r\<lparr>rp_stat := v\<rparr>))
                (in_acpt (xdr_and (xdr_field (xdr_opaque_auth mem) ar_verf (\<lambda>v ar. ar\<lparr>ar_verf := v\<rparr>))
                  (xdr_field xdr_enum ar_stat (\<lambda>v ar. ar\<lparr>ar_stat := v\<rparr>))))))) xdrs rmsg)"

definition xdr_replymsg_body :: "('s, ('s, 'r) rpc_msg) xdrproc" where
  "xdr_replymsg_body xdrs rmsg =
     (if x_op xdrs \<noteq> XDR_ENCODE then Done (False, rmsg, xdrs)
      else
        case ar_proc (rp_acpt (rm_reply rmsg)) of
          None \<Rightarrow> Done (True, rmsg, xdrs)
        | Some proc \<Rightarrow> in_reply (in_acpt (results_field proc)) xdrs rmsg)"

section \<open>Call messages\<close>

definition xdr_callhdr :: "('s, ('s, 'r) rpc_msg) xdrproc" where
  "xdr_callhdr xdrs cmsg =
     (let cmsg = cmsg\<lparr>rm_direction := CALL, rm_ru := RM_cmb ((rm_call cmsg)\<lparr>cb_rpcvers := RPC_MSG_VERSION\<rparr>)\<rparr> in
      if x_op xdrs \<noteq> XDR_ENCODE then Done (False, cmsg, xdrs)
      else
        xdr_and (xdr_field xdr_u_long rm_xid (\<lambda>v m. m\<lparr>rm_xid := v\<rparr>))
          (xdr_and (xdr_field xdr_enum rm_direction (\<lambda>v m. m\<lparr>rm_direction := v\<rparr>))
          (in_call (xdr_and (xdr_field xdr_u_long cb_rpcvers (\<lambda>v c. c\<lparr>cb_rpcvers := v\<rparr>))
            (xdr_and (xdr_field xdr_u_long cb_prog (\<lambda>v c. c\<lparr>cb_prog := v\<rparr>))
              (xdr_field xdr_u_long cb_vers (\<lambda>v c. c\<lparr>cb_vers := v\<rparr>)))))) xdrs cmsg)"

text \<open>Credential or verifier of a call in line: written without filler, and read as a pointer into the stream.\<close>

definition callmsg_put_auth :: "opaque_auth \<Rightarrow> 32 word \<Rightarrow> 's xdr \<Rightarrow> (32 word \<times> 's xdr) outcome" where
  "callmsg_put_auth oa buf xdrs =
     bind_outcome (IXDR_PUT_LONGS [oa_flavor oa, oa_length oa] buf xdrs) (\<lambda>(buf, xdrs).
       if oa_length oa = 0 then Done (buf, xdrs)
       else bind_outcome (ixdr_bcopy (oa_base oa) buf (oa_length oa) xdrs)
         (\<lambda>xdrs. Done (buf + RNDUP_u (oa_length oa) div 4 * 4, xdrs)))"

definition callmsg_put :: "32 word \<Rightarrow> ('s, ('s, 'r) rpc_msg) xdrproc" where
  "callmsg_put buf xdrs cmsg =
     (let c = rm_call cmsg in
      bind_outcome (IXDR_PUT_LONGS [rm_xid cmsg, rm_direction cmsg] buf xdrs) (\<lambda>(buf, xdrs).
      if rm_direction cmsg \<noteq> CALL then Done (False, cmsg, xdrs)
      else
        bind_outcome (IXDR_PUT_LONG (cb_rpcvers c) buf xdrs) (\<lambda>(buf, xdrs).
        if cb_rpcvers c \<noteq> RPC_MSG_VERSION then Done (False, cmsg, xdrs)
        else
          bind_outcome (IXDR_PUT_LONGS [cb_prog c, cb_vers c, cb_proc c] buf xdrs) (\<lambda>(buf, xdrs).
          bind_outcome (callmsg_put_auth (cb_cred c) buf xdrs) (\<lambda>(buf, xdrs).
          bind_outcome (callmsg_put_auth (cb_verf c) buf xdrs) (\<lambda>(_, xdrs). Done (True, cmsg, xdrs)))))))"

definition callmsg_get_auth :: "mem_alloc \<Rightarrow> ('s, opaque_auth) xdrproc" where
  "callmsg_get_auth mem xdrs oa =
     (let n = oa_length oa in
      if n = 0 then Done (True, oa, xdrs)
      else if n > MAX_AUTH_BYTES then Done (False, oa, xdrs)
      else
        case XDR_INLINE (RNDUP_u n) xdrs of
          (None, xdrs) \<Rightarrow>
            let base = (if oa_base oa = Null then Ptr (mem (unat n)) else oa_base oa) in
            bind_outcome (xdr_opaque n xdrs (bytes_at base)) (\<lambda>(ok, bs, xdrs). Done (ok, oa\<lparr>oa_base := store base bs\<rparr>, xdrs))
        | (Some buf, xdrs) \<Rightarrow>
            bind_outcome (x_load (x_ops xdrs) buf (unat n) (x_priv xdrs)) (\<lambda>bs. Done (True, oa\<lparr>oa_base := Ptr bs\<rparr>, xdrs)))"

definition callmsg_get :: "mem_alloc \<Rightarrow> 32 word \<Rightarrow> ('s, ('s, 'r) rpc_msg) xdrproc" where
  "callmsg_get mem buf xdrs cmsg =
     bind_outcome (IXDR_GET_LONG buf xdrs) (\<lambda>(v, buf). let cmsg = cmsg\<lparr>rm_xid := v\<rparr> in
     bind_outcome (IXDR_GET_LONG buf xdrs) (\<lambda>(v, buf). let cmsg = cmsg\<lparr>rm_direction := v\<rparr> in
     if rm_direction cmsg \<noteq> CALL then Done (False, cmsg, xdrs)
     else
       bind_outcome (IXDR_GET_LONG buf xdrs) (\<lambda>(v, buf). let cmsg = cmsg\<lparr>rm_ru := RM_cmb ((rm_call cmsg)\<lparr>cb_rpcvers := v\<rparr>)\<rparr> in
       if cb_rpcvers (rm_call cmsg) \<noteq> RPC_MSG_VERSION then Done (False, cmsg, xdrs)
       else
         bind_outcome (IXDR_GET_LONG buf xdrs) (\<lambda>(prog, buf).
         bind_outcome (IXDR_GET_LONG buf xdrs) (\<lambda>(vers, buf).
         bind_outcome (IXDR_GET_LONG buf xdrs) (\<lambda>(proc, buf).
         bind_outcome (IXDR_GET_LONG buf xdrs) (\<lambda>(f, buf).
         bind_outcome (IXDR_GET_LONG buf xdrs) (\<lambda>(n, _).
         let c = rm_call cmsg;
             cmsg = cmsg\<lparr>rm_ru := RM_cmb (c\<lparr>cb_prog := prog, cb_vers := vers, cb_proc := proc,
               cb_cred := (cb_cred c)\<lparr>oa_flavor := f, oa_length := n\<rparr>\<rparr>)\<rparr> in
         in_call (xdr_and (xdr_field (callmsg_get_auth mem) cb_cred (\<lambda>v c. c\<lparr>cb_cred := v\<rparr>))
           (xdr_field (xdr_and get_auth_hdr (callmsg_get_auth mem)) cb_verf (\<lambda>v c. c\<lparr>cb_verf := v\<rparr>))) xdrs cmsg))))))))"

definition callmsg_slow :: "mem_alloc \<Rightarrow> ('s, ('s, 'r) rpc_msg) xdrproc" where
  "callmsg_slow mem =
     xdr_and (xdr_field xdr_u_long rm_xid (\<lambda>v m. m\<lparr>rm_xid := v\<rparr>))
       (xdr_and (xdr_field xdr_enum rm_direction (\<lambda>v m. m\<lparr>rm_direction := v\<rparr>))
       (xdr_and (xdr_check (\<lambda>m. rm_direction m = CALL))
       (in_call (xdr_and (xdr_field xdr_u_long cb_rpcvers (\<lambda>v c. c\<lparr>cb_rpcvers := v\<rparr>))
         (xdr_and (xdr_check (\<lambda>c. cb_rpcvers c = RPC_MSG_VERSION))
         (xdr_and (xdr_field xdr_u_long cb_prog (\<lambda>v c. c\<lparr>cb_prog := v\<rparr>))
         (xdr_and (xdr_field xdr_u_long cb_vers (\<lambda>v c. c\<lparr>cb_vers := v\<rparr>))
         (xdr_and (xdr_field xdr_u_long cb_proc (\<lambda>v c. c\<lparr>cb_proc := v\<rparr>))
         (xdr_and (xdr_field (xdr_opaque_auth mem) cb_cred (\<lambda>v c. c\<lparr>cb_cred := v\<rparr>))
           (xdr_field (xdr_opaque_auth mem) cb_verf (\<lambda>v c. c\<lparr>cb_verf := v\<rparr>)))))))))))"

definition xdr_callmsg :: "mem_alloc \<Rightarrow> ('s, ('s, 'r) rpc_msg) xdrproc" where
  "xdr_callmsg mem xdrs cmsg =
     (let cred = cb_cred (rm_call cmsg); verf = cb_verf (rm_call cmsg) in
      case x_op xdrs of
        XDR_ENCODE \<Rightarrow>
          if oa_length cred > MAX_AUTH_BYTES then Done (False, cmsg, xdrs)
          else if oa_length verf > MAX_AUTH_BYTES then Done (False, cmsg, xdrs)
          else (case XDR_INLINE (32 + RNDUP_u (oa_length cred) + 8 + RNDUP_u (oa_length verf)) xdrs of
              (Some buf, xdrs) \<Rightarrow> callmsg_put buf xdrs cmsg
            | (None, xdrs) \<Rightarrow> callmsg_slow mem xdrs cmsg)
      | XDR_DECODE \<Rightarrow>
          (case XDR_INLINE 32 xdrs of
             (Some buf, xdrs) \<Rightarrow> callmsg_get mem buf xdrs cmsg
           | (None, xdrs) \<Rightarrow> callmsg_slow mem xdrs cmsg)
      | XDR_FREE \<Rightarrow> callmsg_slow mem xdrs cmsg)"

section \<open>Errors of replies\<close>

datatype clnt_stat = RPC_SUCCESS | RPC_CANTENCODEARGS | RPC_CANTDECODERES | RPC_CANTSEND | RPC_CANTRECV | RPC_TIMEDOUT | RPC_INTR
  | RPC_UDERROR | RPC_VERSMISMATCH | RPC_AUTHERROR | RPC_PROGUNAVAIL | RPC_PROGVERSMISMATCH | RPC_PROCUNAVAIL | RPC_CANTDECODEARGS
  | RPC_SYSTEMERROR | RPC_UNKNOWNHOST | RPC_UNKNOWNPROTO | RPC_UNKNOWNADDR | RPC_NOBROADCAST | RPC_RPCBFAILURE | RPC_PROGNOTREGISTERED
  | RPC_N2AXLATEFAILURE | RPC_TLIERROR | RPC_FAILED | RPC_INPROGRESS | RPC_STALERACHANDLE | RPC_CANTCONNECT | RPC_XPRTFAILED
  | RPC_CANTCREATESTREAM

fun clnt_stat_code :: "clnt_stat \<Rightarrow> 32 word" where
  "clnt_stat_code RPC_SUCCESS = 0"
| "clnt_stat_code RPC_CANTENCODEARGS = 1"
| "clnt_stat_code RPC_CANTDECODERES = 2"
| "clnt_stat_code RPC_CANTSEND = 3"
| "clnt_stat_code RPC_CANTRECV = 4"
| "clnt_stat_code RPC_TIMEDOUT = 5"
| "clnt_stat_code RPC_INTR = 18"
| "clnt_stat_code RPC_UDERROR = 23"
| "clnt_stat_code RPC_VERSMISMATCH = 6"
| "clnt_stat_code RPC_AUTHERROR = 7"
| "clnt_stat_code RPC_PROGUNAVAIL = 8"
| "clnt_stat_code RPC_PROGVERSMISMATCH = 9"
| "clnt_stat_code RPC_PROCUNAVAIL = 10"
| "clnt_stat_code RPC_CANTDECODEARGS = 11"
| "clnt_stat_code RPC_SYSTEMERROR = 12"
| "clnt_stat_code RPC_UNKNOWNHOST = 13"
| "clnt_stat_code RPC_UNKNOWNPROTO = 17"
| "clnt_stat_code RPC_UNKNOWNADDR = 19"
| "clnt_stat_code RPC_NOBROADCAST = 21"
| "clnt_stat_code RPC_RPCBFAILURE = 14"
| "clnt_stat_code RPC_PROGNOTREGISTERED = 15"
| "clnt_stat_code RPC_N2AXLATEFAILURE = 22"
| "clnt_stat_code RPC_TLIERROR = 20"
| "clnt_stat_code RPC_FAILED = 16"
| "clnt_stat_code RPC_INPROGRESS = 24"
| "clnt_stat_code RPC_STALERACHANDLE = 25"
| "clnt_stat_code RPC_CANTCONNECT = 26"
| "clnt_stat_code RPC_XPRTFAILED = 27"
| "clnt_stat_code RPC_CANTCREATESTREAM = 28"

text \<open>
  The status, and the two words of the union that follows it: the reason, the versions and the
  two longs \<^verbatim>\<open>re_lb\<close> all lie there.
\<close>

record rpc_err =
  re_status :: clnt_stat
  re_ru0 :: "32 word"
  re_ru1 :: "32 word"

abbreviation "re_why \<equiv> re_ru0"
abbreviation "re_vers_low \<equiv> re_ru0"
abbreviation "re_vers_high \<equiv> re_ru1"
abbreviation "re_lb_s1 \<equiv> re_ru0"
abbreviation "re_lb_s2 \<equiv> re_ru1"

definition accepted :: "32 word \<Rightarrow> rpc_err \<Rightarrow> rpc_err" where
  "accepted acpt_stat error =
     (if acpt_stat = PROG_UNAVAIL then error\<lparr>re_status := RPC_PROGUNAVAIL\<rparr>
      else if acpt_stat = PROG_MISMATCH then error\<lparr>re_status := RPC_PROGVERSMISMATCH\<rparr>
      else if acpt_stat = PROC_UNAVAIL then error\<lparr>re_status := RPC_PROCUNAVAIL\<rparr>
      else if acpt_stat = GARBAGE_ARGS then error\<lparr>re_status := RPC_CANTDECODEARGS\<rparr>
      else if acpt_stat = SYSTEM_ERR then error\<lparr>re_status := RPC_SYSTEMERROR\<rparr>
      else if acpt_stat = SUCCESS then error\<lparr>re_status := RPC_SUCCESS\<rparr>
      else error\<lparr>re_status := RPC_FAILED, re_ru0 := MSG_ACCEPTED, re_ru1 := acpt_stat\<rparr>)"

definition rejected :: "32 word \<Rightarrow> rpc_err \<Rightarrow> rpc_err" where
  "rejected rjct_stat error =
     (if rjct_stat = clnt_stat_code RPC_VERSMISMATCH then error\<lparr>re_status := RPC_VERSMISMATCH\<rparr>
      else if rjct_stat = AUTH_ERROR then error\<lparr>re_status := RPC_AUTHERROR\<rparr>
      else error\<lparr>re_status := RPC_FAILED, re_ru0 := MSG_DENIED, re_ru1 := rjct_stat\<rparr>)"

definition seterr_reply :: "('s, 'r) rpc_msg \<Rightarrow> rpc_err \<Rightarrow> rpc_err" where
  "seterr_reply msg error =
     (let ar = rp_acpt (rm_reply msg); rr = rp_rjct (rm_reply msg);
          details = (\<lambda>error. case re_status error of
              RPC_VERSMISMATCH \<Rightarrow> error\<lparr>re_ru0 := rj_vers_low rr, re_ru1 := rj_vers_high rr\<rparr>
            | RPC_AUTHERROR \<Rightarrow> error\<lparr>re_ru0 := rj_why rr\<rparr>
            | RPC_PROGVERSMISMATCH \<Rightarrow> error\<lparr>re_ru0 := ar_vers_low ar, re_ru1 := ar_vers_high ar\<rparr>
            | _ \<Rightarrow> error) in
      if rp_stat (rm_reply msg) = MSG_ACCEPTED then
        if ar_stat ar = SUCCESS then error\<lparr>re_status := RPC_SUCCESS\<rparr> else details (accepted (ar_stat ar) error)
      else if rp_stat (rm_reply msg) = MSG_DENIED then details (rejected (rj_stat rr) error)
      else details (error\<lparr>re_status := RPC_FAILED, re_ru0 := rp_stat (rm_reply msg)\<rparr>))"

definition xdr_rpc_free_verifier :: "mem_alloc \<Rightarrow> ('s, ('s, 'r) rpc_msg) xdrproc" where
  "xdr_rpc_free_verifier mem xdrs msg =
     (let ar = rp_acpt (rm_reply msg) in
      if rm_direction msg = REPLY \<and> rp_stat (rm_reply msg) = MSG_ACCEPTED \<and> ar_stat ar = SUCCESS \<and> oa_base (ar_verf ar) \<noteq> Null
      then in_reply (in_acpt (xdr_field (xdr_opaque_auth mem) ar_verf (\<lambda>v ar. ar\<lparr>ar_verf := v\<rparr>))) (xdrs\<lparr>x_op := XDR_FREE\<rparr>) msg
      else Done (True, msg, xdrs))"

end
