(* ===== verification/Xdr_Mblk.thy ===== *)
theory Xdr_Mblk
  imports Xdr_Mem
begin

text \<open>
  Streams on a chain of message blocks, \<^verbatim>\<open>uts/common/rpc/xdr_mblk.c\<close>, the second implementation of
  the interface of the filters: the operations. The chain grows by blocks that are allocated
  while it is written to.
\<close>

section \<open>Operations\<close>

text \<open>
  A message block with its data block: \<open>db_mem\<close> are the bytes from \<open>db_base\<close> to \<^verbatim>\<open>db_lim\<close>. Pointers
  are addresses of 32 bits; an access outside of the data block is an overrun. A chain linked
  by \<^verbatim>\<open>b_cont\<close> is the list of its blocks.
\<close>

record mblk =
  db_base :: "32 word"
  db_mem :: "byte list"
  db_ref :: "8 word"
  b_rptr :: "32 word"
  b_wptr :: "32 word"

definition db_lim :: "mblk \<Rightarrow> 32 word" where "db_lim m = db_base m + word_of_nat (length (db_mem m))"
definition bpsize :: "mblk \<Rightarrow> 32 word" where "bpsize m = db_lim m - db_base m"

definition blk_off :: "mblk \<Rightarrow> 32 word \<Rightarrow> nat" where "blk_off m p = unat (p - db_base m)"

definition blk_get :: "32 word \<Rightarrow> nat \<Rightarrow> mblk \<Rightarrow> byte list option" where
  "blk_get p n m = (if n = 0 \<or> blk_off m p + n \<le> length (db_mem m) then Some (take n (drop (blk_off m p) (db_mem m))) else None)"

definition blk_put :: "32 word \<Rightarrow> byte list \<Rightarrow> mblk \<Rightarrow> mblk option" where
  "blk_put p bs m =
     (let i = blk_off m p in
      if bs = [] \<or> i + length bs \<le> length (db_mem m)
      then Some (m\<lparr>db_mem := take i (db_mem m) @ bs @ drop (i + length bs) (db_mem m)\<rparr>)
      else None)"

text \<open>
  What a call of \<^verbatim>\<open>allocb\<close> does: it returns a block, or it fails and \<^verbatim>\<open>strwaitbuf\<close> then returns after
  memory was freed, or with an error.
\<close>

datatype alloc_result = Allocb mblk | Waited | Wait_failed

text \<open>
  The private fields of the handle: \<open>xb_chain\<close> is the chain at \<^verbatim>\<open>x_base\<close>, empty for a null pointer,
  \<open>xb_done\<close> are the blocks \<^verbatim>\<open>x_base\<close> has passed, \<open>xb_private\<close> is the size of the blocks to allocate,
  \<open>xb_op\<close> the operation the stream was made for, and \<open>xb_allocs\<close> what the next allocations do, where
  all those after the last one fail.
\<close>

record xdr_mblk =
  xb_op :: xdr_op
  xb_done :: "mblk list"
  xb_chain :: "mblk list"
  xb_handy :: "32 word"
  xb_private :: "32 word"
  xb_allocs :: "alloc_result list"

definition xb_next :: "xdr_mblk \<Rightarrow> xdr_mblk" where
  "xb_next s = s\<lparr>xb_done := xb_done s @ [hd (xb_chain s)], xb_chain := tl (xb_chain s)\<rparr>"

definition xb_set :: "mblk \<Rightarrow> xdr_mblk \<Rightarrow> xdr_mblk" where
  "xb_set m s = s\<lparr>xb_chain := m # tl (xb_chain s)\<rparr>"

function xdrmblk_getlong_loop :: "xdr_mblk \<Rightarrow> (32 word option \<times> xdr_mblk) outcome" where
  "xdrmblk_getlong_loop s =
     (case xb_chain s of
        [] \<Rightarrow> Done (None, s\<lparr>xb_handy := 0\<rparr>)
      | m # ms \<Rightarrow>
          let s = s\<lparr>xb_handy := xb_handy s - 4\<rparr> in
          if sint (xb_handy s) < 0 then
            if xb_handy s \<noteq> - 4 then Done (None, s)
            else xdrmblk_getlong_loop
              (let s = xb_next s in case ms of [] \<Rightarrow> s | m # _ \<Rightarrow> s\<lparr>xb_handy := b_wptr m - b_rptr m\<rparr>)
          else
            case blk_get (b_rptr m) 4 m of
              None \<Rightarrow> Overrun
            | Some bs \<Rightarrow> Done (Some (of_be32 bs), xb_set (m\<lparr>b_rptr := b_rptr m + 4\<rparr>) s))"
  by pat_completeness auto
termination
  by (relation "measure (\<lambda>s. length (xb_chain s))") (auto simp: xb_next_def Let_def split: list.splits)

definition xdrmblk_getlong :: "xdr_mblk \<Rightarrow> (32 word option \<times> xdr_mblk) outcome" where
  "xdrmblk_getlong s = (if xb_chain s = [] then Done (None, s) else xdrmblk_getlong_loop s)"

fun xdrmblk_alloc_loop :: "alloc_result list \<Rightarrow> mblk option \<times> alloc_result list" where
  "xdrmblk_alloc_loop [] = (None, [])"
| "xdrmblk_alloc_loop (Allocb mp # rs) = (Some mp, rs)"
| "xdrmblk_alloc_loop (Waited # rs) = xdrmblk_alloc_loop rs"
| "xdrmblk_alloc_loop (Wait_failed # rs) = (None, rs)"

definition xdrmblk_alloc :: "32 word \<Rightarrow> alloc_result list \<Rightarrow> mblk option \<times> alloc_result list" where
  "xdrmblk_alloc sz rs = (if sz = 0 then (None, rs) else xdrmblk_alloc_loop rs)"

text \<open>The block as \<^verbatim>\<open>XDRMBLK_SETHANDY\<close> leaves it, and \<^verbatim>\<open>x_handy\<close>.\<close>

definition XDRMBLK_SETHANDY :: "mblk \<Rightarrow> 32 word \<Rightarrow> 32 word \<Rightarrow> mblk \<times> 32 word" where
  "XDRMBLK_SETHANDY mp blen adjust =
     (let mpsize = bpsize mp;
          mp = (if sint mpsize div 2 \<le> sint blen
                then let r = b_rptr mp + (mpsize - blen) in mp\<lparr>b_rptr := r, b_wptr := r\<rparr> else mp)
      in (mp, db_lim mp - b_rptr mp - adjust))"

text \<open>
  The next block of a stream that is written to, the one behind the current block or a new
  one; \<open>adjust\<close> bytes of it are taken.
\<close>

definition xb_grow :: "32 word \<Rightarrow> xdr_mblk \<Rightarrow> xdr_mblk" where
  "xb_grow adjust s =
     (case tl (xb_chain s) of
        [] \<Rightarrow>
          let (r, rs) = xdrmblk_alloc (xb_private s) (xb_allocs s); s = (xb_next s)\<lparr>xb_allocs := rs\<rparr> in
          (case r of
             None \<Rightarrow> s\<lparr>xb_handy := 0\<rparr>
           | Some mp \<Rightarrow> let (mp, handy) = XDRMBLK_SETHANDY mp (xb_private s) adjust in s\<lparr>xb_chain := [mp], xb_handy := handy\<rparr>)
      | m # _ \<Rightarrow> (xb_next s)\<lparr>xb_handy := db_lim m - b_rptr m - adjust\<rparr>)"

definition xdrmblk_putlong :: "32 word \<Rightarrow> xdr_mblk \<Rightarrow> (bool \<times> xdr_mblk) outcome" where
  "xdrmblk_putlong l s =
     (if xb_chain s = [] then Done (False, s)
      else
        let s = s\<lparr>xb_handy := xb_handy s - 4\<rparr>; s = (if sint (xb_handy s) < 0 then xb_grow 4 s else s) in
        case xb_chain s of
          [] \<Rightarrow> Done (False, s)
        | m # _ \<Rightarrow>
            (case blk_put (b_wptr m) (be32 l) m of
               None \<Rightarrow> Overrun
             | Some m \<Rightarrow> Done (True, xb_set (m\<lparr>b_wptr := b_wptr m + 4\<rparr>) s)))"

text \<open>
  \<open>xdrmblk_getbytes\<close> fills \<open>addr\<close>; \<open>i\<close> is how far its pointer has advanced. \<^verbatim>\<open>bcopy\<close> takes the length
  as unsigned.
\<close>

function xdrmblk_getbytes_loop :: "byte list \<Rightarrow> nat \<Rightarrow> 32 word \<Rightarrow> xdr_mblk \<Rightarrow> (bool \<times> byte list \<times> xdr_mblk) outcome" where
  "xdrmblk_getbytes_loop addr i len s =
     (case xb_chain s of
        [] \<Rightarrow> Done (False, addr, s\<lparr>xb_handy := 0\<rparr>)
      | m # ms \<Rightarrow>
          let n = (if sint (xb_handy s - len) < 0 then if sint (xb_handy s) > 0 then xb_handy s else 0 else len) in
          if length addr < i + unat n then Overrun
          else
            case blk_get (b_rptr m) (unat n) m of
              None \<Rightarrow> Overrun
            | Some bs \<Rightarrow>
                let addr = take i addr @ bs @ drop (i + unat n) addr; s' = xb_set (m\<lparr>b_rptr := b_rptr m + n\<rparr>) s in
                if sint (xb_handy s - len) < 0 then
                  xdrmblk_getbytes_loop addr (i + unat n) (len - n)
                    (let s = xb_next s' in case ms of [] \<Rightarrow> s | m # _ \<Rightarrow> s\<lparr>xb_handy := b_wptr m - b_rptr m\<rparr>)
                else Done (True, addr, s'\<lparr>xb_handy := xb_handy s - len\<rparr>))"
  by pat_completeness auto
termination
  by (relation "measure (\<lambda>(_, _, _, s). length (xb_chain s))") (auto simp: xb_next_def xb_set_def Let_def split: list.splits)

definition xdrmblk_getbytes :: "byte list \<Rightarrow> 32 word \<Rightarrow> xdr_mblk \<Rightarrow> (bool \<times> byte list \<times> xdr_mblk) outcome" where
  "xdrmblk_getbytes addr len s = (if xb_chain s = [] then Done (False, addr, s) else xdrmblk_getbytes_loop addr 0 len s)"

text \<open>
  Copying \<open>n\<close> bytes to the write pointer, byte by byte or with \<^verbatim>\<open>bcopy\<close>; the bytes that are left
  and the block.
\<close>

primrec copy_loop :: "nat \<Rightarrow> byte list \<Rightarrow> mblk \<Rightarrow> (byte list \<times> mblk) option" where
  "copy_loop 0 addr m = Some (addr, m)"
| "copy_loop (Suc n) addr m =
     (case addr of
        [] \<Rightarrow> None
      | b # addr \<Rightarrow> (case blk_put (b_wptr m) [b] m of None \<Rightarrow> None | Some m \<Rightarrow> copy_loop n addr (m\<lparr>b_wptr := b_wptr m + 1\<rparr>)))"

definition copy_bcopy :: "32 word \<Rightarrow> byte list \<Rightarrow> mblk \<Rightarrow> (byte list \<times> mblk) option" where
  "copy_bcopy n addr m =
     (if length addr < unat n then None
      else case blk_put (b_wptr m) (take (unat n) addr) m of
        None \<Rightarrow> None
      | Some m \<Rightarrow> Some (drop (unat n) addr, m\<lparr>b_wptr := b_wptr m + n\<rparr>))"

definition xb_copy :: "32 word \<Rightarrow> byte list \<Rightarrow> mblk \<Rightarrow> (byte list \<times> mblk) option" where
  "xb_copy n addr m = (if sint n < 16 then copy_loop (unat n) addr m else copy_bcopy n addr m)"

text \<open>
  The chain ends, or its next block is entered: both use up a block of the chain or a result
  of the allocator.
\<close>

definition xb_left :: "xdr_mblk \<Rightarrow> nat" where
  "xb_left s = 2 * length (xb_chain s) + 2 * length (xb_allocs s) + (if xb_chain s = [] then 0 else 1)"

lemma alloc_loop_uses: "xdrmblk_alloc_loop rs = (r, rs') \<Longrightarrow> length rs' \<le> length rs \<and> (r \<noteq> None \<longrightarrow> length rs' < length rs)"
  by (induction rs rule: xdrmblk_alloc_loop.induct) auto

lemma xb_grow_left: "xb_chain s \<noteq> [] \<Longrightarrow> xb_left (xb_grow adjust s) < xb_left s"
proof -
  obtain r rs where r: "xdrmblk_alloc (xb_private s) (xb_allocs s) = (r, rs)"
    by fastforce
  then have "length rs \<le> length (xb_allocs s) \<and> (r \<noteq> None \<longrightarrow> length rs < length (xb_allocs s))"
    using alloc_loop_uses [of "xb_allocs s"] by (auto simp: xdrmblk_alloc_def split: if_splits)
  moreover assume "xb_chain s \<noteq> []"
  ultimately show ?thesis
    using r by (cases "xb_chain s"; cases "tl (xb_chain s)"; cases r) (auto simp: xb_grow_def xb_left_def xb_next_def Let_def split_beta)
qed

lemma xb_left_set [simp]: "xb_chain s \<noteq> [] \<Longrightarrow> xb_left (xb_set m s) = xb_left s"
  by (simp add: xb_left_def xb_set_def)

function xdrmblk_putbytes_loop :: "byte list \<Rightarrow> 32 word \<Rightarrow> xdr_mblk \<Rightarrow> (bool \<times> xdr_mblk) outcome" where
  "xdrmblk_putbytes_loop addr len s =
     (case xb_chain s of
        [] \<Rightarrow> Done (False, s)
      | m # _ \<Rightarrow>
          let n = (if sint (xb_handy s - len) < 0 then if sint (xb_handy s) > 0 then xb_handy s else 0 else len) in
          case xb_copy n addr m of
            None \<Rightarrow> Overrun
          | Some (addr, m) \<Rightarrow>
              let s' = xb_set m s in
              if sint (xb_handy s - len) < 0 then xdrmblk_putbytes_loop addr (len - n) (xb_grow 0 s')
              else Done (True, s'\<lparr>xb_handy := xb_handy s - len\<rparr>))"
  by pat_completeness auto
termination
proof (relation "measure (\<lambda>(_, _, s). xb_left s)")
  fix addr :: "byte list" and len :: "32 word" and s m ms n q addr' m' s'
  assume "xb_chain s = m # ms" and "s' = xb_set m' s"
  then show "((addr', len - n, xb_grow 0 s'), (addr, len, s)) \<in> measure (\<lambda>(_, _, s). xb_left s)"
    using xb_grow_left [of s' 0] xb_left_set [of s m'] by (simp add: xb_set_def)
qed simp

definition xdrmblk_putbytes :: "byte list \<Rightarrow> 32 word \<Rightarrow> xdr_mblk \<Rightarrow> (bool \<times> xdr_mblk) outcome" where
  "xdrmblk_putbytes addr len s = xdrmblk_putbytes_loop addr len s"

text \<open>
  \<open>xdrmblk_getmblk\<close> returns what it stores at \<^verbatim>\<open>mm\<close> and \<^verbatim>\<open>lenp\<close>, if it does.
\<close>

definition xdrmblk_getmblk :: "xdr_mblk \<Rightarrow> (bool \<times> (mblk list \<times> 32 word) option \<times> xdr_mblk) outcome" where
  "xdrmblk_getmblk s =
     bind_outcome (xdrmblk_getlong s) (\<lambda>(r, s).
       case r of
         None \<Rightarrow> Done (False, None, s)
       | Some llen \<Rightarrow>
           let len = sum_list (map (\<lambda>m. b_wptr m - b_rptr m) (xb_chain s)); res = Some (xb_chain s, llen) in
           if sint len < sint llen then Done (False, res, s)
           else Done (True, res, s\<lparr>xb_chain := [], xb_handy := 0\<rparr>))"

text \<open>\<open>m\<close> is the first block of the chain that is added, \<open>cont\<close> the others.\<close>

definition xdrmblk_putmblk :: "mblk \<Rightarrow> mblk list \<Rightarrow> 32 word \<Rightarrow> xdr_mblk \<Rightarrow> (bool \<times> xdr_mblk) outcome" where
  "xdrmblk_putmblk m cont len s =
     (if (b_wptr m - b_rptr m) mod 4 \<noteq> 0 then Done (False, s)
      else bind_outcome (xdrmblk_putlong len s) (\<lambda>(ok, s).
        if \<not> ok then Done (False, s)
        else Done (True, (xb_next s)\<lparr>xb_chain := m # cont, xb_handy := 0\<rparr>)))"

definition xdrmblk_getpos :: "xdr_mblk \<Rightarrow> 32 word outcome" where
  "xdrmblk_getpos s =
     (case xb_chain s of
        [] \<Rightarrow> Panic
      | m # _ \<Rightarrow> Done (if xb_op s = XDR_DECODE then b_rptr m - db_base m else b_wptr m - db_base m))"

definition xdrmblk_setpos :: "32 word \<Rightarrow> xdr_mblk \<Rightarrow> bool \<times> xdr_mblk" where
  "xdrmblk_setpos pos s =
     (case xb_chain s of
        [] \<Rightarrow> (False, s)
      | m # _ \<Rightarrow>
          let newaddr = db_base m + pos in
          if xb_op s = XDR_DECODE then
            if newaddr > b_wptr m then (False, s)
            else (True, (xb_set (m\<lparr>b_rptr := newaddr\<rparr>) s)\<lparr>xb_handy := b_wptr m - newaddr\<rparr>)
          else
            if newaddr > db_lim m then (False, s)
            else (True, (xb_set (m\<lparr>b_wptr := newaddr\<rparr>) s)\<lparr>xb_handy := db_lim m - newaddr\<rparr>))"

definition xdrmblk_inline :: "32 word \<Rightarrow> xdr_mblk \<Rightarrow> 32 word option \<times> xdr_mblk" where
  "xdrmblk_inline len s =
     (if xb_op s = XDR_FREE \<or> sint (xb_handy s) < sint len then (None, s)
      else
        case xb_chain s of
          [] \<Rightarrow> (None, s)
        | m # _ \<Rightarrow>
            if db_ref m \<noteq> 1 then (None, s)
            else
              let s = s\<lparr>xb_handy := xb_handy s - len\<rparr> in
              if xb_op s = XDR_DECODE then (Some (b_rptr m), xb_set (m\<lparr>b_rptr := b_rptr m + len\<rparr>) s)
              else (Some (b_wptr m), xb_set (m\<lparr>b_wptr := b_wptr m + len\<rparr>) s))"

function xdrmblk_skip_loop :: "32 word \<Rightarrow> xdr_mblk \<Rightarrow> bool \<times> xdr_mblk" where
  "xdrmblk_skip_loop len s =
     (case xb_chain s of
        [] \<Rightarrow> (False, s\<lparr>xb_handy := 0\<rparr>)
      | m # ms \<Rightarrow>
          let n = (if sint (xb_handy s - len) < 0 then if sint (xb_handy s) > 0 then xb_handy s else 0 else len);
              s' = xb_set (m\<lparr>b_rptr := b_rptr m + n\<rparr>) s in
          if sint (xb_handy s - len) < 0 then
            xdrmblk_skip_loop (len - n) (let s = xb_next s' in case ms of [] \<Rightarrow> s | m # _ \<Rightarrow> s\<lparr>xb_handy := b_wptr m - b_rptr m\<rparr>)
          else (True, s'\<lparr>xb_handy := xb_handy s - len\<rparr>))"
  by pat_completeness auto
termination
  by (relation "measure (\<lambda>(_, s). length (xb_chain s))") (auto simp: xb_next_def xb_set_def Let_def split: list.splits)

definition xdrmblk_control :: "xdr_request \<Rightarrow> xdr_mblk \<Rightarrow> (32 word option \<times> bool \<times> xdr_mblk) outcome" where
  "xdrmblk_control request s =
     (case request of
        XDR_PEEK \<Rightarrow>
          if xb_handy s < 4 then Done (None, False, s)
          else (case xb_chain s of
                  [] \<Rightarrow> Done (None, False, s)
                | m # _ \<Rightarrow> (case blk_get (b_rptr m) 4 m of None \<Rightarrow> Overrun | Some bs \<Rightarrow> Done (Some (of_be32 bs), True, s)))
      | XDR_SKIPBYTES info \<Rightarrow>
          if xb_chain s = [] then Done (None, False, s)
          else let (ok, s) = xdrmblk_skip_loop (RNDUP info) s in Done (None, ok, s)
      | XDR_other \<Rightarrow> Done (None, False, s))"

text \<open>Memory of the current block, read and written through an address.\<close>

definition xb_load :: "32 word \<Rightarrow> nat \<Rightarrow> xdr_mblk \<Rightarrow> byte list outcome" where
  "xb_load a n s =
     (case xb_chain s of
        [] \<Rightarrow> Overrun
      | m # _ \<Rightarrow> (case blk_get a n m of None \<Rightarrow> Overrun | Some bs \<Rightarrow> Done bs))"

definition xb_store :: "32 word \<Rightarrow> byte list \<Rightarrow> xdr_mblk \<Rightarrow> xdr_mblk outcome" where
  "xb_store a bs s =
     (case xb_chain s of
        [] \<Rightarrow> Overrun
      | m # _ \<Rightarrow> (case blk_put a bs m of None \<Rightarrow> Overrun | Some m \<Rightarrow> Done (xb_set m s)))"

definition xdrmblk_ops :: "xdr_mblk xdr_ops" where
  "xdrmblk_ops = \<lparr>x_getlong = xdrmblk_getlong, x_putlong = xdrmblk_putlong, x_getbytes = xdrmblk_getbytes,
     x_putbytes = xdrmblk_putbytes, x_getpostn = xdrmblk_getpos, x_setpostn = xdrmblk_setpos,
     x_inline = xdrmblk_inline, x_control = xdrmblk_control, x_load = xb_load, x_store = xb_store\<rparr>"

text \<open>The stream on the chain of the block \<open>m\<close> and the blocks \<open>cont\<close> behind it.\<close>

definition xdrmblk_init :: "mblk \<Rightarrow> mblk list \<Rightarrow> xdr_op \<Rightarrow> 32 word \<Rightarrow> alloc_result list \<Rightarrow> xdr_mblk xdr" where
  "xdrmblk_init m cont op sz allocs =
     \<lparr>x_op = op, x_ops = xdrmblk_ops,
      x_priv = \<lparr>xb_op = op, xb_done = [], xb_chain = m # cont,
        xb_handy = (if op = XDR_DECODE then b_wptr m - b_rptr m else db_lim m - db_base m),
        xb_private = sz, xb_allocs = allocs\<rparr>\<rparr>"

end
