(* ===== verification/Xdr_Chain.thy ===== *)
theory Xdr_Chain
  imports Xdr_Mblk
begin

text \<open>
  Streams on message blocks implement the interface of the filters: a chain can be written to
  as long as blocks can be allocated, and what was written can be read back from blocks that are
  cut at the boundaries of units, the end of the last block being anywhere.
\<close>

declare xdrmblk_getlong_loop.simps [simp del] xdrmblk_getbytes_loop.simps [simp del]
  xdrmblk_putbytes_loop.simps [simp del] xdrmblk_skip_loop.simps [simp del]

section \<open>One block\<close>

text \<open>The pointers of a block are in order; its data, and the bytes that can be written.\<close>

definition blk_ok :: "mblk \<Rightarrow> bool" where
  "blk_ok m \<longleftrightarrow> length (db_mem m) < 2147483648 \<and> blk_off m (b_rptr m) \<le> blk_off m (b_wptr m)
     \<and> blk_off m (b_wptr m) \<le> length (db_mem m)"

definition blk_data :: "mblk \<Rightarrow> byte list" where
  "blk_data m = take (blk_off m (b_wptr m) - blk_off m (b_rptr m)) (drop (blk_off m (b_rptr m)) (db_mem m))"

definition blk_space :: "mblk \<Rightarrow> nat" where
  "blk_space m = length (db_mem m) - blk_off m (b_wptr m)"

lemma handy_sub:
  assumes "unat len \<le> unat (h :: 32 word)" and "unat h < 2147483648"
  shows "unat (h - len) = unat h - unat len" and "\<not> sint (h - len) < 0"
proof -
  show "unat (h - len) = unat h - unat len"
    using assms(1) by (simp add: unat_sub word_le_nat_alt)
  then show "\<not> sint (h - len) < 0"
    using assms(2) by (simp add: sint_neg)
qed

lemma handy_short:
  assumes "unat (h :: 32 word) < unat len" and "unat len < 2147483648"
  shows "sint (h - len) < 0"
  using assms unat_sub_if' [of h len] by (simp add: sint_neg)

lemma sint_pos_small: "unat (h :: 32 word) < 2147483648 \<Longrightarrow> 0 < sint h \<longleftrightarrow> h \<noteq> 0"
  using unat_gt_0 [of h] by (simp add: sint_small del: of_nat_unat)

lemma blk_len:
  assumes "blk_ok m"
  shows "length (blk_data m) = unat (b_wptr m - b_rptr m)" and "length (blk_data m) < 2147483648"
    and "blk_off m (b_rptr m) + length (blk_data m) = blk_off m (b_wptr m)"
proof -
  have "b_wptr m - b_rptr m = (b_wptr m - db_base m) - (b_rptr m - db_base m)"
    by simp
  moreover have "b_rptr m - db_base m \<le> b_wptr m - db_base m"
    using assms by (simp add: blk_ok_def blk_off_def word_le_nat_alt)
  ultimately have "unat (b_wptr m - b_rptr m) = blk_off m (b_wptr m) - blk_off m (b_rptr m)"
    unfolding blk_off_def by (metis unat_sub)
  with assms show "length (blk_data m) = unat (b_wptr m - b_rptr m)" "length (blk_data m) < 2147483648"
    "blk_off m (b_rptr m) + length (blk_data m) = blk_off m (b_wptr m)"
    by (auto simp: blk_ok_def blk_data_def)
qed

lemma off_add:
  assumes "blk_off m p + unat n < 4294967296"
  shows "blk_off m (p + n) = blk_off m p + unat n"
proof -
  have "unat ((p - db_base m) + n) = blk_off m p + unat n"
    using assms by (simp add: unat_word_ariths blk_off_def)
  then show ?thesis
    by (simp add: blk_off_def algebra_simps)
qed

text \<open>Reading from the front of the data.\<close>

lemma blk_read:
  assumes "blk_ok m" and "unat n \<le> length (blk_data m)"
  shows "blk_get (b_rptr m) (unat n) m = Some (take (unat n) (blk_data m))" and "blk_ok (m\<lparr>b_rptr := b_rptr m + n\<rparr>)"
    and "blk_data (m\<lparr>b_rptr := b_rptr m + n\<rparr>) = drop (unat n) (blk_data m)"
proof -
  note l = blk_len [OF assms(1)]
  have o: "blk_off (m\<lparr>b_rptr := b_rptr m + n\<rparr>) (b_rptr m + n) = blk_off m (b_rptr m) + unat n"
    using off_add [of m "b_rptr m" n] assms l(3) by (simp add: blk_ok_def blk_off_def)
  show "blk_get (b_rptr m) (unat n) m = Some (take (unat n) (blk_data m))"
    using assms l(3) by (auto simp: blk_get_def blk_data_def blk_ok_def min_def)
  show "blk_ok (m\<lparr>b_rptr := b_rptr m + n\<rparr>)"
    using assms o l(3) by (simp add: blk_ok_def blk_off_def)
  show "blk_data (m\<lparr>b_rptr := b_rptr m + n\<rparr>) = drop (unat n) (blk_data m)"
    using assms o l(3) by (simp add: blk_data_def blk_off_def drop_take add.commute)
qed

text \<open>Writing behind the data.\<close>

lemma blk_write:
  assumes "blk_ok m" and "unat n \<le> blk_space m" and "length bs = unat n"
  obtains m1 where "blk_put (b_wptr m) bs m = Some m1" "blk_ok (m1\<lparr>b_wptr := b_wptr m1 + n\<rparr>)"
    "blk_data (m1\<lparr>b_wptr := b_wptr m1 + n\<rparr>) = blk_data m @ bs" "blk_space (m1\<lparr>b_wptr := b_wptr m1 + n\<rparr>) = blk_space m - unat n"
    "b_wptr m1 = b_wptr m" "db_base m1 = db_base m" "length (db_mem m1) = length (db_mem m)"
proof -
  let ?r = "blk_off m (b_rptr m)" and ?w = "blk_off m (b_wptr m)"
  let ?m1 = "m\<lparr>db_mem := take ?w (db_mem m) @ bs @ drop (?w + length bs) (db_mem m)\<rparr>"
  let ?m = "?m1\<lparr>b_wptr := b_wptr ?m1 + n\<rparr>"
  have fit: "?w + unat n \<le> length (db_mem m)"
    using assms(1,2) by (auto simp: blk_space_def blk_ok_def)
  have o: "blk_off ?m (b_wptr ?m) = ?w + unat n" "blk_off ?m (b_rptr ?m) = ?r"
    using off_add [of m "b_wptr m" n] fit assms(1) by (simp_all add: blk_ok_def blk_off_def)
  have len: "length (db_mem ?m) = length (db_mem m)"
    using fit assms(3) by simp
  have rw: "?r \<le> ?w" "?w \<le> length (db_mem m)"
    using assms(1) by (simp_all add: blk_ok_def)
  show thesis
  proof (rule that [of ?m1])
    show "blk_put (b_wptr m) bs m = Some ?m1"
      using fit assms(3) by (simp add: blk_put_def Let_def)
    show "blk_ok ?m"
      unfolding blk_ok_def o len using fit rw assms(1) by (simp add: blk_ok_def)
    show "blk_space ?m = blk_space m - unat n"
      unfolding blk_space_def o len by simp
    have "drop ?r (take ?w (db_mem m) @ bs @ drop (?w + length bs) (db_mem m))
        = take (?w - ?r) (drop ?r (db_mem m)) @ bs @ drop (?w + length bs) (db_mem m)"
      using rw by (simp add: drop_take)
    moreover have "?w + unat n - ?r = length (take (?w - ?r) (drop ?r (db_mem m))) + length bs"
      using rw fit assms(3) by simp
    ultimately have "take (?w + unat n - ?r) (drop ?r (take ?w (db_mem m) @ bs @ drop (?w + length bs) (db_mem m)))
        = take (?w - ?r) (drop ?r (db_mem m)) @ bs"
      by simp
    then show "blk_data ?m = blk_data m @ bs"
      unfolding blk_data_def o by simp
  qed (use len in simp_all)
qed

text \<open>Short copies are done in line: the loop does what \<^verbatim>\<open>bcopy\<close> does.\<close>

lemma copy_loop_eq:
  assumes "blk_ok m"
  shows "copy_loop k addr m =
    (if length addr < k then None
     else case blk_put (b_wptr m) (take k addr) m of
       None \<Rightarrow> None | Some m \<Rightarrow> Some (drop k addr, m\<lparr>b_wptr := b_wptr m + word_of_nat k\<rparr>))"
  using assms
proof (induction k arbitrary: addr m)
  case 0
  then show ?case
    by (simp add: blk_put_def Let_def)
next
  case (Suc k)
  show ?case
  proof (cases addr)
    case Nil
    then show ?thesis by simp
  next
    case (Cons b bs)
    let ?w = "blk_off m (b_wptr m)"
    show ?thesis
    proof (cases "?w + 1 \<le> length (db_mem m)")
      case False
      then show ?thesis
        using Cons by (simp add: blk_put_def Let_def)
    next
      case True
      let ?m1 = "m\<lparr>db_mem := take ?w (db_mem m) @ [b] @ drop (?w + 1) (db_mem m)\<rparr>"
      let ?m = "?m1\<lparr>b_wptr := b_wptr ?m1 + 1\<rparr>"
      have put: "blk_put (b_wptr m) [b] m = Some ?m1"
        using True by (simp add: blk_put_def Let_def)
      have "unat (1 :: 32 word) \<le> blk_space m"
        using True by (simp add: blk_space_def)
      from blk_write [OF Suc.prems this, of "[b]"] have ok: "blk_ok ?m"
        using put by auto
      have o: "blk_off ?m (b_wptr ?m) = ?w + 1"
        using off_add [of m "b_wptr m" 1] True Suc.prems by (simp add: blk_ok_def blk_off_def)
      have "blk_put (b_wptr ?m) (take k bs) ?m = map_option (\<lambda>m. m\<lparr>b_wptr := b_wptr m + 1\<rparr>) (blk_put (b_wptr m) (take (Suc k) (b # bs)) m)"
        using True unfolding blk_put_def Let_def o by (cases m) (auto simp: take_Suc_conv_app_nth add.commute)
      then show ?thesis
        using Suc.IH [OF ok, of bs] Cons put by (auto split: option.splits simp: add.commute add.left_commute)
    qed
  qed
qed

lemma copy_loop_bcopy: "blk_ok m \<Longrightarrow> copy_loop (unat n) addr m = copy_bcopy n addr m"
  by (simp add: copy_loop_eq copy_bcopy_def cong: option.case_cong)

lemma xb_copy_bcopy: "blk_ok m \<Longrightarrow> xb_copy n addr m = copy_bcopy n addr m"
  by (simp add: xb_copy_def copy_loop_bcopy)

lemma blk_copy:
  assumes "blk_ok m" and "unat n \<le> blk_space m" and "unat n \<le> length addr"
  obtains m' where "xb_copy n addr m = Some (drop (unat n) addr, m')" "blk_ok m'"
    "blk_data m' = blk_data m @ take (unat n) addr" "blk_space m' = blk_space m - unat n"
proof -
  have "length (take (unat n) addr) = unat n"
    using assms(3) by simp
  then show thesis
    by (rule blk_write [OF assms(1,2)]) (rule that, use assms(1,3) in \<open>simp_all add: xb_copy_bcopy copy_bcopy_def\<close>)
qed

section \<open>Reading a chain\<close>

text \<open>
  The blocks are in order, the chain holds less than \<open>2\<^sup>3\<^sup>1\<close> bytes, and \<^verbatim>\<open>x_handy\<close> is what is left of
  the current block. Of the blocks that follow it, all but the last hold whole units; the
  last one, which may end with the message inside of a unit, holds \<open>r\<close> bytes more than that.
\<close>

definition xb_inp :: "xdr_mblk \<Rightarrow> byte list" where
  "xb_inp s = concat (map blk_data (xb_chain s))"

definition xbi_ok :: "nat \<Rightarrow> xdr_mblk \<Rightarrow> bool" where
  "xbi_ok r s \<longleftrightarrow> xb_op s = XDR_DECODE \<and> xb_chain s \<noteq> [] \<and> (\<forall>m\<in>set (xb_chain s). blk_ok m)
     \<and> (\<forall>m\<in>set (butlast (tl (xb_chain s))). 4 dvd length (blk_data m))
     \<and> (tl (xb_chain s) \<noteq> [] \<longrightarrow> length (blk_data (last (xb_chain s))) mod 4 = r mod 4)
     \<and> length (xb_inp s) < 2147483648 \<and> xb_handy s = b_wptr (hd (xb_chain s)) - b_rptr (hd (xb_chain s))"

text \<open>The position in the unit: what was read is the message, of \<open>r\<close> bytes more than whole units, less what is left.\<close>

definition xb_phase :: "nat \<Rightarrow> xdr_mblk \<Rightarrow> nat" where
  "xb_phase r s = (r + 3 * length (xb_inp s)) mod 4"

lemma xb_phase_zero: "xb_phase r s = 0 \<longleftrightarrow> length (xb_inp s) mod 4 = r mod 4"
proof -
  let ?i = "r mod 4" and ?j = "length (xb_inp s) mod 4"
  have "(r + 3 * l) mod 4 = (r mod 4 + 3 * (l mod 4)) mod 4" for l
    by (subst mod_add_eq [symmetric], subst mod_mult_right_eq [symmetric]) (rule mod_add_right_eq)
  then have "xb_phase r s = (?i + 3 * ?j) mod 4"
    unfolding xb_phase_def .
  moreover have "n mod 4 = 0 \<or> n mod 4 = 1 \<or> n mod 4 = 2 \<or> n mod 4 = 3" for n :: nat
    using mod_less_divisor [of 4 n] by linarith
  then have "?i \<in> {0, 1, 2, 3}" "?j \<in> {0, 1, 2, 3}"
    by auto
  ultimately show ?thesis
    by auto
qed

lemma xb_phase_drop:
  assumes "xb_inp s' = drop n (xb_inp s)" and "n \<le> length (xb_inp s)"
  shows "xb_phase r s' = (xb_phase r s + n) mod 4"
proof -
  obtain k where k: "length (xb_inp s) = n + k"
    using assms(2) le_iff_add by blast
  have "(xb_phase r s + n) mod 4 = (r + 3 * k + n * 4) mod 4"
    unfolding xb_phase_def k mod_add_left_eq by (simp add: algebra_simps)
  also have "\<dots> = xb_phase r s'"
    unfolding xb_phase_def using assms(1) k by (simp only: mod_mult_self1) simp
  finally show ?thesis
    by simp
qed

definition xb_enter :: "xdr_mblk \<Rightarrow> xdr_mblk" where
  "xb_enter s = (let s' = xb_next s in case xb_chain s' of [] \<Rightarrow> s' | m # _ \<Rightarrow> s'\<lparr>xb_handy := b_wptr m - b_rptr m\<rparr>)"

lemma units_concat:
  assumes "\<forall>b\<in>set (butlast ms). 4 dvd length (blk_data b)" and "ms \<noteq> []"
  shows "length (concat (map blk_data ms)) mod 4 = length (blk_data (last ms)) mod 4"
proof -
  obtain bs b where ms: "ms = bs @ [b]"
    using assms(2) by (cases ms rule: rev_cases) auto
  have "4 dvd length (concat (map blk_data bs))"
    using assms(1) unfolding ms by (induction bs) auto
  then show ?thesis
    unfolding ms by (auto elim!: dvdE)
qed

lemma xbi_cases:
  assumes "xbi_ok r s"
  obtains m ms where "xb_chain s = m # ms" "blk_ok m" "unat (xb_handy s) = length (blk_data m)"
    "length (blk_data m) < 2147483648" "xb_inp s = blk_data m @ concat (map blk_data ms)"
    "ms \<noteq> [] \<Longrightarrow> length (concat (map blk_data ms)) mod 4 = r mod 4"
proof -
  obtain m ms where c: "xb_chain s = m # ms"
    using assms by (auto simp: xbi_ok_def neq_Nil_conv)
  then have "length (concat (map blk_data ms)) mod 4 = r mod 4" if "ms \<noteq> []"
    using assms units_concat [of ms] that by (auto simp: xbi_ok_def)
  then show thesis
    using assms c blk_len [of m] by (intro that [OF c]) (auto simp: xbi_ok_def xb_inp_def)
qed

lemma xb_set_handy [simp]: "xb_set m (s\<lparr>xb_handy := h\<rparr>) = (xb_set m s)\<lparr>xb_handy := h\<rparr>"
  by (cases s) (simp add: xb_set_def)

text \<open>Consuming bytes of the current block, and entering the next one.\<close>

lemma xbi_consume:
  assumes "xbi_ok r s" and "xb_chain s = m # ms" and "unat n \<le> length (blk_data m)"
  defines "s' \<equiv> (xb_set (m\<lparr>b_rptr := b_rptr m + n\<rparr>) s)\<lparr>xb_handy := xb_handy s - n\<rparr>"
  shows "xbi_ok r s'" and "xb_inp s' = drop (unat n) (xb_inp s)"
proof -
  have ok: "blk_ok m"
    using assms(1,2) by (simp add: xbi_ok_def)
  note k = blk_read [OF ok assms(3)]
  show i: "xb_inp s' = drop (unat n) (xb_inp s)"
    using assms(2,3) k(3) by (simp add: xb_inp_def s'_def xb_set_def)
  then have "length (xb_inp s') < 2147483648"
    using assms(1) by (auto simp: xbi_ok_def)
  then show "xbi_ok r s'"
    using assms(1,2) k(2) by (simp add: xbi_ok_def s'_def xb_set_def)
qed

lemma xbi_enter:
  assumes "xbi_ok r s" and "xb_chain s = m # b # ms"
  shows "xbi_ok r (xb_enter s)" and "xb_inp (xb_enter s) = concat (map blk_data (b # ms))" and "xb_chain (xb_enter s) = b # ms"
  using assms by (auto simp: xbi_ok_def xb_enter_def xb_next_def xb_inp_def Let_def split: if_splits)

lemma getlong_loop_step:
  "xb_chain s = m # ms \<Longrightarrow> xdrmblk_getlong_loop s =
     (let s = s\<lparr>xb_handy := xb_handy s - 4\<rparr> in
      if sint (xb_handy s) < 0 then if xb_handy s \<noteq> - 4 then Done (None, s) else xdrmblk_getlong_loop (xb_enter s)
      else case blk_get (b_rptr m) 4 m of
          None \<Rightarrow> Overrun
        | Some bs \<Rightarrow> Done (Some (of_be32 bs), xb_set (m\<lparr>b_rptr := b_rptr m + 4\<rparr>) s))"
  by (subst xdrmblk_getlong_loop.simps) (simp add: xb_enter_def xb_next_def Let_def split: list.splits)

text \<open>
  At the beginning of a unit a long is the next four bytes; there is none exactly if fewer are
  left, be it that the message ends inside of a unit.
\<close>

lemma getlong_loop_ok:
  assumes "xbi_ok r s" and "xb_phase r s = 0"
  shows "\<exists>s'. xdrmblk_getlong_loop s = Done (if length (xb_inp s) < 4 then None else Some (of_be32 (take 4 (xb_inp s))), s')
    \<and> (4 \<le> length (xb_inp s) \<longrightarrow> xbi_ok r s' \<and> xb_inp s' = drop 4 (xb_inp s))"
  using assms
proof (induction "length (xb_chain s)" arbitrary: s rule: less_induct)
  case less
  obtain m ms where c: "xb_chain s = m # ms" and ok: "blk_ok m" and h: "unat (xb_handy s) = length (blk_data m)"
    and l: "length (blk_data m) < 2147483648" and i: "xb_inp s = blk_data m @ concat (map blk_data ms)"
    and d: "ms \<noteq> [] \<Longrightarrow> length (concat (map blk_data ms)) mod 4 = r mod 4"
    using xbi_cases [OF less.prems(1)] by metis
  have four: "unat (4 :: 32 word) = 4"
    by simp
  consider "blk_data m = []" | "blk_data m \<noteq> []" "length (blk_data m) < 4" | "4 \<le> length (blk_data m)"
    by linarith
  then show ?case
  proof cases
    case 1
    then have z: "xb_handy s = 0"
      using h by (simp add: unat_eq_zero)
    let ?s = "s\<lparr>xb_handy := - 4\<rparr>"
    have go: "xdrmblk_getlong_loop s = xdrmblk_getlong_loop (xb_enter ?s)"
      using getlong_loop_step [OF c] z by simp
    show ?thesis
    proof (cases ms)
      case Nil
      then show ?thesis
        unfolding go using c i 1 by (subst xdrmblk_getlong_loop.simps) (simp add: xb_enter_def xb_next_def)
    next
      case (Cons b bs)
      have e: "xb_enter ?s = xb_enter s"
        using c Cons by (simp add: xb_enter_def xb_next_def)
      note n = xbi_enter [OF less.prems(1) c [unfolded Cons]]
      have l: "length (xb_chain (xb_enter s)) < length (xb_chain s)" and i': "xb_inp (xb_enter s) = xb_inp s"
        using n(2,3) c Cons i 1 by simp_all
      have "xb_phase r (xb_enter s) = 0"
        using less.prems(2) i' by (simp add: xb_phase_def)
      from less.hyps [OF l n(1) this] show ?thesis
        unfolding go e i' .
    qed
  next
    case 2
    have "ms = []"
    proof (rule ccontr)
      assume "ms \<noteq> []"
      then have "(length (blk_data m) + length (concat (map blk_data ms))) mod 4 = length (concat (map blk_data ms)) mod 4"
        using d less.prems(2) i by (simp add: xb_phase_zero)
      then have "length (blk_data m) mod 4 = 0"
        by presburger
      then show False
        using 2 by simp
    qed
    moreover have "unat (xb_handy s - 4) = 4294967296 + length (blk_data m) - 4"
      using 2 h unat_sub_if' [of "xb_handy s" 4] by simp
    then have "sint (xb_handy s - 4) < 0" "xb_handy s - 4 \<noteq> - 4"
      using 2 h by (simp_all add: sint_neg) (metis add_diff_cancel_left' diff_0 diff_add_cancel eq_iff_diff_eq_0 length_greater_0_conv less_numeral_extra(3) unat_0)
    ultimately show ?thesis
      unfolding getlong_loop_step [OF c] using i 2 by simp
  next
    case 3
    have "\<not> sint (xb_handy s - 4) < 0"
      using handy_sub(2) [of 4 "xb_handy s"] 3 h l by simp
    moreover have "blk_get (b_rptr m) 4 m = Some (take 4 (blk_data m))"
      using blk_read(1) [OF ok, of 4] 3 by simp
    moreover note xbi_consume [OF less.prems(1) c, of 4, unfolded four, OF 3]
    ultimately show ?thesis
      unfolding getlong_loop_step [OF c] using i 3 by simp
  qed
qed

text \<open>A cut inside of a unit is not bridged: with one to three bytes left in the current block there is no long, whatever follows.\<close>

lemma getlong_cut_unit:
  assumes "xb_chain s = m # ms" and "unat (xb_handy s) \<in> {1, 2, 3}"
  shows "\<exists>s'. xdrmblk_getlong_loop s = Done (None, s')"
proof -
  have "unat (xb_handy s - 4) = 4294967296 + unat (xb_handy s) - 4"
    using assms(2) unat_sub_if' [of "xb_handy s" 4] by auto
  then have "sint (xb_handy s - 4) < 0" "unat (xb_handy s - 4) \<noteq> 4294967292"
    using assms(2) by (auto simp: sint_neg)
  moreover have "unat (- 4 :: 32 word) = 4294967292"
    by simp
  ultimately show ?thesis
    unfolding getlong_loop_step [OF assms(1)] by (auto simp: Let_def)
qed

text \<open>How much of the current block is taken when \<open>len\<close> bytes are asked for.\<close>

definition xb_take :: "32 word \<Rightarrow> xdr_mblk \<Rightarrow> 32 word" where
  "xb_take len s = (if sint (xb_handy s - len) < 0 then if sint (xb_handy s) > 0 then xb_handy s else 0 else len)"

lemma xb_take_eq:
  assumes "unat (xb_handy s) < 2147483648" and "unat len < 2147483648"
  shows "sint (xb_handy s - len) < 0 \<longleftrightarrow> unat (xb_handy s) < unat len"
    and "xb_take len s = (if unat (xb_handy s) < unat len then xb_handy s else len)"
    and "unat (xb_take len s) = min (unat (xb_handy s)) (unat len)"
    and "unat (len - xb_take len s) = unat len - unat (xb_handy s)"
proof -
  show neg: "sint (xb_handy s - len) < 0 \<longleftrightarrow> unat (xb_handy s) < unat len"
    using handy_sub(2) [OF _ assms(1), of len] handy_short [OF _ assms(2), of "xb_handy s"] by (metis not_less)
  show t: "xb_take len s = (if unat (xb_handy s) < unat len then xb_handy s else len)"
    unfolding xb_take_def neg using sint_pos_small [OF assms(1)] by simp
  then show "unat (xb_take len s) = min (unat (xb_handy s)) (unat len)" "unat (len - xb_take len s) = unat len - unat (xb_handy s)"
    using handy_sub(1) [of "xb_handy s" len] assms(2) by (auto simp: min_def)
qed

lemma getbytes_loop_step:
  "xb_chain s = m # ms \<Longrightarrow> xdrmblk_getbytes_loop addr i len s =
     (let n = xb_take len s in
      if length addr < i + unat n then Overrun
      else
        case blk_get (b_rptr m) (unat n) m of
          None \<Rightarrow> Overrun
        | Some bs \<Rightarrow>
            let addr = take i addr @ bs @ drop (i + unat n) addr; s' = xb_set (m\<lparr>b_rptr := b_rptr m + n\<rparr>) s in
            if sint (xb_handy s - len) < 0 then xdrmblk_getbytes_loop addr (i + unat n) (len - n) (xb_enter s')
            else Done (True, addr, s'\<lparr>xb_handy := xb_handy s - len\<rparr>))"
  unfolding xb_take_def
  by (subst xdrmblk_getbytes_loop.simps) (simp add: xb_enter_def xb_next_def xb_set_def Let_def split: list.splits option.splits)

lemma xb_enter_handy: "tl (xb_chain s) \<noteq> [] \<Longrightarrow> xb_enter (s\<lparr>xb_handy := h\<rparr>) = xb_enter s"
  by (cases "tl (xb_chain s)") (simp_all add: xb_enter_def xb_next_def)

text \<open>Leaving a block that is too short for what is asked for.\<close>

lemma xbi_leave:
  assumes "xbi_ok r s" and "xb_chain s = m # b # ms"
  defines "s' \<equiv> xb_enter (xb_set (m\<lparr>b_rptr := b_rptr m + xb_handy s\<rparr>) s)"
  shows "xbi_ok r s'" and "xb_inp s' = drop (unat (xb_handy s)) (xb_inp s)" and "xb_chain s' = b # ms"
proof -
  let ?m = "m\<lparr>b_rptr := b_rptr m + xb_handy s\<rparr>" let ?s = "(xb_set ?m s)\<lparr>xb_handy := xb_handy s - xb_handy s\<rparr>"
  have h: "unat (xb_handy s) = length (blk_data m)"
    using xbi_cases [OF assms(1)] assms(2) by (metis list.inject)
  have e: "s' = xb_enter ?s"
    unfolding s'_def using assms(2) by (simp add: xb_enter_handy xb_set_def)
  have ok: "xbi_ok r ?s"
    using xbi_consume(1) [OF assms(1,2), of "xb_handy s"] h by simp
  have "xb_chain ?s = ?m # b # ms"
    using assms(2) by (simp add: xb_set_def)
  from xbi_enter [OF ok this] show "xbi_ok r s'" "xb_inp s' = drop (unat (xb_handy s)) (xb_inp s)" "xb_chain s' = b # ms"
    unfolding e using h assms(2) by (simp_all add: xb_inp_def)
qed

lemma getbytes_loop_ok:
  assumes "xbi_ok r s" and "unat len < 2147483648" and "i + unat len \<le> length addr"
  shows "\<exists>addr' s'. xdrmblk_getbytes_loop addr i len s = Done (unat len \<le> length (xb_inp s), addr', s')
    \<and> (unat len \<le> length (xb_inp s) \<longrightarrow> addr' = take i addr @ take (unat len) (xb_inp s) @ drop (i + unat len) addr
        \<and> xbi_ok r s' \<and> xb_inp s' = drop (unat len) (xb_inp s))"
  using assms
proof (induction "length (xb_chain s)" arbitrary: s i len addr rule: less_induct)
  case less
  obtain m ms where c: "xb_chain s = m # ms" and ok: "blk_ok m" and h: "unat (xb_handy s) = length (blk_data m)"
    and l: "length (blk_data m) < 2147483648" and inp: "xb_inp s = blk_data m @ concat (map blk_data ms)"
    using xbi_cases [OF less.prems(1)] by metis
  let ?h = "unat (xb_handy s)" and ?n = "xb_take len s"
  have h31: "?h < 2147483648"
    using h l by simp
  note t = xb_take_eq [OF h31 less.prems(2)]
  have n: "unat ?n \<le> length (blk_data m)"
    using t(3) h by simp
  have fit: "\<not> length addr < i + unat ?n"
    using less.prems(3) t(3) by simp
  note get = blk_read(1) [OF ok n]
  show ?case
  proof (cases "?h < unat len")
    case False
    then have "?n = len"
      using t(2) by simp
    moreover note xbi_consume [OF less.prems(1) c n]
    ultimately show ?thesis
      unfolding getbytes_loop_step [OF c] using get fit False t(1) h inp by (simp add: xb_set_def)
  next
    case True
    then have nh: "?n = xb_handy s" "sint (xb_handy s - len) < 0"
      using t by simp_all
    let ?addr = "take i addr @ blk_data m @ drop (i + ?h) addr"
    let ?s = "xb_enter (xb_set (m\<lparr>b_rptr := b_rptr m + xb_handy s\<rparr>) s)"
    have go: "xdrmblk_getbytes_loop addr i len s = xdrmblk_getbytes_loop ?addr (i + ?h) (len - xb_handy s) ?s"
      unfolding getbytes_loop_step [OF c] using get fit nh h by (simp add: Let_def)
    show ?thesis
    proof (cases ms)
      case Nil
      then have "xb_chain ?s = []"
        using c by (simp add: xb_enter_def xb_next_def xb_set_def)
      then show ?thesis
        unfolding go using True h inp Nil by (subst xdrmblk_getbytes_loop.simps) simp
    next
      case (Cons b bs)
      note n' = xbi_leave [OF less.prems(1) c [unfolded Cons]]
      have len: "length (xb_chain ?s) < length (xb_chain s)" "unat (len - xb_handy s) < 2147483648"
        "(i + ?h) + unat (len - xb_handy s) \<le> length ?addr" "unat (len - xb_handy s) = unat len - ?h"
        using n'(3) c Cons t(4) less.prems(2,3) nh(1) h True by simp_all
      have split: "unat len = ?h + unat (len - xb_handy s)"
        using len(4) True by simp
      from less.hyps [OF len(1) n'(1) len(2,3)] show ?thesis
        unfolding go n'(2) split using h inp less.prems(3) split by (auto simp: ac_simps)
    qed
  qed
qed

text \<open>Skipping bytes.\<close>

lemma skip_loop_step:
  "xb_chain s = m # ms \<Longrightarrow> xdrmblk_skip_loop len s =
     (let n = xb_take len s; s' = xb_set (m\<lparr>b_rptr := b_rptr m + n\<rparr>) s in
      if sint (xb_handy s - len) < 0 then xdrmblk_skip_loop (len - n) (xb_enter s')
      else (True, s'\<lparr>xb_handy := xb_handy s - len\<rparr>))"
  unfolding xb_take_def
  by (subst xdrmblk_skip_loop.simps) (simp add: xb_enter_def xb_next_def xb_set_def Let_def split: list.splits)

lemma skip_loop_ok:
  assumes "xbi_ok r s" and "unat len < 2147483648"
  shows "\<exists>s'. xdrmblk_skip_loop len s = (unat len \<le> length (xb_inp s), s')
    \<and> (unat len \<le> length (xb_inp s) \<longrightarrow> xbi_ok r s' \<and> xb_inp s' = drop (unat len) (xb_inp s))"
  using assms
proof (induction "length (xb_chain s)" arbitrary: s len rule: less_induct)
  case less
  obtain m ms where c: "xb_chain s = m # ms" and ok: "blk_ok m" and h: "unat (xb_handy s) = length (blk_data m)"
    and l: "length (blk_data m) < 2147483648" and inp: "xb_inp s = blk_data m @ concat (map blk_data ms)"
    using xbi_cases [OF less.prems(1)] by metis
  let ?h = "unat (xb_handy s)"
  have h31: "?h < 2147483648"
    using h l by simp
  note t = xb_take_eq [OF h31 less.prems(2)]
  show ?case
  proof (cases "?h < unat len")
    case False
    then have "xb_take len s = len" "unat len \<le> length (blk_data m)"
      using t(2) h by simp_all
    moreover note xbi_consume [OF less.prems(1) c, of len]
    ultimately show ?thesis
      unfolding skip_loop_step [OF c] using False t(1) h inp by simp
  next
    case True
    then have nh: "xb_take len s = xb_handy s" "sint (xb_handy s - len) < 0"
      using t by simp_all
    let ?s = "xb_enter (xb_set (m\<lparr>b_rptr := b_rptr m + xb_handy s\<rparr>) s)"
    have go: "xdrmblk_skip_loop len s = xdrmblk_skip_loop (len - xb_handy s) ?s"
      unfolding skip_loop_step [OF c] using nh by (simp add: Let_def)
    show ?thesis
    proof (cases ms)
      case Nil
      then have "xb_chain ?s = []"
        using c by (simp add: xb_enter_def xb_next_def xb_set_def)
      then show ?thesis
        unfolding go using True h inp Nil by (subst xdrmblk_skip_loop.simps) simp
    next
      case (Cons b bs)
      note n' = xbi_leave [OF less.prems(1) c [unfolded Cons]]
      have len: "length (xb_chain ?s) < length (xb_chain s)" "unat (len - xb_handy s) < 2147483648"
        and split: "unat len = ?h + unat (len - xb_handy s)"
        using n'(3) c Cons t(4) less.prems(2) nh(1) True by simp_all
      from less.hyps [OF len(1) n'(1) len(2)] show ?thesis
        unfolding go n'(2) split using h inp by (auto simp: ac_simps)
    qed
  qed
qed

lemma pad_zero: "pad n = 0 \<longleftrightarrow> 4 dvd n"
proof -
  have "n mod 4 < 4" by simp
  then show ?thesis
    by (cases "n mod 4 = 0") (simp_all add: pad_def dvd_eq_mod_eq_0)
qed

interpretation xbi: xdr_source xdrmblk_ops "xbi_ok r" xb_inp "xb_phase r" for r
proof
  fix s v and len :: "32 word" and data rest buf :: "byte list"
  assume ok: "xbi_ok r s"
  have ne: "xb_chain s \<noteq> []" and small: "length (xb_inp s) < 2147483648"
    using ok by (simp_all add: xbi_ok_def)
  note long = getlong_loop_ok [OF ok] and bytes = getbytes_loop_ok [OF ok, of len 0 buf]
  note phase = xb_phase_drop [of _ 4 s r] xb_phase_drop [of _ "unat len" s r]
  show "\<exists>s'. x_getlong xdrmblk_ops s = Done (Some v, s') \<and> xbi_ok r s' \<and> xb_inp s' = rest \<and> xb_phase r s' = 0"
    if "xb_phase r s = 0" "xb_inp s = be32 v @ rest"
    using long that ne phase(1) by (auto simp: xdrmblk_ops_def xdrmblk_getlong_def)
  show "\<exists>s'. x_getbytes xdrmblk_ops buf len s = Done (True, data @ drop (unat len) buf, s') \<and> xbi_ok r s' \<and> xb_inp s' = rest
      \<and> xb_phase r s' = (xb_phase r s + unat len) mod 4"
    if "xb_inp s = data @ rest" "length data = unat len" "unat len \<le> length buf"
    using bytes that ne small phase(2) by (auto simp: xdrmblk_ops_def xdrmblk_getbytes_def)
  show "\<exists>s'. x_getlong xdrmblk_ops s = Done (None, s')" if "xb_phase r s = 0" "length (xb_inp s) < 4"
    using long that ne by (auto simp: xdrmblk_ops_def xdrmblk_getlong_def)
  show "\<exists>buf' s'. x_getbytes xdrmblk_ops buf len s = Done (False, buf', s')"
    if "length (xb_inp s) < unat len" "unat len < 2 ^ 31" "unat len \<le> length buf"
    using bytes that ne by (auto simp: xdrmblk_ops_def xdrmblk_getbytes_def)
qed

section \<open>Writing a chain\<close>

text \<open>
  An empty block for whole units. The blocks that \<^verbatim>\<open>allocb\<close> returns are empty, of the size asked for
  at least, and of whole units; a block of less than twice that size is cut to it.
\<close>

definition blk_fresh :: "mblk \<Rightarrow> bool" where
  "blk_fresh m \<longleftrightarrow> blk_ok m \<and> b_rptr m = b_wptr m \<and> 4 dvd blk_space m \<and> 4 \<le> blk_space m"

definition alloc_ok :: "32 word \<Rightarrow> alloc_result \<Rightarrow> bool" where
  "alloc_ok sz r \<longleftrightarrow> (case r of
      Allocb m \<Rightarrow> b_rptr m = db_base m \<and> b_wptr m = db_base m \<and> unat sz \<le> length (db_mem m)
        \<and> length (db_mem m) < 2147483648 \<and> 4 dvd length (db_mem m)
    | _ \<Rightarrow> True)"

definition allocs_ok :: "32 word \<Rightarrow> alloc_result list \<Rightarrow> bool" where
  "allocs_ok sz rs \<longleftrightarrow> 4 dvd unat sz \<and> (\<forall>r\<in>set rs. alloc_ok sz r)"

definition block_room :: "32 word \<Rightarrow> mblk \<Rightarrow> nat" where
  "block_room sz m = (if length (db_mem m) div 2 \<le> unat sz then unat sz else length (db_mem m))"

fun alloc_room :: "32 word \<Rightarrow> alloc_result list \<Rightarrow> nat" where
  "alloc_room sz (Allocb m # rs) = block_room sz m + alloc_room sz rs"
| "alloc_room sz (Waited # rs) = alloc_room sz rs"
| "alloc_room sz _ = 0"

definition xb_more :: "xdr_mblk \<Rightarrow> nat" where
  "xb_more s = sum_list (map blk_space (tl (xb_chain s))) + (if xb_private s = 0 then 0 else alloc_room (xb_private s) (xb_allocs s))"

definition xb_out :: "xdr_mblk \<Rightarrow> byte list" where
  "xb_out s = concat (map blk_data (xb_done s @ xb_chain s))"

definition xb_space :: "xdr_mblk \<Rightarrow> nat" where
  "xb_space s = unat (xb_handy s) + xb_more s"

text \<open>What holds of the stream apart from \<^verbatim>\<open>x_handy\<close>, and with it.\<close>

definition xbo_rest :: "xdr_mblk \<Rightarrow> bool" where
  "xbo_rest s \<longleftrightarrow> xb_op s = XDR_ENCODE \<and> xb_chain s \<noteq> [] \<and> blk_ok (hd (xb_chain s)) \<and> (\<forall>m\<in>set (tl (xb_chain s)). blk_fresh m)
     \<and> (\<forall>m\<in>set (xb_done s). blk_ok m \<and> 4 dvd length (blk_data m)) \<and> allocs_ok (xb_private s) (xb_allocs s)"

definition xbo_ok :: "xdr_mblk \<Rightarrow> bool" where
  "xbo_ok s \<longleftrightarrow> xbo_rest s \<and> unat (xb_handy s) \<le> blk_space (hd (xb_chain s))
     \<and> 4 dvd length (blk_data (hd (xb_chain s))) + unat (xb_handy s)"

lemma handy_indep [simp]: "xb_more (s\<lparr>xb_handy := h\<rparr>) = xb_more s" "xb_out (s\<lparr>xb_handy := h\<rparr>) = xb_out s"
  "xbo_rest (s\<lparr>xb_handy := h\<rparr>) = xbo_rest s"
  by (simp_all add: xb_more_def xb_out_def xbo_rest_def)

lemma blk_space_less: "blk_ok m \<Longrightarrow> blk_space m < 2147483648"
  by (auto simp: blk_ok_def blk_space_def)

lemma fresh_data: "blk_fresh m \<Longrightarrow> blk_data m = []"
  by (simp add: blk_fresh_def blk_data_def)

lemma fresh_handy: "blk_fresh m \<Longrightarrow> db_lim m - b_rptr m = word_of_nat (blk_space m)"
proof -
  assume "blk_fresh m"
  then have "b_rptr m = b_wptr m" "blk_off m (b_wptr m) \<le> length (db_mem m)"
    by (simp_all add: blk_fresh_def blk_ok_def)
  moreover have "b_wptr m = db_base m + word_of_nat (blk_off m (b_wptr m))"
    by (simp add: blk_off_def)
  ultimately show ?thesis
    unfolding db_lim_def blk_space_def by (metis add_diff_cancel_left of_nat_diff)
qed

text \<open>A block from the allocator, cut to size.\<close>

lemma sethandy_fresh:
  assumes "alloc_ok sz (Allocb m)" and "4 dvd unat sz" and "sz \<noteq> 0"
  obtains m' where "XDRMBLK_SETHANDY m sz adjust = (m', db_lim m' - b_rptr m' - adjust)" "blk_fresh m'" "blk_space m' = block_room sz m"
proof -
  let ?L = "length (db_mem m)"
  have a: "b_rptr m = db_base m" "b_wptr m = db_base m" "unat sz \<le> ?L" "?L < 2147483648" "4 dvd ?L"
    using assms(1) by (simp_all add: alloc_ok_def)
  have size: "bpsize m = word_of_nat ?L" "unat (bpsize m) = ?L"
    using a(4) by (simp_all add: bpsize_def db_lim_def unsigned_of_nat take_bit_nat_eq_self)
  have "0 < unat sz"
    using assms(3) by (simp add: unat_gt_0)
  then have four: "4 \<le> unat sz"
    using assms(2) by (simp add: dvd_imp_le)
  have test: "sint (bpsize m) div 2 \<le> sint sz \<longleftrightarrow> ?L div 2 \<le> unat sz"
    using a(3,4) size(2) sint_small [of "bpsize m"] sint_small [of sz]
    by (simp del: of_nat_unat) (metis of_nat_le_iff of_nat_numeral zdiv_int)
  show thesis
  proof (cases "?L div 2 \<le> unat sz")
    case False
    then show thesis
      using a test four by (intro that [of m])
        (simp_all add: XDRMBLK_SETHANDY_def Let_def blk_fresh_def blk_ok_def blk_off_def blk_space_def block_room_def)
  next
    case True
    let ?r = "db_base m + (bpsize m - sz)" let ?m = "m\<lparr>b_rptr := ?r, b_wptr := ?r\<rparr>"
    have "unat (bpsize m - sz) = ?L - unat sz"
      using a(3) size(2) by (simp add: unat_sub word_le_nat_alt)
    then have o: "blk_off ?m (b_wptr ?m) = ?L - unat sz"
      by (simp add: blk_off_def)
    then have sp: "blk_space ?m = unat sz"
      using a(3) by (simp add: blk_space_def)
    have "blk_ok ?m"
      unfolding blk_ok_def using o a(4) by (simp add: blk_off_def)
    then show thesis
      using True sp four assms(2) test a(1,2)
      by (intro that [of ?m]) (simp_all add: XDRMBLK_SETHANDY_def Let_def blk_fresh_def block_room_def)
  qed
qed

lemma alloc_ok_loop:
  assumes "0 < alloc_room sz rs" and "\<forall>r\<in>set rs. alloc_ok sz r"
  obtains m rs' where "xdrmblk_alloc_loop rs = (Some m, rs')" "alloc_ok sz (Allocb m)" "\<forall>r\<in>set rs'. alloc_ok sz r"
    "alloc_room sz rs = block_room sz m + alloc_room sz rs'"
  using assms
proof (induction rs rule: xdrmblk_alloc_loop.induct)
  case (3 rs)
  then show ?case by simp
qed auto

lemma xb_grow_ok:
  assumes "xbo_rest s" and "4 dvd length (blk_data (hd (xb_chain s)))" and "0 < xb_more s"
  obtains s1 m where "xb_grow adjust s = s1\<lparr>xb_handy := word_of_nat (blk_space m) - adjust\<rparr>" "xbo_rest s1"
    "hd (xb_chain s1) = m" "blk_fresh m" "xb_out s1 = xb_out s" "blk_space m + xb_more s1 = xb_more s"
proof (cases "tl (xb_chain s)")
  case (Cons m ms)
  then have m: "blk_fresh m"
    using assms(1) by (simp add: xbo_rest_def)
  obtain a where c: "xb_chain s = a # m # ms"
    using Cons by (cases "xb_chain s") auto
  let ?s = "xb_next s"
  have "xbo_rest ?s"
    using assms(1,2) c m by (simp add: xbo_rest_def xb_next_def blk_fresh_def)
  moreover have "xb_grow adjust s = ?s\<lparr>xb_handy := word_of_nat (blk_space m) - adjust\<rparr>"
    using Cons fresh_handy [OF m] by (simp add: xb_grow_def)
  ultimately show thesis
    using that [of m ?s] c m by (simp add: xb_next_def xb_out_def xb_more_def)
next
  case Nil
  then obtain a where c: "xb_chain s = [a]"
    using assms(1) by (cases "xb_chain s") (auto simp: xbo_rest_def)
  let ?sz = "xb_private s"
  have sz: "?sz \<noteq> 0" and room: "0 < alloc_room ?sz (xb_allocs s)" and more: "xb_more s = alloc_room ?sz (xb_allocs s)"
    using assms(3) c by (auto simp: xb_more_def split: if_splits)
  have ok: "\<forall>r\<in>set (xb_allocs s). alloc_ok ?sz r" and d: "4 dvd unat ?sz"
    using assms(1) by (auto simp: xbo_rest_def allocs_ok_def)
  obtain m rs where r: "xdrmblk_alloc_loop (xb_allocs s) = (Some m, rs)" "alloc_ok ?sz (Allocb m)" "\<forall>r\<in>set rs. alloc_ok ?sz r"
    "alloc_room ?sz (xb_allocs s) = block_room ?sz m + alloc_room ?sz rs"
    using alloc_ok_loop [OF room ok] .
  obtain m' where m': "XDRMBLK_SETHANDY m ?sz adjust = (m', db_lim m' - b_rptr m' - adjust)" "blk_fresh m'" "blk_space m' = block_room ?sz m"
    using sethandy_fresh [OF r(2) d sz] .
  let ?s = "s\<lparr>xb_done := xb_done s @ [a], xb_chain := [m'], xb_allocs := rs\<rparr>"
  have "xb_grow adjust s = ?s\<lparr>xb_handy := word_of_nat (blk_space m') - adjust\<rparr>"
    using Nil c sz r(1) m'(1) fresh_handy [OF m'(2)] by (cases s) (simp add: xb_grow_def xdrmblk_alloc_def xb_next_def Let_def)
  moreover have "xbo_rest ?s"
    using assms(1,2) c m'(2) r(3) d by (simp add: xbo_rest_def allocs_ok_def blk_fresh_def)
  moreover have "xb_out ?s = xb_out s" "blk_space m' + xb_more ?s = xb_more s"
    using c fresh_data [OF m'(2)] more r(4) m'(3) sz by (simp_all add: xb_out_def xb_more_def)
  ultimately show thesis
    using that [of m' ?s] m'(2) by simp
qed

text \<open>Bytes are added to the current block.\<close>

lemma xbo_append:
  assumes "xbo_rest s" and "hd (xb_chain s) = m" and "blk_ok m'" and "blk_data m' = blk_data m @ bs"
    and "unat h \<le> blk_space m'" and "4 dvd length (blk_data m) + length bs + unat h"
  defines "s' \<equiv> (xb_set m' s)\<lparr>xb_handy := h\<rparr>"
  shows "xbo_ok s'" and "xb_out s' = xb_out s @ bs" and "xb_more s' = xb_more s"
proof -
  obtain ms where c: "xb_chain s = m # ms"
    using assms(1,2) by (cases "xb_chain s") (auto simp: xbo_rest_def)
  have e: "concat (map blk_data ms) = []"
    using assms(1) c by (auto simp: xbo_rest_def fresh_data)
  show "xbo_ok s'" "xb_out s' = xb_out s @ bs" "xb_more s' = xb_more s"
    using assms(1,3-6) c by (simp_all add: xbo_ok_def xbo_rest_def s'_def xb_set_def xb_out_def xb_more_def e)
qed

lemma xbo_cases:
  assumes "xbo_ok s"
  obtains m ms where "xb_chain s = m # ms" "blk_ok m" "unat (xb_handy s) \<le> blk_space m" "unat (xb_handy s) < 2147483648"
    "4 dvd length (blk_data m) + unat (xb_handy s)" "4 dvd length (blk_data m) \<longleftrightarrow> 4 dvd length (xb_out s)" "xbo_rest s"
proof -
  have r: "xbo_rest s"
    using assms by (simp add: xbo_ok_def)
  then obtain m ms where c: "xb_chain s = m # ms"
    by (auto simp: xbo_rest_def neq_Nil_conv)
  have ok: "blk_ok m"
    using r c by (simp add: xbo_rest_def)
  have "4 dvd length (concat (map blk_data bs))" if "\<forall>b\<in>set bs. 4 dvd length (blk_data b)" for bs
    using that by (induction bs) auto
  then have "4 dvd length (concat (map blk_data (xb_done s)))"
    using r by (simp add: xbo_rest_def)
  moreover have e: "concat (map blk_data ms) = []"
    using r c by (auto simp: xbo_rest_def fresh_data)
  ultimately have "4 dvd length (blk_data m) \<longleftrightarrow> 4 dvd length (xb_out s)"
    using c by (simp add: xb_out_def dvd_add_right_iff e)
  then show thesis
    using assms c ok r blk_space_less [OF ok] by (intro that [OF c]) (auto simp: xbo_ok_def)
qed

lemma unat_space: "blk_ok m \<Longrightarrow> unat (word_of_nat (blk_space m) :: 32 word) = blk_space m"
  using blk_space_less [of m] by (simp add: unsigned_of_nat take_bit_nat_eq_self)

text \<open>A long is written behind the data of the current block, \<^verbatim>\<open>x_handy\<close> having been lowered before.\<close>

definition xb_long :: "32 word \<Rightarrow> xdr_mblk \<Rightarrow> (bool \<times> xdr_mblk) outcome" where
  "xb_long v s =
     (case xb_chain s of
        [] \<Rightarrow> Done (False, s)
      | m # _ \<Rightarrow>
          (case blk_put (b_wptr m) (be32 v) m of None \<Rightarrow> Overrun | Some m \<Rightarrow> Done (True, xb_set (m\<lparr>b_wptr := b_wptr m + 4\<rparr>) s)))"

lemma putlong_eq:
  "xb_chain s \<noteq> [] \<Longrightarrow> xdrmblk_putlong v s =
     xb_long v (let s = s\<lparr>xb_handy := xb_handy s - 4\<rparr> in if sint (xb_handy s) < 0 then xb_grow 4 s else s)"
  by (simp add: xdrmblk_putlong_def xb_long_def Let_def)

lemma xb_long_ok:
  assumes "xbo_rest s" and "hd (xb_chain s) = m" and "blk_ok m" and "unat (xb_handy s) + 4 \<le> blk_space m"
    and "4 dvd length (blk_data m)" and "4 dvd unat (xb_handy s)"
  shows "\<exists>s'. xb_long v s = Done (True, s') \<and> xbo_ok s' \<and> xb_out s' = xb_out s @ be32 v \<and> xb_space s' = xb_space s"
proof -
  obtain ms where c: "xb_chain s = m # ms"
    using assms(1,2) by (cases "xb_chain s") (auto simp: xbo_rest_def)
  have "unat (4 :: 32 word) \<le> blk_space m" "length (be32 v) = unat (4 :: 32 word)"
    using assms(4) by simp_all
  from blk_write [OF assms(3) this] obtain m1 where m1: "blk_put (b_wptr m) (be32 v) m = Some m1"
    "blk_ok (m1\<lparr>b_wptr := b_wptr m1 + 4\<rparr>)" "blk_data (m1\<lparr>b_wptr := b_wptr m1 + 4\<rparr>) = blk_data m @ be32 v"
    "blk_space (m1\<lparr>b_wptr := b_wptr m1 + 4\<rparr>) = blk_space m - unat (4 :: 32 word)" .
  let ?s = "xb_set (m1\<lparr>b_wptr := b_wptr m1 + 4\<rparr>) s"
  have e: "?s\<lparr>xb_handy := xb_handy s\<rparr> = ?s"
    by (simp add: xb_set_def)
  have "unat (xb_handy s) \<le> blk_space (m1\<lparr>b_wptr := b_wptr m1 + 4\<rparr>)" "4 dvd length (blk_data m) + length (be32 v) + unat (xb_handy s)"
    using m1(4) assms(4-6) by simp_all
  from xbo_append [OF assms(1,2) m1(2,3) this, unfolded e] show ?thesis
    using m1(1) c by (simp add: xb_long_def xb_space_def xb_set_def)
qed

text \<open>A new block is entered with \<open>adjust\<close> bytes of it taken.\<close>

lemma xb_grow_enter:
  assumes "xbo_rest s" and "4 dvd length (blk_data (hd (xb_chain s)))" and "0 < xb_more s" and "unat adjust \<le> 4"
  obtains m where "xbo_rest (xb_grow adjust s)" "hd (xb_chain (xb_grow adjust s)) = m" "blk_fresh m"
    "unat (xb_handy (xb_grow adjust s)) + unat adjust = blk_space m" "xb_out (xb_grow adjust s) = xb_out s"
    "xb_space (xb_grow adjust s) + unat adjust = xb_more s"
proof -
  obtain s1 m where g: "xb_grow adjust s = s1\<lparr>xb_handy := word_of_nat (blk_space m) - adjust\<rparr>" "xbo_rest s1"
    "hd (xb_chain s1) = m" "blk_fresh m" "xb_out s1 = xb_out s" "blk_space m + xb_more s1 = xb_more s"
    using xb_grow_ok [OF assms(1-3)] .
  have f: "4 \<le> blk_space m" "blk_ok m"
    using g(4) by (simp_all add: blk_fresh_def)
  have "unat (word_of_nat (blk_space m) - adjust) = blk_space m - unat adjust"
    using handy_sub(1) [of adjust "word_of_nat (blk_space m)"] unat_space [OF f(2)] blk_space_less [OF f(2)] f(1) assms(4) by simp
  then show thesis
    using g f assms(4) by (intro that [of m]) (simp_all add: xb_space_def)
qed

lemma putlong_ok:
  assumes "xbo_ok s" and "4 dvd length (xb_out s)" and "4 \<le> xb_space s"
  shows "\<exists>s'. xdrmblk_putlong v s = Done (True, s') \<and> xbo_ok s' \<and> xb_out s' = xb_out s @ be32 v \<and> xb_space s = xb_space s' + 4"
proof -
  obtain m ms where c: "xb_chain s = m # ms" "blk_ok m" "unat (xb_handy s) \<le> blk_space m" "unat (xb_handy s) < 2147483648"
    "4 dvd length (blk_data m) + unat (xb_handy s)" "4 dvd length (blk_data m)" "xbo_rest s"
    using xbo_cases [OF assms(1)] assms(2) by metis
  have d: "4 dvd unat (xb_handy s)"
    using c(5,6) by (simp add: dvd_add_right_iff)
  let ?t = "s\<lparr>xb_handy := xb_handy s - 4\<rparr>"
  have t: "xbo_rest ?t" "4 dvd length (blk_data (hd (xb_chain ?t)))" "xb_more ?t = xb_more s" "xb_out ?t = xb_out s"
    using c(1,6,7) by simp_all
  have put: "xdrmblk_putlong v s = xb_long v (if sint (xb_handy s - 4) < 0 then xb_grow 4 ?t else ?t)"
    using c(1) by (simp add: putlong_eq Let_def)
  show ?thesis
  proof (cases "xb_handy s = 0")
    case True
    have "0 < xb_more ?t"
      using assms(3) True t(3) by (simp add: xb_space_def)
    from xb_grow_enter [OF t(1,2) this, of 4] obtain b where g: "xbo_rest (xb_grow 4 ?t)" "hd (xb_chain (xb_grow 4 ?t)) = b" "blk_fresh b"
      "unat (xb_handy (xb_grow 4 ?t)) + 4 = blk_space b" "xb_out (xb_grow 4 ?t) = xb_out s" "xb_space (xb_grow 4 ?t) + 4 = xb_more s"
      using t(3,4) by auto
    have f: "blk_ok b" "4 dvd unat (xb_handy (xb_grow 4 ?t)) + 4"
      using g(3,4) by (simp_all add: blk_fresh_def)
    then have "4 dvd unat (xb_handy (xb_grow 4 ?t))"
      by (metis dvd_add_left_iff dvd_refl)
    then show ?thesis
      using xb_long_ok [OF g(1,2) f(1), of v] g(3-6) fresh_data [of b] put True by (auto simp: xb_space_def)
  next
    case False
    then have "0 < unat (xb_handy s)"
      by (simp add: unat_gt_0)
    then have ge: "4 \<le> unat (xb_handy s)"
      using d by (simp add: dvd_imp_le)
    have h: "unat (xb_handy s - 4) = unat (xb_handy s) - 4" "\<not> sint (xb_handy s - 4) < 0"
      using handy_sub [of 4 "xb_handy s"] ge c(4) by simp_all
    then show ?thesis
      using xb_long_ok [OF t(1) _ c(2), of v] c(1,3,6) ge d put t(3,4) by (auto simp: xb_space_def)
  qed
qed

lemma putbytes_loop_step:
  "xb_chain s = m # ms \<Longrightarrow> xdrmblk_putbytes_loop addr len s =
     (let n = xb_take len s in
      case xb_copy n addr m of
        None \<Rightarrow> Overrun
      | Some (addr, m) \<Rightarrow>
          let s' = xb_set m s in
          if sint (xb_handy s - len) < 0 then xdrmblk_putbytes_loop addr (len - n) (xb_grow 0 s')
          else Done (True, s'\<lparr>xb_handy := xb_handy s - len\<rparr>))"
  unfolding xb_take_def by (subst xdrmblk_putbytes_loop.simps) simp

lemma putbytes_loop_ok:
  assumes "xbo_ok s" and "unat len < 2147483648" and "unat len \<le> xb_space s" and "unat len \<le> length addr"
  shows "\<exists>s'. xdrmblk_putbytes_loop addr len s = Done (True, s') \<and> xbo_ok s' \<and> xb_out s' = xb_out s @ take (unat len) addr
    \<and> xb_space s = xb_space s' + unat len"
  using assms
proof (induction "xb_left s" arbitrary: s addr len rule: less_induct)
  case less
  obtain m ms where c: "xb_chain s = m # ms" "blk_ok m" "unat (xb_handy s) \<le> blk_space m" "unat (xb_handy s) < 2147483648"
    "4 dvd length (blk_data m) + unat (xb_handy s)" "xbo_rest s"
    using xbo_cases [OF less.prems(1)] by metis
  let ?h = "unat (xb_handy s)" and ?n = "xb_take len s"
  note t = xb_take_eq [OF c(4) less.prems(2)]
  have n: "unat ?n \<le> blk_space m" "unat ?n \<le> length addr"
    using t(3) c(3) less.prems(4) by simp_all
  obtain m' where m': "xb_copy ?n addr m = Some (drop (unat ?n) addr, m')" "blk_ok m'"
    "blk_data m' = blk_data m @ take (unat ?n) addr" "blk_space m' = blk_space m - unat ?n"
    using blk_copy [OF c(2) n] .
  have hd: "hd (xb_chain s) = m"
    using c(1) by simp
  show ?case
  proof (cases "?h < unat len")
    case False
    then have e: "?n = len" "unat (xb_handy s - len) = ?h - unat len"
      using t(2) handy_sub(1) [of len "xb_handy s"] c(4) by simp_all
    have "unat (xb_handy s - len) \<le> blk_space m'"
      "4 dvd length (blk_data m) + length (take (unat ?n) addr) + unat (xb_handy s - len)"
      using e m'(4) c(3,5) less.prems(4) False by simp_all
    from xbo_append [OF c(6) hd m'(2,3) this] show ?thesis
      unfolding putbytes_loop_step [OF c(1)] using m'(1) e False t(1) by (simp add: xb_space_def)
  next
    case True
    then have e: "?n = xb_handy s" "sint (xb_handy s - len) < 0" "unat (len - xb_handy s) = unat len - ?h"
      using t by simp_all
    let ?s = "xb_set m' s"
    have go: "xdrmblk_putbytes_loop addr len s = xdrmblk_putbytes_loop (drop ?h addr) (len - xb_handy s) (xb_grow 0 ?s)"
      unfolding putbytes_loop_step [OF c(1)] using m'(1) e by (simp add: Let_def)
    have "unat 0 \<le> blk_space m'" "4 dvd length (blk_data m) + length (take (unat ?n) addr) + unat 0"
      using e(1) c(5) True less.prems(4) by simp_all
    note app = xbo_append [OF c(6) hd m'(2,3) this]
    have s: "xbo_rest ?s" "4 dvd length (blk_data (hd (xb_chain ?s)))" "0 < xb_more ?s" "unat 0 \<le> (4 :: nat)"
      "xb_out ?s = xb_out s @ take ?h addr" "xb_more ?s = xb_more s"
      using app e(1) True less.prems(3) c(1,5) m'(3) less.prems(4)
      by (simp_all add: xbo_ok_def xb_set_def xb_space_def)
    from xb_grow_enter [OF s(1-4)] obtain b where g: "xbo_rest (xb_grow 0 ?s)" "hd (xb_chain (xb_grow 0 ?s)) = b" "blk_fresh b"
      "unat (xb_handy (xb_grow 0 ?s)) = blk_space b" "xb_out (xb_grow 0 ?s) = xb_out s @ take ?h addr" "xb_space (xb_grow 0 ?s) = xb_more s"
      using s(5,6) by auto
    have ok: "xbo_ok (xb_grow 0 ?s)"
      using g(1-4) fresh_data [OF g(3)] by (simp add: xbo_ok_def blk_fresh_def)
    have left: "xb_left (xb_grow 0 ?s) < xb_left s"
      using xb_grow_left [of ?s 0] c(1) by (simp add: xb_set_def xb_left_def)
    have "\<exists>s'. xdrmblk_putbytes_loop (drop ?h addr) (len - xb_handy s) (xb_grow 0 ?s) = Done (True, s') \<and> xbo_ok s'
        \<and> xb_out s' = xb_out (xb_grow 0 ?s) @ take (unat (len - xb_handy s)) (drop ?h addr)
        \<and> xb_space (xb_grow 0 ?s) = xb_space s' + unat (len - xb_handy s)"
      using e(3) less.prems(2-4) g(6) by (intro less.hyps [OF left ok]) (simp_all add: xb_space_def)
    moreover have "take (unat len) addr = take ?h addr @ take (unat len - ?h) (drop ?h addr)"
      using True by (metis le_add_diff_inverse less_imp_le take_add)
    ultimately show ?thesis
      unfolding go using g(5,6) e(3) True less.prems(3) by (auto simp: xb_space_def)
  qed
qed

text \<open>
  The interface counts at most \<open>2\<^sup>3\<^sup>1 - 1\<close> bytes of room, the largest length that \<^verbatim>\<open>xdrmblk_putbytes\<close>
  can be given.
\<close>

definition xb_room :: "xdr_mblk \<Rightarrow> nat" where
  "xb_room s = min 2147483647 (xb_space s)"

interpretation xbo: xdr_sink xdrmblk_ops xbo_ok xb_out xb_room
proof
  fix s v and len :: "32 word" and bs :: "byte list"
  assume ok: "xbo_ok s"
  show "\<exists>s'. x_putlong xdrmblk_ops v s = Done (True, s') \<and> xbo_ok s' \<and> xb_out s' = xb_out s @ be32 v \<and> xb_room s \<le> xb_room s' + 4"
    if "4 dvd length (xb_out s)" "4 \<le> xb_room s"
    using putlong_ok [OF ok that(1), of v] that(2) by (auto simp: xdrmblk_ops_def xb_room_def)
  show "\<exists>s'. x_putbytes xdrmblk_ops bs len s = Done (True, s') \<and> xbo_ok s' \<and> xb_out s' = xb_out s @ take (unat len) bs
      \<and> xb_room s \<le> xb_room s' + unat len"
    if "unat len \<le> xb_room s" "unat len \<le> length bs"
    using putbytes_loop_ok [OF ok, of len bs] that by (auto simp: xdrmblk_ops_def xdrmblk_putbytes_def xb_room_def)
qed

text \<open>Access in line: addresses of bytes of the current block.\<close>

lemma off_at:
  assumes "blk_off m p + k < 4294967296"
  shows "blk_off m (p + word_of_nat k) = blk_off m p + k"
proof -
  have "unat (word_of_nat k :: 32 word) = k"
    using assms by (simp add: unsigned_of_nat take_bit_nat_eq_self)
  with off_add [of m p "word_of_nat k"] assms show ?thesis
    by simp
qed

text \<open>Bytes of the data of a block are overwritten.\<close>

lemma blk_update:
  assumes "blk_ok m" and "k + length bs \<le> length (blk_data m)"
  obtains m' where "blk_put (b_rptr m + word_of_nat k) bs m = Some m'" "blk_ok m'" "b_rptr m' = b_rptr m"
    "blk_data m' = take k (blk_data m) @ bs @ drop (k + length bs) (blk_data m)" "blk_space m' = blk_space m"
proof -
  let ?r = "blk_off m (b_rptr m)" and ?w = "blk_off m (b_wptr m)"
  let ?mem = "take (?r + k) (db_mem m) @ bs @ drop (?r + k + length bs) (db_mem m)"
  let ?m = "m\<lparr>db_mem := ?mem\<rparr>"
  have w: "?r + length (blk_data m) = ?w" "?w \<le> length (db_mem m)" "length (db_mem m) < 2147483648"
    using blk_len(3) [OF assms(1)] assms(1) by (simp_all add: blk_ok_def)
  have o: "blk_off m (b_rptr m + word_of_nat k) = ?r + k"
    by (rule off_at) (use w assms(2) in simp)
  have len: "length ?mem = length (db_mem m)"
    using w assms(2) by simp
  have "drop ?r ?mem = take k (drop ?r (db_mem m)) @ bs @ drop (k + length bs) (drop ?r (db_mem m))"
    using w assms(2) by (simp add: drop_take ac_simps)
  moreover have "length (take k (drop ?r (db_mem m))) = k" "k + length bs \<le> ?w - ?r"
    using w assms(2) by simp_all
  ultimately have "take (?w - ?r) (drop ?r ?mem) = take k (blk_data m) @ bs @ drop (k + length bs) (blk_data m)"
    by (simp add: blk_data_def drop_take min_absorb1 add.assoc)
  then have d: "blk_data ?m = take k (blk_data m) @ bs @ drop (k + length bs) (blk_data m)"
    by (simp add: blk_data_def blk_off_def)
  show thesis
  proof (rule that [of ?m])
    show "blk_put (b_rptr m + word_of_nat k) bs m = Some ?m"
      unfolding blk_put_def Let_def o using w assms(2) by simp
    show "blk_ok ?m" "blk_space ?m = blk_space m"
      using assms(1) len by (simp_all add: blk_ok_def blk_space_def blk_off_def)
  qed (use d in simp_all)
qed

text \<open>The data of a block are extended by what lies behind them.\<close>

lemma blk_extend:
  assumes "blk_ok m" and "unat n \<le> blk_space m"
  obtains old where "length old = unat n" "blk_ok (m\<lparr>b_wptr := b_wptr m + n\<rparr>)" "blk_data (m\<lparr>b_wptr := b_wptr m + n\<rparr>) = blk_data m @ old"
    "blk_space (m\<lparr>b_wptr := b_wptr m + n\<rparr>) = blk_space m - unat n"
proof -
  let ?w = "blk_off m (b_wptr m)" let ?old = "take (unat n) (drop ?w (db_mem m))"
  have l: "length ?old = unat n"
    using assms by (auto simp: blk_ok_def blk_space_def)
  have "take ?w (db_mem m) @ ?old @ drop (?w + unat n) (db_mem m) = db_mem m"
    by (metis append_take_drop_id drop_drop add.commute)
  then have put: "blk_put (b_wptr m) ?old m = Some m"
    using l assms by (auto simp: blk_put_def Let_def blk_space_def blk_ok_def)
  obtain m1 where m1: "blk_put (b_wptr m) ?old m = Some m1" "blk_ok (m1\<lparr>b_wptr := b_wptr m1 + n\<rparr>)"
    "blk_data (m1\<lparr>b_wptr := b_wptr m1 + n\<rparr>) = blk_data m @ ?old" "blk_space (m1\<lparr>b_wptr := b_wptr m1 + n\<rparr>) = blk_space m - unat n"
    using blk_write [OF assms l] .
  have "m1 = m"
    using m1(1) put by simp
  then show thesis
    using that [OF l] m1(2-4) by simp
qed

definition xb_win :: "xdr_mblk \<Rightarrow> 32 word \<Rightarrow> nat \<Rightarrow> nat \<Rightarrow> bool" where
  "xb_win s a p n \<longleftrightarrow> (let m = hd (xb_chain s); d = length (concat (map blk_data (xb_done s))) in
     d \<le> p \<and> p + n \<le> d + length (blk_data m) \<and> a = b_rptr m + word_of_nat (p - d))"

definition xb_rwin :: "xdr_mblk \<Rightarrow> 32 word \<Rightarrow> byte list \<Rightarrow> bool" where
  "xb_rwin s a bs \<longleftrightarrow> (\<exists>m ms. xb_chain s = m # ms \<and> length (db_mem m) < 2147483648 \<and> blk_off m a + length bs \<le> length (db_mem m)
     \<and> take (length bs) (drop (blk_off m a) (db_mem m)) = bs)"

lemma inline_fits: "unat (h :: 32 word) < 2147483648 \<Longrightarrow> unat (len :: 32 word) < 2147483648 \<Longrightarrow> sint h < sint len \<longleftrightarrow> unat h < unat len"
  using sint_small [of h] sint_small [of len] by (simp del: of_nat_unat)

lemma xb_inline_put:
  assumes "xbo_ok s" and "unat len < 2147483648" and "xdrmblk_inline len s = (r, s')"
  shows "case r of None \<Rightarrow> s' = s
    | Some a \<Rightarrow> xbo_ok s' \<and> xb_space s = xb_space s' + unat len \<and> (\<exists>old. length old = unat len \<and> xb_out s' = xb_out s @ old)
        \<and> xb_win s' a (length (xb_out s)) (unat len)"
proof -
  obtain m ms where c: "xb_chain s = m # ms" "blk_ok m" "unat (xb_handy s) \<le> blk_space m" "unat (xb_handy s) < 2147483648"
    "4 dvd length (blk_data m) + unat (xb_handy s)" "xbo_rest s"
    using xbo_cases [OF assms(1)] by metis
  have op: "xb_op s = XDR_ENCODE"
    using c(6) by (simp add: xbo_rest_def)
  note fit = inline_fits [OF c(4) assms(2)]
  show ?thesis
  proof (cases "unat (xb_handy s) < unat len \<or> db_ref m \<noteq> 1")
    case True
    then show ?thesis
      using assms(3) c(1) op fit by (auto simp: xdrmblk_inline_def)
  next
    case False
    let ?m = "m\<lparr>b_wptr := b_wptr m + len\<rparr>"
    have s': "r = Some (b_wptr m)" "s' = (xb_set ?m s)\<lparr>xb_handy := xb_handy s - len\<rparr>"
      using assms(3) c(1) op fit False by (auto simp: xdrmblk_inline_def Let_def)
    have "unat len \<le> blk_space m"
      using False c(3) by simp
    from blk_extend [OF c(2) this] obtain old where o: "length old = unat len" "blk_ok ?m" "blk_data ?m = blk_data m @ old"
      "blk_space ?m = blk_space m - unat len" .
    have h: "unat (xb_handy s - len) = unat (xb_handy s) - unat len"
      using handy_sub(1) [of len "xb_handy s"] False c(4) by simp
    have "unat (xb_handy s - len) \<le> blk_space ?m" "4 dvd length (blk_data m) + length old + unat (xb_handy s - len)"
      using h o(1,4) c(3,5) False by simp_all
    note app = xbo_append [OF c(6) _ o(2,3) this, folded s'(2)]
    have "concat (map blk_data ms) = []"
      using c(1,6) by (auto simp: xbo_rest_def fresh_data)
    then have out: "xb_out s = concat (map blk_data (xb_done s)) @ blk_data m"
      using c(1) by (simp add: xb_out_def)
    have "b_wptr m = b_rptr m + word_of_nat (length (blk_data m))"
      using blk_len(1) [OF c(2)] by simp
    then have "xb_win s' (b_wptr m) (length (xb_out s)) (unat len)"
      using o(1,3) by (simp add: xb_win_def out s'(2) xb_set_def)
    then show ?thesis
      using app c(1) o(1) h False s'(1) by (auto simp: xb_space_def s'(2))
  qed
qed

lemma xb_inline_store:
  assumes "xbo_ok s" and "xb_win s a p n" and "i + length bs \<le> n"
  shows "\<exists>s'. xb_store (a + word_of_nat i) bs s = Done s' \<and> xbo_ok s' \<and> xb_space s' = xb_space s
    \<and> xb_out s' = take (p + i) (xb_out s) @ bs @ drop (p + i + length bs) (xb_out s) \<and> xb_win s' a p n"
proof -
  obtain m ms where c: "xb_chain s = m # ms" "blk_ok m" "xbo_rest s"
    using xbo_cases [OF assms(1)] by metis
  let ?d = "length (concat (map blk_data (xb_done s)))"
  have w: "?d \<le> p" "p + n \<le> ?d + length (blk_data m)" "a = b_rptr m + word_of_nat (p - ?d)"
    using assms(2) c(1) by (simp_all add: xb_win_def Let_def)
  have "p - ?d + i + length bs \<le> length (blk_data m)"
    using w assms(3) by simp
  from blk_update [OF c(2) this] obtain m' where m': "blk_put (b_rptr m + word_of_nat (p - ?d + i)) bs m = Some m'" "blk_ok m'"
    "b_rptr m' = b_rptr m" "blk_data m' = take (p - ?d + i) (blk_data m) @ bs @ drop (p - ?d + i + length bs) (blk_data m)"
    "blk_space m' = blk_space m" .
  have a: "a + word_of_nat i = b_rptr m + word_of_nat (p - ?d + i)"
    using w(3) by simp
  have len: "length (blk_data m') = length (blk_data m)"
    using m'(4) w assms(3) by simp
  have e: "concat (map blk_data ms) = []"
    using c(1,3) by (auto simp: xbo_rest_def fresh_data)
  have k: "p + i = ?d + (p - ?d + i)"
    using w(1) by simp
  have "xb_out (xb_set m' s) = take (p + i) (xb_out s) @ bs @ drop (p + i + length bs) (xb_out s)"
    unfolding k using c(1) m'(4) by (simp add: xb_out_def xb_set_def e add.assoc)
  moreover have "xbo_ok (xb_set m' s)"
    using assms(1) c(1) m'(2,5) len by (simp add: xbo_ok_def xbo_rest_def xb_set_def)
  moreover have "xb_win (xb_set m' s) a p n"
    using assms(2) c(1) m'(3) len by (simp add: xb_win_def xb_set_def Let_def)
  ultimately show ?thesis
    unfolding xb_store_def a using c(1) m'(1) by (simp add: xb_space_def xb_more_def xb_set_def)
qed

lemma xb_inline_get:
  assumes "xbi_ok k s" and "unat len < 2147483648" and "xdrmblk_inline len s = (r, s')"
  shows "case r of None \<Rightarrow> s' = s
    | Some a \<Rightarrow> xbi_ok k s' \<and> unat len \<le> length (xb_inp s) \<and> xb_inp s' = drop (unat len) (xb_inp s)
        \<and> xb_rwin s' a (take (unat len) (xb_inp s))"
proof -
  obtain m ms where c: "xb_chain s = m # ms" "blk_ok m" "unat (xb_handy s) = length (blk_data m)"
    "length (blk_data m) < 2147483648" "xb_inp s = blk_data m @ concat (map blk_data ms)"
    using xbi_cases [OF assms(1)] by metis
  have op: "xb_op s = XDR_DECODE"
    using assms(1) by (simp add: xbi_ok_def)
  have fit: "sint (xb_handy s) < sint len \<longleftrightarrow> length (blk_data m) < unat len"
    using inline_fits [of "xb_handy s" len] c(3,4) assms(2) by simp
  show ?thesis
  proof (cases "length (blk_data m) < unat len \<or> db_ref m \<noteq> 1")
    case True
    then show ?thesis
      using assms(3) c(1) op fit by (auto simp: xdrmblk_inline_def)
  next
    case False
    let ?m = "m\<lparr>b_rptr := b_rptr m + len\<rparr>"
    have s': "r = Some (b_rptr m)" "s' = (xb_set ?m s)\<lparr>xb_handy := xb_handy s - len\<rparr>"
      using assms(3) c(1) op fit False by (auto simp: xdrmblk_inline_def Let_def)
    have l: "unat len \<le> length (blk_data m)"
      using False by simp
    have "xb_rwin s' (b_rptr m) (take (unat len) (blk_data m))"
      using c(1,2) l blk_len(3) [OF c(2)]
      by (auto simp: xb_rwin_def s'(2) xb_set_def blk_off_def blk_ok_def blk_data_def min_absorb1)
    then show ?thesis
      using xbi_consume [OF assms(1) c(1) l, folded s'(2)] s'(1) c(5) l by simp
  qed
qed

lemma xb_inline_load:
  assumes "xb_rwin s a bs" and "i + n \<le> length bs"
  shows "xb_load (a + word_of_nat i) n s = Done (take n (drop i bs))"
proof -
  obtain m ms where w: "xb_chain s = m # ms" "length (db_mem m) < 2147483648" "blk_off m a + length bs \<le> length (db_mem m)"
    "take (length bs) (drop (blk_off m a) (db_mem m)) = bs"
    using assms(1) by (auto simp: xb_rwin_def)
  have "blk_off m (a + word_of_nat i) = blk_off m a + i"
    by (rule off_at) (use w(2,3) assms(2) in simp)
  moreover have "take n (drop i bs) = take n (drop (blk_off m a + i) (db_mem m))"
  proof -
    have "take n (drop i (take (length bs) (drop (blk_off m a) (db_mem m)))) = take n (drop (blk_off m a + i) (db_mem m))"
      using assms(2) by (simp add: drop_take add.commute min_absorb1)
    then show ?thesis
      using w(4) by simp
  qed
  ultimately show ?thesis
    using w(1,3) assms(2) by (simp add: xb_load_def blk_get_def)
qed

interpretation xb: xdr_inline_medium xdrmblk_ops xbo_ok xb_out xb_room "xbi_ok k" xb_inp "xb_phase k" xb_win xb_rwin for k
proof (unfold_locales, goal_cases)
  case (1 s len r s')
  have "unat len < 2147483648" "xdrmblk_inline len s = (r, s')"
    using 1(2,3) by (simp_all add: xdrmblk_ops_def)
  from xb_inline_put [OF 1(1) this] show ?case
    by (cases r) (auto simp: xb_room_def)
next
  case (2 s a p n i bs)
  then show ?case
    using xb_inline_store [OF 2] by (auto simp: xdrmblk_ops_def xb_room_def)
next
  case (3 s len r s')
  have "unat len < 2147483648" "xdrmblk_inline len s = (r, s')"
    using 3(2,3) by (simp_all add: xdrmblk_ops_def)
  from xb_inline_get [OF 3(1) this] show ?case
    by (cases r) (auto simp: xb_phase_drop)
next
  case (4 s a bs i n)
  then show ?case
    using xb_inline_load [OF 4] by (simp add: xdrmblk_ops_def)
qed

section \<open>Encoding and decoding on a chain\<close>

text \<open>
  The chain of a stream, from its first block. A message is a chain of blocks, not empty, that
  hold less than \<open>2\<^sup>3\<^sup>1\<close> bytes in all. Each block but the last holds whole units of four bytes, as the
  transports make sure before they pass a message on, \<^verbatim>\<open>svc_cots.c\<close> and \<^verbatim>\<open>clnt_cots.c\<close>: a long that is
  cut in two by the end of a block is not read (\<open>getlong_cut_unit\<close>).
\<close>

definition xb_message :: "xdr_mblk \<Rightarrow> mblk list" where
  "xb_message s = xb_done s @ xb_chain s"

definition msg_data :: "mblk list \<Rightarrow> byte list" where
  "msg_data ms = concat (map blk_data ms)"

definition xdr_message :: "mblk list \<Rightarrow> bool" where
  "xdr_message ms \<longleftrightarrow> ms \<noteq> [] \<and> (\<forall>m\<in>set ms. blk_ok m) \<and> (\<forall>m\<in>set (butlast ms). 4 dvd length (blk_data m))
     \<and> length (msg_data ms) < 2 ^ 31"

definition decode_init :: "mblk list \<Rightarrow> xdr_mblk xdr" where
  "decode_init ms = xdrmblk_init (hd ms) (tl ms) XDR_DECODE 0 []"

text \<open>
  \<open>proc\<close> encodes \<open>v\<close> into a stream that begins with an empty block and goes on in the blocks it
  allocates, as long as these take the bytes; the chain it leaves is a message of the bytes
  \<open>bs\<close>. It decodes every message that begins with \<open>bs\<close> as \<open>v\<close>, and what is left is the rest of the
  message.
\<close>

definition mblk_roundtrip :: "(xdr_mblk, 'a) xdrproc \<Rightarrow> 'a \<Rightarrow> 'a \<Rightarrow> byte list \<Rightarrow> bool" where
  "mblk_roundtrip proc v0 v bs \<longleftrightarrow>
     (\<forall>m sz allocs. blk_fresh m \<longrightarrow> b_wptr m = db_base m \<longrightarrow> allocs_ok sz allocs \<longrightarrow> length bs < 2 ^ 31 \<longrightarrow>
        length bs \<le> length (db_mem m) + (if sz = 0 then 0 else alloc_room sz allocs) \<longrightarrow>
        (\<exists>x. proc (xdrmblk_init m [] XDR_ENCODE sz allocs) v = Done (True, v, x)
           \<and> xdr_message (xb_message (x_priv x)) \<and> msg_data (xb_message (x_priv x)) = bs))
     \<and> (\<forall>ms rest. xdr_message ms \<longrightarrow> msg_data ms = bs @ rest \<longrightarrow>
        (\<exists>x. proc (decode_init ms) v0 = Done (True, v, x) \<and> xb_inp (x_priv x) = rest))"

lemma decode_init_ok:
  fixes ms
  defines "r \<equiv> length (msg_data ms)"
  assumes "xdr_message ms"
  shows "xbi.handle r (decode_init ms)" and "xb_inp (x_priv (decode_init ms)) = msg_data ms"
    and "xb_phase r (x_priv (decode_init ms)) = 0"
proof -
  obtain m bs where ms: "ms = m # bs"
    using assms(2) by (auto simp: xdr_message_def neq_Nil_conv)
  show i: "xb_inp (x_priv (decode_init ms)) = msg_data ms"
    using ms by (simp add: decode_init_def xdrmblk_init_def xb_inp_def msg_data_def)
  then show "xb_phase r (x_priv (decode_init ms)) = 0"
    by (simp add: xb_phase_zero r_def)
  have "r mod 4 = length (blk_data (last ms)) mod 4"
    using units_concat [of ms] assms(2) by (simp add: xdr_message_def r_def msg_data_def)
  moreover have "\<forall>m\<in>set (butlast bs). 4 dvd length (blk_data m)"
    using assms(2) ms by (auto simp: xdr_message_def split: if_splits)
  ultimately show "xbi.handle r (decode_init ms)"
    using assms(2) ms i by (auto simp: xbi.handle_def decode_init_def xdrmblk_init_def xbi_ok_def xdr_message_def)
qed

lemma encode_init_ok:
  assumes "blk_fresh m" and "b_wptr m = db_base m" and "allocs_ok sz allocs"
  defines "s \<equiv> x_priv (xdrmblk_init m [] XDR_ENCODE sz allocs)"
  shows "xbo.handle (xdrmblk_init m [] XDR_ENCODE sz allocs)" and "xb_out s = []"
    and "xb_space s = length (db_mem m) + (if sz = 0 then 0 else alloc_room sz allocs)"
proof -
  have f: "blk_data m = []" "blk_ok m" "blk_space m = length (db_mem m)" "b_rptr m = db_base m"
    using assms(1,2) fresh_data by (simp_all add: blk_fresh_def blk_space_def blk_off_def)
  have h: "unat (xb_handy s) = length (db_mem m)"
    using unat_space [OF f(2)] f(3) by (simp add: s_def xdrmblk_init_def db_lim_def)
  show "xb_out s = []" "xb_space s = length (db_mem m) + (if sz = 0 then 0 else alloc_room sz allocs)"
    using f(1) h by (simp_all add: s_def xdrmblk_init_def xb_out_def xb_space_def xb_more_def)
  show "xbo.handle (xdrmblk_init m [] XDR_ENCODE sz allocs)"
    using h f assms(1,3) unfolding s_def
    by (simp add: xbo.handle_def xdrmblk_init_def xbo_ok_def xbo_rest_def blk_fresh_def)
qed

lemma xbo_message:
  assumes "xbo_ok s" and "4 dvd length (xb_out s)" and "length (xb_out s) < 2147483648"
  shows "xdr_message (xb_message s)" and "msg_data (xb_message s) = xb_out s"
proof -
  show d: "msg_data (xb_message s) = xb_out s"
    by (simp add: msg_data_def xb_message_def xb_out_def)
  obtain m ms where "xb_chain s = m # ms" "blk_ok m" "4 dvd length (blk_data m)" "xbo_rest s"
    using xbo_cases [OF assms(1)] assms(2) by metis
  then show "xdr_message (xb_message s)"
    using d assms(3) by (auto simp: xdr_message_def xb_message_def xbo_rest_def fresh_data blk_fresh_def dest!: in_set_butlastD)
qed

lemma mblk_roundtripI:
  assumes "\<And>r. xb.conveys r proc v0 v bs"
  shows "mblk_roundtrip proc v0 v bs"
  unfolding mblk_roundtrip_def
proof (intro conjI allI impI)
  fix m sz allocs assume f: "blk_fresh m" "b_wptr m = db_base m" "allocs_ok sz allocs" and l: "length bs < 2 ^ 31"
    and r: "length bs \<le> length (db_mem m) + (if sz = 0 then 0 else alloc_room sz allocs)"
  note i = encode_init_ok [OF f]
  have "4 dvd length (xb_out (x_priv (xdrmblk_init m [] XDR_ENCODE sz allocs)))"
    "length bs \<le> xb_room (x_priv (xdrmblk_init m [] XDR_ENCODE sz allocs))"
    using i(2,3) l r by (simp_all add: xb_room_def)
  from xbo.encodesD [OF xb.conveysD(1) [OF assms] i(1) this] obtain x where x: "proc (xdrmblk_init m [] XDR_ENCODE sz allocs) v = Done (True, v, x)"
    "xbo.handle x" "xb_out (x_priv x) = bs"
    using i(2) by auto
  have "4 dvd length bs"
    by (rule xbo.encodes_length [OF xb.conveysD(1) [OF assms]])
  then show "\<exists>x. proc (xdrmblk_init m [] XDR_ENCODE sz allocs) v = Done (True, v, x)
      \<and> xdr_message (xb_message (x_priv x)) \<and> msg_data (xb_message (x_priv x)) = bs"
    using x xbo_message [OF xbo.handleD(1) [OF x(2)]] l by auto
next
  fix ms rest assume m: "xdr_message ms" and d: "msg_data ms = bs @ rest"
  note i = decode_init_ok [OF m]
  show "\<exists>x. proc (decode_init ms) v0 = Done (True, v, x) \<and> xb_inp (x_priv x) = rest"
    by (rule xbi.decodesD [OF xb.conveysD(2) [OF assms] i(1,3)]) (use i(2) d in auto)
qed

end
