(* ===== verification/Rpc_Stream.thy ===== *)
theory Rpc_Stream
  imports Rpc_Msg Xdr_Chain
begin

text \<open>
  The message filters on any stream with the interface of the filters and access in line: what
  they write and read does not depend on whether the stream gives access.
\<close>

section \<open>Representation\<close>

text \<open>
  Authentication data within the limit, with a pointer to as many bytes as the length says, or
  to nothing if that is 0; and its external representation with the filler \<open>f\<close>.
\<close>

definition auth_ok :: "opaque_auth \<Rightarrow> bool" where
  "auth_ok oa \<longleftrightarrow> oa_length oa \<le> MAX_AUTH_BYTES \<and> length (bytes_at (oa_base oa)) = unat (oa_length oa)
     \<and> oa_base oa = (if oa_length oa = 0 then Null else Ptr (bytes_at (oa_base oa)))"

definition rep_auth :: "byte list \<Rightarrow> opaque_auth \<Rightarrow> byte list" where
  "rep_auth f oa = be32 (oa_flavor oa) @ be32 (oa_length oa) @ bytes_at (oa_base oa) @ f"

definition auth_pad :: "opaque_auth \<Rightarrow> nat" where
  "auth_pad oa = pad (unat (oa_length oa))"

text \<open>
  On the receiving side: authentication data to decode into, without a pointer or, as a server
  provides them, with a pointer to at least 400 bytes; authentication data with a length within
  the limit and a pointer to at least as many bytes; and those that carry the same as \<open>oa\<close>.
\<close>

definition auth_room :: "opaque_auth \<Rightarrow> bool" where
  "auth_room oa \<longleftrightarrow> (case oa_base oa of Null \<Rightarrow> True | Ptr area \<Rightarrow> 400 \<le> length area | Dangling \<Rightarrow> False)"

definition auth_safe :: "opaque_auth \<Rightarrow> bool" where
  "auth_safe oa \<longleftrightarrow> oa_length oa \<le> MAX_AUTH_BYTES \<and> unat (oa_length oa) \<le> length (bytes_at (oa_base oa))"

definition auth_same :: "opaque_auth \<Rightarrow> opaque_auth \<Rightarrow> bool" where
  "auth_same oa oa' \<longleftrightarrow> oa_flavor oa' = oa_flavor oa \<and> oa_length oa' = oa_length oa
     \<and> unat (oa_length oa) \<le> length (bytes_at (oa_base oa'))
     \<and> take (unat (oa_length oa)) (bytes_at (oa_base oa')) = take (unat (oa_length oa)) (bytes_at (oa_base oa))"

text \<open>Where the bytes are read to: allocated memory or the bytes provided.\<close>

lemma auth_area:
  assumes "auth_room oa" and "n \<le> MAX_AUTH_BYTES" and "\<And>n. length (mem n) = n"
  obtains area where "(if oa_base oa = Null then Ptr (mem (unat n)) else oa_base oa) = Ptr area" "unat n \<le> length area"
    "oa_base oa = Null \<and> area = mem (unat n) \<or> oa_base oa = Ptr area"
proof -
  have "unat n \<le> 400"
    using assms(2) by (simp add: MAX_AUTH_BYTES_def word_le_nat_alt)
  then show thesis
    using assms(1,3) that by (cases "oa_base oa") (auto simp: auth_room_def)
qed

lemma auth_okD:
  assumes "auth_ok oa"
  shows "length (bytes_at (oa_base oa)) = unat (oa_length oa)" and "unat (oa_length oa) \<le> 400" and "oa_length oa \<le> MAX_AUTH_BYTES"
    and "\<not> MAX_AUTH_BYTES < oa_length oa"
    and "oa_base oa = (if oa_length oa = 0 then Null else Ptr (bytes_at (oa_base oa)))"
  using assms by (simp_all add: auth_ok_def MAX_AUTH_BYTES_def word_le_nat_alt word_less_nat_alt)

lemma auth_ok_safe: "auth_ok oa \<Longrightarrow> auth_safe oa" and auth_ok_same: "auth_ok oa \<Longrightarrow> auth_same oa oa"
  by (simp_all add: auth_ok_def auth_safe_def auth_same_def)

lemma oa_base_eq: "oa_base oa = p \<Longrightarrow> oa\<lparr>oa_base := p\<rparr> = (oa :: opaque_auth)"
  by auto

lemma unat_RNDUP_u:
  assumes "unat w + 3 < 4294967296"
  shows "unat (RNDUP_u w) = unat w + pad (unat w)"
proof -
  let ?n = "unat w"
  have "unat (w + 3) = ?n + 3"
    using assms by (simp add: unat_word_ariths)
  then have d: "unat ((w + 3) div 4) = (?n + 3) div 4"
    by (simp add: unat_div)
  have "(?n + 3) div 4 * 4 < 4294967296"
    using assms by presburger
  then have "unat (RNDUP_u w) = (?n + 3) div 4 * 4"
    unfolding RNDUP_u_def using d by (simp add: unat_word_ariths)
  moreover have "(n + 3) div 4 * 4 = n + p" if "(n + p) mod 4 = 0" "p < 4" for n p :: nat
    using that by presburger
  ultimately show ?thesis
    using pad_phase [of ?n] pad_bound [of ?n] by simp
qed

lemma rep_auth_length: "auth_ok oa \<Longrightarrow> length f = auth_pad oa \<Longrightarrow> length (rep_auth f oa) = 8 + unat (RNDUP_u (oa_length oa))"
  using unat_RNDUP_u [of "oa_length oa"] auth_okD [of oa] by (simp add: rep_auth_def auth_pad_def)

lemma RNDUP_word: "unat w + 3 < 4294967296 \<Longrightarrow> RNDUP_u w = word_of_nat (unat w + pad (unat w))"
  using unat_RNDUP_u [of w] of_nat_unat [of "RNDUP_u w", where 'a = "32 word"] by simp

lemma RNDUP_div:
  assumes "unat w + 3 < 4294967296"
  shows "RNDUP_u w div 4 * 4 = RNDUP_u w"
proof -
  have "unat (RNDUP_u w) mod 4 = 0"
    using unat_RNDUP_u [OF assms] pad_phase [of "unat w"] by simp
  then have "unat (RNDUP_u w) div 4 * 4 = unat (RNDUP_u w)"
    by presburger
  then have "unat (RNDUP_u w div 4 * 4) = unat (RNDUP_u w)"
    using unsigned_less [of "RNDUP_u w", where 'a = nat] by (simp add: unat_word_ariths unat_div)
  then show ?thesis
    by (simp add: word_unat_eq_iff)
qed

text \<open>Replies: \<open>res\<close> are the bytes of the results.\<close>

definition rep_accepted_rest :: "byte list \<Rightarrow> ('s, 'r) accepted_reply \<Rightarrow> byte list" where
  "rep_accepted_rest res ar =
     (if ar_stat ar = SUCCESS then res
      else if ar_stat ar = PROG_MISMATCH then be32 (ar_vers_low ar) @ be32 (ar_vers_high ar) else [])"

definition rep_rejected :: "rejected_reply \<Rightarrow> byte list" where
  "rep_rejected rr = be32 (rj_stat rr) @
     (if rj_stat rr = RPC_MISMATCH then be32 (rj_vers_low rr) @ be32 (rj_vers_high rr) else be32 (rj_why rr))"

definition rep_reply :: "byte list \<Rightarrow> ('s, 'r) rpc_msg \<Rightarrow> byte list" where
  "rep_reply res m =
     (let r = rm_reply m; oa = ar_verf (rp_acpt r) in
      be32 (rm_xid m) @ be32 (rm_direction m) @ be32 (rp_stat r) @
      (if rp_stat r = MSG_ACCEPTED
       then rep_auth (replicate (auth_pad oa) 0) oa @ be32 (ar_stat (rp_acpt r)) @ rep_accepted_rest res (rp_acpt r)
       else rep_rejected (rp_rjct r)))"

text \<open>A reply that can be sent: its unions hold what direction and status say.\<close>

definition reply_ok :: "('s, 'r) rpc_msg \<Rightarrow> bool" where
  "reply_ok m \<longleftrightarrow> rm_direction m = REPLY \<and> (case rm_ru m of
      RM_rmb r \<Rightarrow> (case rp_ru r of
          RP_ar ar \<Rightarrow> rp_stat r = MSG_ACCEPTED \<and> auth_ok (ar_verf ar)
            \<and> (ar_stat ar = SUCCESS \<longrightarrow> is_results (ar_ru ar)) \<and> (ar_stat ar = PROG_MISMATCH \<longrightarrow> is_versions (ar_ru ar))
        | RP_dr rr \<Rightarrow> rp_stat r = MSG_DENIED \<and> rj_stat rr \<in> {RPC_MISMATCH, AUTH_ERROR})
    | RM_cmb _ \<Rightarrow> False)"

lemma reply_okD:
  assumes "reply_ok m"
  defines "r \<equiv> rm_reply m"
  shows "rm_direction m = REPLY" and "is_reply (rm_ru m)"
    and "rp_stat r = MSG_ACCEPTED \<or> rp_stat r = MSG_DENIED"
    and "rp_stat r = MSG_ACCEPTED \<Longrightarrow> is_acpt (rp_ru r)" and "rp_stat r = MSG_ACCEPTED \<Longrightarrow> auth_ok (ar_verf (rp_acpt r))"
    and "rp_stat r = MSG_ACCEPTED \<Longrightarrow> ar_stat (rp_acpt r) = SUCCESS \<Longrightarrow> is_results (ar_ru (rp_acpt r))"
    and "rp_stat r = MSG_ACCEPTED \<Longrightarrow> ar_stat (rp_acpt r) = PROG_MISMATCH \<Longrightarrow> is_versions (ar_ru (rp_acpt r))"
    and "rp_stat r \<noteq> MSG_ACCEPTED \<Longrightarrow> is_rjct (rp_ru r)"
    and "rp_stat r \<noteq> MSG_ACCEPTED \<Longrightarrow> rp_stat r = MSG_DENIED \<and> rj_stat (rp_rjct r) \<in> {RPC_MISMATCH, AUTH_ERROR}"
  using assms by (auto simp: reply_ok_def MSG_ACCEPTED_def MSG_DENIED_def split: msg_ru.splits reply_ru.splits)

text \<open>A message that a client decodes a reply into: the results go to \<open>w\<close>, through the filter \<open>q\<close>.\<close>

definition reply_room :: "('s, 'r) rpc_msg \<Rightarrow> 'r \<Rightarrow> ('s, 'r) xdrproc \<Rightarrow> bool" where
  "reply_room m w q \<longleftrightarrow> (\<exists>r ar. rm_ru m = RM_rmb r \<and> rp_ru r = RP_ar ar \<and> ar_ru ar = AR_results w (Some q) \<and> oa_base (ar_verf ar) = Null)"

lemma reply_roomD:
  assumes "reply_room m w q"
  shows "oa_base (ar_verf (rp_acpt (rm_reply m))) = Null" and "ar_where (rp_acpt (rm_reply m)) = w"
    and "ar_proc (rp_acpt (rm_reply m)) = Some q"
  using assms by (auto simp: reply_room_def)

text \<open>Calls, with the filler of credential and verifier.\<close>

definition rep_call :: "byte list \<Rightarrow> byte list \<Rightarrow> ('s, 'r) rpc_msg \<Rightarrow> byte list" where
  "rep_call f g m =
     (let c = rm_call m in
      be32 (rm_xid m) @ be32 (rm_direction m) @ be32 (cb_rpcvers c) @ be32 (cb_prog c) @ be32 (cb_vers c) @ be32 (cb_proc c)
      @ rep_auth f (cb_cred c) @ rep_auth g (cb_verf c))"

definition call_ok :: "('s, 'r) rpc_msg \<Rightarrow> bool" where
  "call_ok m \<longleftrightarrow> (let c = rm_call m in is_call (rm_ru m)
     \<and> rm_direction m = CALL \<and> cb_rpcvers c = RPC_MSG_VERSION \<and> auth_ok (cb_cred c) \<and> auth_ok (cb_verf c))"

text \<open>A message that a call is decoded into, a call as it was decoded, and one that says the same as \<open>m\<close>.\<close>

definition call_room :: "('s, 'r) rpc_msg \<Rightarrow> bool" where
  "call_room m \<longleftrightarrow> is_call (rm_ru m) \<and> auth_room (cb_cred (rm_call m)) \<and> auth_room (cb_verf (rm_call m))"

definition call_safe :: "('s, 'r) rpc_msg \<Rightarrow> bool" where
  "call_safe m \<longleftrightarrow> (let c = rm_call m in is_call (rm_ru m)
     \<and> rm_direction m = CALL \<and> cb_rpcvers c = RPC_MSG_VERSION \<and> auth_safe (cb_cred c) \<and> auth_safe (cb_verf c))"

definition body_same :: "call_body \<Rightarrow> call_body \<Rightarrow> bool" where
  "body_same c c' \<longleftrightarrow> cb_rpcvers c' = cb_rpcvers c \<and> cb_prog c' = cb_prog c \<and> cb_vers c' = cb_vers c \<and> cb_proc c' = cb_proc c
     \<and> auth_same (cb_cred c) (cb_cred c') \<and> auth_same (cb_verf c) (cb_verf c')"

definition call_same :: "('s, 'r) rpc_msg \<Rightarrow> ('s, 'r) rpc_msg \<Rightarrow> bool" where
  "call_same m m' \<longleftrightarrow> rm_xid m' = rm_xid m \<and> rm_direction m' = rm_direction m \<and> is_call (rm_ru m')
     \<and> body_same (rm_call m) (rm_call m')"

definition call_reps :: "('s, 'r) rpc_msg \<Rightarrow> byte list set" where
  "call_reps m = {rep_call f g m |f g. length f = auth_pad (cb_cred (rm_call m)) \<and> length g = auth_pad (cb_verf (rm_call m))}"

definition call_size :: "('s, 'r) rpc_msg \<Rightarrow> nat" where
  "call_size m = 40 + unat (RNDUP_u (oa_length (cb_cred (rm_call m)))) + unat (RNDUP_u (oa_length (cb_verf (rm_call m))))"

lemma auth_size:
  assumes "auth_ok oa"
  shows "unat (RNDUP_u (oa_length oa)) < 404" and "4 dvd unat (RNDUP_u (oa_length oa))"
  using unat_RNDUP_u [of "oa_length oa"] auth_okD(2) [OF assms] pad_bound [of "unat (oa_length oa)"] pad_phase [of "unat (oa_length oa)"]
  by (simp_all add: dvd_eq_mod_eq_0)

lemma call_repsI:
  "length f = auth_pad (cb_cred (rm_call m)) \<Longrightarrow> length g = auth_pad (cb_verf (rm_call m)) \<Longrightarrow> rep_call f g m \<in> call_reps m"
  by (auto simp: call_reps_def)

lemma call_reps_size:
  assumes "call_ok m" and "bs \<in> call_reps m"
  shows "length bs = call_size m"
proof -
  obtain f g where r: "bs = rep_call f g m" "length f = auth_pad (cb_cred (rm_call m))" "length g = auth_pad (cb_verf (rm_call m))"
    using assms(2) by (auto simp: call_reps_def)
  have "auth_ok (cb_cred (rm_call m))" "auth_ok (cb_verf (rm_call m))"
    using assms(1) by (simp_all add: call_ok_def Let_def)
  from rep_auth_length [OF this(1) r(2)] rep_auth_length [OF this(2) r(3)] show ?thesis
    by (simp add: r(1) rep_call_def call_size_def Let_def)
qed

text \<open>The message \<open>m0\<close> after the reply \<open>m\<close> has been received into it.\<close>

definition accepted_into :: "('s, 'r) accepted_reply \<Rightarrow> ('s, 'r) accepted_reply \<Rightarrow> ('s, 'r) accepted_reply" where
  "accepted_into ar ar0 = ar0\<lparr>ar_verf := ar_verf ar, ar_stat := ar_stat ar, ar_ru :=
     (if ar_stat ar = SUCCESS then AR_results (ar_where ar) (ar_proc ar0)
      else if ar_stat ar = PROG_MISMATCH then AR_versions (ar_vers_low ar) (ar_vers_high ar) else ar_ru ar0)\<rparr>"

definition rejected_into :: "rejected_reply \<Rightarrow> rejected_reply \<Rightarrow> rejected_reply" where
  "rejected_into rr rr0 =
     (let r = rr0\<lparr>rj_stat := rj_stat rr\<rparr> in
      if rj_stat rr = RPC_MISMATCH then r\<lparr>rj_ru0 := rj_vers_low rr, rj_ru1 := rj_vers_high rr\<rparr>
      else r\<lparr>rj_ru0 := rj_why rr\<rparr>)"

definition reply_into :: "('s, 'r) rpc_msg \<Rightarrow> ('s, 'r) rpc_msg \<Rightarrow> ('s, 'r) rpc_msg" where
  "reply_into m m0 =
     (let r = rm_reply m; r0 = rm_reply m0 in
      m0\<lparr>rm_xid := rm_xid m, rm_direction := rm_direction m, rm_ru := RM_rmb (r0\<lparr>rp_stat := rp_stat r, rp_ru :=
        (if rp_stat r = MSG_ACCEPTED then RP_ar (accepted_into (rp_acpt r) (rp_acpt r0))
         else RP_dr (rejected_into (rp_rjct r) (rp_rjct r0)))\<rparr>)\<rparr>)"

lemma rp_swap: "r\<lparr>rp_ru := u, rp_stat := st\<rparr> = r\<lparr>rp_stat := st, rp_ru := u\<rparr>"
  by (cases r) simp

section \<open>Writing\<close>

context xdr_sink
begin

lemma encodes_field:
  assumes "encodes p (get v) bs" and "upd (get v) v = v"
  shows "encodes (xdr_field p get upd) v bs"
proof (rule encodesI [OF encodes_length [OF assms(1)]])
  fix xdrs assume "handle xdrs" "4 dvd length (out (x_priv xdrs))" "length bs \<le> room (x_priv xdrs)"
  from encodesD [OF assms(1) this] obtain x' where "p xdrs (get v) = Done (True, get v, x')" "handle x'"
    "out (x_priv x') = out (x_priv xdrs) @ bs" "room (x_priv xdrs) \<le> room (x_priv x') + length bs" .
  with assms(2) show "\<exists>xdrs'. xdr_field p get upd xdrs v = Done (True, v, xdrs') \<and> handle xdrs'
      \<and> out (x_priv xdrs') = out (x_priv xdrs) @ bs \<and> room (x_priv xdrs) \<le> room (x_priv xdrs') + length bs"
    by (simp add: xdr_field_def)
qed

lemma encodes_and: "encodes p v b1 \<Longrightarrow> encodes q v b2 \<Longrightarrow> encodes (xdr_and p q) v (b1 @ b2)"
  by (rule encodes_pair) (auto simp: xdr_and_def)

lemma encodes_nothing: "(\<And>xdrs. handle xdrs \<Longrightarrow> p xdrs v = Done (True, v, xdrs)) \<Longrightarrow> encodes p v []"
  by (rule encodesI) auto

lemma encodes_check: "c v \<Longrightarrow> encodes (xdr_check c) v []"
  by (rule encodes_nothing) (simp add: xdr_check_def)

lemma encodes_check_and: "c v \<Longrightarrow> encodes q v bs \<Longrightarrow> encodes (xdr_and (xdr_check c) q) v bs"
  using encodes_and [OF encodes_check, of c v q bs] by simp

lemma encodes_cong:
  assumes "encodes q v bs" and "\<And>xdrs. handle xdrs \<Longrightarrow> p xdrs v = q xdrs v"
  shows "encodes p v bs"
  using assms unfolding encodes_def by metis

lemmas enum_encodes = long_encodes [folded int_eqs(3)]

text \<open>
  A filter may leave some bytes open: it encodes \<open>v\<close> as one of the representations in \<open>B\<close>, all of
  them of \<open>n\<close> bytes.
\<close>

definition encodes_in :: "('s, 'b) xdrproc \<Rightarrow> 'b \<Rightarrow> nat \<Rightarrow> byte list set \<Rightarrow> bool" where
  "encodes_in proc v n B \<longleftrightarrow> (\<forall>xdrs. handle xdrs \<longrightarrow> 4 dvd length (out (x_priv xdrs)) \<longrightarrow> n \<le> room (x_priv xdrs) \<longrightarrow>
     (\<exists>xdrs' bs. proc xdrs v = Done (True, v, xdrs') \<and> handle xdrs' \<and> bs \<in> B \<and> length bs = n
        \<and> out (x_priv xdrs') = out (x_priv xdrs) @ bs \<and> room (x_priv xdrs) \<le> room (x_priv xdrs') + n))"

lemma encodes_in_one: "encodes_in proc v (length bs) {bs} \<Longrightarrow> 4 dvd length bs \<Longrightarrow> encodes proc v bs"
  unfolding encodes_in_def encodes_def by fastforce

lemma encodes_one_in: "encodes proc v bs \<Longrightarrow> encodes_in proc v (length bs) {bs}"
  unfolding encodes_in_def encodes_def by fastforce

lemma auth_encodes:
  assumes "auth_ok oa"
  shows "encodes (xdr_opaque_auth mem) oa (rep_auth (replicate (auth_pad oa) 0) oa)"
proof -
  note a = auth_okD [OF assms]
  have "encodes (xdr_bytes mem MAX_AUTH_BYTES) (oa_base oa, oa_length oa)
      (be32 (oa_length oa) @ bytes_at (oa_base oa) @ replicate (auth_pad oa) 0)"
  proof (cases "oa_length oa = 0")
    case True
    have "encodes (xdr_bytes mem MAX_AUTH_BYTES) (Null, 0) (be32 0 @ [])"
      by (rule encodes_pair [OF u_long_encodes encodes_check [of "\<lambda>_. True" "()"]])
        (simp_all add: xdr_bytes_def xdr_u_int_def xdr_opaque_def xdr_check_def)
    then show ?thesis
      using True a(1,5) by (simp add: auth_pad_def pad_def)
  next
    case False
    then show ?thesis
      using bytes_encodes [of "oa_length oa" "bytes_at (oa_base oa)" MAX_AUTH_BYTES mem] a by (simp add: rep_opaque_def auth_pad_def)
  qed
  then show ?thesis
    unfolding xdr_opaque_auth_def oa_fields_def rep_auth_def
    by (intro encodes_and encodes_field enum_encodes) simp_all
qed

lemma accepted_rest_encodes:
  assumes "ar_stat ar = SUCCESS \<Longrightarrow> is_results (ar_ru ar) \<and> (\<exists>proc. ar_proc ar = Some proc \<and> encodes proc (ar_where ar) res)"
    and "ar_stat ar = PROG_MISMATCH \<Longrightarrow> is_versions (ar_ru ar)"
  shows "encodes accepted_rest ar (rep_accepted_rest res ar)"
proof -
  consider "ar_stat ar = SUCCESS" | "ar_stat ar \<noteq> SUCCESS" "ar_stat ar = PROG_MISMATCH"
    | "ar_stat ar \<noteq> SUCCESS" "ar_stat ar \<noteq> PROG_MISMATCH"
    by blast
  then show ?thesis
  proof cases
    case 1
    then obtain proc where p: "ar_proc ar = Some proc" "encodes proc (ar_where ar) res" "is_results (ar_ru ar)"
      using assms(1) by blast
    have "encodes (results_field proc) ar res"
      unfolding results_field_def by (rule encodes_field) (simp_all add: p(2,3))
    then show ?thesis
      unfolding rep_accepted_rest_def using 1 p(1) by (simp, elim encodes_cong) (simp add: accepted_rest_def)
  next
    case 2
    have "encodes versions_fields ar (be32 (ar_vers_low ar) @ be32 (ar_vers_high ar))"
      unfolding versions_fields_def by (intro encodes_and encodes_field u_long_encodes) (simp_all add: assms(2) [OF 2(2)])
    then show ?thesis
      unfolding rep_accepted_rest_def using 2 by (simp, elim encodes_cong) (simp add: accepted_rest_def)
  next
    case 3
    then show ?thesis
      by (auto simp: rep_accepted_rest_def accepted_rest_def intro!: encodes_nothing)
  qed
qed

lemma rejected_encodes:
  assumes "rj_stat rr \<in> {RPC_MISMATCH, AUTH_ERROR}"
  shows "encodes xdr_rejected_reply rr (rep_rejected rr)"
proof -
  have "encodes (xdr_and (xdr_field xdr_u_long rj_vers_low (\<lambda>v rr. rr\<lparr>rj_ru0 := v\<rparr>))
      (xdr_field xdr_u_long rj_vers_high (\<lambda>v rr. rr\<lparr>rj_ru1 := v\<rparr>))) rr (be32 (rj_vers_low rr) @ be32 (rj_vers_high rr))"
    by (intro encodes_and encodes_field u_long_encodes) simp_all
  moreover have "encodes (xdr_field xdr_enum rj_why (\<lambda>v rr. rr\<lparr>rj_ru0 := v\<rparr>)) rr (be32 (rj_why rr))"
    by (intro encodes_field enum_encodes) simp
  ultimately have "encodes rejected_rest rr (if rj_stat rr = RPC_MISMATCH then be32 (rj_vers_low rr) @ be32 (rj_vers_high rr) else be32 (rj_why rr))"
    using assms by (auto simp: rejected_rest_def elim!: encodes_cong)
  then show ?thesis
    unfolding xdr_rejected_reply_def rep_rejected_def by (intro encodes_and encodes_field enum_encodes) simp_all
qed

lemma accepted_encodes:
  assumes "auth_ok (ar_verf ar)" and "encodes accepted_rest ar bs"
  shows "encodes (xdr_accepted_reply mem) ar (rep_auth (replicate (auth_pad (ar_verf ar)) 0) (ar_verf ar) @ be32 (ar_stat ar) @ bs)"
  unfolding xdr_accepted_reply_def
  by (intro encodes_and encodes_field auth_encodes enum_encodes assms) simp_all

lemma replymsg_slow_encodes:
  assumes "reply_ok m" and "rp_stat (rm_reply m) = MSG_ACCEPTED \<Longrightarrow> encodes accepted_rest (rp_acpt (rm_reply m)) (rep_accepted_rest res (rp_acpt (rm_reply m)))"
  shows "encodes (replymsg_slow mem) m (rep_reply res m)"
proof -
  let ?r = "rm_reply m"
  let ?b = "if rp_stat ?r = MSG_ACCEPTED
    then rep_auth (replicate (auth_pad (ar_verf (rp_acpt ?r))) 0) (ar_verf (rp_acpt ?r)) @ be32 (ar_stat (rp_acpt ?r)) @ rep_accepted_rest res (rp_acpt ?r)
    else rep_rejected (rp_rjct ?r)"
  note k = reply_okD [OF assms(1)]
  have "\<exists>p. find_choice (rp_stat ?r) (reply_dscrm mem) = Some p \<and> encodes p ?r ?b"
  proof (cases "rp_stat ?r = MSG_ACCEPTED")
    case True
    from accepted_encodes [OF k(5) [OF True] assms(2) [OF True]] have "encodes (in_acpt (xdr_accepted_reply mem)) ?r ?b"
      unfolding in_acpt_def using True k(4) by (intro encodes_field) simp_all
    then show ?thesis
      using True by (auto simp: reply_dscrm_def)
  next
    case False
    then have d: "rp_stat ?r = MSG_DENIED" "rj_stat (rp_rjct ?r) \<in> {RPC_MISMATCH, AUTH_ERROR}"
      using k(9) by simp_all
    have "encodes (in_rjct xdr_rejected_reply) ?r (rep_rejected (rp_rjct ?r))"
      unfolding in_rjct_def by (rule encodes_field) (use rejected_encodes [OF d(2)] k(8) [OF False] in simp_all)
    then show ?thesis
      using d(1) by (auto simp: reply_dscrm_def MSG_ACCEPTED_def MSG_DENIED_def)
  qed
  then obtain p where "find_choice (rp_stat ?r) (reply_dscrm mem) = Some p" "encodes p ?r ?b"
    by (elim exE conjE)
  from union_encodes [OF disjI1, OF this, of None] have "encodes (xdr_union (reply_dscrm mem) None) (rp_stat ?r, ?r) (be32 (rp_stat ?r) @ ?b)" .
  then have "encodes (in_reply (xdr_field (xdr_union (reply_dscrm mem) None) (\<lambda>r. (rp_stat r, r)) (\<lambda>(d, r) _. r\<lparr>rp_stat := d\<rparr>))) m
      (be32 (rp_stat ?r) @ ?b)"
    unfolding in_reply_def by (intro encodes_field) (simp_all add: k(2))
  then show ?thesis
    unfolding replymsg_slow_def rep_reply_def Let_def using k(1)
    by (intro encodes_and [OF encodes_field [OF u_long_encodes]] encodes_and [OF encodes_field [OF enum_encodes]] encodes_check_and) simp_all
qed

lemma callmsg_slow_encodes:
  assumes "call_ok m"
  shows "encodes (callmsg_slow mem) m
    (rep_call (replicate (auth_pad (cb_cred (rm_call m))) 0) (replicate (auth_pad (cb_verf (rm_call m))) 0) m)"
proof -
  have ok: "rm_direction m = CALL" "cb_rpcvers (rm_call m) = RPC_MSG_VERSION" "auth_ok (cb_cred (rm_call m))" "auth_ok (cb_verf (rm_call m))"
    "is_call (rm_ru m)"
    using assms by (simp_all add: call_ok_def Let_def)
  show ?thesis
    unfolding callmsg_slow_def rep_call_def Let_def in_call_def
    by (intro encodes_and [OF encodes_field [OF u_long_encodes]] encodes_and [OF encodes_field [OF enum_encodes]] encodes_check_and
        encodes_field [where get = rm_call] encodes_and [OF encodes_field [OF auth_encodes]] encodes_field [OF auth_encodes])
      (simp_all add: ok)
qed

text \<open>The static part of the header is the beginning of the call.\<close>

lemma callhdr_encodes:
  assumes "rm_direction m = CALL" and "cb_rpcvers (rm_call m) = RPC_MSG_VERSION" and "is_call (rm_ru m)"
  shows "encodes xdr_callhdr m (take 20 (rep_call f g m))"
proof -
  let ?c = "rm_call m"
  let ?hdr = "xdr_and (xdr_field xdr_u_long rm_xid (\<lambda>v m. m\<lparr>rm_xid := v\<rparr>))
    (xdr_and (xdr_field xdr_enum rm_direction (\<lambda>v m. m\<lparr>rm_direction := v\<rparr>))
    (in_call (xdr_and (xdr_field xdr_u_long cb_rpcvers (\<lambda>v c. c\<lparr>cb_rpcvers := v\<rparr>))
      (xdr_and (xdr_field xdr_u_long cb_prog (\<lambda>v c. c\<lparr>cb_prog := v\<rparr>))
        (xdr_field xdr_u_long cb_vers (\<lambda>v c. c\<lparr>cb_vers := v\<rparr>))))))"
  have "encodes ?hdr m (be32 (rm_xid m) @ be32 (rm_direction m) @ be32 (cb_rpcvers ?c) @ be32 (cb_prog ?c) @ be32 (cb_vers ?c))"
    unfolding in_call_def
    by (intro encodes_and [OF encodes_field [OF u_long_encodes]] encodes_and [OF encodes_field [OF enum_encodes]]
        encodes_field [where get = rm_call] encodes_field [OF u_long_encodes]) (simp_all add: assms(3))
  then have "encodes xdr_callhdr m (be32 (rm_xid m) @ be32 (rm_direction m) @ be32 (cb_rpcvers ?c) @ be32 (cb_prog ?c) @ be32 (cb_vers ?c))"
  proof (rule encodes_cong)
    have "?c\<lparr>cb_rpcvers := RPC_MSG_VERSION\<rparr> = ?c" "m\<lparr>rm_direction := CALL\<rparr> = m"
      using assms(1,2) by simp_all
    then have "m\<lparr>rm_direction := CALL, rm_ru := RM_cmb (?c\<lparr>cb_rpcvers := RPC_MSG_VERSION\<rparr>)\<rparr> = m"
      using assms(3) by simp
    then show "handle xdrs \<Longrightarrow> xdr_callhdr xdrs m = ?hdr xdrs m" for xdrs
      by (simp add: xdr_callhdr_def Let_def)
  qed
  then show ?thesis
    by (simp add: rep_call_def Let_def)
qed

end

context xdr_inline_sink
begin

text \<open>Bytes that are skipped keep what they held.\<close>

lemma cursor_skip:
  assumes "cursor xdrs buf pre w k" and "n \<le> k"
  obtains old where "length old = n" "cursor xdrs (buf + word_of_nat n) pre (w @ old) (k - n)"
proof -
  obtain a old where c: "handle xdrs" "win (x_priv xdrs) a (length pre) (length w + k)" "buf = a + word_of_nat (length w)"
    "length old = k" "out (x_priv xdrs) = pre @ w @ old"
    using assms(1) by (auto simp: cursor_def)
  have "length (take n old) = n"
    using c(4) assms(2) by simp
  moreover have "cursor xdrs (buf + word_of_nat n) pre (w @ take n old) (k - n)"
    using c assms(2) by (auto simp: cursor_def min_absorb2 intro!: exI [of _ a] exI [of _ "drop n old"])
  ultimately show thesis
    by (rule that)
qed

text \<open>\<open>f\<close> writes at the pointer it is given \<open>n\<close> bytes, one of the strings in \<open>B\<close>, and advances the pointer.\<close>

definition puts :: "(32 word \<Rightarrow> 'a xdr \<Rightarrow> (32 word \<times> 'a xdr) outcome) \<Rightarrow> nat \<Rightarrow> byte list set \<Rightarrow> bool" where
  "puts f n B \<longleftrightarrow> (\<forall>xdrs buf pre w k. cursor xdrs buf pre w k \<longrightarrow> n \<le> k \<longrightarrow>
     (\<exists>xdrs' bs. f buf xdrs = Done (buf + word_of_nat n, xdrs') \<and> bs \<in> B \<and> length bs = n
        \<and> cursor xdrs' (buf + word_of_nat n) pre (w @ bs) (k - n) \<and> room (x_priv xdrs') = room (x_priv xdrs)))"

lemma putsD:
  assumes "puts f n B" and "cursor xdrs buf pre w k" and "n \<le> k"
  obtains xdrs' bs where "f buf xdrs = Done (buf + word_of_nat n, xdrs')" "bs \<in> B" "length bs = n"
    "cursor xdrs' (buf + word_of_nat n) pre (w @ bs) (k - n)" "room (x_priv xdrs') = room (x_priv xdrs)"
  using assms unfolding puts_def by blast

lemma puts_seq:
  assumes "puts f n B" and "puts g n' B'"
  shows "puts (\<lambda>buf xdrs. bind_outcome (f buf xdrs) (\<lambda>(buf, xdrs). g buf xdrs)) (n + n') {b @ b' |b b'. b \<in> B \<and> b' \<in> B'}"
  unfolding puts_def
proof (intro allI impI)
  fix xdrs buf pre w k assume c: "cursor xdrs buf pre w k" and n: "n + n' \<le> k"
  have n1: "n \<le> k"
    using n by simp
  from putsD [OF assms(1) c n1] obtain x1 b where 1: "f buf xdrs = Done (buf + word_of_nat n, x1)" "b \<in> B" "length b = n"
    "cursor x1 (buf + word_of_nat n) pre (w @ b) (k - n)" "room (x_priv x1) = room (x_priv xdrs)" .
  have n2: "n' \<le> k - n"
    using n by simp
  from putsD [OF assms(2) 1(4) n2] obtain x2 b' where 2: "g (buf + word_of_nat n) x1 = Done (buf + word_of_nat n + word_of_nat n', x2)"
    "b' \<in> B'" "length b' = n'" "cursor x2 (buf + word_of_nat n + word_of_nat n') pre ((w @ b) @ b') (k - n - n')"
    "room (x_priv x2) = room (x_priv x1)" .
  show "\<exists>xdrs' bs. bind_outcome (f buf xdrs) (\<lambda>(buf, xdrs). g buf xdrs) = Done (buf + word_of_nat (n + n'), xdrs')
      \<and> bs \<in> {b @ b' |b b'. b \<in> B \<and> b' \<in> B'} \<and> length bs = n + n'
      \<and> cursor xdrs' (buf + word_of_nat (n + n')) pre (w @ bs) (k - (n + n')) \<and> room (x_priv xdrs') = room (x_priv xdrs)"
    using 1 2 by (intro exI [of _ x2] exI [of _ "b @ b'"]) (auto simp: add.assoc)
qed

lemma puts_mono: "puts f n B \<Longrightarrow> B \<subseteq> B' \<Longrightarrow> puts f n B'"
  unfolding puts_def by (meson subsetD)

lemma puts_bytes:
  assumes "length bs = n"
    and "\<And>buf xdrs. f buf xdrs = bind_outcome (x_store (x_ops xdrs) buf bs (x_priv xdrs)) (\<lambda>s. Done (buf + word_of_nat n, xdrs\<lparr>x_priv := s\<rparr>))"
  shows "puts f n {bs}"
  unfolding puts_def
proof (intro allI impI)
  fix xdrs buf pre w k assume c: "cursor xdrs buf pre w k" and n: "n \<le> k"
  have "length bs \<le> k"
    using n assms(1) by simp
  from cursor_put [OF c this] obtain s' where "x_store (x_ops xdrs) buf bs (x_priv xdrs) = Done s'"
    "cursor (xdrs\<lparr>x_priv := s'\<rparr>) (buf + word_of_nat (length bs)) pre (w @ bs) (k - length bs)" "room s' = room (x_priv xdrs)" .
  then show "\<exists>xdrs' bs'. f buf xdrs = Done (buf + word_of_nat n, xdrs') \<and> bs' \<in> {bs} \<and> length bs' = n
      \<and> cursor xdrs' (buf + word_of_nat n) pre (w @ bs') (k - n) \<and> room (x_priv xdrs') = room (x_priv xdrs)"
    using assms by simp
qed

lemma puts_LONG: "puts (IXDR_PUT_LONG v) 4 {be32 v}"
  by (rule puts_bytes) (simp_all add: IXDR_PUT_LONG_def)

lemma puts_LONGS: "puts (IXDR_PUT_LONGS vs) (4 * length vs) {concat (map be32 vs)}"
proof (induction vs)
  case Nil
  then show ?case
    by (auto simp: puts_def)
next
  case (Cons v vs)
  have "puts (\<lambda>buf xdrs. bind_outcome (IXDR_PUT_LONG v buf xdrs) (\<lambda>(buf, xdrs). IXDR_PUT_LONGS vs buf xdrs)) (4 + 4 * length vs)
      {b @ b' |b b'. b \<in> {be32 v} \<and> b' \<in> {concat (map be32 vs)}}"
    by (rule puts_seq [OF puts_LONG Cons.IH])
  moreover have "IXDR_PUT_LONGS (v # vs) = (\<lambda>buf xdrs. bind_outcome (IXDR_PUT_LONG v buf xdrs) (\<lambda>(buf, xdrs). IXDR_PUT_LONGS vs buf xdrs))"
    by (simp add: fun_eq_iff)
  ultimately show ?case
    by simp
qed

lemma puts_none: "puts (\<lambda>buf xdrs. Done (buf, xdrs)) 0 {[]}"
  by (auto simp: puts_def)

lemma puts_bcopy:
  assumes "length (bytes_at base) = unat n"
  shows "puts (\<lambda>buf xdrs. bind_outcome (ixdr_bcopy base buf n xdrs) (\<lambda>xdrs. Done (buf + n, xdrs))) (unat n) {bytes_at base}"
  by (rule puts_bytes [OF assms]) (simp add: ixdr_bcopy_def assms bind_outcome_assoc)

lemma puts_bzero: "puts (\<lambda>buf xdrs. bind_outcome (ixdr_bzero buf n xdrs) (\<lambda>xdrs. Done (buf + n, xdrs))) (unat n) {replicate (unat n) 0}"
  by (rule puts_bytes) (simp_all add: ixdr_bzero_def bind_outcome_assoc)

text \<open>The verifier of a reply with filler, and the credential or verifier of a call without.\<close>

lemma puts_verf:
  assumes "auth_ok oa"
  shows "puts (replymsg_put_verf oa (RNDUP_u (oa_length oa))) (unat (RNDUP_u (oa_length oa)))
    {bytes_at (oa_base oa) @ replicate (auth_pad oa) 0}"
proof -
  note a = auth_okD [OF assms]
  let ?n = "oa_length oa" let ?r = "RNDUP_u ?n - ?n"
  have u: "unat (RNDUP_u ?n) = unat ?n + auth_pad oa"
    using a(2) by (simp add: unat_RNDUP_u auth_pad_def)
  then have r: "unat ?r = auth_pad oa"
    by (simp add: unat_sub word_le_nat_alt)
  have "puts (\<lambda>buf xdrs. if ?r > 0 then bind_outcome (ixdr_bzero buf ?r xdrs) (\<lambda>xdrs. Done (buf + ?r, xdrs)) else Done (buf, xdrs))
      (unat ?r) {replicate (unat ?r) 0}"
    using puts_bzero [of ?r] puts_none by (cases "?r > 0") (simp_all add: word_neq_0_conv [symmetric] del: word_neq_0_conv)
  note seq = puts_seq [OF puts_bcopy [OF a(1)] this]
  show ?thesis
  proof (cases "?n = 0")
    case True
    then show ?thesis
      using a(1) puts_none u by (simp add: replymsg_put_verf_def [abs_def] RNDUP_u_def auth_pad_def pad_def)
  next
    case False
    have eq: "replymsg_put_verf oa (RNDUP_u ?n) = (\<lambda>buf xdrs. bind_outcome (bind_outcome (ixdr_bcopy (oa_base oa) buf ?n xdrs) (\<lambda>xdrs. Done (buf + ?n, xdrs)))
        (\<lambda>(buf, xdrs). if ?r > 0 then bind_outcome (ixdr_bzero buf ?r xdrs) (\<lambda>xdrs. Done (buf + ?r, xdrs)) else Done (buf, xdrs)))"
      using False by (simp add: replymsg_put_verf_def fun_eq_iff Let_def bind_outcome_assoc)
    show ?thesis
      unfolding eq using seq u r by simp
  qed
qed

lemma puts_call_auth:
  assumes "auth_ok oa"
  shows "puts (callmsg_put_auth oa) (8 + unat (RNDUP_u (oa_length oa))) {rep_auth f oa |f. length f = auth_pad oa}"
  unfolding puts_def
proof (intro allI impI)
  fix xdrs buf pre w k assume c: "cursor xdrs buf pre w k" and n: "8 + unat (RNDUP_u (oa_length oa)) \<le> k"
  note a = auth_okD [OF assms]
  let ?n = "oa_length oa" let ?h = "concat (map be32 [oa_flavor oa, ?n])" let ?b = "bytes_at (oa_base oa)"
  have u: "unat (RNDUP_u ?n) = unat ?n + auth_pad oa"
    using a(2) by (simp add: unat_RNDUP_u auth_pad_def)
  have n1: "4 * length [oa_flavor oa, ?n] \<le> k"
    using n by simp
  from putsD [OF puts_LONGS c n1] obtain x1 where 1: "IXDR_PUT_LONGS [oa_flavor oa, ?n] buf xdrs = Done (buf + 8, x1)"
    "cursor x1 (buf + 8) pre (w @ ?h) (k - 8)" "room (x_priv x1) = room (x_priv xdrs)"
    by (auto simp del: IXDR_PUT_LONGS.simps)
  have n2: "unat ?n \<le> k - 8"
    using n u by simp
  from putsD [OF puts_bcopy [OF a(1)] 1(2) n2] obtain x2 where
    2: "bind_outcome (ixdr_bcopy (oa_base oa) (buf + 8) ?n x1) (\<lambda>xdrs. Done (buf + 8 + ?n, xdrs)) = Done (buf + 8 + ?n, x2)"
    "cursor x2 (buf + 8 + ?n) pre ((w @ ?h) @ ?b) (k - 8 - unat ?n)" "room (x_priv x2) = room (x_priv x1)"
    by auto
  have n3: "auth_pad oa \<le> k - 8 - unat ?n"
    using n u by simp
  from cursor_skip [OF 2(2) n3] obtain f where f: "length f = auth_pad oa"
    "cursor x2 (buf + 8 + ?n + word_of_nat (auth_pad oa)) pre (((w @ ?h) @ ?b) @ f) (k - 8 - unat ?n - auth_pad oa)" .
  have r: "RNDUP_u ?n = ?n + word_of_nat (auth_pad oa)" "RNDUP_u ?n div 4 * 4 = RNDUP_u ?n"
    using a(2) RNDUP_word [of ?n] RNDUP_div [of ?n] by (simp_all add: auth_pad_def)
  show "\<exists>xdrs' bs. callmsg_put_auth oa buf xdrs = Done (buf + word_of_nat (8 + unat (RNDUP_u ?n)), xdrs')
      \<and> bs \<in> {rep_auth f oa |f. length f = auth_pad oa} \<and> length bs = 8 + unat (RNDUP_u ?n)
      \<and> cursor xdrs' (buf + word_of_nat (8 + unat (RNDUP_u ?n))) pre (w @ bs) (k - (8 + unat (RNDUP_u ?n)))
      \<and> room (x_priv xdrs') = room (x_priv xdrs)"
  proof (cases "?n = 0")
    case True
    then have "auth_pad oa = 0" "RNDUP_u ?n = 0"
      by (simp_all add: auth_pad_def pad_def RNDUP_u_def)
    then show ?thesis
      using 1 True a(1) by (intro exI [of _ x1] exI [of _ "rep_auth [] oa"])
        (simp add: callmsg_put_auth_def rep_auth_def del: IXDR_PUT_LONGS.simps)
  next
    case False
    have "length (rep_auth f oa) = 8 + unat (RNDUP_u ?n)"
      by (rule rep_auth_length [OF assms f(1)])
    moreover have "callmsg_put_auth oa buf xdrs = Done (buf + 8 + RNDUP_u ?n, x2)"
      unfolding callmsg_put_auth_def 1(1) using 2(1) False r(2) by auto
    ultimately show ?thesis
      using 1(3) 2(3) f u r(1) by (intro exI [of _ x2] exI [of _ "rep_auth f oa"]) (auto simp: rep_auth_def add.assoc)
  qed
qed

text \<open>
  A filter that writes \<open>n\<close> bytes in line, followed by what \<open>rest\<close> writes, if the stream gives access,
  and does not otherwise.
\<close>

lemma encodes_inline:
  assumes slow: "encodes slow v (b @ bs)" "b \<in> B" "length b = n" and put: "puts f n B" and rest: "encodes rest v bs"
    and n: "unat len = n" "n < 2147483648" "4 dvd n"
    and eq: "\<And>xdrs. handle xdrs \<Longrightarrow> proc xdrs v = (case XDR_INLINE len xdrs of
        (None, x) \<Rightarrow> slow x v | (Some buf, x) \<Rightarrow> bind_outcome (f buf x) (\<lambda>(_, x). rest x v))"
  shows "encodes_in proc v (n + length bs) {b @ bs |b. b \<in> B}"
  unfolding encodes_in_def
proof (intro allI impI)
  fix xdrs assume h: "handle xdrs" and a: "4 dvd length (out (x_priv xdrs))" and r: "n + length bs \<le> room (x_priv xdrs)"
  have l: "unat len < 2 ^ 31" "length (b @ bs) \<le> room (x_priv xdrs)"
    using n r slow(3) by simp_all
  show "\<exists>xdrs' b'. proc xdrs v = Done (True, v, xdrs') \<and> handle xdrs' \<and> b' \<in> {b @ bs |b. b \<in> B} \<and> length b' = n + length bs
      \<and> out (x_priv xdrs') = out (x_priv xdrs) @ b' \<and> room (x_priv xdrs) \<le> room (x_priv xdrs') + (n + length bs)"
  proof (rule XDR_INLINE_put [OF h l(1)])
    assume none: "XDR_INLINE len xdrs = (None, xdrs)"
    from encodesD [OF slow(1) h a l(2)] obtain x where "slow xdrs v = Done (True, v, x)" "handle x"
      "out (x_priv x) = out (x_priv xdrs) @ b @ bs" "room (x_priv xdrs) \<le> room (x_priv x) + length (b @ bs)" .
    then show ?thesis
      using eq [OF h] none slow(2,3) by (intro exI [of _ x] exI [of _ "b @ bs"]) auto
  next
    fix buf x assume some: "XDR_INLINE len xdrs = (Some buf, x)" and c: "cursor x buf (out (x_priv xdrs)) [] (unat len)"
      and rx: "room (x_priv xdrs) \<le> room (x_priv x) + unat len"
    have le: "n \<le> unat len"
      using n(1) by simp
    from putsD [OF put c le] obtain x1 b' where 1: "f buf x = Done (buf + word_of_nat n, x1)" "b' \<in> B" "length b' = n"
      "cursor x1 (buf + word_of_nat n) (out (x_priv xdrs)) b' 0" "room (x_priv x1) = room (x_priv x)"
      using n(1) by auto
    have o: "out (x_priv x1) = out (x_priv xdrs) @ b'" "handle x1"
      using cursorD [OF 1(4)] by simp_all
    have "4 dvd length (out (x_priv x1))" "length bs \<le> room (x_priv x1)"
      using o(1) a 1(3,5) n rx r by simp_all
    from encodesD [OF rest o(2) this] obtain x2 where "rest x1 v = Done (True, v, x2)" "handle x2"
      "out (x_priv x2) = out (x_priv x1) @ bs" "room (x_priv x1) \<le> room (x_priv x2) + length bs" .
    then show ?thesis
      using eq [OF h] some 1 o rx n(1) by (intro exI [of _ x2] exI [of _ "b' @ bs"]) auto
  qed
qed

text \<open>Replies.\<close>

lemma puts_reply_head:
  assumes "auth_ok (ar_verf ar)"
  shows "puts (\<lambda>buf xdrs. bind_outcome (IXDR_PUT_LONGS [x, d, st, oa_flavor (ar_verf ar), oa_length (ar_verf ar)] buf xdrs)
      (\<lambda>(buf, xdrs). bind_outcome (replymsg_put_verf (ar_verf ar) (RNDUP_u (oa_length (ar_verf ar))) buf xdrs)
      (\<lambda>(buf, xdrs). IXDR_PUT_LONG (ar_stat ar) buf xdrs)))
    (24 + unat (RNDUP_u (oa_length (ar_verf ar))))
    {be32 x @ be32 d @ be32 st @ rep_auth (replicate (auth_pad (ar_verf ar)) 0) (ar_verf ar) @ be32 (ar_stat ar)}"
  using puts_seq [OF puts_LONGS [of "[x, d, st, oa_flavor (ar_verf ar), oa_length (ar_verf ar)]"]
      puts_seq [OF puts_verf [OF assms] puts_LONG [of "ar_stat ar"]]]
  by (simp add: rep_auth_def add.commute del: IXDR_PUT_LONGS.simps)

lemma replymsg_encodes:
  assumes ok: "reply_ok m" and rest: "rp_stat (rm_reply m) = MSG_ACCEPTED \<Longrightarrow> encodes accepted_rest (rp_acpt (rm_reply m)) (rep_accepted_rest res (rp_acpt (rm_reply m)))"
  shows "encodes (xdr_replymsg mem) m (rep_reply res m)"
proof (cases "rp_stat (rm_reply m) = MSG_ACCEPTED")
  case False
  show ?thesis
    by (rule encodes_cong [OF replymsg_slow_encodes [OF assms]]) (use False in \<open>simp_all add: xdr_replymsg_def\<close>)
next
  case True
  let ?ar = "rp_acpt (rm_reply m)" let ?oa = "ar_verf ?ar"
  note k = reply_okD [OF ok]
  have d: "rm_direction m = REPLY" "auth_ok ?oa"
    using k(1) k(5) [OF True] by simp_all
  let ?b = "be32 (rm_xid m) @ be32 (rm_direction m) @ be32 (rp_stat (rm_reply m)) @ rep_auth (replicate (auth_pad ?oa) 0) ?oa @ be32 (ar_stat ?ar)"
  let ?rest = "rep_accepted_rest res ?ar" and ?n = "24 + unat (RNDUP_u (oa_length ?oa))"
  have rep: "rep_reply res m = ?b @ ?rest"
    using True by (simp add: rep_reply_def Let_def)
  have n: "unat (24 + RNDUP_u (oa_length ?oa)) = ?n" "?n < 2147483648" "4 dvd ?n"
    using auth_size [OF d(2)] by (simp_all add: unat_word_ariths)
  have len: "length ?b = ?n"
    using rep_auth_length [OF d(2), of "replicate (auth_pad ?oa) 0"] by simp
  have slow: "encodes (replymsg_slow mem) m (?b @ ?rest)"
    using replymsg_slow_encodes [OF assms, of mem] unfolding rep .
  have enc: "encodes (in_reply (in_acpt accepted_rest)) m ?rest"
    unfolding in_reply_def in_acpt_def by (intro encodes_field rest [OF True]) (simp_all add: k(2) k(4) [OF True])
  have "encodes_in (xdr_replymsg mem) m (?n + length ?rest) {b @ ?rest |b. b \<in> {?b}}"
    by (rule encodes_inline [OF slow _ len puts_reply_head [OF d(2)] enc n])
      (use True d(1) in
        \<open>simp_all add: xdr_replymsg_def replymsg_put_def Let_def bind_outcome_assoc case_prod_unfold split: option.split prod.split del: IXDR_PUT_LONGS.simps\<close>)
  then have "encodes_in (xdr_replymsg mem) m (length (rep_reply res m)) {rep_reply res m}"
    using len by (simp add: rep add.assoc)
  then show ?thesis
    by (rule encodes_in_one) (rule encodes_length [OF replymsg_slow_encodes [OF assms]])
qed

text \<open>
  Header and body of a reply: with a verifier of whole units they write what \<open>xdr_replymsg\<close> writes.
\<close>

lemma puts_reply_hdr:
  assumes "auth_ok (ar_verf ar)" and "auth_pad (ar_verf ar) = 0"
  shows "puts (\<lambda>buf xdrs. bind_outcome (IXDR_PUT_LONGS [x, d, st, oa_flavor (ar_verf ar), oa_length (ar_verf ar)] buf xdrs)
      (\<lambda>(buf, xdrs). bind_outcome
         (if oa_length (ar_verf ar) = 0 then Done (buf, xdrs)
          else bind_outcome (ixdr_bcopy (oa_base (ar_verf ar)) buf (oa_length (ar_verf ar)) xdrs)
            (\<lambda>xdrs. Done (buf + (oa_length (ar_verf ar) + 3) div 4 * 4, xdrs)))
      (\<lambda>(buf, xdrs). IXDR_PUT_LONG (ar_stat ar) buf xdrs)))
    (24 + unat (oa_length (ar_verf ar))) {be32 x @ be32 d @ be32 st @ rep_auth [] (ar_verf ar) @ be32 (ar_stat ar)}"
proof -
  let ?oa = "ar_verf ar"
  note a = auth_okD [OF assms(1)]
  have "unat (RNDUP_u (oa_length ?oa)) = unat (oa_length ?oa)"
    using unat_RNDUP_u [of "oa_length ?oa"] a(2) assms(2) by (simp add: auth_pad_def)
  then have "RNDUP_u (oa_length ?oa) = oa_length ?oa"
    by (simp add: word_unat_eq_iff)
  then have r: "(oa_length ?oa + 3) div 4 * 4 = oa_length ?oa"
    by (simp add: RNDUP_u_def)
  have "puts (\<lambda>buf xdrs. if oa_length ?oa = 0 then Done (buf, xdrs)
      else bind_outcome (ixdr_bcopy (oa_base ?oa) buf (oa_length ?oa) xdrs) (\<lambda>xdrs. Done (buf + (oa_length ?oa + 3) div 4 * 4, xdrs)))
      (unat (oa_length ?oa)) {bytes_at (oa_base ?oa)}"
    using puts_bcopy [OF a(1)] puts_none a(1) by (cases "oa_length ?oa = 0") (simp_all add: r)
  from puts_seq [OF puts_LONGS [of "[x, d, st, oa_flavor ?oa, oa_length ?oa]"] puts_seq [OF this puts_LONG [of "ar_stat ar"]]]
  show ?thesis
    by (simp add: rep_auth_def add.commute del: IXDR_PUT_LONGS.simps)
qed

lemma replymsg_hdr_encodes:
  assumes "rm_direction m = REPLY" and "rp_stat (rm_reply m) = MSG_ACCEPTED" and "auth_ok (ar_verf (rp_acpt (rm_reply m)))"
    and "auth_pad (ar_verf (rp_acpt (rm_reply m))) = 0" and "is_reply (rm_ru m)" and "is_acpt (rp_ru (rm_reply m))"
  shows "encodes (xdr_replymsg_hdr mem) m (be32 (rm_xid m) @ be32 REPLY @ be32 MSG_ACCEPTED
    @ rep_auth [] (ar_verf (rp_acpt (rm_reply m))) @ be32 (ar_stat (rp_acpt (rm_reply m))))"
proof -
  let ?ar = "rp_acpt (rm_reply m)" let ?oa = "ar_verf ?ar"
  let ?b = "be32 (rm_xid m) @ be32 (rm_direction m) @ be32 (rp_stat (rm_reply m)) @ rep_auth [] ?oa @ be32 (ar_stat ?ar)"
  let ?n = "24 + unat (oa_length ?oa)"
  let ?slow = "xdr_and (xdr_field xdr_u_long rm_xid (\<lambda>v m. m\<lparr>rm_xid := v\<rparr>))
    (xdr_and (xdr_field xdr_enum rm_direction (\<lambda>v m. m\<lparr>rm_direction := v\<rparr>))
    (in_reply (xdr_and (xdr_field xdr_enum rp_stat (\<lambda>v r. r\<lparr>rp_stat := v\<rparr>))
      (in_acpt (xdr_and (xdr_field (xdr_opaque_auth mem) ar_verf (\<lambda>v ar. ar\<lparr>ar_verf := v\<rparr>))
        (xdr_field xdr_enum ar_stat (\<lambda>v ar. ar\<lparr>ar_stat := v\<rparr>)))))))"
  have sz: "unat (oa_length ?oa) = unat (RNDUP_u (oa_length ?oa))"
    using unat_RNDUP_u [of "oa_length ?oa"] auth_okD(2) [OF assms(3)] assms(4) by (simp add: auth_pad_def)
  have n: "unat (24 + oa_length ?oa) = ?n" "?n < 2147483648" "4 dvd ?n"
    using auth_size [OF assms(3), folded sz] by (simp_all add: unat_word_ariths)
  have len: "length ?b = ?n"
    using auth_okD(1) [OF assms(3)] by (simp add: rep_auth_def)
  have "encodes (xdr_opaque_auth mem) ?oa (rep_auth [] ?oa)"
    using auth_encodes [OF assms(3)] assms(4) by simp
  then have slow: "encodes ?slow m (?b @ [])"
    unfolding append_Nil2 in_reply_def in_acpt_def
    by (intro encodes_and [OF encodes_field [OF u_long_encodes]] encodes_and [OF encodes_field [OF enum_encodes]]
        encodes_field [where get = rm_reply] encodes_field [where get = rp_acpt]
        encodes_and [OF encodes_field [where get = ar_verf]] encodes_field [OF enum_encodes]) (simp_all add: assms(5,6))
  have "encodes_in (xdr_replymsg_hdr mem) m (?n + length ([] :: byte list)) {b @ [] |b. b \<in> {?b}}"
    by (rule encodes_inline [OF slow _ len puts_reply_hdr [OF assms(3,4)] encodes_check [of "\<lambda>_. True"] n])
      (use assms(1,2) in \<open>simp_all add: xdr_replymsg_hdr_def replymsg_hdr_put_def Let_def bind_outcome_assoc case_prod_unfold xdr_check_def
         split: option.split prod.split del: IXDR_PUT_LONGS.simps\<close>)
  then have "encodes_in (xdr_replymsg_hdr mem) m (length ?b) {?b}"
    using len by simp
  from encodes_in_one [OF this] show ?thesis
    using n(3) len assms(1,2) by simp
qed

lemma replymsg_body_encodes:
  assumes "ar_proc (rp_acpt (rm_reply m)) = Some proc" and "encodes proc (ar_where (rp_acpt (rm_reply m))) res"
    and "is_reply (rm_ru m)" and "is_acpt (rp_ru (rm_reply m))" and "is_results (ar_ru (rp_acpt (rm_reply m)))"
  shows "encodes xdr_replymsg_body m res"
proof (rule encodes_cong)
  show "encodes (in_reply (in_acpt (results_field proc))) m res"
    unfolding in_reply_def in_acpt_def results_field_def
    by (intro encodes_field [where get = rm_reply] encodes_field [where get = rp_acpt] encodes_field [where get = ar_where] assms(2))
      (simp_all add: assms(3-5))
qed (use assms(1) in \<open>simp add: xdr_replymsg_body_def\<close>)

text \<open>Calls.\<close>

lemma puts_call:
  assumes "call_ok m"
  shows "puts (\<lambda>buf xdrs. bind_outcome (IXDR_PUT_LONGS [rm_xid m, rm_direction m] buf xdrs)
      (\<lambda>(buf, xdrs). bind_outcome (IXDR_PUT_LONG (cb_rpcvers (rm_call m)) buf xdrs)
      (\<lambda>(buf, xdrs). bind_outcome (IXDR_PUT_LONGS [cb_prog (rm_call m), cb_vers (rm_call m), cb_proc (rm_call m)] buf xdrs)
      (\<lambda>(buf, xdrs). bind_outcome (callmsg_put_auth (cb_cred (rm_call m)) buf xdrs)
      (\<lambda>(buf, xdrs). callmsg_put_auth (cb_verf (rm_call m)) buf xdrs))))) (call_size m) (call_reps m)"
proof -
  let ?c = "rm_call m"
  have ok: "auth_ok (cb_cred ?c)" "auth_ok (cb_verf ?c)"
    using assms by (simp_all add: call_ok_def Let_def)
  note p = puts_seq [OF puts_LONGS [of "[rm_xid m, rm_direction m]"] puts_seq [OF puts_LONG [of "cb_rpcvers ?c"]
      puts_seq [OF puts_LONGS [of "[cb_prog ?c, cb_vers ?c, cb_proc ?c]"] puts_seq [OF puts_call_auth [OF ok(1)] puts_call_auth [OF ok(2)]]]]]
  have n: "4 * length [rm_xid m, rm_direction m] + (4 + (4 * length [cb_prog ?c, cb_vers ?c, cb_proc ?c]
      + (8 + unat (RNDUP_u (oa_length (cb_cred ?c))) + (8 + unat (RNDUP_u (oa_length (cb_verf ?c))))))) = call_size m"
    by (simp add: call_size_def)
  show ?thesis
    by (rule puts_mono [OF p [unfolded n]]) (auto simp: call_reps_def rep_call_def Let_def)
qed

lemma callmsg_encodes:
  assumes "call_ok m"
  shows "encodes_in (xdr_callmsg mem) m (call_size m) (call_reps m)"
proof -
  let ?c = "rm_call m"
  let ?b = "rep_call (replicate (auth_pad (cb_cred ?c)) 0) (replicate (auth_pad (cb_verf ?c)) 0) m"
  let ?len = "32 + RNDUP_u (oa_length (cb_cred ?c)) + 8 + RNDUP_u (oa_length (cb_verf ?c))"
  have ok: "rm_direction m = CALL" "cb_rpcvers ?c = RPC_MSG_VERSION" "auth_ok (cb_cred ?c)" "auth_ok (cb_verf ?c)"
    using assms by (simp_all add: call_ok_def Let_def)
  have n: "unat ?len = call_size m" "call_size m < 2147483648" "4 dvd call_size m"
    using auth_size [OF ok(3)] auth_size [OF ok(4)] by (simp_all add: call_size_def unat_word_ariths)
  have b: "?b \<in> call_reps m"
    by (rule call_repsI) (rule length_replicate)+
  have slow: "encodes (callmsg_slow mem) m (?b @ [])"
    using callmsg_slow_encodes [OF assms] by simp
  have "encodes_in (xdr_callmsg mem) m (call_size m + length ([] :: byte list)) {b @ [] |b. b \<in> call_reps m}"
    by (rule encodes_inline [OF slow b call_reps_size [OF assms b] puts_call [OF assms] encodes_check [of "\<lambda>_. True"] n])
      (use ok auth_okD(4) [OF ok(3)] auth_okD(4) [OF ok(4)] in
        \<open>simp_all add: xdr_callmsg_def callmsg_put_def Let_def bind_outcome_assoc case_prod_unfold xdr_check_def split: option.split prod.split del: IXDR_PUT_LONGS.simps\<close>)
  then show ?thesis
    by simp
qed

end

section \<open>Reading\<close>

context xdr_source
begin

lemma decodes_field:
  assumes "decodes p (get v0) bs w" and "v = upd w v0"
  shows "decodes (xdr_field p get upd) v0 bs v"
  unfolding decodes_def
proof (intro allI impI)
  fix xdrs rest assume h: "handle xdrs" "phase (x_priv xdrs) = 0" "inp (x_priv xdrs) = bs @ rest"
  show "\<exists>xdrs'. xdr_field p get upd xdrs v0 = Done (True, v, xdrs') \<and> handle xdrs' \<and> phase (x_priv xdrs') = 0 \<and> inp (x_priv xdrs') = rest"
    by (rule decodesD [OF assms(1) h]) (simp add: xdr_field_def assms(2))
qed

lemma decodes_and: "decodes p v0 b1 v1 \<Longrightarrow> decodes q v1 b2 v2 \<Longrightarrow> decodes (xdr_and p q) v0 (b1 @ b2) v2"
  by (rule decodes_pair) (auto simp: xdr_and_def)

lemma decodes_nothing: "(\<And>xdrs. handle xdrs \<Longrightarrow> p xdrs v0 = Done (True, v, xdrs)) \<Longrightarrow> decodes p v0 [] v"
  by (auto simp: decodes_def)

lemma decodes_check_and: "c v0 \<Longrightarrow> decodes q v0 bs v \<Longrightarrow> decodes (xdr_and (xdr_check c) q) v0 bs v"
  using decodes_and [OF decodes_nothing, of "xdr_check c" v0 v0 q bs v] by (simp add: xdr_check_def)

lemma decodes_cong:
  assumes "decodes q v0 bs v" and "\<And>xdrs. handle xdrs \<Longrightarrow> p xdrs v0 = q xdrs v0"
  shows "decodes p v0 bs v"
  using assms unfolding decodes_def by metis

lemmas enum_decodes = long_decodes [folded int_eqs(3)]

text \<open>
  What a filter decodes may depend on whether the stream gives access in line: it decodes \<open>bs\<close> as a
  value with the property \<open>P\<close>.
\<close>

definition accepts :: "('s, 'b) xdrproc \<Rightarrow> 'b \<Rightarrow> byte list \<Rightarrow> ('b \<Rightarrow> bool) \<Rightarrow> bool" where
  "accepts proc v0 bs P \<longleftrightarrow> (\<forall>xdrs rest. handle xdrs \<longrightarrow> phase (x_priv xdrs) = 0 \<longrightarrow> inp (x_priv xdrs) = bs @ rest \<longrightarrow>
     (\<exists>v xdrs'. proc xdrs v0 = Done (True, v, xdrs') \<and> handle xdrs' \<and> phase (x_priv xdrs') = 0 \<and> inp (x_priv xdrs') = rest \<and> P v))"

lemma acceptsD:
  assumes "accepts proc v0 bs P" and "handle xdrs" and "phase (x_priv xdrs) = 0" and "inp (x_priv xdrs) = bs @ rest"
  obtains v xdrs' where "proc xdrs v0 = Done (True, v, xdrs')" "handle xdrs'" "phase (x_priv xdrs') = 0" "inp (x_priv xdrs') = rest" "P v"
  using assms unfolding accepts_def by blast

lemma acceptsI:
  assumes "\<And>xdrs rest. handle xdrs \<Longrightarrow> phase (x_priv xdrs) = 0 \<Longrightarrow> inp (x_priv xdrs) = bs @ rest \<Longrightarrow>
    \<exists>v xdrs'. proc xdrs v0 = Done (True, v, xdrs') \<and> handle xdrs' \<and> phase (x_priv xdrs') = 0 \<and> inp (x_priv xdrs') = rest \<and> P v"
  shows "accepts proc v0 bs P"
  using assms unfolding accepts_def by blast

lemma decodes_accepts: "decodes proc v0 bs v \<longleftrightarrow> accepts proc v0 bs (\<lambda>w. w = v)"
  by (simp add: decodes_def accepts_def)

lemma accepts_decodes: "decodes proc v0 bs v \<Longrightarrow> P v \<Longrightarrow> accepts proc v0 bs P"
  unfolding decodes_def accepts_def by meson

lemma accepts_both:
  assumes "accepts p v0 b1 P" and "\<And>v. P v \<Longrightarrow> accepts q v b2 Q"
  shows "accepts (xdr_and p q) v0 (b1 @ b2) Q"
proof (rule acceptsI)
  fix xdrs rest assume h: "handle xdrs" "phase (x_priv xdrs) = 0" "inp (x_priv xdrs) = (b1 @ b2) @ rest"
  have i: "inp (x_priv xdrs) = b1 @ b2 @ rest"
    using h(3) by simp
  from acceptsD [OF assms(1) h(1,2) i] obtain v x where 1: "p xdrs v0 = Done (True, v, x)" "handle x" "phase (x_priv x) = 0"
    "inp (x_priv x) = b2 @ rest" "P v" .
  show "\<exists>v xdrs'. xdr_and p q xdrs v0 = Done (True, v, xdrs') \<and> handle xdrs' \<and> phase (x_priv xdrs') = 0 \<and> inp (x_priv xdrs') = rest \<and> Q v"
    by (rule acceptsD [OF assms(2) [OF 1(5)] 1(2-4)]) (simp add: xdr_and_def 1(1))
qed

lemma accepts_and: "decodes p v0 b1 v1 \<Longrightarrow> accepts q v1 b2 P \<Longrightarrow> accepts (xdr_and p q) v0 (b1 @ b2) P"
  unfolding decodes_accepts by (rule accepts_both [where P = "\<lambda>w. w = v1"]) simp_all

lemma accepts_check_and: "c v0 \<Longrightarrow> accepts q v0 bs P \<Longrightarrow> accepts (xdr_and (xdr_check c) q) v0 bs P"
  by (simp add: accepts_def xdr_and_def xdr_check_def)

lemma accepts_field:
  assumes "accepts p (get v0) bs P" and "\<And>w. P w \<Longrightarrow> Q (upd w v0)"
  shows "accepts (xdr_field p get upd) v0 bs Q"
proof (rule acceptsI)
  fix xdrs rest assume h: "handle xdrs" "phase (x_priv xdrs) = 0" "inp (x_priv xdrs) = bs @ rest"
  show "\<exists>v xdrs'. xdr_field p get upd xdrs v0 = Done (True, v, xdrs') \<and> handle xdrs' \<and> phase (x_priv xdrs') = 0 \<and> inp (x_priv xdrs') = rest \<and> Q v"
    by (rule acceptsD [OF assms(1) h]) (auto simp: xdr_field_def intro: assms(2))
qed

lemma auth_decodes:
  assumes "auth_ok oa" and "length f = auth_pad oa" and "oa_base oa0 = Null" and "\<And>n. length (mem n) = n"
  shows "decodes (xdr_opaque_auth mem) oa0 (rep_auth f oa) oa"
proof -
  note a = auth_okD [OF assms(1)]
  have "decodes (xdr_bytes mem MAX_AUTH_BYTES) (Null, z) (be32 (oa_length oa) @ bytes_at (oa_base oa) @ f) (oa_base oa, oa_length oa)" for z
  proof (cases "oa_length oa = 0")
    case True
    have "decodes (xdr_bytes mem MAX_AUTH_BYTES) (Null, z) (be32 0 @ []) (Null, 0)"
      by (rule decodes_pair [OF u_long_decodes [of z] decodes_nothing [of "xdr_check (\<lambda>_. True)" "()"]])
        (auto simp: xdr_bytes_def xdr_u_int_def xdr_check_def)
    then show ?thesis
      using True a(1,5) assms(2) by (simp add: auth_pad_def pad_def)
  next
    case False
    then show ?thesis
      using bytes_decodes [OF a(1) _ a(3), of f Null "mem (unat (oa_length oa))" mem z] a(5) assms(2,4)
      by (simp add: auth_pad_def word_neq_0_conv [symmetric] del: word_neq_0_conv)
  qed
  then show ?thesis
    unfolding xdr_opaque_auth_def oa_fields_def rep_auth_def
    by (intro decodes_and [OF decodes_field [OF enum_decodes refl] decodes_field [where w = "(oa_base oa, oa_length oa)"]])
      (simp_all add: assms(3))
qed

text \<open>Into memory that is provided.\<close>

lemma auth_accepts:
  assumes "auth_ok oa" and "length f = auth_pad oa" and "auth_room oa0" and "\<And>n. length (mem n) = n"
  shows "accepts (xdr_opaque_auth mem) oa0 (rep_auth f oa) (auth_same oa)"
proof -
  note a = auth_okD [OF assms(1)]
  let ?n = "unat (oa_length oa)" and ?b = "bytes_at (oa_base oa)"
  let ?P = "\<lambda>(p, k). k = oa_length oa \<and> ?n \<le> length (bytes_at p) \<and> take ?n (bytes_at p) = ?b"
  have "accepts (xdr_bytes mem MAX_AUTH_BYTES) (oa_base oa0, z) (be32 (oa_length oa) @ ?b @ f) ?P" for z
  proof (cases "oa_length oa = 0")
    case True
    have "decodes (xdr_bytes mem MAX_AUTH_BYTES) (oa_base oa0, z) (be32 0 @ []) (oa_base oa0, 0)"
      by (rule decodes_pair [OF u_long_decodes [of z] decodes_nothing [of "xdr_check (\<lambda>_. True)" "()"]])
        (auto simp: xdr_bytes_def xdr_u_int_def xdr_check_def)
    then show ?thesis
      using True a(1) assms(2) by (intro accepts_decodes [where v = "(oa_base oa0, 0)"]) (auto simp: auth_pad_def pad_def)
  next
    case False
    obtain area where "oa_base oa0 = Null \<and> area = mem ?n \<or> oa_base oa0 = Ptr area" "?n \<le> length area"
      using auth_area [OF assms(3) a(3) assms(4)] .
    then have "decodes (xdr_bytes mem MAX_AUTH_BYTES) (oa_base oa0, z) (be32 (oa_length oa) @ ?b @ f) (Ptr (?b @ drop ?n area), oa_length oa)"
      using bytes_decodes [OF a(1) _ a(3) assms(2) [unfolded auth_pad_def], where mem = mem and p = "oa_base oa0" and buf = area] False
      by (simp add: word_neq_0_conv [symmetric] del: word_neq_0_conv)
    then show ?thesis
      by (rule accepts_decodes) (simp add: a(1))
  qed
  then show ?thesis
    unfolding xdr_opaque_auth_def oa_fields_def rep_auth_def
    by (intro accepts_and [OF decodes_field [OF enum_decodes refl] accepts_field [where P = ?P]]) (auto simp: auth_same_def a(1))
qed

lemma accepts_call_auths:
  assumes "accepts p (cb_cred d) b1 (auth_same (cb_cred c))" and "accepts q (cb_verf d) b2 (auth_same (cb_verf c))"
    and "cb_rpcvers d = cb_rpcvers c" "cb_prog d = cb_prog c" "cb_vers d = cb_vers c" "cb_proc d = cb_proc c"
  shows "accepts (xdr_and (xdr_field p cb_cred (\<lambda>v c. c\<lparr>cb_cred := v\<rparr>)) (xdr_field q cb_verf (\<lambda>v c. c\<lparr>cb_verf := v\<rparr>))) d (b1 @ b2) (body_same c)"
proof (rule accepts_both [where P = "\<lambda>e. \<exists>v. e = d\<lparr>cb_cred := v\<rparr> \<and> auth_same (cb_cred c) v"])
  show "accepts (xdr_field p cb_cred (\<lambda>v c. c\<lparr>cb_cred := v\<rparr>)) d b1 (\<lambda>e. \<exists>v. e = d\<lparr>cb_cred := v\<rparr> \<and> auth_same (cb_cred c) v)"
    by (rule accepts_field [where get = cb_cred, OF assms(1)]) blast
  fix e assume "\<exists>v. e = d\<lparr>cb_cred := v\<rparr> \<and> auth_same (cb_cred c) v"
  then show "accepts (xdr_field q cb_verf (\<lambda>v c. c\<lparr>cb_verf := v\<rparr>)) e b2 (body_same c)"
    by (intro accepts_field [where get = cb_verf and P = "auth_same (cb_verf c)"]) (auto simp: assms(2-6) body_same_def)
qed

lemma accepts_in_call:
  assumes "accepts p (rm_call w) bs (body_same (rm_call m))" and "rm_xid w = rm_xid m" and "rm_direction w = rm_direction m"
  shows "accepts (in_call p) w bs (call_same m)"
  unfolding in_call_def by (rule accepts_field [where get = rm_call, OF assms(1)]) (simp add: call_same_def assms(2,3))

lemma accepted_rest_decodes:
  assumes "ar_stat ar = SUCCESS \<Longrightarrow> \<exists>proc. ar_proc ar0 = Some proc \<and> decodes proc (ar_where ar0) res (ar_where ar)"
  shows "decodes accepted_rest (ar0\<lparr>ar_verf := ar_verf ar, ar_stat := ar_stat ar\<rparr>) (rep_accepted_rest res ar) (accepted_into ar ar0)"
proof -
  let ?a = "ar0\<lparr>ar_verf := ar_verf ar, ar_stat := ar_stat ar\<rparr>"
  consider "ar_stat ar = SUCCESS" | "ar_stat ar \<noteq> SUCCESS" "ar_stat ar = PROG_MISMATCH"
    | "ar_stat ar \<noteq> SUCCESS" "ar_stat ar \<noteq> PROG_MISMATCH"
    by blast
  then show ?thesis
  proof cases
    case 1
    then obtain proc where p: "ar_proc ar0 = Some proc" "decodes proc (ar_where ar0) res (ar_where ar)"
      using assms by blast
    have "decodes (results_field proc) ?a res (?a\<lparr>ar_ru := AR_results (ar_where ar) (ar_proc ar0)\<rparr>)"
      unfolding results_field_def by (rule decodes_field [where w = "ar_where ar"]) (simp_all add: p(2))
    then show ?thesis
      unfolding rep_accepted_rest_def accepted_into_def using 1 p(1) by (simp, elim decodes_cong) (simp add: accepted_rest_def)
  next
    case 2
    have "decodes versions_fields ?a (be32 (ar_vers_low ar) @ be32 (ar_vers_high ar))
        (?a\<lparr>ar_ru := AR_versions (ar_vers_low ar) (ar_vers_high ar)\<rparr>)"
      unfolding versions_fields_def by (intro decodes_and [OF decodes_field [OF u_long_decodes refl] decodes_field [OF u_long_decodes]]) simp
    then show ?thesis
      unfolding rep_accepted_rest_def accepted_into_def using 2 by (simp, elim decodes_cong) (simp add: accepted_rest_def)
  next
    case 3
    then show ?thesis
      by (auto simp: rep_accepted_rest_def accepted_into_def Let_def accepted_rest_def intro!: decodes_nothing)
  qed
qed

lemma rejected_decodes:
  assumes "rj_stat rr \<in> {RPC_MISMATCH, AUTH_ERROR}"
  shows "decodes xdr_rejected_reply rr0 (rep_rejected rr) (rejected_into rr rr0)"
proof -
  let ?r = "rr0\<lparr>rj_stat := rj_stat rr\<rparr>"
  have mismatch: "decodes (xdr_and (xdr_field xdr_u_long rj_vers_low (\<lambda>v rr. rr\<lparr>rj_ru0 := v\<rparr>))
      (xdr_field xdr_u_long rj_vers_high (\<lambda>v rr. rr\<lparr>rj_ru1 := v\<rparr>))) ?r (be32 (rj_vers_low rr) @ be32 (rj_vers_high rr))
      (?r\<lparr>rj_ru0 := rj_vers_low rr, rj_ru1 := rj_vers_high rr\<rparr>)"
    by (intro decodes_and [OF decodes_field [OF u_long_decodes refl] decodes_field [OF u_long_decodes]]) simp
  have why: "decodes (xdr_field xdr_enum rj_why (\<lambda>v rr. rr\<lparr>rj_ru0 := v\<rparr>)) ?r (be32 (rj_why rr)) (?r\<lparr>rj_ru0 := rj_why rr\<rparr>)"
    by (intro decodes_field [OF enum_decodes]) simp
  have "decodes rejected_rest ?r (if rj_stat rr = RPC_MISMATCH then be32 (rj_vers_low rr) @ be32 (rj_vers_high rr) else be32 (rj_why rr))
      (rejected_into rr rr0)"
  proof (cases "rj_stat rr = RPC_MISMATCH")
    case True
    then show ?thesis
      using decodes_cong [OF mismatch, of rejected_rest] by (simp add: rejected_rest_def rejected_into_def)
  next
    case False
    then show ?thesis
      using assms decodes_cong [OF why, of rejected_rest] by (simp add: rejected_rest_def rejected_into_def)
  qed
  then show ?thesis
    unfolding xdr_rejected_reply_def rep_rejected_def by (rule decodes_and [OF decodes_field [OF enum_decodes refl]])
qed

lemma accepted_decodes:
  assumes "auth_ok (ar_verf ar)" and "length f = auth_pad (ar_verf ar)" and "oa_base (ar_verf ar0) = Null" and "\<And>n. length (mem n) = n"
    and "decodes accepted_rest (ar0\<lparr>ar_verf := ar_verf ar, ar_stat := ar_stat ar\<rparr>) bs v"
  shows "decodes (xdr_accepted_reply mem) ar0 (rep_auth f (ar_verf ar) @ be32 (ar_stat ar) @ bs) v"
  unfolding xdr_accepted_reply_def
  by (rule decodes_and, rule decodes_field [where get = ar_verf and w = "ar_verf ar", OF _ refl], rule auth_decodes [OF assms(1-4)],
      rule decodes_and, rule decodes_field [OF enum_decodes refl], rule assms(5))

lemma replymsg_slow_decodes:
  assumes "reply_ok m" and "oa_base (ar_verf (rp_acpt (rm_reply m0))) = Null" and "\<And>n. length (mem n) = n"
    and "rp_stat (rm_reply m) = MSG_ACCEPTED \<Longrightarrow> decodes accepted_rest
      ((rp_acpt (rm_reply m0))\<lparr>ar_verf := ar_verf (rp_acpt (rm_reply m)), ar_stat := ar_stat (rp_acpt (rm_reply m))\<rparr>)
      (rep_accepted_rest res (rp_acpt (rm_reply m))) (accepted_into (rp_acpt (rm_reply m)) (rp_acpt (rm_reply m0)))"
  shows "decodes (replymsg_slow mem) m0 (rep_reply res m) (reply_into m m0)"
proof -
  let ?r = "rm_reply m" and ?s = "rm_reply m0"
  let ?b = "if rp_stat ?r = MSG_ACCEPTED
    then rep_auth (replicate (auth_pad (ar_verf (rp_acpt ?r))) 0) (ar_verf (rp_acpt ?r)) @ be32 (ar_stat (rp_acpt ?r)) @ rep_accepted_rest res (rp_acpt ?r)
    else rep_rejected (rp_rjct ?r)"
  let ?t = "?s\<lparr>rp_ru := (if rp_stat ?r = MSG_ACCEPTED then RP_ar (accepted_into (rp_acpt ?r) (rp_acpt ?s))
    else RP_dr (rejected_into (rp_rjct ?r) (rp_rjct ?s)))\<rparr>"
  note k = reply_okD [OF assms(1)]
  have "\<exists>p. find_choice (rp_stat ?r) (reply_dscrm mem) = Some p \<and> decodes p ?s ?b ?t"
  proof (cases "rp_stat ?r = MSG_ACCEPTED")
    case True
    from accepted_decodes [OF k(5) [OF True] length_replicate assms(2,3) assms(4) [OF True]]
    have "decodes (in_acpt (xdr_accepted_reply mem)) ?s ?b ?t"
      unfolding in_acpt_def using True by (intro decodes_field [where get = rp_acpt]) simp_all
    then show ?thesis
      using True by (auto simp: reply_dscrm_def)
  next
    case False
    then have d: "rp_stat ?r = MSG_DENIED" "rj_stat (rp_rjct ?r) \<in> {RPC_MISMATCH, AUTH_ERROR}"
      using k(9) by simp_all
    have "decodes (in_rjct xdr_rejected_reply) ?s ?b ?t"
      unfolding in_rjct_def using False rejected_decodes [OF d(2)] by (intro decodes_field [where get = rp_rjct]) simp_all
    then show ?thesis
      using d(1) by (auto simp: reply_dscrm_def MSG_ACCEPTED_def MSG_DENIED_def)
  qed
  then obtain p where "find_choice (rp_stat ?r) (reply_dscrm mem) = Some p" "decodes p ?s ?b ?t"
    by (elim exE conjE)
  from union_decodes [OF disjI1, OF this, of None "rp_stat ?s"]
  have u: "decodes (xdr_union (reply_dscrm mem) None) (rp_stat ?s, ?s) (be32 (rp_stat ?r) @ ?b) (rp_stat ?r, ?t)" .
  have "decodes (in_reply (xdr_field (xdr_union (reply_dscrm mem) None) (\<lambda>r. (rp_stat r, r)) (\<lambda>(d, r) _. r\<lparr>rp_stat := d\<rparr>)))
      (m0\<lparr>rm_xid := rm_xid m, rm_direction := rm_direction m\<rparr>) (be32 (rp_stat ?r) @ ?b) (reply_into m m0)"
    unfolding in_reply_def
    by (rule decodes_field [where get = rm_reply and w = "?t\<lparr>rp_stat := rp_stat ?r\<rparr>"], rule decodes_field [where w = "(rp_stat ?r, ?t)"])
      (use u in \<open>simp_all add: reply_into_def Let_def rp_swap\<close>)
  then show ?thesis
    unfolding replymsg_slow_def rep_reply_def Let_def using k(1)
    by (intro decodes_and [OF decodes_field [OF u_long_decodes refl]] decodes_and [OF decodes_field [OF enum_decodes refl]] decodes_check_and)
      simp_all
qed

lemma callmsg_slow_accepts:
  assumes "call_ok m" and "call_room m0" and "\<And>n. length (mem n) = n"
    and "length f = auth_pad (cb_cred (rm_call m))" and "length g = auth_pad (cb_verf (rm_call m))"
  shows "accepts (callmsg_slow mem) m0 (rep_call f g m) (call_same m)"
proof -
  have ok: "rm_direction m = CALL" "cb_rpcvers (rm_call m) = RPC_MSG_VERSION" "auth_ok (cb_cred (rm_call m))" "auth_ok (cb_verf (rm_call m))"
    using assms(1) by (simp_all add: call_ok_def Let_def)
  have room: "auth_room (cb_cred (rm_call m0))" "auth_room (cb_verf (rm_call m0))"
    using assms(2) by (simp_all add: call_room_def)
  show ?thesis
    unfolding callmsg_slow_def rep_call_def Let_def
    by (intro accepts_and [OF decodes_field [OF u_long_decodes refl]] accepts_and [OF decodes_field [OF enum_decodes refl]] accepts_check_and
        accepts_in_call accepts_call_auths auth_accepts) (simp_all add: ok room assms(3-5))
qed

end

context xdr_inline_source
begin

text \<open>A filter that reads \<open>b\<close> in line and goes on with \<open>rest\<close> if the stream gives access, and does not otherwise.\<close>

lemma accepts_inline:
  assumes slow: "accepts slow v0 (b @ bs) P" and n: "unat len = length b" "length b < 2147483648" "4 dvd length b"
    and rest: "accepts rest w bs P" and get: "\<And>buf x. handle x \<Longrightarrow> reader x buf b \<Longrightarrow> fast buf x v0 = rest x w"
    and eq: "\<And>xdrs. handle xdrs \<Longrightarrow> proc xdrs v0 = (case XDR_INLINE len xdrs of
        (None, x) \<Rightarrow> slow x v0 | (Some buf, x) \<Rightarrow> fast buf x v0)"
  shows "accepts proc v0 (b @ bs) P"
proof (rule acceptsI)
  fix xdrs r assume h: "handle xdrs" and p: "phase (x_priv xdrs) = 0" and i: "inp (x_priv xdrs) = (b @ bs) @ r"
  have l: "unat len < 2 ^ 31"
    using n by simp
  show "\<exists>v xdrs'. proc xdrs v0 = Done (True, v, xdrs') \<and> handle xdrs' \<and> phase (x_priv xdrs') = 0 \<and> inp (x_priv xdrs') = r \<and> P v"
  proof (rule XDR_INLINE_get [OF h l])
    assume none: "XDR_INLINE len xdrs = (None, xdrs)"
    show ?thesis
      by (rule acceptsD [OF slow h p i]) (simp add: eq [OF h] none)
  next
    fix buf x assume x: "XDR_INLINE len xdrs = (Some buf, x)" "handle x" "reader x buf (take (unat len) (inp (x_priv xdrs)))"
      "inp (x_priv x) = drop (unat len) (inp (x_priv xdrs))" "phase (x_priv x) = (phase (x_priv xdrs) + unat len) mod 4"
    have q: "phase (x_priv x) = 0" "inp (x_priv x) = bs @ r" "reader x buf b"
      using x(3-5) n p i by (simp_all add: dvd_eq_mod_eq_0)
    show ?thesis
      by (rule acceptsD [OF rest x(2) q(1,2)]) (simp add: eq [OF h] x(1) get [OF x(2) q(3)])
  qed
qed

lemma decodes_inline:
  assumes "decodes slow v0 (b @ bs) v" and "unat len = length b" "length b < 2147483648" "4 dvd length b"
    and "decodes rest w bs v" and "\<And>buf x. handle x \<Longrightarrow> reader x buf b \<Longrightarrow> fast buf x v0 = rest x w"
    and "\<And>xdrs. handle xdrs \<Longrightarrow> proc xdrs v0 = (case XDR_INLINE len xdrs of
        (None, x) \<Rightarrow> slow x v0 | (Some buf, x) \<Rightarrow> fast buf x v0)"
  shows "decodes proc v0 (b @ bs) v"
  using accepts_inline [of slow v0 b bs "\<lambda>w. w = v" len rest w fast proc] assms by (simp add: decodes_accepts)

lemma IXDR_GET_LONG_ok:
  assumes "reader x buf (be32 v @ bs)"
  shows "IXDR_GET_LONG buf x = Done (v, buf + 4)" and "reader x (buf + 4) bs"
  using reader_get [OF assms] by (simp_all add: IXDR_GET_LONG_def)

text \<open>Authentication data.\<close>

lemma auth_hdr_decodes: "decodes get_auth_hdr oa (be32 f @ be32 n) (oa\<lparr>oa_flavor := f, oa_length := n\<rparr>)"
proof -
  let ?hdr = "xdr_and (xdr_field xdr_enum oa_flavor (\<lambda>f a. a\<lparr>oa_flavor := f\<rparr>)) (xdr_field xdr_u_int oa_length (\<lambda>n a. a\<lparr>oa_length := n\<rparr>))"
  have slow: "decodes ?hdr oa ((be32 f @ be32 n) @ []) (oa\<lparr>oa_flavor := f, oa_length := n\<rparr>)"
    unfolding append_Nil2 int_eqs by (rule decodes_and [OF decodes_field [OF long_decodes refl] decodes_field [OF u_long_decodes]]) simp
  have "decodes get_auth_hdr oa ((be32 f @ be32 n) @ []) (oa\<lparr>oa_flavor := f, oa_length := n\<rparr>)"
  proof (rule decodes_inline [OF slow, where len = 8 and rest = "\<lambda>x v. Done (True, v, x)" and w = "oa\<lparr>oa_flavor := f, oa_length := n\<rparr>"
        and fast = "\<lambda>buf xdrs oa. bind_outcome (IXDR_GET_LONG buf xdrs) (\<lambda>(f, buf).
          bind_outcome (IXDR_GET_LONG buf xdrs) (\<lambda>(n, _). Done (True, oa\<lparr>oa_flavor := f, oa_length := n\<rparr>, xdrs)))"])
    fix buf x assume "reader x buf (be32 f @ be32 n)"
    then have r: "reader x buf (be32 f @ be32 n @ [])"
      by simp
    show "bind_outcome (IXDR_GET_LONG buf x) (\<lambda>(f, buf). bind_outcome (IXDR_GET_LONG buf x)
        (\<lambda>(n, _). Done (True, oa\<lparr>oa_flavor := f, oa_length := n\<rparr>, x))) = Done (True, oa\<lparr>oa_flavor := f, oa_length := n\<rparr>, x)"
      using IXDR_GET_LONG_ok(1) [OF r] IXDR_GET_LONG_ok(1) [OF IXDR_GET_LONG_ok(2) [OF r]] by simp
  qed (auto simp: get_auth_hdr_def split: option.split prod.split intro!: decodes_nothing)
  then show ?thesis
    by simp
qed

text \<open>The bytes of a credential or a verifier of a call, whose flavor and length have been read.\<close>

lemma opaque_area_accepts:
  assumes "auth_ok oa" and "length f = auth_pad oa" and "oa_flavor a = oa_flavor oa" and "oa_length a = oa_length oa"
    and "unat (oa_length oa) \<le> length area"
  shows "accepts (\<lambda>xdrs a. bind_outcome (xdr_opaque (oa_length oa) xdrs area) (\<lambda>(ok, bs, xdrs). Done (ok, a\<lparr>oa_base := Ptr bs\<rparr>, xdrs)))
    a (bytes_at (oa_base oa) @ f) (auth_same oa)"
proof -
  let ?b = "bytes_at (oa_base oa)" and ?n = "unat (oa_length oa)"
  note l = auth_okD(1) [OF assms(1)]
  have "decodes (xdr_field (xdr_opaque (oa_length oa)) (\<lambda>_. area) (\<lambda>bs a. a\<lparr>oa_base := Ptr bs\<rparr>)) a (?b @ f) (a\<lparr>oa_base := Ptr (?b @ drop ?n area)\<rparr>)"
    by (rule decodes_field [where get = "\<lambda>_. area", OF opaque_decodes [OF l assms(5) assms(2) [unfolded auth_pad_def]] refl])
  then have "accepts (xdr_field (xdr_opaque (oa_length oa)) (\<lambda>_. area) (\<lambda>bs a. a\<lparr>oa_base := Ptr bs\<rparr>)) a (?b @ f) (auth_same oa)"
    by (rule accepts_decodes) (simp add: auth_same_def assms(3,4) l)
  then show ?thesis
    by (simp add: xdr_field_def [abs_def])
qed

lemma call_auth_accepts:
  assumes "auth_ok oa" and "length f = auth_pad oa" and "oa_flavor a = oa_flavor oa" and "oa_length a = oa_length oa"
    and "auth_room a" and "\<And>n. length (mem n) = n"
  shows "accepts (callmsg_get_auth mem) a (bytes_at (oa_base oa) @ f) (auth_same oa)"
proof -
  note k = auth_okD [OF assms(1)]
  let ?n = "oa_length oa" let ?b = "bytes_at (oa_base oa)"
  obtain area where area: "(if oa_base a = Null then Ptr (mem (unat ?n)) else oa_base a) = Ptr area" "unat ?n \<le> length area"
    using auth_area [OF assms(5) k(3) assms(6)] .
  let ?slow = "\<lambda>xdrs a. bind_outcome (xdr_opaque ?n xdrs area) (\<lambda>(ok, bs, xdrs). Done (ok, a\<lparr>oa_base := Ptr bs\<rparr>, xdrs))"
  let ?fast = "\<lambda>buf xdrs a. bind_outcome (x_load (x_ops xdrs) buf (unat ?n) (x_priv xdrs)) (\<lambda>bs. Done (True, a\<lparr>oa_base := Ptr bs\<rparr>, xdrs))"
  show ?thesis
  proof (cases "?n = 0")
    case True
    then have e: "?b @ f = []"
      using k(1) assms(2) by (simp add: auth_pad_def pad_def)
    have "decodes (callmsg_get_auth mem) a [] a"
      by (rule decodes_nothing) (simp add: callmsg_get_auth_def Let_def assms(4) True)
    then show ?thesis
      unfolding e by (rule accepts_decodes) (use True assms(3,4) in \<open>simp add: auth_same_def\<close>)
  next
    case False
    have slow: "accepts ?slow a ((?b @ f) @ []) (auth_same oa)"
      unfolding append_Nil2 by (rule opaque_area_accepts [OF assms(1-4) area(2)])
    have n: "unat (RNDUP_u ?n) = length (?b @ f)" "length (?b @ f) < 2147483648" "4 dvd length (?b @ f)"
      using auth_size [OF assms(1)] unat_RNDUP_u [of ?n] k(1,2) assms(2) by (simp_all add: auth_pad_def)
    have "accepts (callmsg_get_auth mem) a ((?b @ f) @ []) (auth_same oa)"
    proof (rule accepts_inline [OF slow n, where rest = "\<lambda>x v. Done (True, v, x)" and w = "a\<lparr>oa_base := Ptr ?b\<rparr>" and fast = ?fast])
      show "accepts (\<lambda>x v. Done (True, v, x)) (a\<lparr>oa_base := Ptr ?b\<rparr>) [] (auth_same oa)"
        using k(1) assms(3,4) by (simp add: accepts_def auth_same_def)
      fix buf x assume "reader x buf (?b @ f)"
      from reader_get(1) [OF this] show "?fast buf x a = Done (True, a\<lparr>oa_base := Ptr ?b\<rparr>, x)"
        using k(1) by simp
    qed (use False k(4) assms(4) area(1) in \<open>auto simp: callmsg_get_auth_def Let_def split: option.split prod.split if_splits\<close>)
    then show ?thesis
      by simp
  qed
qed

text \<open>The verifier of a reply goes to allocated memory.\<close>

lemma opaque_null_decodes:
  assumes "auth_ok oa" and "oa_length oa \<noteq> 0" and "length f = auth_pad oa" and "\<And>n. length (mem n) = n"
  shows "decodes (\<lambda>xdrs a. bind_outcome (xdr_opaque (oa_length oa) xdrs (mem (unat (oa_length oa))))
      (\<lambda>(ok, bs, xdrs). Done (ok, a\<lparr>oa_base := Ptr bs\<rparr>, xdrs))) (oa\<lparr>oa_base := Null\<rparr>) (bytes_at (oa_base oa) @ f) oa"
proof -
  note a = auth_okD [OF assms(1)]
  have f: "length f = pad (unat (oa_length oa))" "unat (oa_length oa) \<le> length (mem (unat (oa_length oa)))"
    using assms(3,4) by (simp_all add: auth_pad_def)
  have "oa\<lparr>oa_base := Ptr (bytes_at (oa_base oa))\<rparr> = oa"
    by (rule oa_base_eq) (use a(5) assms(2) in simp)
  then show ?thesis
    using opaque_decodes [OF a(1) f(2,1)] assms(4) unfolding decodes_def by fastforce
qed

lemma verf_get_decodes:
  assumes "auth_ok oa" and "length f = auth_pad oa" and "\<And>n. length (mem n) = n"
  shows "decodes (replymsg_get_verf mem) (oa\<lparr>oa_base := Null\<rparr>) (bytes_at (oa_base oa) @ f) oa"
proof -
  note a = auth_okD [OF assms(1)]
  let ?n = "oa_length oa" let ?b = "bytes_at (oa_base oa)"
  let ?slow = "\<lambda>xdrs a. bind_outcome (xdr_opaque ?n xdrs (mem (unat ?n))) (\<lambda>(ok, bs, xdrs). Done (ok, a\<lparr>oa_base := Ptr bs\<rparr>, xdrs))"
  let ?fast = "\<lambda>buf xdrs a. bind_outcome (x_load (x_ops xdrs) buf (unat ?n) (x_priv xdrs)) (\<lambda>bs. Done (True, a\<lparr>oa_base := Ptr bs\<rparr>, xdrs))"
  show ?thesis
  proof (cases "?n = 0")
    case True
    then have e: "?b @ f = []" "oa\<lparr>oa_base := Null\<rparr> = oa"
      using a(1,5) assms(2) by (simp_all add: auth_pad_def pad_def oa_base_eq)
    show ?thesis
      unfolding e(1) by (rule decodes_nothing) (use True e(2) in \<open>simp add: replymsg_get_verf_def Let_def\<close>)
  next
    case False
    have o: "oa\<lparr>oa_base := Ptr ?b\<rparr> = oa"
      by (rule oa_base_eq) (use a(5) False in simp)
    have slow: "decodes ?slow (oa\<lparr>oa_base := Null\<rparr>) ((?b @ f) @ []) oa"
      unfolding append_Nil2 by (rule opaque_null_decodes [OF assms(1) False assms(2,3)])
    have n: "unat (RNDUP_u ?n) = length (?b @ f)" "length (?b @ f) < 2147483648" "4 dvd length (?b @ f)"
      using auth_size [OF assms(1)] unat_RNDUP_u [of ?n] a(1,2) assms(2) by (simp_all add: auth_pad_def)
    have "decodes (replymsg_get_verf mem) (oa\<lparr>oa_base := Null\<rparr>) ((?b @ f) @ []) oa"
    proof (rule decodes_inline [OF slow n, where rest = "\<lambda>x v. Done (True, v, x)" and w = oa and fast = ?fast])
      fix buf x assume "reader x buf (?b @ f)"
      from reader_get(1) [OF this] show "?fast buf x (oa\<lparr>oa_base := Null\<rparr>) = Done (True, oa, x)"
        using a(1) o by simp
    qed (use False a(4) assms(3) in \<open>auto simp: replymsg_get_verf_def Let_def split: option.split prod.split intro!: decodes_nothing\<close>)
    then show ?thesis
      by simp
  qed
qed

lemma auth_start: "oa_base a = Null \<Longrightarrow> a\<lparr>oa_flavor := oa_flavor oa, oa_length := oa_length oa\<rparr> = oa\<lparr>oa_base := Null\<rparr>"
  for a oa :: opaque_auth
  by (cases a; cases oa) simp

lemma verf_whole_decodes:
  assumes "auth_ok oa" and "length f = auth_pad oa" and "oa_base a = Null" and "\<And>n. length (mem n) = n"
  shows "decodes (xdr_and get_auth_hdr (replymsg_get_verf mem)) a (rep_auth f oa) oa"
  using decodes_and [OF auth_hdr_decodes [of a "oa_flavor oa" "oa_length oa", unfolded auth_start [OF assms(3)]] verf_get_decodes [OF assms(1,2,4)]]
  by (simp add: rep_auth_def)

lemma call_auth_whole_accepts:
  assumes "auth_ok oa" and "length f = auth_pad oa" and "auth_room a" and "\<And>n. length (mem n) = n"
  shows "accepts (xdr_and get_auth_hdr (callmsg_get_auth mem)) a (rep_auth f oa) (auth_same oa)"
proof -
  have "auth_room (a\<lparr>oa_flavor := oa_flavor oa, oa_length := oa_length oa\<rparr>)"
    using assms(3) by (simp add: auth_room_def)
  from accepts_and [OF auth_hdr_decodes call_auth_accepts [OF assms(1,2) _ _ this assms(4)]] show ?thesis
    by (simp add: rep_auth_def)
qed

text \<open>Calls.\<close>

lemma callmsg_accepts:
  assumes "call_ok m" and "call_room m0" and "\<And>n. length (mem n) = n" and "bs \<in> call_reps m"
  shows "accepts (xdr_callmsg mem) m0 bs (call_same m)"
proof -
  let ?c = "rm_call m" and ?d = "rm_call m0"
  obtain f g where fg: "bs = rep_call f g m" "length f = auth_pad (cb_cred ?c)" "length g = auth_pad (cb_verf ?c)"
    using assms(4) by (auto simp: call_reps_def)
  have ok: "rm_direction m = CALL" "cb_rpcvers ?c = RPC_MSG_VERSION" "auth_ok (cb_cred ?c)" "auth_ok (cb_verf ?c)"
    using assms(1) by (simp_all add: call_ok_def Let_def)
  have room: "auth_room (cb_cred ?d)" "auth_room (cb_verf ?d)"
    using assms(2) by (simp_all add: call_room_def)
  let ?b = "be32 (rm_xid m) @ be32 (rm_direction m) @ be32 (cb_rpcvers ?c) @ be32 (cb_prog ?c) @ be32 (cb_vers ?c) @ be32 (cb_proc ?c)
    @ be32 (oa_flavor (cb_cred ?c)) @ be32 (oa_length (cb_cred ?c))"
  let ?bs = "bytes_at (oa_base (cb_cred ?c)) @ f @ rep_auth g (cb_verf ?c)"
  let ?auths = "xdr_and (xdr_field (callmsg_get_auth mem) cb_cred (\<lambda>v c. c\<lparr>cb_cred := v\<rparr>))
      (xdr_field (xdr_and get_auth_hdr (callmsg_get_auth mem)) cb_verf (\<lambda>v c. c\<lparr>cb_verf := v\<rparr>))"
  let ?e = "?d\<lparr>cb_rpcvers := cb_rpcvers ?c, cb_prog := cb_prog ?c, cb_vers := cb_vers ?c, cb_proc := cb_proc ?c,
      cb_cred := (cb_cred ?d)\<lparr>oa_flavor := oa_flavor (cb_cred ?c), oa_length := oa_length (cb_cred ?c)\<rparr>\<rparr>"
  let ?w = "m0\<lparr>rm_xid := rm_xid m, rm_direction := rm_direction m, rm_ru := RM_cmb ?e\<rparr>"
  have bs: "bs = ?b @ ?bs"
    by (simp add: fg(1) rep_call_def rep_auth_def Let_def)
  have slow: "accepts (callmsg_slow mem) m0 (?b @ ?bs) (call_same m)"
    using callmsg_slow_accepts [OF assms(1-3) fg(2,3)] bs fg(1) by simp
  have cred: "accepts (callmsg_get_auth mem) (cb_cred ?e) (bytes_at (oa_base (cb_cred ?c)) @ f) (auth_same (cb_cred ?c))"
    by (rule call_auth_accepts [OF ok(3) fg(2)]) (use room(1) assms(3) in \<open>simp_all add: auth_room_def\<close>)
  have verf: "accepts (xdr_and get_auth_hdr (callmsg_get_auth mem)) (cb_verf ?e) (rep_auth g (cb_verf ?c)) (auth_same (cb_verf ?c))"
    by (rule call_auth_whole_accepts [OF ok(4) fg(3)]) (use room(2) assms(3) in simp_all)
  have "accepts ?auths ?e ((bytes_at (oa_base (cb_cred ?c)) @ f) @ rep_auth g (cb_verf ?c)) (body_same ?c)"
    by (rule accepts_call_auths [OF cred verf]) simp_all
  then have rest: "accepts (in_call ?auths) ?w ?bs (call_same m)"
    by (intro accepts_in_call) simp_all
  show ?thesis
    unfolding bs
  proof (rule accepts_inline [OF slow _ _ _ rest, where len = 32 and fast = "callmsg_get mem"])
    fix buf x assume r: "reader x buf ?b"
    note r1 = IXDR_GET_LONG_ok(2) [OF r] note r2 = IXDR_GET_LONG_ok(2) [OF r1] note r3 = IXDR_GET_LONG_ok(2) [OF r2]
    note r4 = IXDR_GET_LONG_ok(2) [OF r3] note r5 = IXDR_GET_LONG_ok(2) [OF r4] note r6 = IXDR_GET_LONG_ok(2) [OF r5]
    have r7: "reader x (buf + 4 + 4 + 4 + 4 + 4 + 4 + 4) (be32 (oa_length (cb_cred ?c)) @ [])"
      using IXDR_GET_LONG_ok(2) [OF r6] by simp
    note g = IXDR_GET_LONG_ok(1)
    show "callmsg_get mem buf x m0 = in_call ?auths x ?w"
      by (simp only: callmsg_get_def g [OF r] g [OF r1] g [OF r2] g [OF r3] g [OF r4] g [OF r5] g [OF r6] g [OF r7]
          bind_outcome.simps prod.case Let_def ok(1,2)) (simp add: ok(2))
  qed (simp_all add: xdr_callmsg_def Let_def split: option.split prod.split)
qed

text \<open>Replies.\<close>

lemma replymsg_get_accepted:
  fixes m m0
  defines "r \<equiv> rm_reply m" and "s \<equiv> rm_reply m0"
  assumes "auth_ok (ar_verf (rp_acpt r))" and "oa_base (ar_verf (rp_acpt s)) = Null" and "\<And>n. length (mem n) = n"
    and "decodes accepted_rest ((rp_acpt s)\<lparr>ar_verf := ar_verf (rp_acpt r), ar_stat := ar_stat (rp_acpt r)\<rparr>)
      (rep_accepted_rest res (rp_acpt r)) (accepted_into (rp_acpt r) (rp_acpt s))"
    and "rp_stat r = MSG_ACCEPTED"
  shows "decodes (in_reply (in_acpt
      (xdr_and (xdr_field (xdr_and get_auth_hdr (replymsg_get_verf mem)) ar_verf (\<lambda>v ar. ar\<lparr>ar_verf := v\<rparr>))
        (xdr_and (xdr_field xdr_enum ar_stat (\<lambda>v ar. ar\<lparr>ar_stat := v\<rparr>)) accepted_rest))))
    (m0\<lparr>rm_xid := rm_xid m, rm_direction := rm_direction m, rm_ru := RM_rmb (s\<lparr>rp_stat := rp_stat r\<rparr>)\<rparr>)
    (rep_auth (replicate (auth_pad (ar_verf (rp_acpt r))) 0) (ar_verf (rp_acpt r)) @ be32 (ar_stat (rp_acpt r)) @ rep_accepted_rest res (rp_acpt r))
    (reply_into m m0)"
proof -
  have "decodes (xdr_and (xdr_field (xdr_and get_auth_hdr (replymsg_get_verf mem)) ar_verf (\<lambda>v ar. ar\<lparr>ar_verf := v\<rparr>))
      (xdr_and (xdr_field xdr_enum ar_stat (\<lambda>v ar. ar\<lparr>ar_stat := v\<rparr>)) accepted_rest)) (rp_acpt s)
      (rep_auth (replicate (auth_pad (ar_verf (rp_acpt r))) 0) (ar_verf (rp_acpt r)) @ be32 (ar_stat (rp_acpt r)) @ rep_accepted_rest res (rp_acpt r))
      (accepted_into (rp_acpt r) (rp_acpt s))"
    by (rule decodes_and, rule decodes_field [where get = ar_verf and w = "ar_verf (rp_acpt r)", OF _ refl],
        rule verf_whole_decodes [OF assms(3) length_replicate assms(4,5)],
        rule decodes_and, rule decodes_field [OF enum_decodes refl], rule assms(6))
  then show ?thesis
    unfolding in_reply_def in_acpt_def
    by (intro decodes_field [where get = rm_reply and w = "s\<lparr>rp_stat := rp_stat r, rp_ru := RP_ar (accepted_into (rp_acpt r) (rp_acpt s))\<rparr>"]
        decodes_field [where get = rp_acpt and w = "accepted_into (rp_acpt r) (rp_acpt s)"])
      (use assms(7) in \<open>simp_all add: reply_into_def Let_def rp_swap r_def s_def\<close>)
qed

lemma replymsg_get_denied:
  fixes m m0
  defines "r \<equiv> rm_reply m" and "s \<equiv> rm_reply m0"
  assumes "rp_stat r = MSG_DENIED" and "rj_stat (rp_rjct r) \<in> {RPC_MISMATCH, AUTH_ERROR}"
  shows "decodes (in_reply (in_rjct xdr_rejected_reply))
    (m0\<lparr>rm_xid := rm_xid m, rm_direction := rm_direction m, rm_ru := RM_rmb (s\<lparr>rp_stat := rp_stat r\<rparr>)\<rparr>) (rep_rejected (rp_rjct r)) (reply_into m m0)"
  unfolding in_reply_def in_rjct_def
  by (intro decodes_field [where get = rm_reply and w = "s\<lparr>rp_stat := rp_stat r, rp_ru := RP_dr (rejected_into (rp_rjct r) (rp_rjct s))\<rparr>"]
      decodes_field [where get = rp_rjct and w = "rejected_into (rp_rjct r) (rp_rjct s)"])
    (use assms(3,4) in \<open>simp_all add: rejected_decodes reply_into_def Let_def rp_swap r_def s_def MSG_ACCEPTED_def MSG_DENIED_def\<close>)

lemma replymsg_decodes:
  assumes "reply_ok m" and "oa_base (ar_verf (rp_acpt (rm_reply m0))) = Null" and "\<And>n. length (mem n) = n"
    and acc: "rp_stat (rm_reply m) = MSG_ACCEPTED \<Longrightarrow> decodes accepted_rest
      ((rp_acpt (rm_reply m0))\<lparr>ar_verf := ar_verf (rp_acpt (rm_reply m)), ar_stat := ar_stat (rp_acpt (rm_reply m))\<rparr>)
      (rep_accepted_rest res (rp_acpt (rm_reply m))) (accepted_into (rp_acpt (rm_reply m)) (rp_acpt (rm_reply m0)))"
  shows "decodes (xdr_replymsg mem) m0 (rep_reply res m) (reply_into m m0)"
proof -
  let ?r = "rm_reply m" and ?s = "rm_reply m0"
  let ?b = "be32 (rm_xid m) @ be32 (rm_direction m) @ be32 (rp_stat ?r)"
  let ?oa = "ar_verf (rp_acpt ?r)"
  let ?bs = "if rp_stat ?r = MSG_ACCEPTED
    then rep_auth (replicate (auth_pad ?oa) 0) ?oa @ be32 (ar_stat (rp_acpt ?r)) @ rep_accepted_rest res (rp_acpt ?r)
    else rep_rejected (rp_rjct ?r)"
  let ?acc = "in_reply (in_acpt
      (xdr_and (xdr_field (xdr_and get_auth_hdr (replymsg_get_verf mem)) ar_verf (\<lambda>v ar. ar\<lparr>ar_verf := v\<rparr>))
        (xdr_and (xdr_field xdr_enum ar_stat (\<lambda>v ar. ar\<lparr>ar_stat := v\<rparr>)) accepted_rest)))"
  let ?rest = "if rp_stat ?r = MSG_ACCEPTED then ?acc else in_reply (in_rjct xdr_rejected_reply)"
  let ?w = "m0\<lparr>rm_xid := rm_xid m, rm_direction := rm_direction m, rm_ru := RM_rmb (?s\<lparr>rp_stat := rp_stat ?r\<rparr>)\<rparr>"
  have ok: "rm_direction m = REPLY" "rp_stat ?r = MSG_ACCEPTED \<Longrightarrow> auth_ok ?oa"
    "rp_stat ?r \<noteq> MSG_ACCEPTED \<Longrightarrow> rp_stat ?r = MSG_DENIED \<and> rj_stat (rp_rjct ?r) \<in> {RPC_MISMATCH, AUTH_ERROR}"
    using reply_okD [OF assms(1)] by blast+
  have rep: "rep_reply res m = ?b @ ?bs"
    by (simp add: rep_reply_def Let_def)
  have slow: "decodes (replymsg_slow mem) m0 (?b @ ?bs) (reply_into m m0)"
    using replymsg_slow_decodes [OF assms] unfolding rep by simp
  have rest: "decodes ?rest ?w ?bs (reply_into m m0)"
    using replymsg_get_accepted [OF ok(2) assms(2,3) acc] replymsg_get_denied [of m m0] ok(3) by (cases "rp_stat ?r = MSG_ACCEPTED") simp_all
  show ?thesis
    unfolding rep
  proof (rule decodes_inline [OF slow _ _ _ rest, where len = 12 and fast = "replymsg_get mem"])
    fix buf x assume r: "reader x buf ?b"
    note r1 = IXDR_GET_LONG_ok(2) [OF r]
    have r2: "reader x (buf + 4 + 4) (be32 (rp_stat ?r) @ [])"
      using IXDR_GET_LONG_ok(2) [OF r1] by simp
    note g = IXDR_GET_LONG_ok(1)
    show "replymsg_get mem buf x m0 = ?rest x ?w"
      by (simp only: replymsg_get_def g [OF r] g [OF r1] g [OF r2] bind_outcome.simps prod.case Let_def ok(1)) (use ok(3) in simp)
  qed (simp_all add: xdr_replymsg_def split: option.split prod.split)
qed

end

end
