(* ===== verification/Xdr_Message.thy ===== *)
theory Xdr_Message
  imports Xdr_Chain
begin

text \<open>
  External data in chains of message blocks: what the filters write into a chain and read from
  one, the operations of a chain as operations on a string of bytes, and blocks that are added
  to a chain and taken off it without being copied.
\<close>

section \<open>Filters on chains\<close>

text \<open>
  C13. The filters on chains of message blocks: integers, opaque data, counted bytes, strings and
  counted arrays of longs are written into a chain as their external representation, going on
  in blocks that are allocated when a block is full. What they leave is a message, and they
  decode every message that begins with that representation to the same value, if its blocks
  hold whole units of four bytes, the last one excepted; a cut between units makes no difference.
\<close>

theorem xdr_mblk_roundtrip:
  assumes "length bs = unat sz" and "0 < sz" and "sz \<le> maxsize" and "sz + 1 \<noteq> 0"
    and "\<And>n. length (mem n) = n" and "length buf = length bs"
    and "length l = unat c" and "0 < c" and "c \<le> maxsize" and "unat c * 4 < 2 ^ 32"
  shows "mblk_roundtrip xdr_long v0 v (be32 v) \<and> mblk_roundtrip xdr_short h0 h (be32 (scast h))
    \<and> mblk_roundtrip xdr_longlong_t d0 d (be32 (high_word d) @ be32 (low_word d))
    \<and> mblk_roundtrip (xdr_opaque sz) buf bs (rep_opaque bs)
    \<and> mblk_roundtrip (xdr_bytes mem maxsize) (Null, z) (Ptr bs, sz) (rep_bytes bs)
    \<and> (0 \<notin> set bs \<longrightarrow> mblk_roundtrip (xdr_string mem maxsize) Null (Ptr (bs @ [0])) (rep_bytes bs))
    \<and> mblk_roundtrip (xdr_array maxsize 4 0 xdr_long) (Null, z) (Ptr l, c) (be32 c @ concat (map be32 l))"
proof -
  have four: "unat c * unat (4 :: 32 word) < 2 ^ 32" "0 < (4 :: 32 word)"
    using assms(10) by simp_all
  show ?thesis
    using xb.conveys_scalars xb.conveys_opaque [OF assms(1,6)] xb.conveys_bytes [OF assms(1-3,5)]
      xb.conveys_string [OF assms(1,3-5)] xb.conveys_array [OF assms(7-9) four xb.conveys_scalars(1)]
    by (auto intro!: mblk_roundtripI)
qed

theorem xdr_mblk_roundtrip_witness:
  "mblk_roundtrip (xdr_string (\<lambda>n. replicate n 7) 255) Null (Ptr [104, 105, 0]) (rep_bytes [104, 105])"
  using xdr_mblk_roundtrip [of "[104, 105]" 2 255 "\<lambda>n. replicate n 7" "[0, 0]" "[9]" 1] by simp

text \<open>
  Decoding counted bytes from a message is safe whatever it holds, and where it ends: with a
  limit below \<open>2\<^sup>3\<^sup>1\<close> it ends without an access outside of the blocks and the allocated memory; if
  it succeeds, the length is within the limit and the bytes, their length and the filler are
  the beginning of the message.
\<close>

lemma xdr_mblk_decode_safe:
  assumes "xdr_message ms" and "maxsize < 2 ^ 31" and "\<And>n. length (mem n) = n"
  shows "\<exists>ok p sz x. xdr_bytes mem maxsize (decode_init ms) (Null, z) = Done (ok, (p, sz), x) \<and>
     (ok \<longrightarrow> sz \<le> maxsize \<and> (\<exists>bs filler. length bs = unat sz \<and> length filler = pad (unat sz)
        \<and> p = (if sz = 0 then Null else Ptr bs) \<and> msg_data ms = be32 sz @ bs @ filler @ xb_inp (x_priv x)))"
proof -
  note i = decode_init_ok [OF assms(1)]
  from xbi.bytes_total [OF i(1,3) assms(3,2), where z = z] show ?thesis
    unfolding i(2) by blast
qed

text \<open>
  A message of two blocks, at the end and at the beginning of their data blocks; the first holds
  a unit, the second two bytes.
\<close>

definition two_blocks :: "mblk list" where
  "two_blocks =
     [\<lparr>db_base = 0x1000, db_mem = [9, 9, 0, 0, 0, 2], db_ref = 1, b_rptr = 0x1002, b_wptr = 0x1006\<rparr>,
      \<lparr>db_base = 0x2000, db_mem = [104, 105, 0, 0, 8], db_ref = 1, b_rptr = 0x2000, b_wptr = 0x2002\<rparr>]"

lemma two_blocks_message: "xdr_message two_blocks" "msg_data two_blocks = [0, 0, 0, 2, 104, 105]"
  by (simp_all add: two_blocks_def xdr_message_def msg_data_def blk_ok_def blk_data_def blk_off_def)
     (simp add: numeral_eq_Suc)

lemma two_blocks_start:
  "xbi_ok 6 (x_priv (decode_init two_blocks))" "xb_phase 6 (x_priv (decode_init two_blocks)) = 0"
  "xb_inp (x_priv (decode_init two_blocks)) = [0, 0, 0, 2, 104, 105]"
proof -
  have l: "length (msg_data two_blocks) = 6"
    by (simp add: two_blocks_message(2))
  note i = decode_init_ok [OF two_blocks_message(1), unfolded l]
  show "xbi_ok 6 (x_priv (decode_init two_blocks))" "xb_phase 6 (x_priv (decode_init two_blocks)) = 0"
    "xb_inp (x_priv (decode_init two_blocks)) = [0, 0, 0, 2, 104, 105]"
    using xbi.handleD(1) [OF i(1)] i(2,3) two_blocks_message(2) by simp_all
qed

lemma xdr_mblk_decode_safe_witness:
  "\<exists>ok p sz x. xdr_bytes (\<lambda>n. replicate n 0) 64 (decode_init two_blocks) (Null, 0) = Done (ok, (p, sz), x)"
  using xdr_mblk_decode_safe [of two_blocks 64 "\<lambda>n. replicate n 0" 0] two_blocks_message(1) by auto

section \<open>A chain as a string of bytes\<close>

lemma unat_RNDUP:
  assumes "unat (w :: 32 word) + 3 < 2147483648"
  shows "unat (RNDUP w) = unat w + pad (unat w)"
proof -
  let ?n = "unat w"
  have u: "unat (w + 3) = ?n + 3"
    using assms by (simp add: unat_word_ariths)
  have s: "sint (w + 3) = int (?n + 3)"
    using sint_small [of "w + 3"] u assms by (simp del: of_nat_unat)
  have e: "int (?n + 3) div 4 * 4 = int ((?n + 3) div 4 * 4)"
    by (simp add: zdiv_int)
  have nn: "\<not> int (?n + 3) < 0"
    by (simp only: of_nat_less_0_iff not_False_eq_True)
  have "RNDUP w = word_of_nat ((?n + 3) div 4 * 4)"
    unfolding RNDUP_def Let_def s by (simp only: nn if_False e of_int_of_nat_eq)
  moreover have "(n + 3) div 4 * 4 = n + p" if "(n + p) mod 4 = 0" "p < 4" for n p :: nat
    using that by presburger
  ultimately have "RNDUP w = word_of_nat (?n + pad ?n)"
    using pad_phase [of ?n] pad_bound [of ?n] by simp
  moreover have "unat (word_of_nat k :: 32 word) = k" if "k < 4294967296" for k
    using that by (simp add: unsigned_of_nat take_bit_nat_eq_self)
  moreover have "?n + pad ?n < 4294967296"
    using assms pad_bound [of ?n] by simp
  ultimately show ?thesis
    by (simp only:)
qed

text \<open>
  C25. A chain that is read implements a string of bytes, if the blocks behind the current one hold
  whole units, the last one excepted. At the beginning of a unit, as seen from the beginning
  of the message, whose length is \<open>r\<close> up to whole units, a long is the next four bytes, or there is
  none if fewer are left. From any position, \<open>len\<close> bytes are got, or skipped with the filler, if that
  many are left, otherwise the operation fails. The string is shorter by them then. In a block
  that ends inside of a unit that has been begun there is no long, whatever follows.
\<close>

theorem xdrmblk_refines_string:
  assumes "xbi_ok r s" and "unat len + 3 < 2 ^ 31" and "unat len \<le> length addr"
  shows "(xb_phase r s = 0 \<longrightarrow>
      (\<exists>s'. xdrmblk_getlong s = Done (if length (xb_inp s) < 4 then None else Some (of_be32 (take 4 (xb_inp s))), s')
         \<and> (4 \<le> length (xb_inp s) \<longrightarrow> xbi_ok r s' \<and> xb_phase r s' = 0 \<and> xb_inp s' = drop 4 (xb_inp s))))
    \<and> (length (blk_data (hd (xb_chain s))) \<in> {1, 2, 3} \<longrightarrow> (\<exists>s'. xdrmblk_getlong s = Done (None, s')))
    \<and> (\<exists>addr' s'. xdrmblk_getbytes addr len s = Done (unat len \<le> length (xb_inp s), addr', s')
         \<and> (unat len \<le> length (xb_inp s) \<longrightarrow> addr' = take (unat len) (xb_inp s) @ drop (unat len) addr
              \<and> xbi_ok r s' \<and> xb_phase r s' = (xb_phase r s + unat len) mod 4 \<and> xb_inp s' = drop (unat len) (xb_inp s)))
    \<and> (\<exists>s'. xdrmblk_control (XDR_SKIPBYTES len) s = Done (None, unat len + pad (unat len) \<le> length (xb_inp s), s')
         \<and> (unat len + pad (unat len) \<le> length (xb_inp s) \<longrightarrow>
              xbi_ok r s' \<and> xb_phase r s' = xb_phase r s \<and> xb_inp s' = drop (unat len + pad (unat len)) (xb_inp s)))"
proof (intro conjI)
  let ?n = "unat len" and ?k = "unat len + pad (unat len)"
  have ne: "xb_chain s \<noteq> []" and p4: "xb_phase r s mod 4 = xb_phase r s"
    using assms(1) by (simp_all add: xbi_ok_def xb_phase_def)
  have small: "?n < 2147483648"
    using assms(2) by simp
  show "xb_phase r s = 0 \<longrightarrow>
      (\<exists>s'. xdrmblk_getlong s = Done (if length (xb_inp s) < 4 then None else Some (of_be32 (take 4 (xb_inp s))), s')
         \<and> (4 \<le> length (xb_inp s) \<longrightarrow> xbi_ok r s' \<and> xb_phase r s' = 0 \<and> xb_inp s' = drop 4 (xb_inp s)))"
    using getlong_loop_ok [OF assms(1)] ne xb_phase_drop [of _ 4 s r] by (auto simp: xdrmblk_getlong_def)
  show "length (blk_data (hd (xb_chain s))) \<in> {1, 2, 3} \<longrightarrow> (\<exists>s'. xdrmblk_getlong s = Done (None, s'))"
    using getlong_cut_unit [of s] xbi_cases [OF assms(1)] by (metis list.sel(1) list.distinct(1) xdrmblk_getlong_def)
  show "\<exists>addr' s'. xdrmblk_getbytes addr len s = Done (?n \<le> length (xb_inp s), addr', s')
      \<and> (?n \<le> length (xb_inp s) \<longrightarrow> addr' = take ?n (xb_inp s) @ drop ?n addr
           \<and> xbi_ok r s' \<and> xb_phase r s' = (xb_phase r s + ?n) mod 4 \<and> xb_inp s' = drop ?n (xb_inp s))"
    using getbytes_loop_ok [OF assms(1) small, of 0 addr] assms(3) ne xb_phase_drop [of _ ?n s r] by (auto simp: xdrmblk_getbytes_def)
  have round: "unat (RNDUP len) = ?k"
    by (rule unat_RNDUP) (use assms(2) in simp)
  have lt: "unat (RNDUP len) < 2147483648"
    using round assms(2) pad_bound [of ?n] by simp
  have ph: "(xb_phase r s + ?k) mod 4 = xb_phase r s"
    using pad_phase [of ?n] p4 by (metis add.right_neutral mod_add_right_eq)
  show "\<exists>s'. xdrmblk_control (XDR_SKIPBYTES len) s = Done (None, ?k \<le> length (xb_inp s), s')
      \<and> (?k \<le> length (xb_inp s) \<longrightarrow> xbi_ok r s' \<and> xb_phase r s' = xb_phase r s \<and> xb_inp s' = drop ?k (xb_inp s))"
    using skip_loop_ok [OF assms(1) lt] ne round ph xb_phase_drop [of _ ?k s r] by (auto simp: xdrmblk_control_def)
qed

theorem xdrmblk_refines_string_witness:
  "\<exists>addr' s'. xdrmblk_getbytes [0, 0, 0, 0, 0] 5 (x_priv (decode_init two_blocks)) = Done (True, addr', s')
     \<and> addr' = [0, 0, 0, 2, 104] \<and> xb_inp s' = [105]"
  using xdrmblk_refines_string [OF two_blocks_start(1), of 5 "[0, 0, 0, 0, 0]"] two_blocks_start(3) by simp blast

section \<open>Blocks without copying\<close>

lemma chain_length:
  assumes "\<forall>m\<in>set ms. blk_ok m"
  shows "sum_list (map (\<lambda>m. b_wptr m - b_rptr m) ms) = word_of_nat (length (msg_data ms))"
  using assms by (induction ms) (simp_all add: msg_data_def blk_len(1))

lemma putmblk_ok:
  assumes "xbo_ok s" and "4 dvd length (xb_out s)" and "blk_ok m" and "4 dvd length (blk_data m)"
  shows "xbo_ok ((xb_next s)\<lparr>xb_chain := [m], xb_handy := 0\<rparr>)"
    and "xb_out ((xb_next s)\<lparr>xb_chain := [m], xb_handy := 0\<rparr>) = xb_out s @ blk_data m"
proof -
  obtain b bs where c: "xb_chain s = b # bs" "4 dvd length (blk_data b)" "xbo_rest s"
    using xbo_cases [OF assms(1)] assms(2) by metis
  have e: "concat (map blk_data bs) = []"
    using c(1,3) by (auto simp: xbo_rest_def fresh_data)
  show "xbo_ok ((xb_next s)\<lparr>xb_chain := [m], xb_handy := 0\<rparr>)"
    "xb_out ((xb_next s)\<lparr>xb_chain := [m], xb_handy := 0\<rparr>) = xb_out s @ blk_data m"
    using c assms(3,4) by (simp_all add: xbo_ok_def xbo_rest_def xb_next_def xb_out_def e)
qed

text \<open>
  Blocks are added and taken off without copying. A block of whole units is added behind its
  length, and the bytes of the chain are then followed by the length and the data of the block.
  Taking off gives all blocks behind the length, with the bytes that were left, and leaves the
  stream with no block, so that asking for its position is a null pointer dereference. The
  check that as many bytes are there compares signed numbers: a length of \<open>2\<^sup>3\<^sup>1\<close> and more passes
  it, though the message is shorter.
\<close>

lemma xdrmblk_blocks:
  "(xbo_ok s \<and> 4 dvd length (xb_out s) \<and> 4 \<le> xb_space s \<and> blk_ok m \<and> 4 dvd length (blk_data m) \<longrightarrow>
      (\<exists>s'. xdrmblk_putmblk m [] len s = Done (True, s') \<and> xbo_ok s' \<and> xb_out s' = xb_out s @ be32 len @ blk_data m))
   \<and> (xbi_ok r t \<and> xb_phase r t = 0 \<and> xb_inp t = be32 len @ rest \<longrightarrow>
      (\<exists>ms t'. xdrmblk_getmblk t = Done (sint len \<le> int (length rest), Some (ms, len), t') \<and> msg_data ms = rest
         \<and> (sint len \<le> int (length rest) \<longrightarrow> xdrmblk_getpos t' = Panic)
         \<and> (2 ^ 31 \<le> unat len \<longrightarrow> sint len \<le> int (length rest) \<and> length rest < unat len)))"
proof (intro conjI impI)
  assume a: "xbo_ok s \<and> 4 dvd length (xb_out s) \<and> 4 \<le> xb_space s \<and> blk_ok m \<and> 4 dvd length (blk_data m)"
  then have "4 dvd unat (b_wptr m - b_rptr m)"
    using blk_len(1) [of m] by simp
  then have "(b_wptr m - b_rptr m) mod 4 = 0"
    by (simp add: dvd_eq_mod_eq_0 unat_mod word_unat_eq_iff)
  moreover from a putlong_ok [of s len] obtain s' where s': "xdrmblk_putlong len s = Done (True, s')" "xbo_ok s'" "xb_out s' = xb_out s @ be32 len"
    by auto
  moreover have "xbo_ok ((xb_next s')\<lparr>xb_chain := [m], xb_handy := 0\<rparr>)"
    "xb_out ((xb_next s')\<lparr>xb_chain := [m], xb_handy := 0\<rparr>) = xb_out s' @ blk_data m"
    using putmblk_ok [OF s'(2)] a s'(3) by simp_all
  ultimately show "\<exists>s'. xdrmblk_putmblk m [] len s = Done (True, s') \<and> xbo_ok s' \<and> xb_out s' = xb_out s @ be32 len @ blk_data m"
    by (simp add: xdrmblk_putmblk_def)
next
  assume a: "xbi_ok r t \<and> xb_phase r t = 0 \<and> xb_inp t = be32 len @ rest"
  then obtain t' where t': "xdrmblk_getlong t = Done (Some len, t')" "xbi_ok r t'" "xb_inp t' = rest"
    using getlong_loop_ok [of r t] by (auto simp: xdrmblk_getlong_def xbi_ok_def)
  have l: "length rest < 2147483648" and ok: "\<forall>m\<in>set (xb_chain t'). blk_ok m" and d: "msg_data (xb_chain t') = rest"
    using t'(2,3) by (auto simp: xbi_ok_def msg_data_def xb_inp_def)
  have "sint (sum_list (map (\<lambda>m. b_wptr m - b_rptr m) (xb_chain t'))) = int (length rest)"
    unfolding chain_length [OF ok] d using l sint_small [of "word_of_nat (length rest)"]
    by (simp add: unsigned_of_nat take_bit_nat_eq_self del: of_nat_unat)
  moreover have "sint len \<le> int (length rest)" if "2147483648 \<le> unat len"
    using sint_neg [of len] that by simp
  ultimately show "\<exists>ms t'. xdrmblk_getmblk t = Done (sint len \<le> int (length rest), Some (ms, len), t') \<and> msg_data ms = rest
      \<and> (sint len \<le> int (length rest) \<longrightarrow> xdrmblk_getpos t' = Panic)
      \<and> (2 ^ 31 \<le> unat len \<longrightarrow> sint len \<le> int (length rest) \<and> length rest < unat len)"
    using t'(1) d l by (auto simp: xdrmblk_getmblk_def xdrmblk_getpos_def Let_def)
qed

lemma xdrmblk_blocks_witness:
  "\<exists>ms t'. xdrmblk_getmblk (x_priv (decode_init two_blocks)) = Done (True, Some (ms, 2), t') \<and> msg_data ms = [104, 105]"
proof -
  let ?t = "x_priv (decode_init two_blocks)"
  have "xb_inp ?t = be32 2 @ [104, 105]" "xbi_ok 6 ?t" "xb_phase 6 ?t = 0"
    by (simp_all add: two_blocks_start be32_def)
  then have "\<exists>ms t'. xdrmblk_getmblk ?t = Done (sint (2 :: 32 word) \<le> int (length [104, 105 :: byte]), Some (ms, 2), t')
      \<and> msg_data ms = [104, 105]"
    using conjunct2 [OF xdrmblk_blocks [of undefined undefined 2 6 ?t "[104, 105]"]] by blast
  then show ?thesis
    by simp
qed

section \<open>Limits\<close>

text \<open>
  Two operations fall short of the string of bytes. A peek fails at the end of a block though
  the next block has more. And the check of a new position compares addresses after the
  addition: a position below the data block, a large number as unsigned, is taken, and the
  next long is read from outside of the block.
\<close>

lemma peek_misses_next_block:
  assumes "xbi_ok r s" and "blk_data (hd (xb_chain s)) = []"
  shows "xdrmblk_control XDR_PEEK s = Done (None, False, s)"
proof -
  obtain m ms where "xb_chain s = m # ms" "unat (xb_handy s) = length (blk_data m)"
    using xbi_cases [OF assms(1)] by metis
  then have "xb_handy s = 0"
    using assms(2) by (simp add: unat_eq_zero)
  then show ?thesis
    by (simp add: xdrmblk_control_def)
qed

lemma setpos_wraps:
  assumes "xb_op s = XDR_DECODE" and c: "xb_chain s = m # ms" and "blk_ok m" and "4 \<le> unat (db_base m)"
    and "unat (db_base m) + length (db_mem m) < 4294967296" and "blk_off m (b_wptr m) < 2147483640"
  shows "\<exists>s'. xdrmblk_setpos (- 4) s = (True, s') \<and> xdrmblk_getlong s' = Overrun"
proof -
  let ?a = "db_base m - 4"
  have "unat (db_base m) + blk_off m (b_wptr m) < 4294967296"
    using assms(3,5) by (simp add: blk_ok_def)
  then have "unat (b_wptr m) = unat (db_base m) + blk_off m (b_wptr m)"
    using unat_word_ariths(1) [of "db_base m" "b_wptr m - db_base m"] by (simp add: blk_off_def)
  moreover have "unat ?a = unat (db_base m) - 4"
    using assms(4) by (simp add: unat_sub word_le_nat_alt)
  ultimately have ge: "\<not> ?a > b_wptr m"
    by (simp add: word_less_nat_alt)
  have "b_wptr m - ?a - 4 = b_wptr m - db_base m"
    by simp
  then have "unat (b_wptr m - ?a - 4) < 2147483648"
    using assms(6) by (simp add: blk_off_def)
  then have pos: "\<not> sint (b_wptr m - ?a - 4) < 0"
    by (simp add: sint_neg)
  have "unat (- 4 :: 32 word) = 4294967292"
    by simp
  then have out: "blk_get ?a 4 (m\<lparr>b_rptr := ?a\<rparr>) = None"
    using assms(3) by (simp add: blk_get_def blk_off_def blk_ok_def)
  let ?s = "(xb_set (m\<lparr>b_rptr := ?a\<rparr>) s)\<lparr>xb_handy := b_wptr m - ?a\<rparr>"
  have "xb_chain ?s = m\<lparr>b_rptr := ?a\<rparr> # ms"
    using c by (simp add: xb_set_def)
  from getlong_loop_step [OF this] have "xdrmblk_getlong ?s = Overrun"
    using pos out by (simp add: xdrmblk_getlong_def xb_set_def)
  moreover have "xdrmblk_setpos (- 4) s = (True, ?s)"
    using assms(1) c ge by (simp add: xdrmblk_setpos_def Let_def)
  ultimately show ?thesis
    by blast
qed

end
