(* ===== verification/Rpc.thy ===== *)
theory Rpc
  imports Rpc_Stream Xdr_Message
begin

text \<open>
  Messages of remote procedure calls in memory and in chains of message blocks: what one side
  sends the other side receives.
\<close>

section \<open>Sending and receiving\<close>

text \<open>
  \<open>proc\<close> writes \<open>m\<close> into a buffer of \<open>n\<close> bytes or more, and reads the bytes it wrote into \<open>m0\<close>, which
  becomes a message with the property \<open>P\<close>.
\<close>

definition mem_exchange :: "(xdr_mem, 'a) xdrproc \<Rightarrow> 'a \<Rightarrow> 'a \<Rightarrow> ('a \<Rightarrow> bool) \<Rightarrow> nat \<Rightarrow> bool" where
  "mem_exchange proc m m0 P n \<longleftrightarrow> (\<forall>addr addr' buf. n \<le> length buf \<longrightarrow> length buf < 2 ^ 31 \<longrightarrow>
     (\<exists>x m1 x'. proc (xdrmem_create addr buf XDR_ENCODE) m = Done (True, m, x) \<and> xdrmem_getpos (x_priv x) = word_of_nat n
        \<and> proc (xdrmem_create addr' (xm_mem (x_priv x)) XDR_DECODE) m0 = Done (True, m1, x') \<and> P m1
        \<and> xdrmem_getpos (x_priv x') = word_of_nat n))"

text \<open>
  The same with a chain of blocks that grows while it is written, and any message that begins with
  the bytes that were written, of which just these are read, whether or not the streams give
  access in line.
\<close>

definition mblk_exchange :: "(xdr_mblk, 'a) xdrproc \<Rightarrow> 'a \<Rightarrow> 'a \<Rightarrow> ('a \<Rightarrow> bool) \<Rightarrow> nat \<Rightarrow> bool" where
  "mblk_exchange proc m m0 P n \<longleftrightarrow> (\<forall>blk sz allocs. blk_fresh blk \<longrightarrow> b_wptr blk = db_base blk \<longrightarrow> allocs_ok sz allocs \<longrightarrow>
     n \<le> length (db_mem blk) + (if sz = 0 then 0 else alloc_room sz allocs) \<longrightarrow>
     (\<exists>x. proc (xdrmblk_init blk [] XDR_ENCODE sz allocs) m = Done (True, m, x)
        \<and> xdr_message (xb_message (x_priv x)) \<and> length (msg_data (xb_message (x_priv x))) = n
        \<and> (\<forall>ms rest. xdr_message ms \<longrightarrow> msg_data ms = msg_data (xb_message (x_priv x)) @ rest \<longrightarrow>
             (\<exists>m1 x'. proc (decode_init ms) m0 = Done (True, m1, x') \<and> P m1 \<and> xb_inp (x_priv x') = rest))))"

lemma mem_accepted:
  assumes dec: "\<And>M. xmi.accepts M proc v0 bs P" and m: "length (bs @ rest) < 2147483648"
  obtains v x where "proc (xdrmem_create addr (bs @ rest) XDR_DECODE) v0 = Done (True, v, x)" "P v"
    "xdrmem_getpos (x_priv x) = word_of_nat (length bs)"
proof -
  obtain v x where x: "proc (xdrmem_create addr (bs @ rest) XDR_DECODE) v0 = Done (True, v, x)"
    "xmi.handle (bs @ rest) x" "xm_inp (x_priv x) = rest" "P v"
    using xmi.acceptsD [OF dec decode_create [OF m] create_ok(4) [OF m]] .
  have ok: "xm_ok (bs @ rest) (x_priv x)"
    by (rule xmi.handleD(1) [OF x(2)])
  then have "xm_off (x_priv x) + unat (xm_handy (x_priv x)) = length bs + length rest"
    by (auto simp: xm_ok_def)
  then have "xm_off (x_priv x) = length bs"
    using xm_pos(3) [OF ok] x(3) by simp
  then show thesis
    using that x(1,4) xm_pos(2) [OF ok] by simp
qed

lemma mem_exchangeI:
  assumes enc: "\<And>M. xmo.encodes_in M proc m n B" and dec: "\<And>M bs. bs \<in> B \<Longrightarrow> xmi.accepts M proc m0 bs P"
  shows "mem_exchange proc m m0 P n"
  unfolding mem_exchange_def
proof (intro allI impI)
  fix addr addr' and buf :: "byte list" assume l: "n \<le> length buf" and m: "length buf < 2 ^ 31"
  have m': "length buf < 2147483648"
    using m by simp
  have r: "n \<le> xm_room (x_priv (xdrmem_create addr buf XDR_ENCODE))"
    using l create_ok(2) [OF m'] by simp
  obtain x bs where x: "proc (xdrmem_create addr buf XDR_ENCODE) m = Done (True, m, x)" "xmo.handle buf x" "bs \<in> B" "length bs = n"
    "xm_out (x_priv x) = bs"
    using enc [of buf, unfolded xmo.encodes_in_def, rule_format, OF encode_create [OF m'] r] create_ok(3) [OF m'] by auto
  note e = mem_encoded [OF x(2,5)]
  have "length (bs @ drop (length bs) buf) < 2147483648"
    using m' l x(4) by simp
  from mem_accepted [OF dec [OF x(3)] this, of addr']
  show "\<exists>x m1 x'. proc (xdrmem_create addr buf XDR_ENCODE) m = Done (True, m, x) \<and> xdrmem_getpos (x_priv x) = word_of_nat n
      \<and> proc (xdrmem_create addr' (xm_mem (x_priv x)) XDR_DECODE) m0 = Done (True, m1, x') \<and> P m1 \<and> xdrmem_getpos (x_priv x') = word_of_nat n"
    using x(1,4) e by metis
qed

lemma mblk_exchangeI:
  assumes enc: "xbo.encodes_in proc m n B" and dec: "\<And>r bs. bs \<in> B \<Longrightarrow> xbi.accepts r proc m0 bs P" and n: "4 dvd n" "n < 2147483648"
  shows "mblk_exchange proc m m0 P n"
  unfolding mblk_exchange_def
proof (intro allI impI)
  fix blk sz allocs assume f: "blk_fresh blk" "b_wptr blk = db_base blk" "allocs_ok sz allocs"
    and r: "n \<le> length (db_mem blk) + (if sz = 0 then 0 else alloc_room sz allocs)"
  note i = encode_init_ok [OF f]
  have r': "4 dvd length (xb_out (x_priv (xdrmblk_init blk [] XDR_ENCODE sz allocs)))"
    "n \<le> xb_room (x_priv (xdrmblk_init blk [] XDR_ENCODE sz allocs))"
    using i(2,3) n(2) r by (simp_all add: xb_room_def)
  obtain x bs where x: "proc (xdrmblk_init blk [] XDR_ENCODE sz allocs) m = Done (True, m, x)" "xbo.handle x" "bs \<in> B" "length bs = n"
    "xb_out (x_priv x) = bs"
    using enc [unfolded xbo.encodes_in_def, rule_format, OF i(1) r'] i(2) by auto
  have msg: "xdr_message (xb_message (x_priv x))" "msg_data (xb_message (x_priv x)) = bs"
    using xbo_message [OF xbo.handleD(1) [OF x(2)]] x(4,5) n by simp_all
  have "\<exists>m1 x'. proc (decode_init ms) m0 = Done (True, m1, x') \<and> P m1 \<and> xb_inp (x_priv x') = rest"
    if "xdr_message ms" "msg_data ms = bs @ rest" for ms rest
  proof -
    note d = decode_init_ok [OF that(1)]
    show ?thesis
      by (rule xbi.acceptsD [OF dec [OF x(3)] d(1,3)]) (use d(2) that(2) in auto)
  qed
  with x(1,4) msg show "\<exists>x. proc (xdrmblk_init blk [] XDR_ENCODE sz allocs) m = Done (True, m, x)
      \<and> xdr_message (xb_message (x_priv x)) \<and> length (msg_data (xb_message (x_priv x))) = n
      \<and> (\<forall>ms rest. xdr_message ms \<longrightarrow> msg_data ms = msg_data (xb_message (x_priv x)) @ rest \<longrightarrow>
           (\<exists>m1 x'. proc (decode_init ms) m0 = Done (True, m1, x') \<and> P m1 \<and> xb_inp (x_priv x') = rest))"
    by auto
qed

section \<open>Calls\<close>

lemma rpc_call_memory:
  assumes "call_ok m" and "call_room m0" and "\<And>n. length (mem n) = n"
  shows "mem_exchange (xdr_callmsg mem) m m0 (call_same m) (call_size m)"
  by (rule mem_exchangeI [OF xm.snk.callmsg_encodes [OF assms(1)] xm.src.callmsg_accepts [OF assms]])

text \<open>
  C10. A call, with a credential and a verifier of at most 400 bytes each, that is encoded into
  message blocks is decoded to a call that says the same:
  transaction id, program, version and procedure, flavor and length of credential and verifier and as many
  bytes of them arrive, from every message that begins with the bytes of the call and whose
  blocks, the last one excepted, hold whole units of four bytes. The message that is decoded
  into provides at least 400 bytes each for credential and verifier, as a server does, or none
  at all. It does not matter what is written or read in line, how many blocks there are, and
  what the filler bytes, which \<open>xdr_callmsg\<close> does not write in line, happen to be. Exactly the
  bytes of the call are consumed.
\<close>

theorem rpc_call_exchange:
  assumes "call_ok m" and "call_room m0" and "\<And>n. length (mem n) = n"
  shows "mblk_exchange (xdr_callmsg mem) m m0 (call_same m) (call_size m)"
proof (rule mblk_exchangeI [OF xb.snk.callmsg_encodes [OF assms(1)] xb.src.callmsg_accepts [OF assms]])
  have "auth_ok (cb_cred (rm_call m))" "auth_ok (cb_verf (rm_call m))"
    using assms(1) by (simp_all add: call_ok_def Let_def)
  from auth_size [OF this(1)] auth_size [OF this(2)] show "4 dvd call_size m" "call_size m < 2147483648"
    by (simp_all add: call_size_def)
qed

text \<open>The message a server decodes into, and a message with a call.\<close>

definition null_auth :: opaque_auth where
  "null_auth = \<lparr>oa_flavor = 0, oa_base = Null, oa_length = 0\<rparr>"

definition server_msg :: "(xdr_mblk, 32 word) rpc_msg" where
  "server_msg = (let area = \<lparr>oa_flavor = 0, oa_base = Ptr (replicate 400 0), oa_length = 0\<rparr> in
     \<lparr>rm_xid = 0, rm_direction = 0,
      rm_ru = RM_cmb \<lparr>cb_rpcvers = 0, cb_prog = 0, cb_vers = 0, cb_proc = 0, cb_cred = area, cb_verf = area\<rparr>\<rparr>)"

definition sample_call :: "(xdr_mblk, 32 word) rpc_msg" where
  "sample_call = \<lparr>rm_xid = 7, rm_direction = CALL,
     rm_ru = RM_cmb \<lparr>cb_rpcvers = RPC_MSG_VERSION, cb_prog = 100003, cb_vers = 2, cb_proc = 1,
       cb_cred = \<lparr>oa_flavor = 1, oa_base = Ptr [1, 2, 3], oa_length = 3\<rparr>, cb_verf = null_auth\<rparr>\<rparr>"

lemma server_msg_room: "call_room server_msg"
  by (simp add: server_msg_def call_room_def auth_room_def Let_def)

lemma sample_call_ok: "call_ok sample_call" "call_size sample_call = 44"
  by (simp_all add: sample_call_def call_ok_def auth_ok_def MAX_AUTH_BYTES_def null_auth_def call_size_def RNDUP_u_def)

theorem rpc_call_exchange_witness:
  "mblk_exchange (xdr_callmsg (\<lambda>n. replicate n 0)) sample_call server_msg (call_same sample_call) 44"
  using rpc_call_exchange [OF sample_call_ok(1) server_msg_room, of "\<lambda>n. replicate n 0"] by (simp add: sample_call_ok(2))

section \<open>Replies\<close>

text \<open>
  C12. A reply that is encoded into message blocks is decoded to the same reply, from every message
  that begins with its bytes and whose blocks, the last one excepted, hold whole units of
  four bytes. If the call was accepted, the verifier and the status arrive, with the results, the
  supported versions, or nothing more, as the status says; if it was denied, the versions or the
  reason. The results arrive if the filter of the sender encodes them, and the one of the
  receiver decodes them, as the same bytes. The receiver provides a pointer to the variable of
  the results, and none for the verifier; what its message held in the other members of the
  unions is overwritten. This holds in line or not.
\<close>

theorem rpc_reply_exchange:
  fixes m m0
  defines "ar \<equiv> rp_acpt (rm_reply m)"
  assumes "reply_ok m" and "reply_room m0 w q" and "\<And>n. length (mem n) = n"
    and results: "rp_stat (rm_reply m) = MSG_ACCEPTED \<Longrightarrow> ar_stat ar = SUCCESS \<Longrightarrow>
      \<exists>p. ar_proc ar = Some p \<and> xbo.encodes p (ar_where ar) res \<and> (\<forall>r. xbi.decodes r q w res (ar_where ar))"
    and "length (rep_reply res m) < 2 ^ 31"
  shows "mblk_exchange (xdr_replymsg mem) m m0 (\<lambda>m1. m1 = reply_into m m0) (length (rep_reply res m))"
proof -
  note k = reply_okD [OF assms(2)] and room = reply_roomD [OF assms(3)]
  have enc: "xbo.encodes (xdr_replymsg mem) m (rep_reply res m)"
    by (rule xb.snk.replymsg_encodes [OF assms(2)], rule xbo.accepted_rest_encodes) (use results k(6,7) in \<open>auto simp: ar_def\<close>)
  have dec: "xbi.decodes r (xdr_replymsg mem) m0 (rep_reply res m) (reply_into m m0)" for r
    by (rule xb.src.replymsg_decodes [OF assms(2) room(1) assms(4)], rule xbi.accepted_rest_decodes)
      (use results room(2,3) in \<open>auto simp: ar_def\<close>)
  have "xbo.encodes_in (xdr_replymsg mem) m (length (rep_reply res m)) {rep_reply res m}"
    by (rule xbo.encodes_one_in [OF enc])
  from mblk_exchangeI [OF this] show ?thesis
    using dec xbo.encodes_length [OF enc] assms(6) by (simp add: xbi.decodes_accepts)
qed

text \<open>The message a client decodes into, and a reply.\<close>

definition client_msg :: "(xdr_mblk, 32 word) rpc_msg" where
  "client_msg = \<lparr>rm_xid = 0, rm_direction = 0,
     rm_ru = RM_rmb \<lparr>rp_stat = 0, rp_ru = RP_ar \<lparr>ar_verf = null_auth, ar_stat = 0, ar_ru = AR_results 0 (Some xdr_u_long)\<rparr>\<rparr>\<rparr>"

definition sample_reply :: "(xdr_mblk, 32 word) rpc_msg" where
  "sample_reply = \<lparr>rm_xid = 7, rm_direction = REPLY,
     rm_ru = RM_rmb \<lparr>rp_stat = MSG_ACCEPTED, rp_ru = RP_ar \<lparr>ar_verf = null_auth, ar_stat = SUCCESS, ar_ru = AR_results 42 (Some xdr_u_long)\<rparr>\<rparr>\<rparr>"

lemma client_msg_room: "reply_room client_msg 0 xdr_u_long"
  by (simp add: client_msg_def reply_room_def null_auth_def)

lemma sample_reply_ok: "reply_ok sample_reply" "length (rep_reply (be32 42) sample_reply) = 28"
  "reply_into sample_reply client_msg = sample_reply"
  by (simp_all add: sample_reply_def client_msg_def reply_ok_def auth_ok_def null_auth_def rep_reply_def rep_auth_def auth_pad_def
      pad_def rep_accepted_rest_def reply_into_def accepted_into_def Let_def SUCCESS_def PROG_MISMATCH_def)

lemma sample_reply_sel: "rp_stat (rm_reply sample_reply) = MSG_ACCEPTED" "ar_stat (rp_acpt (rm_reply sample_reply)) = SUCCESS"
  "oa_length (ar_verf (rp_acpt (rm_reply sample_reply))) = 0" "ar_proc (rp_acpt (rm_reply sample_reply)) = Some xdr_u_long"
  "ar_where (rp_acpt (rm_reply sample_reply)) = 42"
  by (simp_all add: sample_reply_def null_auth_def)

theorem rpc_reply_exchange_witness:
  "mblk_exchange (xdr_replymsg (\<lambda>n. replicate n 0)) sample_reply client_msg (\<lambda>m1. m1 = sample_reply) 28"
proof -
  have "mblk_exchange (xdr_replymsg (\<lambda>n. replicate n 0)) sample_reply client_msg (\<lambda>m1. m1 = reply_into sample_reply client_msg)
      (length (rep_reply (be32 42) sample_reply))"
    by (rule rpc_reply_exchange [OF sample_reply_ok(1) client_msg_room])
      (simp_all add: sample_reply_ok(2) sample_reply_sel xbo.u_long_encodes xbi.u_long_decodes)
  then show ?thesis
    by (simp only: sample_reply_ok)
qed

text \<open>
  C28. The header and the body of a reply to a call that was accepted and performed, encoded one
  after the other into message blocks, are the reply that \<open>xdr_replymsg\<close> encodes, and that it decodes
  as such, if the verifier consists of whole units of four bytes and there is a filter for the
  results, which the filter of the receiver decodes; in line or not. With another status the body
  is not what \<open>xdr_replymsg\<close> writes.
\<close>

theorem rpc_reply_in_parts:
  fixes m m0
  defines "ar \<equiv> rp_acpt (rm_reply m)"
  assumes "reply_ok m" and "rp_stat (rm_reply m) = MSG_ACCEPTED" and "ar_stat ar = SUCCESS" and "4 dvd oa_length (ar_verf ar)"
    and "ar_proc ar = Some p" and "xbo.encodes p (ar_where ar) res"
    and "reply_room m0 w q" and "\<And>r. xbi.decodes r q w res (ar_where ar)" and "\<And>n. length (mem n) = n"
  shows "xbo.encodes (xdr_and (xdr_replymsg_hdr mem) xdr_replymsg_body) m (rep_reply res m)
    \<and> xbo.encodes (xdr_replymsg mem) m (rep_reply res m)
    \<and> (\<forall>r. xbi.decodes r (xdr_replymsg mem) m0 (rep_reply res m) (reply_into m m0))"
proof (intro conjI allI)
  let ?oa = "ar_verf ar"
  note k = reply_okD [OF assms(2)] and room = reply_roomD [OF assms(8)]
  have a: "auth_ok ?oa" "is_acpt (rp_ru (rm_reply m))" "is_results (ar_ru ar)"
    using k(4-6) assms(3,4) by (simp_all add: ar_def)
  have "4 dvd unat (oa_length ?oa)"
    using assms(5) by (auto elim!: dvdE simp: unat_word_ariths dvd_mod)
  then have z: "auth_pad ?oa = 0"
    by (simp add: auth_pad_def pad_zero)
  have "rep_reply res m = (be32 (rm_xid m) @ be32 REPLY @ be32 MSG_ACCEPTED @ rep_auth [] ?oa @ be32 (ar_stat ar)) @ res"
    using assms(3,4) k(1) z by (simp add: rep_reply_def rep_accepted_rest_def Let_def ar_def)
  then show "xbo.encodes (xdr_and (xdr_replymsg_hdr mem) xdr_replymsg_body) m (rep_reply res m)"
    using xbo.encodes_and [OF xb.snk.replymsg_hdr_encodes xb.snk.replymsg_body_encodes] k(1,2) a z assms(3,6,7) by (simp add: ar_def)
  show "xbo.encodes (xdr_replymsg mem) m (rep_reply res m)"
    by (rule xb.snk.replymsg_encodes [OF assms(2)], rule xbo.accepted_rest_encodes) (use a(3) assms(4,6,7) in \<open>auto simp: ar_def SUCCESS_def PROG_MISMATCH_def\<close>)
  show "xbi.decodes r (xdr_replymsg mem) m0 (rep_reply res m) (reply_into m m0)" for r
    by (rule xb.src.replymsg_decodes [OF assms(2) room(1) assms(10)], rule xbi.accepted_rest_decodes)
      (use room(2,3) assms(9) in \<open>auto simp: ar_def\<close>)
qed

theorem rpc_reply_in_parts_witness:
  "xbo.encodes (xdr_and (xdr_replymsg_hdr (\<lambda>n. replicate n 0)) xdr_replymsg_body) sample_reply (rep_reply (be32 42) sample_reply)"
  using rpc_reply_in_parts [OF sample_reply_ok(1), of xdr_u_long "be32 42" client_msg 0 xdr_u_long "\<lambda>n. replicate n 0"]
  by (simp add: sample_reply_sel client_msg_room xbo.u_long_encodes xbi.u_long_decodes)

text \<open>All bytes of a buffer can be had in line.\<close>

lemma inline_whole:
  assumes "length buf < 2147483648" and "unat len = length buf"
  obtains b x where "XDR_INLINE len (xdrmem_create addr buf XDR_ENCODE) = (Some b, x)" "xm.snk.cursor buf x b [] [] (length buf)"
proof -
  let ?x = "xdrmem_create addr buf XDR_ENCODE"
  obtain r s' where i: "xdrmem_inline len (x_priv ?x) = (r, s')"
    by fastforce
  note c = create_ok [OF assms(1), of addr XDR_ENCODE]
  have "unat (xm_handy (x_priv ?x)) = length buf"
    using c(2) by (simp add: xm_room_def)
  with xm_inline_cases [OF c(1) _ i] have some: "fst (XDR_INLINE len ?x) \<noteq> None"
    using assms i by (simp add: XDR_INLINE_def xdrmem_create_def xdrmem_ops_def)
  have "unat len < 2 ^ 31"
    using assms by simp
  then show thesis
    by (rule xm.snk.XDR_INLINE_put [OF encode_create(1) [OF assms(1), of addr]]) (use some c(3) assms(2) that in simp_all)
qed

text \<open>A long at a distance \<open>d\<close> behind the bytes written so far that reaches beyond the end of the buffer.\<close>

lemma put_beyond:
  assumes "xm.snk.cursor buf x b pre w k" and "length buf < length pre + length w + unat d + 4" and "length pre + length w + unat d < 4294967296"
  shows "IXDR_PUT_LONG v (b + d) x = Overrun"
proof -
  have h: "xmo.handle buf x" "b = xm_base (x_priv x) + word_of_nat (length pre + length w)"
    using assms(1) by (auto simp: xm.snk.cursor_def xm_win_def)
  have "unat (b + d - xm_base (x_priv x)) = unat (word_of_nat (length pre + length w) + d)"
    using h(2) by (simp add: algebra_simps)
  also have "\<dots> = length pre + length w + unat d"
    using assms(3) by (simp add: unat_word_ariths unsigned_of_nat take_bit_nat_eq_self)
  finally have "xm_store (b + d) (be32 v) (x_priv x) = Overrun"
    using assms(2) xmo.handleD(1) [OF h(1)] by (simp add: xm_store_def xm_ok_def)
  then show ?thesis
    using xmo.handleD(2) [OF h(1)] by (simp add: IXDR_PUT_LONG_def xdrmem_ops_def)
qed

text \<open>
  C31. Otherwise the header does not fit the bytes it asks the stream for: the length of the verifier
  is not rounded up there, but the status is written behind the verifier rounded up. In a
  buffer that has just the bytes that were asked for, the status is written beyond its end.
\<close>

theorem replymsg_hdr_overrun:
  fixes m :: "(xdr_mem, 'r) rpc_msg"
  defines "oa \<equiv> ar_verf (rp_acpt (rm_reply m))"
  assumes "reply_ok m" and "rp_stat (rm_reply m) = MSG_ACCEPTED" and "\<not> 4 dvd unat (oa_length oa)" and "length buf = 24 + unat (oa_length oa)"
  shows "xdr_replymsg_hdr mem (xdrmem_create addr buf XDR_ENCODE) m = Overrun"
proof -
  let ?n = "oa_length oa" and ?x = "xdrmem_create addr buf XDR_ENCODE"
  have ok: "rm_direction m = REPLY" "auth_ok oa"
    using reply_okD(1,5) [OF assms(2)] assms(3) by (simp_all add: oa_def)
  note a = auth_okD [OF ok(2)]
  have l: "length buf < 2147483648" "unat (24 + ?n) = 24 + unat ?n"
    using a(2) assms(5) by (simp_all add: unat_word_ariths)
  have n0: "?n \<noteq> 0" "unat (RNDUP_u ?n) = unat ?n + pad (unat ?n)" "0 < pad (unat ?n)"
    using assms(4) a(2) pad_zero [of "unat ?n"] by (auto simp: unat_RNDUP_u)
  obtain b x where x: "XDR_INLINE (24 + ?n) ?x = (Some b, x)" "xm.snk.cursor buf x b [] [] (24 + unat ?n)"
    using inline_whole [OF l(1), of "24 + ?n" addr] assms(5) l(2) by metis
  let ?vs = "[rm_xid m, rm_direction m, rp_stat (rm_reply m), oa_flavor oa, ?n]"
  have "4 * length ?vs \<le> 24 + unat ?n"
    by simp
  from xm.snk.putsD [OF xm.snk.puts_LONGS x(2) this] obtain x1 w where p: "IXDR_PUT_LONGS ?vs b x = Done (b + word_of_nat (4 * length ?vs), x1)"
    "w \<in> {concat (map be32 ?vs)}" "length w = 4 * length ?vs"
    "xm.snk.cursor buf x1 (b + word_of_nat (4 * length ?vs)) [] ([] @ w) (24 + unat ?n - 4 * length ?vs)"
    "xm_room (x_priv x1) = xm_room (x_priv x)" .
  have x1: "IXDR_PUT_LONGS ?vs b x = Done (b + 20, x1)" "length w = 20" "xm.snk.cursor buf x1 (b + 20) [] w (4 + unat ?n)"
    using p(1,3,4) by (simp_all add: add.commute del: IXDR_PUT_LONGS.simps)
  have "unat ?n \<le> 4 + unat ?n"
    by simp
  from xm.snk.putsD [OF xm.snk.puts_bcopy [OF a(1)] x1(3) this] obtain x2 where x2: "ixdr_bcopy (oa_base oa) (b + 20) ?n x1 = Done x2"
    "xm.snk.cursor buf x2 (b + 20 + ?n) [] (w @ bytes_at (oa_base oa)) 4"
    by auto
  have eq: "b + 20 + RNDUP_u ?n = b + 20 + ?n + (RNDUP_u ?n - ?n)"
    by simp
  have "IXDR_PUT_LONG st (b + 20 + RNDUP_u ?n) x2 = Overrun" for st
    unfolding eq by (rule put_beyond [OF x2(2), of "RNDUP_u ?n - ?n"]) (use x1(2) a(1,2) n0 assms(5) pad_bound [of "unat ?n"] unat_sub_if' [of "RNDUP_u ?n" ?n] in simp_all)
  then show ?thesis
    using assms(3) ok(1) x(1) x1(1) x2(1) n0(1)
    by (simp add: xdr_replymsg_hdr_def replymsg_hdr_put_def oa_def [symmetric] RNDUP_u_def xdrmem_create_def del: IXDR_PUT_LONGS.simps)
qed

text \<open>A verifier of one byte, in a buffer of 25 bytes.\<close>

definition odd_reply :: "(xdr_mem, 32 word) rpc_msg" where
  "odd_reply = \<lparr>rm_xid = 7, rm_direction = REPLY, rm_ru = RM_rmb \<lparr>rp_stat = MSG_ACCEPTED,
     rp_ru = RP_ar \<lparr>ar_verf = \<lparr>oa_flavor = 0, oa_base = Ptr [9], oa_length = 1\<rparr>, ar_stat = SUCCESS, ar_ru = AR_results 42 (Some xdr_u_long)\<rparr>\<rparr>\<rparr>"

theorem replymsg_hdr_overrun_witness:
  "xdr_replymsg_hdr (\<lambda>n. replicate n 0) (xdrmem_create 4096 (replicate 25 0) XDR_ENCODE) odd_reply = Overrun"
  by (rule replymsg_hdr_overrun) (simp_all add: odd_reply_def reply_ok_def auth_ok_def MAX_AUTH_BYTES_def SUCCESS_def PROG_MISMATCH_def)

text \<open>The verifier of a reply that was decoded is freed.\<close>

lemma free_verifier:
  assumes "reply_ok m" and "rp_stat (rm_reply m) = MSG_ACCEPTED" and "ar_stat (rp_acpt (rm_reply m)) = SUCCESS"
  shows "\<exists>xdrs' m'. xdr_rpc_free_verifier mem xdrs m = Done (True, m', xdrs') \<and> oa_base (ar_verf (rp_acpt (rm_reply m'))) = Null
    \<and> x_priv xdrs' = x_priv xdrs"
proof (cases "oa_base (ar_verf (rp_acpt (rm_reply m))) = Null")
  case False
  moreover have "rm_direction m = REPLY"
    by (rule reply_okD(1) [OF assms(1)])
  ultimately show ?thesis
    using assms(2,3) by (simp add: xdr_rpc_free_verifier_def Let_def in_reply_def in_acpt_def xdr_field_def xdr_opaque_auth_def oa_fields_def
        xdr_and_def xdr_enum_def xdr_long_def xdr_bytes_def xdr_u_int_def xdr_u_long_def)
qed (simp add: xdr_rpc_free_verifier_def)

section \<open>Errors\<close>

text \<open>The status that the protocol gives to a reply.\<close>

definition reply_status :: "('s, 'r) rpc_msg \<Rightarrow> clnt_stat" where
  "reply_status m =
     (if rp_stat (rm_reply m) = MSG_ACCEPTED then
        (let st = ar_stat (rp_acpt (rm_reply m)) in
         if st = SUCCESS then RPC_SUCCESS else if st = PROG_UNAVAIL then RPC_PROGUNAVAIL
         else if st = PROG_MISMATCH then RPC_PROGVERSMISMATCH else if st = PROC_UNAVAIL then RPC_PROCUNAVAIL
         else if st = GARBAGE_ARGS then RPC_CANTDECODEARGS else if st = SYSTEM_ERR then RPC_SYSTEMERROR else RPC_FAILED)
      else if rj_stat (rp_rjct (rm_reply m)) = RPC_MISMATCH then RPC_VERSMISMATCH else RPC_AUTHERROR)"

text \<open>
  C30. The error that is set for a reply as it was received is the one of the protocol, with one
  exception: a call that was denied because of the version of the protocol is reported as an
  unspecified failure. The two words that follow the status in the error hold the reason of an
  authentication error or the supported versions of the program; for an unspecified failure they
  hold the status of the reply and the one that goes with it, so that the versions that came with
  a denial, which would be in the same words, are not passed on; otherwise they keep what they held.
\<close>

theorem seterr_reply_received:
  fixes m m0 e
  defines "e' \<equiv> seterr_reply (reply_into m m0) e" and "r \<equiv> rm_reply m"
  assumes "reply_ok m"
  shows "re_status e' = (if reply_status m = RPC_VERSMISMATCH then RPC_FAILED else reply_status m)
    \<and> (if re_status e' = RPC_AUTHERROR then re_why e' = rj_why (rp_rjct r)
       else if re_status e' = RPC_PROGVERSMISMATCH then re_vers_low e' = ar_vers_low (rp_acpt r) \<and> re_vers_high e' = ar_vers_high (rp_acpt r)
       else if reply_status m = RPC_VERSMISMATCH then re_lb_s1 e' = MSG_DENIED \<and> re_lb_s2 e' = RPC_MISMATCH
       else if re_status e' = RPC_FAILED then re_lb_s1 e' = MSG_ACCEPTED \<and> re_lb_s2 e' = ar_stat (rp_acpt r)
       else re_ru0 e' = re_ru0 e \<and> re_ru1 e' = re_ru1 e)"
proof (cases "rp_stat r = MSG_ACCEPTED")
  case True
  then show ?thesis
    by (auto simp: e'_def r_def seterr_reply_def reply_status_def accepted_def reply_into_def accepted_into_def Let_def rpc_enums)
next
  case False
  then have "rp_stat r = MSG_DENIED" "rj_stat (rp_rjct r) \<in> {RPC_MISMATCH, AUTH_ERROR}"
    using reply_okD(9) [OF assms(3)] by (simp_all add: r_def)
  then show ?thesis
    by (auto simp: e'_def r_def seterr_reply_def reply_status_def rejected_def reply_into_def rejected_into_def Let_def rpc_enums)
qed

definition version_denied :: "(xdr_mblk, 32 word) rpc_msg" where
  "version_denied = \<lparr>rm_xid = 7, rm_direction = REPLY,
     rm_ru = RM_rmb \<lparr>rp_stat = MSG_DENIED, rp_ru = RP_dr \<lparr>rj_stat = RPC_MISMATCH, rj_ru0 = 3, rj_ru1 = 4\<rparr>\<rparr>\<rparr>"

theorem seterr_reply_received_witness:
  "re_status (seterr_reply (reply_into version_denied client_msg) \<lparr>re_status = RPC_SUCCESS, re_ru0 = 0, re_ru1 = 0\<rparr>) = RPC_FAILED"
proof -
  have ok: "reply_ok version_denied"
    by (simp add: version_denied_def reply_ok_def)
  have "reply_status version_denied = RPC_VERSMISMATCH"
    by (simp add: version_denied_def reply_status_def rpc_enums)
  then show ?thesis
    using conjunct1 [OF seterr_reply_received [OF ok]] by simp
qed

end
