(* ===== verification/Rpc_Safe.thy ===== *)
theory Rpc_Safe
  imports Rpc
begin

text \<open>
  Decoding messages from input that may hold anything: it ends without an access outside of the
  stream and of the memory that was allocated or provided, and what it accepts is a proper message.
\<close>

section \<open>Filters on any input\<close>

text \<open>The parts of a well-formed reply.\<close>

definition accepted_ok :: "('s, 'r) accepted_reply \<Rightarrow> bool" where
  "accepted_ok ar \<longleftrightarrow> auth_ok (ar_verf ar)
     \<and> (ar_stat ar = SUCCESS \<longrightarrow> is_results (ar_ru ar)) \<and> (ar_stat ar = PROG_MISMATCH \<longrightarrow> is_versions (ar_ru ar))"

definition body_ok :: "('s, 'r) reply_body \<Rightarrow> bool" where
  "body_ok r \<longleftrightarrow> (case rp_ru r of RP_ar ar \<Rightarrow> rp_stat r = MSG_ACCEPTED \<and> accepted_ok ar
    | RP_dr rr \<Rightarrow> rp_stat r = MSG_DENIED \<and> rj_stat rr \<in> {RPC_MISMATCH, AUTH_ERROR})"

lemma reply_ok_body: "reply_ok (m\<lparr>rm_ru := RM_rmb r\<rparr>) \<longleftrightarrow> rm_direction m = REPLY \<and> body_ok r"
  by (simp add: reply_ok_def body_ok_def accepted_ok_def split: reply_ru.split)

context xdr_source
begin

text \<open>
  A filter ends; if it succeeds, the stream is at the beginning of a unit again and \<open>P\<close> holds of
  the value. It is safe if it ends so from any input.
\<close>

definition ends :: "('b \<Rightarrow> bool) \<Rightarrow> (bool \<times> 'b \<times> 's xdr) outcome \<Rightarrow> bool" where
  "ends P r \<longleftrightarrow> (\<exists>ok w x. r = Done (ok, w, x) \<and> (ok \<longrightarrow> handle x \<and> phase (x_priv x) = 0 \<and> P w))"

definition safe :: "('s, 'b) xdrproc \<Rightarrow> 'b \<Rightarrow> ('b \<Rightarrow> bool) \<Rightarrow> bool" where
  "safe proc v P \<longleftrightarrow> (\<forall>xdrs. handle xdrs \<longrightarrow> phase (x_priv xdrs) = 0 \<longrightarrow> ends P (proc xdrs v))"

lemma ends_Done [simp]: "ends P (Done (ok, w, x)) \<longleftrightarrow> (ok \<longrightarrow> handle x \<and> phase (x_priv x) = 0 \<and> P w)"
  by (simp add: ends_def)

lemma ends_bind:
  assumes "ends P r" and "\<And>w x. handle x \<Longrightarrow> phase (x_priv x) = 0 \<Longrightarrow> P w \<Longrightarrow> ends Q (f (True, w, x))"
    and "\<And>w x. ends Q (f (False, w, x))"
  shows "ends Q (bind_outcome r f)"
proof -
  obtain ok w x where "r = Done (ok, w, x)" "ok \<longrightarrow> handle x \<and> phase (x_priv x) = 0 \<and> P w"
    using assms(1) unfolding ends_def by (elim exE conjE)
  then show ?thesis
    using assms(2,3) by (cases ok) simp_all
qed

lemma safeD: "safe proc v P \<Longrightarrow> handle xdrs \<Longrightarrow> phase (x_priv xdrs) = 0 \<Longrightarrow> ends P (proc xdrs v)"
  by (simp add: safe_def)

lemma safeI: "(\<And>xdrs. handle xdrs \<Longrightarrow> phase (x_priv xdrs) = 0 \<Longrightarrow> ends P (proc xdrs v)) \<Longrightarrow> safe proc v P"
  by (simp add: safe_def)

lemma safe_mono: "safe proc v P \<Longrightarrow> (\<And>w. P w \<Longrightarrow> Q w) \<Longrightarrow> safe proc v Q"
  unfolding safe_def ends_def by meson

lemma safe_cong: "safe q v P \<Longrightarrow> (\<And>xdrs. handle xdrs \<Longrightarrow> p xdrs v = q xdrs v) \<Longrightarrow> safe p v P"
  by (simp add: safe_def)

lemma safe_and:
  assumes "safe p v P" and "\<And>w. P w \<Longrightarrow> safe q w Q"
  shows "safe (xdr_and p q) v Q"
  unfolding xdr_and_def by (rule safeI, rule ends_bind [OF safeD [OF assms(1)]]) (use safeD [OF assms(2)] in simp_all)

lemma safe_field:
  assumes "safe p (get v) P" and "\<And>w. P w \<Longrightarrow> Q (upd w v)"
  shows "safe (xdr_field p get upd) v Q"
  unfolding xdr_field_def by (rule safeI, rule ends_bind [OF safeD [OF assms(1)]]) (use assms(2) in simp_all)

lemma safe_check_and: "(c v \<Longrightarrow> safe q v P) \<Longrightarrow> safe (xdr_and (xdr_check c) q) v P"
  by (rule safeI) (auto simp: xdr_and_def xdr_check_def intro: safeD)

lemma safe_u_long: "safe xdr_u_long v (\<lambda>_. True)"
proof (rule safeI)
  fix xdrs assume h: "handle xdrs" "phase (x_priv xdrs) = 0"
  show "ends (\<lambda>_. True) (xdr_u_long xdrs v)"
  proof (cases "length (inp (x_priv xdrs)) < 4")
    case True
    then obtain s' where "x_getlong ops (x_priv xdrs) = Done (None, s')"
      using getlong_short [OF handleD(1) [OF h(1)] h(2)] by blast
    then have "xdr_u_long xdrs v = Done (False, v, xdrs\<lparr>x_priv := s'\<rparr>)"
      using handleD(2) [OF h(1)] h(1) by (simp add: xdr_u_long_def XDR_GETLONG_def)
    then show ?thesis
      by simp
  next
    case False
    then have "inp (x_priv xdrs) = be32 (of_be32 (take 4 (inp (x_priv xdrs)))) @ drop 4 (inp (x_priv xdrs))"
      by (simp add: be32_of_be32)
    then show ?thesis
      by (rule decodesD [OF u_long_decodes [of v] h]) simp
  qed
qed

lemma safe_enum: "safe xdr_enum v (\<lambda>_. True)"
  by (rule safe_cong [OF safe_u_long]) (simp add: xdr_enum_def xdr_long_def xdr_u_long_def)

lemma safe_opaque:
  assumes "unat n \<le> length cp" and "unat n < 2147483648"
  shows "safe (xdr_opaque n) cp (\<lambda>bs. length bs = length cp)"
proof (rule safeI)
  fix xdrs assume h: "handle xdrs" "phase (x_priv xdrs) = 0"
  let ?i = "inp (x_priv xdrs)" let ?k = "unat n + pad (unat n)"
  show "ends (\<lambda>bs. length bs = length cp) (xdr_opaque n xdrs cp)"
  proof (cases "length ?i < ?k")
    case True
    then obtain cp' x where "xdr_opaque n xdrs cp = Done (False, cp', x)"
      using opaque_short [OF h(1) True assms(1)] assms(2) by auto
    then show ?thesis
      by simp
  next
    case False
    have "?i = (take (unat n) ?i @ take (pad (unat n)) (drop (unat n) ?i)) @ drop ?k ?i"
      using append_take_drop_id [of "pad (unat n)" "drop (unat n) ?i"] by (simp add: add.commute)
    then have i: "?i = (take (unat n) ?i @ take (pad (unat n)) (drop (unat n) ?i)) @ drop ?k ?i"
      by simp
    have l: "length (take (unat n) ?i) = unat n" "length (take (pad (unat n)) (drop (unat n) ?i)) = pad (unat n)"
      using False by simp_all
    from decodesD [OF opaque_decodes [OF l(1) assms(1) l(2)] h i] obtain x where
      "xdr_opaque n xdrs cp = Done (True, take (unat n) ?i @ drop (unat n) cp, x)" "handle x" "phase (x_priv x) = 0" .
    then show ?thesis
      using l(1) assms(1) by simp
  qed
qed

text \<open>Authentication data that were read into allocated memory.\<close>

lemma safe_auth_bytes:
  assumes "n \<le> MAX_AUTH_BYTES" and "n \<noteq> 0" and "\<And>n. length (mem n) = n"
  shows "safe (xdr_opaque n) (mem (unat n)) (\<lambda>bs. auth_ok \<lparr>oa_flavor = f, oa_base = Ptr bs, oa_length = n\<rparr>)"
proof -
  have "unat n < 2147483648"
    using assms(1) by (simp add: MAX_AUTH_BYTES_def word_le_nat_alt)
  then show ?thesis
    using safe_opaque [of n "mem (unat n)"] assms by (auto simp: auth_ok_def safe_def ends_def)
qed

lemma safe_auth:
  assumes "oa_base oa = Null" and "\<And>n. length (mem n) = n"
  shows "safe (xdr_opaque_auth mem) oa auth_ok"
proof -
  have bytes: "safe (xdr_bytes mem MAX_AUTH_BYTES) (Null, z) (\<lambda>(p, n). auth_ok \<lparr>oa_flavor = f, oa_base = p, oa_length = n\<rparr>)" for z f
  proof (rule safeI)
    fix xdrs assume h: "handle xdrs" "phase (x_priv xdrs) = 0"
    have "ends (\<lambda>(p, n). auth_ok \<lparr>oa_flavor = f, oa_base = p, oa_length = n\<rparr>)
        (bind_outcome (xdr_opaque n x (mem (unat n))) (\<lambda>(ok, bs, x). Done (ok, (Ptr bs, n), x)))"
      if "handle x" "phase (x_priv x) = 0" "n \<le> MAX_AUTH_BYTES" "n \<noteq> 0" for x n
      by (rule ends_bind [OF safeD [OF safe_auth_bytes [OF that(3,4) assms(2)] that(1,2)]]) auto
    then show "ends (\<lambda>(p, n). auth_ok \<lparr>oa_flavor = f, oa_base = p, oa_length = n\<rparr>) (xdr_bytes mem MAX_AUTH_BYTES xdrs (Null, z))"
      unfolding xdr_bytes_def xdr_u_int_def prod.case Let_def
      by (intro ends_bind [OF safeD [OF safe_u_long h]]) (auto simp: auth_ok_def not_le)
  qed
  show ?thesis
    unfolding xdr_opaque_auth_def oa_fields_def
  proof (rule safe_and [where P = "\<lambda>a. oa_base a = Null"])
    show "safe (xdr_field xdr_enum oa_flavor (\<lambda>f a. a\<lparr>oa_flavor := f\<rparr>)) oa (\<lambda>a. oa_base a = Null)"
      by (rule safe_field [where P = "\<lambda>_. True"]) (simp_all add: safe_enum assms(1))
    fix a :: opaque_auth assume "oa_base a = Null"
    then show "safe (xdr_field (xdr_bytes mem MAX_AUTH_BYTES) (\<lambda>a. (oa_base a, oa_length a)) (\<lambda>(b, n) a. a\<lparr>oa_base := b, oa_length := n\<rparr>)) a auth_ok"
      using bytes [of "oa_length a" "oa_flavor a"]
      by (intro safe_field [where P = "\<lambda>(p, n). auth_ok \<lparr>oa_flavor = oa_flavor a, oa_base = p, oa_length = n\<rparr>"]) (auto simp: auth_ok_def)
  qed
qed

text \<open>A long is read into a member of a structure.\<close>

lemma safe_u_long_field: "(\<And>w. Q (upd w v)) \<Longrightarrow> safe (xdr_field xdr_u_long get upd) v Q"
  by (rule safe_field [OF safe_u_long])

lemma safe_enum_field: "(\<And>w. Q (upd w v)) \<Longrightarrow> safe (xdr_field xdr_enum get upd) v Q"
  by (rule safe_field [OF safe_enum])

lemma safe_and_u_long: "(\<And>w. safe q (upd w v) Q) \<Longrightarrow> safe (xdr_and (xdr_field xdr_u_long get upd) q) v Q"
  by (rule safe_and [OF safe_u_long_field, where P = "\<lambda>w. \<exists>l. w = upd l v"]) auto

lemma safe_and_enum: "(\<And>w. safe q (upd w v) Q) \<Longrightarrow> safe (xdr_and (xdr_field xdr_enum get upd) q) v Q"
  by (rule safe_and [OF safe_enum_field, where P = "\<lambda>w. \<exists>l. w = upd l v"]) auto

text \<open>Credentials and verifiers of calls, for which memory may be provided.\<close>

lemma safe_area_bytes:
  assumes "n \<le> MAX_AUTH_BYTES" and "unat n \<le> length area"
  shows "safe (xdr_opaque n) area (\<lambda>bs. auth_safe \<lparr>oa_flavor = f, oa_base = Ptr bs, oa_length = n\<rparr>)"
proof -
  have "unat n < 2147483648"
    using assms(1) by (simp add: MAX_AUTH_BYTES_def word_le_nat_alt)
  from safe_opaque [OF assms(2) this] show ?thesis
    by (rule safe_mono) (use assms in \<open>simp add: auth_safe_def\<close>)
qed

lemma safe_call_auth:
  assumes "auth_room oa" and "\<And>n. length (mem n) = n"
  shows "safe (xdr_opaque_auth mem) oa auth_safe"
proof -
  have bytes: "safe (xdr_bytes mem MAX_AUTH_BYTES) (oa_base oa, z) (\<lambda>(p, n). auth_safe \<lparr>oa_flavor = f, oa_base = p, oa_length = n\<rparr>)" for z f
  proof (rule safeI)
    fix xdrs assume h: "handle xdrs" "phase (x_priv xdrs) = 0"
    have "ends (\<lambda>(p, n). auth_safe \<lparr>oa_flavor = f, oa_base = p, oa_length = n\<rparr>)
        (let cpp = (if oa_base oa = Null then Ptr (mem (unat n)) else oa_base oa)
         in bind_outcome (xdr_opaque n x (bytes_at cpp)) (\<lambda>(ok, bs, x). Done (ok, (store cpp bs, n), x)))"
      if x: "handle x" "phase (x_priv x) = 0" "n \<le> MAX_AUTH_BYTES" for x n
    proof -
      obtain area where a: "(if oa_base oa = Null then Ptr (mem (unat n)) else oa_base oa) = Ptr area" "unat n \<le> length area"
        using auth_area [OF assms(1) x(3) assms(2)] .
      show ?thesis
        unfolding a(1) Let_def bytes_at.simps store.simps by (rule ends_bind [OF safeD [OF safe_area_bytes [OF x(3) a(2)] x(1,2)]]) simp_all
    qed
    then show "ends (\<lambda>(p, n). auth_safe \<lparr>oa_flavor = f, oa_base = p, oa_length = n\<rparr>) (xdr_bytes mem MAX_AUTH_BYTES xdrs (oa_base oa, z))"
      unfolding xdr_bytes_def xdr_u_int_def prod.case
      by (intro ends_bind [OF safeD [OF safe_u_long h]]) (auto simp: auth_safe_def not_le Let_def)
  qed
  show ?thesis
    unfolding xdr_opaque_auth_def oa_fields_def
  proof (rule safe_and_enum)
    fix f
    show "safe (xdr_field (xdr_bytes mem MAX_AUTH_BYTES) (\<lambda>a. (oa_base a, oa_length a)) (\<lambda>(b, n) a. a\<lparr>oa_base := b, oa_length := n\<rparr>))
        (oa\<lparr>oa_flavor := f\<rparr>) auth_safe"
      using bytes [of "oa_length oa" f]
      by (intro safe_field [where P = "\<lambda>(p, n). auth_safe \<lparr>oa_flavor = f, oa_base = p, oa_length = n\<rparr>"]) (auto simp: auth_safe_def)
  qed
qed

text \<open>Calls that are not read in line.\<close>

lemma safe_call_auths:
  assumes "safe p (cb_cred c) auth_safe" and "safe q (cb_verf c) auth_safe" and "cb_rpcvers c = RPC_MSG_VERSION"
  shows "safe (xdr_and (xdr_field p cb_cred (\<lambda>v c. c\<lparr>cb_cred := v\<rparr>)) (xdr_field q cb_verf (\<lambda>v c. c\<lparr>cb_verf := v\<rparr>))) c
    (\<lambda>d. cb_rpcvers d = RPC_MSG_VERSION \<and> auth_safe (cb_cred d) \<and> auth_safe (cb_verf d))"
proof (rule safe_and [where P = "\<lambda>d. cb_rpcvers d = RPC_MSG_VERSION \<and> auth_safe (cb_cred d) \<and> cb_verf d = cb_verf c"])
  show "safe (xdr_field p cb_cred (\<lambda>v c. c\<lparr>cb_cred := v\<rparr>)) c
      (\<lambda>d. cb_rpcvers d = RPC_MSG_VERSION \<and> auth_safe (cb_cred d) \<and> cb_verf d = cb_verf c)"
    by (rule safe_field [where P = auth_safe]) (simp_all add: assms(1,3))
next
  fix d assume "cb_rpcvers d = RPC_MSG_VERSION \<and> auth_safe (cb_cred d) \<and> cb_verf d = cb_verf c"
  then show "safe (xdr_field q cb_verf (\<lambda>v c. c\<lparr>cb_verf := v\<rparr>)) d
      (\<lambda>d. cb_rpcvers d = RPC_MSG_VERSION \<and> auth_safe (cb_cred d) \<and> auth_safe (cb_verf d))"
    by (intro safe_field [where P = auth_safe]) (simp_all add: assms(2))
qed

lemma safe_in_call:
  assumes "safe p (rm_call m) (\<lambda>d. cb_rpcvers d = RPC_MSG_VERSION \<and> auth_safe (cb_cred d) \<and> auth_safe (cb_verf d))" and "rm_direction m = CALL"
  shows "safe (in_call p) m call_safe"
  unfolding in_call_def by (rule safe_field [where get = rm_call, OF assms(1)]) (simp add: call_safe_def Let_def assms(2))

lemma safe_callmsg_slow:
  assumes "call_room m" and "\<And>n. length (mem n) = n"
  shows "safe (callmsg_slow mem) m call_safe"
proof -
  have "auth_room (cb_cred (rm_call m))" "auth_room (cb_verf (rm_call m))"
    using assms(1) by (simp_all add: call_room_def)
  then show ?thesis
    unfolding callmsg_slow_def
    by (intro safe_and_u_long safe_and_enum safe_check_and safe_in_call safe_call_auths safe_call_auth) (simp_all add: assms(2))
qed

text \<open>Replies that are not read in line.\<close>

lemma safe_union:
  assumes "\<And>d p. find_choice d choices = Some p \<Longrightarrow> safe p v (\<lambda>w. P (d, w))"
  shows "safe (xdr_union choices None) (e, v) P"
proof (rule safeI)
  fix xdrs assume h: "handle xdrs" "phase (x_priv xdrs) = 0"
  have arm: "ends P (bind_outcome (p x v) (\<lambda>(ok, w, x). Done (ok, (d, w), x)))"
    if "find_choice d choices = Some p" "handle x" "phase (x_priv x) = 0" for d p x
    by (rule ends_bind [OF safeD [OF assms [OF that(1)] that(2,3)]]) simp_all
  show "ends P (xdr_union choices None xdrs (e, v))"
    unfolding xdr_union_def prod.case
    by (rule ends_bind [OF safeD [OF safe_enum h]]) (auto split: option.split intro!: arm)
qed

lemma safe_accepted_rest:
  assumes "ar_proc ar = Some q" and "safe q (ar_where ar) (\<lambda>_. True)" and "auth_ok (ar_verf ar)"
  shows "safe accepted_rest ar accepted_ok"
proof -
  have ne: "SUCCESS \<noteq> PROG_MISMATCH"
    by (simp add: rpc_enums)
  have res: "safe (results_field q) ar (\<lambda>a. ar_verf a = ar_verf ar \<and> ar_stat a = ar_stat ar \<and> is_results (ar_ru a))"
    unfolding results_field_def by (rule safe_field [where get = ar_where, OF assms(2)]) simp
  have vers: "safe versions_fields ar (\<lambda>a. ar_verf a = ar_verf ar \<and> ar_stat a = ar_stat ar \<and> is_versions (ar_ru a))"
    unfolding versions_fields_def by (intro safe_and_u_long safe_u_long_field) simp
  consider "ar_stat ar = SUCCESS" | "ar_stat ar \<noteq> SUCCESS" "ar_stat ar = PROG_MISMATCH" | "ar_stat ar \<noteq> SUCCESS" "ar_stat ar \<noteq> PROG_MISMATCH"
    by blast
  then show ?thesis
  proof cases
    case 1
    then have "safe (results_field q) ar accepted_ok"
      using assms(3) ne by (intro safe_mono [OF res]) (simp add: accepted_ok_def)
    then show ?thesis
      by (rule safe_cong) (simp add: accepted_rest_def 1 assms(1))
  next
    case 2
    then have "safe versions_fields ar accepted_ok"
      using assms(3) by (intro safe_mono [OF vers]) (simp add: accepted_ok_def)
    then show ?thesis
      by (rule safe_cong) (simp add: accepted_rest_def 2(2) ne [symmetric])
  next
    case 3
    then show ?thesis
      using assms(3) by (simp add: safe_def accepted_rest_def accepted_ok_def)
  qed
qed

lemma safe_accepted_status:
  assumes "ar_proc ar = Some q" and "safe q (ar_where ar) (\<lambda>_. True)" and "auth_ok (ar_verf ar)"
  shows "safe (xdr_and (xdr_field xdr_enum ar_stat (\<lambda>v ar. ar\<lparr>ar_stat := v\<rparr>)) accepted_rest) ar accepted_ok"
  by (rule safe_and_enum, rule safe_accepted_rest) (use assms in simp_all)

lemma safe_accepted:
  assumes "ar_proc ar = Some q" and "safe q (ar_where ar) (\<lambda>_. True)" and "safe p (ar_verf ar) auth_ok"
  shows "safe (xdr_and (xdr_field p ar_verf (\<lambda>v ar. ar\<lparr>ar_verf := v\<rparr>))
    (xdr_and (xdr_field xdr_enum ar_stat (\<lambda>v ar. ar\<lparr>ar_stat := v\<rparr>)) accepted_rest)) ar accepted_ok"
proof (rule safe_and [where P = "\<lambda>a. ar_proc a = Some q \<and> ar_where a = ar_where ar \<and> auth_ok (ar_verf a)"])
  show "safe (xdr_field p ar_verf (\<lambda>v ar. ar\<lparr>ar_verf := v\<rparr>)) ar (\<lambda>a. ar_proc a = Some q \<and> ar_where a = ar_where ar \<and> auth_ok (ar_verf a))"
    by (rule safe_field [where get = ar_verf, OF assms(3)]) (simp add: assms(1))
qed (rule safe_accepted_status, use assms(2) in simp_all)

lemma safe_rejected: "safe xdr_rejected_reply rr (\<lambda>r. rj_stat r \<in> {RPC_MISMATCH, AUTH_ERROR})"
proof -
  have ne: "RPC_MISMATCH \<noteq> AUTH_ERROR"
    by (simp add: rpc_enums)
  have a: "safe (xdr_and (xdr_field xdr_u_long rj_vers_low (\<lambda>v rr. rr\<lparr>rj_ru0 := v\<rparr>))
      (xdr_field xdr_u_long rj_vers_high (\<lambda>v rr. rr\<lparr>rj_ru1 := v\<rparr>))) r (\<lambda>s. rj_stat s \<in> {RPC_MISMATCH, AUTH_ERROR})"
    "safe (xdr_field xdr_enum rj_why (\<lambda>v rr. rr\<lparr>rj_ru0 := v\<rparr>)) r (\<lambda>s. rj_stat s \<in> {RPC_MISMATCH, AUTH_ERROR})"
    if "rj_stat r \<in> {RPC_MISMATCH, AUTH_ERROR}" for r
    by (intro safe_and_u_long safe_u_long_field safe_enum_field; use that in simp)+
  have "safe rejected_rest r (\<lambda>r. rj_stat r \<in> {RPC_MISMATCH, AUTH_ERROR})" for r
    by (rule safeI, cases "rj_stat r = RPC_MISMATCH"; cases "rj_stat r = AUTH_ERROR")
      (use safeD [OF a(1) [of r]] safeD [OF a(2) [of r]] ne in \<open>simp_all add: rejected_rest_def\<close>)
  then show ?thesis
    unfolding xdr_rejected_reply_def by (rule safe_and_enum)
qed

lemma safe_reply_denied:
  assumes "rm_direction m = REPLY" and "rp_stat (rm_reply m) = MSG_DENIED"
  shows "safe (in_reply (in_rjct xdr_rejected_reply)) m reply_ok"
  unfolding in_reply_def in_rjct_def
  by (rule safe_field [where get = rm_reply and P = body_ok],
      rule safe_field [where get = rp_rjct, OF safe_rejected]) (use assms in \<open>simp_all add: reply_ok_body body_ok_def\<close>)

lemma safe_reply_accepted:
  assumes "rm_direction m = REPLY" and "rp_stat (rm_reply m) = MSG_ACCEPTED" and "safe p (rp_acpt (rm_reply m)) accepted_ok"
  shows "safe (in_reply (in_acpt p)) m reply_ok"
  unfolding in_reply_def in_acpt_def
  by (rule safe_field [where get = rm_reply and P = body_ok],
      rule safe_field [where get = rp_acpt, OF assms(3)]) (use assms(1,2) in \<open>simp_all add: reply_ok_body body_ok_def\<close>)

lemma safe_replymsg_slow:
  assumes "oa_base (ar_verf (rp_acpt (rm_reply m))) = Null" and "\<And>n. length (mem n) = n"
    and "ar_proc (rp_acpt (rm_reply m)) = Some q" and "safe q (ar_where (rp_acpt (rm_reply m))) (\<lambda>_. True)"
  shows "safe (replymsg_slow mem) m reply_ok"
proof -
  let ?P = "\<lambda>(d, r). body_ok (r\<lparr>rp_stat := d\<rparr>)"
  let ?r = "rm_reply m"
  have acc: "safe (in_acpt (xdr_accepted_reply mem)) ?r (\<lambda>r. body_ok (r\<lparr>rp_stat := MSG_ACCEPTED\<rparr>))"
    unfolding in_acpt_def xdr_accepted_reply_def
    by (rule safe_field [where get = rp_acpt, OF safe_accepted [OF assms(3,4) safe_auth [OF assms(1,2)]]]) (simp add: body_ok_def)
  have den: "safe (in_rjct xdr_rejected_reply) ?r (\<lambda>r. body_ok (r\<lparr>rp_stat := MSG_DENIED\<rparr>))"
    unfolding in_rjct_def by (rule safe_field [where get = rp_rjct, OF safe_rejected]) (simp add: body_ok_def)
  have "safe (xdr_union (reply_dscrm mem) None) (d, ?r) ?P" for d
    by (rule safe_union) (use acc den in \<open>auto simp: reply_dscrm_def split: if_splits\<close>)
  then have "safe (xdr_field (xdr_union (reply_dscrm mem) None) (\<lambda>r. (rp_stat r, r)) (\<lambda>(d, r) _. r\<lparr>rp_stat := d\<rparr>)) ?r body_ok"
    by (rule safe_field) auto
  then show ?thesis
    unfolding replymsg_slow_def in_reply_def
    by (intro safe_and_u_long safe_and_enum safe_check_and safe_field [where get = rm_reply and P = body_ok])
      (simp_all add: reply_ok_body)
qed

end

context xdr_inline_source
begin

lemma safe_inline:
  assumes slow: "safe slow v P" and len: "unat len < 2147483648" "4 dvd unat len"
    and fast: "\<And>buf x b. handle x \<Longrightarrow> phase (x_priv x) = 0 \<Longrightarrow> reader x buf b \<Longrightarrow> length b = unat len \<Longrightarrow> ends P (fast buf x v)"
    and eq: "\<And>xdrs. handle xdrs \<Longrightarrow> proc xdrs v = (case XDR_INLINE len xdrs of (None, x) \<Rightarrow> slow x v | (Some buf, x) \<Rightarrow> fast buf x v)"
  shows "safe proc v P"
proof (rule safeI)
  fix xdrs assume h: "handle xdrs" "phase (x_priv xdrs) = 0"
  have l: "unat len < 2 ^ 31"
    using len(1) by simp
  show "ends P (proc xdrs v)"
  proof (rule XDR_INLINE_get [OF h(1) l])
    assume "XDR_INLINE len xdrs = (None, xdrs)"
    then show ?thesis
      using eq [OF h(1)] safeD [OF slow h] by simp
  next
    fix buf x assume x: "XDR_INLINE len xdrs = (Some buf, x)" "handle x" "reader x buf (take (unat len) (inp (x_priv xdrs)))"
      "unat len \<le> length (inp (x_priv xdrs))" "phase (x_priv x) = (phase (x_priv xdrs) + unat len) mod 4"
    then show ?thesis
      using eq [OF h(1)] fast [OF x(2) _ x(3)] h(2) len(2) by (simp add: dvd_eq_mod_eq_0)
  qed
qed

lemma reader_long:
  assumes "reader x buf b" and "4 \<le> length b"
  shows "IXDR_GET_LONG buf x = Done (of_be32 (take 4 b), buf + 4)" and "reader x (buf + 4) (drop 4 b)"
proof -
  have "reader x buf (be32 (of_be32 (take 4 b)) @ drop 4 b)"
    using assms by (simp add: be32_of_be32)
  from IXDR_GET_LONG_ok [OF this] show "IXDR_GET_LONG buf x = Done (of_be32 (take 4 b), buf + 4)" "reader x (buf + 4) (drop 4 b)" .
qed

lemma safe_auth_hdr:
  shows "safe get_auth_hdr oa (\<lambda>a. oa_base a = oa_base oa)"
proof (rule safe_inline [where len = 8 and fast = "\<lambda>buf xdrs oa. bind_outcome (IXDR_GET_LONG buf xdrs) (\<lambda>(f, buf).
    bind_outcome (IXDR_GET_LONG buf xdrs) (\<lambda>(n, _). Done (True, oa\<lparr>oa_flavor := f, oa_length := n\<rparr>, xdrs)))"
    and slow = "xdr_and (xdr_field xdr_enum oa_flavor (\<lambda>f a. a\<lparr>oa_flavor := f\<rparr>)) (xdr_field xdr_u_int oa_length (\<lambda>n a. a\<lparr>oa_length := n\<rparr>))"])
  show "safe (xdr_and (xdr_field xdr_enum oa_flavor (\<lambda>f a. a\<lparr>oa_flavor := f\<rparr>)) (xdr_field xdr_u_int oa_length (\<lambda>n a. a\<lparr>oa_length := n\<rparr>))) oa
      (\<lambda>a. oa_base a = oa_base oa)"
    unfolding int_eqs(2) by (intro safe_and_enum safe_u_long_field) simp
  fix buf x b assume h: "handle x" "phase (x_priv x) = 0" and r: "reader x buf b" "length b = unat (8 :: 32 word)"
  have l: "4 \<le> length b" "4 \<le> length (drop 4 b)"
    using r(2) by simp_all
  note r1 = reader_long [OF r(1) l(1)] and r2 = reader_long(1) [OF reader_long(2) [OF r(1) l(1)] l(2)]
  show "ends (\<lambda>a. oa_base a = oa_base oa) (bind_outcome (IXDR_GET_LONG buf x) (\<lambda>(f, buf).
      bind_outcome (IXDR_GET_LONG buf x) (\<lambda>(n, _). Done (True, oa\<lparr>oa_flavor := f, oa_length := n\<rparr>, x))))"
    using h by (simp add: r1(1) r2)
qed (auto simp: get_auth_hdr_def split: option.split prod.split)

text \<open>
  The bytes of authentication data, whose length has been read: in line they are where they are, or
  copied from there; otherwise they are read into \<open>area\<close>.
\<close>

lemma safe_auth_inline:
  fixes oa :: opaque_auth
  defines "n \<equiv> oa_length oa"
  assumes n: "n \<noteq> 0" "n \<le> MAX_AUTH_BYTES" "unat n \<le> length area"
    and P: "\<And>bs. length bs = unat n \<or> length bs = length area \<Longrightarrow> P (oa\<lparr>oa_base := Ptr bs\<rparr>)"
    and eq: "\<And>xdrs. p xdrs oa = (case XDR_INLINE (RNDUP_u n) xdrs of
        (None, x) \<Rightarrow> bind_outcome (xdr_opaque n x area) (\<lambda>(ok, bs, x). Done (ok, oa\<lparr>oa_base := Ptr bs\<rparr>, x))
      | (Some buf, x) \<Rightarrow> bind_outcome (x_load (x_ops x) buf (unat n) (x_priv x)) (\<lambda>bs. Done (True, oa\<lparr>oa_base := Ptr bs\<rparr>, x)))"
  shows "safe p oa P"
proof (rule safe_inline [where len = "RNDUP_u n"
      and slow = "\<lambda>x a. bind_outcome (xdr_opaque n x area) (\<lambda>(ok, bs, x). Done (ok, a\<lparr>oa_base := Ptr bs\<rparr>, x))"
      and fast = "\<lambda>buf x a. bind_outcome (x_load (x_ops x) buf (unat n) (x_priv x)) (\<lambda>bs. Done (True, a\<lparr>oa_base := Ptr bs\<rparr>, x))"])
  have l: "unat n \<le> 400" "unat n < 2147483648"
    using n(2) by (simp_all add: MAX_AUTH_BYTES_def word_le_nat_alt)
  have r: "unat (RNDUP_u n) = unat n + pad (unat n)"
    using l(1) by (simp add: unat_RNDUP_u)
  show "safe (\<lambda>x a. bind_outcome (xdr_opaque n x area) (\<lambda>(ok, bs, x). Done (ok, a\<lparr>oa_base := Ptr bs\<rparr>, x))) oa P"
    by (rule safeI, rule ends_bind [OF safeD [OF safe_opaque [OF n(3) l(2)]]]) (simp_all add: P)
  show "unat (RNDUP_u n) < 2147483648" "4 dvd unat (RNDUP_u n)"
    using r l(1) pad_bound [of "unat n"] pad_phase [of "unat n"] by (simp_all add: dvd_eq_mod_eq_0)
  fix buf x b assume h: "handle x" "phase (x_priv x) = 0" "reader x buf b" "length b = unat (RNDUP_u n)"
  have "reader x buf (take (unat n) b @ drop (unat n) b)" "length (take (unat n) b) = unat n"
    using h(3,4) r by simp_all
  from reader_get(1) [OF this(1)] this(2)
  show "ends P (bind_outcome (x_load (x_ops x) buf (unat n) (x_priv x)) (\<lambda>bs. Done (True, oa\<lparr>oa_base := Ptr bs\<rparr>, x)))"
    using h(1,2) by (simp add: P)
qed (simp add: eq)

lemma safe_call_get_auth:
  assumes "auth_room oa" and "\<And>n. length (mem n) = n"
  shows "safe (callmsg_get_auth mem) oa auth_safe"
proof -
  let ?n = "oa_length oa"
  consider "?n = 0" | "\<not> ?n \<le> MAX_AUTH_BYTES" | "?n \<noteq> 0" "?n \<le> MAX_AUTH_BYTES"
    by blast
  then show ?thesis
  proof cases
    case 3
    obtain area where a: "(if oa_base oa = Null then Ptr (mem (unat ?n)) else oa_base oa) = Ptr area" "unat ?n \<le> length area"
      using auth_area [OF assms(1) 3(2) assms(2)] .
    show ?thesis
      by (rule safe_auth_inline [OF 3 a(2)])
        (use 3 a in \<open>auto simp: auth_safe_def callmsg_get_auth_def Let_def not_le split: option.split prod.split if_splits\<close>)
  qed (auto simp: safe_def auth_safe_def callmsg_get_auth_def Let_def not_le)
qed

lemma safe_reply_get_verf:
  assumes "oa_base oa = Null" and "\<And>n. length (mem n) = n"
  shows "safe (replymsg_get_verf mem) oa auth_ok"
proof -
  let ?n = "oa_length oa"
  consider "?n = 0" | "\<not> ?n \<le> MAX_AUTH_BYTES" | "?n \<noteq> 0" "?n \<le> MAX_AUTH_BYTES"
    by blast
  then show ?thesis
  proof cases
    case 3
    have "unat ?n \<le> length (mem (unat ?n))"
      by (simp add: assms(2))
    then show ?thesis
      by (rule safe_auth_inline [OF 3])
        (use 3 assms in \<open>auto simp: auth_ok_def replymsg_get_verf_def Let_def not_le split: option.split prod.split\<close>)
  qed (use assms(1) in \<open>auto simp: safe_def auth_ok_def replymsg_get_verf_def Let_def not_le\<close>)
qed

lemma safe_call_auth_whole:
  assumes "auth_room oa" and "\<And>n. length (mem n) = n"
  shows "safe (xdr_and get_auth_hdr (callmsg_get_auth mem)) oa auth_safe"
  by (rule safe_and [OF safe_auth_hdr], rule safe_call_get_auth) (use assms in \<open>simp_all add: auth_room_def\<close>)

lemma safe_verf_whole:
  assumes "oa_base oa = Null" and "\<And>n. length (mem n) = n"
  shows "safe (xdr_and get_auth_hdr (replymsg_get_verf mem)) oa auth_ok"
  by (rule safe_and [OF safe_auth_hdr], rule safe_reply_get_verf) (use assms in simp_all)

text \<open>Calls.\<close>

lemma safe_callmsg_get:
  assumes "call_room m" and "\<And>n. length (mem n) = n"
    and h: "handle x" "phase (x_priv x) = 0" and r: "reader x buf b" "length b = 32"
  shows "ends call_safe (callmsg_get mem buf x m)"
proof -
  have room: "auth_room (cb_cred (rm_call m))" "auth_room (cb_verf (rm_call m))"
    using assms(1) by (simp_all add: call_room_def)
  have l: "4 \<le> length (drop k b)" if "k + 4 \<le> 32" for k
    using r(2) that by simp
  have step: "IXDR_GET_LONG a x = Done (of_be32 (take 4 (drop k b)), a + 4)" "reader x (a + 4) (drop (k + 4) b)"
    if "reader x a (drop k b)" "k + 4 \<le> 32" for a k
    using reader_long [OF that(1) l [OF that(2)]] by (simp_all add: add.commute)
  have r0: "reader x buf (drop 0 b)"
    using r(1) by simp
  note r1 = step(2) [OF r0, simplified] note r2 = step(2) [OF r1, simplified] note r3 = step(2) [OF r2, simplified]
  note r4 = step(2) [OF r3, simplified] note r5 = step(2) [OF r4, simplified] note r6 = step(2) [OF r5, simplified]
  note r7 = step(2) [OF r6, simplified]
  note g = step(1) [OF r0, simplified] step(1) [OF r1, simplified] step(1) [OF r2, simplified] step(1) [OF r3, simplified]
    step(1) [OF r4, simplified] step(1) [OF r5, simplified] step(1) [OF r6, simplified] step(1) [OF r7, simplified]
  have rest: "ends call_safe (in_call (xdr_and (xdr_field (callmsg_get_auth mem) cb_cred (\<lambda>v c. c\<lparr>cb_cred := v\<rparr>))
      (xdr_field (xdr_and get_auth_hdr (callmsg_get_auth mem)) cb_verf (\<lambda>v c. c\<lparr>cb_verf := v\<rparr>))) x w)"
    if "rm_direction w = CALL" "cb_rpcvers (rm_call w) = RPC_MSG_VERSION" "auth_room (cb_cred (rm_call w))"
      "auth_room (cb_verf (rm_call w))" for w :: "('a, 'b) rpc_msg"
    by (rule safeD [OF safe_in_call [OF safe_call_auths] h]) (use that assms(2) in \<open>simp_all add: safe_call_get_auth safe_call_auth_whole\<close>)
  show ?thesis
    unfolding callmsg_get_def g bind_outcome.simps prod.case Let_def using room h
    by (auto intro!: rest simp: auth_room_def)
qed

lemma safe_callmsg:
  assumes "call_room m" and "\<And>n. length (mem n) = n"
  shows "safe (xdr_callmsg mem) m call_safe"
proof (rule safe_inline [where len = 32 and slow = "callmsg_slow mem" and fast = "callmsg_get mem"])
  show "safe (callmsg_slow mem) m call_safe"
    by (rule safe_callmsg_slow [OF assms])
  fix buf x b assume "handle x" "phase (x_priv x) = 0" "reader x buf b" "length b = unat (32 :: 32 word)"
  then show "ends call_safe (callmsg_get mem buf x m)"
    by (intro safe_callmsg_get [OF assms]) simp_all
qed (simp_all add: xdr_callmsg_def Let_def split: option.split prod.split)

text \<open>Replies.\<close>

lemma safe_replymsg_get:
  assumes "oa_base (ar_verf (rp_acpt (rm_reply m))) = Null" and "\<And>n. length (mem n) = n"
    and "ar_proc (rp_acpt (rm_reply m)) = Some q" and "safe q (ar_where (rp_acpt (rm_reply m))) (\<lambda>_. True)"
    and h: "handle x" "phase (x_priv x) = 0" and r: "reader x buf b" "length b = 12"
  shows "ends reply_ok (replymsg_get mem buf x m)"
proof -
  have l: "4 \<le> length b" "4 \<le> length (drop 4 b)" "4 \<le> length (drop 4 (drop 4 b))"
    using r(2) by simp_all
  note r1 = reader_long(2) [OF r(1) l(1)] note r2 = reader_long(2) [OF r1 l(2)]
  note g = reader_long(1) [OF r(1) l(1)] reader_long(1) [OF r1 l(2)] reader_long(1) [OF r2 l(3)]
  note acc = safe_accepted [OF assms(3,4) safe_verf_whole [OF assms(1,2)]]
  show ?thesis
    unfolding replymsg_get_def g bind_outcome.simps prod.case Let_def using h
    by (auto intro!: safeD [OF safe_reply_denied] safeD [OF safe_reply_accepted] acc)
qed

lemma safe_replymsg:
  assumes "oa_base (ar_verf (rp_acpt (rm_reply m))) = Null" and "\<And>n. length (mem n) = n"
    and "ar_proc (rp_acpt (rm_reply m)) = Some q" and "safe q (ar_where (rp_acpt (rm_reply m))) (\<lambda>_. True)"
  shows "safe (xdr_replymsg mem) m reply_ok"
proof (rule safe_inline [where len = 12 and slow = "replymsg_slow mem" and fast = "replymsg_get mem"])
  show "safe (replymsg_slow mem) m reply_ok"
    by (rule safe_replymsg_slow [OF assms])
  fix buf x b assume "handle x" "phase (x_priv x) = 0" "reader x buf b" "length b = unat (12 :: 32 word)"
  then show "ends reply_ok (replymsg_get mem buf x m)"
    by (intro safe_replymsg_get [OF assms]) simp_all
qed (simp_all add: xdr_replymsg_def split: option.split prod.split)

end

section \<open>Messages from anywhere\<close>

text \<open>
  C11. A server that decodes a call from message blocks is safe whatever they hold, if each block but
  the last holds whole units of four bytes, as the transports make sure: decoding into a message
  that provides at least 400 bytes each for credential and verifier, as the server does, or none at
  all, ends with no access outside of the blocks, these bytes and the allocated memory. What it
  takes for a call is one, of the right direction and version of the protocol, with a
  credential and a verifier of at most 400 bytes, and pointers to at least as many.
\<close>

theorem rpc_call_safe:
  assumes "xdr_message ms" and "call_room m0" and "\<And>n. length (mem n) = n"
  shows "\<exists>ok m x. xdr_callmsg mem (decode_init ms) m0 = Done (ok, m, x) \<and> (ok \<longrightarrow> call_safe m)"
proof -
  note i = decode_init_ok [OF assms(1)]
  from xbi.safeD [OF xb.src.safe_callmsg [OF assms(2,3)] i(1,3)] show ?thesis
    by (auto simp: xbi.ends_def)
qed

theorem rpc_call_safe_witness:
  "\<exists>ok m x. xdr_callmsg (\<lambda>n. replicate n 0) (decode_init two_blocks) server_msg = Done (ok, m, x)"
  using rpc_call_safe [OF two_blocks_message(1) server_msg_room, of "\<lambda>n. replicate n 0"] by auto

text \<open>
  C29. A client that decodes a reply from message blocks, which hold whole units of four bytes, the
  last one excepted, is as safe, if the filter of its results is: if that filter, from any input,
  ends, and at the beginning of a unit if it succeeds, then decoding the reply ends. A reply that
  is taken has a verifier of at most 400 bytes, and results or versions if its status says so, or is
  denied for one of the two reasons of the protocol. The client provides a pointer to the
  variable of the results and none for the verifier.
\<close>

theorem rpc_reply_safe:
  assumes "xdr_message ms" and "reply_room m0 w q" and "\<And>r. xbi.safe r q w (\<lambda>_. True)" and "\<And>n. length (mem n) = n"
  shows "\<exists>ok m x. xdr_replymsg mem (decode_init ms) m0 = Done (ok, m, x) \<and> (ok \<longrightarrow> reply_ok m)"
proof -
  note i = decode_init_ok [OF assms(1)] and room = reply_roomD [OF assms(2)]
  from xbi.safeD [OF xb.src.safe_replymsg [OF room(1) assms(4) room(3)] i(1,3)] show ?thesis
    using assms(3) room(2) by (auto simp: xbi.ends_def)
qed

theorem rpc_reply_safe_witness:
  "\<exists>ok m x. xdr_replymsg (\<lambda>n. replicate n 0) (decode_init two_blocks) client_msg = Done (ok, m, x)"
  using rpc_reply_safe [OF two_blocks_message(1) client_msg_room xbi.safe_u_long, of "\<lambda>n. replicate n 0"] by auto

end
