(* ===== verification/Share.thy ===== *)
theory Share
  imports Kern_Prelude
begin

unbundle bit_operations_syntax

text \<open>
  Share reservations on a file, \<^verbatim>\<open>uts/common/os/share.c\<close>, and the routine of the file systems that
  calls it, \<^verbatim>\<open>fs_shrlock\<close> of \<^verbatim>\<open>uts/common/fs/fs_subr.c\<close>: a process, or a remote client through the
  lock manager, reserves access to the file and denies access to others, in the modes of DOS.
\<close>

section \<open>Data\<close>

definition F_RDACC :: "16 word" where "F_RDACC = 1"
definition F_WRACC :: "16 word" where "F_WRACC = 2"
definition F_RWACC :: "16 word" where "F_RWACC = 3"
definition F_NODNY :: "16 word" where "F_NODNY = 0"
definition F_RDDNY :: "16 word" where "F_RDDNY = 1"
definition F_WRDNY :: "16 word" where "F_WRDNY = 2"
definition F_RWDNY :: "16 word" where "F_RWDNY = 3"
definition F_COMPAT :: "16 word" where "F_COMPAT = 8"

lemmas share_modes = F_RDACC_def F_WRACC_def F_RWACC_def F_NODNY_def F_RDDNY_def F_WRDNY_def F_RWDNY_def F_COMPAT_def

text \<open>\<^verbatim>\<open>owner\<close> are the bytes of the owner, \<^verbatim>\<open>own_len\<close> of them.\<close>

record shrlock =
  shr_access :: "16 word"
  shr_deny :: "16 word"
  shr_sysid :: "16 word"
  shr_pid :: "32 word"
  shr_owner :: "byte list"

datatype vtype = VNON | VREG | VDIR | VBLK | VCHR | VLNK | VFIFO | VDOOR | VPROC | VSOCK | VBAD

text \<open>
  What share reservations need of a vnode: its type, the flags of its file system and the list
  of its reservations, the latest first.
\<close>

record shr_vnode =
  v_type :: vtype
  vfs_flag :: "32 word"
  v_shrlocks :: "shrlock list"

definition VFS_RDONLY :: "32 word" where "VFS_RDONLY = 1"

definition isreadonly :: "shr_vnode \<Rightarrow> bool" where
  "isreadonly vp \<longleftrightarrow> v_type vp \<noteq> VCHR \<and> v_type vp \<noteq> VBLK \<and> v_type vp \<noteq> VFIFO \<and> vfs_flag vp AND VFS_RDONLY \<noteq> 0"

section \<open>Operations\<close>

text \<open>A test of flags in C, and the mode of compatibility with old programs.\<close>

definition has :: "16 word \<Rightarrow> 16 word \<Rightarrow> bool" where "has w m \<longleftrightarrow> w AND m \<noteq> 0"

definition compat_mode :: "shrlock \<Rightarrow> bool" where "compat_mode s \<longleftrightarrow> has (shr_deny s) F_COMPAT"

definition same_owner :: "shrlock \<Rightarrow> shrlock \<Rightarrow> bool" where
  "same_owner a b \<longleftrightarrow> shr_sysid a = shr_sysid b \<and> shr_pid a = shr_pid b \<and> shr_owner a = shr_owner b"

text \<open>
  The loop of \<^verbatim>\<open>add_share\<close> over the reservations: None when it is left for the insertion, or the error
  it returns. The first reservation that was made is the last of the list.
\<close>

fun share_loop :: "bool \<Rightarrow> shrlock \<Rightarrow> shrlock list \<Rightarrow> errno option" where
  "share_loop ro shr [] = None"
| "share_loop ro shr (s # ss) =
     (if same_owner s shr \<and> shr_access s = shr_access shr \<and> shr_deny s = shr_deny shr then Some EEXIST
      else if same_owner s shr \<and> compat_mode s \<and> compat_mode shr \<and> (ss = [] \<or> has (shr_access s) F_WRACC) then None
      else if compat_mode s \<and> ss = [] then
        if \<not> compat_mode shr then
          if has (shr_access shr) F_WRACC \<or> has (shr_deny shr) F_RDDNY \<or> has (shr_access s) F_WRACC then Some EAGAIN
          else if ro then None
          else Some EAGAIN
        else if shr_access shr = F_RDACC \<and> shr_access s = F_RDACC then None
        else Some EAGAIN
      else if compat_mode s \<and> compat_mode shr then share_loop ro shr ss
      else if compat_mode shr then
        if has (shr_access shr) F_WRACC \<or> has (shr_deny s) F_RDDNY \<or> has (shr_access s) F_WRACC then Some EAGAIN
        else if ss = [] then if shr_access s = F_RDACC \<and> ro then None else Some EAGAIN
        else share_loop ro shr ss
      else if has (shr_access shr) (shr_deny s) \<or> has (shr_deny shr) (shr_access s) then Some EAGAIN
      else share_loop ro shr ss)"

definition share_valid :: "shrlock \<Rightarrow> bool" where
  "share_valid shr \<longleftrightarrow> shr_access shr \<noteq> 0 \<and> \<not> has (shr_access shr) (NOT (F_RDACC OR F_WRACC OR F_RWACC))
     \<and> \<not> has (shr_deny shr) (NOT (F_NODNY OR F_RDDNY OR F_WRDNY OR F_RWDNY OR F_COMPAT))"

text \<open>The reservation that is stored: no other mode is set with \<^verbatim>\<open>F_COMPAT\<close>.\<close>

definition share_stored :: "shrlock \<Rightarrow> shrlock" where
  "share_stored shr = (if compat_mode shr then shr\<lparr>shr_deny := F_COMPAT\<rparr> else shr)"

definition add_share :: "shr_vnode \<Rightarrow> shrlock \<Rightarrow> errno option \<times> shr_vnode" where
  "add_share vp shr =
     (if \<not> share_valid shr then (Some EINVAL, vp)
      else case share_loop (isreadonly vp) shr (v_shrlocks vp) of
          Some e \<Rightarrow> (Some e, vp)
        | None \<Rightarrow> (None, vp\<lparr>v_shrlocks := share_stored shr # v_shrlocks vp\<rparr>))"

definition del_match :: "shrlock \<Rightarrow> shrlock \<Rightarrow> bool" where
  "del_match shr s \<longleftrightarrow> shr_owner shr = shr_owner s
     \<or> shr_owner shr = [] \<and> (shr_sysid shr = 0 \<and> shr_pid shr = shr_pid s \<or> shr_sysid shr \<noteq> 0 \<and> shr_sysid shr = shr_sysid s)"

text \<open>The loop of \<^verbatim>\<open>del_share\<close>: what is left of the list, and how many were found.\<close>

fun del_loop :: "shrlock \<Rightarrow> shrlock list \<Rightarrow> shrlock list \<times> nat" where
  "del_loop shr [] = ([], 0)"
| "del_loop shr (s # ss) =
     (let (rest, found) = del_loop shr ss in if del_match shr s then (rest, found + 1) else (s # rest, found))"

definition del_share :: "shr_vnode \<Rightarrow> shrlock \<Rightarrow> errno option \<times> shr_vnode" where
  "del_share vp shr =
     (let (rest, found) = del_loop shr (v_shrlocks vp)
      in (if found \<noteq> 0 then None else Some EINVAL, vp\<lparr>v_shrlocks := rest\<rparr>))"

definition cleanshares :: "shr_vnode \<Rightarrow> 32 word \<Rightarrow> shr_vnode" where
  "cleanshares vp pid =
     (if v_shrlocks vp = [] then vp
      else snd (del_share vp \<lparr>shr_access = 0, shr_deny = 0, shr_sysid = 0, shr_pid = pid, shr_owner = []\<rparr>))"

fun remote_loop :: "16 word \<Rightarrow> shrlock list \<Rightarrow> bool" where
  "remote_loop sysid [] = False"
| "remote_loop sysid (s # ss) =
     (if sysid \<noteq> 0 \<and> shr_sysid s = sysid \<or> sysid = 0 \<and> shr_sysid s \<noteq> 0 then True else remote_loop sysid ss)"

definition shr_has_remote_shares :: "shr_vnode \<Rightarrow> 16 word \<Rightarrow> bool" where
  "shr_has_remote_shares vp sysid = remote_loop sysid (v_shrlocks vp)"

text \<open>
  \<^verbatim>\<open>fs_shrlock\<close> returns the error, the reservation, whose access the last command sets, and the
  vnode.
\<close>

definition F_HASREMOTELOCKS :: "32 word" where "F_HASREMOTELOCKS = 26"
definition F_SHARE :: "32 word" where "F_SHARE = 40"
definition F_UNSHARE :: "32 word" where "F_UNSHARE = 41"
definition FREAD :: "32 word" where "FREAD = 1"
definition FWRITE :: "32 word" where "FWRITE = 2"

definition fs_shrlock :: "shr_vnode \<Rightarrow> 32 word \<Rightarrow> shrlock \<Rightarrow> 32 word \<Rightarrow> errno option \<times> shrlock \<times> shr_vnode" where
  "fs_shrlock vp cmd shr flag =
     (if cmd AND F_SHARE \<noteq> 0
         \<and> (has (shr_access shr) F_RDACC \<and> flag AND FREAD = 0 \<or> shr_access shr = F_WRACC \<and> flag AND FWRITE = 0)
      then (Some EBADF, shr, vp)
      else if cmd = F_SHARE then let (e, vp) = add_share vp shr in (e, shr, vp)
      else if cmd = F_UNSHARE then let (e, vp) = del_share vp shr in (e, shr, vp)
      else if cmd = F_HASREMOTELOCKS
      then (None, shr\<lparr>shr_access := if shr_has_remote_shares vp (shr_sysid shr) then 1 else 0\<rparr>, vp)
      else (Some EINVAL, shr, vp))"

section \<open>Exclusion\<close>

text \<open>
  Two reservations conflict if one has access that the other denies. What holds of the list of
  a file: the modes are valid; reservations not in compatibility mode never conflict; a
  reservation in compatibility mode with write access is of the owner of the first reservation,
  which is in that mode too; and unless the file system is read-only, all or none are in
  compatibility mode.
\<close>

definition conflict :: "shrlock \<Rightarrow> shrlock \<Rightarrow> bool" where
  "conflict a b \<longleftrightarrow> has (shr_access a) (shr_deny b) \<or> has (shr_deny a) (shr_access b)"

definition compat_writer :: "shrlock \<Rightarrow> bool" where
  "compat_writer s \<longleftrightarrow> compat_mode s \<and> has (shr_access s) F_WRACC"

definition shares_ok :: "bool \<Rightarrow> shrlock list \<Rightarrow> bool" where
  "shares_ok ro ss \<longleftrightarrow> (\<forall>s\<in>set ss. share_valid s \<and> (compat_mode s \<longrightarrow> shr_deny s = F_COMPAT))
     \<and> sorted_wrt (\<lambda>a b. compat_mode a \<or> compat_mode b \<or> \<not> conflict a b) ss
     \<and> (\<forall>s\<in>set ss. compat_writer s \<longrightarrow> compat_mode (last ss) \<and> same_owner s (last ss))
     \<and> (ro \<or> (\<forall>s\<in>set ss. compat_mode s) \<or> (\<forall>s\<in>set ss. \<not> compat_mode s))"

lemma stored_simps [simp]:
  "shr_access (share_stored s) = shr_access s" "compat_mode (share_stored s) = compat_mode s"
  "same_owner (share_stored s) t = same_owner s t" "same_owner t (share_stored s) = same_owner t s"
  "compat_writer (share_stored s) = compat_writer s"
  by (simp_all add: share_stored_def compat_mode_def has_def same_owner_def compat_writer_def F_COMPAT_def)

lemma stored_plain: "\<not> compat_mode s \<Longrightarrow> share_stored s = s"
  by (simp add: share_stored_def)

lemma stored_valid: "share_valid s \<Longrightarrow> share_valid (share_stored s) \<and> (compat_mode s \<longrightarrow> shr_deny (share_stored s) = F_COMPAT)"
  by (simp add: share_stored_def share_valid_def has_def share_modes)

lemma same_owner_eq: "same_owner a b \<Longrightarrow> same_owner b c \<Longrightarrow> same_owner a c" "same_owner a b \<longleftrightarrow> same_owner b a" "same_owner a a"
  by (auto simp: same_owner_def)

text \<open>What the loop has seen when a reservation is granted.\<close>

lemma loop_plain_Cons:
  "\<not> compat_mode shr \<Longrightarrow> share_loop ro shr (s # ss) =
     (if same_owner s shr \<and> shr_access s = shr_access shr \<and> shr_deny s = shr_deny shr then Some EEXIST
      else if compat_mode s \<and> ss = [] then
        if has (shr_access shr) F_WRACC \<or> has (shr_deny shr) F_RDDNY \<or> has (shr_access s) F_WRACC \<or> \<not> ro then Some EAGAIN else None
      else if conflict shr s then Some EAGAIN
      else share_loop ro shr ss)"
  by (simp add: conflict_def)

lemma loop_plain:
  assumes "\<not> compat_mode shr" and "share_loop ro shr ss = None"
  shows "s \<in> set ss \<Longrightarrow> \<not> compat_mode s \<Longrightarrow> \<not> conflict shr s" and "ss \<noteq> [] \<Longrightarrow> \<not> ro \<Longrightarrow> \<not> compat_mode (last ss)"
proof -
  have "(s \<in> set ss \<longrightarrow> \<not> compat_mode s \<longrightarrow> \<not> conflict shr s) \<and> (ss \<noteq> [] \<longrightarrow> \<not> ro \<longrightarrow> \<not> compat_mode (last ss))"
    using assms(2)
  proof (induction ss)
    case (Cons t ss)
    then show ?case
      unfolding loop_plain_Cons [OF assms(1)] by (simp split: if_splits) blast
  qed simp
  then show "s \<in> set ss \<Longrightarrow> \<not> compat_mode s \<Longrightarrow> \<not> conflict shr s" "ss \<noteq> [] \<Longrightarrow> \<not> ro \<Longrightarrow> \<not> compat_mode (last ss)"
    by blast+
qed

lemma loop_writer:
  "share_loop ro shr ss = None \<Longrightarrow> compat_writer shr \<Longrightarrow> ss \<noteq> [] \<Longrightarrow>
    \<exists>s\<in>set ss. same_owner s shr \<and> compat_mode s \<and> (s = last ss \<or> has (shr_access s) F_WRACC)"
  by (induction ro shr ss rule: share_loop.induct) (auto simp: compat_writer_def F_RDACC_def F_WRACC_def has_def split: if_splits)

lemma loop_compat:
  "share_loop ro shr ss = None \<Longrightarrow> compat_mode shr \<Longrightarrow> ss \<noteq> [] \<Longrightarrow> \<not> ro \<Longrightarrow> \<exists>s\<in>set ss. compat_mode s"
  by (induction ro shr ss rule: share_loop.induct) (auto split: if_splits)

lemma add_ok:
  assumes "shares_ok ro ss" and "share_valid shr" and n: "share_loop ro shr ss = None"
  shows "shares_ok ro (share_stored shr # ss)"
proof -
  note ok = assms(1) [unfolded shares_ok_def]
  have wrt: "compat_mode shr \<or> compat_mode s \<or> \<not> conflict (share_stored shr) s" if "s \<in> set ss" for s
    using loop_plain(1) [OF _ n that] stored_plain [of shr] by (cases "compat_mode shr") auto
  have last: "compat_mode (last ss) \<and> same_owner shr (last ss)" if w: "compat_writer shr" and ne: "ss \<noteq> []"
  proof -
    obtain s where s: "s \<in> set ss" "same_owner s shr" "compat_mode s" "s = last ss \<or> has (shr_access s) F_WRACC"
      using loop_writer [OF n w ne] by blast
    then have "compat_mode (last ss) \<and> same_owner s (last ss)"
      using ok same_owner_eq(3) by (auto simp: compat_writer_def)
    then show ?thesis
      using s(2) same_owner_eq by blast
  qed
  have mode: "ro \<or> (\<forall>s\<in>set (share_stored shr # ss). compat_mode s) \<or> (\<forall>s\<in>set (share_stored shr # ss). \<not> compat_mode s)"
  proof (cases "ro \<or> ss = []")
    case False
    then have "(\<forall>s\<in>set ss. compat_mode s) \<or> (\<forall>s\<in>set ss. \<not> compat_mode s)" "last ss \<in> set ss"
      using ok by auto
    then show ?thesis
      using loop_compat [OF n] loop_plain(2) [OF _ n] False by (cases "compat_mode shr") auto
  qed auto
  show ?thesis
    unfolding shares_ok_def using ok stored_valid [OF assms(2)] wrt last mode same_owner_eq by (auto simp: compat_writer_def)
qed

text \<open>Deleting removes what matches; all reservations of an owner match, or none.\<close>

lemma del_loop_eq: "del_loop shr ss = (filter (\<lambda>s. \<not> del_match shr s) ss, length (filter (del_match shr) ss))"
  by (induction ss) (simp_all add: Let_def)

lemma del_match_owner: "same_owner a b \<Longrightarrow> del_match shr a = del_match shr b"
  by (simp add: same_owner_def del_match_def)

lemma last_filter: "xs \<noteq> [] \<Longrightarrow> P (last xs) \<Longrightarrow> last (filter P xs) = last xs"
  by (induction xs rule: rev_induct) auto

lemma del_ok: "shares_ok ro ss \<Longrightarrow> shares_ok ro (filter (\<lambda>s. \<not> del_match shr s) ss)"
proof -
  assume ok: "shares_ok ro ss"
  let ?f = "filter (\<lambda>s. \<not> del_match shr s) ss"
  have "compat_mode (last ?f) \<and> same_owner s (last ?f)" if s: "s \<in> set ss" "\<not> del_match shr s" "compat_writer s" for s
  proof -
    have o: "compat_mode (last ss) \<and> same_owner s (last ss)"
      using ok s(1,3) by (simp add: shares_ok_def)
    then have "last ?f = last ss"
      using s(1,2) del_match_owner [of s "last ss" shr] by (intro last_filter) auto
    with o show ?thesis by simp
  qed
  with ok show ?thesis
    by (auto simp: shares_ok_def sorted_wrt_filter)
qed

section \<open>Calls in any order\<close>

inductive share_reach :: "shr_vnode \<Rightarrow> bool" where
  init: "v_shrlocks vp = [] \<Longrightarrow> share_reach vp"
| call: "share_reach vp \<Longrightarrow> share_reach (snd (snd (fs_shrlock vp cmd shr flag)))"
| close: "share_reach vp \<Longrightarrow> share_reach (cleanshares vp p)"

lemma add_share_cases:
  "add_share vp shr = (e, vp') \<Longrightarrow> vp' = vp \<and> e \<noteq> None
     \<or> e = None \<and> share_valid shr \<and> share_loop (isreadonly vp) shr (v_shrlocks vp) = None
       \<and> vp' = vp\<lparr>v_shrlocks := share_stored shr # v_shrlocks vp\<rparr>"
  by (auto simp: add_share_def split: if_splits option.splits)

lemma del_share_eq:
  "del_share vp shr = (if \<exists>s\<in>set (v_shrlocks vp). del_match shr s then None else Some EINVAL,
     vp\<lparr>v_shrlocks := filter (\<lambda>s. \<not> del_match shr s) (v_shrlocks vp)\<rparr>)"
  by (simp add: del_share_def del_loop_eq filter_empty_conv)

lemma isreadonly_shrlocks [simp]: "isreadonly (vp\<lparr>v_shrlocks := ss\<rparr>) = isreadonly vp"
  by (simp add: isreadonly_def)

lemma cleanshares_eq: "cleanshares vp p = vp\<lparr>v_shrlocks := filter (\<lambda>s. shr_owner s \<noteq> [] \<and> shr_pid s \<noteq> p) (v_shrlocks vp)\<rparr>"
  by (cases vp) (auto simp: cleanshares_def del_share_eq del_match_def intro!: filter_cong)

lemma add_share_ok:
  "shares_ok (isreadonly vp) (v_shrlocks vp) \<Longrightarrow> shares_ok (isreadonly (snd (add_share vp shr))) (v_shrlocks (snd (add_share vp shr)))"
  using add_share_cases [of vp shr "fst (add_share vp shr)" "snd (add_share vp shr)"] add_ok by auto

lemma del_share_ok:
  "shares_ok (isreadonly vp) (v_shrlocks vp) \<Longrightarrow> shares_ok (isreadonly (snd (del_share vp shr))) (v_shrlocks (snd (del_share vp shr)))"
  by (simp add: del_share_eq del_ok)

lemma share_reach_inv: "share_reach vp \<Longrightarrow> shares_ok (isreadonly vp) (v_shrlocks vp)"
proof (induction rule: share_reach.induct)
  case (init vp)
  then show ?case
    by (simp add: shares_ok_def)
next
  case (call vp cmd shr flag)
  then show ?case
    using add_share_ok [of vp shr] del_share_ok [of vp shr] by (simp add: fs_shrlock_def split_beta)
next
  case (close vp p)
  then show ?case
    using del_share_ok by (auto simp: cleanshares_def)
qed

text \<open>
  C14. Exclusion of share reservations: whatever calls were made on a file, while its file system was
  mounted as it is, two reservations of which
  none is in compatibility mode never have access that the other denies, also if they are of
  one owner. A reservation in compatibility mode with write access belongs to the owner of the
  first reservation, which is in that mode; and unless the file is on a read-only file system,
  either all its reservations are in compatibility mode or none is.
\<close>

theorem share_exclusion:
  assumes "share_reach vp"
  defines "ss \<equiv> v_shrlocks vp"
  shows "(\<forall>i j. i < j \<and> j < length ss \<and> \<not> compat_mode (ss ! i) \<and> \<not> compat_mode (ss ! j) \<longrightarrow>
      shr_access (ss ! i) AND shr_deny (ss ! j) = 0 \<and> shr_access (ss ! j) AND shr_deny (ss ! i) = 0)
    \<and> (\<forall>s\<in>set ss. compat_mode s \<and> shr_access s AND F_WRACC \<noteq> 0 \<longrightarrow> compat_mode (last ss) \<and> same_owner s (last ss))
    \<and> (\<not> isreadonly vp \<longrightarrow> (\<forall>s\<in>set ss. compat_mode s) \<or> (\<forall>s\<in>set ss. \<not> compat_mode s))"
proof -
  have ok: "shares_ok (isreadonly vp) ss"
    unfolding ss_def by (rule share_reach_inv [OF assms(1)])
  have "shr_access (ss ! i) AND shr_deny (ss ! j) = 0 \<and> shr_access (ss ! j) AND shr_deny (ss ! i) = 0"
    if "i < j" "j < length ss" "\<not> compat_mode (ss ! i)" "\<not> compat_mode (ss ! j)" for i j
  proof -
    have "\<not> conflict (ss ! i) (ss ! j)"
      using ok that sorted_wrt_nth_less [of _ ss i j] unfolding shares_ok_def by blast
    then show ?thesis
      by (simp add: conflict_def has_def and.commute)
  qed
  with ok show ?thesis
    by (auto simp: shares_ok_def compat_writer_def has_def)
qed

text \<open>A reservation for reading and writing that denies writing to others, on a regular file.\<close>

definition share_sample :: shrlock where
  "share_sample = \<lparr>shr_access = 3, shr_deny = 2, shr_sysid = 0, shr_pid = 100, shr_owner = [1, 2]\<rparr>"

definition plain_file :: "shrlock list \<Rightarrow> shr_vnode" where
  "plain_file ss = \<lparr>v_type = VREG, vfs_flag = 0, v_shrlocks = ss\<rparr>"

lemma sample_reach: "share_reach (plain_file [share_sample])"
proof -
  have "snd (snd (fs_shrlock (plain_file []) F_SHARE share_sample 3)) = plain_file [share_sample]"
    by (simp add: fs_shrlock_def plain_file_def share_sample_def add_share_def share_valid_def has_def share_stored_def
        compat_mode_def share_modes FREAD_def F_SHARE_def)
  moreover have "share_reach (plain_file [])"
    by (rule share_reach.init) (simp add: plain_file_def)
  ultimately show ?thesis
    using share_reach.call [of "plain_file []" F_SHARE share_sample 3] by simp
qed

text \<open>Another process that reads.\<close>

definition share_reader :: shrlock where
  "share_reader = \<lparr>shr_access = 1, shr_deny = 0, shr_sysid = 0, shr_pid = 7, shr_owner = [3]\<rparr>"

lemma reader_reach: "share_reach (plain_file [share_reader, share_sample])"
proof -
  have "snd (snd (fs_shrlock (plain_file [share_sample]) F_SHARE share_reader 1)) = plain_file [share_reader, share_sample]"
    by (simp add: fs_shrlock_def plain_file_def share_sample_def share_reader_def add_share_def share_valid_def has_def share_stored_def
        compat_mode_def share_modes FREAD_def F_SHARE_def same_owner_def)
  then show ?thesis
    using share_reach.call [OF sample_reach, of F_SHARE share_reader 1] by simp
qed

theorem share_exclusion_witness:
  "v_shrlocks (plain_file [share_reader, share_sample]) = [share_reader, share_sample]
   \<and> shr_access share_reader AND shr_deny share_sample = 0 \<and> shr_access share_sample AND shr_deny share_reader = 0"
proof -
  have "\<not> compat_mode share_reader" "\<not> compat_mode share_sample"
    by (simp_all add: share_reader_def share_sample_def compat_mode_def has_def F_COMPAT_def)
  then show ?thesis
    using conjunct1 [OF share_exclusion [OF reader_reach], rule_format, of 0 1] by (simp add: plain_file_def)
qed

lemma conflict_sym: "conflict a b \<longleftrightarrow> conflict b a"
  by (auto simp: conflict_def has_def and.commute)

lemma loop_plain_eq:
  assumes "\<not> compat_mode shr" and "\<forall>s\<in>set ss. \<not> compat_mode s" and "sorted_wrt (\<lambda>a b. \<not> conflict a b) ss"
  shows "share_loop ro shr ss =
    (if \<exists>s\<in>set ss. same_owner s shr \<and> shr_access s = shr_access shr \<and> shr_deny s = shr_deny shr then Some EEXIST
     else if \<exists>s\<in>set ss. conflict shr s then Some EAGAIN else None)"
  using assms
proof (induction ss)
  case (Cons s ss)
  have "\<not> conflict shr s" if "t \<in> set ss" "shr_access t = shr_access shr" "shr_deny t = shr_deny shr" for t
  proof -
    have "conflict shr s = conflict t s"
      using that(2,3) by (simp add: conflict_def)
    then show ?thesis
      using Cons.prems(3) that(1) conflict_sym [of s t] by simp
  qed
  then show ?case
    using Cons by (auto simp: conflict_def)
qed simp

text \<open>
  What \<open>add_share\<close> decides outside of compatibility mode: a valid request is refused with \<^verbatim>\<open>EEXIST\<close>
  exactly if the owner has a reservation of the same modes, otherwise with \<^verbatim>\<open>EAGAIN\<close> exactly if it
  conflicts with a reservation, and otherwise is granted and becomes the head of the list.
\<close>

lemma add_share_decides:
  assumes "share_reach vp" and "\<forall>s\<in>set (v_shrlocks vp). \<not> compat_mode s" and "share_valid shr" and "\<not> compat_mode shr"
  shows "add_share vp shr =
    (if \<exists>s\<in>set (v_shrlocks vp). same_owner s shr \<and> shr_access s = shr_access shr \<and> shr_deny s = shr_deny shr then (Some EEXIST, vp)
     else if \<exists>s\<in>set (v_shrlocks vp). conflict shr s then (Some EAGAIN, vp)
     else (None, vp\<lparr>v_shrlocks := shr # v_shrlocks vp\<rparr>))"
proof -
  have "sorted_wrt (\<lambda>a b. compat_mode a \<or> compat_mode b \<or> \<not> conflict a b) (v_shrlocks vp)"
    using share_reach_inv [OF assms(1)] by (simp add: shares_ok_def)
  then have "sorted_wrt (\<lambda>a b. \<not> conflict a b) (v_shrlocks vp)"
    by (rule sorted_wrt_mono_rel [rotated]) (use assms(2) in auto)
  from loop_plain_eq [OF assms(4,2) this] show ?thesis
    using assms(3) stored_plain [OF assms(4)] by (auto simp: add_share_def)
qed

lemma add_share_decides_witness:
  "add_share (plain_file [share_sample]) (share_sample\<lparr>shr_pid := 7\<rparr>) = (Some EAGAIN, plain_file [share_sample])
   \<and> add_share (plain_file [share_sample]) share_sample = (Some EEXIST, plain_file [share_sample])"
proof -
  have "share_valid share_sample" "\<not> compat_mode share_sample" "share_valid (share_sample\<lparr>shr_pid := 7\<rparr>)"
    "\<not> compat_mode (share_sample\<lparr>shr_pid := 7\<rparr>)" "conflict (share_sample\<lparr>shr_pid := 7\<rparr>) share_sample"
    by (simp_all add: share_sample_def share_valid_def has_def share_modes compat_mode_def conflict_def)
  then show ?thesis
    using add_share_decides [OF sample_reach, of share_sample] add_share_decides [OF sample_reach, of "share_sample\<lparr>shr_pid := 7\<rparr>"]
    by (simp add: plain_file_def same_owner_def) (simp add: share_sample_def)
qed

text \<open>
  A reservation that was granted to an owner who had none is recognised when it is asked for
  again, provided that no other mode was set with \<^verbatim>\<open>F_COMPAT\<close>, and deleting it gives the list
  as it was.
\<close>

lemma share_add_delete:
  assumes "add_share vp shr = (None, vp')" and "\<not> (\<exists>s\<in>set (v_shrlocks vp). del_match shr s)"
  shows "del_share vp' shr = (None, vp) \<and> (shr_deny (share_stored shr) = shr_deny shr \<longrightarrow> add_share vp' shr = (Some EEXIST, vp'))"
proof -
  have vp': "share_valid shr" "vp' = vp\<lparr>v_shrlocks := share_stored shr # v_shrlocks vp\<rparr>"
    using add_share_cases [OF assms(1)] by auto
  have "del_match shr (share_stored shr)"
    by (simp add: del_match_def share_stored_def)
  moreover have "filter (\<lambda>s. \<not> del_match shr s) (v_shrlocks vp) = v_shrlocks vp"
    using assms(2) by (simp add: filter_id_conv)
  ultimately show ?thesis
    using vp' same_owner_eq(3) [of shr] by (cases vp) (auto simp: del_share_eq add_share_def)
qed

lemma share_add_delete_witness:
  "del_share (plain_file [share_sample]) share_sample = (None, plain_file [])"
proof -
  have "add_share (plain_file []) share_sample = (None, plain_file [share_sample])"
    by (simp add: plain_file_def share_sample_def add_share_def share_valid_def has_def share_stored_def compat_mode_def share_modes)
  then show ?thesis
    using share_add_delete [of "plain_file []" share_sample] by (auto simp: plain_file_def)
qed

text \<open>
  Three lapses. Deleting by owner looks at the bytes of the owner only: reservations of other
  systems and processes with the same bytes go too, and with an empty owner it removes all
  reservations without one whoever made them, as when a process closes the file. And the
  check of the open mode lets reservations for reading and writing pass on a file open for
  reading only.
\<close>

lemma del_ignores_sysid:
  "s \<in> set (v_shrlocks vp) \<Longrightarrow> shr_owner s = shr_owner shr \<Longrightarrow>
     fst (del_share vp shr) = None \<and> s \<notin> set (v_shrlocks (snd (del_share vp shr)))"
  by (auto simp: del_share_eq del_match_def intro!: bexI [of _ s])

lemma close_removes_ownerless: "shr_owner s = [] \<Longrightarrow> s \<notin> set (v_shrlocks (cleanshares vp p))"
  by (simp add: cleanshares_eq)

lemma write_share_unchecked:
  "flag AND FREAD \<noteq> 0 \<Longrightarrow> shr_access shr = F_RWACC \<Longrightarrow> fs_shrlock vp F_SHARE shr flag = (let (e, vp) = add_share vp shr in (e, shr, vp))"
  by (simp add: fs_shrlock_def share_modes)

end
