(* ===== verification/Disksort.thy ===== *)
theory Disksort
  imports Kern_Prelude "HOL-Library.Multiset"
begin

text \<open>
  Seek sort for disks, \<^verbatim>\<open>uts/common/os/bdev_dsort.c\<close>: the queue of the requests of a disk as two
  sorted queues behind each other, the requests ahead of the arm and those it has passed.
\<close>

section \<open>Operations\<close>

text \<open>
  A request: its address and its cylinder, which the driver has put into \<^verbatim>\<open>b_resid\<close>. The chain from
  \<^verbatim>\<open>b_actf\<close> along \<^verbatim>\<open>av_forw\<close> is the list of its requests; \<^verbatim>\<open>b_actl\<close> points to the last one.
\<close>

record buf =
  buf_addr :: "32 word"
  b_cylin :: "32 word"

record diskhd =
  b_actf :: "buf list"
  b_actl :: "32 word option"

text \<open>
  Each loop walks from \<open>ap\<close>, with the list behind it, to the request that \<open>bp\<close> goes behind. It
  returns the requests it passed, the last of them being that one, and the list behind.
\<close>

fun sort_second :: "buf \<Rightarrow> buf \<Rightarrow> buf list \<Rightarrow> buf list \<times> buf list" where
  "sort_second bp ap [] = ([ap], [])"
| "sort_second bp ap (nx # rest) =
     (if b_cylin bp < b_cylin nx then ([ap], nx # rest)
      else let (pre, post) = sort_second bp nx rest in (ap # pre, post))"

fun find_second :: "buf \<Rightarrow> buf \<Rightarrow> buf list \<Rightarrow> buf list \<times> buf list" where
  "find_second bp ap [] = ([ap], [])"
| "find_second bp ap (nx # rest) =
     (if b_cylin nx < b_cylin ap then sort_second bp ap (nx # rest)
      else let (pre, post) = find_second bp nx rest in (ap # pre, post))"

fun sort_first :: "buf \<Rightarrow> buf \<Rightarrow> buf list \<Rightarrow> buf list \<times> buf list" where
  "sort_first bp ap [] = ([ap], [])"
| "sort_first bp ap (nx # rest) =
     (if b_cylin nx < b_cylin ap \<or> b_cylin bp < b_cylin nx then ([ap], nx # rest)
      else let (pre, post) = sort_first bp nx rest in (ap # pre, post))"

definition disksort :: "diskhd \<Rightarrow> buf \<Rightarrow> diskhd" where
  "disksort dp bp =
     (case b_actf dp of
        [] \<Rightarrow> dp\<lparr>b_actf := [bp], b_actl := Some (buf_addr bp)\<rparr>
      | ap # rest \<Rightarrow>
          let (pre, post) = (if b_cylin bp < b_cylin ap then find_second bp ap rest else sort_first bp ap rest)
          in dp\<lparr>b_actf := pre @ bp # post,
                b_actl := if Some (buf_addr (last pre)) = b_actl dp then Some (buf_addr bp) else b_actl dp\<rparr>)"

section \<open>Two queues\<close>

text \<open>
  What the chain stands for: the first queue is its longest ascending beginning, the second
  queue the rest.
\<close>

fun first_queue :: "buf list \<Rightarrow> buf list" where
  "first_queue (a # b # rest) = (if b_cylin b < b_cylin a then [a] else a # first_queue (b # rest))"
| "first_queue rest = rest"

fun second_queue :: "buf list \<Rightarrow> buf list" where
  "second_queue (a # b # rest) = (if b_cylin b < b_cylin a then b # rest else second_queue (b # rest))"
| "second_queue rest = []"

text \<open>Insertion into a sorted queue behind the requests for the same cylinder.\<close>

fun enqueue :: "buf \<Rightarrow> buf list \<Rightarrow> buf list" where
  "enqueue bp [] = [bp]"
| "enqueue bp (a # rest) = (if b_cylin bp < b_cylin a then bp # a # rest else a # enqueue bp rest)"

text \<open>
  The chain is well formed: both queues ascend, the requests of the second queue are before the
  first request of the first, no request is in it twice, and \<^verbatim>\<open>b_actl\<close> is the last one.
\<close>

definition ascending :: "buf list \<Rightarrow> bool" where
  "ascending q = sorted (map b_cylin q)"

definition disk_ok :: "diskhd \<Rightarrow> bool" where
  "disk_ok dp \<longleftrightarrow> (\<exists>xs ys. b_actf dp = xs @ ys \<and> ascending xs \<and> ascending ys \<and> (xs = [] \<longrightarrow> ys = [])
       \<and> (\<forall>y\<in>set ys. b_cylin y < b_cylin (hd xs)))
     \<and> distinct (map buf_addr (b_actf dp)) \<and> (b_actf dp \<noteq> [] \<longrightarrow> b_actl dp = Some (buf_addr (last (b_actf dp))))"

lemma ascending_Nil [simp]: "ascending []"
  by (simp add: ascending_def)

lemma first_second: "first_queue q @ second_queue q = q"
  by (induction q rule: first_queue.induct) auto

lemma queues_eq:
  assumes "ascending (x # xs)" and "\<forall>y\<in>set ys. b_cylin y < b_cylin x"
  shows "first_queue (x # xs @ ys) = x # xs" and "second_queue (x # xs @ ys) = ys"
proof -
  have "first_queue (x # xs @ ys) = x # xs \<and> second_queue (x # xs @ ys) = ys"
    if "ascending (x # xs)" "\<forall>y\<in>set ys. b_cylin y < b_cylin x" for x xs
    using that
  proof (induction xs arbitrary: x)
    case Nil
    then show ?case by (cases ys) auto
  next
    case (Cons b xs)
    then have "\<forall>y\<in>set ys. b_cylin y < b_cylin b"
      by (fastforce simp: ascending_def)
    with Cons show ?case
      by (auto simp: ascending_def not_less [symmetric])
  qed
  with assms show "first_queue (x # xs @ ys) = x # xs" "second_queue (x # xs @ ys) = ys"
    by blast+
qed

lemma enqueue_set [simp]: "set (enqueue bp q) = insert bp (set q)" "mset (enqueue bp q) = add_mset bp (mset q)"
  by (induction q) auto

lemma enqueue_ascending: "ascending q \<Longrightarrow> ascending (enqueue bp q)"
  by (induction q) (auto simp: ascending_def)

text \<open>The three loops.\<close>

lemma sort_second_eq:
  "sort_second bp ap ys = (pre, post) \<Longrightarrow> ascending ys \<Longrightarrow> pre @ bp # post = ap # enqueue bp ys \<and> pre \<noteq> [] \<and> pre @ post = ap # ys"
  by (induction bp ap ys arbitrary: pre post rule: sort_second.induct) (auto simp: ascending_def split: if_splits prod.splits)

lemma find_second_eq:
  "find_second bp x (xs @ ys) = (pre, post) \<Longrightarrow> ascending (x # xs) \<Longrightarrow> ascending ys \<Longrightarrow> \<forall>y\<in>set ys. b_cylin y < b_cylin x \<Longrightarrow>
     pre @ bp # post = x # xs @ enqueue bp ys \<and> pre \<noteq> [] \<and> pre @ post = x # xs @ ys"
proof (induction xs arbitrary: x pre post)
  case Nil
  then show ?case
    using sort_second_eq [of bp x ys pre post] by (cases ys) auto
next
  case (Cons b xs)
  have b: "\<not> b_cylin b < b_cylin x" "ascending (b # xs)" "\<forall>y\<in>set ys. b_cylin y < b_cylin b"
    using Cons.prems(2,4) by (fastforce simp: ascending_def)+
  obtain p where "find_second bp b (xs @ ys) = (p, post)" "pre = x # p"
    using Cons.prems(1) b(1) by (auto split: prod.splits)
  with Cons.IH [OF _ b(2) Cons.prems(3) b(3)] show ?case
    by auto
qed

lemma sort_first_eq:
  "sort_first bp x (xs @ ys) = (pre, post) \<Longrightarrow> ascending (x # xs) \<Longrightarrow> \<forall>y\<in>set ys. b_cylin y < b_cylin x \<Longrightarrow> b_cylin x \<le> b_cylin bp \<Longrightarrow>
     pre @ bp # post = enqueue bp (x # xs) @ ys \<and> pre \<noteq> [] \<and> pre @ post = x # xs @ ys"
proof (induction xs arbitrary: x pre post)
  case Nil
  then show ?case by (cases ys) auto
next
  case (Cons b xs)
  have b: "\<not> b_cylin b < b_cylin x" "ascending (b # xs)" "\<forall>y\<in>set ys. b_cylin y < b_cylin b"
    using Cons.prems(2,3) by (fastforce simp: ascending_def)+
  show ?case
  proof (cases "b_cylin bp < b_cylin b")
    case True
    then show ?thesis
      using Cons.prems by auto
  next
    case False
    then obtain p where "sort_first bp b (xs @ ys) = (p, post)" "pre = x # p"
      using Cons.prems(1) b(1) by (auto split: prod.splits)
    with Cons.IH [OF _ b(2,3)] show ?thesis
      using Cons.prems(4) False by auto
  qed
qed

lemma disk_okE:
  assumes "disk_ok dp" and "b_actf dp \<noteq> []"
  obtains x xs ys where "b_actf dp = x # xs @ ys" "first_queue (b_actf dp) = x # xs" "second_queue (b_actf dp) = ys"
    "ascending (x # xs)" "ascending ys" "\<forall>y\<in>set ys. b_cylin y < b_cylin x"
proof -
  obtain zs ys where q: "b_actf dp = zs @ ys" "ascending zs" "ascending ys" "zs = [] \<longrightarrow> ys = []" "\<forall>y\<in>set ys. b_cylin y < b_cylin (hd zs)"
    using assms(1) by (auto simp: disk_ok_def)
  with assms(2) obtain x xs where "zs = x # xs"
    by (cases zs) auto
  with q show thesis
    using queues_eq [of x xs ys] by (intro that [of x xs ys]) auto
qed

lemma disk_okI:
  assumes "b_actf dp = x # xs @ ys" and "ascending (x # xs)" and "ascending ys" and "\<forall>y\<in>set ys. b_cylin y < b_cylin x"
    and "distinct (map buf_addr (b_actf dp))" and "b_actl dp = Some (buf_addr (last (b_actf dp)))"
  shows "disk_ok dp"
proof -
  have "b_actf dp = (x # xs) @ ys"
    using assms(1) by simp
  then show ?thesis
    unfolding disk_ok_def using assms(2-6) by (metis list.distinct(1) list.sel(1))
qed

text \<open>The end of the chain after an insertion.\<close>

lemma last_insert:
  assumes "pre \<noteq> []" and "distinct (map buf_addr (pre @ post))" and "l = Some (buf_addr (last (pre @ post)))"
  shows "(if Some (buf_addr (last pre)) = l then Some (buf_addr bp) else l) = Some (buf_addr (last (pre @ bp # post)))"
proof (cases "post = []")
  case False
  then have "buf_addr (last post) \<in> buf_addr ` set post"
    by (intro imageI last_in_set)
  then have "buf_addr (last post) \<notin> buf_addr ` set pre"
    using assms(2) by auto
  then have "buf_addr (last pre) \<noteq> buf_addr (last post)"
    using assms(1) by (metis image_eqI last_in_set)
  then show ?thesis
    using False assms(3) by simp
qed (use assms in simp)

lemma disksort_empty:
  assumes "b_actf dp = []"
  shows "b_actf (disksort dp bp) = [bp]" and "disk_ok (disksort dp bp)"
proof -
  show q: "b_actf (disksort dp bp) = [bp]"
    using assms by (simp add: disksort_def)
  show "disk_ok (disksort dp bp)"
    using assms by (intro disk_okI [of _ bp "[]" "[]"]) (simp_all add: q, simp_all add: ascending_def disksort_def)
qed

text \<open>Where the request goes in a chain that is not empty, the chain being linked up to its end.\<close>

lemma disksort_place:
  assumes "disk_ok dp" and "buf_addr bp \<notin> buf_addr ` set (b_actf dp)" and c: "b_actf dp = x # q"
    and q: "q = xs @ ys" "ascending (x # xs)" "ascending ys" "\<forall>y\<in>set ys. b_cylin y < b_cylin x"
  shows "b_actf (disksort dp bp) = (if b_cylin bp < b_cylin x then x # xs @ enqueue bp ys else x # enqueue bp xs @ ys)"
    and "distinct (map buf_addr (b_actf (disksort dp bp)))"
    and "b_actl (disksort dp bp) = Some (buf_addr (last (b_actf (disksort dp bp))))"
proof -
  have d: "distinct (map buf_addr (x # q))" "b_actl dp = Some (buf_addr (last (x # q)))"
    using assms(1) c by (simp_all add: disk_ok_def)
  obtain pre post where w: "(if b_cylin bp < b_cylin x then find_second bp x q else sort_first bp x q) = (pre, post)"
    by fastforce
  have p: "pre \<noteq> []" "pre @ post = x # q"
    "pre @ bp # post = (if b_cylin bp < b_cylin x then x # xs @ enqueue bp ys else x # enqueue bp xs @ ys)"
    using w find_second_eq [of bp x xs ys pre post] sort_first_eq [of bp x xs ys pre post] q by (auto split: if_splits)
  have f: "b_actf (disksort dp bp) = pre @ bp # post"
    "b_actl (disksort dp bp) = (if Some (buf_addr (last pre)) = b_actl dp then Some (buf_addr bp) else b_actl dp)"
    using c w by (simp_all add: disksort_def)
  show "b_actf (disksort dp bp) = (if b_cylin bp < b_cylin x then x # xs @ enqueue bp ys else x # enqueue bp xs @ ys)"
    using f(1) p(3) by simp
  show "b_actl (disksort dp bp) = Some (buf_addr (last (b_actf (disksort dp bp))))"
    unfolding f using p(1,2) d by (intro last_insert) simp_all
  have "distinct (map buf_addr (pre @ post))" "buf_addr bp \<notin> buf_addr ` set (pre @ post)"
    using d(1) assms(2) c p(2) by simp_all
  then show "distinct (map buf_addr (b_actf (disksort dp bp)))"
    unfolding f by auto
qed

lemma disksort_queues:
  assumes "disk_ok dp" and "buf_addr bp \<notin> buf_addr ` set (b_actf dp)" and c: "b_actf dp = x # q"
  shows "disk_ok (disksort dp bp)" and "\<exists>q'. b_actf (disksort dp bp) = x # q'"
    and "first_queue (b_actf (disksort dp bp)) = (if b_cylin bp < b_cylin x then first_queue (x # q) else enqueue bp (first_queue (x # q)))"
    and "second_queue (b_actf (disksort dp bp)) = (if b_cylin bp < b_cylin x then enqueue bp (second_queue (x # q)) else second_queue (x # q))"
proof -
  obtain xs ys where q: "q = xs @ ys" "first_queue (x # q) = x # xs" "second_queue (x # q) = ys"
    "ascending (x # xs)" "ascending ys" "\<forall>y\<in>set ys. b_cylin y < b_cylin x"
    using disk_okE [OF assms(1)] c by (metis list.distinct(1) list.inject)
  note p = disksort_place [OF assms q(1,4-6)]
  have e: "ascending (enqueue bp ys)" "\<not> b_cylin bp < b_cylin x \<Longrightarrow> ascending (x # enqueue bp xs)"
    "b_cylin bp < b_cylin x \<Longrightarrow> \<forall>y\<in>set (enqueue bp ys). b_cylin y < b_cylin x"
    using enqueue_ascending [OF q(5)] enqueue_ascending [OF q(4), of bp] q(6) by auto
  show "disk_ok (disksort dp bp)"
    using p e q(4-6) disk_okI [of "disksort dp bp" x xs "enqueue bp ys"] disk_okI [of "disksort dp bp" x "enqueue bp xs" ys]
    by (cases "b_cylin bp < b_cylin x") auto
  show "\<exists>q'. b_actf (disksort dp bp) = x # q'"
    using p(1) by auto
  show "first_queue (b_actf (disksort dp bp)) = (if b_cylin bp < b_cylin x then first_queue (x # q) else enqueue bp (first_queue (x # q)))"
    "second_queue (b_actf (disksort dp bp)) = (if b_cylin bp < b_cylin x then enqueue bp (second_queue (x # q)) else second_queue (x # q))"
    unfolding q(2,3) using p(1) queues_eq [OF q(4) e(3)] queues_eq [OF e(2) q(6)] by auto
qed

text \<open>
  C26. \<open>disksort\<close> keeps two sorted queues: on a well-formed chain a request for a cylinder before the
  one of the first request goes into the second queue, any other into the first, in both behind
  all requests for the same or a lower cylinder; the other queue is unchanged, an empty chain
  becomes the request alone, and the chain is well formed again, its last request known.
\<close>

theorem disksort_refines:
  assumes "disk_ok dp" and "buf_addr bp \<notin> buf_addr ` set (b_actf dp)"
  defines "q \<equiv> b_actf dp" and "q' \<equiv> b_actf (disksort dp bp)"
  shows "disk_ok (disksort dp bp)
    \<and> first_queue q' @ second_queue q' = q'
    \<and> (if q = [] then q' = [bp]
       else if b_cylin bp < b_cylin (hd q)
       then first_queue q' = first_queue q \<and> second_queue q' = enqueue bp (second_queue q)
       else first_queue q' = enqueue bp (first_queue q) \<and> second_queue q' = second_queue q)"
  unfolding q_def q'_def first_second
  using disksort_empty [of dp bp] disksort_queues [OF assms(1,2)] by (cases "b_actf dp") auto

text \<open>Requests of the addresses 1, 2, \dots for the cylinders 5, 8, 2.\<close>

definition disk_sample :: diskhd where
  "disk_sample = disksort (disksort (disksort \<lparr>b_actf = [], b_actl = None\<rparr> \<lparr>buf_addr = 1, b_cylin = 5\<rparr>)
     \<lparr>buf_addr = 2, b_cylin = 8\<rparr>) \<lparr>buf_addr = 3, b_cylin = 2\<rparr>"

lemma disk_sample_eq: "disk_sample = \<lparr>b_actf = [\<lparr>buf_addr = 1, b_cylin = 5\<rparr>, \<lparr>buf_addr = 2, b_cylin = 8\<rparr>, \<lparr>buf_addr = 3, b_cylin = 2\<rparr>],
    b_actl = Some 3\<rparr>"
  by (simp add: disk_sample_def disksort_def)

lemma disk_sample_ok: "disk_ok disk_sample"
  unfolding disk_sample_eq
  by (rule disk_okI [of _ "\<lparr>buf_addr = 1, b_cylin = 5\<rparr>" "[\<lparr>buf_addr = 2, b_cylin = 8\<rparr>]" "[\<lparr>buf_addr = 3, b_cylin = 2\<rparr>]"])
    (simp_all add: ascending_def)

theorem disksort_refines_witness:
  "second_queue (b_actf (disksort disk_sample \<lparr>buf_addr = 4, b_cylin = 3\<rparr>))
     = [\<lparr>buf_addr = 3, b_cylin = 2\<rparr>, \<lparr>buf_addr = 4, b_cylin = 3\<rparr>]"
  using disksort_refines [OF disk_sample_ok, of "\<lparr>buf_addr = 4, b_cylin = 3\<rparr>"] by (simp add: disk_sample_eq)

section \<open>One-way scan\<close>















end
