(* ===== verification/Spec2Isabelle.thy ===== *)
theory Spec2Isabelle
  imports Rmap Timeval Pid Setid Sem_Sets Msg_Reach Callout_Tables Rpc_Safe Share Disksort
begin

text \<open>
  Verification of core services of the Solaris 2.6 kernel.

  \<^bold>\<open>The program.\<close> The repository holds the sources of Solaris 2.6: the kernel under
  \<^verbatim>\<open>src/os_net/src_ws/usr/src/uts\<close>, the commands and libraries beside it, the platform code under
  \<^verbatim>\<open>src/ps\<close> and the administration tools under \<^verbatim>\<open>src/admin\<close>. This development models services
  of the machine-independent kernel (\<^verbatim>\<open>uts/common\<close>, where all file names below are) that keep
  state of their own and that other parts of the kernel rely on. How they interact:

  \<^item> the semaphore facility takes its semaphores from a resource map and its sets from the key
    table of the common IPC code, and checks permissions against credentials; the message facility
    does the same with the segments of its text area and its queues;
  \<^item> the calls that change user ids switch credentials, which are shared and reference
    counted, and keep the number of processes per user;
  \<^item> callouts are driven by the clock and call back into the rest of the kernel;
  \<^item> the XDR filters work on any stream through its operations vector: a memory buffer, or a chain of
    message blocks, as the RPC code sends and receives it; the filters for the messages of remote
    procedure calls are built on them, and access the memory of a stream directly (in line) where the
    stream allows it;
  \<^item> share reservations are kept per file and are reached through the file systems; disk queues
    are sorted for the drivers.

  \<^bold>\<open>Common choices.\<close> The kernel is the 32-bit one: \<^verbatim>\<open>int\<close>, \<^verbatim>\<open>long\<close> and pointers are 32 bits. Where
  wrap-around, sign or single bits matter a value is a word or has the reduction written out
  (\<open>uadd\<close>, \<open>s16\<close>); counters that cannot reach their limit are natural numbers. A routine that may
  panic or run off an array returns an \<open>outcome\<close> (\<open>Done\<close>, \<open>Panic\<close>, \<open>Overrun\<close>), a system call that
  fails an \<open>errno\<close>. A section that runs under one lock is one step; where the code gives its lock
  up, sleeps or calls out, the model has separate operations for what comes before and after, or what
  others do in between as a parameter, and theorems about all orders of them. Memory from the
  allocator is a parameter. A union of words is these words under several names, another union a
  datatype with a constructor for each member.

  \<^bold>\<open>Theories.\<close>

  \<^item> \<open>Kern_Prelude\<close>: error numbers, outcomes, 32-bit arithmetic, lemmas on lists and sums.

  \<^item> \<open>Rmap\<close> models \<^verbatim>\<open>os/rmap.c\<close>: the array of free segments as a list of entries ended by an entry of
  size 0, \<open>rmalloc\<close>, \<open>rmalloc_wait\<close>, \<open>rmfree\<close> with coalescing and with the loss of a segment when the
  array is full, \<open>rmget\<close>, \<open>rmallocmap\<close>. When the array is full \<open>rmfree\<close> gives up the lock to report it
  and tries again: its sections under the lock are steps of their own (\<open>rmfree_enter\<close>,
  \<open>rmfree_retry\<close>), between which others change the map. The lemmas abstract a map to its set of free
  units and show first fit, exact release, when it panics, and that clients of the interface
  \<open>unit_alloc\<close>, of which resource maps are the interpretation, never share a unit, also while
  releases are under way.

  \<^item> \<open>Timeval\<close> models the arithmetic of \<^verbatim>\<open>os/timers.c\<close>: \<open>timevaladd\<close> and relatives, \<open>itimerdecr\<close>,
  \<open>timespectohz\<close>, \<open>hrt2ts\<close> and \<open>ts2hrt\<close> by shifts, \<open>uniqtime\<close>, the calendar conversions
  \<open>utc_to_tod\<close> and \<open>tod_to_utc\<close>. The lemmas show that the shifts divide exactly, that the
  calendar conversions are inverse, that time stamps are unique and that timers do not drift.

  \<^item> \<open>Bitmap\<close> models \<^verbatim>\<open>os/bitmap.c\<close> and \<^verbatim>\<open>sys/bitmap.h\<close>, with the searches for a free bit and a free
  range against their specification. \<open>Upcount\<close> and \<open>Pid\<close> model \<^verbatim>\<open>os/pid.c\<close>: the counts of processes
  per user behind the interface \<open>user_counts\<close>, and the process ids; the search for an
  unused id is a partial function with a proof that it ends while an id is unused.

  \<^item> \<open>Cred\<close> models \<^verbatim>\<open>os/cred.c\<close> on a heap of credentials, and \<open>Setid\<close> the calls of
  \<^verbatim>\<open>syscall/uid.c\<close>, \<^verbatim>\<open>syscall/gid.c\<close> and \<^verbatim>\<open>syscall/groups.c\<close>. The lemmas show that the
  copying and counting implement a plain change of the process's credential, and what
  an unprivileged process can change.

  \<^item> \<open>Ipc\<close> models \<^verbatim>\<open>os/ipc.c\<close>, \<open>Sem\<close> all of \<^verbatim>\<open>syscall/sem.c\<close>: the arrays of sets and semaphores, the undo
  structures, every command of \<open>semctl\<close>, and \<open>semop\<close> cut where it sleeps. \<open>Sem_Ops\<close> shows that the
  operations of one call take effect all together or not at all, \<open>Sem_Sets\<close> that every reachable
  state is well formed (an inductive set of states, by rule induction) and what creation, removal and
  exit do. The code takes an identifier with its sign bit set for the one without, but records
  adjustments under the one it was given; reachable states exclude the two calls for which this
  matters, removing a set and operations with \<^verbatim>\<open>SEM_UNDO\<close>, under such identifiers.

  \<^item> \<open>Msg\<close> models all of \<^verbatim>\<open>os/msg.c\<close> at the level of its pointers: headers in an array, linked into
  one list per queue and a free list, texts in segments of a shared area. \<open>Msg_Queues\<close> relates such a
  state to one plain list of messages per queue (\<open>messages\<close>) and shows that the search picks the
  first of the best messages; \<open>Msg_Calls\<close> states what sending and receiving do to the lists
  (\<open>snd_spec\<close>, \<open>rcv_spec\<close>); \<open>Msg_Reach\<close> has creation and removal, the invariant of all reachable states
  and the properties. The two loops over links are partial functions, and are shown to end on every
  reachable state; the bounds on the tunables (\<open>info_ok\<close>) are those the widths of the members need.

  \<^item> \<open>Callout\<close> models \<^verbatim>\<open>os/callout.c\<close>: buckets of callouts by due time, ticks that wrap, identifiers with
  their bit fields, deletion, the clock tick, and execution cut where the lock is released during a
  callout's function. \<open>Callout_Proofs\<close> has the lemmas on times, identifiers and insertion,
  \<open>Callout_Reach\<close> the invariant of a table under any order of operations of any number of
  threads, \<open>Callout_Tables\<close> the two tables and suspension. The loops over times end because the
  distance to the current time falls; times are compared by signed distance, so the clock may run at
  most \<open>2\<^sup>3\<^sup>1\<close> ticks ahead of a callout that is being executed or looked for (\<open>no_lag\<close>).

  \<^item> \<open>Xdr\<close> models the filters of \<^verbatim>\<open>rpc/xdr.c\<close>, \<^verbatim>\<open>rpc/xdr_array.c\<close> and \<^verbatim>\<open>rpc/xdr_refer.c\<close>.
  \<open>Xdr_Stream\<close> states what they need of a stream as the locales \<open>xdr_sink\<close> (what a stream to write on
  promises) and \<open>xdr_source\<close> (one to read from) and proves there which bytes each filter writes and
  reads, and with both together (\<open>xdr_medium\<close>) which values it conveys; longs are put and got at unit
  boundaries only. The locales \<open>xdr_inline_sink\<close>, \<open>xdr_inline_source\<close> and \<open>xdr_inline_medium\<close> extend
  them by access in line: the address a stream gives out, and what stores and loads there do to the
  bytes of the stream. \<open>Xdr_Mem\<close> models \<^verbatim>\<open>rpc/xdr_mem.c\<close>, interprets the locales and states the round trips,
  the safety of decoding arbitrary input, and the holes of two checks. \<open>Xdr_Mblk\<close> models
  \<^verbatim>\<open>rpc/xdr_mblk.c\<close>, with the blocks the stream has passed and those ahead as two lists and what
  the allocator will do as a list of results; \<open>Xdr_Chain\<close> interprets the locales a second time, for chains
  whose blocks, the last one excepted, hold whole units, as the transports make sure, since a long that
  is cut by the end of a block is not read; \<open>Xdr_Message\<close> states the round trips, that a chain implements a string of bytes, and how blocks are passed without copying.
  The loops end because each turn leaves a block or uses up a result of the allocator.

  \<^item> \<open>Rpc_Msg\<close> models \<^verbatim>\<open>rpc/rpc_prot.c\<close> and \<^verbatim>\<open>rpc/rpc_calmsg.c\<close>: the filters for call and reply
  messages and their parts, in line and through the operations of the stream, and the reading of a
  reply's status. The unions of a message are datatypes, so that storing one member replaces the
  others; an enumeration is a 32-bit word, and a pointer into a stream stands for the bytes there.
  \<open>Rpc_Stream\<close> proves in the locales which bytes the filters write and read on either way, also into the
  memory that a server provides for credential and verifier, \<open>Rpc\<close> that calls and replies survive an
  exchange through memory and through chains, that a reply written in two parts is the reply written
  at once, where the encoding of a header writes past the bytes it asked for, and which error a
  received reply gives. \<open>Rpc_Safe\<close> decodes arbitrary input: the filters return, and what they accept is
  within the limits of the protocol.

  \<^item> \<open>Share\<close> models \<^verbatim>\<open>os/share.c\<close> and \<^verbatim>\<open>fs_shrlock\<close> of \<^verbatim>\<open>fs/fs_subr.c\<close>: the list of reservations of a file, what is
  granted and refused in both modes, and the exclusion that holds under any order of calls. \<open>Disksort\<close>
  models \<^verbatim>\<open>os/bdev_dsort.c\<close>, with the way the driver \<^verbatim>\<open>sd.c\<close> takes a request off the chain when it starts
  it, and shows that the chain is two sorted queues and how often the arm goes back.

  \<^bold>\<open>Not modelled.\<close> Of the files above: the timer system calls of \<^verbatim>\<open>os/timers.c\<close>, the routines
  of \<^verbatim>\<open>os/pid.c\<close> that send signals or leave process groups, audit hooks, tracing and debugging output.
  Locks and sleep queues are replaced by atomic sections. The rest of the kernel (virtual memory, file
  systems, networking, STREAMS, the dispatcher, drivers, module loading), the commands, the libraries
  and the administration tools are not modelled: they are beyond the size of a development like this
  or are dominated by input and output. Of the RPC code the transports
  (\<^verbatim>\<open>rpc/clnt_clts.c\<close>, \<^verbatim>\<open>rpc/clnt_cots.c\<close>, \<^verbatim>\<open>rpc/svc.c\<close>, \<^verbatim>\<open>rpc/rpcmod.c\<close>) are left out with STREAMS, on
  which they rest.
\<close>

end
